(* ===== verification/Server_Prelude.thy ===== *)
theory Server_Prelude
  imports Main "HOL-Library.Word"
begin

text \<open>
  Shared vocabulary of the wineserver development: the NT status codes the modelled
  functions raise through \<^verbatim>\<open>set_error\<close>, results as sums (the left side carries the status),
  fixed-width integers, and the interface of a table that hands out keys for objects.
  The generic lemmas on lists, options and words that several components use are here.
\<close>

unbundle bit_operations_syntax

section \<open>Integers and status codes\<close>

type_synonym u8 = "8 word"
type_synonym u16 = "16 word"
type_synonym u32 = "32 word"
type_synonym u64 = "64 word"

text \<open>Pointers to server objects are opaque addresses; address 0 is \<^verbatim>\<open>NULL\<close>.\<close>

type_synonym ptr = nat

abbreviation (input) NULL :: ptr where "NULL \<equiv> 0"

datatype status =
    STATUS_SUCCESS
  | STATUS_NO_MEMORY
  | STATUS_INVALID_HANDLE
  | STATUS_INVALID_PARAMETER
  | STATUS_BUFFER_OVERFLOW
  | STATUS_BUFFER_TOO_SMALL
  | STATUS_INSUFFICIENT_RESOURCES
  | STATUS_PROCESS_IS_TERMINATING
  | STATUS_ACCESS_DENIED
  | STATUS_ACCESS_VIOLATION
  | STATUS_HANDLE_NOT_CLOSABLE
  | STATUS_OBJECT_TYPE_MISMATCH
  | STATUS_NOT_SAME_OBJECT
  | STATUS_OBJECT_NAME_INVALID
  | STATUS_OBJECT_NAME_NOT_FOUND
  | STATUS_SEMAPHORE_LIMIT_EXCEEDED
  | STATUS_MUTANT_NOT_OWNED
  | STATUS_NOT_IMPLEMENTED
  | STATUS_TIMEOUT
  | STATUS_PENDING
  | STATUS_ABANDONED_WAIT_0
  | STATUS_KERNEL_APC
  | STATUS_USER_APC
  | STATUS_THREAD_WAS_SUSPENDED
  | STATUS_THREAD_IS_TERMINATING
  | STATUS_SUSPEND_COUNT_EXCEEDED
  | STATUS_CANNOT_DELETE
  | STATUS_NO_MORE_ENTRIES
  | STATUS_NAME_TOO_LONG
  | STATUS_CHILD_MUST_BE_VOLATILE
  | STATUS_KEY_DELETED
  | STATUS_OBJECT_PATH_SYNTAX_BAD
  | STATUS_OBJECT_PATH_NOT_FOUND
  | STATUS_OBJECT_NAME_EXISTS
  | STATUS_OBJECT_NAME_COLLISION

text \<open>A wait that ends with the first object has the code of success.\<close>

abbreviation (input) STATUS_WAIT_0 :: status where "STATUS_WAIT_0 \<equiv> STATUS_SUCCESS"

type_synonym 'a result = "status + 'a"

section \<open>Lemma collections\<close>

named_theorems server_simps \<open>unfolding rules of the components' small accessors\<close>

section \<open>Lists\<close>

lemma nth_list_update_if:
  "i < length xs \<Longrightarrow> xs[j := x] ! i = (if i = j then x else xs ! i)"
  by (simp add: nth_list_update)

section \<open>Words\<close>

lemma unat_u16_less: "unat (g :: u16) < 65536"
  using unsigned_less[of g, where ?'a = nat] by simp

lemma and_mask16: "(h :: u32) AND 0xffff = take_bit 16 h"
  by (simp add: take_bit_eq_mask mask_eq_exp_minus_1)

lemma unat_take_bit: "unat (take_bit n (w :: 'a::len word)) = unat w mod 2 ^ n" if "n \<le> LENGTH('a)"
  using that by (subst unsigned_take_bit_eq) (simp_all add: take_bit_eq_mod)

lemma unat_drop_bit: "unat (drop_bit n (w :: 'a::len word)) = unat w div 2 ^ n"
  by (subst unat_drop_bit_eq) (rule drop_bit_eq_div)


section \<open>The interface of a table of keyed objects\<close>

text \<open>
  A table hands out a key for a value (\<open>alloc\<close>), finds the value of a key (\<open>lookup\<close>) and
  forgets a key (\<open>free\<close>). Several spellings of a key may denote one slot, so the laws are
  stated for the keys \<open>alloc\<close> returns, the canonical ones.
\<close>

datatype ('k, 'v) table_op = Alloc 'v | Free 'k

locale object_table =
  fixes inv :: "'s \<Rightarrow> bool"
    and canon :: "'k \<Rightarrow> bool"
    and lookup :: "'s \<Rightarrow> 'k \<Rightarrow> 'v option"
    and alloc :: "'s \<Rightarrow> 'v \<Rightarrow> ('s \<times> 'k) option"
    and free :: "'s \<Rightarrow> 'k \<Rightarrow> 's option"
  assumes inv_alloc: "inv s \<Longrightarrow> alloc s v = Some (s', k) \<Longrightarrow> inv s'"
    and inv_free: "inv s \<Longrightarrow> free s k = Some s' \<Longrightarrow> inv s'"
    and canon_alloc: "inv s \<Longrightarrow> alloc s v = Some (s', k) \<Longrightarrow> canon k"
    and alloc_fresh: "inv s \<Longrightarrow> alloc s v = Some (s', k) \<Longrightarrow> lookup s k = None"
    and lookup_alloc: "inv s \<Longrightarrow> alloc s v = Some (s', k) \<Longrightarrow> canon k' \<Longrightarrow>
      lookup s' k' = (if k' = k then Some v else lookup s k')"
    and lookup_free: "inv s \<Longrightarrow> free s k = Some s' \<Longrightarrow> canon k \<Longrightarrow> canon k' \<Longrightarrow>
      lookup s' k' = (if k' = k then None else lookup s k')"
begin

text \<open>A client's run: the table after a list of operations, \<open>None\<close> when one of them fails.\<close>

fun run :: "'s \<Rightarrow> ('k, 'v) table_op list \<Rightarrow> 's option" where
  "run s [] = Some s"
| "run s (Alloc v # ops) = (case alloc s v of None \<Rightarrow> None | Some (s', k) \<Rightarrow> run s' ops)"
| "run s (Free k # ops) = (case free s k of None \<Rightarrow> None | Some s' \<Rightarrow> run s' ops)"

definition canon_ops :: "('k, 'v) table_op list \<Rightarrow> bool" where
  "canon_ops ops = (\<forall>k. Free k \<in> set ops \<longrightarrow> canon k)"

lemma canon_ops_Cons [simp]:
  "canon_ops (Alloc v # ops) = canon_ops ops"
  "canon_ops (Free k # ops) = (canon k \<and> canon_ops ops)"
  by (auto simp: canon_ops_def)

lemma run_inv: "inv s \<Longrightarrow> run s ops = Some s' \<Longrightarrow> inv s'"
  by (induction s ops rule: run.induct)
    (fastforce split: option.splits dest: inv_alloc inv_free)+

text \<open>A key that no operation of the run frees keeps its value.\<close>

lemma run_keeps:
  assumes "inv s" "canon k" "lookup s k = Some v" "canon_ops ops" "Free k \<notin> set ops"
    and "run s ops = Some s'"
  shows "lookup s' k = Some v"
  using assms
proof (induction s ops rule: run.induct)
  case (1 s)
  then show ?case by simp
next
  case (2 s w ops)
  from "2.prems"(6) obtain s1 k1 where a: "alloc s w = Some (s1, k1)" and r: "run s1 ops = Some s'"
    by (auto split: option.splits)
  from a "2.prems"(1,3) have "k \<noteq> k1"
    using alloc_fresh by fastforce
  then have "lookup s1 k = Some v"
    using a "2.prems" lookup_alloc by simp
  moreover have "inv s1" using a "2.prems"(1) by (rule inv_alloc[rotated])
  ultimately show ?case
    using "2.IH"[OF a refl] "2.prems" r by simp
next
  case (3 s k1 ops)
  from "3.prems"(6) obtain s1 where f: "free s k1 = Some s1" and r: "run s1 ops = Some s'"
    by (auto split: option.splits)
  have "lookup s1 k = Some v"
    using f "3.prems" lookup_free[OF _ f] by auto
  moreover have "inv s1" using f "3.prems"(1) by (rule inv_free[rotated])
  ultimately show ?case
    using "3.IH"[OF f] "3.prems" r by simp
qed

text \<open>Hence a key handed out later is different from every key still in use.\<close>

lemma alloc_not_live:
  "inv s \<Longrightarrow> lookup s k = Some v \<Longrightarrow> alloc s w = Some (s', k') \<Longrightarrow> k' \<noteq> k"
  using alloc_fresh by fastforce

end

end
