(* ===== verification/User_Handles.thy ===== *)
theory User_Handles
  imports Server_Prelude
begin

text \<open>
  The user handle table of \<^verbatim>\<open>server/user.c\<close>: an array of entries in the session's shared
  memory, a parallel array of server pointers, and a free list threaded through the
  \<open>offset\<close> field of the free entries.  A handle packs the entry's index in its low word
  and the entry's generation in its high word.
\<close>

section \<open>State\<close>

definition FIRST_USER_HANDLE :: u32 where "FIRST_USER_HANDLE = 0x20"

definition MAX_USER_HANDLES :: nat where "MAX_USER_HANDLES = 32744"

record user_entry =
  offset :: u64
  tid :: u32
  pid :: u32
  uid :: u64
  utype :: u16
  generation :: u16

record obj_locator =
  loc_id :: u64
  loc_offset :: u64

text \<open>
  \<open>freelist\<close> is \<open>-1\<close> when no freed entry can be reused.  The two arrays have
  \<open>MAX_USER_HANDLES\<close> elements each.
\<close>

record user_state =
  user_entries :: "user_entry list"
  server_objects :: "ptr list"
  freelist :: u64
  nb_handles :: nat

section \<open>Operations\<close>

definition get_server_object :: "user_state \<Rightarrow> nat \<Rightarrow> ptr" where
  "get_server_object s i = server_objects s ! i"

definition set_server_object :: "user_state \<Rightarrow> nat \<Rightarrow> ptr \<Rightarrow> ptr \<times> user_state" where
  "set_server_object s i p =
     (server_objects s ! i, s\<lparr>server_objects := (server_objects s)[i := p]\<rparr>)"

definition handle_index :: "u32 \<Rightarrow> nat" where
  "handle_index h = unat (drop_bit 1 ((h AND 0xffff) - FIRST_USER_HANDLE))"

definition handle_generation :: "u32 \<Rightarrow> u16" where
  "handle_generation h = ucast (drop_bit 16 h)"

definition handle_to_entry :: "user_state \<Rightarrow> u32 \<Rightarrow> nat option" where
  "handle_to_entry s h =
     (let i = handle_index h; g = handle_generation h; e = user_entries s ! i in
      if nb_handles s \<le> i then None
      else if utype e = 0 then None
      else if g = 0 \<or> g = 0xffff then Some i
      else if g = generation e then Some i
      else None)"

definition make_handle :: "nat \<Rightarrow> u16 \<Rightarrow> u32" where
  "make_handle i g = push_bit 1 (of_nat i) + FIRST_USER_HANDLE + push_bit 16 (ucast g)"

definition entry_to_handle :: "user_state \<Rightarrow> nat \<Rightarrow> u32" where
  "entry_to_handle s i = make_handle i (generation (user_entries s ! i))"

text \<open>
  \<open>None\<close> is a store outside the array: the function has no test of \<open>nb_handles\<close> against
  the array's size, and what C does there is undefined.
\<close>

definition alloc_user_entry ::
    "user_state \<Rightarrow> obj_locator \<Rightarrow> u16 \<Rightarrow> u32 \<Rightarrow> u32 \<Rightarrow> (user_state \<times> nat) option" where
  "alloc_user_entry s loc ty cur_tid cur_pid =
     (let (i, g, s1) =
        (if freelist s \<noteq> -1
         then (let j = unat (freelist s); e = user_entries s ! j
               in (j, generation e + 1, s\<lparr>freelist := offset e\<rparr>))
         else (nb_handles s, 1, s\<lparr>nb_handles := nb_handles s + 1\<rparr>));
        g' = (if g = 0 \<or> g = 0xffff then 1 else g)
      in if i < length (user_entries s)
         then Some (s1\<lparr>user_entries := (user_entries s1)[i :=
                \<lparr>offset = loc_offset loc, tid = cur_tid, pid = cur_pid, uid = loc_id loc,
                 utype = ty, generation = g'\<rparr>]\<rparr>, i)
         else None)"

definition free_user_entry :: "user_state \<Rightarrow> nat \<Rightarrow> user_state" where
  "free_user_entry s i =
     (let e = user_entries s ! i in
      s\<lparr>user_entries := (user_entries s)[i := e\<lparr>utype := 0, offset := freelist s\<rparr>],
        freelist := of_nat i\<rparr>)"

text \<open>
  \<open>shared\<close> is the locator \<^verbatim>\<open>get_shared_object_locator\<close> gives for the shared object, when
  there is one.
\<close>

definition alloc_user_handle ::
    "user_state \<Rightarrow> ptr \<Rightarrow> obj_locator option \<Rightarrow> u16 \<Rightarrow> u32 \<Rightarrow> u32 \<Rightarrow> (user_state \<times> u32) option" where
  "alloc_user_handle s p shared ty cur_tid cur_pid =
     (let loc = (case shared of None \<Rightarrow> \<lparr>loc_id = 0, loc_offset = 0\<rparr> | Some l \<Rightarrow> l) in
      case alloc_user_entry s loc ty cur_tid cur_pid of
        None \<Rightarrow> None
      | Some (s1, i) \<Rightarrow>
          (let (_, s2) = set_server_object s1 i p in Some (s2, entry_to_handle s2 i)))"

definition get_user_object :: "user_state \<Rightarrow> u32 \<Rightarrow> u16 \<Rightarrow> ptr" where
  "get_user_object s h ty =
     (case handle_to_entry s h of
        None \<Rightarrow> NULL
      | Some i \<Rightarrow> if utype (user_entries s ! i) \<noteq> ty then NULL else get_server_object s i)"

definition get_user_full_handle :: "user_state \<Rightarrow> u32 \<Rightarrow> u32" where
  "get_user_full_handle s h =
     (if drop_bit 16 h \<noteq> 0 then h
      else case handle_to_entry s h of None \<Rightarrow> h | Some i \<Rightarrow> entry_to_handle s i)"

definition get_user_object_handle :: "user_state \<Rightarrow> u32 \<Rightarrow> u16 \<Rightarrow> ptr \<times> u32" where
  "get_user_object_handle s h ty =
     (case handle_to_entry s h of
        None \<Rightarrow> (NULL, h)
      | Some i \<Rightarrow> if utype (user_entries s ! i) \<noteq> ty then (NULL, h)
                  else (get_server_object s i, entry_to_handle s i))"

definition free_user_handle :: "user_state \<Rightarrow> u32 \<Rightarrow> (ptr \<times> user_state) result" where
  "free_user_handle s h =
     (case handle_to_entry s h of
        None \<Rightarrow> Inl STATUS_INVALID_HANDLE
      | Some i \<Rightarrow> (let (ret, s1) = set_server_object s i NULL in Inr (ret, free_user_entry s1 i)))"

fun next_entry_from :: "user_state \<Rightarrow> u16 \<Rightarrow> nat list \<Rightarrow> (ptr \<times> u32) option" where
  "next_entry_from s ty [] = None"
| "next_entry_from s ty (i # is) =
     (if ty = 0 \<or> utype (user_entries s ! i) = ty
      then Some (get_server_object s i, entry_to_handle s i)
      else next_entry_from s ty is)"

text \<open>The object after \<open>h\<close> and its handle; \<open>None\<close> leaves the caller's handle as it is.\<close>

definition next_user_handle :: "user_state \<Rightarrow> u32 \<Rightarrow> u16 \<Rightarrow> (ptr \<times> u32) option" where
  "next_user_handle s h ty =
     (if h = 0 then next_entry_from s ty [0..<nb_handles s]
      else (let i = handle_index h in
            if nb_handles s \<le> i then None
            else next_entry_from s ty [i + 1..<nb_handles s]))"

definition process_owned_types :: "u16 list" where
  "process_owned_types = [0x02, 0x03, 0x04, 0x08, 0x11]"

definition free_process_entry :: "u32 \<Rightarrow> nat \<Rightarrow> user_state \<Rightarrow> user_state" where
  "free_process_entry p i s =
     (let e = user_entries s ! i in
      if utype e \<in> set process_owned_types \<and> pid e = p then free_user_entry s i else s)"

definition free_process_user_handles :: "user_state \<Rightarrow> u32 \<Rightarrow> user_state" where
  "free_process_user_handles s p = fold (free_process_entry p) [0..<nb_handles s] s"

text \<open>The two requests clients send; the pointer of a client handle is \<open>-1\<close>, never used.\<close>

definition CLIENT_PTR :: ptr where "CLIENT_PTR = 2 ^ 64 - 1"

definition req_alloc_user_handle ::
    "user_state \<Rightarrow> u16 \<Rightarrow> u32 \<Rightarrow> u32 \<Rightarrow> (user_state \<times> u32) option" where
  "req_alloc_user_handle s ty cur_tid cur_pid = alloc_user_handle s CLIENT_PTR None ty cur_tid cur_pid"

definition req_free_user_handle :: "user_state \<Rightarrow> u32 \<Rightarrow> u16 \<Rightarrow> user_state result" where
  "req_free_user_handle s h ty =
     (case handle_to_entry s h of
        Some i \<Rightarrow> if utype (user_entries s ! i) = ty then Inr (free_user_entry s i)
                  else Inl STATUS_INVALID_HANDLE
      | None \<Rightarrow> Inl STATUS_INVALID_HANDLE)"

section \<open>Invariant, initial state and steps\<close>

primrec free_chain :: "user_entry list \<Rightarrow> u64 \<Rightarrow> nat list \<Rightarrow> bool" where
  "free_chain es w [] = (w = -1)"
| "free_chain es w (i # is) = (w = of_nat i \<and> free_chain es (offset (es ! i)) is)"

definition user_inv :: "user_state \<Rightarrow> bool" where
  "user_inv s =
     (length (user_entries s) = MAX_USER_HANDLES \<and> length (server_objects s) = MAX_USER_HANDLES \<and>
      nb_handles s \<le> MAX_USER_HANDLES \<and>
      (\<forall>i < nb_handles s. generation (user_entries s ! i) \<noteq> 0 \<and>
         generation (user_entries s ! i) \<noteq> 0xffff) \<and>
      (\<exists>fl. free_chain (user_entries s) (freelist s) fl \<and> distinct fl \<and>
         (\<forall>i \<in> set fl. i < nb_handles s \<and> utype (user_entries s ! i) = 0)))"

definition next_generation :: "u16 \<Rightarrow> u16" where
  "next_generation g = (if g + 1 = 0 \<or> g + 1 = 0xffff then 1 else g + 1)"

definition full_handle :: "u32 \<Rightarrow> bool" where
  "full_handle h = (handle_index h < MAX_USER_HANDLES \<and> handle_generation h \<noteq> 0 \<and>
     handle_generation h \<noteq> 0xffff \<and> h = make_handle (handle_index h) (handle_generation h))"

definition user_lookup :: "user_state \<Rightarrow> u32 \<Rightarrow> (u16 \<times> ptr) option" where
  "user_lookup s h = map_option (\<lambda>i. (utype (user_entries s ! i), get_server_object s i)) (handle_to_entry s h)"

definition user_alloc :: "u32 \<Rightarrow> u32 \<Rightarrow> obj_locator option \<Rightarrow> user_state \<Rightarrow> u16 \<times> ptr \<Rightarrow> (user_state \<times> u32) option" where
  "user_alloc t pd sh s v = (if fst v = 0 then None else alloc_user_handle s (snd v) sh (fst v) t pd)"

definition user_free :: "user_state \<Rightarrow> u32 \<Rightarrow> user_state option" where
  "user_free s h = (case free_user_handle s h of Inl _ \<Rightarrow> None | Inr (_, s') \<Rightarrow> Some s')"

definition user_init :: user_state where
  "user_init = \<lparr>user_entries = replicate MAX_USER_HANDLES
       \<lparr>offset = 0, tid = 0, pid = 0, uid = 0, utype = 0, generation = 0\<rparr>,
     server_objects = replicate MAX_USER_HANDLES NULL, freelist = -1, nb_handles = 0\<rparr>"

inductive user_step :: "user_state \<Rightarrow> user_state \<Rightarrow> bool" where
  step_alloc: "alloc_user_handle s p sh ty t pd = Some (s', h) \<Longrightarrow> user_step s s'"
| step_free: "free_user_handle s h = Inr (p, s') \<Longrightarrow> user_step s s'"
| step_req_free: "req_free_user_handle s h ty = Inr s' \<Longrightarrow> user_step s s'"
| step_exit: "user_step s (free_process_user_handles s p)"

inductive user_reachable :: "user_state \<Rightarrow> bool" where
  start: "user_reachable user_init"
| step: "user_reachable s \<Longrightarrow> user_step s s' \<Longrightarrow> user_reachable s'"

abbreviation owned_by :: "u32 \<Rightarrow> user_entry \<Rightarrow> bool" where
  "owned_by p e \<equiv> utype e \<in> set process_owned_types \<and> pid e = p"

definition user_full :: user_state where
  "user_full = user_init\<lparr>nb_handles := MAX_USER_HANDLES, user_entries := replicate MAX_USER_HANDLES
       \<lparr>offset = 0, tid = 7, pid = 8, uid = 0, utype = 1, generation = 1\<rparr>\<rparr>"

section \<open>Lemmas and properties\<close>

lemma unat_make_handle:
  assumes "i < MAX_USER_HANDLES"
  shows "unat (make_handle i g) = 2 * i + 32 + 65536 * unat g"
proof -
  have i: "i < 32744" using assms by (simp add: MAX_USER_HANDLES_def)
  have lt: "2 * i + 32 + 65536 * unat g < 2 ^ 32"
    using i unat_u16_less[of g] by simp
  have "make_handle i g = of_nat (2 * i + 32 + 65536 * unat g)"
    by (simp add: make_handle_def FIRST_USER_HANDLE_def push_bit_eq_mult)
  then show ?thesis
    using lt by (simp add: unsigned_of_nat take_bit_nat_eq_self del: of_nat_add of_nat_mult)
qed

lemma handle_index_make_handle:
  assumes "i < MAX_USER_HANDLES"
  shows "handle_index (make_handle i g) = i"
proof -
  have i: "i < 32744" using assms by (simp add: MAX_USER_HANDLES_def)
  let ?w = "take_bit 16 (make_handle i g)"
  have w: "unat ?w = 2 * i + 32"
    using unat_make_handle[OF assms, of g] i by (simp add: unat_take_bit)
  have "unat (?w - FIRST_USER_HANDLE) = 2 * i"
    using w by (subst unat_sub) (simp_all add: word_le_nat_alt FIRST_USER_HANDLE_def)
  then show ?thesis
    by (simp add: handle_index_def and_mask16 unat_drop_bit)
qed

lemma handle_generation_make_handle:
  assumes "i < MAX_USER_HANDLES"
  shows "handle_generation (make_handle i g) = g"
proof -
  have i: "i < 32744" using assms by (simp add: MAX_USER_HANDLES_def)
  have "unat (drop_bit 16 (make_handle i g)) = unat g"
    using unat_make_handle[OF assms, of g] i by (simp add: unat_drop_bit)
  then have "unat (handle_generation (make_handle i g)) = unat g"
    using unat_u16_less[of g] by (simp add: handle_generation_def unsigned_ucast_eq take_bit_nat_eq_self)
  then show ?thesis by (simp add: word_unat_eq_iff)
qed

lemma user_invI:
  assumes "free_chain (user_entries s) (freelist s) fl" "distinct fl"
    "\<forall>i \<in> set fl. i < nb_handles s \<and> utype (user_entries s ! i) = 0"
    "\<forall>i < nb_handles s. generation (user_entries s ! i) \<noteq> 0 \<and> generation (user_entries s ! i) \<noteq> 0xffff"
    "length (user_entries s) = MAX_USER_HANDLES" "length (server_objects s) = MAX_USER_HANDLES"
    "nb_handles s \<le> MAX_USER_HANDLES"
  shows "user_inv s"
  using assms unfolding user_inv_def by blast

lemma user_inv_lengths:
  "user_inv s \<Longrightarrow> length (user_entries s) = MAX_USER_HANDLES"
  "user_inv s \<Longrightarrow> length (server_objects s) = MAX_USER_HANDLES"
  "user_inv s \<Longrightarrow> nb_handles s \<le> MAX_USER_HANDLES"
  by (simp_all add: user_inv_def)

lemma free_chain_update [simp]:
  "j \<notin> set fl \<Longrightarrow> free_chain (es[j := e]) w fl = free_chain es w fl"
  by (induction fl arbitrary: w) auto

lemma word_of_nat_not_minus1:
  "i < MAX_USER_HANDLES \<Longrightarrow> (of_nat i :: u64) \<noteq> -1"
  "i < MAX_USER_HANDLES \<Longrightarrow> unat (of_nat i :: u64) = i"
proof -
  assume i: "i < MAX_USER_HANDLES"
  then show u: "unat (of_nat i :: u64) = i"
    by (simp add: unsigned_of_nat take_bit_nat_eq_self MAX_USER_HANDLES_def)
  show "(of_nat i :: u64) \<noteq> -1"
  proof
    assume "(of_nat i :: u64) = -1"
    then have "unat (of_nat i :: u64) = unat (-1 :: u64)" by simp
    with u i show False by (simp add: MAX_USER_HANDLES_def unsigned_minus_1_eq_mask mask_eq_exp_minus_1)
  qed
qed

lemma next_generation:
  "next_generation g \<noteq> 0" "next_generation g \<noteq> 0xffff" "g \<noteq> 0 \<Longrightarrow> g \<noteq> 0xffff \<Longrightarrow> next_generation g \<noteq> g"
  by (auto simp: next_generation_def split: if_splits)

lemma alloc_user_entry_SomeE:
  assumes "user_inv s" "alloc_user_entry s loc ty t p = Some (s', i)"
  obtains g fl where
    "user_entries s' = (user_entries s)[i := \<lparr>offset = loc_offset loc, tid = t, pid = p,
        uid = loc_id loc, utype = ty, generation = g\<rparr>]"
    "server_objects s' = server_objects s" "g \<noteq> 0" "g \<noteq> 0xffff"
    "nb_handles s \<le> nb_handles s'" "nb_handles s' \<le> MAX_USER_HANDLES" "i < nb_handles s'"
    "i < nb_handles s \<Longrightarrow> utype (user_entries s ! i) = 0 \<and> generation (user_entries s ! i) \<noteq> g"
    "\<And>j. j < nb_handles s' \<Longrightarrow> j \<noteq> i \<Longrightarrow> j < nb_handles s"
    "free_chain (user_entries s) (freelist s') fl" "distinct fl" "i \<notin> set fl"
    "\<forall>j \<in> set fl. j < nb_handles s \<and> utype (user_entries s ! j) = 0"
proof (cases "freelist s = -1")
  case True
  from assms(1) obtain fl where fl: "free_chain (user_entries s) (freelist s) fl" "distinct fl"
      "\<forall>i \<in> set fl. i < nb_handles s \<and> utype (user_entries s ! i) = 0"
    by (auto simp: user_inv_def)
  from assms True have "i = nb_handles s" and "i < MAX_USER_HANDLES" and
    "s' = s\<lparr>nb_handles := nb_handles s + 1, user_entries := (user_entries s)[i :=
       \<lparr>offset = loc_offset loc, tid = t, pid = p, uid = loc_id loc, utype = ty, generation = 1\<rparr>]\<rparr>"
    by (auto simp: alloc_user_entry_def user_inv_def split: if_splits)
  with fl show ?thesis
    by (intro that[of 1 fl]) auto
next
  case False
  from assms(1) obtain fl where fl: "free_chain (user_entries s) (freelist s) fl" "distinct fl"
      "\<forall>i \<in> set fl. i < nb_handles s \<and> utype (user_entries s ! i) = 0"
    by (auto simp: user_inv_def)
  from False fl obtain j fl' where f: "fl = j # fl'" by (cases fl) auto
  with fl assms(1) have j: "freelist s = of_nat j" "j < MAX_USER_HANDLES" "j < nb_handles s"
    by (auto simp: user_inv_def)
  then have uj: "unat (freelist s) = j" by (simp add: word_of_nat_not_minus1)
  have old: "generation (user_entries s ! j) \<noteq> 0" "generation (user_entries s ! j) \<noteq> 0xffff"
    using assms(1) j(3) by (auto simp: user_inv_def)
  let ?g = "next_generation (generation (user_entries s ! j))"
  have neq: "generation (user_entries s ! j) \<noteq> ?g"
    using next_generation(3)[OF old] by (rule not_sym)
  from assms False uj have "i = j" and
    "s' = s\<lparr>freelist := offset (user_entries s ! j), user_entries := (user_entries s)[j :=
       \<lparr>offset = loc_offset loc, tid = t, pid = p, uid = loc_id loc, utype = ty, generation = ?g\<rparr>]\<rparr>"
    by (auto simp: alloc_user_entry_def next_generation_def Let_def split: if_splits)
  with fl f j assms(1) neq show ?thesis
    by (intro that[of ?g fl']) (auto simp: next_generation user_inv_def)
qed

lemma alloc_user_entry_inv:
  assumes "user_inv s" "alloc_user_entry s loc ty t p = Some (s', i)"
  shows "user_inv s'"
  using assms
proof (rule alloc_user_entry_SomeE)
  fix g fl
  assume e: "user_entries s' = (user_entries s)[i := \<lparr>offset = loc_offset loc, tid = t, pid = p,
        uid = loc_id loc, utype = ty, generation = g\<rparr>]"
    and o: "server_objects s' = server_objects s" and g: "g \<noteq> 0" "g \<noteq> 0xffff"
    and n: "nb_handles s \<le> nb_handles s'" "nb_handles s' \<le> MAX_USER_HANDLES" "i < nb_handles s'"
      "\<And>j. j < nb_handles s' \<Longrightarrow> j \<noteq> i \<Longrightarrow> j < nb_handles s"
    and fl: "free_chain (user_entries s) (freelist s') fl" "distinct fl" "i \<notin> set fl"
      "\<forall>j \<in> set fl. j < nb_handles s \<and> utype (user_entries s ! j) = 0"
  have len: "length (user_entries s) = MAX_USER_HANDLES" "length (server_objects s) = MAX_USER_HANDLES"
    using assms(1) by (auto simp: user_inv_def)
  have "\<forall>j < nb_handles s'. generation (user_entries s' ! j) \<noteq> 0 \<and> generation (user_entries s' ! j) \<noteq> 0xffff"
    using assms(1) g n len by (auto simp: e nth_list_update user_inv_def)
  moreover have "free_chain (user_entries s') (freelist s') fl"
    using fl by (simp add: e)
  moreover have "\<forall>j \<in> set fl. j < nb_handles s' \<and> utype (user_entries s' ! j) = 0"
    using fl n by (auto simp: e) (metis nth_list_update_neq)
  ultimately show ?thesis
    using fl(2) len n by (auto simp: user_inv_def o e)
qed

lemma free_user_entry_inv:
  assumes "user_inv s" "i < nb_handles s" "utype (user_entries s ! i) \<noteq> 0"
  shows "user_inv (free_user_entry s i)"
proof -
  from assms(1) obtain fl where fl: "free_chain (user_entries s) (freelist s) fl" "distinct fl"
      "\<forall>i \<in> set fl. i < nb_handles s \<and> utype (user_entries s ! i) = 0"
    by (auto simp: user_inv_def)
  with assms(3) have i: "i \<notin> set fl" by auto
  have lt: "i < length (user_entries s)" using assms by (auto simp: user_inv_def)
  let ?s = "free_user_entry s i"
  have "free_chain (user_entries ?s) (freelist ?s) (i # fl)"
    using fl(1) i lt by (simp add: free_user_entry_def Let_def)
  moreover have "distinct (i # fl)" using fl(2) i by simp
  moreover have "\<forall>j \<in> set (i # fl). j < nb_handles ?s \<and> utype (user_entries ?s ! j) = 0"
    using fl(3) assms(2) lt by (auto simp: free_user_entry_def Let_def nth_list_update)
  moreover have "\<forall>j < nb_handles ?s. generation (user_entries ?s ! j) \<noteq> 0 \<and>
       generation (user_entries ?s ! j) \<noteq> 0xffff"
    using assms(1) lt by (auto simp: user_inv_def free_user_entry_def Let_def nth_list_update)
  ultimately show ?thesis
    by (rule user_invI) (use user_inv_lengths[OF assms(1)] in \<open>simp_all add: free_user_entry_def Let_def\<close>)
qed

lemma set_server_object_inv [simp]:
  "user_inv (snd (set_server_object s i p)) = user_inv s"
  by (simp add: user_inv_def set_server_object_def)

lemma handle_to_entry_SomeD:
  "handle_to_entry s h = Some i \<Longrightarrow> i < nb_handles s \<and> utype (user_entries s ! i) \<noteq> 0 \<and> i = handle_index h"
  by (auto simp: handle_to_entry_def Let_def split: if_splits)

lemma free_user_handle_inv:
  assumes "user_inv s" "free_user_handle s h = Inr (p, s')"
  shows "user_inv s'"
proof -
  from assms(2) obtain i where i: "handle_to_entry s h = Some i"
    and s': "s' = free_user_entry (snd (set_server_object s i NULL)) i"
    by (auto simp: free_user_handle_def Let_def split: option.splits prod.splits)
  from handle_to_entry_SomeD[OF i] show ?thesis
    unfolding s' using assms(1)
    by (intro free_user_entry_inv) (auto simp: set_server_object_def user_inv_def)
qed

lemma alloc_user_handle_inv:
  assumes "user_inv s" "alloc_user_handle s p sh ty t pd = Some (s', h)"
  shows "user_inv s'"
proof -
  from assms(2) obtain loc s1 i where "alloc_user_entry s loc ty t pd = Some (s1, i)"
    and "s' = snd (set_server_object s1 i p)"
    by (auto simp: alloc_user_handle_def Let_def split: option.splits prod.splits)
  then show ?thesis using alloc_user_entry_inv[OF assms(1)] by simp
qed

lemma free_process_entry_inv:
  assumes "user_inv s" "i < nb_handles s"
  shows "user_inv (free_process_entry p i s) \<and> nb_handles (free_process_entry p i s) = nb_handles s"
  using assms free_user_entry_inv[OF assms]
  by (auto simp: free_process_entry_def Let_def process_owned_types_def free_user_entry_def)

lemma fold_free_process_entry_inv:
  "user_inv s \<Longrightarrow> \<forall>i \<in> set is. i < nb_handles s \<Longrightarrow> user_inv (fold (free_process_entry p) is s)"
  by (induction "is" arbitrary: s) (auto simp: free_process_entry_inv)

lemma free_process_user_handles_inv: "user_inv s \<Longrightarrow> user_inv (free_process_user_handles s p)"
  by (simp add: free_process_user_handles_def fold_free_process_entry_inv)

lemma req_free_user_handle_inv:
  assumes "user_inv s" "req_free_user_handle s h ty = Inr s'"
  shows "user_inv s'"
  using assms
  by (auto simp: req_free_user_handle_def split: option.splits if_splits
      dest!: handle_to_entry_SomeD intro!: free_user_entry_inv)

lemma full_handle_eqI:
  "full_handle h \<Longrightarrow> full_handle h' \<Longrightarrow> handle_index h = handle_index h' \<Longrightarrow>
   handle_generation h = handle_generation h' \<Longrightarrow> h = h'"
  unfolding full_handle_def by metis

lemma full_handle_make_handle:
  "i < MAX_USER_HANDLES \<Longrightarrow> g \<noteq> 0 \<Longrightarrow> g \<noteq> 0xffff \<Longrightarrow> full_handle (make_handle i g)"
  by (simp add: full_handle_def handle_index_make_handle handle_generation_make_handle)

lemma handle_to_entry_full:
  "full_handle h \<Longrightarrow> handle_to_entry s h =
     (let i = handle_index h in
      if i < nb_handles s \<and> utype (user_entries s ! i) \<noteq> 0 \<and>
         generation (user_entries s ! i) = handle_generation h then Some i else None)"
  by (auto simp: handle_to_entry_def full_handle_def Let_def)

lemma alloc_user_handle_SomeE:
  assumes "user_inv s" "alloc_user_handle s p sh ty t pd = Some (s', h)"
  obtains i g off n where
    "h = make_handle i g" "g \<noteq> 0" "g \<noteq> 0xffff" "i < MAX_USER_HANDLES"
    "user_entries s' = (user_entries s)[i := \<lparr>offset = off, tid = t, pid = pd,
        uid = n, utype = ty, generation = g\<rparr>]"
    "server_objects s' = (server_objects s)[i := p]"
    "nb_handles s \<le> nb_handles s'" "i < nb_handles s'"
    "i < nb_handles s \<Longrightarrow> utype (user_entries s ! i) = 0 \<and> generation (user_entries s ! i) \<noteq> g"
    "\<And>j. j < nb_handles s' \<Longrightarrow> j \<noteq> i \<Longrightarrow> j < nb_handles s"
proof -
  from assms(2) obtain loc s1 i where a: "alloc_user_entry s loc ty t pd = Some (s1, i)"
    and s': "s' = snd (set_server_object s1 i p)" "h = entry_to_handle s' i"
    by (auto simp: alloc_user_handle_def Let_def split: option.splits prod.splits)
  from assms(1) a show ?thesis
  proof (rule alloc_user_entry_SomeE)
    fix g fl
    assume e: "user_entries s1 = (user_entries s)[i := \<lparr>offset = loc_offset loc, tid = t, pid = pd,
          uid = loc_id loc, utype = ty, generation = g\<rparr>]" "server_objects s1 = server_objects s"
      "g \<noteq> 0" "g \<noteq> 0xffff" "nb_handles s \<le> nb_handles s1" "nb_handles s1 \<le> MAX_USER_HANDLES"
      "i < nb_handles s1"
      "i < nb_handles s \<Longrightarrow> utype (user_entries s ! i) = 0 \<and> generation (user_entries s ! i) \<noteq> g"
      "\<And>j. j < nb_handles s1 \<Longrightarrow> j \<noteq> i \<Longrightarrow> j < nb_handles s"
    have "i < MAX_USER_HANDLES" using e by simp
    with e user_inv_lengths[OF assms(1)] show ?thesis
      by (intro that[of i g "loc_offset loc" "loc_id loc"])
        (auto simp: s' set_server_object_def entry_to_handle_def)
  qed
qed

lemma user_lookup_alloc:
  assumes "user_inv s" "user_alloc t pd sh s v = Some (s', h)" "full_handle h'"
  shows "user_lookup s' h' = (if h' = h then Some v else user_lookup s h')"
    and "full_handle h" and "user_lookup s h = None"
proof -
  from assms(2) have nz: "fst v \<noteq> 0" and a: "alloc_user_handle s (snd v) sh (fst v) t pd = Some (s', h)"
    by (auto simp: user_alloc_def split: if_splits)
  from assms(1) a show "user_lookup s' h' = (if h' = h then Some v else user_lookup s h')"
    and h: "full_handle h" and "user_lookup s h = None"
  proof (atomize(full), elim alloc_user_handle_SomeE)
    fix i g off n
    assume h: "h = make_handle i g" "g \<noteq> 0" "g \<noteq> 0xffff" "i < MAX_USER_HANDLES"
      and e: "user_entries s' = (user_entries s)[i := \<lparr>offset = off, tid = t, pid = pd,
        uid = n, utype = fst v, generation = g\<rparr>]" "server_objects s' = (server_objects s)[i := snd v]"
      and nb: "nb_handles s \<le> nb_handles s'" "i < nb_handles s'"
        "i < nb_handles s \<Longrightarrow> utype (user_entries s ! i) = 0 \<and> generation (user_entries s ! i) \<noteq> g"
        "\<And>j. j < nb_handles s' \<Longrightarrow> j \<noteq> i \<Longrightarrow> j < nb_handles s"
    have hh: "handle_index h = i" "handle_generation h = g" "full_handle h"
      using h by (simp_all add: handle_index_make_handle handle_generation_make_handle full_handle_make_handle)
    note len = user_inv_lengths[OF assms(1)]
    have none: "user_lookup s k = None" if "full_handle k" "handle_index k = i" for k
      using that nb by (auto simp: user_lookup_def handle_to_entry_full Let_def)
    have "user_lookup s' h' = (if h' = h then Some v else user_lookup s h')"
    proof (cases "handle_index h' = i")
      case True
      then have "h' = h \<longleftrightarrow> handle_generation h' = g"
        using full_handle_eqI[OF assms(3) hh(3)] hh by auto
      with True none[OF assms(3) True] nz nb len h show ?thesis
        by (auto simp: user_lookup_def handle_to_entry_full[OF assms(3)] Let_def e get_server_object_def)
    next
      case False
      with hh nb e(2) show ?thesis
        by (auto simp: user_lookup_def handle_to_entry_full[OF assms(3)] Let_def e get_server_object_def)
    qed
    with hh none[OF hh(3) hh(1)]
    show "user_lookup s' h' = (if h' = h then Some v else user_lookup s h') \<and> full_handle h \<and> user_lookup s h = None"
      by simp
  qed
qed

lemma user_lookup_free:
  assumes "user_inv s" "user_free s h = Some s'" "full_handle h" "full_handle h'"
  shows "user_lookup s' h' = (if h' = h then None else user_lookup s h')"
proof -
  from assms(2) obtain i where i: "handle_to_entry s h = Some i"
    and s': "s' = free_user_entry (snd (set_server_object s i NULL)) i"
    by (auto simp: user_free_def free_user_handle_def Let_def split: option.splits prod.splits sum.splits)
  have ih: "i = handle_index h" "i < nb_handles s" "generation (user_entries s ! i) = handle_generation h"
    using i by (auto simp: handle_to_entry_full[OF assms(3)] Let_def split: if_splits)
  note len = user_inv_lengths[OF assms(1)]
  show ?thesis
  proof (cases "handle_index h' = i")
    case True
    then have "user_lookup s h' = None" if "h' \<noteq> h"
      using that full_handle_eqI[OF assms(4,3)] ih
      by (auto simp: user_lookup_def handle_to_entry_full[OF assms(4)] Let_def)
    with True ih len show ?thesis
      by (auto simp: user_lookup_def handle_to_entry_full[OF assms(4)] Let_def s' free_user_entry_def
          set_server_object_def)
  next
    case False
    with ih show ?thesis
      by (auto simp: user_lookup_def handle_to_entry_full[OF assms(4)] Let_def s' free_user_entry_def
          set_server_object_def get_server_object_def)
  qed
qed

interpretation user_table: object_table user_inv full_handle user_lookup "user_alloc t pd sh" user_free
  for t pd sh
proof unfold_locales
  fix s s' :: user_state and v k k'
  assume inv: "user_inv s"
  { assume a: "user_alloc t pd sh s v = Some (s', k)"
    then show "user_inv s'"
      using alloc_user_handle_inv[OF inv] by (auto simp: user_alloc_def split: if_splits)
    from user_lookup_alloc(2,3)[OF inv a full_handle_make_handle[of 0 1]]
    show "full_handle k" "user_lookup s k = None" by (simp_all add: MAX_USER_HANDLES_def)
    assume "full_handle k'"
    then show "user_lookup s' k' = (if k' = k then Some v else user_lookup s k')"
      by (rule user_lookup_alloc(1)[OF inv a]) }
  { assume f: "user_free s k = Some s'"
    then show "user_inv s'"
      using free_user_handle_inv[OF inv] by (auto simp: user_free_def split: sum.splits)
    assume "full_handle k" "full_handle k'"
    then show "user_lookup s' k' = (if k' = k then None else user_lookup s k')"
      by (rule user_lookup_free[OF inv f]) }
qed

lemma user_init_inv: "user_inv user_init"
  by (rule user_invI[where fl = "[]"]) (simp_all add: user_init_def)

lemma user_step_inv: "user_step s s' \<Longrightarrow> user_inv s \<Longrightarrow> user_inv s'"
  by (induction rule: user_step.induct)
    (blast intro: alloc_user_handle_inv free_user_handle_inv req_free_user_handle_inv
       free_process_user_handles_inv)+

text \<open>
  C6: In every state the server can reach through allocations, both kinds of release and
  process exits, the handle table is well formed: the free list is a finite chain of distinct,
  unused entries, and no entry in use has one of the reserved generations 0 and 0xffff.
\<close>

theorem user_reachable_inv: "user_reachable s \<Longrightarrow> user_inv s"
  by (induction rule: user_reachable.induct) (auto intro: user_init_inv user_step_inv)

theorem user_reachable_inv_witness:
  "\<exists>s h. user_reachable s \<and> alloc_user_handle user_init 5 None 1 7 8 = Some (s, h) \<and> user_inv s"
proof -
  obtain s h where a: "alloc_user_handle user_init 5 None 1 7 8 = Some (s, h)"
    by (auto simp: alloc_user_handle_def alloc_user_entry_def user_init_def MAX_USER_HANDLES_def
        set_server_object_def)
  then have "user_reachable s"
    by (blast intro: user_reachable.intros user_step.intros)
  with a show ?thesis using user_reachable_inv by blast
qed

lemma get_user_object_lookup:
  "user_lookup s h = Some (ty, p) \<Longrightarrow> get_user_object s h ty = p"
  "user_lookup s h = None \<Longrightarrow> get_user_object s h ty = NULL"
  by (auto simp: user_lookup_def get_user_object_def split: option.splits)

text \<open>
  The handle returned for an object resolves to that object, with its type, through
  any sequence of later allocations and of releases of other handles.
\<close>

theorem user_handle_lifetime:
  assumes "user_inv s" "ty \<noteq> 0" "alloc_user_handle s p sh ty t pd = Some (s1, h)"
    and "\<forall>k. Free k \<in> set ops \<longrightarrow> full_handle k \<and> k \<noteq> h"
    and "object_table.run (user_alloc t' pd' sh') user_free s1 ops = Some s2"
  shows "get_user_object s2 h ty = p"
proof -
  have a: "user_alloc t pd sh s (ty, p) = Some (s1, h)"
    using assms(2,3) by (simp add: user_alloc_def)
  have fh: "full_handle h" by (rule user_table.canon_alloc[OF assms(1) a])
  have "user_lookup s1 h = Some (ty, p)"
    by (simp add: user_table.lookup_alloc[OF assms(1) a fh])
  then have "user_lookup s2 h = Some (ty, p)"
    using user_table.inv_alloc[OF assms(1) a] fh assms(4)
    by (intro user_table.run_keeps[OF _ _ _ _ _ assms(5)]) (auto simp: user_table.canon_ops_def)
  then show ?thesis by (rule get_user_object_lookup(1))
qed

theorem user_handle_lifetime_witness:
  "\<exists>s1 h s2. alloc_user_handle user_init 5 None 1 7 8 = Some (s1, h) \<and>
     object_table.run (user_alloc 7 8 None) user_free s1 [Alloc (2, 9)] = Some s2 \<and>
     get_user_object s2 h 1 = 5"
proof -
  obtain s1 h where a: "alloc_user_handle user_init 5 None 1 7 8 = Some (s1, h)"
    and s1: "freelist s1 = -1" "nb_handles s1 = 1" "length (user_entries s1) = MAX_USER_HANDLES"
    by (auto simp: alloc_user_handle_def alloc_user_entry_def user_init_def MAX_USER_HANDLES_def
        set_server_object_def)
  obtain s2 k where b: "user_alloc 7 8 None s1 (2, 9) = Some (s2, k)"
    using s1 by (auto simp: user_alloc_def alloc_user_handle_def alloc_user_entry_def
        MAX_USER_HANDLES_def set_server_object_def)
  then have r: "object_table.run (user_alloc 7 8 None) user_free s1 [Alloc (2, 9)] = Some s2"
    by simp
  show ?thesis
    using a r user_handle_lifetime[OF user_init_inv _ a _ r] by auto
qed

text \<open>
  C7: Once a handle is released and its slot is given to a new object, the new object's
  handle is different and the old handle no longer resolves to anything: the generation
  in the handle's high word keeps stale handles apart.
\<close>

theorem stale_user_handle:
  assumes "user_inv s" "full_handle h" "free_user_handle s h = Inr (p, s1)"
    and "alloc_user_handle s1 q sh ty t pd = Some (s2, h2)"
  shows "h2 \<noteq> h \<and> get_user_object s2 h ty' = NULL"
proof -
  have inv1: "user_inv s1" by (rule free_user_handle_inv[OF assms(1,3)])
  from assms(3) obtain i where i: "handle_to_entry s h = Some i"
    and s1: "s1 = free_user_entry (snd (set_server_object s i NULL)) i"
    by (auto simp: free_user_handle_def Let_def split: option.splits prod.splits)
  have ih: "i = handle_index h" "i < nb_handles s" "generation (user_entries s ! i) = handle_generation h"
    using i by (auto simp: handle_to_entry_full[OF assms(2)] Let_def split: if_splits)
  have e1: "utype (user_entries s1 ! i) = 0" "generation (user_entries s1 ! i) = handle_generation h"
    "i < nb_handles s1"
    using ih user_inv_lengths[OF assms(1)]
    by (auto simp: s1 free_user_entry_def set_server_object_def Let_def)
  from inv1 assms(4) show ?thesis
  proof (rule alloc_user_handle_SomeE)
    fix j g off n
    assume h2: "h2 = make_handle j g" "g \<noteq> 0" "g \<noteq> 0xffff" "j < MAX_USER_HANDLES"
      and e: "user_entries s2 = (user_entries s1)[j := \<lparr>offset = off, tid = t, pid = pd,
        uid = n, utype = ty, generation = g\<rparr>]"
      and nb: "j < nb_handles s1 \<Longrightarrow> utype (user_entries s1 ! j) = 0 \<and> generation (user_entries s1 ! j) \<noteq> g"
    have "h2 \<noteq> h"
      using h2 nb e1 ih by (auto simp: handle_index_make_handle handle_generation_make_handle)
    moreover have "handle_to_entry s2 h = None"
      using e1 ih nb user_inv_lengths[OF inv1]
      by (cases "i = j") (auto simp: handle_to_entry_full[OF assms(2)] Let_def e)
    ultimately show ?thesis by (simp add: get_user_object_def)
  qed
qed

text \<open>
  C8: In a well-formed table an allocation goes outside the entry array exactly when the
  free list is empty and all MAX_USER_HANDLES entries are in use: the code does not test for
  this, so the allocation that would have to fail is a write past the array.
\<close>

theorem alloc_user_handle_overflow:
  assumes "user_inv s"
  shows "alloc_user_handle s p sh ty t pd = None \<longleftrightarrow> freelist s = -1 \<and> nb_handles s = MAX_USER_HANDLES"
proof -
  from assms obtain fl where fl: "free_chain (user_entries s) (freelist s) fl"
      "\<forall>i \<in> set fl. i < nb_handles s"
    by (auto simp: user_inv_def)
  note len = user_inv_lengths[OF assms]
  have "unat (freelist s) < MAX_USER_HANDLES" if "freelist s \<noteq> -1"
    using that fl len by (cases fl) (auto simp: word_of_nat_not_minus1)
  with len show ?thesis
    by (auto simp: alloc_user_handle_def alloc_user_entry_def Let_def split: option.splits prod.splits)
qed

lemma free_process_entry_fields [simp]:
  "nb_handles (free_process_entry p i s) = nb_handles s"
  "server_objects (free_process_entry p i s) = server_objects s"
  "length (user_entries (free_process_entry p i s)) = length (user_entries s)"
  by (simp_all add: free_process_entry_def free_user_entry_def Let_def)

lemma fold_free_process_fields [simp]:
  "nb_handles (fold (free_process_entry p) ks s) = nb_handles s"
  "server_objects (fold (free_process_entry p) ks s) = server_objects s"
  by (induction ks arbitrary: s) simp_all

lemma free_process_entry_nth:
  "j < length (user_entries s) \<Longrightarrow> user_entries (free_process_entry p i s) ! j =
     (if j = i \<and> owned_by p (user_entries s ! j)
      then (user_entries s ! j)\<lparr>utype := 0, offset := freelist s\<rparr> else user_entries s ! j)"
  by (cases "j = i") (auto simp: free_process_entry_def free_user_entry_def Let_def)

lemma not_owned_free: "\<not> owned_by p (e\<lparr>utype := 0, offset := w\<rparr>)"
  by (simp add: process_owned_types_def)

lemma fold_free_process_entry:
  assumes "distinct ks" "j < length (user_entries s)"
  shows "if j \<in> set ks \<and> owned_by p (user_entries s ! j)
    then utype (user_entries (fold (free_process_entry p) ks s) ! j) = 0
    else user_entries (fold (free_process_entry p) ks s) ! j = user_entries s ! j"
  using assms
proof (induction ks arbitrary: s)
  case Nil
  then show ?case by simp
next
  case (Cons i ks)
  then show ?case
    using Cons.IH[of "free_process_entry p i s"] not_owned_free
    by (cases "j = i") (auto simp: free_process_entry_nth split: if_splits)
qed

text \<open>
  When a process exits, exactly its client-side handles (menus, icons, window
  positions, accelerators, input contexts) stop resolving; every other handle resolves as before.
\<close>

theorem free_process_user_handles_spec:
  assumes "user_inv s"
  shows "get_user_object (free_process_user_handles s p) h ty =
    (case handle_to_entry s h of
       Some i \<Rightarrow> if utype (user_entries s ! i) \<in> set process_owned_types \<and> pid (user_entries s ! i) = p
                 then NULL else get_user_object s h ty
     | None \<Rightarrow> NULL)"
proof (cases "handle_index h < nb_handles s")
  case True
  let ?i = "handle_index h" and ?s = "free_process_user_handles s p"
  have "?i < length (user_entries s)" and "?i \<in> set [0..<nb_handles s]"
    using True user_inv_lengths[OF assms] by auto
  then have f: "if owned_by p (user_entries s ! ?i) then utype (user_entries ?s ! ?i) = 0
      else user_entries ?s ! ?i = user_entries s ! ?i"
    using fold_free_process_entry[of "[0..<nb_handles s]" ?i s p]
    by (simp add: free_process_user_handles_def)
  show ?thesis
  proof (cases "owned_by p (user_entries s ! ?i)")
    case True
    with f have "handle_to_entry ?s h = None" by (simp add: handle_to_entry_def Let_def)
    with True show ?thesis
      by (auto simp: get_user_object_def dest: handle_to_entry_SomeD split: option.splits)
  next
    case False
    with f have e: "user_entries ?s ! ?i = user_entries s ! ?i" by (simp only: if_False)
    then have h: "handle_to_entry ?s h = handle_to_entry s h"
      by (simp add: handle_to_entry_def Let_def free_process_user_handles_def)
    have o: "server_objects ?s = server_objects s" by (simp add: free_process_user_handles_def)
    show ?thesis
    proof (cases "handle_to_entry s h")
      case None
      then show ?thesis using h by (simp add: get_user_object_def)
    next
      case (Some i)
      then have "i = ?i" using handle_to_entry_SomeD by blast
      with Some False show ?thesis
        using h e o by (auto simp: get_user_object_def get_server_object_def)
    qed
  qed
next
  case False
  then show ?thesis
    by (simp add: get_user_object_def handle_to_entry_def free_process_user_handles_def)
qed

lemma alloc_user_init:
  obtains s h where "alloc_user_handle user_init p sh ty t pd = Some (s, h)" "full_handle h"
    "user_inv s" "ty \<noteq> 0 \<Longrightarrow> user_lookup s h = Some (ty, p)"
    "freelist s = -1" "nb_handles s = 1" "ty \<noteq> 0 \<Longrightarrow> \<exists>s'. free_user_handle s h = Inr (p, s')"
proof -
  obtain s h where a: "alloc_user_handle user_init p sh ty t pd = Some (s, h)"
    and s: "freelist s = -1" "nb_handles s = 1" "h = make_handle 0 1"
      "generation (user_entries s ! 0) = 1" "utype (user_entries s ! 0) = ty" "server_objects s ! 0 = p"
    by (auto simp: alloc_user_handle_def alloc_user_entry_def user_init_def MAX_USER_HANDLES_def
        set_server_object_def entry_to_handle_def Let_def)
  have fh: "full_handle h"
    by (simp add: s(3) full_handle_make_handle MAX_USER_HANDLES_def)
  have e: "handle_to_entry s h = (if ty \<noteq> 0 then Some 0 else None)"
    using fh s by (simp add: handle_to_entry_full handle_index_make_handle handle_generation_make_handle
        MAX_USER_HANDLES_def)
  show ?thesis
    using a fh s e alloc_user_handle_inv[OF user_init_inv a]
    by (intro that[OF a fh])
      (auto simp: user_lookup_def get_server_object_def free_user_handle_def set_server_object_def)
qed

theorem stale_user_handle_witness:
  "\<exists>s h s1 s2 h2. full_handle h \<and> free_user_handle s h = Inr (5, s1) \<and>
     alloc_user_handle s1 6 None 1 7 8 = Some (s2, h2) \<and> h2 \<noteq> h \<and> get_user_object s2 h 1 = NULL"
proof -
  obtain s h s1 where s: "user_inv s" "full_handle h" "free_user_handle s h = Inr (5, s1)"
    "nb_handles s = 1"
    by (rule alloc_user_init[of 5 None 1 7 8]) auto
  have "nb_handles s1 = 1" using s(3,4)
    by (auto simp: free_user_handle_def set_server_object_def free_user_entry_def Let_def
        split: option.splits)
  then obtain s2 h2 where a: "alloc_user_handle s1 6 None 1 7 8 = Some (s2, h2)"
    using alloc_user_handle_overflow[OF free_user_handle_inv[OF s(1,3)], of 6 None 1 7 8]
    by (cases "alloc_user_handle s1 6 None 1 7 8") (auto simp: MAX_USER_HANDLES_def)
  show ?thesis using s a stale_user_handle[OF s(1-3) a] by blast
qed

lemma user_full_inv: "user_inv user_full"
  by (rule user_invI[where fl = "[]"]) (simp_all add: user_full_def user_init_def)

theorem alloc_user_handle_overflow_witness:
  "user_inv user_full \<and> alloc_user_handle user_full 5 None 1 7 8 = None"
  using alloc_user_handle_overflow[OF user_full_inv, of 5 None 1 7 8] user_full_inv
  by (simp add: user_full_def user_init_def)

theorem free_process_user_handles_spec_witness:
  "\<exists>s h. user_inv s \<and> get_user_object s h 2 = 5 \<and>
     get_user_object (free_process_user_handles s 8) h 2 = NULL"
proof -
  obtain s h where s: "user_inv s" "user_lookup s h = Some (2, 5)"
    and p: "pid (user_entries s ! handle_index h) = 8"
  proof -
    obtain s h where a: "alloc_user_handle user_init 5 None 2 7 8 = Some (s, h)"
      and "user_inv s" "user_lookup s h = Some (2, 5)"
      by (rule alloc_user_init[of 5 None 2 7 8]) auto
    moreover have "pid (user_entries s ! handle_index h) = 8"
      using a by (auto simp: alloc_user_handle_def alloc_user_entry_def user_init_def
          MAX_USER_HANDLES_def set_server_object_def entry_to_handle_def handle_index_make_handle)
    ultimately show thesis using that by blast
  qed
  then have "handle_to_entry s h = Some (handle_index h)"
    using handle_to_entry_SomeD by (auto simp: user_lookup_def)
  moreover from this s(2) have "utype (user_entries s ! handle_index h) = 2"
    by (simp add: user_lookup_def)
  ultimately have "get_user_object (free_process_user_handles s 8) h 2 = NULL"
    using p free_process_user_handles_spec[OF s(1), of 8 h 2] by (simp add: process_owned_types_def)
  with s show ?thesis using get_user_object_lookup(1) by blast
qed

end
