(* ===== verification/Region.thy ===== *)
theory Region
  imports Server_Prelude
begin

text \<open>
  Window regions, \<^verbatim>\<open>server/region.c\<close>: a region is a list of rectangles sorted into horizontal
  bands, and intersection, difference and union walk the bands of two regions in step.  The
  coordinates are C ints that these functions only compare and copy, so they are integers here;
  the helpers that compute with them are in the theory on rectangle arithmetic.

  Allocation is the parameter \<open>A\<close>: \<open>A n\<close> tells whether a request for \<open>n\<close> bytes
  succeeds.  A request that fails raises \<^verbatim>\<open>STATUS_NO_MEMORY\<close> and makes the operation return
  \<^verbatim>\<open>NULL\<close>, here \<open>None\<close>.
\<close>

section \<open>Data\<close>

record rectangle =
  rleft :: int
  rtop :: int
  rright :: int
  rbottom :: int

text \<open>The first \<^verbatim>\<open>num_rects\<close> elements of the array are the list; \<open>rsize\<close> is the array's size.\<close>

record region =
  rsize :: nat
  rects :: "rectangle list"
  extents :: rectangle

type_synonym allocator = "nat \<Rightarrow> bool"

type_synonym overlap_func =
  "allocator \<Rightarrow> region \<Rightarrow> rectangle list \<Rightarrow> rectangle list \<Rightarrow> int \<Rightarrow> int \<Rightarrow> region option"

type_synonym non_overlap_func =
  "allocator \<Rightarrow> region \<Rightarrow> rectangle list \<Rightarrow> int \<Rightarrow> int \<Rightarrow> region option"

definition RECT_SIZE :: nat where "RECT_SIZE = 16"

definition RGN_DEFAULT_RECTS :: nat where "RGN_DEFAULT_RECTS = 2"

definition empty_rect :: rectangle where
  "empty_rect = \<lparr>rleft = 0, rtop = 0, rright = 0, rbottom = 0\<rparr>"

definition is_rect_empty :: "rectangle \<Rightarrow> bool" where
  "is_rect_empty r = (rleft r \<ge> rright r \<or> rtop r \<ge> rbottom r)"

definition is_rect_equal :: "rectangle \<Rightarrow> rectangle \<Rightarrow> bool" where
  "is_rect_equal a b = (rleft a = rleft b \<and> rright a = rright b \<and> rtop a = rtop b \<and> rbottom a = rbottom b)"

definition EXTENTCHECK :: "rectangle \<Rightarrow> rectangle \<Rightarrow> bool" where
  "EXTENTCHECK a b = (rright a > rleft b \<and> rleft a < rright b \<and> rbottom a > rtop b \<and> rtop a < rbottom b)"

section \<open>Building a region\<close>

text \<open>The pointer the C function returns is filled in by every caller: the rectangle is an argument.\<close>

definition add_rect :: "allocator \<Rightarrow> region \<Rightarrow> rectangle \<Rightarrow> region option" where
  "add_rect A reg r =
     (if length (rects reg) \<ge> rsize reg
      then (if A (2 * RECT_SIZE * rsize reg)
            then Some (reg\<lparr>rsize := 2 * rsize reg, rects := rects reg @ [r]\<rparr>)
            else None)
      else Some (reg\<lparr>rects := rects reg @ [r]\<rparr>))"

fun validate_rectangles :: "rectangle list \<Rightarrow> bool" where
  "validate_rectangles [] = True"
| "validate_rectangles [p] = (\<not> is_rect_empty p)"
| "validate_rectangles (p # q # rs) =
     (if is_rect_empty p then False
      else if rtop p = rtop q
      then (if rbottom p \<noteq> rbottom q then False
            else if rright p \<ge> rleft q then False
            else validate_rectangles (q # rs))
      else (if rbottom p > rtop q then False else validate_rectangles (q # rs)))"

text \<open>The rectangles at the front that are in the first one's band, and what follows them.\<close>

definition band :: "rectangle list \<Rightarrow> rectangle list" where
  "band rs = takeWhile (\<lambda>r. rtop r = rtop (hd rs)) rs"

definition skip_band :: "rectangle list \<Rightarrow> rectangle list" where
  "skip_band rs = dropWhile (\<lambda>r. rtop r = rtop (hd rs)) rs"

definition last_band_start :: "rectangle list \<Rightarrow> nat" where
  "last_band_start rs = length rs - length (takeWhile (\<lambda>r. rtop r = rtop (last rs)) (rev rs))"

definition coalesce_region :: "rectangle list \<Rightarrow> nat \<Rightarrow> nat \<Rightarrow> rectangle list \<times> nat" where
  "coalesce_region rs prevStart curStart =
     (let cur = band (drop curStart rs);
          rest = skip_band (drop curStart rs);
          prev = take (curStart - prevStart) (drop prevStart rs);
          curStart' = (if rest = [] then curStart else last_band_start rs)
      in if length cur = curStart - prevStart \<and> length cur \<noteq> 0
         then (if rbottom (hd prev) = rtop (hd cur)
               then (if list_all2 (\<lambda>p c. rleft p = rleft c \<and> rright p = rright c) prev cur
                     then (take prevStart rs @ map2 (\<lambda>p c. p\<lparr>rbottom := rbottom c\<rparr>) prev cur @ rest,
                           if rest = [] then prevStart else curStart')
                     else (rs, curStart'))
               else (rs, curStart'))
         else (rs, curStart'))"

definition coalesce :: "region \<Rightarrow> nat \<Rightarrow> nat \<Rightarrow> region \<times> nat" where
  "coalesce reg prev cur =
     (if length (rects reg) \<noteq> cur
      then (let (rs, p) = coalesce_region (rects reg) prev cur in (reg\<lparr>rects := rs\<rparr>, p))
      else (reg, prev))"

section \<open>Applying an operation to two regions\<close>

definition apply_non_overlap ::
    "non_overlap_func option \<Rightarrow> allocator \<Rightarrow> region \<Rightarrow> rectangle list \<Rightarrow> int \<Rightarrow> int \<Rightarrow> region option" where
  "apply_non_overlap nf A reg b t bo =
     (case nf of None \<Rightarrow> Some reg | Some f \<Rightarrow> if t \<noteq> bo then f A reg b t bo else Some reg)"

text \<open>The body of the main loop, up to the new region and the start of its last band.\<close>

definition region_step ::
    "allocator \<Rightarrow> overlap_func \<Rightarrow> non_overlap_func option \<Rightarrow> non_overlap_func option \<Rightarrow>
     region \<Rightarrow> nat \<Rightarrow> int \<Rightarrow> rectangle list \<Rightarrow> rectangle list \<Rightarrow> (region \<times> nat) option" where
  "region_step A ov n1 n2 reg prevBand ybot r1 r2 =
     (let x = hd r1; y = hd r2; curBand = length (rects reg);
          ybot' = min (rbottom x) (rbottom y);
          (res, ytop) =
            (if rtop x < rtop y
             then (apply_non_overlap n1 A reg (band r1) (max (rtop x) ybot) (min (rbottom x) (rtop y)), rtop y)
             else if rtop y < rtop x
             then (apply_non_overlap n2 A reg (band r2) (max (rtop y) ybot) (min (rbottom y) (rtop x)), rtop x)
             else (Some reg, rtop x))
      in case res of
           None \<Rightarrow> None
         | Some reg1 \<Rightarrow>
             (let (reg2, prev2) = coalesce reg1 prevBand curBand; curBand2 = length (rects reg2) in
              case (if ybot' > ytop then ov A reg2 (band r1) (band r2) ytop ybot' else Some reg2) of
                None \<Rightarrow> None
              | Some reg3 \<Rightarrow> Some (coalesce reg3 prev2 curBand2)))"

definition advance :: "int \<Rightarrow> rectangle list \<Rightarrow> rectangle list" where
  "advance ybot r = (if rbottom (hd r) = ybot then skip_band r else r)"

lemma skip_band_shorter: "r \<noteq> [] \<Longrightarrow> length (skip_band r) < length r"
  by (cases r) (auto simp: skip_band_def less_Suc_eq_le length_dropWhile_le)

lemma advance_le: "length (advance y r) \<le> length r"
  by (simp add: advance_def skip_band_def length_dropWhile_le)

function region_loop ::
    "allocator \<Rightarrow> overlap_func \<Rightarrow> non_overlap_func option \<Rightarrow> non_overlap_func option \<Rightarrow>
     region \<Rightarrow> nat \<Rightarrow> int \<Rightarrow> rectangle list \<Rightarrow> rectangle list \<Rightarrow>
     (region \<times> nat \<times> int \<times> rectangle list \<times> rectangle list) option" where
  "region_loop A ov n1 n2 reg prevBand ybot r1 r2 =
     (if r1 = [] \<or> r2 = [] then Some (reg, prevBand, ybot, r1, r2)
      else (let yb = min (rbottom (hd r1)) (rbottom (hd r2)) in
            case region_step A ov n1 n2 reg prevBand ybot r1 r2 of
              None \<Rightarrow> None
            | Some (reg', prev') \<Rightarrow>
                region_loop A ov n1 n2 reg' prev' yb (advance yb r1) (advance yb r2)))"
  by pat_completeness auto
termination
proof (relation "measure (\<lambda>(A, ov, n1, n2, reg, p, y, r1, r2). length r1 + length r2)", goal_cases)
  case 1
  show ?case by simp
next
  case (2 A ov n1 n2 reg p y r1 r2 yb)
  then have ne: "r1 \<noteq> []" "r2 \<noteq> []" and yb: "yb = min (rbottom (hd r1)) (rbottom (hd r2))" by auto
  have "length (advance yb r1) + length (advance yb r2) < length r1 + length r2"
  proof (cases "rbottom (hd r1) = yb")
    case True
    then have "length (advance yb r1) < length r1" using ne by (simp add: advance_def skip_band_shorter)
    then show ?thesis using advance_le[of yb r2] by linarith
  next
    case False
    then have "rbottom (hd r2) = yb" using yb by (simp add: min_def split: if_splits)
    then have "length (advance yb r2) < length r2" using ne by (simp add: advance_def skip_band_shorter)
    then show ?thesis using advance_le[of yb r1] by linarith
  qed
  then show ?case by simp
qed

declare region_loop.simps [simp del]

text \<open>The bands left in one region when the other is exhausted.\<close>

function region_tail ::
    "allocator \<Rightarrow> non_overlap_func \<Rightarrow> region \<Rightarrow> int \<Rightarrow> rectangle list \<Rightarrow> region option" where
  "region_tail A f reg ybot r =
     (if r = [] then Some reg
      else case f A reg (band r) (max (rtop (hd r)) ybot) (rbottom (hd r)) of
             None \<Rightarrow> None
           | Some reg' \<Rightarrow> region_tail A f reg' ybot (skip_band r))"
  by pat_completeness auto
termination
  by (relation "measure (\<lambda>(A, f, reg, y, r). length r)") (auto simp: skip_band_shorter)

declare region_tail.simps [simp del]

text \<open>
  \<open>newReg\<close> keeps its extents; the array it had is released at the end.  The sources are read
  before the result is written, so it may be one of them.
\<close>

definition region_op ::
    "allocator \<Rightarrow> region \<Rightarrow> region \<Rightarrow> region \<Rightarrow> overlap_func \<Rightarrow>
     non_overlap_func option \<Rightarrow> non_overlap_func option \<Rightarrow> region option" where
  "region_op A newReg reg1 reg2 ov n1 n2 =
     (let new_size = max (length (rects reg1)) (length (rects reg2)) * 2;
          ybot0 = (if rtop (extents reg1) < rtop (extents reg2) then rtop (extents reg1)
                   else rtop (extents reg2))
      in if \<not> A (new_size * RECT_SIZE) then None
         else case region_loop A ov n1 n2 (newReg\<lparr>rsize := new_size, rects := []\<rparr>) 0 ybot0
                     (rects reg1) (rects reg2) of
           None \<Rightarrow> None
         | Some (reg, prevBand, ybot, r1, r2) \<Rightarrow>
             (let curBand = length (rects reg) in
              case (if r1 \<noteq> [] then (case n1 of None \<Rightarrow> Some reg | Some f \<Rightarrow> region_tail A f reg ybot r1)
                    else (case n2 of None \<Rightarrow> Some reg | Some f \<Rightarrow> region_tail A f reg ybot r2)) of
                None \<Rightarrow> None
              | Some reg' \<Rightarrow>
                  (let (reg'', _) = coalesce reg' prevBand curBand;
                       small = max (length (rects reg'')) RGN_DEFAULT_RECTS
                   in Some (if length (rects reg'') < rsize reg'' div 2 \<and> rsize reg'' > 2 \<and>
                               A (RECT_SIZE * small)
                            then reg''\<lparr>rsize := small\<rparr> else reg''))))"

section \<open>The three operations on bands\<close>

definition mk_rect :: "int \<Rightarrow> int \<Rightarrow> int \<Rightarrow> int \<Rightarrow> rectangle" where
  "mk_rect l t r b = \<lparr>rleft = l, rtop = t, rright = r, rbottom = b\<rparr>"

fun intersect_overlapping :: overlap_func where
  "intersect_overlapping A reg (x # xs) (y # ys) t b =
     (let l = max (rleft x) (rleft y); r = min (rright x) (rright y) in
      case (if l < r then add_rect A reg (mk_rect l t r b) else Some reg) of
        None \<Rightarrow> None
      | Some reg' \<Rightarrow>
          (if rright x < rright y then intersect_overlapping A reg' xs (y # ys) t b
           else if rright y < rright x then intersect_overlapping A reg' (x # xs) ys t b
           else intersect_overlapping A reg' xs ys t b))"
| "intersect_overlapping A reg r1 r2 t b = Some reg"

fun copy_band :: non_overlap_func where
  "copy_band A reg [] t b = Some reg"
| "copy_band A reg (r # rs) t b =
     (case add_rect A reg (mk_rect (rleft r) t (rright r) b) of
        None \<Rightarrow> None
      | Some reg' \<Rightarrow> copy_band A reg' rs t b)"

definition subtract_non_overlapping :: non_overlap_func where
  "subtract_non_overlapping = copy_band"

text \<open>The value of \<open>left\<close> after \<^verbatim>\<open>r1++\<close>: the next rectangle's left edge, when there is one.\<close>

definition next_left :: "int \<Rightarrow> rectangle list \<Rightarrow> int" where
  "next_left l rs = (case rs of [] \<Rightarrow> l | r # _ \<Rightarrow> rleft r)"

text \<open>The first loop of \<^verbatim>\<open>subtract_overlapping\<close>, then (second equation) its last loop.\<close>

fun subtract_loop ::
    "allocator \<Rightarrow> region \<Rightarrow> int \<Rightarrow> rectangle list \<Rightarrow> rectangle list \<Rightarrow> int \<Rightarrow> int \<Rightarrow> region option" where
  "subtract_loop A reg left (x # xs) (y # ys) t b =
     (if rright y \<le> left then subtract_loop A reg left (x # xs) ys t b
      else if rleft y \<le> left
      then (if rright y \<ge> rright x then subtract_loop A reg (next_left (rright y) xs) xs (y # ys) t b
            else subtract_loop A reg (rright y) (x # xs) ys t b)
      else if rleft y < rright x
      then (case add_rect A reg (mk_rect left t (rleft y) b) of
              None \<Rightarrow> None
            | Some reg' \<Rightarrow>
                (if rright y \<ge> rright x then subtract_loop A reg' (next_left (rright y) xs) xs (y # ys) t b
                 else subtract_loop A reg' (rright y) (x # xs) ys t b))
      else (case (if rright x > left then add_rect A reg (mk_rect left t (rright x) b) else Some reg) of
              None \<Rightarrow> None
            | Some reg' \<Rightarrow> subtract_loop A reg' (next_left left xs) xs (y # ys) t b))"
| "subtract_loop A reg left (x # xs) [] t b =
     (case add_rect A reg (mk_rect left t (rright x) b) of
        None \<Rightarrow> None
      | Some reg' \<Rightarrow> subtract_loop A reg' (next_left left xs) xs [] t b)"
| "subtract_loop A reg left [] r2 t b = Some reg"

definition subtract_overlapping :: overlap_func where
  "subtract_overlapping A reg r1 r2 t b = subtract_loop A reg (rleft (hd r1)) r1 r2 t b"

definition union_non_overlapping :: non_overlap_func where
  "union_non_overlapping = copy_band"

definition MERGERECT :: "allocator \<Rightarrow> region \<Rightarrow> rectangle \<Rightarrow> int \<Rightarrow> int \<Rightarrow> region option" where
  "MERGERECT A reg r t b =
     (let l = last (rects reg) in
      if rects reg \<noteq> [] \<and> rtop l = t \<and> rbottom l = b \<and> rright l \<ge> rleft r
      then Some (if rright l < rright r
                 then reg\<lparr>rects := butlast (rects reg) @ [l\<lparr>rright := rright r\<rparr>]\<rparr> else reg)
      else add_rect A reg (mk_rect (rleft r) t (rright r) b))"

fun union_rest :: "allocator \<Rightarrow> region \<Rightarrow> rectangle list \<Rightarrow> int \<Rightarrow> int \<Rightarrow> region option" where
  "union_rest A reg [] t b = Some reg"
| "union_rest A reg (r # rs) t b =
     (case MERGERECT A reg r t b of None \<Rightarrow> None | Some reg' \<Rightarrow> union_rest A reg' rs t b)"

fun union_overlapping :: overlap_func where
  "union_overlapping A reg (x # xs) (y # ys) t b =
     (if rleft x < rleft y
      then (case MERGERECT A reg x t b of
              None \<Rightarrow> None | Some reg' \<Rightarrow> union_overlapping A reg' xs (y # ys) t b)
      else (case MERGERECT A reg y t b of
              None \<Rightarrow> None | Some reg' \<Rightarrow> union_overlapping A reg' (x # xs) ys t b))"
| "union_overlapping A reg (x # xs) [] t b = union_rest A reg (x # xs) t b"
| "union_overlapping A reg [] r2 t b = union_rest A reg r2 t b"

section \<open>Regions\<close>

fun widen :: "rectangle \<Rightarrow> rectangle list \<Rightarrow> rectangle" where
  "widen e [] = e"
| "widen e (r # rs) =
     (let e1 = (if rleft r < rleft e then e\<lparr>rleft := rleft r\<rparr> else e);
          e2 = (if rright r > rright e1 then e1\<lparr>rright := rright r\<rparr> else e1)
      in widen e2 rs)"

definition rects_extents :: "rectangle list \<Rightarrow> rectangle" where
  "rects_extents rs =
     (if rs = [] then empty_rect
      else widen (mk_rect (rleft (hd rs)) (rtop (hd rs)) (rright (last rs)) (rbottom (last rs))) rs)"

definition set_region_extents :: "region \<Rightarrow> region" where
  "set_region_extents reg = reg\<lparr>extents := rects_extents (rects reg)\<rparr>"

definition REGION_SIZE :: nat where "REGION_SIZE = 32"

definition create_empty_region :: "allocator \<Rightarrow> region option" where
  "create_empty_region A =
     (if \<not> A REGION_SIZE then None
      else if \<not> A (RGN_DEFAULT_RECTS * RECT_SIZE) then None
      else Some \<lparr>rsize = RGN_DEFAULT_RECTS, rects = [], extents = empty_rect\<rparr>)"

text \<open>The request's data as the rectangles it holds; a trailing partial rectangle is ignored.\<close>

definition create_region_from_req_data :: "allocator \<Rightarrow> rectangle list \<Rightarrow> region result" where
  "create_region_from_req_data A data =
     (let rs = (if length data = 1 \<and> hd data = empty_rect then [] else data);
          n = max (length rs) RGN_DEFAULT_RECTS
      in if \<not> validate_rectangles rs then Inl STATUS_INVALID_PARAMETER
         else if \<not> A REGION_SIZE then Inl STATUS_NO_MEMORY
         else if \<not> A (n * RECT_SIZE) then Inl STATUS_NO_MEMORY
         else Inr (set_region_extents \<lparr>rsize = n, rects = rs, extents = empty_rect\<rparr>))"

definition set_region_rect :: "region \<Rightarrow> rectangle \<Rightarrow> region" where
  "set_region_rect reg r =
     (if \<not> is_rect_empty r then reg\<lparr>rects := [r], extents := r\<rparr>
      else reg\<lparr>rects := [], extents := empty_rect\<rparr>)"

text \<open>The data sent to the client, and its total size.\<close>

definition get_region_data :: "allocator \<Rightarrow> region \<Rightarrow> nat \<Rightarrow> nat \<times> rectangle list result" where
  "get_region_data A reg max_size =
     (let data = (if rects reg = [] then [empty_rect] else rects reg);
          total = length data * RECT_SIZE
      in (total, if max_size \<ge> total then (if A total then Inr data else Inl STATUS_NO_MEMORY)
                 else Inl STATUS_BUFFER_OVERFLOW))"

text \<open>The same while the region itself is released: its array becomes the reply.\<close>

definition get_region_data_and_free :: "allocator \<Rightarrow> region \<Rightarrow> nat \<Rightarrow> nat \<times> rectangle list result" where
  "get_region_data_and_free A reg max_size =
     (let total = (if rects reg = [] then RECT_SIZE else length (rects reg) * RECT_SIZE)
      in (total, if max_size < total then Inl STATUS_BUFFER_OVERFLOW
                 else if rects reg = [] then (if A RECT_SIZE then Inr [empty_rect] else Inl STATUS_NO_MEMORY)
                 else Inr (rects reg)))"

definition is_region_empty :: "region \<Rightarrow> bool" where
  "is_region_empty reg = (rects reg = [])"

definition is_region_equal :: "region \<Rightarrow> region \<Rightarrow> bool" where
  "is_region_equal a b =
     (if length (rects a) \<noteq> length (rects b) then False
      else if rects a = [] then True
      else if \<not> is_rect_equal (extents a) (extents b) then False
      else list_all2 is_rect_equal (rects a) (rects b))"

definition get_region_extents :: "region \<Rightarrow> rectangle" where
  "get_region_extents reg = extents reg"

text \<open>\<open>same\<close> tells that the two arguments are one object.\<close>

definition copy_region :: "allocator \<Rightarrow> bool \<Rightarrow> region \<Rightarrow> region \<Rightarrow> region option" where
  "copy_region A same dst src =
     (if same then Some dst
      else if rsize dst < length (rects src)
      then (if A (length (rects src) * RECT_SIZE)
            then Some \<lparr>rsize = length (rects src), rects = rects src, extents = extents src\<rparr>
            else None)
      else Some \<lparr>rsize = rsize dst, rects = rects src, extents = extents src\<rparr>)"

definition intersect_region :: "allocator \<Rightarrow> region \<Rightarrow> region \<Rightarrow> region \<Rightarrow> region option" where
  "intersect_region A dst src1 src2 =
     (if rects src1 = [] \<or> rects src2 = [] \<or> \<not> EXTENTCHECK (extents src1) (extents src2)
      then Some (dst\<lparr>rects := [], extents := empty_rect\<rparr>)
      else map_option set_region_extents
             (region_op A dst src1 src2 intersect_overlapping None None))"

text \<open>\<open>d1\<close> tells that the destination is the first source.\<close>

definition subtract_region :: "allocator \<Rightarrow> bool \<Rightarrow> region \<Rightarrow> region \<Rightarrow> region \<Rightarrow> region option" where
  "subtract_region A d1 dst src1 src2 =
     (if rects src1 = [] \<or> rects src2 = [] \<or> \<not> EXTENTCHECK (extents src1) (extents src2)
      then copy_region A d1 dst src1
      else map_option set_region_extents
             (region_op A dst src1 src2 subtract_overlapping (Some subtract_non_overlapping) None))"

definition covers :: "region \<Rightarrow> region \<Rightarrow> bool" where
  "covers a b =
     (length (rects a) = 1 \<and> rleft (extents a) \<le> rleft (extents b) \<and> rtop (extents a) \<le> rtop (extents b) \<and>
      rright (extents a) \<ge> rright (extents b) \<and> rbottom (extents a) \<ge> rbottom (extents b))"

text \<open>\<open>d1\<close>, \<open>d2\<close>: the destination is that source; \<open>s12\<close>: the sources are one object.\<close>

definition union_region ::
    "allocator \<Rightarrow> bool \<Rightarrow> bool \<Rightarrow> bool \<Rightarrow> region \<Rightarrow> region \<Rightarrow> region \<Rightarrow> region option" where
  "union_region A d1 d2 s12 dst src1 src2 =
     (if s12 then copy_region A d1 dst src1
      else if rects src1 = [] then copy_region A d2 dst src2
      else if rects src2 = [] then copy_region A d1 dst src1
      else if covers src1 src2 then copy_region A d1 dst src1
      else if covers src2 src1 then copy_region A d2 dst src2
      else map_option (\<lambda>reg. reg\<lparr>extents :=
               mk_rect (min (rleft (extents src1)) (rleft (extents src2)))
                       (min (rtop (extents src1)) (rtop (extents src2)))
                       (max (rright (extents src1)) (rright (extents src2)))
                       (max (rbottom (extents src1)) (rbottom (extents src2)))\<rparr>)
             (region_op A dst src1 src2 union_overlapping
                (Some union_non_overlapping) (Some union_non_overlapping)))"

text \<open>\<open>d2\<close>: the destination is the second source, which the middle step reads and writes.\<close>

definition xor_region :: "allocator \<Rightarrow> bool \<Rightarrow> region \<Rightarrow> region \<Rightarrow> region \<Rightarrow> region option" where
  "xor_region A d2 dst src1 src2 =
     (case create_empty_region A of
        None \<Rightarrow> None
      | Some tmp \<Rightarrow>
          (case subtract_region A False tmp src1 src2 of
             None \<Rightarrow> None
           | Some tmp' \<Rightarrow>
               (case subtract_region A d2 dst src2 src1 of
                  None \<Rightarrow> None
                | Some dst' \<Rightarrow> union_region A True False False dst' dst' tmp')))"

fun point_in_rects :: "rectangle list \<Rightarrow> int \<Rightarrow> int \<Rightarrow> bool" where
  "point_in_rects [] x y = False"
| "point_in_rects (p # ps) x y =
     (if rtop p > y then False
      else if rbottom p \<le> y then point_in_rects ps x y
      else if rleft p > x then False
      else if rright p \<le> x then point_in_rects ps x y
      else True)"

definition point_in_region :: "region \<Rightarrow> int \<Rightarrow> int \<Rightarrow> bool" where
  "point_in_region reg x y = point_in_rects (rects reg) x y"

fun rect_in_rects :: "rectangle list \<Rightarrow> rectangle \<Rightarrow> bool" where
  "rect_in_rects [] r = False"
| "rect_in_rects (p # ps) r =
     (if rtop p \<ge> rbottom r then False
      else if rbottom p \<le> rtop r then rect_in_rects ps r
      else if rleft p \<ge> rright r then rect_in_rects ps r
      else if rright p \<le> rleft r then rect_in_rects ps r
      else True)"

definition rect_in_region :: "region \<Rightarrow> rectangle \<Rightarrow> bool" where
  "rect_in_region reg r = rect_in_rects (rects reg) r"

end
