(* ===== verification/Region_Bands.thy ===== *)
theory Region_Bands
  imports Region
begin

text \<open>
  What \<^verbatim>\<open>region_op\<close> of \<^verbatim>\<open>server/region.c\<close> computes, as sets of points.  A list of rectangles is
  well formed (\<open>wf_rects\<close>) exactly when \<^verbatim>\<open>validate_rectangles\<close> accepts it.  The callbacks of the
  three operations are shown to emit one band each, \<^verbatim>\<open>coalesce_region\<close> to keep the set of points,
  and the walk over two regions, proved once in the locale \<open>band_operation\<close>, to give the boolean
  combination its callbacks implement.
\<close>

section \<open>Sets of points\<close>

definition rect_set :: "rectangle \<Rightarrow> (int \<times> int) set" where
  "rect_set r = {(x, y). rleft r \<le> x \<and> x < rright r \<and> rtop r \<le> y \<and> y < rbottom r}"

definition rects_set :: "rectangle list \<Rightarrow> (int \<times> int) set" where
  "rects_set rs = (\<Union>r \<in> set rs. rect_set r)"

definition rect_before :: "rectangle \<Rightarrow> rectangle \<Rightarrow> bool" where
  "rect_before a b = (rtop a = rtop b \<and> rbottom a = rbottom b \<and> rright a < rleft b \<or> rbottom a \<le> rtop b)"

definition wf_rects :: "rectangle list \<Rightarrow> bool" where
  "wf_rects rs = ((\<forall>r \<in> set rs. \<not> is_rect_empty r) \<and> sorted_wrt rect_before rs)"

definition xset :: "rectangle list \<Rightarrow> int set" where
  "xset rs = {v. \<exists>r \<in> set rs. rleft r \<le> v \<and> v < rright r}"

definition xband :: "rectangle list \<Rightarrow> bool" where
  "xband rs = ((\<forall>r \<in> set rs. rleft r < rright r) \<and> sorted_wrt (\<lambda>a b. rright a < rleft b) rs)"

definition is_band :: "int \<Rightarrow> int \<Rightarrow> rectangle list \<Rightarrow> bool" where
  "is_band t b rs = ((\<forall>r \<in> set rs. rtop r = t \<and> rbottom r = b) \<and> xband rs)"

lemma rects_set_simps [simp]:
  "rects_set [] = {}" "rects_set (r # rs) = rect_set r \<union> rects_set rs"
  "rects_set (as @ bs) = rects_set as \<union> rects_set bs"
  by (auto simp: rects_set_def)

lemma xset_simps [simp]:
  "xset [] = {}" "xset (r # rs) = {rleft r..<rright r} \<union> xset rs" "xset (as @ bs) = xset as \<union> xset bs"
  by (auto simp: xset_def)

lemma xband_simps [simp]:
  "xband []" "xband (r # rs) = (rleft r < rright r \<and> (\<forall>q \<in> set rs. rright r < rleft q) \<and> xband rs)"
  "xband (as @ bs) = (xband as \<and> xband bs \<and> (\<forall>a \<in> set as. \<forall>b \<in> set bs. rright a < rleft b))"
  by (auto simp: xband_def sorted_wrt_append)

lemma is_band_simps [simp]:
  "is_band t b []"
  "is_band t b (r # rs) = (rtop r = t \<and> rbottom r = b \<and> rleft r < rright r \<and>
     (\<forall>q \<in> set rs. rright r < rleft q) \<and> is_band t b rs)"
  by (auto simp: is_band_def)

lemma mk_rect_simps [simp]:
  "rleft (mk_rect l t r b) = l" "rtop (mk_rect l t r b) = t"
  "rright (mk_rect l t r b) = r" "rbottom (mk_rect l t r b) = b"
  by (simp_all add: mk_rect_def)

lemma rects_set_band: "is_band t b rs \<Longrightarrow> rects_set rs = {(x, y). x \<in> xset rs \<and> t \<le> y \<and> y < b}"
  by (auto simp: is_band_def rects_set_def rect_set_def xset_def)

lemma wf_rects_simps [simp]:
  "wf_rects []"
  "wf_rects (r # rs) = (\<not> is_rect_empty r \<and> (\<forall>q \<in> set rs. rect_before r q) \<and> wf_rects rs)"
  by (auto simp: wf_rects_def)

lemma wf_rects_append:
  "wf_rects (as @ bs) = (wf_rects as \<and> wf_rects bs \<and> (\<forall>a \<in> set as. \<forall>b \<in> set bs. rect_before a b))"
  by (auto simp: wf_rects_def sorted_wrt_append)

lemma wf_rects_is_band: "is_band t b rs \<Longrightarrow> t < b \<Longrightarrow> wf_rects rs"
  by (induction rs) (auto simp: is_rect_empty_def rect_before_def is_band_def)

lemma rect_before_trans:
  "rect_before a b \<Longrightarrow> rect_before b c \<Longrightarrow> \<not> is_rect_empty b \<Longrightarrow> rect_before a c"
  by (auto simp: rect_before_def is_rect_empty_def)

lemma validate_rectangles_iff: "validate_rectangles rs = wf_rects rs"
proof (induction rs rule: validate_rectangles.induct)
  case (3 p q rs)
  have "wf_rects (p # q # rs) = (\<not> is_rect_empty p \<and> rect_before p q \<and> wf_rects (q # rs))"
    using rect_before_trans by auto
  then show ?case
    using "3.IH" by (auto simp: rect_before_def is_rect_empty_def)
qed simp_all

section \<open>Bands\<close>

lemma band_append_skip: "band rs @ skip_band rs = rs"
  by (simp add: band_def skip_band_def)

lemma band_nonempty [simp]: "rs \<noteq> [] \<Longrightarrow> band rs \<noteq> []"
  by (cases rs) (auto simp: band_def)

lemma hd_band [simp]: "rs \<noteq> [] \<Longrightarrow> hd (band rs) = hd rs"
  by (cases rs) (auto simp: band_def)

lemma wf_skip_band: "wf_rects rs \<Longrightarrow> wf_rects (skip_band rs)"
  by (metis band_append_skip wf_rects_append)

lemma wf_rects_xband:
  "wf_rects rs \<Longrightarrow> \<forall>r \<in> set rs. rtop r = t \<Longrightarrow> \<forall>r \<in> set rs. rbottom r = b \<Longrightarrow> xband rs"
  by (induction rs) (auto simp: rect_before_def is_rect_empty_def)

lemma band_bottoms:
  "wf_rects (h # t) \<Longrightarrow> \<forall>q \<in> set t. rtop q = rtop h \<Longrightarrow> \<forall>q \<in> set (h # t). rbottom q = rbottom h"
  by (auto simp: rect_before_def is_rect_empty_def)

lemma is_band_band:
  assumes "wf_rects rs" "rs \<noteq> []"
  shows "is_band (rtop (hd rs)) (rbottom (hd rs)) (band rs)"
proof -
  have wf: "wf_rects (band rs)" using assms by (metis band_append_skip wf_rects_append)
  have top: "\<forall>r \<in> set (band rs). rtop r = rtop (hd rs)"
    unfolding band_def by (meson set_takeWhileD)
  have bot: "\<forall>r \<in> set (band rs). rbottom r = rbottom (hd rs)"
  proof -
    obtain h t where t: "band rs = h # t"
      using band_nonempty[OF assms(2)] by (cases "band rs") auto
    then have h: "h = hd rs" using hd_band[OF assms(2)] by simp
    have "\<forall>q \<in> set (h # t). rtop q = rtop h" using top unfolding t h .
    moreover have "wf_rects (h # t)" using wf unfolding t .
    ultimately have "\<forall>q \<in> set (h # t). rbottom q = rbottom h"
      by (intro band_bottoms) (auto simp del: wf_rects_simps)
    then show ?thesis unfolding t h .
  qed
  have "xband (band rs)"
    using wf top bot by (rule wf_rects_xband)
  with top bot show ?thesis by (simp add: is_band_def)
qed

lemma skip_band_below:
  assumes "wf_rects rs" "r \<in> set (skip_band rs)"
  shows "rbottom (hd rs) \<le> rtop r"
proof -
  from assms(2) obtain z zs where z: "skip_band rs = z # zs" by (cases "skip_band rs") auto
  then have ne: "rs \<noteq> []" and top: "rtop z \<noteq> rtop (hd rs)"
    by (auto simp: skip_band_def dropWhile_eq_Cons_conv)
  have "hd rs \<in> set (band rs)" using ne by (metis band_nonempty hd_band hd_in_set)
  then have "rect_before (hd rs) z" and "z = r \<or> rect_before z r" and "\<not> is_rect_empty z"
    using assms z by (metis band_append_skip wf_rects_append list.set_intros(1),
      metis wf_skip_band wf_rects_simps(2) set_ConsD, metis wf_skip_band wf_rects_simps(2))
  with top show ?thesis by (auto simp: rect_before_def is_rect_empty_def)
qed

lemma in_rects_set_hd:
  assumes "wf_rects rs" "rs \<noteq> []" "y < rbottom (hd rs)"
  shows "(x, y) \<in> rects_set rs \<longleftrightarrow> rtop (hd rs) \<le> y \<and> x \<in> xset (band rs)"
proof -
  have "(x, y) \<notin> rects_set (skip_band rs)"
    using skip_band_below[OF assms(1)] assms(3) by (fastforce simp: rects_set_def rect_set_def)
  moreover have "rects_set rs = rects_set (band rs) \<union> rects_set (skip_band rs)"
    by (metis band_append_skip rects_set_simps(3))
  ultimately show ?thesis
    using rects_set_band[OF is_band_band[OF assms(1,2)]] assms(3) by auto
qed

lemma in_rects_set_skip:
  assumes "wf_rects rs" "rs \<noteq> []" "rbottom (hd rs) \<le> y"
  shows "(x, y) \<in> rects_set (skip_band rs) \<longleftrightarrow> (x, y) \<in> rects_set rs"
proof -
  have "rects_set rs = rects_set (band rs) \<union> rects_set (skip_band rs)"
    by (metis band_append_skip rects_set_simps(3))
  then show ?thesis
    using rects_set_band[OF is_band_band[OF assms(1,2)]] assms(3) by auto
qed

section \<open>Emitting and coalescing bands\<close>

definition emits :: "region \<Rightarrow> region \<Rightarrow> int \<Rightarrow> int \<Rightarrow> int set \<Rightarrow> bool" where
  "emits reg reg' t b X = (\<exists>out. rects reg' = rects reg @ out \<and> is_band t b out \<and> xset out = X)"

definition last_band_at :: "rectangle list \<Rightarrow> nat \<Rightarrow> bool" where
  "last_band_at rs p = (p \<le> length rs \<and>
     (\<exists>t b. is_band t b (drop p rs) \<and> (\<forall>r \<in> set (take p rs). rbottom r \<le> t)))"

definition built :: "region \<Rightarrow> nat \<Rightarrow> int \<Rightarrow> bool" where
  "built reg p y = (wf_rects (rects reg) \<and> (\<forall>r \<in> set (rects reg). rbottom r \<le> y) \<and> last_band_at (rects reg) p)"

lemma last_band_atI:
  "p \<le> length rs \<Longrightarrow> is_band t b (drop p rs) \<Longrightarrow> \<forall>r \<in> set (take p rs). rbottom r \<le> t \<Longrightarrow> last_band_at rs p"
  unfolding last_band_at_def by blast

lemma wf_rects_append_below:
  "wf_rects as \<Longrightarrow> wf_rects bs \<Longrightarrow> \<forall>a \<in> set as. rbottom a \<le> t \<Longrightarrow> \<forall>b \<in> set bs. t \<le> rtop b \<Longrightarrow> wf_rects (as @ bs)"
  by (force simp: wf_rects_append rect_before_def)

lemma band_append_band:
  "is_band t b c \<Longrightarrow> c \<noteq> [] \<Longrightarrow> \<forall>r \<in> set rest. rtop r \<noteq> t \<Longrightarrow> band (c @ rest) = c \<and> skip_band (c @ rest) = rest"
proof -
  assume c: "is_band t b c" "c \<noteq> []" and rest: "\<forall>r \<in> set rest. rtop r \<noteq> t"
  then have h: "rtop (hd (c @ rest)) = t" and all: "\<forall>r \<in> set c. rtop r = t"
    by (auto simp: is_band_def)
  have "takeWhile (\<lambda>r. rtop r = t) rest = []" "dropWhile (\<lambda>r. rtop r = t) rest = rest"
    using rest by (cases rest; auto)+
  with h all show ?thesis
    unfolding band_def skip_band_def by (simp add: takeWhile_append2 dropWhile_append2)
qed

definition merge_bands :: "rectangle list \<Rightarrow> rectangle list \<Rightarrow> rectangle list" where
  "merge_bands p c = map2 (\<lambda>p c. p\<lparr>rbottom := rbottom c\<rparr>) p c"

lemma merge_bands_band:
  assumes "list_all2 (\<lambda>p c. rleft p = rleft c \<and> rright p = rright c) p c"
    and "is_band t1 b1 p" "is_band t2 b2 c"
  shows "is_band t1 b2 (merge_bands p c) \<and> xset (merge_bands p c) = xset p \<and> xset c = xset p"
proof -
  have "is_band t1 b2 (merge_bands p c) \<and> xset (merge_bands p c) = xset p \<and> xset c = xset p \<and>
      rleft ` set (merge_bands p c) = rleft ` set p"
    using assms
  proof (induction rule: list_all2_induct)
    case Nil
    then show ?case by (simp add: merge_bands_def)
  next
    case (Cons x xs y ys)
    have "\<forall>q \<in> set (merge_bands xs ys). rright x < rleft q"
    proof
      fix q assume "q \<in> set (merge_bands xs ys)"
      then have "rleft q \<in> rleft ` set xs" using Cons by auto
      then show "rright x < rleft q" using Cons.prems by auto
    qed
    with Cons show ?case by (auto simp: merge_bands_def)
  qed
  then show ?thesis by blast
qed

lemma coalesce_region_correct:
  assumes rs: "rs = as @ p @ c @ rest" "ps = length as" "cs = length as + length p"
    and wf: "wf_rects rs" and p: "is_band t1 b1 p" "\<forall>r \<in> set as. rbottom r \<le> t1"
    and c: "is_band t2 b2 c" "c \<noteq> []" "t2 < b2" "\<forall>r \<in> set (as @ p). rbottom r \<le> t2"
    and rest: "\<forall>r \<in> set rest. b2 \<le> rtop r"
    and eq: "coalesce_region rs ps cs = (rs', ps')"
  shows "rects_set rs' = rects_set rs \<and> wf_rects rs' \<and> (\<forall>y. (\<forall>r \<in> set rs. rbottom r \<le> y) \<longrightarrow> (\<forall>r \<in> set rs'. rbottom r \<le> y))
     \<and> (rest = [] \<longrightarrow> last_band_at rs' ps')"
proof -
  have d: "drop cs rs = c @ rest" "take (length p) (drop ps rs) = p" "take ps rs = as" "cs - ps = length p"
    by (simp_all add: rs)
  have "\<forall>r \<in> set rest. rtop r \<noteq> t2" using rest c(3) by force
  then have bs: "band (c @ rest) = c" "skip_band (c @ rest) = rest"
    using band_append_band[OF c(1,2)] by auto
  let ?same = "list_all2 (\<lambda>p c. rleft p = rleft c \<and> rright p = rright c) p c"
  let ?c = "if rest = [] then cs else last_band_start rs"
  have eq2: "(rs', ps') =
     (if length c = length p \<and> length c \<noteq> 0
      then (if rbottom (hd p) = rtop (hd c)
            then (if ?same then (as @ merge_bands p c @ rest, if rest = [] then ps else ?c) else (rs, ?c))
            else (rs, ?c))
      else (rs, ?c))"
    by (simp only: eq[symmetric] coalesce_region_def Let_def d bs merge_bands_def)
  show ?thesis
  proof (cases "length c = length p \<and> rbottom (hd p) = rtop (hd c) \<and> ?same")
    case False
    then have "rs' = rs" and "rest = [] \<Longrightarrow> ps' = cs"
      using eq2 c(2) by (auto split: if_splits)
    moreover have "last_band_at rs cs" if "rest = []"
      using c(1,4) that by (intro last_band_atI[where t = t2 and b = b2]) (auto simp: rs)
    ultimately show ?thesis using wf by auto
  next
    case True
    let ?m = "merge_bands p c"
    from True c(2) have pne: "p \<noteq> []" by auto
    have b1: "b1 = t2" using True pne c(1,2) p(1) by (auto simp: is_band_def hd_in_set)
    have rs': "rs' = as @ ?m @ rest" and ps': "rest = [] \<Longrightarrow> ps' = ps"
      using eq2 True c(2) by (auto split: if_splits)
    have m: "is_band t1 b2 ?m" "xset ?m = xset p" "xset c = xset p"
      using merge_bands_band[OF _ p(1) c(1)] True by auto
    have "p \<noteq> [] \<Longrightarrow> t1 < b1" using wf p(1) by (cases p) (auto simp: rs wf_rects_append is_rect_empty_def)
    then have lt: "t1 < t2" using pne b1 by simp
    have "rects_set ?m = rects_set p \<union> rects_set c"
      using m lt b1 c(3) by (auto simp: rects_set_band[OF p(1)] rects_set_band[OF c(1)] rects_set_band[OF m(1)])
    then have set: "rects_set rs' = rects_set rs" by (auto simp: rs' rs)
    have "wf_rects (as @ ?m)"
      using wf p(2) m(1) wf_rects_is_band[OF m(1)] lt c(3)
      by (intro wf_rects_append_below[where t = t1]) (auto simp: rs wf_rects_append is_band_def)
    moreover have "\<forall>r \<in> set (as @ ?m). rbottom r \<le> b2"
      using m(1) p(2) lt c(3) by (force simp: is_band_def)
    ultimately have "wf_rects ((as @ ?m) @ rest)"
      using wf_rects_append_below[of "as @ ?m" rest b2] wf rest by (simp add: rs wf_rects_append)
    moreover have "\<forall>r \<in> set rs'. rbottom r \<le> y" if "\<forall>r \<in> set rs. rbottom r \<le> y" for y
      using that m(1) c(1,2) by (cases c) (auto simp: rs rs' is_band_def)
    moreover have "last_band_at rs' ps'" if "rest = []"
      using that ps' m(1) p(2) by (intro last_band_atI[where t = t1 and b = b2]) (auto simp: rs' rs(2))
    ultimately show ?thesis using set by (auto simp: rs')
  qed
qed

lemma coalesce_emits:
  assumes "built reg p y0" "emits reg reg1 t b X" "y0 \<le> t" "t < b"
    and "coalesce reg1 p (length (rects reg)) = (reg2, p2)"
  shows "built reg2 p2 b \<and> rects_set (rects reg2) = rects_set (rects reg) \<union> {(x, y). x \<in> X \<and> t \<le> y \<and> y < b}"
proof -
  from assms(2) obtain out where out: "rects reg1 = rects reg @ out" "is_band t b out" "xset out = X"
    by (auto simp: emits_def)
  from assms(1) obtain t1 b1 where wf: "wf_rects (rects reg)" "\<forall>r \<in> set (rects reg). rbottom r \<le> y0"
    and lb: "p \<le> length (rects reg)" "is_band t1 b1 (drop p (rects reg))" "\<forall>r \<in> set (take p (rects reg)). rbottom r \<le> t1"
    by (auto simp: built_def last_band_at_def)
  show ?thesis
  proof (cases "out = []")
    case True
    then have "X = {}" "reg2 = reg1" "p2 = p" "rects reg1 = rects reg"
      using out assms(5) by (auto simp: coalesce_def)
    then show ?thesis using assms(1,3,4) by (fastforce simp: built_def)
  next
    case False
    then have eq: "coalesce_region (rects reg1) p (length (rects reg)) = (rects reg2, p2)"
      using assms(5) out(1) by (auto simp: coalesce_def split: prod.splits)
    have below: "\<forall>r \<in> set (rects reg). rbottom r \<le> t" using wf(2) assms(3) by force
    have "rects reg = take p (rects reg) @ drop p (rects reg)" by simp
    then have dec: "rects reg1 = take p (rects reg) @ drop p (rects reg) @ out @ []"
      by (simp add: out(1))
    have len: "p = length (take p (rects reg))"
      "length (rects reg) = length (take p (rects reg)) + length (drop p (rects reg))"
      using lb(1) by simp_all
    have wf1: "wf_rects (rects reg1)"
      unfolding out(1) using wf(1) wf_rects_is_band[OF out(2) assms(4)] below out(2)
      by (intro wf_rects_append_below[where t = t]) (auto simp: is_band_def)
    have "\<forall>r \<in> set (take p (rects reg) @ drop p (rects reg)). rbottom r \<le> t"
      using below by simp
    from coalesce_region_correct[OF dec len wf1 lb(2,3) out(2) False assms(4) this _ eq]
    have r: "rects_set (rects reg2) = rects_set (rects reg1)" "wf_rects (rects reg2)"
      "\<forall>y. (\<forall>r \<in> set (rects reg1). rbottom r \<le> y) \<longrightarrow> (\<forall>r \<in> set (rects reg2). rbottom r \<le> y)"
      "last_band_at (rects reg2) p2"
      by (metis empty_iff list.set(1))+
    have "\<forall>r \<in> set (rects reg1). rbottom r \<le> b"
      using below out assms(4) by (force simp: is_band_def)
    then have "built reg2 p2 b" using r(2-4) by (simp add: built_def)
    moreover have "rects_set (rects reg2) = rects_set (rects reg) \<union> {(x, y). x \<in> X \<and> t \<le> y \<and> y < b}"
      using r(1) by (simp add: out(1) rects_set_band[OF out(2)] out(3))
    ultimately show ?thesis by blast
  qed
qed

section \<open>The operations on one band\<close>

lemma rects_add_rect: "add_rect A reg r = Some reg' \<Longrightarrow> rects reg' = rects reg @ [r]"
  by (auto simp: add_rect_def split: if_splits)

lemma emits_refl: "emits reg reg t b {}"
  by (auto simp: emits_def intro: exI[of _ "[]"])

lemma rleft_in_xset: "is_band t b out \<Longrightarrow> r \<in> set out \<Longrightarrow> rleft r \<in> xset out"
  by (auto simp: is_band_def xband_def xset_def)

lemma emits_add_rect:
  assumes "add_rect A reg (mk_rect l t r b) = Some reg1" "l < r" "emits reg1 reg' t b X" "\<forall>v \<in> X. r < v"
    "Y = {l..<r} \<union> X"
  shows "emits reg reg' t b Y"
proof -
  from assms(3) obtain out where out: "rects reg' = rects reg1 @ out" "is_band t b out" "xset out = X"
    by (auto simp: emits_def)
  have "is_band t b (mk_rect l t r b # out)"
    using out assms(2,4) rleft_in_xset[OF out(2)] by auto
  then show ?thesis
    using out assms(5) rects_add_rect[OF assms(1)]
    by (auto simp: emits_def intro!: exI[of _ "mk_rect l t r b # out"])
qed

lemma emits_no_band:
  "emits reg1 reg' t b X \<Longrightarrow> reg1 = reg \<Longrightarrow> Y = X \<Longrightarrow> emits reg reg' t b Y"
  by simp

lemma xset_greater: "\<forall>q \<in> set rs. v < rleft q \<Longrightarrow> w \<in> xset rs \<Longrightarrow> v < w"
  by (auto simp: xset_def)

lemma copy_band_emits:
  "copy_band A reg r t b = Some reg' \<Longrightarrow> xband r \<Longrightarrow> emits reg reg' t b (xset r)"
proof (induction A reg r t b rule: copy_band.induct)
  case (1 A reg t b)
  then show ?case by (simp add: emits_refl)
next
  case (2 A reg r rs t b)
  from "2.prems" obtain reg1 where a: "add_rect A reg (mk_rect (rleft r) t (rright r) b) = Some reg1"
    and c: "copy_band A reg1 rs t b = Some reg'" by (auto split: option.splits)
  show ?case
    using "2.prems" "2.IH"[OF a c] xset_greater[of rs "rright r"]
    by (intro emits_add_rect[OF a _ _ _ xset_simps(2)]) auto
qed

lemma intersect_overlapping_emits:
  "intersect_overlapping A reg r1 r2 t b = Some reg' \<Longrightarrow> xband r1 \<Longrightarrow> xband r2 \<Longrightarrow>
     emits reg reg' t b (xset r1 \<inter> xset r2)"
proof (induction A reg r1 r2 t b rule: intersect_overlapping.induct)
  case (1 A reg x xs y ys t b)
  let ?l = "max (rleft x) (rleft y)" and ?r = "min (rright x) (rright y)"
  from "1.prems"(1) obtain reg1 where
    a: "(if ?l < ?r then add_rect A reg (mk_rect ?l t ?r b) else Some reg) = Some reg1" and
    rest: "(if rright x < rright y then intersect_overlapping A reg1 xs (y # ys) t b
           else if rright y < rright x then intersect_overlapping A reg1 (x # xs) ys t b
           else intersect_overlapping A reg1 xs ys t b) = Some reg'"
    by (auto simp: Let_def split: option.splits)
  have gx: "\<forall>v \<in> xset xs. rright x < v" and gy: "\<forall>v \<in> xset ys. rright y < v"
    using "1.prems"(2,3) xset_greater by auto
  define X where "X = (if rright x < rright y then xset xs \<inter> xset (y # ys)
           else if rright y < rright x then xset (x # xs) \<inter> xset ys else xset xs \<inter> xset ys)"
  have e: "emits reg1 reg' t b X"
    using "1.IH"[OF refl refl a] rest "1.prems"(2,3) unfolding X_def by (auto split: if_splits)
  have X: "\<forall>v \<in> X. ?r < v" and all: "xset (x # xs) \<inter> xset (y # ys) = {?l..<?r} \<union> X"
    unfolding X_def using gx gy "1.prems"(2,3) by (auto split: if_splits)
  show ?case
  proof (cases "?l < ?r")
    case True
    with a show ?thesis by (intro emits_add_rect[OF _ True e X all]) auto
  next
    case False
    then have "{?l..<?r} = {}" by simp
    with all have "xset (x # xs) \<inter> xset (y # ys) = X" by blast
    moreover have "Some reg = Some reg1" using a by (simp only: False if_False)
    ultimately show ?thesis using e by simp
  qed
qed (simp_all add: emits_refl)


text \<open>What is left of the first band when its first rectangle starts at \<open>l\<close>.\<close>

definition left_over :: "int \<Rightarrow> rectangle list \<Rightarrow> int set" where
  "left_over l rs = (case rs of [] \<Rightarrow> {} | x # xs \<Rightarrow> {l..<rright x} \<union> xset xs)"

lemma left_over_next [simp]: "left_over (next_left l xs) xs = xset xs"
  by (cases xs) (auto simp: left_over_def next_left_def)

lemma next_left_less: "xband xs \<Longrightarrow> xs \<noteq> [] \<Longrightarrow> next_left l xs < rright (hd xs)"
  by (cases xs) (auto simp: next_left_def)

lemma subtract_loop_emits:
  "subtract_loop A reg l r1 r2 t b = Some reg' \<Longrightarrow> xband r1 \<Longrightarrow> xband r2 \<Longrightarrow>
     r1 \<noteq> [] \<longrightarrow> l < rright (hd r1) \<Longrightarrow> emits reg reg' t b (left_over l r1 - xset r2)"
proof (induction A reg l r1 r2 t b rule: subtract_loop.induct)
  case (1 A reg l x xs y ys t b)
  note IH = "1.IH" and prems = "1.prems"
  have gx: "\<forall>v \<in> xset xs. rright x < v" and gy: "\<forall>v \<in> xset ys. rright y < v"
    and x: "rleft x < rright x" "xband xs" "l < rright x" and y: "rleft y < rright y" "xband ys"
    using prems(2-4) xset_greater by auto
  have nl: "xs \<noteq> [] \<longrightarrow> next_left m xs < rright (hd xs)" for m
    using next_left_less[OF x(2)] by blast
  consider (skip) "rright y \<le> l" | (eatx) "\<not> rright y \<le> l" "rleft y \<le> l" "rright y \<ge> rright x"
    | (eat) "\<not> rright y \<le> l" "rleft y \<le> l" "\<not> rright y \<ge> rright x"
    | (cutx) "\<not> rright y \<le> l" "\<not> rleft y \<le> l" "rleft y < rright x" "rright y \<ge> rright x"
    | (cut) "\<not> rright y \<le> l" "\<not> rleft y \<le> l" "rleft y < rright x" "\<not> rright y \<ge> rright x"
    | (keep) "\<not> rright y \<le> l" "\<not> rleft y \<le> l" "\<not> rleft y < rright x"
    by blast
  then show ?case
  proof cases
    case skip
    have "left_over l (x # xs) - xset (y # ys) = left_over l (x # xs) - xset ys"
      using skip gx x by (auto simp: left_over_def)
    with IH(1)[OF skip] skip prems show ?thesis by simp
  next
    case eatx
    have "left_over l (x # xs) - xset (y # ys) = xset xs - xset (y # ys)"
      using eatx gx x by (auto simp: left_over_def)
    with IH(2)[OF eatx] eatx prems nl show ?thesis by simp
  next
    case eat
    have "left_over l (x # xs) - xset (y # ys) = left_over (rright y) (x # xs) - xset ys"
      using eat gx gy x by (auto simp: left_over_def)
    with IH(3)[OF eat] eat prems show ?thesis by simp
  next
    case cutx
    then obtain reg1 where a: "add_rect A reg (mk_rect l t (rleft y) b) = Some reg1"
      and s: "subtract_loop A reg1 (next_left (rright y) xs) xs (y # ys) t b = Some reg'"
      using prems(1) by (auto split: option.splits)
    have "left_over l (x # xs) - xset (y # ys) = {l..<rleft y} \<union> (xset xs - xset (y # ys))"
      using cutx gx gy x y by (auto simp: left_over_def)
    moreover have "emits reg1 reg' t b (xset xs - xset (y # ys))"
      using IH(4)[OF cutx(1-3) a cutx(4) s x(2) prems(3)] nl by simp
    ultimately show ?thesis
      using cutx gx by (intro emits_add_rect[OF a]) auto
  next
    case cut
    then obtain reg1 where a: "add_rect A reg (mk_rect l t (rleft y) b) = Some reg1"
      and s: "subtract_loop A reg1 (rright y) (x # xs) ys t b = Some reg'"
      using prems(1) by (auto split: option.splits)
    have "left_over l (x # xs) - xset (y # ys) = {l..<rleft y} \<union> (left_over (rright y) (x # xs) - xset ys)"
      using cut gx gy x y by (auto simp: left_over_def)
    moreover have "emits reg1 reg' t b (left_over (rright y) (x # xs) - xset ys)"
      using IH(5)[OF cut(1-3) a cut(4) s prems(2) y(2)] cut by simp
    ultimately show ?thesis
      using cut gx y by (intro emits_add_rect[OF a]) (auto simp: left_over_def)
  next
    case keep
    then obtain reg1 where a: "add_rect A reg (mk_rect l t (rright x) b) = Some reg1"
      and s: "subtract_loop A reg1 (next_left l xs) xs (y # ys) t b = Some reg'"
      using prems(1) x(3) by (auto split: option.splits)
    have "left_over l (x # xs) - xset (y # ys) = {l..<rright x} \<union> (xset xs - xset (y # ys))"
      using keep gx gy x y by (fastforce simp: left_over_def)
    moreover have "emits reg1 reg' t b (xset xs - xset (y # ys))"
      using IH(6)[OF keep _ s x(2) prems(3)] a x(3) nl by simp
    ultimately show ?thesis
      using keep gx x(3) by (intro emits_add_rect[OF a]) auto
  qed
next
  case (2 A reg l x xs t b)
  from "2.prems" obtain reg1 where a: "add_rect A reg (mk_rect l t (rright x) b) = Some reg1"
    and s: "subtract_loop A reg1 (next_left l xs) xs [] t b = Some reg'" by (auto split: option.splits)
  have "emits reg1 reg' t b (xset xs)"
    using "2.IH"[OF a s] "2.prems" next_left_less[of xs] by simp
  then show ?case
    using "2.prems" xset_greater[of xs "rright x"]
    by (intro emits_add_rect[OF a]) (auto simp: left_over_def)
qed (simp add: emits_refl left_over_def)

lemma subtract_overlapping_emits:
  "subtract_overlapping A reg r1 r2 t b = Some reg' \<Longrightarrow> xband r1 \<Longrightarrow> xband r2 \<Longrightarrow> r1 \<noteq> [] \<Longrightarrow>
     emits reg reg' t b (xset r1 - xset r2)"
  using subtract_loop_emits[of A reg "rleft (hd r1)" r1 r2 t b reg']
  by (cases r1) (auto simp: subtract_overlapping_def left_over_def)

text \<open>The union extends the band it is building: \<open>acc\<close> is the part built so far.\<close>

definition accepts :: "rectangle list \<Rightarrow> rectangle list \<Rightarrow> bool" where
  "accepts acc rs = (acc \<noteq> [] \<longrightarrow> (\<forall>q \<in> set rs. rleft (last acc) \<le> rleft q))"

definition building :: "region \<Rightarrow> rectangle list \<Rightarrow> rectangle list \<Rightarrow> int \<Rightarrow> int \<Rightarrow> bool" where
  "building reg pre acc t b = (rects reg = pre @ acc \<and> is_band t b acc \<and> (\<forall>r \<in> set pre. rtop r < t))"

lemma MERGERECT_building:
  assumes "MERGERECT A reg r t b = Some reg1" "building reg pre acc t b" "accepts acc [r]" "rleft r < rright r"
  obtains acc1 where "building reg1 pre acc1 t b" "xset acc1 = xset acc \<union> {rleft r..<rright r}"
    "acc1 \<noteq> []" "rleft (last acc1) \<le> rleft r"
proof (cases acc rule: rev_cases)
  case Nil
  then have "MERGERECT A reg r t b = add_rect A reg (mk_rect (rleft r) t (rright r) b)"
    using assms(2) last_in_set[of pre] by (fastforce simp: MERGERECT_def building_def Let_def)
  then have "rects reg1 = pre @ [mk_rect (rleft r) t (rright r) b]"
    using assms(1,2) Nil rects_add_rect[of A reg _ reg1] by (simp add: building_def)
  then show thesis
    using assms(2,4) Nil by (intro that[of "[mk_rect (rleft r) t (rright r) b]"]) (auto simp: building_def)
next
  case (snoc as l)
  have b: "is_band t b (as @ [l])" "rects reg = pre @ as @ [l]" "\<forall>r \<in> set pre. rtop r < t" "rleft l \<le> rleft r"
    using assms(2,3) snoc by (auto simp: building_def accepts_def)
  show thesis
  proof (cases "rleft r \<le> rright l")
    case True
    let ?l = "if rright l < rright r then l\<lparr>rright := rright r\<rparr> else l"
    have "rects reg1 = pre @ as @ [?l]"
      using True assms(1) b(1,2) by (auto simp: MERGERECT_def is_band_def Let_def butlast_append)
    moreover have "is_band t b (as @ [?l])" using b(1) by (auto simp: is_band_def)
    ultimately show thesis
      using b True assms(4) snoc by (intro that[of "as @ [?l]"]) (auto simp: building_def)
  next
    case False
    then have "rects reg1 = pre @ acc @ [mk_rect (rleft r) t (rright r) b]"
      using assms(1) b(1,2) snoc by (auto simp: MERGERECT_def is_band_def Let_def dest: rects_add_rect)
    moreover have "is_band t b (acc @ [mk_rect (rleft r) t (rright r) b])"
      using b(1) False assms(4) snoc by (force simp: is_band_def)
    ultimately show thesis
      using b snoc by (intro that[of "acc @ [mk_rect (rleft r) t (rright r) b]"]) (auto simp: building_def)
  qed
qed

definition extends :: "region \<Rightarrow> rectangle list \<Rightarrow> int \<Rightarrow> int \<Rightarrow> int set \<Rightarrow> bool" where
  "extends reg' pre t b X = (\<exists>out. building reg' pre out t b \<and> xset out = X)"

lemma union_rest_extends:
  "union_rest A reg rs t b = Some reg' \<Longrightarrow> xband rs \<Longrightarrow> building reg pre acc t b \<Longrightarrow> accepts acc rs \<Longrightarrow>
     extends reg' pre t b (xset acc \<union> xset rs)"
proof (induction A reg rs t b arbitrary: acc rule: union_rest.induct)
  case (1 A reg t b)
  then show ?case by (auto simp: extends_def)
next
  case (2 A reg r rs t b)
  from "2.prems"(1) obtain reg1 where m: "MERGERECT A reg r t b = Some reg1"
    and u: "union_rest A reg1 rs t b = Some reg'" by (auto split: option.splits)
  from "2.prems" obtain acc1 where acc1: "building reg1 pre acc1 t b" "acc1 \<noteq> []" "rleft (last acc1) \<le> rleft r"
    "xset acc1 = xset acc \<union> {rleft r..<rright r}"
    by (auto simp: accepts_def intro: MERGERECT_building[OF m "2.prems"(3)])
  have "accepts acc1 rs" using acc1 "2.prems"(2) by (force simp: accepts_def)
  then have "extends reg' pre t b (xset acc1 \<union> xset rs)"
    using "2.IH"[OF m u _ acc1(1)] "2.prems"(2) by simp
  then show ?case by (simp add: acc1(4) Un_assoc)
qed

lemma union_overlapping_extends:
  "union_overlapping A reg r1 r2 t b = Some reg' \<Longrightarrow> xband r1 \<Longrightarrow> xband r2 \<Longrightarrow> building reg pre acc t b \<Longrightarrow>
     accepts acc r1 \<Longrightarrow> accepts acc r2 \<Longrightarrow> extends reg' pre t b (xset acc \<union> xset r1 \<union> xset r2)"
proof (induction A reg r1 r2 t b arbitrary: acc rule: union_overlapping.induct)
  case (1 A reg x xs y ys t b)
  show ?case
  proof (cases "rleft x < rleft y")
    case True
    with "1.prems"(1) obtain reg1 where m: "MERGERECT A reg x t b = Some reg1"
      and u: "union_overlapping A reg1 xs (y # ys) t b = Some reg'" by (auto split: option.splits)
    from m "1.prems" obtain acc1 where acc1: "building reg1 pre acc1 t b" "acc1 \<noteq> []" "rleft (last acc1) \<le> rleft x"
      "xset acc1 = xset acc \<union> {rleft x..<rright x}"
      by (auto simp: accepts_def intro: MERGERECT_building[OF m "1.prems"(4)])
    have acc: "accepts acc1 xs" "accepts acc1 (y # ys)"
      using acc1 "1.prems"(2,3) True by (force simp: accepts_def)+
    have "extends reg' pre t b (xset acc1 \<union> xset xs \<union> xset (y # ys))"
      using "1.IH"(1)[OF True m u _ "1.prems"(3) acc1(1) acc] "1.prems"(2) by simp
    then show ?thesis by (simp add: acc1(4) Un_ac)
  next
    case False
    with "1.prems"(1) obtain reg1 where m: "MERGERECT A reg y t b = Some reg1"
      and u: "union_overlapping A reg1 (x # xs) ys t b = Some reg'" by (auto split: option.splits)
    from m "1.prems" obtain acc1 where acc1: "building reg1 pre acc1 t b" "acc1 \<noteq> []" "rleft (last acc1) \<le> rleft y"
      "xset acc1 = xset acc \<union> {rleft y..<rright y}"
      by (auto simp: accepts_def intro: MERGERECT_building[OF m "1.prems"(4)])
    have acc: "accepts acc1 (x # xs)" "accepts acc1 ys"
      using acc1 "1.prems"(2,3) False by (force simp: accepts_def)+
    have "extends reg' pre t b (xset acc1 \<union> xset (x # xs) \<union> xset ys)"
      using "1.IH"(2)[OF False m u "1.prems"(2) _ acc1(1) acc] "1.prems"(3) by simp
    then show ?thesis by (simp add: acc1(4) Un_ac)
  qed
next
  case (2 A reg x xs t b)
  then show ?case using union_rest_extends[of A reg "x # xs"] by simp
next
  case (3 A reg r2 t b)
  then show ?case using union_rest_extends[of A reg r2] by simp
qed

lemma union_overlapping_emits:
  assumes "union_overlapping A reg r1 r2 t b = Some reg'" "xband r1" "xband r2" "\<forall>r \<in> set (rects reg). rtop r < t"
  shows "emits reg reg' t b (xset r1 \<union> xset r2)"
  using union_overlapping_extends[OF assms(1-3), of "rects reg" "[]"] assms(4)
  by (auto simp: building_def accepts_def extends_def emits_def)

section \<open>Allocation is the only failure\<close>

lemma add_rect_total: "\<forall>n. A n \<Longrightarrow> add_rect A reg r \<noteq> None"
  by (simp add: add_rect_def)

lemma copy_band_total: "\<forall>n. A n \<Longrightarrow> copy_band A reg r t b \<noteq> None"
  by (induction A reg r t b rule: copy_band.induct) (auto split: option.splits simp: add_rect_total)

lemma intersect_overlapping_total: "\<forall>n. A n \<Longrightarrow> intersect_overlapping A reg r1 r2 t b \<noteq> None"
  by (induction A reg r1 r2 t b rule: intersect_overlapping.induct)
    (auto split: option.splits simp: add_rect_total Let_def)

lemma subtract_overlapping_total: "\<forall>n. A n \<Longrightarrow> subtract_overlapping A reg r1 r2 t b \<noteq> None"
proof -
  assume A: "\<forall>n. A n"
  then have "subtract_loop A reg l r1 r2 t b \<noteq> None" for l
    by (induction A reg l r1 r2 t b rule: subtract_loop.induct)
      (auto split: option.splits simp: add_rect_total)
  then show ?thesis by (simp add: subtract_overlapping_def)
qed

lemma MERGERECT_total: "\<forall>n. A n \<Longrightarrow> MERGERECT A reg r t b \<noteq> None"
  by (simp add: MERGERECT_def add_rect_total Let_def del: not_None_eq)

lemma union_rest_total: "\<forall>n. A n \<Longrightarrow> union_rest A reg r t b \<noteq> None"
  by (induction A reg r t b rule: union_rest.induct) (auto split: option.splits simp: MERGERECT_total)

lemma union_overlapping_total: "\<forall>n. A n \<Longrightarrow> union_overlapping A reg r1 r2 t b \<noteq> None"
  by (induction A reg r1 r2 t b rule: union_overlapping.induct)
    (auto split: option.splits simp: MERGERECT_total union_rest_total simp del: not_None_eq)

section \<open>Walking the bands of two regions\<close>

lemma built_mono: "built reg p y \<Longrightarrow> y \<le> y' \<Longrightarrow> built reg p y'"
  by (fastforce simp: built_def)

lemma built_tops: "built reg p y \<Longrightarrow> y \<le> t \<Longrightarrow> \<forall>r \<in> set (rects reg). rtop r < t"
  by (fastforce simp: built_def wf_rects_def is_rect_empty_def)

text \<open>The part of the result between two scan lines.\<close>

definition slab ::
    "(bool \<Rightarrow> bool \<Rightarrow> bool) \<Rightarrow> rectangle list \<Rightarrow> rectangle list \<Rightarrow> int \<Rightarrow> int \<Rightarrow> (int \<times> int) set" where
  "slab f r1 r2 a b = {(x, y). a \<le> y \<and> y < b \<and> f ((x, y) \<in> rects_set r1) ((x, y) \<in> rects_set r2)}"

lemma slab_split: "a \<le> m \<Longrightarrow> m \<le> b \<Longrightarrow> slab f r1 r2 a b = slab f r1 r2 a m \<union> slab f r1 r2 m b"
  by (auto simp: slab_def)

lemma slab_empty [simp]: "slab f r1 r2 a a = {}"
  by (auto simp: slab_def)

text \<open>The invariant of the loop: how far the result is built and what is left to read.\<close>

definition walking :: "region \<Rightarrow> nat \<Rightarrow> int \<Rightarrow> rectangle list \<Rightarrow> rectangle list \<Rightarrow> bool" where
  "walking reg p y r1 r2 = (built reg p y \<and> wf_rects r1 \<and> wf_rects r2 \<and>
     (\<forall>r \<in> set r1 \<union> set r2. y < rbottom r) \<and>
     (r1 \<noteq> [] \<longrightarrow> r2 \<noteq> [] \<longrightarrow> y \<le> rtop (hd r1) \<or> y \<le> rtop (hd r2)))"

lemma wf_rects_hd: "wf_rects r \<Longrightarrow> r \<noteq> [] \<Longrightarrow> rtop (hd r) < rbottom (hd r)"
  by (cases r) (auto simp: is_rect_empty_def)

lemma advance_correct:
  assumes "wf_rects r" "r \<noteq> []" "y \<le> rbottom (hd r)"
  shows "wf_rects (advance y r)" "q \<in> set (advance y r) \<Longrightarrow> y < rbottom q"
    "y \<le> v \<Longrightarrow> (u, v) \<in> rects_set (advance y r) \<longleftrightarrow> (u, v) \<in> rects_set r"
    "rbottom (hd r) = y \<Longrightarrow> q \<in> set (advance y r) \<Longrightarrow> y \<le> rtop q"
proof -
  show "wf_rects (advance y r)" using assms wf_skip_band by (simp add: advance_def)
  have below: "rbottom (hd r) \<le> rtop q \<and> rtop q < rbottom q" if "q \<in> set (skip_band r)" for q
    using skip_band_below[OF assms(1) that] wf_skip_band[OF assms(1)] that
    by (auto simp: wf_rects_def is_rect_empty_def)
  then show "rbottom (hd r) = y \<Longrightarrow> q \<in> set (advance y r) \<Longrightarrow> y \<le> rtop q"
    by (auto simp: advance_def)
  have "y < rbottom q" if "q \<in> set r" "rbottom (hd r) \<noteq> y" for q
  proof -
    have "q \<in> set (band r) \<or> q \<in> set (skip_band r)"
      using that(1) by (metis band_append_skip set_append Un_iff)
    then show ?thesis
      using is_band_band[OF assms(1,2)] below[of q] that(2) assms(3) by (auto simp: is_band_def)
  qed
  then show "q \<in> set (advance y r) \<Longrightarrow> y < rbottom q"
    using below by (fastforce simp: advance_def split: if_splits)
  show "y \<le> v \<Longrightarrow> (u, v) \<in> rects_set (advance y r) \<longleftrightarrow> (u, v) \<in> rects_set r"
    using in_rects_set_skip[OF assms(1,2)] by (auto simp: advance_def)
qed

text \<open>The strip where only one region has rectangles.\<close>

lemma non_overlap_phase:
  assumes nf: "nf = (if h then Some copy_band else None)"
    and b: "xband b" and built: "built reg p y0" "y0 \<le> t" "t \<le> bo"
    and ap: "apply_non_overlap nf A reg b t bo = Some reg1"
    and co: "coalesce reg1 p (length (rects reg)) = (reg2, p2)"
  shows "built reg2 p2 bo \<and>
    rects_set (rects reg2) = rects_set (rects reg) \<union> {(x, y). h \<and> x \<in> xset b \<and> t \<le> y \<and> y < bo}"
proof (cases "t = bo \<or> \<not> h")
  case True
  then have "reg1 = reg" using ap nf by (auto simp: apply_non_overlap_def split: if_splits)
  then have "reg2 = reg" "p2 = p" using co by (auto simp: coalesce_def)
  then show ?thesis using True built built_mono[of reg p y0 bo] by auto
next
  case False
  then have "emits reg reg1 t bo (xset b)"
    using ap nf b copy_band_emits by (simp add: apply_non_overlap_def)
  from coalesce_emits[OF built(1) this built(2) _ co] show ?thesis
    using False built(3) by auto
qed

text \<open>The bands that remain when the other region is exhausted.\<close>

lemma region_tail_step:
  "r \<noteq> [] \<Longrightarrow> region_tail A f reg y0 r = Some reg' \<Longrightarrow>
   \<exists>reg1. f A reg (band r) (max (rtop (hd r)) y0) (rbottom (hd r)) = Some reg1 \<and>
     region_tail A f reg1 y0 (skip_band r) = Some reg'"
  by (subst (asm) region_tail.simps) (auto split: option.splits)

lemma tail_parts:
  assumes "wf_rects r" "r \<noteq> []" "\<forall>q \<in> set r. y0 < rbottom q"
    and "copy_band A reg (band r) (max (rtop (hd r)) y0) (rbottom (hd r)) = Some reg1"
  obtains c where "rects reg1 = rects reg @ c" "is_band (max (rtop (hd r)) y0) (rbottom (hd r)) c"
    "c \<noteq> []" "max (rtop (hd r)) y0 < rbottom (hd r)"
    "rects_set c = {(x, y). y0 \<le> y \<and> (x, y) \<in> rects_set (band r)}"
    "wf_rects (skip_band r)" "\<forall>q \<in> set (skip_band r). y0 < rbottom q \<and> rbottom (hd r) \<le> rtop q"
proof -
  have band: "is_band (rtop (hd r)) (rbottom (hd r)) (band r)" by (rule is_band_band[OF assms(1,2)])
  then have "emits reg reg1 (max (rtop (hd r)) y0) (rbottom (hd r)) (xset (band r))"
    using copy_band_emits[OF assms(4)] by (simp add: is_band_def)
  then obtain c where c: "rects reg1 = rects reg @ c" "xset c = xset (band r)"
    "is_band (max (rtop (hd r)) y0) (rbottom (hd r)) c" by (auto simp: emits_def)
  moreover have "rects_set c = {(x, y). y0 \<le> y \<and> (x, y) \<in> rects_set (band r)}"
    using c(2) by (auto simp: rects_set_band[OF c(3)] rects_set_band[OF band])
  moreover have "xset (band r) \<noteq> {}"
    using band band_nonempty[OF assms(2)] rleft_in_xset[OF band, of "hd (band r)"] by auto
  then have "c \<noteq> []" using c(2) by auto
  moreover have "max (rtop (hd r)) y0 < rbottom (hd r)"
    using assms(1-3) by (cases r) (auto simp: is_rect_empty_def)
  moreover have "\<forall>q \<in> set (skip_band r). y0 < rbottom q \<and> rbottom (hd r) \<le> rtop q"
    using assms(1,3) skip_band_below set_dropWhileD by (fastforce simp: skip_band_def)
  ultimately show thesis using that wf_skip_band[OF assms(1)] by blast
qed

lemma region_tail_copy:
  "region_tail A f reg y0 r = Some reg' \<Longrightarrow> f = copy_band \<Longrightarrow> wf_rects r \<Longrightarrow>
   \<forall>q \<in> set r. y0 < rbottom q \<Longrightarrow> \<forall>q \<in> set r. m \<le> rtop q \<Longrightarrow>
   \<exists>out. rects reg' = rects reg @ out \<and> wf_rects out \<and>
     rects_set out = {(x, y). y0 \<le> y \<and> (x, y) \<in> rects_set r} \<and> (\<forall>q \<in> set out. m \<le> rtop q)"
proof (induction A f reg y0 r arbitrary: m rule: region_tail.induct)
  case (1 A f reg y0 r)
  show ?case
  proof (cases "r = []")
    case True
    then show ?thesis using "1.prems"(1) by (auto simp: region_tail.simps)
  next
    case False
    let ?t = "max (rtop (hd r)) y0" and ?b = "rbottom (hd r)"
    from region_tail_step[OF False "1.prems"(1)] obtain reg1 where
      c: "f A reg (band r) ?t ?b = Some reg1" and rec: "region_tail A f reg1 y0 (skip_band r) = Some reg'"
      by auto
    have ca: "copy_band A reg (band r) ?t ?b = Some reg1" using c "1.prems"(2) by simp
    obtain c where c': "rects reg1 = rects reg @ c" "is_band ?t ?b c" "c \<noteq> []" "?t < ?b"
      "rects_set c = {(x, y). y0 \<le> y \<and> (x, y) \<in> rects_set (band r)}"
      "wf_rects (skip_band r)" "\<forall>q \<in> set (skip_band r). y0 < rbottom q \<and> ?b \<le> rtop q"
      by (rule tail_parts[OF "1.prems"(3) False "1.prems"(4) ca])
    have "\<exists>out. rects reg' = rects reg1 @ out \<and> wf_rects out \<and>
       rects_set out = {(x, y). y0 \<le> y \<and> (x, y) \<in> rects_set (skip_band r)} \<and> (\<forall>q \<in> set out. ?b \<le> rtop q)"
      using "1.IH"[OF False c rec "1.prems"(2) c'(6)] c'(7) by blast
    then obtain out where out: "rects reg' = rects reg1 @ out" "wf_rects out"
      "rects_set out = {(x, y). y0 \<le> y \<and> (x, y) \<in> rects_set (skip_band r)}" "\<forall>q \<in> set out. ?b \<le> rtop q"
      by blast
    have "m \<le> rtop (hd r)" using "1.prems"(5) False by simp
    then have "\<forall>q \<in> set (c @ out). m \<le> rtop q"
      using c'(2,4) out(4) by (fastforce simp: is_band_def)
    moreover have "wf_rects (c @ out)"
      using wf_rects_append_below[of c out ?b] wf_rects_is_band[OF c'(2,4)] c'(2) out(2,4)
      by (auto simp: is_band_def)
    moreover have "rects_set (c @ out) = {(x, y). y0 \<le> y \<and> (x, y) \<in> rects_set r}"
      using c'(5) out(3) rects_set_simps(3)[of "band r" "skip_band r"] by (auto simp: band_append_skip)
    ultimately show ?thesis using c'(1) out(1) by (intro exI[of _ "c @ out"]) simp
  qed
qed

lemma tail_phase:
  assumes "built reg p y0" "wf_rects r" "\<forall>q \<in> set r. y0 < rbottom q"
    and tail: "region_tail A copy_band reg y0 r = Some reg1"
    and co: "coalesce reg1 p (length (rects reg)) = (reg2, p2)"
  shows "wf_rects (rects reg2) \<and>
    rects_set (rects reg2) = rects_set (rects reg) \<union> {(x, y). y0 \<le> y \<and> (x, y) \<in> rects_set r}"
proof (cases "r = []")
  case True
  then have "reg1 = reg" using tail by (simp add: region_tail.simps)
  then have "reg2 = reg" using co by (simp add: coalesce_def)
  then show ?thesis using True assms(1) by (auto simp: built_def)
next
  case False
  let ?t = "max (rtop (hd r)) y0" and ?b = "rbottom (hd r)"
  from region_tail_step[OF False tail] obtain rega where
    ca: "copy_band A reg (band r) ?t ?b = Some rega" and rec: "region_tail A copy_band rega y0 (skip_band r) = Some reg1"
    by auto
  obtain c where
    c: "rects rega = rects reg @ c" "is_band ?t ?b c" "c \<noteq> []" "?t < ?b"
      "rects_set c = {(x, y). y0 \<le> y \<and> (x, y) \<in> rects_set (band r)}"
      "wf_rects (skip_band r)" "\<forall>q \<in> set (skip_band r). y0 < rbottom q \<and> ?b \<le> rtop q"
    by (rule tail_parts[OF assms(2) False assms(3) ca])
  have "\<exists>out. rects reg1 = rects rega @ out \<and> wf_rects out \<and>
      rects_set out = {(x, y). y0 \<le> y \<and> (x, y) \<in> rects_set (skip_band r)} \<and> (\<forall>q \<in> set out. ?b \<le> rtop q)"
    using c(7) by (intro region_tail_copy[OF rec refl c(6)]) auto
  then obtain out where out: "rects reg1 = rects rega @ out" "wf_rects out"
    "rects_set out = {(x, y). y0 \<le> y \<and> (x, y) \<in> rects_set (skip_band r)}" "\<forall>q \<in> set out. ?b \<le> rtop q" by blast
  from assms(1) obtain t1 b1 where wf: "wf_rects (rects reg)" "\<forall>r \<in> set (rects reg). rbottom r \<le> y0"
    and lb: "p \<le> length (rects reg)" "is_band t1 b1 (drop p (rects reg))" "\<forall>r \<in> set (take p (rects reg)). rbottom r \<le> t1"
    by (auto simp: built_def last_band_at_def)
  have below: "\<forall>r \<in> set (rects reg). rbottom r \<le> ?t" using wf(2) by fastforce
  have dec: "rects reg1 = take p (rects reg) @ drop p (rects reg) @ c @ out"
    by (metis append_assoc append_take_drop_id c(1) out(1))
  have len: "p = length (take p (rects reg))"
    "length (rects reg) = length (take p (rects reg)) + length (drop p (rects reg))"
    using lb(1) by simp_all
  have "wf_rects (c @ out)"
    using wf_rects_append_below[of c out ?b] wf_rects_is_band[OF c(2,4)] c(2) out(2,4)
    by (auto simp: is_band_def)
  moreover have "\<forall>q \<in> set (c @ out). ?t \<le> rtop q"
    using c(2,4) out(4) by (fastforce simp: is_band_def)
  ultimately have wf1: "wf_rects (rects reg1)"
    using wf_rects_append_below[OF wf(1) _ below] by (simp add: out(1) c(1))
  have eq: "coalesce_region (rects reg1) p (length (rects reg)) = (rects reg2, p2)"
    using co c(1,3) out(1) by (auto simp: coalesce_def split: prod.splits)
  have "\<forall>r \<in> set (take p (rects reg) @ drop p (rects reg)). rbottom r \<le> ?t" using below by simp
  from coalesce_region_correct[OF dec len wf1 lb(2,3) c(2,3,4) this out(4) eq]
  have "rects_set (rects reg2) = rects_set (rects reg1)" "wf_rects (rects reg2)" by auto
  moreover have "rects_set r = rects_set (band r) \<union> rects_set (skip_band r)"
    by (metis band_append_skip rects_set_simps(3))
  ultimately show ?thesis using c(1,5) out(1,3) by auto
qed


text \<open>The two phases of one iteration.\<close>

definition overlap_phase ::
    "allocator \<Rightarrow> overlap_func \<Rightarrow> rectangle list \<Rightarrow> rectangle list \<Rightarrow> region \<Rightarrow> nat \<Rightarrow> region \<Rightarrow> nat \<Rightarrow> bool" where
  "overlap_phase A ov r1 r2 reg2 p2 reg' p' =
     (let t = max (rtop (hd r1)) (rtop (hd r2)); b = min (rbottom (hd r1)) (rbottom (hd r2)) in
      \<exists>reg3. (if t < b then ov A reg2 (band r1) (band r2) t b else Some reg2) = Some reg3 \<and>
        coalesce reg3 p2 (length (rects reg2)) = (reg', p'))"

lemma region_step_phases:
  assumes "region_step A ov n1 n2 reg p y0 r1 r2 = Some (reg', p')"
  shows "\<exists>reg1 reg2 p2. coalesce reg1 p (length (rects reg)) = (reg2, p2) \<and> overlap_phase A ov r1 r2 reg2 p2 reg' p' \<and>
    (if rtop (hd r1) < rtop (hd r2)
     then apply_non_overlap n1 A reg (band r1) (max (rtop (hd r1)) y0) (min (rbottom (hd r1)) (rtop (hd r2)))
     else if rtop (hd r2) < rtop (hd r1)
     then apply_non_overlap n2 A reg (band r2) (max (rtop (hd r2)) y0) (min (rbottom (hd r2)) (rtop (hd r1)))
     else Some reg) = Some reg1"
  using assms
  by (cases "rtop (hd r1)" "rtop (hd r2)" rule: linorder_cases)
    (auto simp: region_step_def Let_def overlap_phase_def max_def simp del: min_less_iff_conj
      split: option.splits prod.splits if_splits)

text \<open>
  What \<^verbatim>\<open>region_op\<close> expects of its three callbacks, for the boolean combination \<open>f\<close> they
  implement: the overlap function emits the band where \<open>f\<close> of the two memberships holds, and a
  non-overlap function is given exactly when the points of that region alone belong to the result.
\<close>

locale band_operation =
  fixes f :: "bool \<Rightarrow> bool \<Rightarrow> bool"
    and ov :: overlap_func
    and n1 n2 :: "non_overlap_func option"
  assumes outside: "\<not> f False False"
    and ov_emits: "ov A reg b1 b2 t b = Some reg' \<Longrightarrow> xband b1 \<Longrightarrow> xband b2 \<Longrightarrow> b1 \<noteq> [] \<Longrightarrow>
      \<forall>r \<in> set (rects reg). rtop r < t \<Longrightarrow>
      emits reg reg' t b {v. f (v \<in> xset b1) (v \<in> xset b2)}"
    and ov_total: "\<forall>n. A n \<Longrightarrow> ov A reg b1 b2 t b \<noteq> None"
    and n1_eq: "n1 = (if f True False then Some copy_band else None)"
    and n2_eq: "n2 = (if f False True then Some copy_band else None)"
begin

lemma single: "f a False = (f True False \<and> a)" "f False a = (f False True \<and> a)"
  using outside by (cases a; simp)+

lemma alone:
  "f (a \<and> b) False = (f True False \<and> a \<and> b)" "f False (a \<and> b) = (f False True \<and> a \<and> b)"
  "f (q \<in> S) False = (f True False \<and> q \<in> S)" "f False (q \<in> S) = (f False True \<and> q \<in> S)"
  by (rule single)+

lemma non_overlap1_slab:
  assumes "walking reg p y0 r1 r2" "r1 \<noteq> []" "r2 \<noteq> []" "rtop (hd r1) < rtop (hd r2)"
    and "apply_non_overlap n1 A reg (band r1) (max (rtop (hd r1)) y0) (min (rbottom (hd r1)) (rtop (hd r2))) = Some reg1"
    and "coalesce reg1 p (length (rects reg)) = (reg2, p2)"
  shows "built reg2 p2 (min (rbottom (hd r1)) (rtop (hd r2))) \<and>
    rects_set (rects reg2) = rects_set (rects reg) \<union> slab f r1 r2 y0 (min (rbottom (hd r1)) (rtop (hd r2)))"
proof -
  let ?bo = "min (rbottom (hd r1)) (rtop (hd r2))"
  from assms(1-3) have w: "built reg p y0" "wf_rects r1" "wf_rects r2" "y0 < rbottom (hd r1)"
    "y0 \<le> rtop (hd r1) \<or> y0 \<le> rtop (hd r2)" "rtop (hd r1) < rbottom (hd r1)" "rtop (hd r2) < rbottom (hd r2)"
    by (auto simp: walking_def wf_rects_hd)
  have "slab f r1 r2 y0 ?bo =
      {(x, y). f True False \<and> x \<in> xset (band r1) \<and> max (rtop (hd r1)) y0 \<le> y \<and> y < ?bo}"
    using in_rects_set_hd[OF w(2) assms(2)] in_rects_set_hd[OF w(3) assms(3)] w(7)
    by (auto simp: slab_def alone)
  moreover have "xband (band r1)" using is_band_band[OF w(2) assms(2)] by (simp add: is_band_def)
  ultimately show ?thesis
    using non_overlap_phase[OF n1_eq _ w(1) _ _ assms(5,6)] assms(4) w(4-6) by auto
qed

lemma non_overlap2_slab:
  assumes "walking reg p y0 r1 r2" "r1 \<noteq> []" "r2 \<noteq> []" "rtop (hd r2) < rtop (hd r1)"
    and "apply_non_overlap n2 A reg (band r2) (max (rtop (hd r2)) y0) (min (rbottom (hd r2)) (rtop (hd r1))) = Some reg1"
    and "coalesce reg1 p (length (rects reg)) = (reg2, p2)"
  shows "built reg2 p2 (min (rbottom (hd r2)) (rtop (hd r1))) \<and>
    rects_set (rects reg2) = rects_set (rects reg) \<union> slab f r1 r2 y0 (min (rbottom (hd r2)) (rtop (hd r1)))"
proof -
  let ?bo = "min (rbottom (hd r2)) (rtop (hd r1))"
  from assms(1-3) have w: "built reg p y0" "wf_rects r1" "wf_rects r2" "y0 < rbottom (hd r2)"
    "y0 \<le> rtop (hd r1) \<or> y0 \<le> rtop (hd r2)" "rtop (hd r1) < rbottom (hd r1)" "rtop (hd r2) < rbottom (hd r2)"
    by (auto simp: walking_def wf_rects_hd)
  have "slab f r1 r2 y0 ?bo =
      {(x, y). f False True \<and> x \<in> xset (band r2) \<and> max (rtop (hd r2)) y0 \<le> y \<and> y < ?bo}"
    using in_rects_set_hd[OF w(2) assms(2)] in_rects_set_hd[OF w(3) assms(3)] w(6)
    by (auto simp: slab_def alone)
  moreover have "xband (band r2)" using is_band_band[OF w(3) assms(3)] by (simp add: is_band_def)
  ultimately show ?thesis
    using non_overlap_phase[OF n2_eq _ w(1) _ _ assms(5,6)] assms(4) w(4-7) by auto
qed

lemma overlap_slab:
  assumes "built reg p t" "wf_rects r1" "wf_rects r2" "r1 \<noteq> []" "r2 \<noteq> []"
    and "t = max (rtop (hd r1)) (rtop (hd r2))" "t < b" "b = min (rbottom (hd r1)) (rbottom (hd r2))"
    and "ov A reg (band r1) (band r2) t b = Some reg1"
    and "coalesce reg1 p (length (rects reg)) = (reg2, p2)"
  shows "built reg2 p2 b \<and> rects_set (rects reg2) = rects_set (rects reg) \<union> slab f r1 r2 t b"
proof -
  have bands: "xband (band r1)" "xband (band r2)" "band r1 \<noteq> []"
    using is_band_band[OF assms(2,4)] is_band_band[OF assms(3,5)] assms(4) by (auto simp: is_band_def)
  have "emits reg reg1 t b {v. f (v \<in> xset (band r1)) (v \<in> xset (band r2))}"
    using ov_emits[OF assms(9) bands] built_tops[OF assms(1)] by simp
  from coalesce_emits[OF assms(1) this _ assms(7,10)]
  have "built reg2 p2 b" and s: "rects_set (rects reg2) = rects_set (rects reg) \<union>
      {(x, y). f (x \<in> xset (band r1)) (x \<in> xset (band r2)) \<and> t \<le> y \<and> y < b}" by auto
  moreover have "slab f r1 r2 t b =
      {(x, y). f (x \<in> xset (band r1)) (x \<in> xset (band r2)) \<and> t \<le> y \<and> y < b}"
    using in_rects_set_hd[OF assms(2,4)] in_rects_set_hd[OF assms(3,5)] assms(6,8)
    by (auto simp: slab_def)
  ultimately show ?thesis by simp
qed


lemma region_step_correct:
  assumes w: "walking reg p y0 r1 r2" and ne: "r1 \<noteq> []" "r2 \<noteq> []"
    and yb: "yb = min (rbottom (hd r1)) (rbottom (hd r2))"
    and step: "region_step A ov n1 n2 reg p y0 r1 r2 = Some (reg', p')"
  shows "built reg' p' yb \<and> rects_set (rects reg') = rects_set (rects reg) \<union> slab f r1 r2 y0 yb"
proof -
  from w ne have w': "built reg p y0" "wf_rects r1" "wf_rects r2" "y0 < yb"
    "y0 \<le> rtop (hd r1) \<or> y0 \<le> rtop (hd r2)" "rtop (hd r1) < rbottom (hd r1)" "rtop (hd r2) < rbottom (hd r2)"
    by (auto simp: walking_def yb wf_rects_hd)
  define ytop where "ytop = max (rtop (hd r1)) (rtop (hd r2))"
  let ?m = "min yb ytop"
  obtain reg1 reg2 p2 where co: "coalesce reg1 p (length (rects reg)) = (reg2, p2)"
    and second: "overlap_phase A ov r1 r2 reg2 p2 reg' p'"
    and ap: "(if rtop (hd r1) < rtop (hd r2)
     then apply_non_overlap n1 A reg (band r1) (max (rtop (hd r1)) y0) (min (rbottom (hd r1)) (rtop (hd r2)))
     else if rtop (hd r2) < rtop (hd r1)
     then apply_non_overlap n2 A reg (band r2) (max (rtop (hd r2)) y0) (min (rbottom (hd r2)) (rtop (hd r1)))
     else Some reg) = Some reg1"
    using region_step_phases[OF step] by blast
  have first: "built reg2 p2 ?m \<and> rects_set (rects reg2) = rects_set (rects reg) \<union> slab f r1 r2 y0 ?m"
  proof (cases "rtop (hd r1)" "rtop (hd r2)" rule: linorder_cases)
    case less
    then have "?m = min (rbottom (hd r1)) (rtop (hd r2))" using w'(7) by (auto simp: yb ytop_def)
    then show ?thesis using non_overlap1_slab[OF w ne less _ co] ap less by simp
  next
    case equal
    then have m: "?m = rtop (hd r1)" "y0 \<le> rtop (hd r1)" using w'(5-7) by (auto simp: yb ytop_def)
    moreover have "reg2 = reg" "p2 = p" using ap co equal by (auto simp: coalesce_def)
    moreover have "slab f r1 r2 y0 (rtop (hd r1)) = {}"
      using in_rects_set_hd[OF w'(2) ne(1)] in_rects_set_hd[OF w'(3) ne(2)] w'(6,7) equal outside
      by (auto simp: slab_def)
    ultimately show ?thesis using w'(1) built_mono by auto
  next
    case greater
    then have "?m = min (rbottom (hd r2)) (rtop (hd r1))" using w'(6) by (auto simp: yb ytop_def)
    then show ?thesis using non_overlap2_slab[OF w ne greater _ co] ap greater by simp
  qed
  show ?thesis
  proof (cases "ytop < yb")
    case True
    then have "built reg2 p2 ytop" and m: "?m = ytop" using first by simp_all
    moreover obtain reg3 where "ov A reg2 (band r1) (band r2) ytop yb = Some reg3"
      "coalesce reg3 p2 (length (rects reg2)) = (reg', p')"
      using second True by (auto simp: overlap_phase_def Let_def yb ytop_def)
    ultimately have "built reg' p' yb \<and> rects_set (rects reg') = rects_set (rects reg2) \<union> slab f r1 r2 ytop yb"
      using overlap_slab[OF _ w'(2,3) ne ytop_def True yb] by blast
    moreover have "y0 \<le> ytop" using w'(5) by (auto simp: ytop_def)
    ultimately show ?thesis
      using first True slab_split[of y0 ytop yb f r1 r2] unfolding m by auto
  next
    case False
    then have "reg' = reg2" "p' = p2"
      using second by (auto simp: overlap_phase_def Let_def yb ytop_def coalesce_def)
    moreover have "?m = yb" using False by simp
    ultimately show ?thesis using first by simp
  qed
qed

lemma walking_advance:
  assumes "walking reg p y0 r1 r2" "r1 \<noteq> []" "r2 \<noteq> []" "yb = min (rbottom (hd r1)) (rbottom (hd r2))"
    and "built reg' p' yb"
  shows "walking reg' p' yb (advance yb r1) (advance yb r2)"
proof -
  have w: "wf_rects r1" "wf_rects r2" using assms(1) by (auto simp: walking_def)
  note a = advance_correct[OF w(1) assms(2), of yb] advance_correct[OF w(2) assms(3), of yb]
  have "yb \<le> rtop (hd (advance yb r1)) \<or> yb \<le> rtop (hd (advance yb r2))"
    if "advance yb r1 \<noteq> []" "advance yb r2 \<noteq> []"
  proof (cases "rbottom (hd r1) = yb")
    case True
    then show ?thesis using a(4) that(1) by simp
  next
    case False
    then have "rbottom (hd r2) = yb" using assms(4) by linarith
    then show ?thesis using a(8) that(2) by simp
  qed
  moreover have "yb \<le> rbottom (hd r1)" "yb \<le> rbottom (hd r2)" using assms(4) by simp_all
  ultimately show ?thesis using a(1,2,5,6) assms(5) unfolding walking_def by blast
qed

lemma region_loop_correct:
  "region_loop A g m1 m2 reg p y0 r1 r2 = Some (reg', p', y', r1', r2') \<Longrightarrow> g = ov \<Longrightarrow> m1 = n1 \<Longrightarrow> m2 = n2 \<Longrightarrow>
   walking reg p y0 r1 r2 \<Longrightarrow>
   walking reg' p' y' r1' r2' \<and> (r1' = [] \<or> r2' = []) \<and> y0 \<le> y' \<and>
   rects_set (rects reg') = rects_set (rects reg) \<union> slab f r1 r2 y0 y' \<and>
   (\<forall>x y. y' \<le> y \<longrightarrow> ((x, y) \<in> rects_set r1' \<longleftrightarrow> (x, y) \<in> rects_set r1) \<and>
                   ((x, y) \<in> rects_set r2' \<longleftrightarrow> (x, y) \<in> rects_set r2))"
proof (induction A g m1 m2 reg p y0 r1 r2 rule: region_loop.induct)
  case (1 A g m1 m2 reg p y0 r1 r2)
  show ?case
  proof (cases "r1 = [] \<or> r2 = []")
    case True
    then have "reg' = reg" "p' = p" "y' = y0" "r1' = r1" "r2' = r2"
      using "1.prems"(1) by (auto simp: region_loop.simps)
    then show ?thesis using True "1.prems"(5) by simp
  next
    case False
    then have ne: "r1 \<noteq> []" "r2 \<noteq> []" by auto
    define yb where "yb = min (rbottom (hd r1)) (rbottom (hd r2))"
    from "1.prems"(1) False obtain rega pa where
      st: "region_step A g m1 m2 reg p y0 r1 r2 = Some (rega, pa)" and
      rec: "region_loop A g m1 m2 rega pa yb (advance yb r1) (advance yb r2) = Some (reg', p', y', r1', r2')"
      by (auto simp: region_loop.simps[of _ _ _ _ reg] yb_def Let_def split: option.splits)
    have step: "built rega pa yb" "rects_set (rects rega) = rects_set (rects reg) \<union> slab f r1 r2 y0 yb"
      using region_step_correct[OF "1.prems"(5) ne yb_def] st "1.prems"(2-4) by auto
    have w: "walking rega pa yb (advance yb r1) (advance yb r2)"
      by (rule walking_advance[OF "1.prems"(5) ne yb_def step(1)])
    note IH = "1.IH"[OF False yb_def st refl rec "1.prems"(2-4) w]
    have wf: "wf_rects r1" "wf_rects r2" and y0: "y0 \<le> yb"
      using "1.prems"(5) ne by (auto simp: walking_def yb_def dest: less_imp_le)
    have same: "yb \<le> y \<Longrightarrow> ((x, y) \<in> rects_set (advance yb r1)) = ((x, y) \<in> rects_set r1)"
      "yb \<le> y \<Longrightarrow> ((x, y) \<in> rects_set (advance yb r2)) = ((x, y) \<in> rects_set r2)" for x y
      using advance_correct(3)[OF wf(1) ne(1)] advance_correct(3)[OF wf(2) ne(2)] by (auto simp: yb_def)
    have "slab f (advance yb r1) (advance yb r2) yb y' = slab f r1 r2 yb y'"
      using same by (auto simp: slab_def)
    then have "rects_set (rects reg') = rects_set (rects reg) \<union> slab f r1 r2 y0 y'"
      using IH step(2) slab_split[of y0 yb y' f r1 r2] y0 by auto
    moreover have "((x, y) \<in> rects_set r1') = ((x, y) \<in> rects_set r1) \<and>
        ((x, y) \<in> rects_set r2') = ((x, y) \<in> rects_set r2)" if "y' \<le> y" for x y
      using IH that same[of y x] by auto
    ultimately show ?thesis using IH y0 by auto
  qed
qed

lemma wf_tops:
  "wf_rects r \<Longrightarrow> \<forall>q \<in> set r. t \<le> rtop q \<Longrightarrow> \<forall>q \<in> set r. t < rbottom q \<and> t \<le> rtop q"
  by (fastforce simp: wf_rects_def is_rect_empty_def)

lemma region_op_correct:
  assumes "wf_rects (rects reg1)" "wf_rects (rects reg2)"
    and tops: "\<forall>r \<in> set (rects reg1). rtop (extents reg1) \<le> rtop r" "\<forall>r \<in> set (rects reg2). rtop (extents reg2) \<le> rtop r"
    and op: "region_op A new reg1 reg2 ov n1 n2 = Some reg'"
  shows "wf_rects (rects reg') \<and>
    rects_set (rects reg') = {q. f (q \<in> rects_set (rects reg1)) (q \<in> rects_set (rects reg2))}"
proof -
  let ?n = "max (length (rects reg1)) (length (rects reg2)) * 2"
  let ?y = "min (rtop (extents reg1)) (rtop (extents reg2))"
  let ?S = "{q. f (q \<in> rects_set (rects reg1)) (q \<in> rects_set (rects reg2))}"
  have y: "(if rtop (extents reg1) < rtop (extents reg2) then rtop (extents reg1) else rtop (extents reg2)) = ?y"
    by simp
  from op obtain reg p yb r1 r2 rega regb pb where
    loop: "region_loop A ov n1 n2 (new\<lparr>rsize := ?n, rects := []\<rparr>) 0 ?y (rects reg1) (rects reg2) = Some (reg, p, yb, r1, r2)"
    and tail: "(if r1 \<noteq> [] then (case n1 of None \<Rightarrow> Some reg | Some f \<Rightarrow> region_tail A f reg yb r1)
                    else (case n2 of None \<Rightarrow> Some reg | Some f \<Rightarrow> region_tail A f reg yb r2)) = Some rega"
    and co: "coalesce rega p (length (rects reg)) = (regb, pb)" and rects': "rects reg' = rects regb"
    by (auto simp: region_op_def Let_def y split: if_splits option.splits prod.splits)
  have in1: "?y \<le> v \<and> (\<exists>r \<in> set (rects reg1). v < rbottom r)" if "(u, v) \<in> rects_set (rects reg1)" for u v
    using that tops(1) by (fastforce simp: rects_set_def rect_set_def)
  have in2: "?y \<le> v \<and> (\<exists>r \<in> set (rects reg2). v < rbottom r)" if "(u, v) \<in> rects_set (rects reg2)" for u v
    using that tops(2) by (fastforce simp: rects_set_def rect_set_def)
  have "rects reg1 \<noteq> [] \<Longrightarrow> rtop (extents reg1) \<le> rtop (hd (rects reg1))" using tops(1) by simp
  then have "rects reg1 \<noteq> [] \<Longrightarrow> ?y \<le> rtop (hd (rects reg1))" by (simp add: min_le_iff_disj)
  then have "walking (new\<lparr>rsize := ?n, rects := []\<rparr>) 0 ?y (rects reg1) (rects reg2)"
    using assms(1,2) wf_tops[OF assms(1) tops(1)] wf_tops[OF assms(2) tops(2)]
    by (auto simp: walking_def built_def last_band_at_def)
  note L = region_loop_correct[OF loop refl refl refl this]
  have w: "built reg p yb" "wf_rects r1" "wf_rects r2" "\<forall>r \<in> set r1. yb < rbottom r" "\<forall>r \<in> set r2. yb < rbottom r"
    using L by (auto simp: walking_def)
  define T where "T = {(u, v). yb \<le> v \<and> f ((u, v) \<in> rects_set r1) ((u, v) \<in> rects_set r2)}"
  have "wf_rects (rects regb) \<and> rects_set (rects regb) = rects_set (rects reg) \<union> T"
  proof (cases "r1 = []")
    case True
    have "T = (if f False True then {(u, v). yb \<le> v \<and> (u, v) \<in> rects_set r2} else {})"
      unfolding T_def True by (auto simp: alone)
    moreover have "rega = reg \<Longrightarrow> regb = reg" using co by (simp add: coalesce_def)
    ultimately show ?thesis
      using tail True n2_eq tail_phase[OF w(1,3,5) _ co] w(1) by (auto simp: built_def split: if_splits)
  next
    case False
    then have r2: "r2 = []" using L by blast
    have "T = (if f True False then {(u, v). yb \<le> v \<and> (u, v) \<in> rects_set r1} else {})"
      unfolding T_def r2 by (auto simp: alone)
    moreover have "rega = reg \<Longrightarrow> regb = reg" using co by (simp add: coalesce_def)
    ultimately show ?thesis
      using tail False n1_eq tail_phase[OF w(1,2,4) _ co] w(1) by (auto simp: built_def split: if_splits)
  qed
  moreover have "T = {(u, v). yb \<le> v \<and> (u, v) \<in> ?S}" using L by (auto simp: T_def)
  moreover have "rects_set (rects reg) = {(u, v). ?y \<le> v \<and> v < yb \<and> (u, v) \<in> ?S}"
    using L by (auto simp: slab_def)
  moreover have "?y \<le> v" if "(u, v) \<in> ?S" for u v
    using that in1[of u v] in2[of u v]
    by (cases "(u, v) \<in> rects_set (rects reg1)") (auto simp: alone)
  ultimately show ?thesis unfolding rects' by force
qed


lemma apply_non_overlap_total:
  assumes "\<forall>n. A n"
  shows "apply_non_overlap n1 A reg r t b \<noteq> None" "apply_non_overlap n2 A reg r t b \<noteq> None"
  using copy_band_total[OF assms] n1_eq n2_eq
  by (simp_all add: apply_non_overlap_def del: not_None_eq)

lemma region_step_total: "\<forall>n. A n \<Longrightarrow> region_step A ov n1 n2 reg p y r1 r2 \<noteq> None"
  using apply_non_overlap_total ov_total
  by (auto simp: region_step_def Let_def simp del: not_None_eq split: option.splits prod.splits)

lemma region_loop_total:
  "\<forall>n. A n \<Longrightarrow> g = ov \<Longrightarrow> m1 = n1 \<Longrightarrow> m2 = n2 \<Longrightarrow> region_loop A g m1 m2 reg p y r1 r2 \<noteq> None"
proof (induction A g m1 m2 reg p y r1 r2 rule: region_loop.induct)
  case (1 A g m1 m2 reg p y r1 r2)
  show ?case
  proof (cases "r1 = [] \<or> r2 = []")
    case True
    then show ?thesis by (simp add: region_loop.simps)
  next
    case False
    obtain rega pa where st: "region_step A g m1 m2 reg p y r1 r2 = Some (rega, pa)"
      using region_step_total "1.prems" by (metis option.exhaust surj_pair)
    have "region_loop A g m1 m2 rega pa (min (rbottom (hd r1)) (rbottom (hd r2)))
        (advance (min (rbottom (hd r1)) (rbottom (hd r2))) r1)
        (advance (min (rbottom (hd r1)) (rbottom (hd r2))) r2) \<noteq> None"
      by (rule "1.IH"[OF False refl st refl "1.prems"])
    then show ?thesis using False st by (simp add: region_loop.simps[of A g m1 m2 reg] Let_def)
  qed
qed

lemma region_tail_total: "\<forall>n. A n \<Longrightarrow> g = copy_band \<Longrightarrow> region_tail A g reg y r \<noteq> None"
proof (induction A g reg y r rule: region_tail.induct)
  case (1 A g reg y r)
  show ?case
  proof (cases "r = []")
    case True
    then show ?thesis by (simp add: region_tail.simps)
  next
    case False
    obtain rega where "g A reg (band r) (max (rtop (hd r)) y) (rbottom (hd r)) = Some rega"
      using copy_band_total[OF "1.prems"(1), of reg "band r"] "1.prems"(2) by fastforce
    then show ?thesis using "1.IH"[OF False _ "1.prems"] False by (simp add: region_tail.simps[of A g reg])
  qed
qed

lemma region_op_total:
  assumes A: "\<forall>n. A n"
  shows "region_op A new reg1 reg2 ov n1 n2 \<noteq> None"
proof -
  obtain reg p yb r1 r2 where l: "region_loop A ov n1 n2
      (new\<lparr>rsize := max (length (rects reg1)) (length (rects reg2)) * 2, rects := []\<rparr>) 0
      (if rtop (extents reg1) < rtop (extents reg2) then rtop (extents reg1) else rtop (extents reg2))
      (rects reg1) (rects reg2) = Some (reg, p, yb, r1, r2)"
    using region_loop_total[OF A refl refl refl] by (metis option.exhaust prod_cases5)
  have t1: "(case n1 of None \<Rightarrow> Some reg | Some f \<Rightarrow> region_tail A f reg yb r1) \<noteq> None"
    and t2: "(case n2 of None \<Rightarrow> Some reg | Some f \<Rightarrow> region_tail A f reg yb r2) \<noteq> None"
    using region_tail_total[OF A refl] n1_eq n2_eq by (simp_all del: not_None_eq)
  then show ?thesis
    using A by (simp add: region_op_def Let_def l del: not_None_eq split: option.splits prod.splits)
qed

end

interpretation intersect_op: band_operation "(\<and>)" intersect_overlapping None None
proof
  fix A reg b1 b2 t b reg'
  assume "intersect_overlapping A reg b1 b2 t b = Some reg'" "xband b1" "xband b2"
  then show "emits reg reg' t b {v. v \<in> xset b1 \<and> v \<in> xset b2}"
    using intersect_overlapping_emits by (simp add: Collect_conj_eq)
qed (use intersect_overlapping_total in auto)

interpretation subtract_op:
  band_operation "\<lambda>a b. a \<and> \<not> b" subtract_overlapping "Some subtract_non_overlapping" None
proof
  fix A reg b1 b2 t b reg'
  assume "subtract_overlapping A reg b1 b2 t b = Some reg'" "xband b1" "xband b2" "b1 \<noteq> []"
  then show "emits reg reg' t b {v. v \<in> xset b1 \<and> v \<notin> xset b2}"
    using subtract_overlapping_emits by (simp add: set_diff_eq)
qed (use subtract_overlapping_total in \<open>auto simp: subtract_non_overlapping_def\<close>)

interpretation union_op:
  band_operation "(\<or>)" union_overlapping "Some union_non_overlapping" "Some union_non_overlapping"
proof
  fix A reg b1 b2 t b reg'
  assume "union_overlapping A reg b1 b2 t b = Some reg'" "xband b1" "xband b2" "\<forall>r \<in> set (rects reg). rtop r < t"
  then show "emits reg reg' t b {v. v \<in> xset b1 \<or> v \<in> xset b2}"
    using union_overlapping_emits by (simp add: Un_def)
qed (use union_overlapping_total in \<open>auto simp: union_non_overlapping_def\<close>)

end
