(* ===== verification/Region_Correct.thy ===== *)
theory Region_Correct
  imports Region_Bands
begin

text \<open>
  The operations of \<^verbatim>\<open>server/region.c\<close> on whole regions: \<open>region_ok\<close> is the invariant (banded
  rectangles, exact extents, an array that holds them), \<open>region_set\<close> the set of points a region
  stands for.  Every operation keeps the invariant and computes the set operation it is named after.
\<close>

section \<open>Array capacity\<close>

definition cap :: "region \<Rightarrow> bool" where
  "cap reg = (length (rects reg) \<le> rsize reg \<and> 2 \<le> rsize reg)"

lemma add_rect_cap: "add_rect A reg r = Some reg' \<Longrightarrow> cap reg \<Longrightarrow> cap reg'"
  by (auto simp: add_rect_def cap_def split: if_splits)

lemma copy_band_cap: "copy_band A reg r t b = Some reg' \<Longrightarrow> cap reg \<Longrightarrow> cap reg'"
  by (induction A reg r t b rule: copy_band.induct) (auto split: option.splits dest: add_rect_cap)

lemma intersect_overlapping_cap: "intersect_overlapping A reg r1 r2 t b = Some reg' \<Longrightarrow> cap reg \<Longrightarrow> cap reg'"
proof (induction A reg r1 r2 t b rule: intersect_overlapping.induct)
  case (1 A reg x xs y ys t b)
  let ?l = "max (rleft x) (rleft y)" and ?r = "min (rright x) (rright y)"
  from "1.prems"(1) obtain reg1 where
    a: "(if ?l < ?r then add_rect A reg (mk_rect ?l t ?r b) else Some reg) = Some reg1" and
    rest: "(if rright x < rright y then intersect_overlapping A reg1 xs (y # ys) t b
           else if rright y < rright x then intersect_overlapping A reg1 (x # xs) ys t b
           else intersect_overlapping A reg1 xs ys t b) = Some reg'"
    by (auto simp: Let_def split: option.splits)
  have "cap reg1" using a "1.prems"(2) add_rect_cap by (metis option.inject)
  then show ?case using rest "1.IH"[OF refl refl a] by (metis (full_types))
qed simp_all

lemma subtract_overlapping_cap: "subtract_overlapping A reg r1 r2 t b = Some reg' \<Longrightarrow> cap reg \<Longrightarrow> cap reg'"
proof -
  have "subtract_loop A reg l r1 r2 t b = Some reg' \<Longrightarrow> cap reg \<Longrightarrow> cap reg'" for l
    by (induction A reg l r1 r2 t b rule: subtract_loop.induct)
      (auto split: option.splits if_splits dest: add_rect_cap)
  then show "subtract_overlapping A reg r1 r2 t b = Some reg' \<Longrightarrow> cap reg \<Longrightarrow> cap reg'"
    by (simp add: subtract_overlapping_def)
qed

lemma MERGERECT_cap: "MERGERECT A reg r t b = Some reg' \<Longrightarrow> cap reg \<Longrightarrow> cap reg'"
proof (cases "rects reg" rule: rev_cases)
  case Nil
  then show "MERGERECT A reg r t b = Some reg' \<Longrightarrow> cap reg \<Longrightarrow> cap reg'"
    by (auto simp: MERGERECT_def Let_def dest: add_rect_cap)
next
  case (snoc as l)
  then show "MERGERECT A reg r t b = Some reg' \<Longrightarrow> cap reg \<Longrightarrow> cap reg'"
    by (auto simp: MERGERECT_def Let_def cap_def split: if_splits dest: add_rect_cap[unfolded cap_def])
qed

lemma union_rest_cap: "union_rest A reg r t b = Some reg' \<Longrightarrow> cap reg \<Longrightarrow> cap reg'"
  by (induction A reg r t b rule: union_rest.induct) (auto split: option.splits dest: MERGERECT_cap)

lemma union_overlapping_cap: "union_overlapping A reg r1 r2 t b = Some reg' \<Longrightarrow> cap reg \<Longrightarrow> cap reg'"
proof (induction A reg r1 r2 t b rule: union_overlapping.induct)
  case (1 A reg x xs y ys t b)
  then show ?case by (auto split: option.splits if_splits dest: MERGERECT_cap)
qed (auto dest: union_rest_cap simp del: union_rest.simps)

lemma coalesce_region_length: "length (fst (coalesce_region rs p c)) \<le> length rs"
proof -
  let ?d = "drop c rs"
  have sum: "length (band ?d) + length (skip_band ?d) = length rs - c"
    using arg_cong[OF band_append_skip[of ?d], of length] by simp
  show ?thesis
  proof (cases "length (band ?d) = c - p \<and> length (band ?d) \<noteq> 0")
    case True
    then have "p < c" "c < length rs" using sum by linarith+
    then show ?thesis using True sum by (auto simp: coalesce_region_def Let_def)
  next
    case False
    then show ?thesis by (auto simp: coalesce_region_def Let_def)
  qed
qed

lemma coalesce_cap: "coalesce reg p c = (reg', p') \<Longrightarrow> cap reg \<Longrightarrow> cap reg'"
  using coalesce_region_length[of "rects reg" p c]
  by (auto simp: coalesce_def cap_def split: if_splits prod.splits)

lemma region_tail_cap: "region_tail A f reg y r = Some reg' \<Longrightarrow> f = copy_band \<Longrightarrow> cap reg \<Longrightarrow> cap reg'"
proof (induction A f reg y r rule: region_tail.induct)
  case (1 A f reg y r)
  show ?case
  proof (cases "r = []")
    case True
    then show ?thesis using "1.prems" by (simp add: region_tail.simps)
  next
    case False
    from region_tail_step[OF False "1.prems"(1)] obtain reg1 where
      c: "f A reg (band r) (max (rtop (hd r)) y) (rbottom (hd r)) = Some reg1"
      and rec: "region_tail A f reg1 y (skip_band r) = Some reg'" by auto
    then have "cap reg1" using "1.prems"(2,3) copy_band_cap by auto
    then show ?thesis by (rule "1.IH"[OF False c rec "1.prems"(2)])
  qed
qed

text \<open>An operation whose overlap function also respects the size of the array.\<close>

locale capped_operation = band_operation +
  assumes ov_cap: "ov A reg b1 b2 t b = Some reg' \<Longrightarrow> cap reg \<Longrightarrow> cap reg'"
begin

lemma apply_non_overlap_cap:
  "apply_non_overlap n1 A reg b t bo = Some reg' \<Longrightarrow> cap reg \<Longrightarrow> cap reg'"
  "apply_non_overlap n2 A reg b t bo = Some reg' \<Longrightarrow> cap reg \<Longrightarrow> cap reg'"
  using n1_eq n2_eq copy_band_cap by (auto simp: apply_non_overlap_def split: if_splits)

lemma region_step_cap:
  assumes "region_step A ov n1 n2 reg p y0 r1 r2 = Some (reg', p')" "cap reg"
  shows "cap reg'"
proof -
  obtain reg1 reg2 p2 where co: "coalesce reg1 p (length (rects reg)) = (reg2, p2)"
    and second: "overlap_phase A ov r1 r2 reg2 p2 reg' p'"
    and ap: "(if rtop (hd r1) < rtop (hd r2)
     then apply_non_overlap n1 A reg (band r1) (max (rtop (hd r1)) y0) (min (rbottom (hd r1)) (rtop (hd r2)))
     else if rtop (hd r2) < rtop (hd r1)
     then apply_non_overlap n2 A reg (band r2) (max (rtop (hd r2)) y0) (min (rbottom (hd r2)) (rtop (hd r1)))
     else Some reg) = Some reg1"
    using region_step_phases[OF assms(1)] by blast
  have "cap reg1" using ap assms(2) by (auto dest: apply_non_overlap_cap split: if_splits)
  then have "cap reg2" by (rule coalesce_cap[OF co])
  then show ?thesis
    using second ov_cap coalesce_cap by (auto simp: overlap_phase_def Let_def split: if_splits)
qed

lemma region_loop_cap:
  "region_loop A g m1 m2 reg p y0 r1 r2 = Some (reg', rest) \<Longrightarrow> g = ov \<Longrightarrow> m1 = n1 \<Longrightarrow> m2 = n2 \<Longrightarrow> cap reg \<Longrightarrow> cap reg'"
proof (induction A g m1 m2 reg p y0 r1 r2 rule: region_loop.induct)
  case (1 A g m1 m2 reg p y0 r1 r2)
  show ?case
  proof (cases "r1 = [] \<or> r2 = []")
    case True
    then show ?thesis using "1.prems" by (auto simp: region_loop.simps)
  next
    case False
    define yb where "yb = min (rbottom (hd r1)) (rbottom (hd r2))"
    from "1.prems"(1) False obtain rega pa where
      st: "region_step A g m1 m2 reg p y0 r1 r2 = Some (rega, pa)" and
      rec: "region_loop A g m1 m2 rega pa yb (advance yb r1) (advance yb r2) = Some (reg', rest)"
      by (auto simp: region_loop.simps[of _ _ _ _ reg] yb_def Let_def split: option.splits)
    have "cap rega" using region_step_cap[of A reg p y0 r1 r2] st "1.prems"(2-5) by simp
    then show ?thesis by (rule "1.IH"[OF False yb_def st refl rec "1.prems"(2-4)])
  qed
qed

lemma region_op_cap:
  assumes "region_op A new reg1 reg2 ov n1 n2 = Some reg'" "rects reg1 \<noteq> []"
  shows "cap reg'"
proof -
  let ?n = "max (length (rects reg1)) (length (rects reg2)) * 2"
  from assms(1) obtain reg p yb r1 r2 rega regb pb y where
    loop: "region_loop A ov n1 n2 (new\<lparr>rsize := ?n, rects := []\<rparr>) 0 y (rects reg1) (rects reg2) = Some (reg, p, yb, r1, r2)"
    and tail: "(if r1 \<noteq> [] then (case n1 of None \<Rightarrow> Some reg | Some f \<Rightarrow> region_tail A f reg yb r1)
                    else (case n2 of None \<Rightarrow> Some reg | Some f \<Rightarrow> region_tail A f reg yb r2)) = Some rega"
    and co: "coalesce rega p (length (rects reg)) = (regb, pb)"
    and reg': "reg' = regb \<or> reg' = regb\<lparr>rsize := max (length (rects regb)) RGN_DEFAULT_RECTS\<rparr>"
    by (auto simp: region_op_def Let_def split: if_splits option.splits prod.splits)
  have "2 \<le> ?n" using assms(2) by (cases "rects reg1") auto
  then have "cap reg" using region_loop_cap[OF loop refl refl refl] by (simp add: cap_def)
  then have "cap rega" using tail n1_eq n2_eq region_tail_cap by (auto split: if_splits)
  then have "cap regb" by (rule coalesce_cap[OF co])
  then show ?thesis using reg' by (auto simp: cap_def RGN_DEFAULT_RECTS_def)
qed

end

interpretation intersect_op: capped_operation "(\<and>)" intersect_overlapping None None
  by unfold_locales (rule intersect_overlapping_cap)

interpretation subtract_op:
  capped_operation "\<lambda>a b. a \<and> \<not> b" subtract_overlapping "Some subtract_non_overlapping" None
  by unfold_locales (rule subtract_overlapping_cap)

interpretation union_op:
  capped_operation "(\<or>)" union_overlapping "Some union_non_overlapping" "Some union_non_overlapping"
  by unfold_locales (rule union_overlapping_cap)

section \<open>Extents\<close>

text \<open>\<open>e\<close> is the smallest rectangle around \<open>S\<close>.\<close>

definition bounds :: "(int \<times> int) set \<Rightarrow> rectangle \<Rightarrow> bool" where
  "bounds S e = (S \<subseteq> rect_set e \<and> (\<exists>y. (rleft e, y) \<in> S) \<and> (\<exists>y. (rright e - 1, y) \<in> S) \<and>
     (\<exists>x. (x, rtop e) \<in> S) \<and> (\<exists>x. (x, rbottom e - 1) \<in> S))"

lemma bounds_unique: "bounds S (e :: rectangle) \<Longrightarrow> bounds S e' \<Longrightarrow> e = e'"
proof -
  assume a: "bounds S e" "bounds S e'"
  have "rleft e = rleft e'" "rtop e = rtop e'" "rright e = rright e'" "rbottom e = rbottom e'"
    using a by (force simp: bounds_def rect_set_def)+
  then show "e = e'" by simp
qed

lemma widen_props:
  "rtop (widen e rs) = rtop e \<and> rbottom (widen e rs) = rbottom e \<and>
   rleft (widen e rs) \<le> rleft e \<and> rright e \<le> rright (widen e rs) \<and>
   (\<forall>q \<in> set rs. rleft (widen e rs) \<le> rleft q \<and> rright q \<le> rright (widen e rs)) \<and>
   (rleft (widen e rs) = rleft e \<or> (\<exists>q \<in> set rs. rleft (widen e rs) = rleft q)) \<and>
   (rright (widen e rs) = rright e \<or> (\<exists>q \<in> set rs. rright (widen e rs) = rright q))"
proof (induction rs arbitrary: e)
  case (Cons r rs)
  define e' where "e' = e\<lparr>rleft := min (rleft e) (rleft r), rright := max (rright e) (rright r)\<rparr>"
  have w: "widen e (r # rs) = widen e' rs" by (auto simp: e'_def Let_def min_def max_def)
  have f: "rtop e' = rtop e" "rbottom e' = rbottom e" "rleft e' = min (rleft e) (rleft r)"
    "rright e' = max (rright e) (rright r)" by (simp_all add: e'_def)
  show ?case using Cons.IH[of e'] f unfolding w by (auto simp: min_def max_def split: if_splits)
qed simp

lemma wf_rects_order:
  assumes "wf_rects rs" "q \<in> set rs"
  shows "rtop (hd rs) \<le> rtop q \<and> rbottom q \<le> rbottom (last rs)"
proof -
  have "rtop (hd rs) \<le> rtop q"
    using assms by (cases rs) (auto simp: rect_before_def is_rect_empty_def)
  moreover have "rbottom q \<le> rbottom (last rs)"
    using assms by (cases rs rule: rev_cases) (auto simp: wf_rects_append rect_before_def is_rect_empty_def)
  ultimately show ?thesis by simp
qed

lemma rects_extents_bounds:
  assumes "wf_rects rs" "rs \<noteq> []"
  shows "bounds (rects_set rs) (rects_extents rs)"
proof -
  let ?e = "mk_rect (rleft (hd rs)) (rtop (hd rs)) (rright (last rs)) (rbottom (last rs))"
  have w: "rtop (widen ?e rs) = rtop (hd rs)" "rbottom (widen ?e rs) = rbottom (last rs)"
    "\<forall>q \<in> set rs. rleft (widen ?e rs) \<le> rleft q \<and> rright q \<le> rright (widen ?e rs)"
    "\<exists>q \<in> set rs. rleft (widen ?e rs) = rleft q" "\<exists>q \<in> set rs. rright (widen ?e rs) = rright q"
    using widen_props[of ?e rs] assms(2) by auto
  have e: "rects_extents rs = widen ?e rs" using assms(2) by (simp add: rects_extents_def)
  have corner: "(rleft q, rtop q) \<in> rects_set rs" "(rright q - 1, rbottom q - 1) \<in> rects_set rs" if "q \<in> set rs" for q
    using that assms(1) by (force simp: rects_set_def rect_set_def wf_rects_def is_rect_empty_def)+
  have "rect_set q \<subseteq> rect_set (widen ?e rs)" if "q \<in> set rs" for q
    using w(1-3) that wf_rects_order[OF assms(1) that] by (auto simp: rect_set_def)
  then have "rects_set rs \<subseteq> rect_set (widen ?e rs)" by (auto simp: rects_set_def)
  moreover have "(rleft (hd rs), rtop (hd rs)) \<in> rects_set rs" "(rright (last rs) - 1, rbottom (last rs) - 1) \<in> rects_set rs"
    using corner assms(2) by auto
  moreover obtain q1 q2 where "q1 \<in> set rs" "q2 \<in> set rs" "rleft (widen ?e rs) = rleft q1" "rright (widen ?e rs) = rright q2"
    using w(4,5) by blast
  ultimately show ?thesis
    using corner(1)[of q1] corner(2)[of q2] w(1,2) unfolding bounds_def e by auto
qed

section \<open>Regions\<close>

definition region_ok :: "region \<Rightarrow> bool" where
  "region_ok reg = (wf_rects (rects reg) \<and> extents reg = rects_extents (rects reg) \<and> cap reg)"

definition region_set :: "region \<Rightarrow> (int \<times> int) set" where
  "region_set reg = rects_set (rects reg)"

lemma region_set_extents: "region_ok reg \<Longrightarrow> rects reg \<noteq> [] \<Longrightarrow> bounds (region_set reg) (extents reg)"
  by (simp add: region_ok_def region_set_def rects_extents_bounds)

lemma region_set_empty: "region_ok reg \<Longrightarrow> region_set reg = {} \<longleftrightarrow> rects reg = []"
  using region_set_extents by (auto simp: bounds_def region_set_def)

lemma region_ok_tops: "region_ok reg \<Longrightarrow> \<forall>r \<in> set (rects reg). rtop (extents reg) \<le> rtop r"
proof
  fix r assume ok: "region_ok reg" and r: "r \<in> set (rects reg)"
  let ?e = "mk_rect (rleft (hd (rects reg))) (rtop (hd (rects reg))) (rright (last (rects reg))) (rbottom (last (rects reg)))"
  have "rtop (extents reg) = rtop (hd (rects reg))"
    using ok r widen_props[of ?e "rects reg"] by (auto simp: region_ok_def rects_extents_def)
  then show "rtop (extents reg) \<le> rtop r"
    using ok r wf_rects_order by (auto simp: region_ok_def)
qed

lemma extents_disjoint:
  "region_ok a \<Longrightarrow> region_ok b \<Longrightarrow> rects a = [] \<or> rects b = [] \<or> \<not> EXTENTCHECK (extents a) (extents b) \<Longrightarrow>
     region_set a \<inter> region_set b = {}"
proof -
  assume ok: "region_ok a" "region_ok b" and c: "rects a = [] \<or> rects b = [] \<or> \<not> EXTENTCHECK (extents a) (extents b)"
  show ?thesis
  proof (cases "rects a = [] \<or> rects b = []")
    case True
    then show ?thesis by (auto simp: region_set_def)
  next
    case False
    then have "region_set a \<subseteq> rect_set (extents a)" "region_set b \<subseteq> rect_set (extents b)"
      using region_set_extents ok by (auto simp: bounds_def)
    then show ?thesis using c False by (force simp: EXTENTCHECK_def rect_set_def)
  qed
qed

lemma set_region_extents_ok:
  "wf_rects (rects reg) \<Longrightarrow> cap reg \<Longrightarrow> region_ok (set_region_extents reg) \<and> region_set (set_region_extents reg) = rects_set (rects reg)"
  by (simp add: region_ok_def set_region_extents_def region_set_def cap_def)

lemma copy_region_correct:
  assumes "region_ok src" "cap dst" "same \<longrightarrow> dst = src" "copy_region A same dst src = Some r"
  shows "region_ok r \<and> region_set r = region_set src"
  using assms by (auto simp: copy_region_def region_ok_def region_set_def cap_def split: if_splits)

lemma copy_region_total: "\<forall>n. A n \<Longrightarrow> copy_region A same dst src \<noteq> None"
  by (simp add: copy_region_def)

lemma intersect_region_correct:
  assumes "region_ok src1" "region_ok src2" "cap dst" "intersect_region A dst src1 src2 = Some r"
  shows "region_ok r \<and> region_set r = region_set src1 \<inter> region_set src2"
proof (cases "rects src1 = [] \<or> rects src2 = [] \<or> \<not> EXTENTCHECK (extents src1) (extents src2)")
  case True
  then have "r = dst\<lparr>rects := [], extents := empty_rect\<rparr>" using assms(4) by (simp add: intersect_region_def)
  then show ?thesis
    using extents_disjoint[OF assms(1,2) True] assms(3)
    by (auto simp: region_ok_def region_set_def rects_extents_def cap_def)
next
  case False
  then obtain reg where op: "region_op A dst src1 src2 intersect_overlapping None None = Some reg"
    and r: "r = set_region_extents reg" using assms(4) by (auto simp: intersect_region_def)
  have wf: "wf_rects (rects src1)" "wf_rects (rects src2)" using assms(1,2) by (auto simp: region_ok_def)
  from intersect_op.region_op_correct[OF wf region_ok_tops[OF assms(1)] region_ok_tops[OF assms(2)] op]
    intersect_op.region_op_cap[OF op] set_region_extents_ok[of reg] False
  show ?thesis by (auto simp: r region_set_def)
qed

lemma subtract_region_correct:
  assumes "region_ok src1" "region_ok src2" "cap dst" "d1 \<longrightarrow> dst = src1" "subtract_region A d1 dst src1 src2 = Some r"
  shows "region_ok r \<and> region_set r = region_set src1 - region_set src2"
proof (cases "rects src1 = [] \<or> rects src2 = [] \<or> \<not> EXTENTCHECK (extents src1) (extents src2)")
  case True
  then have "copy_region A d1 dst src1 = Some r" using assms(5) by (simp add: subtract_region_def)
  from copy_region_correct[OF assms(1,3,4) this] extents_disjoint[OF assms(1,2) True]
  show ?thesis by auto
next
  case False
  then obtain reg where
    op: "region_op A dst src1 src2 subtract_overlapping (Some subtract_non_overlapping) None = Some reg"
    and r: "r = set_region_extents reg" using assms(5) by (auto simp: subtract_region_def)
  have wf: "wf_rects (rects src1)" "wf_rects (rects src2)" using assms(1,2) by (auto simp: region_ok_def)
  from subtract_op.region_op_correct[OF wf region_ok_tops[OF assms(1)] region_ok_tops[OF assms(2)] op]
    subtract_op.region_op_cap[OF op] set_region_extents_ok[of reg] False
  show ?thesis by (auto simp: r region_set_def)
qed

lemma covers_subset:
  assumes "region_ok a" "region_ok b" "rects b \<noteq> []" "covers a b"
  shows "region_set b \<subseteq> region_set a"
proof -
  obtain q where q: "rects a = [q]" using assms(4) by (auto simp: covers_def length_Suc_conv)
  then have "rect_set (extents a) = region_set a"
    using assms(1) by (auto simp: region_ok_def rects_extents_def region_set_def rect_set_def)
  moreover have "region_set b \<subseteq> rect_set (extents b)"
    using region_set_extents[OF assms(2,3)] by (simp add: bounds_def)
  moreover have "rect_set (extents b) \<subseteq> rect_set (extents a)"
    using assms(4) by (auto simp: covers_def rect_set_def)
  ultimately show ?thesis by blast
qed

lemma bounds_Un:
  assumes "bounds S a" "bounds T b"
  shows "bounds (S \<union> T) (mk_rect (min (rleft a) (rleft b)) (min (rtop a) (rtop b))
     (max (rright a) (rright b)) (max (rbottom a) (rbottom b)))"
  using assms unfolding bounds_def
  by (auto simp: rect_set_def min_def max_def)

lemma union_region_correct:
  assumes ok: "region_ok src1" "region_ok src2" "cap dst"
    and al: "d1 \<longrightarrow> dst = src1" "d2 \<longrightarrow> dst = src2" "s12 \<longrightarrow> src1 = src2"
    and u: "union_region A d1 d2 s12 dst src1 src2 = Some r"
  shows "region_ok r \<and> region_set r = region_set src1 \<union> region_set src2"
proof -
  consider (copy1) "copy_region A d1 dst src1 = Some r" "region_set src2 \<subseteq> region_set src1"
    | (copy2) "copy_region A d2 dst src2 = Some r" "region_set src1 \<subseteq> region_set src2"
    | (op) reg where "rects src1 \<noteq> []" "rects src2 \<noteq> []"
      "region_op A dst src1 src2 union_overlapping (Some union_non_overlapping) (Some union_non_overlapping) = Some reg"
      "r = reg\<lparr>extents := mk_rect (min (rleft (extents src1)) (rleft (extents src2)))
                       (min (rtop (extents src1)) (rtop (extents src2)))
                       (max (rright (extents src1)) (rright (extents src2)))
                       (max (rbottom (extents src1)) (rbottom (extents src2)))\<rparr>"
    using u al(3) covers_subset[OF ok(1,2)] covers_subset[OF ok(2,1)]
    by (auto simp: union_region_def region_set_def split: if_splits)
  then show ?thesis
  proof cases
    case copy1
    with copy_region_correct[OF ok(1,3) al(1)] show ?thesis by blast
  next
    case copy2
    with copy_region_correct[OF ok(2,3) al(2)] show ?thesis by blast
  next
    case op
    have wf: "wf_rects (rects src1)" "wf_rects (rects src2)" using ok by (auto simp: region_ok_def)
    have c: "wf_rects (rects reg)" "rects_set (rects reg) = region_set src1 \<union> region_set src2" "cap reg"
      using union_op.region_op_correct[OF wf region_ok_tops[OF ok(1)] region_ok_tops[OF ok(2)] op(3)]
        union_op.region_op_cap[OF op(3,1)] by (auto simp: region_set_def)
    have ne: "rects reg \<noteq> []" using c(2) region_set_empty[OF ok(1)] op(1) by auto
    have "extents r = rects_extents (rects reg)"
      using bounds_Un[OF region_set_extents[OF ok(1) op(1)] region_set_extents[OF ok(2) op(2)]]
        rects_extents_bounds[OF c(1) ne] c(2) op(4) bounds_unique by auto
    then show ?thesis using c op(4) by (simp add: region_ok_def region_set_def cap_def)
  qed
qed

lemma xor_region_correct:
  assumes ok: "region_ok src1" "region_ok src2" "cap dst" "d2 \<longrightarrow> dst = src2" "xor_region A d2 dst src1 src2 = Some r"
  shows "region_ok r \<and> region_set r = (region_set src1 - region_set src2) \<union> (region_set src2 - region_set src1)"
proof -
  from assms(5) obtain tmp tmp' dst' where t: "create_empty_region A = Some tmp"
    "subtract_region A False tmp src1 src2 = Some tmp'" "subtract_region A d2 dst src2 src1 = Some dst'"
    "union_region A True False False dst' dst' tmp' = Some r"
    by (auto simp: xor_region_def split: option.splits)
  have "cap tmp" using t(1) by (auto simp: create_empty_region_def cap_def RGN_DEFAULT_RECTS_def split: if_splits)
  then have tmp': "region_ok tmp'" "region_set tmp' = region_set src1 - region_set src2"
    using subtract_region_correct[OF ok(1,2) _ _ t(2)] by auto
  have dst': "region_ok dst'" "region_set dst' = region_set src2 - region_set src1"
    using subtract_region_correct[OF ok(2,1,3,4) t(3)] by auto
  have "cap dst'" using dst'(1) by (simp add: region_ok_def)
  from union_region_correct[OF dst'(1) tmp'(1) this _ _ _ t(4)] show ?thesis
    unfolding tmp'(2) dst'(2) by auto
qed

lemma region_ops_total:
  assumes A: "\<forall>n. A n"
  shows "intersect_region A dst src1 src2 \<noteq> None" "subtract_region A d1 dst src1 src2 \<noteq> None"
    "union_region A d1 d2 s12 dst src1 src2 \<noteq> None" "xor_region A d2 dst src1 src2 \<noteq> None"
proof -
  show 1: "intersect_region A dst src1 src2 \<noteq> None" for dst src1 src2
    using intersect_op.region_op_total[OF A] by (simp add: intersect_region_def del: not_None_eq)
  show 2: "subtract_region A d1 dst src1 src2 \<noteq> None" for d1 dst src1 src2
    using subtract_op.region_op_total[OF A] copy_region_total[OF A]
    by (simp add: subtract_region_def del: not_None_eq)
  show 3: "union_region A d1 d2 s12 dst src1 src2 \<noteq> None" for d1 d2 s12 dst src1 src2
    using union_op.region_op_total[OF A] copy_region_total[OF A]
    by (simp add: union_region_def del: not_None_eq)
  show "xor_region A d2 dst src1 src2 \<noteq> None"
    using A 2 3 by (simp add: xor_region_def create_empty_region_def del: not_None_eq split: option.splits)
qed

lemma point_in_rects_correct: "wf_rects rs \<Longrightarrow> point_in_rects rs x y = ((x, y) \<in> rects_set rs)"
proof (induction rs)
  case (Cons p ps)
  have later: "(x, y) \<notin> rects_set ps" if "rtop p > y \<or> (rbottom p > y \<and> rleft p > x)"
    using Cons.prems that by (fastforce simp: rects_set_def rect_set_def rect_before_def is_rect_empty_def)
  show ?case using Cons later by (auto simp: rect_set_def)
qed simp

lemma rect_in_rects_correct:
  "wf_rects rs \<Longrightarrow> \<not> is_rect_empty r \<Longrightarrow> rect_in_rects rs r = (rects_set rs \<inter> rect_set r \<noteq> {})"
proof (induction rs)
  case (Cons p ps)
  have meet: "rect_set p \<inter> rect_set r \<noteq> {} \<longleftrightarrow>
      rtop p < rbottom r \<and> rtop r < rbottom p \<and> rleft p < rright r \<and> rleft r < rright p"
  proof
    assume *: "rtop p < rbottom r \<and> rtop r < rbottom p \<and> rleft p < rright r \<and> rleft r < rright p"
    then have "(max (rleft p) (rleft r), max (rtop p) (rtop r)) \<in> rect_set p \<inter> rect_set r"
      using Cons.prems by (auto simp: rect_set_def is_rect_empty_def)
    then show "rect_set p \<inter> rect_set r \<noteq> {}" by blast
  qed (auto simp: rect_set_def)
  have later: "rects_set ps \<inter> rect_set r = {}" if "rtop p \<ge> rbottom r"
    using Cons.prems that by (fastforce simp: rects_set_def rect_set_def rect_before_def is_rect_empty_def)
  show ?case using Cons meet later by (auto simp: Int_Un_distrib2)
qed simp

section \<open>Properties\<close>

definition square :: "int \<Rightarrow> int \<Rightarrow> region" where
  "square x y = \<lparr>rsize = 2, rects = [mk_rect x y (x + 10) (y + 10)], extents = mk_rect x y (x + 10) (y + 10)\<rparr>"

lemma square_ok [simp]: "region_ok (square x y)" "cap (square x y)"
  by (simp_all add: square_def region_ok_def cap_def rects_extents_def is_rect_empty_def Let_def)

lemma alloc_spec:
  assumes "(\<forall>n. A n) \<Longrightarrow> x \<noteq> None" "\<And>r. x = Some r \<Longrightarrow> P r"
  shows "case x of None \<Rightarrow> \<exists>n :: nat. \<not> A n | Some r \<Rightarrow> P r"
proof (cases x)
  case None
  then have "\<not> (\<forall>n. A n)" using assms(1) by blast
  with None show ?thesis by simp
qed (use assms(2) in simp)

text \<open>
  \<^verbatim>\<open>intersect_region\<close> returns NULL only when an allocation fails; otherwise the result satisfies
  the region invariant and stands for the intersection of the two sets of points.
\<close>

theorem intersect_region_spec:
  assumes "region_ok src1" "region_ok src2" "cap dst"
  shows "case intersect_region A dst src1 src2 of
           None \<Rightarrow> \<exists>n. \<not> A n
         | Some r \<Rightarrow> region_ok r \<and> region_set r = region_set src1 \<inter> region_set src2"
  by (rule alloc_spec[OF region_ops_total(1) intersect_region_correct[OF assms]])

theorem intersect_region_spec_witness:
  "case intersect_region (\<lambda>_. True) (square 0 0) (square 0 0) (square 5 5) of
     None \<Rightarrow> False
   | Some r \<Rightarrow> region_set r = region_set (square 0 0) \<inter> region_set (square 5 5)"
  using intersect_region_spec[of "square 0 0" "square 5 5" "square 0 0" "\<lambda>_. True"]
  by (simp split: option.splits)

text \<open>
  C10: \<^verbatim>\<open>subtract_region\<close> computes the difference of the two sets of points, keeps the region
  invariant, and fails only when an allocation fails; the destination may be the first source.
\<close>

theorem subtract_region_spec:
  assumes "region_ok src1" "region_ok src2" "cap dst" "d1 \<longrightarrow> dst = src1"
  shows "case subtract_region A d1 dst src1 src2 of
           None \<Rightarrow> \<exists>n. \<not> A n
         | Some r \<Rightarrow> region_ok r \<and> region_set r = region_set src1 - region_set src2"
  by (rule alloc_spec[OF region_ops_total(2) subtract_region_correct[OF assms]])

theorem subtract_region_spec_witness:
  "case subtract_region (\<lambda>_. True) True (square 0 0) (square 0 0) (square 5 5) of
     None \<Rightarrow> False
   | Some r \<Rightarrow> region_ok r \<and> region_set r = region_set (square 0 0) - region_set (square 5 5)"
  using subtract_region_spec[of "square 0 0" "square 5 5" "square 0 0" True "\<lambda>_. True"]
  by (simp split: option.splits)

text \<open>
  C9: \<^verbatim>\<open>union_region\<close> computes the union of the two sets of points with exact extents, whatever the
  destination and the sources share, and fails only when an allocation fails.
\<close>

theorem union_region_spec:
  assumes "region_ok src1" "region_ok src2" "cap dst" "d1 \<longrightarrow> dst = src1" "d2 \<longrightarrow> dst = src2" "s12 \<longrightarrow> src1 = src2"
  shows "case union_region A d1 d2 s12 dst src1 src2 of
           None \<Rightarrow> \<exists>n. \<not> A n
         | Some r \<Rightarrow> region_ok r \<and> region_set r = region_set src1 \<union> region_set src2"
  by (rule alloc_spec[OF region_ops_total(3) union_region_correct[OF assms]])

theorem union_region_spec_witness:
  "case union_region (\<lambda>_. True) True False False (square 0 0) (square 0 0) (square 5 5) of
     None \<Rightarrow> False
   | Some r \<Rightarrow> region_ok r \<and> region_set r = region_set (square 0 0) \<union> region_set (square 5 5)"
  using union_region_spec[of "square 0 0" "square 5 5" "square 0 0" True False False "\<lambda>_. True"]
  by (simp split: option.splits)

text \<open>
  \<^verbatim>\<open>xor_region\<close> computes the symmetric difference, also when the destination is one of the
  sources, keeps the region invariant, and fails only when an allocation fails.
\<close>

theorem xor_region_spec:
  assumes "region_ok src1" "region_ok src2" "cap dst" "d2 \<longrightarrow> dst = src2"
  shows "case xor_region A d2 dst src1 src2 of
           None \<Rightarrow> \<exists>n. \<not> A n
         | Some r \<Rightarrow> region_ok r \<and>
             region_set r = (region_set src1 - region_set src2) \<union> (region_set src2 - region_set src1)"
  by (rule alloc_spec[OF region_ops_total(4) xor_region_correct[OF assms]])

theorem xor_region_spec_witness:
  "case xor_region (\<lambda>_. True) True (square 5 5) (square 0 0) (square 5 5) of
     None \<Rightarrow> False
   | Some r \<Rightarrow> region_ok r \<and> region_set r =
       (region_set (square 0 0) - region_set (square 5 5)) \<union> (region_set (square 5 5) - region_set (square 0 0))"
  using xor_region_spec[of "square 0 0" "square 5 5" "square 5 5" True "\<lambda>_. True"]
  by (simp split: option.splits)

text \<open>
  C11: the early exits of \<^verbatim>\<open>point_in_region\<close> and \<^verbatim>\<open>rect_in_region\<close> are sound: on a well-formed
  region they decide membership of a point and a non-empty intersection with a rectangle.
\<close>

theorem region_hit_tests:
  assumes "region_ok reg" "\<not> is_rect_empty r"
  shows "point_in_region reg x y = ((x, y) \<in> region_set reg) \<and>
    rect_in_region reg r = (region_set reg \<inter> rect_set r \<noteq> {})"
  using assms by (simp add: point_in_region_def rect_in_region_def region_set_def region_ok_def
    point_in_rects_correct rect_in_rects_correct)

theorem region_hit_tests_witness:
  "point_in_region (square 0 0) 3 4 = ((3, 4) \<in> region_set (square 0 0)) \<and>
   rect_in_region (square 0 0) (mk_rect 9 9 12 12) = (region_set (square 0 0) \<inter> rect_set (mk_rect 9 9 12 12) \<noteq> {})"
  using region_hit_tests[of "square 0 0" "mk_rect 9 9 12 12" 3 4] by (simp add: is_rect_empty_def)


text \<open>
  the data \<^verbatim>\<open>get_region_data\<close> sends to a client recreate the same region: same rectangles and
  extents, also for the empty region.
\<close>

theorem region_data_roundtrip:
  assumes "\<forall>n. A n" "region_ok reg" "RECT_SIZE * max 1 (length (rects reg)) \<le> max_size"
  shows "\<exists>data reg'. get_region_data A reg max_size = (RECT_SIZE * length data, Inr data) \<and>
    create_region_from_req_data A data = Inr reg' \<and> region_ok reg' \<and>
    rects reg' = rects reg \<and> extents reg' = extents reg"
proof -
  let ?data = "if rects reg = [] then [empty_rect] else rects reg"
  have len: "length ?data = max 1 (length (rects reg))" by (cases "rects reg") auto
  have single: "\<not> (length (rects reg) = 1 \<and> hd (rects reg) = empty_rect)"
    using assms(2) by (cases "rects reg") (auto simp: region_ok_def is_rect_empty_def empty_rect_def)
  let ?reg = "\<lparr>rsize = max (length (rects reg)) RGN_DEFAULT_RECTS, rects = rects reg, extents = extents reg\<rparr>"
  have "create_region_from_req_data A ?data = Inr ?reg"
    using assms(1,2) single
    by (cases "rects reg = []")
      (simp_all add: create_region_from_req_data_def validate_rectangles_iff region_ok_def Let_def set_region_extents_def)
  moreover have "region_ok ?reg" using assms(2) by (simp add: region_ok_def cap_def RGN_DEFAULT_RECTS_def)
  moreover have "get_region_data A reg max_size = (RECT_SIZE * length ?data, Inr ?data)"
    using assms(1,3) len by (auto simp: get_region_data_def Let_def mult.commute)
  ultimately show ?thesis by (intro exI[of _ ?data] exI[of _ ?reg]) simp
qed

theorem region_data_roundtrip_witness:
  "\<exists>data reg'. get_region_data (\<lambda>_. True) (square 0 0) 16 = (RECT_SIZE * length data, Inr data) \<and>
    create_region_from_req_data (\<lambda>_. True) data = Inr reg' \<and> rects reg' = rects (square 0 0)"
  using region_data_roundtrip[of "\<lambda>_. True" "square 0 0" 16] square_ok(1)[of 0 0]
  by (auto simp: square_def RECT_SIZE_def)

end
