(* ===== verification/Region_Transform.thy ===== *)
theory Region_Transform
  imports Region_Correct
begin

text \<open>
  The rectangle helpers of \<^verbatim>\<open>server/user.h\<close> that compute with coordinates, and the functions of
  \<^verbatim>\<open>server/region.c\<close> that apply them to a region: offset, mirror, scale.  Offsets and mirrors add
  and subtract ints, exact as long as the C arithmetic does not overflow; the DPI scaling is
  unsigned in the code and is modelled at its width.
\<close>

section \<open>Rectangles\<close>

text \<open>The pair of 16-bit fields of a DPI, and the coordinates as 32-bit values.\<close>

record ratio =
  num :: u16
  den :: u16

definition point_in_rect :: "rectangle \<Rightarrow> int \<Rightarrow> int \<Rightarrow> bool" where
  "point_in_rect r x y = (x \<ge> rleft r \<and> x < rright r \<and> y \<ge> rtop r \<and> y < rbottom r)"

text \<open>
  \<^verbatim>\<open>num\<close> and \<^verbatim>\<open>den\<close> are unsigned, so the whole computation is; the quotient is converted back to
  int.  A zero divisor traps, here \<open>None\<close>.
\<close>

definition scale_dpi :: "int \<Rightarrow> ratio \<Rightarrow> ratio \<Rightarrow> int option" where
  "scale_dpi val dpi_from dpi_to =
     (let n = (ucast (num dpi_to) :: u32) * ucast (den dpi_from);
          d = (ucast (num dpi_from) :: u32) * ucast (den dpi_to)
      in if d = 0 then None
         else if val \<ge> 0 then Some (sint ((word_of_int val * n + d div 2) div d))
         else Some (sint ((word_of_int val * n - d div 2) div d)))"

definition scale_dpi_rect :: "rectangle \<Rightarrow> ratio \<Rightarrow> ratio \<Rightarrow> rectangle option" where
  "scale_dpi_rect r dpi_from dpi_to =
     (case (scale_dpi (rleft r) dpi_from dpi_to, scale_dpi (rtop r) dpi_from dpi_to,
            scale_dpi (rright r) dpi_from dpi_to, scale_dpi (rbottom r) dpi_from dpi_to) of
        (Some l, Some t, Some ri, Some b) \<Rightarrow> Some (mk_rect l t ri b)
      | _ \<Rightarrow> None)"

definition offset_rect :: "rectangle \<Rightarrow> int \<Rightarrow> int \<Rightarrow> rectangle" where
  "offset_rect r x y = mk_rect (rleft r + x) (rtop r + y) (rright r + x) (rbottom r + y)"

definition mirror_rect :: "rectangle \<Rightarrow> rectangle \<Rightarrow> rectangle" where
  "mirror_rect client_rect r =
     (let width = rright client_rect - rleft client_rect
      in r\<lparr>rleft := width - rright r, rright := width - rleft r\<rparr>)"

definition intersect_rect :: "rectangle \<Rightarrow> rectangle \<Rightarrow> rectangle \<times> bool" where
  "intersect_rect a b =
     (let dst = mk_rect (max (rleft a) (rleft b)) (max (rtop a) (rtop b))
                        (min (rright a) (rright b)) (min (rbottom a) (rbottom b))
      in (dst, \<not> is_rect_empty dst))"

definition INT_MAX :: int where "INT_MAX = 2147483647"

definition INT_MIN :: int where "INT_MIN = - 2147483648"

definition reset_bounds :: rectangle where
  "reset_bounds = mk_rect INT_MAX INT_MAX INT_MIN INT_MIN"

definition union_rect :: "rectangle \<Rightarrow> rectangle \<Rightarrow> rectangle" where
  "union_rect a b =
     (if is_rect_empty a then (if is_rect_empty b then reset_bounds else b)
      else if is_rect_empty b then a
      else mk_rect (min (rleft a) (rleft b)) (min (rtop a) (rtop b))
                   (max (rright a) (rright b)) (max (rbottom a) (rbottom b)))"

section \<open>Regions\<close>

definition offset_region :: "region \<Rightarrow> int \<Rightarrow> int \<Rightarrow> region" where
  "offset_region reg x y =
     (if rects reg = [] then reg
      else reg\<lparr>rects := map (\<lambda>r. offset_rect r x y) (rects reg), extents := offset_rect (extents reg) x y\<rparr>)"

text \<open>The last index of the band that starts at \<open>e\<close>, then the exchange of its ends.\<close>

function band_end :: "rectangle list \<Rightarrow> nat \<Rightarrow> nat" where
  "band_end rs e =
     (if e + 1 < length rs \<and> rtop (rs ! (e + 1)) = rtop (rs ! e) then band_end rs (e + 1) else e)"
  by pat_completeness auto
termination by (relation "measure (\<lambda>(rs, e). length rs - e)") auto

declare band_end.simps [simp del]

function mirror_pairs :: "rectangle \<Rightarrow> rectangle list \<Rightarrow> nat \<Rightarrow> nat \<Rightarrow> rectangle list" where
  "mirror_pairs c rs i j =
     (if i < j
      then (let rect = rs ! j;
                rs1 = rs[i := rs ! j];
                rs2 = rs1[j := rect];
                rs3 = rs2[j := mirror_rect c (rs2 ! j)];
                rs4 = rs3[i := mirror_rect c (rs3 ! i)]
            in mirror_pairs c rs4 (i + 1) (j - 1))
      else if i = j then rs[i := mirror_rect c (rs ! i)] else rs)"
  by pat_completeness auto
termination by (relation "measure (\<lambda>(c, rs, i, j). j - i)") auto

declare mirror_pairs.simps [simp del]

lemma band_end_ge: "e \<le> band_end rs e"
  by (induction rs e rule: band_end.induct) (subst band_end.simps, auto)

function mirror_bands :: "rectangle \<Rightarrow> rectangle list \<Rightarrow> nat \<Rightarrow> nat \<Rightarrow> rectangle list" where
  "mirror_bands c rs n start =
     (if start < n
      then (let e = band_end rs start in mirror_bands c (mirror_pairs c rs start e) n (e + 1))
      else rs)"
  by pat_completeness auto
termination
  by (relation "measure (\<lambda>(c, rs, n, start). n - start)")
    (auto simp: band_end_ge diff_less_mono2 le_imp_less_Suc)

declare mirror_bands.simps [simp del]

definition mirror_region :: "rectangle \<Rightarrow> region \<Rightarrow> region" where
  "mirror_region c reg =
     reg\<lparr>rects := mirror_bands c (rects reg) (length (rects reg)) 0, extents := mirror_rect c (extents reg)\<rparr>"

fun scale_rects :: "rectangle list \<Rightarrow> ratio \<Rightarrow> ratio \<Rightarrow> rectangle list option" where
  "scale_rects [] dpi_from dpi_to = Some []"
| "scale_rects (r # rs) dpi_from dpi_to =
     (case scale_dpi_rect r dpi_from dpi_to of
        None \<Rightarrow> None
      | Some r' \<Rightarrow> map_option ((#) r') (scale_rects rs dpi_from dpi_to))"

definition scale_region :: "region \<Rightarrow> ratio \<Rightarrow> ratio \<Rightarrow> region option" where
  "scale_region reg dpi_from dpi_to =
     (if rects reg = [] then Some reg
      else case (scale_rects (rects reg) dpi_from dpi_to, scale_dpi_rect (extents reg) dpi_from dpi_to) of
             (Some rs, Some e) \<Rightarrow> Some (reg\<lparr>rects := rs, extents := e\<rparr>)
           | _ \<Rightarrow> None)"

section \<open>Offsets\<close>

lemma in_shift: "(a, b) \<in> (\<lambda>(u, v). (u + x, v + y)) ` S \<longleftrightarrow> (a - x, b - y) \<in> S" for x y :: int
  by force

lemma offset_rect_set: "rect_set (offset_rect r x y) = (\<lambda>(u, v). (u + x, v + y)) ` rect_set r"
  by (auto simp: in_shift) (auto simp: rect_set_def offset_rect_def)

lemma offset_rects_set:
  "rects_set (map (\<lambda>r. offset_rect r x y) rs) = (\<lambda>(u, v). (u + x, v + y)) ` rects_set rs"
  by (induction rs) (simp_all add: offset_rect_set image_Un)

lemma offset_rects_wf: "wf_rects rs \<Longrightarrow> wf_rects (map (\<lambda>r. offset_rect r x y) rs)"
  by (induction rs) (auto simp: offset_rect_def rect_before_def is_rect_empty_def)

lemma widen_offset: "offset_rect (widen e rs) x y = widen (offset_rect e x y) (map (\<lambda>r. offset_rect r x y) rs)"
proof (induction rs arbitrary: e)
  case (Cons r rs)
  have "widen (offset_rect e x y) (offset_rect r x y # rs') =
      widen (offset_rect (let e1 = (if rleft r < rleft e then e\<lparr>rleft := rleft r\<rparr> else e)
         in if rright r > rright e1 then e1\<lparr>rright := rright r\<rparr> else e1) x y) rs'" for rs'
    by (simp add: offset_rect_def mk_rect_def Let_def)
  then show ?case by (simp add: Cons.IH Let_def del: widen.simps(2)) (simp add: Let_def Cons.IH)
qed simp

lemma offset_region_ok:
  assumes "region_ok reg"
  shows "region_ok (offset_region reg x y) \<and>
    region_set (offset_region reg x y) = (\<lambda>(u, v). (u + x, v + y)) ` region_set reg"
proof (cases "rects reg = []")
  case True
  then show ?thesis using assms by (simp add: offset_region_def region_set_def)
next
  case False
  have "offset_rect (rects_extents (rects reg)) x y = rects_extents (map (\<lambda>r. offset_rect r x y) (rects reg))"
    using False unfolding rects_extents_def
    by (simp add: widen_offset hd_map last_map) (simp add: offset_rect_def)
  then show ?thesis
    using False assms offset_rects_wf
    by (simp add: offset_region_def region_ok_def region_set_def offset_rects_set cap_def)
qed

section \<open>Mirroring\<close>

lemma band_end_two:
  "rtop a = rtop b \<Longrightarrow> band_end [a, b] 0 = 1"
  "band_end [a] 0 = 0"
  by (simp_all add: band_end.simps)

lemma mirror_bands_one: "mirror_bands c [a] 1 0 = [mirror_rect c a]"
  by (simp add: mirror_bands.simps band_end_two mirror_pairs.simps)

lemma mirror_bands_two:
  "rtop a = rtop b \<Longrightarrow> mirror_bands c [a, b] 2 0 = [mirror_rect c b, mirror_rect c b]"
  by (simp add: mirror_bands.simps[of c _ 2] band_end_two mirror_pairs.simps Let_def)

section \<open>Scaling\<close>

lemma uint_ucast_u16: "uint (ucast (a :: u16) :: u32) = uint a"
  using uint_lt2p[of a] by (simp add: unsigned_ucast_eq take_bit_int_eq_self)

lemma uint_mult_u16: "uint ((ucast (a :: u16) :: u32) * ucast b) = uint a * uint (b :: u16)"
proof -
  have "uint a \<le> 65535" "uint b \<le> 65535" using uint_lt2p[of a] uint_lt2p[of b] by simp_all
  then have "uint a * uint b \<le> 65535 * 65535" by (intro mult_mono) simp_all
  then show ?thesis by (simp only: uint_word_ariths uint_ucast_u16) simp
qed

lemma sint_nonneg: "uint (w :: u32) < 2 ^ 31 \<Longrightarrow> sint w = uint w"
proof -
  assume "uint w < 2 ^ 31"
  moreover have "- (2 ^ 31) \<le> uint w" by (rule order_trans[OF _ uint_ge_0]) simp
  ultimately show "sint w = uint w" by (simp add: sint_uint signed_take_bit_int_eq_self)
qed

lemma scale_dpi_nonneg:
  assumes "0 \<le> val" and d: "d = uint (num f) * uint (den t)" and n: "n = uint (num t) * uint (den f)"
    and "0 < d" "val * n + d div 2 < 2 ^ 31"
  shows "scale_dpi val f t = Some ((val * n + d div 2) div d)"
proof -
  let ?n = "(ucast (num t) :: u32) * ucast (den f)" and ?d = "(ucast (num f) :: u32) * ucast (den t)"
  let ?w = "word_of_int val * ?n + ?d div 2"
  have un: "uint ?n = n" "uint ?d = d" by (simp_all only: uint_mult_u16 d n)
  have "0 \<le> n" by (simp add: n)
  then have v: "0 \<le> val * n + d div 2" "0 \<le> val * n" using assms(1,4) by auto
  have "?w = word_of_int (val * n + d div 2)"
    by (simp add: un[symmetric] word_div_def[of ?d 2])
  then have w: "uint ?w = val * n + d div 2"
    using v assms(5) by (simp only: uint_word_of_int) simp
  have q: "uint (?w div ?d) = (val * n + d div 2) div d" by (simp only: uint_div w un)
  have "(val * n + d div 2) div d \<le> val * n + d div 2" using zdiv_mono2[of _ 1 d] v(1) assms(4) by fastforce
  then have "sint (?w div ?d) = (val * n + d div 2) div d" using sint_nonneg q assms(5) by simp
  moreover have "?d \<noteq> 0" using un(2) assms(4) by auto
  ultimately show ?thesis using assms(1) by (simp add: scale_dpi_def)
qed


text \<open>With a divisor of at least 2 the quotient of a negative coordinate is never negative.\<close>

lemma scale_dpi_negative:
  assumes "val < 0" "2 \<le> uint (num f) * uint (den t)"
  shows "\<exists>v. scale_dpi val f t = Some v \<and> 0 \<le> v"
proof -
  let ?n = "(ucast (num t) :: u32) * ucast (den f)" and ?d = "(ucast (num f) :: u32) * ucast (den t)"
  let ?w = "word_of_int val * ?n - ?d div 2"
  have d: "uint ?d = uint (num f) * uint (den t)" by (rule uint_mult_u16)
  have "uint ?w div uint ?d \<le> uint ?w div 2"
    using assms(2) d by (intro zdiv_mono2) simp_all
  also have "\<dots> < 2 ^ 31" using uint_lt2p[of ?w] by simp
  finally have "sint (?w div ?d) = uint (?w div ?d)" by (intro sint_nonneg) (simp add: uint_div)
  moreover have "?d \<noteq> 0" using d assms(2) by (metis int_one_le_iff_zero_less not_one_le_zero order_trans unsigned_0 zero_le_one one_le_numeral)
  ultimately show ?thesis using assms(1) by (simp add: scale_dpi_def Let_def)
qed

section \<open>Properties\<close>

text \<open>
  \<^verbatim>\<open>offset_region\<close> translates the set of points and keeps the region invariant, extents
  included.
\<close>

theorem offset_region_spec:
  assumes "region_ok reg"
  shows "region_ok (offset_region reg x y) \<and>
    region_set (offset_region reg x y) = (\<lambda>(u, v). (u + x, v + y)) ` region_set reg"
  by (rule offset_region_ok[OF assms])

theorem offset_region_spec_witness:
  "region_set (offset_region (square 0 0) 3 4) = (\<lambda>(u, v). (u + 3, v + 4)) ` region_set (square 0 0)"
  using offset_region_spec[of "square 0 0" 3 4] by simp

text \<open>
  C13: \<^verbatim>\<open>mirror_region\<close> loses rectangles.  The exchange of the ends of a band copies the right end
  over the left one, so a region of two rectangles in one band becomes the mirrored right rectangle
  twice, which is not a well-formed region and not the mirror image.
\<close>

theorem mirror_region_loses_left:
  assumes "rects reg = [a, b]" "wf_rects [a, b]" "rtop a = rtop b"
  shows "rects (mirror_region c reg) = [mirror_rect c b, mirror_rect c b] \<and>
    \<not> wf_rects (rects (mirror_region c reg)) \<and>
    region_set (mirror_region c reg) \<noteq> rect_set (mirror_rect c a) \<union> rect_set (mirror_rect c b)"
proof -
  have r: "rects (mirror_region c reg) = [mirror_rect c b, mirror_rect c b]"
    using assms mirror_bands_two[of a b c] by (simp add: mirror_region_def numeral_2_eq_2)
  have w: "rleft a < rright a" "rtop a < rbottom a" "rright a < rleft b" "rbottom a = rbottom b"
    "rleft b < rright b" "rtop b < rbottom b"
    using assms(2,3) by (auto simp: rect_before_def is_rect_empty_def)
  let ?p = "(rright c - rleft c - rright a, rtop a)"
  have "?p \<in> rect_set (mirror_rect c a)" "?p \<notin> rect_set (mirror_rect c b)"
    using w by (auto simp: rect_set_def mirror_rect_def Let_def)
  then have "region_set (mirror_region c reg) \<noteq> rect_set (mirror_rect c a) \<union> rect_set (mirror_rect c b)"
    by (auto simp: region_set_def r)
  moreover have "\<not> wf_rects [mirror_rect c b, mirror_rect c b]"
    using w by (auto simp: rect_before_def mirror_rect_def Let_def)
  ultimately show ?thesis using r by simp
qed

definition two_columns :: region where
  "two_columns = \<lparr>rsize = 2, rects = [mk_rect 0 0 10 10, mk_rect 20 0 30 10], extents = mk_rect 0 0 30 10\<rparr>"

theorem mirror_region_loses_left_witness:
  "rects (mirror_region (mk_rect 0 0 100 100) two_columns) = [mk_rect 70 0 80 10, mk_rect 70 0 80 10]"
  using mirror_region_loses_left[of two_columns "mk_rect 0 0 10 10" "mk_rect 20 0 30 10" "mk_rect 0 0 100 100"]
  by (simp add: two_columns_def is_rect_empty_def rect_before_def mirror_rect_def mk_rect_def Let_def)

text \<open>
  \<^verbatim>\<open>scale_dpi\<close> rounds a non-negative coordinate to the nearest value of the ratio as long as the
  product fits in 31 bits.
\<close>

theorem scale_dpi_rounds:
  assumes "0 \<le> val" "0 < uint (num f) * uint (den t)"
    and "val * (uint (num t) * uint (den f)) + uint (num f) * uint (den t) div 2 < 2 ^ 31"
  shows "scale_dpi val f t =
    Some ((val * (uint (num t) * uint (den f)) + uint (num f) * uint (den t) div 2) div (uint (num f) * uint (den t)))"
  by (rule scale_dpi_nonneg[OF assms(1) refl refl assms(2,3)])

theorem scale_dpi_rounds_witness:
  "scale_dpi 100 \<lparr>num = 96, den = 1\<rparr> \<lparr>num = 144, den = 1\<rparr> = Some 150"
  using scale_dpi_rounds[of 100 "\<lparr>num = 96, den = 1\<rparr>" "\<lparr>num = 144, den = 1\<rparr>"] by simp

text \<open>
  a negative coordinate is scaled to a non-negative one: the multiplication and the division
  are unsigned, so \<^verbatim>\<open>scale_dpi\<close> is wrong for every negative argument once the divisor is at least 2.
\<close>

theorem scale_dpi_loses_sign:
  assumes "val < 0" "2 \<le> uint (num f) * uint (den t)"
  shows "\<exists>v. scale_dpi val f t = Some v \<and> 0 \<le> v"
  by (rule scale_dpi_negative[OF assms])

theorem scale_dpi_loses_sign_witness:
  "\<exists>v. scale_dpi (- 100) \<lparr>num = 96, den = 1\<rparr> \<lparr>num = 192, den = 1\<rparr> = Some v \<and> 0 \<le> v"
  using scale_dpi_loses_sign[of "- 100" "\<lparr>num = 96, den = 1\<rparr>" "\<lparr>num = 192, den = 1\<rparr>"] by simp

end
