(* ===== verification/Handle_Table.thy ===== *)
theory Handle_Table
  imports Server_Prelude
begin

text \<open>
  Kernel object handles, \<^verbatim>\<open>server/handle.c\<close>: one table per process and a global one, each an array
  of entries with the number allocated, the last used index and a lower bound of the free ones, and
  the handle and reference counts of the objects they point to.

  A result \<open>None\<close> is a run that leaves the C semantics or the server: a store or load outside
  the entry array, a NULL process dereferenced, a failed assertion.
\<close>

section \<open>Data\<close>

record handle_entry =
  eptr :: ptr
  access :: u32

record handle_table =
  count :: nat
  last :: int
  free :: nat
  entries :: "handle_entry list"

record kobject =
  refcount :: nat
  handle_count :: nat
  ops :: nat
  is_permanent :: bool

record obj_type =
  type_handles :: nat
  type_handle_max :: nat

record generic_map =
  gread :: u32
  gwrite :: u32
  gexec :: u32
  gall :: u32

text \<open>
  The processes are numbered; \<open>ptables\<close> holds the \<^verbatim>\<open>handles\<close> pointer of each.  The last five
  fields are what the pseudo-handles of the current thread stand for.
\<close>

record server =
  kobjs :: "ptr \<Rightarrow> kobject"
  types :: "nat \<Rightarrow> obj_type"
  ptables :: "handle_table option list"
  global_table :: "handle_table option"
  cur_process :: nat
  cur_process_obj :: ptr
  cur_thread_obj :: ptr
  cur_thread_token :: ptr
  cur_process_token :: ptr
  cur_impersonation_token :: ptr

text \<open>
  What the handle code is given: allocation, the contents of fresh memory, the access mapping of
  each object type and its \<^verbatim>\<open>map_access\<close> override, the access check of a token, the
  \<^verbatim>\<open>close_handle\<close> callback of each type, and the token of each process.
\<close>

record env =
  can_alloc :: "nat \<Rightarrow> bool"
  junk :: "nat \<Rightarrow> handle_entry"
  mapping :: "nat \<Rightarrow> generic_map"
  map_override :: "nat \<Rightarrow> (u32 \<Rightarrow> u32) option"
  check_object_access :: "ptr \<Rightarrow> ptr \<Rightarrow> u32 \<Rightarrow> u32 option"
  close_callback :: "nat \<Rightarrow> (ptr \<Rightarrow> nat \<Rightarrow> u32 \<Rightarrow> bool) option"
  process_token :: "nat \<Rightarrow> ptr"

datatype which = Proc nat | Global

definition RESERVED_SHIFT :: nat where "RESERVED_SHIFT = 26"

definition RESERVED_INHERIT :: u32 where "RESERVED_INHERIT = 0x04000000"

definition RESERVED_CLOSE_PROTECT :: u32 where "RESERVED_CLOSE_PROTECT = 0x08000000"

definition RESERVED_ALL :: u32 where "RESERVED_ALL = RESERVED_INHERIT OR RESERVED_CLOSE_PROTECT"

definition MIN_HANDLE_ENTRIES :: nat where "MIN_HANDLE_ENTRIES = 32"

definition MAX_HANDLE_ENTRIES :: nat where "MAX_HANDLE_ENTRIES = 0xffffff"

definition HANDLE_OBFUSCATOR :: u32 where "HANDLE_OBFUSCATOR = 0x544a4def"

definition OBJ_INHERIT :: u32 where "OBJ_INHERIT = 2"

definition OBJ_PROTECT_CLOSE :: u32 where "OBJ_PROTECT_CLOSE = 1"

definition MAXIMUM_ALLOWED :: u32 where "MAXIMUM_ALLOWED = 0x02000000"

definition GENERIC_READ :: u32 where "GENERIC_READ = 0x80000000"

definition GENERIC_WRITE :: u32 where "GENERIC_WRITE = 0x40000000"

definition GENERIC_EXECUTE :: u32 where "GENERIC_EXECUTE = 0x20000000"

definition GENERIC_ALL :: u32 where "GENERIC_ALL = 0x10000000"

definition DELETE_ACCESS :: u32 where "DELETE_ACCESS = 0x00010000"

definition DUPLICATE_CLOSE_SOURCE :: u32 where "DUPLICATE_CLOSE_SOURCE = 1"

definition DUPLICATE_SAME_ACCESS :: u32 where "DUPLICATE_SAME_ACCESS = 2"

definition DUPLICATE_SAME_ATTRIBUTES :: u32 where "DUPLICATE_SAME_ATTRIBUTES = 4"

definition DUPLICATE_MAKE_GLOBAL :: u32 where "DUPLICATE_MAKE_GLOBAL = 0x80000000"

definition ENTRY_SIZE :: nat where "ENTRY_SIZE = 16"

section \<open>Handle values\<close>

definition index_to_handle :: "nat \<Rightarrow> u32" where
  "index_to_handle index = push_bit 2 (word_of_nat (index + 1))"

definition handle_to_index :: "u32 \<Rightarrow> int" where
  "handle_to_index handle = uint (drop_bit 2 handle) - 1"

definition handle_is_global :: "u32 \<Rightarrow> bool" where
  "handle_is_global handle = (unat (handle XOR HANDLE_OBFUSCATOR) \<le> MAX_HANDLE_ENTRIES * 4)"

definition handle_local_to_global :: "u32 \<Rightarrow> u32" where
  "handle_local_to_global handle = (if handle = 0 then 0 else handle XOR HANDLE_OBFUSCATOR)"

definition handle_global_to_local :: "u32 \<Rightarrow> u32" where
  "handle_global_to_local handle = handle XOR HANDLE_OBFUSCATOR"

section \<open>Objects\<close>

definition grab_object :: "server \<Rightarrow> ptr \<Rightarrow> server" where
  "grab_object s obj =
     s\<lparr>kobjs := (kobjs s)(obj := (kobjs s obj)\<lparr>refcount := refcount (kobjs s obj) + 1\<rparr>)\<rparr>"

text \<open>The object is destroyed when its count reaches 0; the assertion is that it was not 0 before.\<close>

definition release_object :: "server \<Rightarrow> ptr \<Rightarrow> server option" where
  "release_object s obj =
     (if refcount (kobjs s obj) = 0 then None
      else Some (s\<lparr>kobjs := (kobjs s)(obj := (kobjs s obj)\<lparr>refcount := refcount (kobjs s obj) - 1\<rparr>)\<rparr>))"

definition grab_object_for_handle :: "server \<Rightarrow> ptr \<Rightarrow> server" where
  "grab_object_for_handle s obj =
     (let o1 = kobjs s obj; ty = types s (ops o1); n = type_handles ty + 1
      in grab_object
           (s\<lparr>kobjs := (kobjs s)(obj := o1\<lparr>handle_count := handle_count o1 + 1\<rparr>),
              types := (types s)(ops o1 := ty\<lparr>type_handles := n, type_handle_max := max (type_handle_max ty) n\<rparr>)\<rparr>)
           obj)"

definition release_object_from_handle :: "server \<Rightarrow> ptr \<Rightarrow> server option" where
  "release_object_from_handle s obj =
     (let o1 = kobjs s obj; ty = types s (ops o1)
      in if handle_count o1 = 0 then None
         else release_object
           (s\<lparr>kobjs := (kobjs s)(obj := o1\<lparr>handle_count := handle_count o1 - 1\<rparr>),
              types := (types s)(ops o1 := ty\<lparr>type_handles := type_handles ty - 1\<rparr>)\<rparr>)
           obj)"

definition map_access :: "u32 \<Rightarrow> generic_map \<Rightarrow> u32" where
  "map_access a m =
     (let a1 = (if a AND GENERIC_READ \<noteq> 0 then a OR gread m else a);
          a2 = (if a1 AND GENERIC_WRITE \<noteq> 0 then a1 OR gwrite m else a1);
          a3 = (if a2 AND GENERIC_EXECUTE \<noteq> 0 then a2 OR gexec m else a2);
          a4 = (if a3 AND GENERIC_ALL \<noteq> 0 then a3 OR gall m else a3)
      in a4 AND NOT (GENERIC_READ OR GENERIC_WRITE OR GENERIC_EXECUTE OR GENERIC_ALL))"

definition default_map_access :: "env \<Rightarrow> server \<Rightarrow> ptr \<Rightarrow> u32 \<Rightarrow> u32" where
  "default_map_access E s obj a = map_access a (mapping E (ops (kobjs s obj)))"

definition map_obj_access :: "env \<Rightarrow> server \<Rightarrow> ptr \<Rightarrow> u32 \<Rightarrow> u32" where
  "map_obj_access E s obj a =
     (case map_override E (ops (kobjs s obj)) of
        Some f \<Rightarrow> f a
      | None \<Rightarrow> default_map_access E s obj a)"

section \<open>Tables\<close>

definition process_handles :: "server \<Rightarrow> nat \<Rightarrow> handle_table option" where
  "process_handles s p = (if p < length (ptables s) then ptables s ! p else None)"

definition get_table :: "server \<Rightarrow> which \<Rightarrow> handle_table option" where
  "get_table s w = (case w of Proc p \<Rightarrow> process_handles s p | Global \<Rightarrow> global_table s)"

definition set_table :: "server \<Rightarrow> which \<Rightarrow> handle_table option \<Rightarrow> server" where
  "set_table s w t =
     (case w of Proc p \<Rightarrow> s\<lparr>ptables := (ptables s)[p := t]\<rparr> | Global \<Rightarrow> s\<lparr>global_table := t\<rparr>)"

definition alloc_handle_table :: "env \<Rightarrow> nat \<Rightarrow> handle_table result" where
  "alloc_handle_table E n =
     (let c = (if n < MIN_HANDLE_ENTRIES then MIN_HANDLE_ENTRIES else n)
      in if can_alloc E (c * ENTRY_SIZE)
         then Inr \<lparr>count = c, last = - 1, free = 0, entries = map (junk E) [0..<c]\<rparr>
         else Inl STATUS_NO_MEMORY)"

definition grow_handle_table :: "env \<Rightarrow> handle_table \<Rightarrow> handle_table result" where
  "grow_handle_table E t =
     (let c = min (count t * 2) MAX_HANDLE_ENTRIES
      in if c = count t \<or> \<not> can_alloc E (c * ENTRY_SIZE) then Inl STATUS_INSUFFICIENT_RESOURCES
         else Inr (t\<lparr>count := c, entries := entries t @ map (junk E) [count t..<c]\<rparr>))"

text \<open>The first unused index from \<open>i\<close> on, or the one after \<open>l\<close>.\<close>

function scan_free :: "handle_entry list \<Rightarrow> nat \<Rightarrow> int \<Rightarrow> nat" where
  "scan_free es i l = (if int i \<le> l \<and> eptr (es ! i) \<noteq> 0 then scan_free es (i + 1) l else i)"
  by pat_completeness auto
termination by (relation "measure (\<lambda>(es, i, l). nat (l + 1 - int i))") auto

declare scan_free.simps [simp del]

text \<open>The new table and the index of the entry that is used.\<close>

definition alloc_entry_table :: "env \<Rightarrow> handle_table \<Rightarrow> ptr \<Rightarrow> u32 \<Rightarrow> (handle_table \<times> nat) result" where
  "alloc_entry_table E t obj a =
     (let i = scan_free (entries t) (free t) (last t) in
      if int i \<le> last t
      then Inr (t\<lparr>free := i + 1, entries := (entries t)[i := \<lparr>eptr = obj, access = a\<rparr>]\<rparr>, i)
      else case (if i \<ge> count t then grow_handle_table E t else Inr t) of
             Inl e \<Rightarrow> Inl e
           | Inr t' \<Rightarrow> Inr (t'\<lparr>last := int i, free := i + 1,
                               entries := (entries t')[i := \<lparr>eptr = obj, access = a\<rparr>]\<rparr>, i))"

definition alloc_entry :: "env \<Rightarrow> server \<Rightarrow> which \<Rightarrow> handle_table \<Rightarrow> ptr \<Rightarrow> u32 \<Rightarrow> (server \<times> u32) result" where
  "alloc_entry E s w t obj a =
     (case alloc_entry_table E t obj a of
        Inl e \<Rightarrow> Inl e
      | Inr (t', i) \<Rightarrow> Inr (grab_object_for_handle (set_table s w (Some t')) obj, index_to_handle i))"

definition alloc_handle_entry :: "env \<Rightarrow> server \<Rightarrow> nat \<Rightarrow> ptr \<Rightarrow> u32 \<Rightarrow> u32 \<Rightarrow> (server \<times> u32) result option" where
  "alloc_handle_entry E s p obj a attr =
     (if a AND RESERVED_ALL \<noteq> 0 then None
      else let a' = (if attr AND OBJ_INHERIT \<noteq> 0 then a OR RESERVED_INHERIT else a)
           in case process_handles s p of
                None \<Rightarrow> Some (Inl STATUS_PROCESS_IS_TERMINATING)
              | Some t \<Rightarrow> Some (alloc_entry E s (Proc p) t obj a'))"

definition alloc_handle_no_access_check ::
    "env \<Rightarrow> server \<Rightarrow> nat \<Rightarrow> ptr \<Rightarrow> u32 \<Rightarrow> u32 \<Rightarrow> (server \<times> u32) result option" where
  "alloc_handle_no_access_check E s p obj a attr =
     (let a1 = (if a AND MAXIMUM_ALLOWED \<noteq> 0 then GENERIC_ALL else a);
          a2 = map_obj_access E s obj a1 AND NOT RESERVED_ALL
      in alloc_handle_entry E s p obj a2 attr)"

text \<open>The access check uses the current thread's token and may reduce the access.\<close>

definition alloc_handle :: "env \<Rightarrow> server \<Rightarrow> nat \<Rightarrow> ptr \<Rightarrow> u32 \<Rightarrow> u32 \<Rightarrow> (server \<times> u32) result option" where
  "alloc_handle E s p obj a attr =
     (let a1 = map_obj_access E s obj a AND NOT RESERVED_ALL in
      if a1 = 0 then Some (Inl STATUS_ACCESS_DENIED)
      else case check_object_access E NULL obj a1 of
             None \<Rightarrow> Some (Inl STATUS_ACCESS_DENIED)
           | Some a2 \<Rightarrow> alloc_handle_entry E s p obj a2 attr)"

definition alloc_global_handle_no_access_check :: "env \<Rightarrow> server \<Rightarrow> ptr \<Rightarrow> u32 \<Rightarrow> (server \<times> u32) result" where
  "alloc_global_handle_no_access_check E s obj a =
     (case (case global_table s of Some t \<Rightarrow> Inr t | None \<Rightarrow> alloc_handle_table E 0) of
        Inl e \<Rightarrow> Inl e
      | Inr t \<Rightarrow>
          (case alloc_entry E (s\<lparr>global_table := Some t\<rparr>) Global t obj a of
             Inl e \<Rightarrow> Inl e
           | Inr (s', h) \<Rightarrow> Inr (s', handle_local_to_global h)))"

definition alloc_global_handle :: "env \<Rightarrow> server \<Rightarrow> ptr \<Rightarrow> u32 \<Rightarrow> (server \<times> u32) result" where
  "alloc_global_handle E s obj a =
     (if a \<noteq> 0
      then (case check_object_access E NULL obj a of
              None \<Rightarrow> Inl STATUS_ACCESS_DENIED
            | Some a' \<Rightarrow> alloc_global_handle_no_access_check E s obj a')
      else alloc_global_handle_no_access_check E s obj a)"

section \<open>Looking up a handle\<close>

definition handle_place :: "nat \<Rightarrow> u32 \<Rightarrow> which \<times> u32" where
  "handle_place p h = (if handle_is_global h then (Global, handle_global_to_local h) else (Proc p, h))"

text \<open>The table and the index of the entry a handle denotes.\<close>

definition get_handle :: "server \<Rightarrow> nat \<Rightarrow> u32 \<Rightarrow> (which \<times> nat) option" where
  "get_handle s p h =
     (let (w, h') = handle_place p h in
      case get_table s w of
        None \<Rightarrow> None
      | Some t \<Rightarrow>
          (let index = handle_to_index h' in
           if index < 0 then None
           else if index > last t then None
           else if eptr (entries t ! nat index) = 0 then None
           else Some (w, nat index)))"

definition entry_at :: "server \<Rightarrow> which \<times> nat \<Rightarrow> handle_entry" where
  "entry_at s wi = entries (the (get_table s (fst wi))) ! snd wi"

definition set_entry :: "server \<Rightarrow> which \<times> nat \<Rightarrow> handle_entry \<Rightarrow> server" where
  "set_entry s wi e =
     (case get_table s (fst wi) of
        None \<Rightarrow> s
      | Some t \<Rightarrow> set_table s (fst wi) (Some (t\<lparr>entries := (entries t)[snd wi := e]\<rparr>)))"

text \<open>The new value of \<^verbatim>\<open>last\<close>: the largest used index.\<close>

function shrink_last :: "handle_entry list \<Rightarrow> int \<Rightarrow> int" where
  "shrink_last es l = (if l \<ge> 0 \<and> eptr (es ! nat l) = 0 then shrink_last es (l - 1) else l)"
  by pat_completeness auto
termination by (relation "measure (\<lambda>(es, l). nat (l + 1))") auto

declare shrink_last.simps [simp del]

definition shrink_handle_table :: "env \<Rightarrow> handle_table \<Rightarrow> handle_table" where
  "shrink_handle_table E t =
     (let t' = t\<lparr>last := shrink_last (entries t) (last t)\<rparr>; c = count t div 2 in
      if last t' \<ge> int (count t div 4) then t'
      else if count t < MIN_HANDLE_ENTRIES * 2 then t'
      else if \<not> can_alloc E (c * ENTRY_SIZE) then t'
      else t'\<lparr>count := c, entries := take c (entries t)\<rparr>)"

section \<open>Inheriting a table\<close>

text \<open>\<open>dst\<close> is the new table, not yet attached to the process.\<close>

definition inherit_handle :: "server \<Rightarrow> nat \<Rightarrow> u32 \<Rightarrow> handle_table \<Rightarrow> (server \<times> handle_table) option" where
  "inherit_handle s parent h dst =
     (case get_handle s parent h of
        None \<Rightarrow> Some (s, dst)
      | Some wi \<Rightarrow>
          (let src = entry_at s wi; index = handle_to_index h in
           if access src AND RESERVED_INHERIT = 0 then Some (s, dst)
           else if index < 0 \<or> index \<ge> int (length (entries dst)) then None
           else if eptr (entries dst ! nat index) \<noteq> 0 then Some (s, dst)
           else Some (grab_object_for_handle s (eptr src),
                      dst\<lparr>entries := (entries dst)[nat index := src], last := max (last dst) index\<rparr>)))"

fun inherit_handles :: "server \<Rightarrow> nat \<Rightarrow> u32 list \<Rightarrow> handle_table \<Rightarrow> (server \<times> handle_table) option" where
  "inherit_handles s parent [] dst = Some (s, dst)"
| "inherit_handles s parent (h # hs) dst =
     (case inherit_handle s parent h dst of
        None \<Rightarrow> None
      | Some (s', dst') \<Rightarrow> inherit_handles s' parent hs dst')"

text \<open>The loop over the copied entries: keep the inheritable ones, forget the others.\<close>

fun inherit_all :: "server \<Rightarrow> handle_entry list \<Rightarrow> server \<times> handle_entry list" where
  "inherit_all s [] = (s, [])"
| "inherit_all s (e # es) =
     (if eptr e = 0 then (let (s', es') = inherit_all s es in (s', e # es'))
      else if access e AND RESERVED_INHERIT \<noteq> 0
      then (let (s', es') = inherit_all (grab_object_for_handle s (eptr e)) es in (s', e # es'))
      else (let (s', es') = inherit_all s es in (s', e\<lparr>eptr := 0\<rparr> # es')))"

definition null_entry :: handle_entry where
  "null_entry = \<lparr>eptr = 0, access = 0\<rparr>"

definition copy_handle_table ::
    "env \<Rightarrow> server \<Rightarrow> nat \<Rightarrow> u32 list option \<Rightarrow> u32 list \<Rightarrow> (server \<times> handle_table) result option" where
  "copy_handle_table E s parent handles std_handles =
     (case process_handles s parent of
        None \<Rightarrow> None
      | Some pt \<Rightarrow>
          (case alloc_handle_table E (count pt) of
             Inl e \<Rightarrow> Some (Inl e)
           | Inr t \<Rightarrow>
               (case handles of
                  Some hs \<Rightarrow>
                    (let t1 = t\<lparr>entries := replicate (count pt) null_entry @ drop (count pt) (entries t)\<rparr> in
                     case inherit_handles s parent (hs @ take 3 std_handles) t1 of
                       None \<Rightarrow> None
                     | Some (s', t2) \<Rightarrow> Some (Inr (s', shrink_handle_table E t2)))
                | None \<Rightarrow>
                    (if last pt \<ge> 0
                     then (let n = nat (last pt + 1);
                               (s', es) = inherit_all s (take n (entries pt))
                           in Some (Inr (s', shrink_handle_table E
                                (t\<lparr>last := last pt, entries := es @ drop n (entries t)\<rparr>))))
                     else Some (Inr (s, shrink_handle_table E t))))))"

section \<open>Closing\<close>

text \<open>The entry of a closed handle is cleared; the table shrinks when it was the last one.\<close>

definition clear_entry :: "env \<Rightarrow> handle_table \<Rightarrow> nat \<Rightarrow> handle_table" where
  "clear_entry E t i =
     (let t1 = t\<lparr>entries := (entries t)[i := (entries t ! i)\<lparr>eptr := 0\<rparr>]\<rparr>;
          t2 = (if i < free t1 then t1\<lparr>free := i\<rparr> else t1)
      in if int i = last t2 then shrink_handle_table E t2 else t2)"

text \<open>
  The index is computed from the handle as given.  The callback of the object's type may refuse.
\<close>

definition close_handle :: "env \<Rightarrow> server \<Rightarrow> nat \<Rightarrow> u32 \<Rightarrow> (server \<times> status) option" where
  "close_handle E s p h =
     (let index = handle_to_index h in
      case get_handle s p h of
        None \<Rightarrow> Some (s, STATUS_INVALID_HANDLE)
      | Some wi \<Rightarrow>
          (let e = entry_at s wi; obj = eptr e; w = (if handle_is_global h then Global else Proc p) in
           if access e AND RESERVED_CLOSE_PROTECT \<noteq> 0 then Some (s, STATUS_HANDLE_NOT_CLOSABLE)
           else if (case close_callback E (ops (kobjs s obj)) of None \<Rightarrow> False | Some cb \<Rightarrow> \<not> cb obj p h)
           then Some (s, STATUS_HANDLE_NOT_CLOSABLE)
           else (case get_table s w of
                   None \<Rightarrow> None
                 | Some t \<Rightarrow>
                     (if index < 0 \<or> index \<ge> int (length (entries t)) then None
                      else map_option (\<lambda>s'. (s', STATUS_SUCCESS))
                             (release_object_from_handle
                                (set_table s w (Some (clear_entry E t (nat index)))) obj)))))"

text \<open>The destruction of a table: each used entry is cleared and its object released.\<close>

fun release_entries :: "server \<Rightarrow> handle_entry list \<Rightarrow> server option" where
  "release_entries s [] = Some s"
| "release_entries s (e # es) =
     (if eptr e = 0 then release_entries s es
      else case release_object_from_handle s (eptr e) of
             None \<Rightarrow> None
           | Some s' \<Rightarrow> release_entries s' es)"

definition handle_table_destroy :: "server \<Rightarrow> handle_table \<Rightarrow> server option" where
  "handle_table_destroy s t = release_entries s (take (nat (last t + 1)) (entries t))"

definition close_process_handles :: "server \<Rightarrow> nat \<Rightarrow> server option" where
  "close_process_handles s p =
     (case process_handles s p of
        None \<Rightarrow> Some s
      | Some t \<Rightarrow> handle_table_destroy (set_table s (Proc p) None) t)"

section \<open>Queries\<close>

definition get_magic_handle :: "server \<Rightarrow> u32 \<Rightarrow> ptr" where
  "get_magic_handle s h =
     (if h = 0xfffffffa then cur_impersonation_token s
      else if h = 0xfffffffb then cur_thread_token s
      else if h = 0xfffffffc then cur_process_token s
      else if h = 0xfffffffe then cur_thread_obj s
      else if h = 0x7fffffff \<or> h = 0xffffffff then cur_process_obj s
      else NULL)"

definition get_handle_obj :: "server \<Rightarrow> nat \<Rightarrow> u32 \<Rightarrow> u32 \<Rightarrow> nat option \<Rightarrow> (server \<times> ptr) result" where
  "get_handle_obj s p h acc o_ops =
     (let magic = get_magic_handle s h;
          wrong = (\<lambda>obj. case o_ops of None \<Rightarrow> False | Some q \<Rightarrow> ops (kobjs s obj) \<noteq> q)
      in if magic = 0
         then (case get_handle s p h of
                 None \<Rightarrow> Inl STATUS_INVALID_HANDLE
               | Some wi \<Rightarrow>
                   (let e = entry_at s wi in
                    if wrong (eptr e) then Inl STATUS_OBJECT_TYPE_MISMATCH
                    else if access e AND acc \<noteq> acc then Inl STATUS_ACCESS_DENIED
                    else Inr (grab_object s (eptr e), eptr e)))
         else if wrong magic then Inl STATUS_OBJECT_TYPE_MISMATCH
         else Inr (grab_object s magic, magic))"

definition get_handle_access :: "server \<Rightarrow> nat \<Rightarrow> u32 \<Rightarrow> u32" where
  "get_handle_access s p h =
     (if get_magic_handle s h \<noteq> 0 then NOT RESERVED_ALL
      else case get_handle s p h of
             None \<Rightarrow> 0
           | Some wi \<Rightarrow> access (entry_at s wi) AND NOT RESERVED_ALL)"

definition used_entries :: "handle_table \<Rightarrow> handle_entry list" where
  "used_entries t = take (nat (last t + 1)) (entries t)"

fun find_inherited :: "server \<Rightarrow> nat \<Rightarrow> nat \<Rightarrow> handle_entry list \<Rightarrow> u32" where
  "find_inherited s o_ops i [] = 0"
| "find_inherited s o_ops i (e # es) =
     (if eptr e = 0 then find_inherited s o_ops (i + 1) es
      else if ops (kobjs s (eptr e)) \<noteq> o_ops then find_inherited s o_ops (i + 1) es
      else if access e AND RESERVED_INHERIT \<noteq> 0 then index_to_handle i
      else find_inherited s o_ops (i + 1) es)"

definition find_inherited_handle :: "server \<Rightarrow> nat \<Rightarrow> nat \<Rightarrow> u32" where
  "find_inherited_handle s p o_ops =
     (case process_handles s p of None \<Rightarrow> 0 | Some t \<Rightarrow> find_inherited s o_ops 0 (used_entries t))"

definition get_obj_handle_count :: "server \<Rightarrow> nat \<Rightarrow> ptr \<Rightarrow> nat" where
  "get_obj_handle_count s p obj =
     (case process_handles s p of
        None \<Rightarrow> 0
      | Some t \<Rightarrow> length (filter (\<lambda>e. eptr e = obj) (used_entries t)))"

definition get_handle_table_count :: "server \<Rightarrow> nat \<Rightarrow> nat" where
  "get_handle_table_count s p = (case process_handles s p of None \<Rightarrow> 0 | Some t \<Rightarrow> count t)"

section \<open>Flags and duplication\<close>

text \<open>The old flags, -1 on error, and the status; the process may be NULL, here \<open>None\<close>.\<close>

definition set_handle_flags :: "server \<Rightarrow> nat option \<Rightarrow> u32 \<Rightarrow> u32 \<Rightarrow> u32 \<Rightarrow> (server \<times> int \<times> status) option" where
  "set_handle_flags s process h msk flags =
     (if get_magic_handle s h \<noteq> 0
      then Some (s, 0, if msk \<noteq> 0 then STATUS_ACCESS_DENIED else STATUS_SUCCESS)
      else case process of
             None \<Rightarrow> None
           | Some p \<Rightarrow>
               (case get_handle s p h of
                  None \<Rightarrow> Some (s, - 1, STATUS_INVALID_HANDLE)
                | Some wi \<Rightarrow>
                    (let e = entry_at s wi;
                         m = push_bit RESERVED_SHIFT msk AND RESERVED_ALL;
                         f = push_bit RESERVED_SHIFT flags AND m
                     in Some (set_entry s wi (e\<lparr>access := (access e AND NOT m) OR f\<rparr>),
                              uint (drop_bit RESERVED_SHIFT (access e AND RESERVED_ALL)), STATUS_SUCCESS))))"

text \<open>Both access checks of a request for more rights; each may change the access.\<close>

definition check_more_access :: "env \<Rightarrow> server \<Rightarrow> nat option \<Rightarrow> ptr \<Rightarrow> u32 \<Rightarrow> u32 result option" where
  "check_more_access E s dst obj a =
     (case (if cur_thread_token s \<noteq> 0 then check_object_access E (cur_thread_token s) obj a else Some a) of
        None \<Rightarrow> Some (Inl STATUS_ACCESS_DENIED)
      | Some a1 \<Rightarrow>
          (case dst of
             None \<Rightarrow> None
           | Some d \<Rightarrow>
               (case check_object_access E (process_token E d) obj a1 of
                  None \<Rightarrow> Some (Inl STATUS_ACCESS_DENIED)
                | Some a2 \<Rightarrow> Some (Inr a2))))"

text \<open>The part of \<^verbatim>\<open>duplicate_handle\<close> that finds or allocates the new handle.\<close>

definition duplicate_alloc ::
    "env \<Rightarrow> server \<Rightarrow> nat \<Rightarrow> u32 \<Rightarrow> nat option \<Rightarrow> ptr \<Rightarrow> (which \<times> nat) option \<Rightarrow> u32 \<Rightarrow> u32 \<Rightarrow> u32 \<Rightarrow> u32 \<Rightarrow>
     (server \<times> u32) result option" where
  "duplicate_alloc E s src src_handle dst obj entry src_access a attr options =
     (if a AND NOT src_access \<noteq> 0
      then (case check_more_access E s dst obj a of
              None \<Rightarrow> None
            | Some (Inl e) \<Rightarrow> Some (Inl e)
            | Some (Inr a') \<Rightarrow>
                (if options AND DUPLICATE_MAKE_GLOBAL \<noteq> 0 then Some (alloc_global_handle E s obj a')
                 else case dst of None \<Rightarrow> None | Some d \<Rightarrow> alloc_handle_no_access_check E s d obj a' attr))
      else if options AND DUPLICATE_MAKE_GLOBAL \<noteq> 0
      then Some (alloc_global_handle_no_access_check E s obj a)
      else (case entry of
              Some wi \<Rightarrow>
                (if options AND DUPLICATE_CLOSE_SOURCE \<noteq> 0 \<and> dst = Some src \<and>
                    access (entry_at s wi) AND RESERVED_CLOSE_PROTECT = 0
                 then Some (Inr (set_entry s wi ((entry_at s wi)\<lparr>access :=
                        (if attr AND OBJ_INHERIT \<noteq> 0 then a OR RESERVED_INHERIT else a)\<rparr>), src_handle))
                 else case dst of None \<Rightarrow> None | Some d \<Rightarrow> alloc_handle_entry E s d obj a attr)
            | None \<Rightarrow> (case dst of None \<Rightarrow> None | Some d \<Rightarrow> alloc_handle_entry E s d obj a attr)))"

text \<open>Its end: the source's flags are copied on request and the reference is released.\<close>

definition duplicate_finish ::
    "server \<Rightarrow> nat option \<Rightarrow> ptr \<Rightarrow> u32 \<Rightarrow> u32 \<Rightarrow> u32 \<Rightarrow> (server \<times> u32 \<times> status) option" where
  "duplicate_finish s dst obj res options src_flags =
     (case (if res \<noteq> 0 \<and> options AND DUPLICATE_SAME_ATTRIBUTES \<noteq> 0
            then set_handle_flags s dst res (NOT 0) src_flags
            else Some (s, 0, STATUS_SUCCESS)) of
        None \<Rightarrow> None
      | Some (s', _, st) \<Rightarrow> map_option (\<lambda>s2. (s2, res, st)) (release_object s' obj))"

definition duplicate_handle ::
    "env \<Rightarrow> server \<Rightarrow> nat \<Rightarrow> u32 \<Rightarrow> nat option \<Rightarrow> u32 \<Rightarrow> u32 \<Rightarrow> u32 \<Rightarrow> (server \<times> u32 \<times> status) option" where
  "duplicate_handle E s src src_handle dst a attr options =
     (case get_handle_obj s src src_handle 0 None of
        Inl e \<Rightarrow> Some (s, 0, e)
      | Inr (s1, obj) \<Rightarrow>
          (let entry = get_handle s1 src src_handle;
               full = (case entry of Some wi \<Rightarrow> access (entry_at s1 wi) | None \<Rightarrow> map_obj_access E s1 obj GENERIC_ALL);
               src_flags = drop_bit RESERVED_SHIFT (full AND RESERVED_ALL);
               src_access = full AND NOT RESERVED_ALL;
               a1 = (if options AND DUPLICATE_SAME_ACCESS \<noteq> 0 then src_access
                     else map_obj_access E s1 obj a AND NOT RESERVED_ALL)
           in case duplicate_alloc E s1 src src_handle dst obj entry src_access a1 attr options of
                None \<Rightarrow> None
              | Some (Inl e) \<Rightarrow> map_option (\<lambda>s'. (s', 0, e)) (release_object s1 obj)
              | Some (Inr (s2, res)) \<Rightarrow> duplicate_finish s2 dst obj res options src_flags))"

section \<open>Requests\<close>

definition req_close_handle :: "env \<Rightarrow> server \<Rightarrow> u32 \<Rightarrow> (server \<times> status) option" where
  "req_close_handle E s h = close_handle E s (cur_process s) h"

definition req_set_handle_info :: "server \<Rightarrow> u32 \<Rightarrow> u32 \<Rightarrow> u32 \<Rightarrow> (server \<times> int \<times> status) option" where
  "req_set_handle_info s h msk flags = set_handle_flags s (Some (cur_process s)) h msk flags"

text \<open>
  \<open>src\<close> and \<open>dst\<close> are the processes the request's handles denote, \<open>None\<close> when one does not; the
  references taken on them are released before the reply.
\<close>

definition req_dup_handle ::
    "env \<Rightarrow> server \<Rightarrow> nat option \<Rightarrow> nat option \<Rightarrow> u32 \<Rightarrow> u32 \<Rightarrow> u32 \<Rightarrow> u32 \<Rightarrow> (server \<times> u32) option" where
  "req_dup_handle E s src dst src_handle a attr options =
     (case src of
        None \<Rightarrow> Some (s, 0)
      | Some sp \<Rightarrow>
          (let to_global = (options AND DUPLICATE_MAKE_GLOBAL \<noteq> 0);
               res = (if to_global then duplicate_handle E s sp src_handle None a attr options
                      else case dst of
                             None \<Rightarrow> Some (s, 0, STATUS_INVALID_HANDLE)
                           | Some d \<Rightarrow> duplicate_handle E s sp src_handle (Some d) a attr options);
               dst' = (if to_global then None else dst)
           in case res of
                None \<Rightarrow> None
              | Some (s1, h, _) \<Rightarrow>
                  (if options AND DUPLICATE_CLOSE_SOURCE \<noteq> 0 \<and> (dst' \<noteq> Some sp \<or> src_handle \<noteq> h)
                   then map_option (\<lambda>(s2, _). (s2, h)) (close_handle E s1 sp src_handle)
                   else Some (s1, h))))"

text \<open>The reply's access, reference count and handle count.\<close>

definition req_get_object_info :: "server \<Rightarrow> u32 \<Rightarrow> (server \<times> u32 \<times> nat \<times> nat) result option" where
  "req_get_object_info s h =
     (case get_handle_obj s (cur_process s) h 0 None of
        Inl e \<Rightarrow> Some (Inl e)
      | Inr (s1, obj) \<Rightarrow>
          map_option (\<lambda>s2. Inr (s2, get_handle_access s1 (cur_process s) h, refcount (kobjs s1 obj),
                                handle_count (kobjs s1 obj)))
            (release_object s1 obj))"

definition req_set_object_permanence :: "server \<Rightarrow> u32 \<Rightarrow> bool \<Rightarrow> (server \<times> status) option" where
  "req_set_object_permanence s h permanent =
     (case get_handle_obj s (cur_process s) h (if permanent then 0 else DELETE_ACCESS) None of
        Inl e \<Rightarrow> Some (s, e)
      | Inr (s1, obj) \<Rightarrow>
          (let perm = is_permanent (kobjs s1 obj) in
           case (if permanent \<and> \<not> perm
                 then (let s2 = grab_object s1 obj
                       in Some (s2\<lparr>kobjs := (kobjs s2)(obj := (kobjs s2 obj)\<lparr>is_permanent := True\<rparr>)\<rparr>))
                 else if \<not> permanent \<and> perm
                 then release_object (s1\<lparr>kobjs := (kobjs s1)(obj := (kobjs s1 obj)\<lparr>is_permanent := False\<rparr>)\<rparr>) obj
                 else Some s1) of
             None \<Rightarrow> None
           | Some s3 \<Rightarrow> map_option (\<lambda>s4. (s4, STATUS_SUCCESS)) (release_object s3 obj)))"

definition req_compare_objects :: "server \<Rightarrow> u32 \<Rightarrow> u32 \<Rightarrow> (server \<times> status) option" where
  "req_compare_objects s h1 h2 =
     (case get_handle_obj s (cur_process s) h1 0 None of
        Inl e \<Rightarrow> Some (s, e)
      | Inr (s1, obj1) \<Rightarrow>
          (case get_handle_obj s1 (cur_process s) h2 0 None of
             Inl e \<Rightarrow> map_option (\<lambda>s'. (s', e)) (release_object s1 obj1)
           | Inr (s2, obj2) \<Rightarrow>
               (case release_object s2 obj2 of
                  None \<Rightarrow> None
                | Some s3 \<Rightarrow>
                    map_option (\<lambda>s4. (s4, if obj1 \<noteq> obj2 then STATUS_NOT_SAME_OBJECT else STATUS_SUCCESS))
                      (release_object s3 obj1))))"

record handle_info =
  owner :: nat
  handle :: u32
  haccess :: u32
  htype :: nat
  attributes :: u32

fun enum_entries :: "server \<Rightarrow> nat \<Rightarrow> nat \<Rightarrow> handle_entry list \<Rightarrow> handle_info list" where
  "enum_entries s p i [] = []"
| "enum_entries s p i (e # es) =
     (if eptr e = 0 then enum_entries s p (i + 1) es
      else \<lparr>owner = p, handle = index_to_handle i, haccess = access e AND NOT RESERVED_ALL,
            htype = ops (kobjs s (eptr e)),
            attributes = (if access e AND RESERVED_INHERIT \<noteq> 0 then OBJ_INHERIT else 0) OR
                         (if access e AND RESERVED_CLOSE_PROTECT \<noteq> 0 then OBJ_PROTECT_CLOSE else 0)\<rparr>
           # enum_entries s p (i + 1) es)"

definition enum_handles :: "server \<Rightarrow> nat \<Rightarrow> handle_info list" where
  "enum_handles s p =
     (case process_handles s p of None \<Rightarrow> [] | Some t \<Rightarrow> enum_entries s p 0 (used_entries t))"

text \<open>The count that is returned, and the records when the reply can hold them.\<close>

definition req_get_system_handles :: "server \<Rightarrow> nat \<Rightarrow> nat \<times> handle_info list result" where
  "req_get_system_handles s max_handles =
     (let all = concat (map (enum_handles s) [0..<length (ptables s)])
      in (length all, if max_handles < length all then Inl STATUS_BUFFER_TOO_SMALL else Inr all))"

end
