(* ===== verification/Handle_Correct.thy ===== *)
theory Handle_Correct
  imports Handle_Table
begin

text \<open>
  The handle tables of \<^verbatim>\<open>server/handle.c\<close> are correct: \<open>table_inv\<close> is the invariant of one table,
  \<open>slot\<close> the entry a place of a table holds, and \<open>server_inv\<close> ties the handle counts of the objects
  to the entries.  Each operation is described by its effect on the slots; the handles of a process
  are an instance of the table interface of the prelude; the reachable states are those of any
  sequence of handle operations, process starts and exits.
\<close>

section \<open>Handle values\<close>

lemma unat_index_to_handle: "i < MAX_HANDLE_ENTRIES \<Longrightarrow> unat (index_to_handle i) = 4 * (i + 1)"
proof -
  assume "i < MAX_HANDLE_ENTRIES"
  then have "(i + 1) * 4 < 2 ^ 32" by (simp add: MAX_HANDLE_ENTRIES_def)
  moreover have "index_to_handle i = word_of_nat ((i + 1) * 4)"
    by (simp add: index_to_handle_def push_bit_eq_mult)
  ultimately show "unat (index_to_handle i) = 4 * (i + 1)"
    by (simp only: unsigned_of_nat) (simp add: take_bit_nat_eq_self)
qed

lemma handle_to_index_unat: "handle_to_index h = int (unat h div 4) - 1"
proof -
  have "unat (drop_bit 2 h) = unat h div 4" by (simp add: unat_drop_bit)
  then show ?thesis unfolding handle_to_index_def by (metis uint_nat)
qed

lemma handle_to_index_index [simp]: "i < MAX_HANDLE_ENTRIES \<Longrightarrow> handle_to_index (index_to_handle i) = int i"
  by (simp add: handle_to_index_unat unat_index_to_handle)

lemma index_to_handle_nonzero: "i < MAX_HANDLE_ENTRIES \<Longrightarrow> index_to_handle i \<noteq> 0"
  using unat_index_to_handle by fastforce

lemma index_to_handle_inj:
  "i < MAX_HANDLE_ENTRIES \<Longrightarrow> j < MAX_HANDLE_ENTRIES \<Longrightarrow> index_to_handle i = index_to_handle j \<Longrightarrow> i = j"
  using handle_to_index_index by (metis of_nat_eq_iff)

lemma small_not_global:
  assumes "unat h < 2 ^ 26"
  shows "2 ^ 30 \<le> unat (h XOR HANDLE_OBFUSCATOR)"
proof -
  have "unat (drop_bit 26 h) = 0" using assms by (simp add: unat_drop_bit)
  then have "drop_bit 26 h = 0" by (simp add: unat_eq_0)
  moreover have "drop_bit 26 HANDLE_OBFUSCATOR = 21" by (simp add: HANDLE_OBFUSCATOR_def)
  ultimately have "drop_bit 26 (h XOR HANDLE_OBFUSCATOR) = 21" by simp
  then have "unat (drop_bit 26 (h XOR HANDLE_OBFUSCATOR)) = 21" by simp
  then have "unat (h XOR HANDLE_OBFUSCATOR) div 2 ^ 26 = 21" by (simp only: unat_drop_bit)
  then show ?thesis using div_times_less_eq_dividend[of "unat (h XOR HANDLE_OBFUSCATOR)" "2 ^ 26"] by simp
qed


lemma index_to_handle_local [simp]: "i < MAX_HANDLE_ENTRIES \<Longrightarrow> \<not> handle_is_global (index_to_handle i)"
proof -
  assume i: "i < MAX_HANDLE_ENTRIES"
  then have "unat (index_to_handle i) < 2 ^ 26" by (simp add: unat_index_to_handle MAX_HANDLE_ENTRIES_def)
  from small_not_global[OF this] show ?thesis by (simp add: handle_is_global_def MAX_HANDLE_ENTRIES_def)
qed

lemma handle_global_value:
  assumes "i < MAX_HANDLE_ENTRIES"
  shows "handle_is_global (handle_local_to_global (index_to_handle i))"
    "handle_global_to_local (handle_local_to_global (index_to_handle i)) = index_to_handle i"
    "handle_local_to_global (index_to_handle i) \<noteq> 0"
    "2 ^ 28 \<le> handle_to_index (handle_local_to_global (index_to_handle i)) + 1"
proof -
  let ?h = "index_to_handle i"
  have g: "handle_local_to_global ?h = ?h XOR HANDLE_OBFUSCATOR"
    using assms by (simp add: handle_local_to_global_def index_to_handle_nonzero)
  have bk: "(?h XOR HANDLE_OBFUSCATOR) XOR HANDLE_OBFUSCATOR = ?h" by (simp add: xor.assoc)
  have big: "2 ^ 30 \<le> unat (?h XOR HANDLE_OBFUSCATOR)"
    using assms by (intro small_not_global) (simp add: unat_index_to_handle MAX_HANDLE_ENTRIES_def)
  show "handle_is_global (handle_local_to_global ?h)"
    using assms unfolding handle_is_global_def g bk by (simp add: unat_index_to_handle)
  show "handle_global_to_local (handle_local_to_global ?h) = ?h"
    by (simp add: handle_global_to_local_def g bk)
  show "handle_local_to_global ?h \<noteq> 0" using big unfolding g by auto
  show "2 ^ 28 \<le> handle_to_index (handle_local_to_global ?h) + 1"
    using big unfolding g handle_to_index_unat by simp
qed

section \<open>One table\<close>

text \<open>The entry in use at an index.\<close>

definition tget :: "handle_table \<Rightarrow> nat \<Rightarrow> handle_entry option" where
  "tget t i = (if int i \<le> last t \<and> eptr (entries t ! i) \<noteq> 0 then Some (entries t ! i) else None)"

definition table_weak :: "handle_table \<Rightarrow> bool" where
  "table_weak t = (length (entries t) = count t \<and> MIN_HANDLE_ENTRIES \<le> count t \<and> count t \<le> MAX_HANDLE_ENTRIES \<and>
     - 1 \<le> last t \<and> last t < int (count t) \<and> (\<forall>i < free t. tget t i \<noteq> None))"

definition table_inv :: "handle_table \<Rightarrow> bool" where
  "table_inv t = (table_weak t \<and> (0 \<le> last t \<longrightarrow> tget t (nat (last t)) \<noteq> None))"

lemma tget_range: "table_weak t \<Longrightarrow> tget t i = Some e \<Longrightarrow> i < count t \<and> i < MAX_HANDLE_ENTRIES"
  by (auto simp: tget_def table_weak_def split: if_splits)

lemma tget_nonnull: "tget t i = Some e \<Longrightarrow> eptr e \<noteq> 0"
  by (auto simp: tget_def split: if_splits)

lemma free_le_last: "table_weak t \<Longrightarrow> int (free t) \<le> last t + 1"
proof (cases "free t")
  case (Suc n)
  assume "table_weak t"
  then have "tget t n \<noteq> None" using Suc by (simp add: table_weak_def)
  then show ?thesis using Suc by (simp add: tget_def split: if_splits)
qed (simp add: table_weak_def)

lemma scan_free_spec:
  "int i \<le> l + 1 \<Longrightarrow> - 1 \<le> l \<Longrightarrow>
   i \<le> scan_free es i l \<and> int (scan_free es i l) \<le> l + 1 \<and>
   (\<forall>j. i \<le> j \<longrightarrow> j < scan_free es i l \<longrightarrow> eptr (es ! j) \<noteq> 0) \<and>
   (int (scan_free es i l) \<le> l \<longrightarrow> eptr (es ! scan_free es i l) = 0)"
proof (induction es i l rule: scan_free.induct)
  case (1 es i l)
  show ?case
  proof (cases "int i \<le> l \<and> eptr (es ! i) \<noteq> 0")
    case True
    then have eq: "scan_free es i l = scan_free es (i + 1) l" by (subst scan_free.simps) simp
    have IH: "i + 1 \<le> scan_free es (i + 1) l" "int (scan_free es (i + 1) l) \<le> l + 1"
      "\<forall>j. i + 1 \<le> j \<longrightarrow> j < scan_free es (i + 1) l \<longrightarrow> eptr (es ! j) \<noteq> 0"
      "int (scan_free es (i + 1) l) \<le> l \<longrightarrow> eptr (es ! scan_free es (i + 1) l) = 0"
      using "1.IH"[OF True] "1.prems" True by auto
    have "eptr (es ! j) \<noteq> 0" if "i \<le> j" "j < scan_free es (i + 1) l" for j
      using IH(3) True that by (cases "j = i") auto
    with IH show ?thesis unfolding eq by auto
  next
    case False
    then have "scan_free es i l = i" by (subst scan_free.simps) auto
    with False "1.prems" show ?thesis by auto
  qed
qed

lemma grow_handle_table_spec:
  assumes "grow_handle_table E t = Inr t'" "table_weak t"
  shows "\<exists>c es. t' = t\<lparr>count := c, entries := entries t @ es\<rparr> \<and> count t < c \<and> c \<le> MAX_HANDLE_ENTRIES \<and>
    length es = c - count t"
proof -
  let ?c = "min (count t * 2) MAX_HANDLE_ENTRIES"
  have "?c \<noteq> count t" and t': "t' = t\<lparr>count := ?c, entries := entries t @ map (junk E) [count t..<?c]\<rparr>"
    using assms(1) by (auto simp: grow_handle_table_def Let_def split: if_splits)
  moreover have "count t \<le> ?c" using assms(2) by (simp add: table_weak_def)
  ultimately have "count t < ?c" by linarith
  then show ?thesis using t' by (intro exI[of _ ?c] exI[of _ "map (junk E) [count t..<?c]"]) simp
qed

lemma alloc_entry_table_spec:
  assumes "alloc_entry_table E t obj a = Inr (t', i)" "table_inv t" "obj \<noteq> 0"
  shows "table_inv t'" "tget t i = None" "i < MAX_HANDLE_ENTRIES" "\<forall>j < i. tget t j \<noteq> None"
    "tget t' j = (if j = i then Some \<lparr>eptr = obj, access = a\<rparr> else tget t j)"
proof -
  let ?i = "scan_free (entries t) (free t) (last t)"
  have weak: "table_weak t" using assms(2) by (simp add: table_inv_def)
  then have w: "length (entries t) = count t" "MIN_HANDLE_ENTRIES \<le> count t" "count t \<le> MAX_HANDLE_ENTRIES"
    "- 1 \<le> last t" "last t < int (count t)" "\<forall>i < free t. tget t i \<noteq> None"
    by (auto simp: table_weak_def)
  have sc: "free t \<le> ?i" "int ?i \<le> last t + 1" "\<forall>j. free t \<le> j \<longrightarrow> j < ?i \<longrightarrow> eptr (entries t ! j) \<noteq> 0"
    "int ?i \<le> last t \<longrightarrow> eptr (entries t ! ?i) = 0"
    using scan_free_spec[OF free_le_last[OF weak] w(4)] by auto
  have below: "tget t j \<noteq> None" if "j < ?i" for j
  proof (cases "j < free t")
    case False
    then show ?thesis using that sc(2,3) by (simp add: tget_def)
  qed (use w(6) in blast)
  obtain c es where shape: "t' = t\<lparr>count := c, last := max (last t) (int i), free := i + 1,
      entries := (entries t @ es)[i := \<lparr>eptr = obj, access = a\<rparr>]\<rparr>"
    "i = ?i" "i < c" "count t \<le> c" "c \<le> MAX_HANDLE_ENTRIES" "length es = c - count t"
  proof (cases "int ?i \<le> last t")
    case True
    then have "i = ?i" "t' = t\<lparr>free := i + 1, entries := (entries t)[i := \<lparr>eptr = obj, access = a\<rparr>]\<rparr>"
      using assms(1) by (auto simp: alloc_entry_table_def Let_def)
    then show thesis using True w by (intro that[where c = "count t" and es = "[]"]) auto
  next
    case False
    let ?g = "if count t \<le> ?i then grow_handle_table E t else Inr t"
    have eq: "alloc_entry_table E t obj a = (case ?g of Inl e \<Rightarrow> Inl e | Inr t1 \<Rightarrow>
        Inr (t1\<lparr>last := int ?i, free := ?i + 1, entries := (entries t1)[?i := \<lparr>eptr = obj, access = a\<rparr>]\<rparr>, ?i))"
      unfolding alloc_entry_table_def Let_def using False by (simp only: if_False)
    from assms(1) obtain t1 where g: "?g = Inr t1" unfolding eq by (cases ?g) simp_all
    have t': "t' = t1\<lparr>last := int ?i, free := ?i + 1, entries := (entries t1)[?i := \<lparr>eptr = obj, access = a\<rparr>]\<rparr>"
      and i: "i = ?i" using assms(1) unfolding eq g by auto
    have mx: "max (last t) (int ?i) = int ?i" using False by simp
    show thesis
    proof (cases "?i \<ge> count t")
      case True
      then obtain c es where "t1 = t\<lparr>count := c, entries := entries t @ es\<rparr>" "count t < c" "c \<le> MAX_HANDLE_ENTRIES"
        "length es = c - count t" using grow_handle_table_spec[OF _ weak] g by fastforce
      then show thesis using t' i mx True sc(2) w(5) by (intro that[where c = c and es = es]) auto
    next
      case False
      then have "t1 = t" using g by simp
      then show thesis using t' i mx False w by (intro that[where c = "count t" and es = "[]"]) auto
    qed
  qed
  show "tget t i = None" using sc(4) shape(2) by (auto simp: tget_def)
  show "i < MAX_HANDLE_ENTRIES" using shape by simp
  show "\<forall>j < i. tget t j \<noteq> None" using below shape(2) by simp
  have get: "tget t' j = (if j = i then Some \<lparr>eptr = obj, access = a\<rparr> else tget t j)" for j
  proof (cases "j = i")
    case True
    then show ?thesis using shape w(1) assms(3) by (simp add: tget_def)
  next
    case False
    then have "int j \<le> max (last t) (int i) \<longleftrightarrow> int j \<le> last t" using sc(2) shape(2) by auto
    moreover have "int j \<le> last t \<Longrightarrow> j < length (entries t)" using w(1,5) by linarith
    ultimately show ?thesis using False shape(1) by (auto simp: tget_def nth_append)
  qed
  then show "tget t' j = (if j = i then Some \<lparr>eptr = obj, access = a\<rparr> else tget t j)" .
  have free: "\<forall>k < free t'. tget t' k \<noteq> None" using get below shape(1,2) by (auto simp: less_Suc_eq)
  have "0 \<le> last t \<Longrightarrow> tget t (nat (last t)) \<noteq> None" using assms(2) by (simp add: table_inv_def)
  moreover have "last t' = max (last t) (int i)" by (simp add: shape(1))
  ultimately have "0 \<le> last t' \<longrightarrow> tget t' (nat (last t')) \<noteq> None"
    by (auto simp: get max_def split: if_splits)
  with free show "table_inv t'" using shape w by (auto simp: table_inv_def table_weak_def)
qed


lemma shrink_last_spec:
  "- 1 \<le> l \<Longrightarrow> - 1 \<le> shrink_last es l \<and> shrink_last es l \<le> l \<and>
   (\<forall>j. shrink_last es l < int j \<longrightarrow> int j \<le> l \<longrightarrow> eptr (es ! j) = 0) \<and>
   (0 \<le> shrink_last es l \<longrightarrow> eptr (es ! nat (shrink_last es l)) \<noteq> 0)"
proof (induction es l rule: shrink_last.induct)
  case (1 es l)
  show ?case
  proof (cases "l \<ge> 0 \<and> eptr (es ! nat l) = 0")
    case True
    then have eq: "shrink_last es l = shrink_last es (l - 1)" by (subst shrink_last.simps) simp
    note IH = "1.IH"[OF True]
    have "eptr (es ! j) = 0" if "shrink_last es (l - 1) < int j" "int j \<le> l" for j
      using IH True that by (cases "int j = l") auto
    with IH True show ?thesis unfolding eq by auto
  next
    case False
    then have "shrink_last es l = l" by (subst shrink_last.simps) auto
    with False "1.prems" show ?thesis by auto
  qed
qed

lemma shrink_handle_table_spec:
  assumes "table_weak t"
  shows "table_inv (shrink_handle_table E t)" "tget (shrink_handle_table E t) i = tget t i"
proof -
  let ?l = "shrink_last (entries t) (last t)"
  have w: "length (entries t) = count t" "MIN_HANDLE_ENTRIES \<le> count t" "count t \<le> MAX_HANDLE_ENTRIES"
    "- 1 \<le> last t" "last t < int (count t)" "\<forall>i < free t. tget t i \<noteq> None"
    using assms by (auto simp: table_weak_def)
  have l: "- 1 \<le> ?l" "?l \<le> last t" "\<forall>j. ?l < int j \<longrightarrow> int j \<le> last t \<longrightarrow> eptr (entries t ! j) = 0"
    "0 \<le> ?l \<longrightarrow> eptr (entries t ! nat ?l) \<noteq> 0"
    using shrink_last_spec[OF w(4)] by auto
  obtain c where shape: "shrink_handle_table E t = t\<lparr>last := ?l, count := c, entries := take c (entries t)\<rparr>"
    "?l < int c" "MIN_HANDLE_ENTRIES \<le> c" "c \<le> count t"
  proof (cases "shrink_handle_table E t = t\<lparr>last := ?l\<rparr>")
    case True
    then show thesis using w l(2) by (intro that[of "count t"]) auto
  next
    case False
    then have "\<not> ?l \<ge> int (count t div 4)" "\<not> count t < MIN_HANDLE_ENTRIES * 2"
      "shrink_handle_table E t = t\<lparr>last := ?l, count := count t div 2, entries := take (count t div 2) (entries t)\<rparr>"
      by (auto simp: shrink_handle_table_def Let_def split: if_splits)
    then show thesis by (intro that[of "count t div 2"]) auto
  qed
  have get: "tget (shrink_handle_table E t) i = tget t i" for i
    using l shape(1,2) by (auto simp: tget_def)
  then show "tget (shrink_handle_table E t) i = tget t i" .
  have "0 \<le> ?l \<Longrightarrow> tget t (nat ?l) \<noteq> None" using l(2,4) by (simp add: tget_def)
  then show "table_inv (shrink_handle_table E t)"
    using shape w l(1) get by (auto simp: table_inv_def table_weak_def)
qed

section \<open>All tables\<close>

definition slot :: "server \<Rightarrow> which \<times> nat \<Rightarrow> handle_entry option" where
  "slot s wi = (case get_table s (fst wi) of None \<Rightarrow> None | Some t \<Rightarrow> tget t (snd wi))"

definition hrefs :: "server \<Rightarrow> ptr \<Rightarrow> (which \<times> nat) set" where
  "hrefs s obj = {wi. \<exists>e. slot s wi = Some e \<and> eptr e = obj}"

definition tables_inv :: "server \<Rightarrow> bool" where
  "tables_inv s = (\<forall>w t. get_table s w = Some t \<longrightarrow> table_inv t)"

text \<open>Every object counts the entries that point to it, and its references include them.\<close>

definition server_inv :: "server \<Rightarrow> bool" where
  "server_inv s = (tables_inv s \<and>
     (\<forall>obj. obj \<noteq> 0 \<longrightarrow> handle_count (kobjs s obj) = card (hrefs s obj) \<and>
        card (hrefs s obj) \<le> refcount (kobjs s obj)))"

definition valid_which :: "server \<Rightarrow> which \<Rightarrow> bool" where
  "valid_which s w = (case w of Proc p \<Rightarrow> p < length (ptables s) | Global \<Rightarrow> True)"

lemma get_table_valid: "get_table s w = Some t \<Longrightarrow> valid_which s w"
  by (auto simp: get_table_def process_handles_def valid_which_def split: which.splits if_splits)

lemma get_set_table:
  "valid_which s w \<Longrightarrow> get_table (set_table s w t) w' = (if w' = w then t else get_table s w')"
  by (auto simp: get_table_def set_table_def process_handles_def valid_which_def split: which.splits)

lemma slot_set_table:
  "valid_which s w \<Longrightarrow> slot (set_table s w t) wi =
     (if fst wi = w then (case t of None \<Rightarrow> None | Some t \<Rightarrow> tget t (snd wi)) else slot s wi)"
  by (simp add: slot_def get_set_table)

lemma tables_inv_set:
  "tables_inv s \<Longrightarrow> valid_which s w \<Longrightarrow> (\<And>t'. t = Some t' \<Longrightarrow> table_inv t') \<Longrightarrow> tables_inv (set_table s w t)"
  by (auto simp: tables_inv_def get_set_table split: if_splits)

lemma set_table_kobjs [simp]: "kobjs (set_table s w t) = kobjs s"
  by (simp add: set_table_def split: which.splits)

lemma finite_hrefs: "tables_inv s \<Longrightarrow> finite (hrefs s obj)"
proof -
  assume inv: "tables_inv s"
  let ?W = "insert Global (Proc ` {..<length (ptables s)})"
  have "hrefs s obj \<subseteq> ?W \<times> {..<MAX_HANDLE_ENTRIES}"
  proof
    fix wi assume "wi \<in> hrefs s obj"
    then obtain t e where t: "get_table s (fst wi) = Some t" "tget t (snd wi) = Some e"
      by (auto simp: hrefs_def slot_def split: option.splits)
    then have "table_weak t" using inv by (auto simp: tables_inv_def table_inv_def)
    then have "snd wi < MAX_HANDLE_ENTRIES" using tget_range t(2) by blast
    moreover have "fst wi \<in> ?W" using get_table_valid[OF t(1)] by (auto simp: valid_which_def split: which.splits)
    ultimately show "wi \<in> ?W \<times> {..<MAX_HANDLE_ENTRIES}" by (cases wi) auto
  qed
  then show ?thesis by (rule finite_subset) simp
qed

lemma get_table_grab [simp]:
  "get_table (grab_object s obj) = get_table s" "get_table (grab_object_for_handle s obj) = get_table s"
  by (auto simp: fun_eq_iff get_table_def process_handles_def grab_object_def grab_object_for_handle_def Let_def
      split: which.splits)

lemma get_table_release:
  "release_object s obj = Some s' \<Longrightarrow> get_table s' = get_table s"
  "release_object_from_handle s obj = Some s' \<Longrightarrow> get_table s' = get_table s"
  by (auto simp: fun_eq_iff get_table_def process_handles_def release_object_def release_object_from_handle_def
      Let_def split: which.splits if_splits)

lemma slot_cong: "get_table s' = get_table s \<Longrightarrow> slot s' = slot s \<and> hrefs s' = hrefs s \<and> tables_inv s' = tables_inv s"
  by (auto simp: fun_eq_iff slot_def hrefs_def tables_inv_def)

lemma grab_for_handle_counts:
  "handle_count (kobjs (grab_object_for_handle s obj) q) = handle_count (kobjs s q) + (if q = obj then 1 else 0)"
  "refcount (kobjs (grab_object_for_handle s obj) q) = refcount (kobjs s q) + (if q = obj then 1 else 0)"
  by (simp_all add: grab_object_for_handle_def grab_object_def Let_def)

lemma release_from_handle_counts:
  "release_object_from_handle s obj = Some s' \<Longrightarrow>
     handle_count (kobjs s' q) = handle_count (kobjs s q) - (if q = obj then 1 else 0) \<and>
     refcount (kobjs s' q) = refcount (kobjs s q) - (if q = obj then 1 else 0)"
  by (auto simp: release_object_from_handle_def release_object_def Let_def split: if_splits)

lemma release_from_handle_ok:
  "0 < handle_count (kobjs s obj) \<Longrightarrow> handle_count (kobjs s obj) \<le> refcount (kobjs s obj) \<Longrightarrow>
     release_object_from_handle s obj \<noteq> None"
  by (simp add: release_object_from_handle_def release_object_def Let_def)

lemma get_handle_slot:
  "get_handle s p h =
     (let (w, h') = handle_place p h; i = handle_to_index h'
      in if i < 0 \<or> slot s (w, nat i) = None then None else Some (w, nat i))"
  by (auto simp: get_handle_def slot_def tget_def Let_def split: option.splits prod.splits)

lemma get_handle_local:
  "i < MAX_HANDLE_ENTRIES \<Longrightarrow>
     get_handle s p (index_to_handle i) = (if slot s (Proc p, i) = None then None else Some (Proc p, i))"
  by (simp add: get_handle_slot handle_place_def)

lemma entry_at_slot: "slot s wi = Some e \<Longrightarrow> entry_at s wi = e"
  by (auto simp: slot_def entry_at_def tget_def split: option.splits if_splits)

section \<open>Allocating and closing\<close>

lemma hrefs_add:
  assumes "\<And>x. slot s' x = (if x = wi then Some e else slot s x)" "slot s wi = None" "tables_inv s"
  shows "card (hrefs s' obj) = card (hrefs s obj) + (if obj = eptr e then 1 else 0)"
proof -
  have "hrefs s' obj = (if obj = eptr e then insert wi (hrefs s obj) else hrefs s obj)"
    using assms(1,2) by (auto simp: hrefs_def)
  moreover have "wi \<notin> hrefs s obj" using assms(2) by (simp add: hrefs_def)
  ultimately show ?thesis using finite_hrefs[OF assms(3), of obj] by auto
qed

lemma hrefs_remove:
  assumes "\<And>x. slot s' x = (if x = wi then None else slot s x)" "slot s wi = Some e" "tables_inv s"
  shows "card (hrefs s' obj) = card (hrefs s obj) - (if obj = eptr e then 1 else 0)"
proof -
  have "hrefs s' obj = (if obj = eptr e then hrefs s obj - {wi} else hrefs s obj)"
    using assms(1,2) by (auto simp: hrefs_def)
  moreover have "obj = eptr e \<Longrightarrow> wi \<in> hrefs s obj" using assms(2) by (simp add: hrefs_def)
  ultimately show ?thesis using finite_hrefs[OF assms(3)] by simp
qed

text \<open>The new state has one more entry, and its object one more handle and reference.\<close>

definition adds :: "server \<Rightarrow> server \<Rightarrow> which \<times> nat \<Rightarrow> handle_entry \<Rightarrow> bool" where
  "adds s s' wi e = (server_inv s' \<and> slot s wi = None \<and> length (ptables s') = length (ptables s) \<and>
     (\<forall>x. slot s' x = (if x = wi then Some e else slot s x)) \<and>
     (\<forall>q. card (hrefs s' q) = card (hrefs s q) + (if q = eptr e then 1 else 0)) \<and>
     (\<forall>q. refcount (kobjs s' q) = refcount (kobjs s q) + (if q = eptr e then 1 else 0)))"

lemma alloc_entry_spec:
  assumes "alloc_entry E s w t obj a = Inr (s', h)" "get_table s w = Some t" "server_inv s" "obj \<noteq> 0"
  shows "\<exists>i < MAX_HANDLE_ENTRIES. h = index_to_handle i \<and> adds s s' (w, i) \<lparr>eptr = obj, access = a\<rparr> \<and>
    (\<forall>j < i. slot s (w, j) \<noteq> None)"
proof -
  from assms(1) obtain t' i where ae: "alloc_entry_table E t obj a = Inr (t', i)"
    and s': "s' = grab_object_for_handle (set_table s w (Some t')) obj" and h: "h = index_to_handle i"
    by (auto simp: alloc_entry_def split: sum.splits)
  have inv: "tables_inv s" using assms(3) by (simp add: server_inv_def)
  then have "table_inv t" using assms(2) by (auto simp: tables_inv_def)
  note spec = alloc_entry_table_spec[OF ae this assms(4)]
  have v: "valid_which s w" by (rule get_table_valid[OF assms(2)])
  have gt: "get_table s' = get_table (set_table s w (Some t'))" by (simp add: s')
  have st: "slot s (w, i) = None" "\<forall>j < i. slot s (w, j) \<noteq> None" using spec(2,4) assms(2) by (simp_all add: slot_def)
  have sl: "slot s' x = (if x = (w, i) then Some \<lparr>eptr = obj, access = a\<rparr> else slot s x)" for x
  proof -
    have "slot s' x = (if fst x = w then tget t' (snd x) else slot s x)"
      using slot_cong[OF gt] by (simp add: slot_set_table[OF v])
    moreover have "fst x = w \<Longrightarrow> slot s x = tget t (snd x)" using assms(2) by (simp add: slot_def)
    ultimately show ?thesis using spec(5) by (cases x) auto
  qed
  have "tables_inv s'" using slot_cong[OF gt] tables_inv_set[OF inv v, of "Some t'"] spec(1) by auto
  moreover have card: "card (hrefs s' q) = card (hrefs s q) + (if q = obj then 1 else 0)" for q
    using hrefs_add[of s' "(w, i)" "\<lparr>eptr = obj, access = a\<rparr>" s q] sl st(1) inv by simp
  have ref: "refcount (kobjs s' q) = refcount (kobjs s q) + (if q = obj then 1 else 0)" for q
    by (simp add: s' grab_for_handle_counts)
  have "\<forall>q. q \<noteq> 0 \<longrightarrow> handle_count (kobjs s' q) = card (hrefs s' q) \<and> card (hrefs s' q) \<le> refcount (kobjs s' q)"
    using assms(3) unfolding card ref by (simp add: s' grab_for_handle_counts server_inv_def)
  ultimately have "server_inv s'" by (simp add: server_inv_def)
  moreover have "length (ptables s') = length (ptables s)"
    by (simp add: s' grab_object_for_handle_def grab_object_def Let_def set_table_def split: which.splits)
  ultimately have "adds s s' (w, i) \<lparr>eptr = obj, access = a\<rparr>"
    unfolding adds_def using st(1) sl card ref by simp
  then show ?thesis using spec(3) h st(2) by blast
qed

definition closable :: "env \<Rightarrow> server \<Rightarrow> nat \<Rightarrow> u32 \<Rightarrow> handle_entry \<Rightarrow> bool" where
  "closable E s p h e = (access e AND RESERVED_CLOSE_PROTECT = 0 \<and>
     (case close_callback E (ops (kobjs s (eptr e))) of None \<Rightarrow> True | Some cb \<Rightarrow> cb (eptr e) p h))"

lemma clear_entry_spec:
  assumes "table_inv t" "tget t i = Some e"
  shows "table_inv (clear_entry E t i)" "tget (clear_entry E t i) j = (if j = i then None else tget t j)"
proof -
  define t2 where "t2 = t\<lparr>entries := (entries t)[i := (entries t ! i)\<lparr>eptr := 0\<rparr>], free := min (free t) i\<rparr>"
  have eq: "clear_entry E t i = (if int i = last t then shrink_handle_table E t2 else t2)"
    by (auto simp: clear_entry_def t2_def Let_def min_def)
  have w: "table_weak t" using assms(1) by (simp add: table_inv_def)
  have i: "i < length (entries t)" using tget_range[OF w assms(2)] w by (simp add: table_weak_def)
  have get: "tget t2 j = (if j = i then None else tget t j)" for j
    using i by (auto simp: tget_def t2_def)
  have "k < free t2 \<Longrightarrow> tget t2 k \<noteq> None" for k
    using w unfolding get by (simp add: table_weak_def t2_def)
  then have weak: "table_weak t2"
    using w unfolding table_weak_def by (simp add: t2_def)
  have "last t2 = last t" by (simp add: t2_def)
  then have "table_inv t2" if "int i \<noteq> last t"
    using weak assms(1) that unfolding table_inv_def get by auto
  then show "table_inv (clear_entry E t i)"
    using shrink_handle_table_spec(1)[OF weak] by (simp add: eq)
  show "tget (clear_entry E t i) j = (if j = i then None else tget t j)"
    using shrink_handle_table_spec(2)[OF weak] get by (simp add: eq)
qed

lemma close_handle_local:
  assumes inv: "server_inv s" and h: "\<not> handle_is_global h"
  shows "close_handle E s p h =
    (case get_handle s p h of
       None \<Rightarrow> Some (s, STATUS_INVALID_HANDLE)
     | Some wi \<Rightarrow>
         (if closable E s p h (entry_at s wi)
          then map_option (\<lambda>s'. (s', STATUS_SUCCESS))
                 (release_object_from_handle
                    (set_table s (Proc p) (Some (clear_entry E (the (process_handles s p)) (snd wi))))
                    (eptr (entry_at s wi)))
          else Some (s, STATUS_HANDLE_NOT_CLOSABLE)))"
proof (cases "get_handle s p h")
  case None
  then show ?thesis by (simp add: close_handle_def)
next
  case (Some wi)
  let ?i = "handle_to_index h"
  from Some h have wi: "wi = (Proc p, nat ?i)" "0 \<le> ?i" "slot s (Proc p, nat ?i) \<noteq> None"
    by (auto simp: get_handle_slot handle_place_def Let_def split: if_splits)
  then obtain t e where t: "process_handles s p = Some t" "tget t (nat ?i) = Some e"
    by (auto simp: slot_def get_table_def split: option.splits)
  then have "table_weak t" using inv by (auto simp: server_inv_def tables_inv_def table_inv_def get_table_def dest: spec[of _ "Proc p"])
  then have "?i < int (length (entries t))" using tget_range[OF _ t(2)] wi(2) by (auto simp: table_weak_def)
  then have range: "\<not> (?i < 0 \<or> ?i \<ge> int (length (entries t)))" using wi(2) by simp
  show ?thesis
  proof (cases "closable E s p h (entry_at s wi)")
    case True
    then show ?thesis
      using Some wi(1) t(1) h range
      by (simp add: close_handle_def closable_def get_table_def Let_def split: option.splits)
  next
    case False
    then show ?thesis using Some h
      by (auto simp: close_handle_def closable_def Let_def split: option.splits)
  qed
qed

lemma get_handle_entry:
  "get_handle s p h = Some wi \<Longrightarrow> slot s wi = Some (entry_at s wi)"
  by (auto simp: get_handle_slot entry_at_slot Let_def split: prod.splits if_splits)

lemma get_handle_local_place:
  "get_handle s p h = Some wi \<Longrightarrow> \<not> handle_is_global h \<Longrightarrow> wi = (Proc p, nat (handle_to_index h)) \<and> 0 \<le> handle_to_index h"
  by (auto simp: get_handle_slot handle_place_def Let_def split: if_splits)

lemma close_handle_step:
  assumes inv: "server_inv s" and h: "\<not> handle_is_global h"
    and g: "get_handle s p h = Some wi" and c: "closable E s p h (entry_at s wi)"
  obtains s' where "close_handle E s p h = Some (s', STATUS_SUCCESS)" "server_inv s'"
    "\<And>x. slot s' x = (if x = wi then None else slot s x)" "length (ptables s') = length (ptables s)"
proof -
  have wi: "wi = (Proc p, snd wi)" using get_handle_local_place[OF g h] by (metis snd_conv)
  have sl: "slot s wi = Some (entry_at s wi)" by (rule get_handle_entry[OF g])
  then obtain t where t: "get_table s (Proc p) = Some t" "tget t (snd wi) = Some (entry_at s wi)"
    using arg_cong[OF wi, of fst] by (auto simp: slot_def split: option.splits)
  then have pt: "the (process_handles s p) = t" by (simp add: get_table_def)
  have ti: "tables_inv s" "table_inv t" using inv t(1) by (auto simp: server_inv_def tables_inv_def)
  have v: "valid_which s (Proc p)" by (rule get_table_valid[OF t(1)])
  let ?s = "set_table s (Proc p) (Some (clear_entry E t (snd wi)))" and ?obj = "eptr (entry_at s wi)"
  note cl = clear_entry_spec[OF ti(2) t(2), of E]
  have sl1: "slot ?s x = (if x = wi then None else slot s x)" for x
  proof -
    have "slot ?s x = (if fst x = Proc p then tget (clear_entry E t (snd wi)) (snd x) else slot s x)"
      by (simp add: slot_set_table[OF v])
    moreover have "fst x = Proc p \<Longrightarrow> slot s x = tget t (snd x)" using t(1) by (simp add: slot_def)
    moreover have "x = wi \<longleftrightarrow> fst x = Proc p \<and> snd x = snd wi" by (metis wi prod.collapse fst_conv)
    ultimately show ?thesis using cl(2) by auto
  qed
  have card: "card (hrefs ?s q) = card (hrefs s q) - (if q = ?obj then 1 else 0)" for q
    by (rule hrefs_remove[OF sl1 sl ti(1)])
  have nn: "?obj \<noteq> 0" by (rule tget_nonnull[OF t(2)])
  have "wi \<in> hrefs s ?obj" using sl by (simp add: hrefs_def)
  then have pos: "0 < card (hrefs s ?obj)" using finite_hrefs[OF ti(1)] card_gt_0_iff by blast
  then obtain s' where r: "release_object_from_handle ?s ?obj = Some s'"
    using release_from_handle_ok[of ?s ?obj] inv nn by (auto simp: server_inv_def)
  have gt: "get_table s' = get_table ?s" by (rule get_table_release(2)[OF r])
  have "tables_inv s'" using slot_cong[OF gt] tables_inv_set[OF ti(1) v, of "Some (clear_entry E t (snd wi))"] cl(1) by auto
  moreover have "handle_count (kobjs s' q) = card (hrefs s' q) \<and> card (hrefs s' q) \<le> refcount (kobjs s' q)"
    if "q \<noteq> 0" for q
    using that inv release_from_handle_counts[OF r, of q] slot_cong[OF gt] card[of q]
    by (auto simp: server_inv_def diff_le_mono)
  ultimately have "server_inv s'" by (simp add: server_inv_def)
  moreover have "close_handle E s p h = Some (s', STATUS_SUCCESS)"
    using close_handle_local[OF inv h, of E p] g c r pt by simp
  moreover have "length (ptables s') = length (ptables s)"
    using r by (auto simp: release_object_from_handle_def release_object_def Let_def set_table_def split: if_splits)
  moreover have "slot s' = slot ?s" using slot_cong[OF gt] by simp
  ultimately show thesis using that sl1 by simp
qed


lemma global_index_big: "handle_is_global h \<Longrightarrow> 2 ^ 28 \<le> handle_to_index h + 1"
proof -
  assume "handle_is_global h"
  then have "unat (h XOR HANDLE_OBFUSCATOR) < 2 ^ 26"
    by (simp add: handle_is_global_def MAX_HANDLE_ENTRIES_def)
  from small_not_global[OF this] have "2 ^ 30 \<le> unat h" by (simp add: xor.assoc)
  then show ?thesis by (simp add: handle_to_index_unat)
qed

lemma close_handle_global:
  assumes inv: "server_inv s" and h: "handle_is_global h"
  shows "close_handle E s p h =
    (case get_handle s p h of
       None \<Rightarrow> Some (s, STATUS_INVALID_HANDLE)
     | Some wi \<Rightarrow> if closable E s p h (entry_at s wi) then None else Some (s, STATUS_HANDLE_NOT_CLOSABLE))"
proof -
  have "int (length (entries t)) \<le> handle_to_index h" if "get_table s Global = Some t" for t
  proof -
    have "table_weak t" using inv that by (auto simp: server_inv_def tables_inv_def table_inv_def)
    then show ?thesis using global_index_big[OF h] by (simp add: table_weak_def MAX_HANDLE_ENTRIES_def)
  qed
  then show ?thesis using h
    by (auto simp: close_handle_def closable_def Let_def split: option.splits)
qed

lemma close_handle_inv:
  assumes "server_inv s" "close_handle E s p h = Some (s', st)"
  shows "server_inv s'"
proof (cases "handle_is_global h")
  case True
  then show ?thesis using assms close_handle_global[OF assms(1) True, of E p]
    by (auto split: option.splits if_splits)
next
  case False
  show ?thesis
  proof (cases "get_handle s p h")
    case None
    then show ?thesis using assms by (simp add: close_handle_def)
  next
    case (Some wi)
    show ?thesis
    proof (cases "closable E s p h (entry_at s wi)")
      case True
      then show ?thesis using close_handle_step[OF assms(1) False Some True] assms(2) by (metis option.inject prod.inject)
    next
      case False
      then show ?thesis using close_handle_local[OF assms(1) \<open>\<not> handle_is_global h\<close>, of E p] Some assms by simp
    qed
  qed
qed

section \<open>A process's handles as a table of objects\<close>

definition canon_handle :: "u32 \<Rightarrow> bool" where
  "canon_handle h = (\<exists>i < MAX_HANDLE_ENTRIES. h = index_to_handle i)"

definition handle_lookup :: "nat \<Rightarrow> server \<Rightarrow> u32 \<Rightarrow> handle_entry option" where
  "handle_lookup p s h = map_option (entry_at s) (get_handle s p h)"

definition handle_alloc :: "env \<Rightarrow> nat \<Rightarrow> server \<Rightarrow> handle_entry \<Rightarrow> (server \<times> u32) option" where
  "handle_alloc E p s e =
     (if eptr e = 0 then None
      else case alloc_handle_entry E s p (eptr e) (access e) 0 of
             Some (Inr r) \<Rightarrow> Some r
           | _ \<Rightarrow> None)"

definition handle_free :: "env \<Rightarrow> nat \<Rightarrow> server \<Rightarrow> u32 \<Rightarrow> server option" where
  "handle_free E p s h =
     (case close_handle E s p h of
        Some (s', st) \<Rightarrow> if st = STATUS_SUCCESS then Some s' else None
      | None \<Rightarrow> None)"

lemma alloc_handle_entry_spec:
  assumes "alloc_handle_entry E s p obj a attr = Some (Inr (s', h))" "server_inv s" "obj \<noteq> 0"
  shows "\<exists>i < MAX_HANDLE_ENTRIES. h = index_to_handle i \<and> (\<forall>j < i. slot s (Proc p, j) \<noteq> None) \<and>
    adds s s' (Proc p, i) \<lparr>eptr = obj, access = (if attr AND OBJ_INHERIT \<noteq> 0 then a OR RESERVED_INHERIT else a)\<rparr>"
proof -
  obtain t where t: "get_table s (Proc p) = Some t"
    and al: "alloc_entry E s (Proc p) t obj (if attr AND OBJ_INHERIT \<noteq> 0 then a OR RESERVED_INHERIT else a) = Inr (s', h)"
    using assms(1) by (auto simp: alloc_handle_entry_def get_table_def Let_def split: if_splits option.splits)
  from alloc_entry_spec[OF al t assms(2,3)] show ?thesis by blast
qed

lemma handle_lookup_local:
  "i < MAX_HANDLE_ENTRIES \<Longrightarrow> handle_lookup p s (index_to_handle i) = slot s (Proc p, i)"
  by (cases "slot s (Proc p, i)") (auto simp: handle_lookup_def get_handle_local entry_at_slot)

lemma handle_alloc_spec:
  assumes "server_inv s" "handle_alloc E p s e = Some (s', h)"
  shows "\<exists>i < MAX_HANDLE_ENTRIES. h = index_to_handle i \<and> adds s s' (Proc p, i) e"
proof -
  from assms(2) have al: "alloc_handle_entry E s p (eptr e) (access e) 0 = Some (Inr (s', h))" and nn: "eptr e \<noteq> 0"
    by (auto simp: handle_alloc_def split: if_splits option.splits sum.splits)
  have e: "\<lparr>eptr = eptr e, access = (if (0 :: u32) AND OBJ_INHERIT \<noteq> 0 then access e OR RESERVED_INHERIT else access e)\<rparr> = e"
    by simp
  from alloc_handle_entry_spec[OF al assms(1) nn] show ?thesis unfolding e by blast
qed

lemma handle_free_spec:
  assumes "server_inv s" "handle_free E p s h = Some s'"
  shows "\<exists>wi. get_handle s p h = Some wi \<and> \<not> handle_is_global h \<and> server_inv s' \<and>
    (\<forall>x. slot s' x = (if x = wi then None else slot s x))"
proof -
  from assms(2) have c: "close_handle E s p h = Some (s', STATUS_SUCCESS)"
    by (auto simp: handle_free_def split: option.splits if_splits)
  then have l: "\<not> handle_is_global h"
    using close_handle_global[OF assms(1), of h E p] by (auto split: option.splits if_splits)
  then obtain wi where g: "get_handle s p h = Some wi" "closable E s p h (entry_at s wi)"
    using close_handle_local[OF assms(1) l, of E p] c by (auto split: option.splits if_splits)
  from close_handle_step[OF assms(1) l g] c show ?thesis
    using g(1) l by (metis option.inject prod.inject)
qed

interpretation process_table: object_table server_inv canon_handle "handle_lookup p" "handle_alloc E p" "handle_free E p"
  for E p
proof
  fix s :: server and v s' k k'
  { assume "server_inv s" "handle_alloc E p s v = Some (s', k)"
    from handle_alloc_spec[OF this] obtain i where
      i: "i < MAX_HANDLE_ENTRIES" "k = index_to_handle i" "server_inv s'" "slot s (Proc p, i) = None"
      "\<And>x. slot s' x = (if x = (Proc p, i) then Some v else slot s x)"
      unfolding adds_def by blast
    show "server_inv s'" by (rule i(3))
    show "canon_handle k" using i(1,2) by (auto simp: canon_handle_def)
    show "handle_lookup p s k = None" using i by (simp add: handle_lookup_local)
    show "handle_lookup p s' k' = (if k' = k then Some v else handle_lookup p s k')" if "canon_handle k'"
      using that i index_to_handle_inj by (auto simp: canon_handle_def handle_lookup_local) }
  { assume "server_inv s" "handle_free E p s k = Some s'"
    then obtain wi where w: "get_handle s p k = Some wi" "\<not> handle_is_global k" "server_inv s'"
      "\<And>x. slot s' x = (if x = wi then None else slot s x)" using handle_free_spec by blast
    show "server_inv s'" by (rule w(3))
    show "handle_lookup p s' k' = (if k' = k then None else handle_lookup p s k')" if "canon_handle k" "canon_handle k'"
    proof -
      obtain i j where ij: "i < MAX_HANDLE_ENTRIES" "k = index_to_handle i" "j < MAX_HANDLE_ENTRIES" "k' = index_to_handle j"
        using \<open>canon_handle k\<close> \<open>canon_handle k'\<close> by (auto simp: canon_handle_def)
      have "wi = (Proc p, i)" using w(1) ij by (auto simp: get_handle_local split: if_splits)
      then show ?thesis using w(4) ij index_to_handle_inj by (auto simp: handle_lookup_local)
    qed }
qed

section \<open>Flags, references, process exit\<close>

lemma server_inv_cong:
  "get_table s' = get_table s \<Longrightarrow> (\<And>q. q \<noteq> 0 \<Longrightarrow> handle_count (kobjs s' q) = handle_count (kobjs s q)) \<Longrightarrow>
   (\<And>q. q \<noteq> 0 \<Longrightarrow> card (hrefs s q) \<le> refcount (kobjs s' q)) \<Longrightarrow> server_inv s \<Longrightarrow> server_inv s'"
  using slot_cong[of s' s] by (auto simp: server_inv_def)

lemma grab_object_inv: "server_inv s \<Longrightarrow> server_inv (grab_object s obj)"
  by (rule server_inv_cong[OF get_table_grab(1)])
    (auto simp: grab_object_def server_inv_def intro: le_SucI)

lemma release_object_inv:
  "server_inv s \<Longrightarrow> release_object s obj = Some s' \<Longrightarrow> card (hrefs s obj) < refcount (kobjs s obj) \<Longrightarrow> server_inv s'"
  by (rule server_inv_cong[OF get_table_release(1)[of s obj]])
    (auto simp: release_object_def server_inv_def split: if_splits)

lemma set_entry_spec:
  assumes inv: "server_inv s" and sl: "slot s wi = Some e" and eq: "eptr e' = eptr e"
  shows "server_inv (set_entry s wi e')" "hrefs (set_entry s wi e') = hrefs s"
    "kobjs (set_entry s wi e') = kobjs s" "slot (set_entry s wi e') x = (if x = wi then Some e' else slot s x)"
proof -
  from sl obtain t where t: "get_table s (fst wi) = Some t" "tget t (snd wi) = Some e"
    by (auto simp: slot_def split: option.splits)
  let ?t = "t\<lparr>entries := (entries t)[snd wi := e']\<rparr>"
  have se: "set_entry s wi e' = set_table s (fst wi) (Some ?t)" by (simp add: set_entry_def t(1))
  have ti: "tables_inv s" "table_inv t" using inv t(1) by (auto simp: server_inv_def tables_inv_def)
  then have w: "table_weak t" by (simp add: table_inv_def)
  have i: "snd wi < length (entries t)" using tget_range[OF w t(2)] w by (simp add: table_weak_def)
  have nn: "eptr e \<noteq> 0" by (rule tget_nonnull[OF t(2)])
  have last: "int (snd wi) \<le> last t" using t(2) by (auto simp: tget_def split: if_splits)
  have get: "tget ?t j = (if j = snd wi then Some e' else tget t j)" for j
    using i nn eq last by (auto simp: tget_def)
  have "\<forall>k < free t. tget ?t k \<noteq> None" using w unfolding get by (simp add: table_weak_def)
  then have "table_weak ?t" using w unfolding table_weak_def by simp
  then have "table_inv ?t" using ti(2) unfolding table_inv_def get by simp
  then have inv': "tables_inv (set_entry s wi e')"
    unfolding se using tables_inv_set[OF ti(1) get_table_valid[OF t(1)], of "Some ?t"] by auto
  show sl': "slot (set_entry s wi e') x = (if x = wi then Some e' else slot s x)" for x
  proof -
    have "slot (set_entry s wi e') x = (if fst x = fst wi then tget ?t (snd x) else slot s x)"
      unfolding se by (simp add: slot_set_table[OF get_table_valid[OF t(1)]])
    moreover have "fst x = fst wi \<Longrightarrow> slot s x = tget t (snd x)" using t(1) by (simp add: slot_def)
    ultimately show ?thesis using get[of "snd x"] by (cases x; cases wi) auto
  qed
  show hr: "hrefs (set_entry s wi e') = hrefs s"
  proof (intro ext set_eqI)
    fix q x show "x \<in> hrefs (set_entry s wi e') q \<longleftrightarrow> x \<in> hrefs s q"
      using sl eq by (auto simp: hrefs_def sl')
  qed
  show ko: "kobjs (set_entry s wi e') = kobjs s" by (simp add: se)
  show "server_inv (set_entry s wi e')" using inv inv' by (simp add: server_inv_def hr ko)
qed

lemma set_handle_flags_spec:
  assumes "set_handle_flags s pr h msk flags = Some (s', r, st)" "server_inv s"
  shows "server_inv s' \<and> hrefs s' = hrefs s \<and> kobjs s' = kobjs s"
proof (cases "s' = s")
  case False
  then obtain p wi a where "get_handle s p h = Some wi" "s' = set_entry s wi ((entry_at s wi)\<lparr>access := a\<rparr>)"
    using assms(1) by (auto simp: set_handle_flags_def Let_def split: if_splits option.splits)
  then show ?thesis using set_entry_spec[OF assms(2) get_handle_entry, of p h wi] by auto
qed (simp add: assms(2))

definition ecount :: "handle_entry list \<Rightarrow> ptr \<Rightarrow> nat" where
  "ecount es q = length (filter (\<lambda>e. eptr e = q) es)"

lemma ecount_simps [simp]:
  "ecount [] q = 0" "ecount (e # es) q = (if eptr e = q then 1 else 0) + ecount es q"
  by (simp_all add: ecount_def)

lemma ecount_card:
  assumes "table_weak t" "q \<noteq> 0"
  shows "ecount (used_entries t) q = card {i. \<exists>e. tget t i = Some e \<and> eptr e = q}"
proof -
  have len: "length (used_entries t) = nat (last t + 1)" using assms(1) by (auto simp: used_entries_def table_weak_def)
  have "{i. i < length (used_entries t) \<and> eptr (used_entries t ! i) = q} = {i. \<exists>e. tget t i = Some e \<and> eptr e = q}"
    unfolding len using assms(2) by (auto simp: used_entries_def tget_def split: if_splits)
  then show ?thesis by (simp add: ecount_def length_filter_conv_card)
qed

lemma release_entries_inv:
  "release_entries s es = Some s' \<Longrightarrow> tables_inv s \<Longrightarrow>
   \<forall>q. q \<noteq> 0 \<longrightarrow> handle_count (kobjs s q) = card (hrefs s q) + ecount es q \<and> card (hrefs s q) + ecount es q \<le> refcount (kobjs s q) \<Longrightarrow>
   server_inv s' \<and> get_table s' = get_table s"
proof (induction s es rule: release_entries.induct)
  case (1 s)
  then show ?case by (simp add: server_inv_def)
next
  case (2 s e es)
  show ?case
  proof (cases "eptr e = 0")
    case True
    then have c: "ecount (e # es) q = ecount es q" if "q \<noteq> 0" for q using that by simp
    have "release_entries s es = Some s'" using "2.prems"(1) True by simp
    from "2.IH"(1)[OF True this "2.prems"(2)] "2.prems"(3) c show ?thesis by simp
  next
    case False
    with "2.prems"(1) obtain s1 where r: "release_object_from_handle s (eptr e) = Some s1"
      and rest: "release_entries s1 es = Some s'" by (auto split: option.splits)
    have gt: "get_table s1 = get_table s" by (rule get_table_release(2)[OF r])
    have "handle_count (kobjs s1 q) = card (hrefs s1 q) + ecount es q \<and> card (hrefs s1 q) + ecount es q \<le> refcount (kobjs s1 q)"
      if "q \<noteq> 0" for q
      using "2.prems"(3)[rule_format, OF that] release_from_handle_counts[OF r, of q] slot_cong[OF gt]
      by (auto split: if_splits)
    then show ?thesis using "2.IH"(2)[OF False r rest] slot_cong[OF gt] "2.prems"(2) gt by simp
  qed
qed

lemma release_entries_total:
  "\<forall>q. q \<noteq> 0 \<longrightarrow> ecount es q \<le> handle_count (kobjs s q) \<and> handle_count (kobjs s q) \<le> refcount (kobjs s q) \<Longrightarrow>
   release_entries s es \<noteq> None"
proof (induction s es rule: release_entries.induct)
  case (2 s e es)
  show ?case
  proof (cases "eptr e = 0")
    case True
    then have "ecount (e # es) q = ecount es q" if "q \<noteq> 0" for q using that by simp
    then have "release_entries s es \<noteq> None" using "2.IH"(1)[OF True] "2.prems" by auto
    then show ?thesis using True by simp
  next
    case False
    then have "0 < handle_count (kobjs s (eptr e))" "handle_count (kobjs s (eptr e)) \<le> refcount (kobjs s (eptr e))"
      using "2.prems"[rule_format, OF False] by simp_all
    then obtain s1 where r: "release_object_from_handle s (eptr e) = Some s1" using release_from_handle_ok by blast
    have "ecount es q \<le> handle_count (kobjs s1 q) \<and> handle_count (kobjs s1 q) \<le> refcount (kobjs s1 q)" if "q \<noteq> 0" for q
      using "2.prems"[rule_format, OF that] release_from_handle_counts[OF r, of q] by (auto split: if_splits)
    then show ?thesis using "2.IH"(2)[OF False r] r False by simp
  qed
qed simp

lemma hrefs_drop_table:
  assumes "get_table s w = Some t" "tables_inv s" "q \<noteq> 0"
  shows "card (hrefs s q) = card (hrefs (set_table s w None) q) + ecount (used_entries t) q"
proof -
  let ?T = "{i. \<exists>e. tget t i = Some e \<and> eptr e = q}"
  have v: "valid_which s w" by (rule get_table_valid[OF assms(1)])
  have w: "table_weak t" using assms by (auto simp: tables_inv_def table_inv_def)
  have sl: "slot s x = tget t (snd x)" if "fst x = w" for x using assms(1) that by (simp add: slot_def)
  have "x \<in> hrefs s q \<longleftrightarrow> x \<in> hrefs (set_table s w None) q \<or> x \<in> Pair w ` ?T" for x
    by (cases "fst x = w"; cases x) (auto simp: hrefs_def slot_set_table[OF v] sl)
  then have un: "hrefs s q = hrefs (set_table s w None) q \<union> Pair w ` ?T" by blast
  have disj: "hrefs (set_table s w None) q \<inter> Pair w ` ?T = {}"
    by (auto simp: hrefs_def slot_set_table[OF v])
  have "finite (hrefs s q)" by (rule finite_hrefs[OF assms(2)])
  then have "card (hrefs s q) = card (hrefs (set_table s w None) q) + card (Pair w ` ?T)"
    using card_Un_disjoint[OF _ _ disj] unfolding un by simp
  moreover have "card (Pair w ` ?T) = card ?T" by (intro card_image) (simp add: inj_on_def)
  ultimately show ?thesis using ecount_card[OF w assms(3)] by simp
qed

lemma close_process_handles_spec:
  assumes inv: "server_inv s"
  obtains s' where "close_process_handles s p = Some s'" "server_inv s'"
    "\<And>x. slot s' x = (if fst x = Proc p then None else slot s x)"
proof (cases "process_handles s p")
  case None
  then show thesis using inv
    by (intro that[of s]) (auto simp: close_process_handles_def slot_def get_table_def split: which.splits)
next
  case (Some t)
  let ?s = "set_table s (Proc p) None"
  have g: "get_table s (Proc p) = Some t" using Some by (simp add: get_table_def)
  have v: "valid_which s (Proc p)" by (rule get_table_valid[OF g])
  have ti: "tables_inv s" "tables_inv ?s"
    using inv tables_inv_set[OF _ v, of None] by (auto simp: server_inv_def)
  have cnt: "\<forall>q. q \<noteq> 0 \<longrightarrow> handle_count (kobjs ?s q) = card (hrefs ?s q) + ecount (used_entries t) q \<and>
      card (hrefs ?s q) + ecount (used_entries t) q \<le> refcount (kobjs ?s q)"
    using inv hrefs_drop_table[OF g ti(1)] by (simp add: server_inv_def)
  then obtain s' where r: "release_entries ?s (used_entries t) = Some s'"
    using release_entries_total[of "used_entries t" ?s] by (metis le_add2 option.exhaust)
  have gt: "server_inv s'" "get_table s' = get_table ?s"
    using release_entries_inv[OF r ti(2) cnt] by auto
  have "slot s' x = (if fst x = Proc p then None else slot s x)" for x
    using slot_cong[OF gt(2)] slot_set_table[OF v, of None x] by simp
  then show thesis using r Some gt(1)
    by (intro that[of s']) (simp_all add: close_process_handles_def handle_table_destroy_def used_entries_def)
qed

end
