(* ===== verification/Handle_Properties.thy ===== *)
theory Handle_Properties
  imports Handle_Correct
begin

text \<open>
  Inheritance, global handles and duplication of \<^verbatim>\<open>server/handle.c\<close>, the reachable states of the
  handle tables, and the properties that follow.
\<close>

section \<open>Inheriting a table\<close>

definition inheritable :: "handle_entry \<Rightarrow> bool" where
  "inheritable e = (access e AND RESERVED_INHERIT \<noteq> 0)"

lemma inherit_all_spec:
  "inherit_all s es = (s', es') \<Longrightarrow>
   es' = map (\<lambda>e. if eptr e \<noteq> 0 \<and> \<not> inheritable e then e\<lparr>eptr := 0\<rparr> else e) es \<and> get_table s' = get_table s \<and>
   ptables s' = ptables s \<and>
   (\<forall>q. q \<noteq> 0 \<longrightarrow> handle_count (kobjs s' q) = handle_count (kobjs s q) + ecount es' q \<and>
              refcount (kobjs s' q) = refcount (kobjs s q) + ecount es' q)"
proof (induction s es arbitrary: s' es' rule: inherit_all.induct)
  case (1 s)
  then show ?case by simp
next
  case (2 s e es)
  consider (null) "eptr e = 0" | (keep) "eptr e \<noteq> 0" "access e AND RESERVED_INHERIT \<noteq> 0"
    | (skip) "eptr e \<noteq> 0" "\<not> access e AND RESERVED_INHERIT \<noteq> 0" by blast
  then show ?case
  proof cases
    case null
    obtain s1 es1 where r: "inherit_all s es = (s1, es1)" by fastforce
    then have "s' = s1" "es' = e # es1" using "2.prems" null by auto
    then show ?thesis using "2.IH"(1)[OF null r] null by (simp add: inheritable_def)
  next
    case keep
    obtain s1 es1 where r: "inherit_all (grab_object_for_handle s (eptr e)) es = (s1, es1)" by fastforce
    then have "s' = s1" "es' = e # es1" using "2.prems" keep by auto
    moreover have "ptables (grab_object_for_handle s (eptr e)) = ptables s"
      by (simp add: grab_object_for_handle_def grab_object_def Let_def)
    ultimately show ?thesis using "2.IH"(2)[OF keep r] keep
      by (simp add: inheritable_def grab_for_handle_counts)
  next
    case skip
    obtain s1 es1 where r: "inherit_all s es = (s1, es1)" by fastforce
    then have "s' = s1" "es' = e\<lparr>eptr := 0\<rparr> # es1" using "2.prems" skip by auto
    then show ?thesis using "2.IH"(3)[OF skip r] skip by (simp add: inheritable_def)
  qed
qed

lemma alloc_handle_table_spec:
  assumes "alloc_handle_table E n = Inr t" "n \<le> MAX_HANDLE_ENTRIES"
  shows "table_inv t \<and> count t = max n MIN_HANDLE_ENTRIES \<and> last t = - 1 \<and> free t = 0 \<and> tget t i = None"
  using assms
  by (auto simp: alloc_handle_table_def table_inv_def table_weak_def tget_def Let_def MIN_HANDLE_ENTRIES_def
      MAX_HANDLE_ENTRIES_def split: if_splits)

definition inherited :: "handle_entry option \<Rightarrow> handle_entry option" where
  "inherited o1 = (case o1 of None \<Rightarrow> None | Some e \<Rightarrow> if inheritable e then Some e else None)"

lemma copy_handle_table_spec:
  assumes inv: "server_inv s" and cp: "copy_handle_table E s parent None std = Some (Inr (s', t))"
  shows "table_inv t" "tget t i = inherited (slot s (Proc parent, i))"
    "get_table s' = get_table s" "ptables s' = ptables s"
    "q \<noteq> 0 \<Longrightarrow> handle_count (kobjs s' q) = handle_count (kobjs s q) + card {i. \<exists>e. tget t i = Some e \<and> eptr e = q} \<and>
       refcount (kobjs s' q) = refcount (kobjs s q) + card {i. \<exists>e. tget t i = Some e \<and> eptr e = q}"
proof -
  from cp obtain pt t0 where pt: "process_handles s parent = Some pt" and t0: "alloc_handle_table E (count pt) = Inr t0"
    by (auto simp: copy_handle_table_def split: option.splits sum.splits)
  have gp: "get_table s (Proc parent) = Some pt" using pt by (simp add: get_table_def)
  then have "table_weak pt" using inv by (auto simp: server_inv_def tables_inv_def table_inv_def)
  then have w: "length (entries pt) = count pt" "MIN_HANDLE_ENTRIES \<le> count pt" "count pt \<le> MAX_HANDLE_ENTRIES"
    "- 1 \<le> last pt" "last pt < int (count pt)" by (auto simp: table_weak_def)
  note t0s = alloc_handle_table_spec[OF t0 w(3)]
  let ?n = "nat (last pt + 1)"
  obtain s1 es1 where ia: "inherit_all s (take ?n (entries pt)) = (s1, es1)" by fastforce
  note ih = inherit_all_spec[OF ia]
  let ?t1 = "t0\<lparr>last := last pt, entries := es1 @ drop ?n (entries t0)\<rparr>"
  have "s' = s1 \<and> t = shrink_handle_table E ?t1"
  proof (cases "0 \<le> last pt")
    case True
    then show ?thesis using cp pt t0 ia by (simp add: copy_handle_table_def)
  next
    case False
    then have "last pt = - 1" using w(4) by simp
    moreover from this have "s1 = s" "es1 = []" using ia by simp_all
    ultimately have t1: "?t1 = t0" using t0s by (cases t0) simp
    show ?thesis unfolding t1 using cp pt t0 False \<open>s1 = s\<close> by (simp add: copy_handle_table_def)
  qed
  then have s': "s' = s1" and t: "t = shrink_handle_table E ?t1" by auto
  have len: "length es1 = ?n" "length (entries t0) = count pt"
    using ih w t0s by (auto simp: table_inv_def table_weak_def)
  have get: "tget ?t1 i = inherited (slot s (Proc parent, i))" for i
    using ih gp len w by (auto simp: tget_def inherited_def slot_def nth_append split: if_splits)
  have weak: "table_weak ?t1" using w len t0s by (auto simp: table_weak_def)
  show "table_inv t" and ti: "tget t i = inherited (slot s (Proc parent, i))" for i
    using shrink_handle_table_spec[OF weak] get by (simp_all add: t)
  show "get_table s' = get_table s" "ptables s' = ptables s" using ih by (simp_all add: s')
  have "used_entries ?t1 = es1" using len by (simp add: used_entries_def)
  then have "ecount es1 q = card {i. \<exists>e. tget t i = Some e \<and> eptr e = q}" if "q \<noteq> 0" for q
    using ecount_card[OF weak that] ti get by simp
  then show "q \<noteq> 0 \<Longrightarrow> handle_count (kobjs s' q) = handle_count (kobjs s q) + card {i. \<exists>e. tget t i = Some e \<and> eptr e = q} \<and>
       refcount (kobjs s' q) = refcount (kobjs s q) + card {i. \<exists>e. tget t i = Some e \<and> eptr e = q}"
    using ih by (simp add: s')
qed

text \<open>The new process with its table.\<close>

definition add_process :: "server \<Rightarrow> handle_table \<Rightarrow> server" where
  "add_process s t = s\<lparr>ptables := ptables s @ [Some t]\<rparr>"

lemma get_table_add_process:
  "get_table (add_process s t) w = (if w = Proc (length (ptables s)) then Some t else get_table s w)"
  by (auto simp: get_table_def add_process_def process_handles_def nth_append split: which.splits)

lemma add_process_inv:
  assumes inv: "server_inv s" and cp: "copy_handle_table E s parent None std = Some (Inr (s', t))"
  shows "server_inv (add_process s' t)"
proof -
  note c = copy_handle_table_spec[OF inv cp]
  let ?s = "add_process s' t" and ?n = "length (ptables s)"
  have ti: "tables_inv s" using inv by (simp add: server_inv_def)
  have gt: "get_table ?s w = (if w = Proc ?n then Some t else get_table s w)" for w
    using c(3,4) by (simp add: get_table_add_process)
  have none: "get_table s (Proc ?n) = None" by (simp add: get_table_def process_handles_def)
  have inv': "tables_inv ?s" using ti c(1) by (auto simp: tables_inv_def gt)
  have drop: "hrefs (set_table ?s (Proc ?n) None) q = hrefs s q" for q
  proof -
    have "valid_which ?s (Proc ?n)" by (rule get_table_valid[of _ _ t]) (simp add: gt)
    then have "slot (set_table ?s (Proc ?n) None) x = slot s x" for x
      using none by (simp add: slot_set_table) (simp add: slot_def gt)
    then show ?thesis by (simp add: hrefs_def)
  qed
  have g: "get_table ?s (Proc ?n) = Some t" by (simp add: gt)
  have "card (hrefs ?s q) = card (hrefs s q) + card {i. \<exists>e. tget t i = Some e \<and> eptr e = q}" if "q \<noteq> 0" for q
    using hrefs_drop_table[OF g inv' that] drop ecount_card[OF _ that, of t] c(1) by (simp add: table_inv_def)
  moreover have "kobjs ?s = kobjs s'" by (simp add: add_process_def)
  ultimately show ?thesis using inv inv' c(5) by (simp add: server_inv_def)
qed

section \<open>Global handles\<close>

lemma alloc_global_spec:
  assumes "alloc_global_handle_no_access_check E s obj a = Inr (s', h)" "server_inv s" "obj \<noteq> 0"
  shows "\<exists>i < MAX_HANDLE_ENTRIES. h = handle_local_to_global (index_to_handle i) \<and>
    adds s s' (Global, i) \<lparr>eptr = obj, access = a\<rparr>"
proof -
  obtain t h0 where t: "(case global_table s of Some t \<Rightarrow> Inr t | None \<Rightarrow> alloc_handle_table E 0) = Inr t"
    and al: "alloc_entry E (s\<lparr>global_table := Some t\<rparr>) Global t obj a = Inr (s', h0)" and h: "h = handle_local_to_global h0"
    using assms(1) by (auto simp: alloc_global_handle_no_access_check_def split: sum.splits)
  let ?s = "s\<lparr>global_table := Some t\<rparr>"
  have ti: "tables_inv s" using assms(2) by (simp add: server_inv_def)
  have gt: "get_table ?s w = (if w = Global then Some t else get_table s w)" for w
    by (simp add: get_table_def process_handles_def split: which.splits)
  have t': "table_inv t \<and> (case get_table s Global of None \<Rightarrow> None | Some t \<Rightarrow> tget t i) = tget t i" for i
    using t ti alloc_handle_table_spec[of E 0 t]
    by (auto simp: get_table_def tables_inv_def split: option.splits dest: spec[of _ Global])
  have sl: "slot ?s = slot s" using t' by (auto simp: fun_eq_iff slot_def gt)
  have "tables_inv ?s" using ti t' by (auto simp: tables_inv_def gt)
  moreover have hr: "hrefs ?s = hrefs s" by (simp add: fun_eq_iff hrefs_def sl)
  ultimately have inv: "server_inv ?s" using assms(2) by (simp add: server_inv_def)
  from alloc_entry_spec[OF al _ inv assms(3)] obtain i where
    "i < MAX_HANDLE_ENTRIES" "h0 = index_to_handle i" "adds ?s s' (Global, i) \<lparr>eptr = obj, access = a\<rparr>"
    by (auto simp: gt)
  then show ?thesis using h sl hr by (auto simp: adds_def)
qed

section \<open>Duplication\<close>

lemma get_handle_obj_spec:
  assumes "get_handle_obj s p h acc o1 = Inr (s', obj)" "server_inv s"
  shows "s' = grab_object s obj \<and> obj \<noteq> 0 \<and> server_inv s' \<and> card (hrefs s' obj) < refcount (kobjs s' obj)"
proof -
  have s': "s' = grab_object s obj" and nz: "obj \<noteq> 0"
    using assms(1) get_handle_entry[of s p h]
    by (auto simp: get_handle_obj_def Let_def slot_def split: if_splits option.splits dest: tget_nonnull)
  have "card (hrefs s obj) \<le> refcount (kobjs s obj)" using assms(2) nz by (simp add: server_inv_def)
  then have "card (hrefs s' obj) < refcount (kobjs s' obj)"
    using slot_cong[of s' s] by (simp add: s') (simp add: grab_object_def)
  then show ?thesis using s' nz grab_object_inv[OF assms(2)] by simp
qed

definition held :: "server \<Rightarrow> ptr \<Rightarrow> bool" where
  "held s obj = (server_inv s \<and> obj \<noteq> 0 \<and> card (hrefs s obj) < refcount (kobjs s obj))"

lemma adds_held: "adds s s' wi e \<Longrightarrow> held s obj \<Longrightarrow> held s' obj"
  unfolding adds_def held_def by (metis add_less_mono1)

lemma duplicate_alloc_held:
  assumes "duplicate_alloc E s src sh dst obj entry sa a attr opts = Some (Inr (s', res))" "held s obj"
    and "entry = get_handle s src sh"
  shows "held s' obj"
proof -
  have inv: "server_inv s" "obj \<noteq> 0" using assms(2) by (auto simp: held_def)
  have e1: "held s1 obj" if "alloc_handle_entry E s d obj b at = Some (Inr (s1, r))" for s1 d b at r
    using alloc_handle_entry_spec[OF that inv] adds_held assms(2) by blast
  have e2: "held s1 obj" if "alloc_handle_no_access_check E s d obj b at = Some (Inr (s1, r))" for s1 d b at r
    using that e1 unfolding alloc_handle_no_access_check_def Let_def by blast
  have e3: "held s1 obj" if "alloc_global_handle_no_access_check E s obj b = Inr (s1, r)" for s1 b r
    using alloc_global_spec[OF that inv] adds_held assms(2) by blast
  have e4: "held s1 obj" if "alloc_global_handle E s obj b = Inr (s1, r)" for s1 b r
    using that e3 by (auto simp: alloc_global_handle_def split: if_splits option.splits)
  have e5: "held (set_entry s wi ((entry_at s wi)\<lparr>access := b\<rparr>)) obj" if "entry = Some wi" for wi b
    using set_entry_spec[OF inv(1) get_handle_entry[of s src sh wi], of "(entry_at s wi)\<lparr>access := b\<rparr>"]
      that assms(2,3) by (simp add: held_def)
  show ?thesis
    using assms(1) e1 e2 e3 e4 e5
    by (auto simp: duplicate_alloc_def split: if_splits option.splits sum.splits)
qed

lemma duplicate_finish_Some:
  assumes "duplicate_finish s dst obj res opts fl = Some (s', res', st)"
  shows "res' = res \<and> (\<exists>s3. release_object s3 obj = Some s' \<and>
    (s3 = s \<or> (\<exists>r3. set_handle_flags s dst res (NOT 0) fl = Some (s3, r3, st))))"
proof -
  obtain s3 r3 st3 where f: "(if res \<noteq> 0 \<and> opts AND DUPLICATE_SAME_ATTRIBUTES \<noteq> 0
      then set_handle_flags s dst res (NOT 0) fl else Some (s, 0, STATUS_SUCCESS)) = Some (s3, r3, st3)"
    using assms by (cases "if res \<noteq> 0 \<and> opts AND DUPLICATE_SAME_ATTRIBUTES \<noteq> 0
      then set_handle_flags s dst res (NOT 0) fl else Some (s, 0, STATUS_SUCCESS)")
      (auto simp: duplicate_finish_def simp del: if_split)
  then have "map_option (\<lambda>s2. (s2, res, st3)) (release_object s3 obj) = Some (s', res', st)"
    using assms by (simp add: duplicate_finish_def del: if_split)
  then have "release_object s3 obj = Some s'" "res' = res" "st3 = st" by auto
  moreover have "s3 = s \<or> set_handle_flags s dst res (NOT 0) fl = Some (s3, r3, st3)"
    using f by (auto split: if_splits)
  ultimately show ?thesis by blast
qed

lemma duplicate_finish_inv:
  assumes "duplicate_finish s dst obj res opts fl = Some (s', res', st)" "held s obj"
  shows "server_inv s'"
proof -
  from duplicate_finish_Some[OF assms(1)] obtain s3 where rel: "release_object s3 obj = Some s'"
    and f: "s3 = s \<or> (\<exists>r3. set_handle_flags s dst res (NOT 0) fl = Some (s3, r3, st))" by blast
  have "held s3 obj"
    using f assms(2) set_handle_flags_spec[of s dst res "NOT 0" fl s3 _ st] by (auto simp: held_def)
  then show ?thesis using release_object_inv[OF _ rel] by (simp add: held_def)
qed

lemma duplicate_handle_inv:
  assumes "duplicate_handle E s src sh dst a attr opts = Some (s', res, st)" "server_inv s"
  shows "server_inv s'"
proof (cases "get_handle_obj s src sh 0 None")
  case (Inl e)
  then show ?thesis using assms by (simp add: duplicate_handle_def)
next
  case (Inr r)
  obtain s1 obj where r: "r = (s1, obj)" by fastforce
  have "get_handle_obj s src sh 0 None = Inr (s1, obj)" using Inr r by simp
  from get_handle_obj_spec[OF this assms(2)] have h1: "held s1 obj" unfolding held_def by blast
  obtain sa a1 fl where
    d: "(case duplicate_alloc E s1 src sh dst obj (get_handle s1 src sh) sa a1 attr opts of
       None \<Rightarrow> None
     | Some (Inl e) \<Rightarrow> map_option (\<lambda>s'. (s', 0, e)) (release_object s1 obj)
     | Some (Inr (s2, res)) \<Rightarrow> duplicate_finish s2 dst obj res opts fl) = Some (s', res, st)"
    using assms(1) Inr r unfolding duplicate_handle_def Let_def by (simp only: sum.case prod.case)
  obtain z where z: "duplicate_alloc E s1 src sh dst obj (get_handle s1 src sh) sa a1 attr opts = Some z"
    using d by (cases "duplicate_alloc E s1 src sh dst obj (get_handle s1 src sh) sa a1 attr opts") auto
  show ?thesis
  proof (cases z)
    case (Inl e)
    then show ?thesis using d z h1 release_object_inv[of s1 obj s'] by (auto simp: held_def)
  next
    case (Inr q)
    obtain s2 res' where q: "q = (s2, res')" by fastforce
    have h2: "held s2 obj" using duplicate_alloc_held[OF _ h1 refl] z Inr q by blast
    then show ?thesis using duplicate_finish_inv[OF _ h2] d z Inr q by simp
  qed
qed

text \<open>What a handle denotes depends on the slots only.\<close>

lemma handle_lookup_slot:
  "handle_lookup p s h = (let (w, h') = handle_place p h; i = handle_to_index h'
     in if i < 0 then None else slot s (w, nat i))"
  by (auto simp: handle_lookup_def get_handle_slot entry_at_slot Let_def split: prod.splits)

lemma handle_lookup_cong: "slot s' = slot s \<Longrightarrow> handle_lookup p s' h = handle_lookup p s h"
  by (simp only: handle_lookup_slot)

definition rights :: "handle_entry \<Rightarrow> u32" where
  "rights e = access e AND NOT RESERVED_ALL"

lemma mask_reserved: "((x AND NOT (y AND r)) OR (z AND (y AND r))) AND NOT r = x AND NOT (r :: u32)"
  by (rule bit_word_eqI) (auto simp: bit_simps)

lemma subset_reserved: "a AND NOT (x AND NOT r) = 0 \<Longrightarrow> (a AND NOT r) AND NOT (x AND NOT r) = (0 :: u32)"
  by (auto simp: bit_eq_iff bit_simps)

lemma or_reserved: "(a OR RESERVED_INHERIT) AND NOT RESERVED_ALL = a AND NOT RESERVED_ALL"
  unfolding RESERVED_ALL_def by (rule bit_word_eqI) (auto simp: bit_simps)

lemma set_handle_flags_rights:
  assumes "set_handle_flags s (Some d) h msk flags = Some (s', r, st)" "server_inv s" "handle_lookup d s h = Some e"
  shows "\<exists>e'. handle_lookup d s' h = Some e' \<and> eptr e' = eptr e \<and> rights e' = rights e"
proof (cases "get_magic_handle s h \<noteq> 0")
  case True
  then show ?thesis using assms by (auto simp: set_handle_flags_def)
next
  case False
  from assms(3) obtain wi where g: "get_handle s d h = Some wi" and e: "e = entry_at s wi"
    by (auto simp: handle_lookup_def)
  let ?m = "push_bit RESERVED_SHIFT msk AND RESERVED_ALL"
  let ?e = "e\<lparr>access := (access e AND NOT ?m) OR (push_bit RESERVED_SHIFT flags AND ?m)\<rparr>"
  have s': "s' = set_entry s wi ?e" using assms(1) False g e by (simp add: set_handle_flags_def Let_def)
  note sp = set_entry_spec[OF assms(2) get_handle_entry[OF g], of ?e]
  have "handle_lookup d s' h = Some ?e"
    using g e sp(4) by (auto simp: s' handle_lookup_slot get_handle_slot Let_def split: prod.splits if_splits)
  moreover have "rights ?e = rights e"
    using mask_reserved[of "access e" "push_bit RESERVED_SHIFT msk" RESERVED_ALL "push_bit RESERVED_SHIFT flags"]
    by (simp add: rights_def)
  ultimately show ?thesis by auto
qed

lemma duplicate_alloc_rights:
  assumes "duplicate_alloc E s src sh (Some d) obj (Some wi) (rights e) a attr opts = Some (Inr (s', res))" "held s obj"
    and g: "get_handle s src sh = Some wi" and e: "e = entry_at s wi" "obj = eptr e"
    and deny: "\<And>tok acc. check_object_access E tok obj acc = None" and loc: "opts AND DUPLICATE_MAKE_GLOBAL = 0"
  shows "\<exists>e'. handle_lookup d s' res = Some e' \<and> eptr e' = obj \<and> rights e' AND NOT (rights e) = 0"
proof -
  have inv: "server_inv s" "obj \<noteq> 0" using assms(2) by (auto simp: held_def)
  have sub: "a AND NOT (rights e) = 0"
    using assms(1) deny by (auto simp: duplicate_alloc_def check_more_access_def split: if_splits)
  let ?a = "if attr AND OBJ_INHERIT \<noteq> 0 then a OR RESERVED_INHERIT else a"
  have ra: "(?a AND NOT RESERVED_ALL) AND NOT (rights e) = 0"
    using subset_reserved[OF sub[unfolded rights_def]] by (simp add: or_reserved rights_def)
  consider (place) "d = src" "res = sh" "s' = set_entry s wi (e\<lparr>access := ?a\<rparr>)"
    | (alloc) "alloc_handle_entry E s d obj a attr = Some (Inr (s', res))"
  proof (cases "opts AND DUPLICATE_CLOSE_SOURCE \<noteq> 0 \<and> Some d = Some src \<and> access (entry_at s wi) AND RESERVED_CLOSE_PROTECT = 0")
    case True
    then have "duplicate_alloc E s src sh (Some d) obj (Some wi) (rights e) a attr opts = Some (Inr (set_entry s wi (e\<lparr>access := ?a\<rparr>), sh))"
      unfolding duplicate_alloc_def using sub loc e by simp
    then show thesis using assms(1) True by (intro place) simp_all
  next
    case False
    then have "duplicate_alloc E s src sh (Some d) obj (Some wi) (rights e) a attr opts = alloc_handle_entry E s d obj a attr"
      unfolding duplicate_alloc_def using sub loc by auto
    then show thesis using assms(1) by (intro alloc) simp
  qed
  then show ?thesis
  proof cases
    case place
    note sp = set_entry_spec[OF inv(1) get_handle_entry[OF g], of "e\<lparr>access := ?a\<rparr>"]
    have "handle_lookup d s' res = Some (e\<lparr>access := ?a\<rparr>)"
      using g e sp(4) by (auto simp: place handle_lookup_slot get_handle_slot Let_def split: prod.splits if_splits)
    then show ?thesis using ra e(2) by (simp add: rights_def)
  next
    case alloc
    from alloc_handle_entry_spec[OF alloc inv] obtain i where "i < MAX_HANDLE_ENTRIES" "res = index_to_handle i"
      "adds s s' (Proc d, i) \<lparr>eptr = obj, access = ?a\<rparr>" by blast
    then have "handle_lookup d s' res = Some \<lparr>eptr = obj, access = ?a\<rparr>"
      by (simp add: handle_lookup_local adds_def)
    then show ?thesis using ra by (simp add: rights_def)
  qed
qed

lemma slot_grab: "slot (grab_object s obj) = slot s" "get_handle (grab_object s obj) p h = get_handle s p h"
  "entry_at (grab_object s obj) wi = entry_at s wi"
  using slot_cong[OF get_table_grab(1)] by (simp_all add: get_handle_def entry_at_def)

lemma duplicate_handle_rights:
  assumes inv: "server_inv s" and dup: "duplicate_handle E s src sh (Some d) a attr opts = Some (s', res, st)"
    and res: "res \<noteq> 0" and loc: "opts AND DUPLICATE_MAKE_GLOBAL = 0"
    and mag: "get_magic_handle s sh = 0" and lk: "handle_lookup src s sh = Some e"
    and deny: "\<And>tok acc. check_object_access E tok (eptr e) acc = None"
  shows "\<exists>e'. handle_lookup d s' res = Some e' \<and> eptr e' = eptr e \<and> rights e' AND NOT (rights e) = 0"
proof -
  from lk obtain wi where g: "get_handle s src sh = Some wi" and e: "e = entry_at s wi"
    by (auto simp: handle_lookup_def)
  let ?obj = "eptr e" and ?s1 = "grab_object s (eptr e)"
  have go: "get_handle_obj s src sh 0 None = Inr (?s1, ?obj)"
    using mag g e by (simp add: get_handle_obj_def Let_def)
  have h1: "held ?s1 ?obj" using get_handle_obj_spec[OF go inv] unfolding held_def by blast
  define a1 where "a1 = (if opts AND DUPLICATE_SAME_ACCESS \<noteq> 0 then rights e else map_obj_access E ?s1 ?obj a AND NOT RESERVED_ALL)"
  have "(case duplicate_alloc E ?s1 src sh (Some d) ?obj (Some wi) (rights e) a1 attr opts of
       None \<Rightarrow> None
     | Some (Inl e) \<Rightarrow> map_option (\<lambda>s'. (s', 0, e)) (release_object ?s1 ?obj)
     | Some (Inr (s2, res)) \<Rightarrow> duplicate_finish s2 (Some d) ?obj res opts (drop_bit RESERVED_SHIFT (access e AND RESERVED_ALL)))
     = Some (s', res, st)"
    using dup go g e unfolding duplicate_handle_def Let_def a1_def rights_def
    by (simp only: sum.case prod.case slot_grab option.case)
  then obtain s2 res2 where al: "duplicate_alloc E ?s1 src sh (Some d) ?obj (Some wi) (rights e) a1 attr opts = Some (Inr (s2, res2))"
    and fin: "duplicate_finish s2 (Some d) ?obj res2 opts (drop_bit RESERVED_SHIFT (access e AND RESERVED_ALL)) = Some (s', res, st)"
    using res by (auto split: option.splits sum.splits)
  from duplicate_finish_Some[OF fin] obtain s3 r3 where rr: "res2 = res" and rel: "release_object s3 ?obj = Some s'"
    and f: "s3 = s2 \<or> set_handle_flags s2 (Some d) res2 (NOT 0) (drop_bit RESERVED_SHIFT (access e AND RESERVED_ALL)) = Some (s3, r3, st)"
    by blast
  have g1: "get_handle ?s1 src sh = Some wi" "e = entry_at ?s1 wi" using g e by (simp_all add: slot_grab)
  obtain e2 where e2: "handle_lookup d s2 res2 = Some e2" "eptr e2 = ?obj" "rights e2 AND NOT (rights e) = 0"
    using duplicate_alloc_rights[OF al h1 g1 refl deny loc] by blast
  have inv2: "server_inv s2" using duplicate_alloc_held[OF al h1 g1(1)[symmetric]] by (simp add: held_def)
  obtain e3 where e3: "handle_lookup d s3 res2 = Some e3" "eptr e3 = ?obj" "rights e3 = rights e2"
  proof (cases "s3 = s2")
    case True
    then show thesis using that e2 by simp
  next
    case False
    with f have "set_handle_flags s2 (Some d) res2 (NOT 0) (drop_bit RESERVED_SHIFT (access e AND RESERVED_ALL)) = Some (s3, r3, st)"
      by blast
    from set_handle_flags_rights[OF this inv2 e2(1)] show thesis using that e2(2) by auto
  qed
  have "slot s' = slot s3" using slot_cong[OF get_table_release(1)[OF rel]] by simp
  then show ?thesis using e3 e2(3) rr handle_lookup_cong[of s' s3 d res] by auto
qed

section \<open>Reachable states\<close>

definition initial :: "server \<Rightarrow> bool" where
  "initial s = (ptables s = [] \<and> global_table s = None \<and> (\<forall>obj. handle_count (kobjs s obj) = 0))"

text \<open>
  What the server does with handles: it opens them in a process or globally, closes them, changes
  their flags and duplicates them; a process starts with an empty table or with the handles it
  inherits, and ends; other parts of the server take references and give back those they took.
\<close>

inductive handle_reachable :: "env \<Rightarrow> server \<Rightarrow> bool" for E where
  start: "initial s \<Longrightarrow> handle_reachable E s"
| first_process: "handle_reachable E s \<Longrightarrow> alloc_handle_table E 0 = Inr t \<Longrightarrow> handle_reachable E (add_process s t)"
| new_process: "handle_reachable E s \<Longrightarrow> copy_handle_table E s parent None std = Some (Inr (s', t)) \<Longrightarrow>
    handle_reachable E (add_process s' t)"
| opened: "handle_reachable E s \<Longrightarrow> obj \<noteq> 0 \<Longrightarrow> alloc_handle E s p obj a attr = Some (Inr (s', h)) \<Longrightarrow> handle_reachable E s'"
| opened_unchecked: "handle_reachable E s \<Longrightarrow> obj \<noteq> 0 \<Longrightarrow>
    alloc_handle_no_access_check E s p obj a attr = Some (Inr (s', h)) \<Longrightarrow> handle_reachable E s'"
| closed: "handle_reachable E s \<Longrightarrow> close_handle E s p h = Some (s', st) \<Longrightarrow> handle_reachable E s'"
| flags: "handle_reachable E s \<Longrightarrow> set_handle_flags s pr h m f = Some (s', r, st) \<Longrightarrow> handle_reachable E s'"
| duplicated: "handle_reachable E s \<Longrightarrow> duplicate_handle E s src h dst a attr opts = Some (s', r, st) \<Longrightarrow>
    handle_reachable E s'"
| exited: "handle_reachable E s \<Longrightarrow> close_process_handles s p = Some s' \<Longrightarrow> handle_reachable E s'"
| grabbed: "handle_reachable E s \<Longrightarrow> handle_reachable E (grab_object s obj)"
| released: "handle_reachable E s \<Longrightarrow> handle_count (kobjs s obj) < refcount (kobjs s obj) \<Longrightarrow> obj \<noteq> 0 \<Longrightarrow>
    release_object s obj = Some s' \<Longrightarrow> handle_reachable E s'"

lemma initial_inv: "initial s \<Longrightarrow> server_inv s"
proof -
  assume "initial s"
  then have none: "get_table s w = None" for w
    by (simp add: initial_def get_table_def process_handles_def split: which.splits)
  have "hrefs s q = {}" for q by (simp add: hrefs_def slot_def none)
  then show "server_inv s" using \<open>initial s\<close> by (simp add: server_inv_def tables_inv_def none initial_def)
qed

lemma first_process_inv:
  assumes "server_inv s" "alloc_handle_table E 0 = Inr t"
  shows "server_inv (add_process s t)"
proof -
  have t: "table_inv t" "tget t i = None" for i using alloc_handle_table_spec[OF assms(2)] by auto
  have none: "get_table s (Proc (length (ptables s))) = None" by (simp add: get_table_def process_handles_def)
  have "slot (add_process s t) x = slot s x" for x using t none by (simp add: slot_def get_table_add_process)
  then have "hrefs (add_process s t) = hrefs s" by (simp add: hrefs_def fun_eq_iff)
  moreover have "tables_inv (add_process s t)"
    using assms(1) t(1) by (auto simp: server_inv_def tables_inv_def get_table_add_process)
  moreover have "kobjs (add_process s t) = kobjs s" by (simp add: add_process_def)
  ultimately show ?thesis using assms(1) by (simp add: server_inv_def)
qed

lemma alloc_handle_inv:
  assumes "alloc_handle E s p obj a attr = Some (Inr (s', h))" "server_inv s" "obj \<noteq> 0"
  shows "server_inv s'"
proof -
  obtain b where "alloc_handle_entry E s p obj b attr = Some (Inr (s', h))"
    using assms(1) by (auto simp: alloc_handle_def Let_def split: if_splits option.splits)
  from alloc_handle_entry_spec[OF this assms(2,3)] show ?thesis by (auto simp: adds_def)
qed

lemma reachable_inv: "handle_reachable E s \<Longrightarrow> server_inv s"
proof (induction rule: handle_reachable.induct)
  case (start s)
  then show ?case by (rule initial_inv)
next
  case (first_process s t)
  then show ?case using first_process_inv by blast
next
  case (new_process s parent std s' t)
  then show ?case using add_process_inv by blast
next
  case (opened s obj p a attr s' h)
  then show ?case using alloc_handle_inv by blast
next
  case (opened_unchecked s obj p a attr s' h)
  then show ?case
    using alloc_handle_entry_spec[of E s p obj _ attr s' h] unfolding alloc_handle_no_access_check_def Let_def adds_def by blast
next
  case (closed s p h s' st)
  then show ?case using close_handle_inv by blast
next
  case (flags s pr h m f s' r st)
  then show ?case using set_handle_flags_spec by blast
next
  case (duplicated s src h dst a attr opts s' r st)
  then show ?case using duplicate_handle_inv by blast
next
  case (exited s p s')
  then show ?case using close_process_handles_spec[of s p] by (metis option.inject)
next
  case (grabbed s obj)
  then show ?case using grab_object_inv by blast
next
  case (released s obj s')
  then show ?case using release_object_inv[of s obj s'] by (simp add: server_inv_def)
qed

lemma global_not_magic: "handle_is_global h \<Longrightarrow> get_magic_handle s h = 0"
  by (auto simp: get_magic_handle_def handle_is_global_def HANDLE_OBFUSCATOR_def MAX_HANDLE_ENTRIES_def)

section \<open>An example server\<close>

definition example_env :: env where
  "example_env = \<lparr>can_alloc = \<lambda>_. True, junk = \<lambda>_. \<lparr>eptr = 0xfe, access = 0xfefefefe\<rparr>,
     mapping = \<lambda>_. \<lparr>gread = 1, gwrite = 2, gexec = 4, gall = 7\<rparr>, map_override = \<lambda>_. None,
     check_object_access = \<lambda>_ _ _. None, close_callback = \<lambda>_. None, process_token = \<lambda>_. 0\<rparr>"

definition example_server :: server where
  "example_server = \<lparr>kobjs = \<lambda>_. \<lparr>refcount = 1, handle_count = 0, ops = 0, is_permanent = False\<rparr>,
     types = \<lambda>_. \<lparr>type_handles = 0, type_handle_max = 0\<rparr>, ptables = [], global_table = None,
     cur_process = 0, cur_process_obj = 0, cur_thread_obj = 0, cur_thread_token = 0, cur_process_token = 0,
     cur_impersonation_token = 0\<rparr>"

definition example_table :: handle_table where
  "example_table = \<lparr>count = 32, last = - 1, free = 0, entries = replicate 32 \<lparr>eptr = 0xfe, access = 0xfefefefe\<rparr>\<rparr>"

text \<open>One process, with the handle 4 for the object 5.\<close>

definition example_opened :: server where
  "example_opened = (case alloc_handle_no_access_check example_env (add_process example_server example_table) 0 5 3 2 of
     Some (Inr (s, h)) \<Rightarrow> s | _ \<Rightarrow> example_server)"

lemma example_alloc: "alloc_handle_table example_env 0 = Inr example_table"
  by (simp add: alloc_handle_table_def example_env_def example_table_def MIN_HANDLE_ENTRIES_def map_replicate_const)

lemma example_step:
  "alloc_handle_no_access_check example_env (add_process example_server example_table) 0 5 3 2 = Some (Inr (example_opened, 4))"
proof -
  have "\<exists>s. alloc_handle_no_access_check example_env (add_process example_server example_table) 0 5 3 2 = Some (Inr (s, 4))"
    by (simp add: alloc_handle_no_access_check_def alloc_handle_entry_def alloc_entry_def alloc_entry_table_def
        add_process_def example_server_def example_table_def example_env_def process_handles_def map_obj_access_def
        default_map_access_def map_access_def scan_free.simps RESERVED_ALL_def RESERVED_INHERIT_def
        RESERVED_CLOSE_PROTECT_def MAXIMUM_ALLOWED_def GENERIC_READ_def GENERIC_WRITE_def GENERIC_EXECUTE_def
        GENERIC_ALL_def OBJ_INHERIT_def index_to_handle_def Let_def)
  then show ?thesis by (auto simp: example_opened_def)
qed

lemma example_reachable: "handle_reachable example_env example_opened"
proof -
  have "handle_reachable example_env example_server"
    by (rule handle_reachable.start) (simp add: initial_def example_server_def)
  from handle_reachable.first_process[OF this example_alloc]
  show ?thesis by (rule handle_reachable.opened_unchecked[OF _ _ example_step]) simp
qed


lemma example_inv: "server_inv example_opened"
  by (rule reachable_inv[OF example_reachable])

lemma example_index: "4 = index_to_handle 0"
  by (simp add: index_to_handle_def)

lemma example_lookup: "handle_lookup 0 example_opened 4 = Some \<lparr>eptr = 5, access = 0x04000003\<rparr>"
proof -
  have "server_inv (add_process example_server example_table)"
    by (rule first_process_inv[OF initial_inv example_alloc]) (simp add: initial_def example_server_def)
  moreover have "alloc_handle_entry example_env (add_process example_server example_table) 0 5 3 2 = Some (Inr (example_opened, 4))"
    using example_step
    by (simp add: alloc_handle_no_access_check_def example_env_def example_server_def add_process_def map_obj_access_def
        default_map_access_def map_access_def RESERVED_ALL_def RESERVED_INHERIT_def RESERVED_CLOSE_PROTECT_def
        MAXIMUM_ALLOWED_def GENERIC_READ_def GENERIC_WRITE_def GENERIC_EXECUTE_def GENERIC_ALL_def)
  ultimately obtain i where i: "i < MAX_HANDLE_ENTRIES" "4 = index_to_handle i"
    "adds (add_process example_server example_table) example_opened (Proc 0, i) \<lparr>eptr = 5, access = 0x04000003\<rparr>"
    using alloc_handle_entry_spec[of example_env "add_process example_server example_table" 0 5 3 2 example_opened 4]
    by (auto simp: OBJ_INHERIT_def RESERVED_INHERIT_def)
  then have "slot example_opened (Proc 0, i) = Some \<lparr>eptr = 5, access = 0x04000003\<rparr>" by (simp add: adds_def)
  then show ?thesis unfolding i(2) handle_lookup_local[OF i(1)] .
qed

section \<open>Properties\<close>



text \<open>
  C15: a handle denotes its object with its access rights from the moment it is allocated until it is
  closed, whatever handles the process opens and closes in between; and a new handle is the lowest
  unused one.
\<close>

theorem handle_lifetime:
  assumes "handle_reachable E s" "handle_alloc E p s e = Some (s1, h)"
    and "\<forall>k. Free k \<in> set acts \<longrightarrow> canon_handle k \<and> k \<noteq> h"
    and "object_table.run (handle_alloc E p) (handle_free E p) s1 acts = Some s2"
  shows "handle_lookup p s h = None \<and> handle_lookup p s2 h = Some e"
proof -
  have inv: "server_inv s" by (rule reachable_inv[OF assms(1)])
  have ops: "process_table.canon_ops acts" "Free h \<notin> set acts"
    using assms(3) by (auto simp: process_table.canon_ops_def)
  have c: "canon_handle h" by (rule process_table.canon_alloc[OF inv assms(2)])
  have "handle_lookup p s1 h = Some e"
    using process_table.lookup_alloc[OF inv assms(2) c] by simp
  then have "handle_lookup p s2 h = Some e"
    using process_table.run_keeps[OF process_table.inv_alloc[OF inv assms(2)] c _ ops assms(4)] by blast
  then show ?thesis using process_table.alloc_fresh[OF inv assms(2)] by simp
qed

theorem handle_lifetime_witness:
  "\<exists>s1 h. handle_alloc example_env 0 example_opened \<lparr>eptr = 6, access = 1\<rparr> = Some (s1, h) \<and>
     handle_lookup 0 s1 h = Some \<lparr>eptr = 6, access = 1\<rparr>"
proof -
  have "case handle_alloc example_env 0 example_opened \<lparr>eptr = 6, access = 1\<rparr> of None \<Rightarrow> False | Some _ \<Rightarrow> True"
    by code_simp
  then obtain s1 h where a: "handle_alloc example_env 0 example_opened \<lparr>eptr = 6, access = 1\<rparr> = Some (s1, h)"
    by (auto split: option.splits)
  then show ?thesis using handle_lifetime[OF example_reachable a, of "[]" s1] by simp
qed

text \<open>
  C16: a global handle cannot be closed.  \<^verbatim>\<open>close_handle\<close> takes the index from the obfuscated
  handle, and clears \<^verbatim>\<open>entries[index]\<close> of the global table far outside its array.
\<close>

theorem close_global_out_of_bounds:
  assumes "handle_reachable E s" "obj \<noteq> 0" "alloc_global_handle_no_access_check E s obj a = Inr (s', h)"
    and "a AND RESERVED_CLOSE_PROTECT = 0" "close_callback E (ops (kobjs s' obj)) = None"
  shows "handle_lookup p s' h = Some \<lparr>eptr = obj, access = a\<rparr> \<and> close_handle E s' p h = None"
proof -
  from alloc_global_spec[OF assms(3) reachable_inv[OF assms(1)] assms(2)] obtain i where
    i: "i < MAX_HANDLE_ENTRIES" "h = handle_local_to_global (index_to_handle i)"
    "adds s s' (Global, i) \<lparr>eptr = obj, access = a\<rparr>" by blast
  note g = handle_global_value[OF i(1), folded i(2)]
  have sl: "slot s' (Global, i) = Some \<lparr>eptr = obj, access = a\<rparr>" and inv: "server_inv s'"
    using i(3) by (auto simp: adds_def)
  have gh: "get_handle s' p h = Some (Global, i)"
    using sl g(1,2) i(1) by (simp add: get_handle_slot handle_place_def)
  then have "handle_lookup p s' h = Some \<lparr>eptr = obj, access = a\<rparr>"
    using entry_at_slot[OF sl] by (simp add: handle_lookup_def)
  moreover have "close_handle E s' p h = None"
    using close_handle_global[OF inv g(1), of E p] gh entry_at_slot[OF sl] assms(4,5) by (simp add: closable_def)
  ultimately show ?thesis by blast
qed

lemma example_global: "\<exists>s' h. alloc_global_handle_no_access_check example_env example_server 5 1 = Inr (s', h)"
  by (simp add: alloc_global_handle_no_access_check_def example_server_def example_alloc alloc_entry_def
      alloc_entry_table_def example_table_def scan_free.simps)

theorem close_global_out_of_bounds_witness:
  "\<exists>s' h. handle_lookup 0 s' h = Some \<lparr>eptr = 5, access = 1\<rparr> \<and> close_handle example_env s' 0 h = None"
proof -
  obtain s' h where a: "alloc_global_handle_no_access_check example_env example_server 5 1 = Inr (s', h)"
    using example_global by blast
  have "handle_reachable example_env example_server"
    by (rule handle_reachable.start) (simp add: initial_def example_server_def)
  from close_global_out_of_bounds[OF this _ a, of 0] show ?thesis
    by (auto simp: RESERVED_CLOSE_PROTECT_def example_env_def)
qed

text \<open>
  a process that inherits its parent's handles finds each inheritable handle at the same value
  with the same rights, and no other handle; the parent keeps its own.
\<close>

theorem inherited_handles:
  assumes "handle_reachable E s" "copy_handle_table E s parent None std = Some (Inr (s', t))" "i < MAX_HANDLE_ENTRIES"
  shows "handle_lookup (length (ptables s)) (add_process s' t) (index_to_handle i) =
      (case handle_lookup parent s (index_to_handle i) of
         None \<Rightarrow> None
       | Some e \<Rightarrow> if access e AND RESERVED_INHERIT \<noteq> 0 then Some e else None) \<and>
    (q < length (ptables s) \<longrightarrow>
      handle_lookup q (add_process s' t) (index_to_handle i) = handle_lookup q s (index_to_handle i))"
proof -
  note c = copy_handle_table_spec[OF reachable_inv[OF assms(1)] assms(2)]
  let ?n = "length (ptables s)"
  have "slot (add_process s' t) (Proc ?n, i) = tget t i"
    using c(4) by (simp add: slot_def get_table_add_process)
  then have "slot (add_process s' t) (Proc ?n, i) = inherited (slot s (Proc parent, i))" by (simp only: c(2))
  moreover have "q < ?n \<Longrightarrow> slot (add_process s' t) (Proc q, i) = slot s (Proc q, i)"
    unfolding slot_def using c(3,4) by (simp add: get_table_add_process)
  ultimately show ?thesis
    unfolding handle_lookup_local[OF assms(3)] by (simp add: inherited_def inheritable_def split: option.split)
qed

lemma example_copy: "\<exists>s' t. copy_handle_table example_env example_opened 0 None [] = Some (Inr (s', t))"
proof -
  have "case copy_handle_table example_env example_opened 0 None [] of Some (Inr _) \<Rightarrow> True | _ \<Rightarrow> False" by code_simp
  then show ?thesis by (auto split: option.splits sum.splits)
qed

theorem inherited_handles_witness:
  "\<exists>s' t. copy_handle_table example_env example_opened 0 None [] = Some (Inr (s', t)) \<and>
     handle_lookup (length (ptables example_opened)) (add_process s' t) (index_to_handle 0) =
       Some \<lparr>eptr = 5, access = 0x04000003\<rparr>"
proof -
  obtain s' t where c: "copy_handle_table example_env example_opened 0 None [] = Some (Inr (s', t))"
    using example_copy by blast
  have "(0 :: nat) < MAX_HANDLE_ENTRIES" by (simp add: MAX_HANDLE_ENTRIES_def)
  from inherited_handles[OF example_reachable c this] c show ?thesis
    using example_lookup[unfolded example_index] by (simp add: RESERVED_INHERIT_def)
qed

text \<open>
  when a process ends, \<^verbatim>\<open>close_process_handles\<close> always succeeds, none of its handles denotes
  anything and the handles of the other processes and the global ones are unchanged.
\<close>

theorem process_exit_handles:
  assumes "handle_reachable E s"
  shows "\<exists>s'. close_process_handles s p = Some s' \<and> handle_reachable E s' \<and>
    (\<forall>x. slot s' x = (if fst x = Proc p then None else slot s x))"
proof -
  obtain s' where "close_process_handles s p = Some s'"
    "\<And>x. slot s' x = (if fst x = Proc p then None else slot s x)"
    using close_process_handles_spec[OF reachable_inv[OF assms]] by blast
  then show ?thesis using handle_reachable.exited[OF assms] by blast
qed

theorem process_exit_handles_witness:
  "\<exists>s'. close_process_handles example_opened 0 = Some s' \<and> slot s' (Proc 0, 0) = None"
  using process_exit_handles[OF example_reachable, of 0] by auto

text \<open>
  C17: duplication does not add rights on its own: when the access checks deny everything, a
  duplicate within or between processes denotes the same object and has no right the source handle
  does not have.
\<close>

theorem duplicate_no_escalation:
  assumes "handle_reachable E s" "duplicate_handle E s src h (Some d) a attr opts = Some (s', res, st)" "res \<noteq> 0"
    and "opts AND DUPLICATE_MAKE_GLOBAL = 0" "get_magic_handle s h = 0" "handle_lookup src s h = Some e"
    and "\<And>tok acc. check_object_access E tok (eptr e) acc = None"
  shows "\<exists>e'. handle_lookup d s' res = Some e' \<and> eptr e' = eptr e \<and> rights e' AND NOT (rights e) = 0"
  by (rule duplicate_handle_rights[OF reachable_inv[OF assms(1)] assms(2-7)])

lemma example_dup:
  "\<exists>s' st. duplicate_handle example_env example_opened 0 4 (Some 0) 0 0 3 = Some (s', 4, st)"
proof -
  let ?e = "\<lparr>eptr = 5, access = 0x04000003 :: u32\<rparr>" and ?s1 = "grab_object example_opened 5"
  obtain wi where g: "get_handle example_opened 0 4 = Some wi" and e: "entry_at example_opened wi = ?e"
    using example_lookup by (auto simp: handle_lookup_def)
  have m: "get_magic_handle example_opened 4 = 0" by (simp add: get_magic_handle_def)
  have go: "get_handle_obj example_opened 0 4 0 None = Inr (?s1, 5)"
    using m g e by (simp add: get_handle_obj_def Let_def)
  then have h: "held ?s1 5" using get_handle_obj_spec[OF go example_inv] unfolding held_def by blast
  have al: "duplicate_alloc example_env ?s1 0 4 (Some 0) 5 (Some wi) 3 3 0 3 =
      Some (Inr (set_entry ?s1 wi (?e\<lparr>access := 3\<rparr>), 4))"
    using e by (simp add: duplicate_alloc_def slot_grab DUPLICATE_CLOSE_SOURCE_def DUPLICATE_MAKE_GLOBAL_def
        RESERVED_CLOSE_PROTECT_def)
  have "held (set_entry ?s1 wi (?e\<lparr>access := 3\<rparr>)) 5"
    using duplicate_alloc_held[OF al h] g by (simp add: slot_grab)
  then have "\<exists>s'. duplicate_finish (set_entry ?s1 wi (?e\<lparr>access := 3\<rparr>)) (Some 0) 5 4 3 f = Some (s', 4, STATUS_SUCCESS)" for f
    by (simp add: duplicate_finish_def DUPLICATE_SAME_ATTRIBUTES_def release_object_def held_def)
  then show ?thesis
    using go g e al
    by (simp add: duplicate_handle_def Let_def slot_grab DUPLICATE_SAME_ACCESS_def RESERVED_ALL_def
        RESERVED_INHERIT_def RESERVED_CLOSE_PROTECT_def) blast
qed

theorem duplicate_no_escalation_witness:
  "\<exists>s' st e'. duplicate_handle example_env example_opened 0 4 (Some 0) 0 0 3 = Some (s', 4, st) \<and>
     handle_lookup 0 s' 4 = Some e' \<and> eptr e' = 5"
proof -
  obtain s' st where d: "duplicate_handle example_env example_opened 0 4 (Some 0) 0 0 3 = Some (s', 4, st)"
    using example_dup by blast
  have m: "get_magic_handle example_opened 4 = 0" by (simp add: get_magic_handle_def)
  have o: "(3 :: u32) AND DUPLICATE_MAKE_GLOBAL = 0" by (simp add: DUPLICATE_MAKE_GLOBAL_def)
  have deny: "check_object_access example_env tok obj acc = None" for tok obj acc by (simp add: example_env_def)
  have "(4 :: u32) \<noteq> 0" by simp
  from duplicate_no_escalation[OF example_reachable d this o m example_lookup deny] d show ?thesis by auto
qed

text \<open>
  a request to duplicate a handle as a global one that also asks for the same attributes
  dereferences a NULL process: \<^verbatim>\<open>duplicate_handle\<close> is called without a destination and passes it to
  \<^verbatim>\<open>set_handle_flags\<close>.
\<close>

theorem duplicate_global_null_process:
  assumes "handle_reachable E s" "get_magic_handle s h = 0" "handle_lookup src s h = Some e"
    and "opts AND DUPLICATE_MAKE_GLOBAL \<noteq> 0" "opts AND DUPLICATE_SAME_ACCESS \<noteq> 0" "opts AND DUPLICATE_SAME_ATTRIBUTES \<noteq> 0"
    and "alloc_global_handle_no_access_check E (grab_object s (eptr e)) (eptr e) (rights e) = Inr r"
  shows "req_dup_handle E s (Some src) dst h a attr opts = None"
proof -
  from assms(3) obtain wi where g: "get_handle s src h = Some wi" and e: "e = entry_at s wi"
    by (auto simp: handle_lookup_def)
  let ?s1 = "grab_object s (eptr e)"
  obtain s2 h2 where r: "r = (s2, h2)" by fastforce
  have go: "get_handle_obj s src h 0 None = Inr (?s1, eptr e)"
    using assms(2) g e by (simp add: get_handle_obj_def Let_def)
  have inv: "server_inv ?s1" "eptr e \<noteq> 0" using get_handle_obj_spec[OF go reachable_inv[OF assms(1)]] by auto
  from alloc_global_spec[OF assms(7)[unfolded r] inv] obtain i where
    i: "i < MAX_HANDLE_ENTRIES" "h2 = handle_local_to_global (index_to_handle i)" by blast
  have h2: "h2 \<noteq> 0" "get_magic_handle s2 h2 = 0"
    using handle_global_value[OF i(1), folded i(2)] global_not_magic by auto
  have "duplicate_alloc E ?s1 src h None (eptr e) (Some wi) (rights e) (rights e) attr opts = Some (Inr (s2, h2))"
    using assms(4,7) r by (simp add: duplicate_alloc_def)
  moreover have "duplicate_finish s2 None (eptr e) h2 opts f = None" for f
    using h2 assms(6) by (simp add: duplicate_finish_def set_handle_flags_def)
  ultimately have "duplicate_handle E s src h None a attr opts = None"
    using go g e assms(5) by (simp add: duplicate_handle_def Let_def slot_grab rights_def)
  then show ?thesis using assms(4) by (simp add: req_dup_handle_def Let_def)
qed

lemma example_global_dup:
  "\<exists>r. alloc_global_handle_no_access_check example_env (grab_object example_opened 5) 5 3 = Inr r"
proof -
  have "case alloc_global_handle_no_access_check example_env (grab_object example_opened 5) 5 3 of Inr _ \<Rightarrow> True | _ \<Rightarrow> False"
    by code_simp
  then show ?thesis by (auto split: sum.splits)
qed

theorem duplicate_global_null_process_witness:
  "req_dup_handle example_env example_opened (Some 0) (Some 0) 4 0 0 0x80000006 = None"
proof -
  obtain r where r: "alloc_global_handle_no_access_check example_env (grab_object example_opened 5) 5 3 = Inr r"
    using example_global_dup by blast
  have m: "get_magic_handle example_opened 4 = 0" by (simp add: get_magic_handle_def)
  show ?thesis
    by (rule duplicate_global_null_process[OF example_reachable m example_lookup, where r = r])
      (simp_all add: DUPLICATE_MAKE_GLOBAL_def DUPLICATE_SAME_ACCESS_def DUPLICATE_SAME_ATTRIBUTES_def rights_def
        RESERVED_ALL_def RESERVED_INHERIT_def RESERVED_CLOSE_PROTECT_def r)
qed

end
