(* ===== verification/Unicode.thy ===== *)
theory Unicode
  imports Server_Prelude
begin

text \<open>
  Strings, \<^verbatim>\<open>server/unicode.c\<close>: the case-insensitive comparison and hash, and the escaped form in
  which strings are written to files (\<^verbatim>\<open>dump_strW\<close>) and read back (\<^verbatim>\<open>parse_strW\<close>).

  A 16-bit character is a number below 65536 and a byte one below 256; a NUL-terminated input is
  the list of its bytes before the terminator, so that reading at its end gives 0.  The case table,
  which the server loads from a file, is the parameter \<open>cm\<close>.
\<close>

section \<open>Comparison and hash\<close>

type_synonym wchar = nat
type_synonym byte = nat

definition to_lower :: "(nat \<Rightarrow> nat) \<Rightarrow> wchar \<Rightarrow> wchar" where
  "to_lower cm ch = (ch + cm (cm (cm (ch div 256) + (ch div 16) mod 16) + ch mod 16)) mod 65536"

text \<open>Two strings of the same length: the difference at the first place where they differ.\<close>

fun memicmp_strW :: "(nat \<Rightarrow> nat) \<Rightarrow> wchar list \<Rightarrow> wchar list \<Rightarrow> int" where
  "memicmp_strW cm (a # as) (b # bs) =
     (let ret = int (to_lower cm a) - int (to_lower cm b) in
      if ret \<noteq> 0 then ret else memicmp_strW cm as bs)"
| "memicmp_strW cm _ _ = 0"

definition hash_strW :: "(nat \<Rightarrow> nat) \<Rightarrow> wchar list \<Rightarrow> nat \<Rightarrow> nat" where
  "hash_strW cm str hash_size =
     fold (\<lambda>ch hash. (hash * 65599 + to_lower cm ch) mod 2 ^ 32) str 0 mod hash_size"

definition ascii_to_unicode_str :: "byte list \<Rightarrow> wchar list" where
  "ascii_to_unicode_str str = map (\<lambda>c. c mod 256) str"

section \<open>Writing an escaped string\<close>

definition isdigit :: "nat \<Rightarrow> bool" where "isdigit c = (48 \<le> c \<and> c \<le> 57)"

definition isxdigit :: "nat \<Rightarrow> bool" where
  "isxdigit c = (isdigit c \<or> (97 \<le> c \<and> c \<le> 102) \<or> (65 \<le> c \<and> c \<le> 70))"

definition isoctal :: "nat \<Rightarrow> bool" where "isoctal c = (48 \<le> c \<and> c \<le> 55)"

definition hex_digit :: "nat \<Rightarrow> byte" where
  "hex_digit d = (if d < 10 then 48 + d else 87 + d)"

text \<open>The conversions \<^verbatim>\<open>%04x\<close>, \<^verbatim>\<open>%x\<close>, \<^verbatim>\<open>%03o\<close> and \<^verbatim>\<open>%o\<close> of the C library, for 16-bit values.\<close>

definition format_04x :: "nat \<Rightarrow> byte list" where
  "format_04x n = [hex_digit (n div 4096), hex_digit (n div 256 mod 16), hex_digit (n div 16 mod 16), hex_digit (n mod 16)]"

definition format_x :: "nat \<Rightarrow> byte list" where
  "format_x n =
     (if n < 16 then [hex_digit n]
      else if n < 256 then [hex_digit (n div 16), hex_digit (n mod 16)]
      else if n < 4096 then [hex_digit (n div 256), hex_digit (n div 16 mod 16), hex_digit (n mod 16)]
      else format_04x n)"

definition format_03o :: "nat \<Rightarrow> byte list" where
  "format_03o n = [48 + n div 64, 48 + n div 8 mod 8, 48 + n mod 8]"

definition format_o :: "nat \<Rightarrow> byte list" where
  "format_o n =
     (if n < 8 then [48 + n] else if n < 64 then [48 + n div 8, 48 + n mod 8] else format_03o n)"

text \<open>The table ".......abtnvfr.............e....": 46 is the full stop.\<close>

definition escapes :: "nat \<Rightarrow> byte" where
  "escapes n = (if n = 7 then 97 else if n = 8 then 98 else if n = 9 then 116 else if n = 10 then 110
     else if n = 11 then 118 else if n = 12 then 102 else if n = 13 then 114 else if n = 27 then 101 else 46)"

text \<open>One character; \<open>next\<close> are the characters that follow it.\<close>

definition dump_char :: "byte \<Rightarrow> byte \<Rightarrow> wchar \<Rightarrow> wchar list \<Rightarrow> byte list" where
  "dump_char e0 e1 c next =
     (if c > 127
      then (if next \<noteq> [] \<and> hd next < 128 \<and> isxdigit (hd next) then [92, 120] @ format_04x c
            else [92, 120] @ format_x c)
      else if c < 32
      then (if escapes c \<noteq> 46 then [92, escapes c]
            else if next \<noteq> [] \<and> isoctal (hd next) then [92] @ format_03o c
            else [92] @ format_o c)
      else (if c = 92 \<or> c = e0 \<or> c = e1 then [92, c] else [c]))"

text \<open>
  The output file's contents; the local buffer is flushed before it can overflow, since no
  character takes more than seven bytes with its terminator.
\<close>

fun dump_strW :: "byte \<Rightarrow> byte \<Rightarrow> wchar list \<Rightarrow> byte list" where
  "dump_strW e0 e1 [] = []"
| "dump_strW e0 e1 (c # cs) = dump_char e0 e1 c cs @ dump_strW e0 e1 cs"

section \<open>Reading it back\<close>

definition to_hex :: "byte \<Rightarrow> nat" where
  "to_hex c = (if isdigit c then c - 48 else if 97 \<le> c then c - 87 else c - 55)"

text \<open>Up to \<open>n\<close> further digits of a numeric escape.\<close>

fun more_hex :: "nat \<Rightarrow> nat \<Rightarrow> byte list \<Rightarrow> nat \<times> byte list" where
  "more_hex (Suc n) v (c # p) = (if isxdigit c then more_hex n (v * 16 + to_hex c) p else (v, c # p))"
| "more_hex n v p = (v, p)"

fun more_octal :: "nat \<Rightarrow> nat \<Rightarrow> byte list \<Rightarrow> nat \<times> byte list" where
  "more_octal (Suc n) v (c # p) = (if isoctal c then more_octal n (v * 8 + (c - 48)) p else (v, c # p))"
| "more_octal n v p = (v, p)"

text \<open>What follows a backslash: the character and the rest, \<open>None\<close> for an unrecognized escape.\<close>

definition parse_escape :: "byte list \<Rightarrow> (wchar \<times> byte list) option" where
  "parse_escape q =
     (let c = hd q; p = tl q in
      if c = 97 then Some (7, p) else if c = 98 then Some (8, p) else if c = 101 then Some (27, p)
      else if c = 102 then Some (12, p) else if c = 110 then Some (10, p) else if c = 114 then Some (13, p)
      else if c = 116 then Some (9, p) else if c = 118 then Some (11, p)
      else if c = 120
      then (if p = [] \<or> \<not> isxdigit (hd p) then Some (120, p) else Some (more_hex 3 (to_hex (hd p)) (tl p)))
      else if isoctal c then Some (more_octal 2 (c - 48) p)
      else None)"

definition utf8_length :: "byte \<Rightarrow> nat" where
  "utf8_length ch = (if ch < 0xc2 then 0 else if ch < 0xe0 then 1 else if ch < 0xf0 then 2 else if ch < 0xf5 then 3 else 0)"

definition utf8_mask :: "nat \<Rightarrow> nat" where
  "utf8_mask n = (if n = 0 then 0x80 else if n = 1 then 0x20 else if n = 2 then 0x10 else 0x08)"

definition utf8_minval :: "nat \<Rightarrow> nat" where
  "utf8_minval n = (if n = 0 then 0 else if n = 1 then 0x80 else if n = 2 then 0x800 else 0x10000)"

text \<open>The continuation bytes: the value, the rest, and whether all of them were there.\<close>

fun utf8_cont :: "nat \<Rightarrow> nat \<Rightarrow> byte list \<Rightarrow> nat \<times> byte list \<times> bool" where
  "utf8_cont (Suc n) res (c # p) = (if 0x80 \<le> c \<and> c < 0xc0 then utf8_cont n (res * 64 + (c - 0x80)) p else (res, c # p, False))"
| "utf8_cont (Suc n) res [] = (res, [], False)"
| "utf8_cont 0 res p = (res, p, True)"

text \<open>The characters a non-ASCII byte gives, at most \<open>room\<close> of them, and the rest of the input.\<close>

definition parse_utf8 :: "nat \<Rightarrow> byte \<Rightarrow> byte list \<Rightarrow> wchar list \<times> byte list" where
  "parse_utf8 room ch p =
     (let charlen = utf8_length ch; res0 = ch mod utf8_mask charlen in
      if charlen = 0 then ([], p)
      else let (res, q, ok) = utf8_cont charlen res0 p in
           if \<not> ok then ([], q)
           else if res < utf8_minval charlen then ([], q)
           else if res > 0x10ffff then ([], q)
           else if res \<le> 0xffff then ([res], q)
           else let r = res - 0x10000 in
                ((0xd800 + r div 1024) # (if room > 1 then [0xdc00 + r mod 1024] else []), q))"

lemma more_hex_len: "length (snd (more_hex n v p)) \<le> length p"
  by (induction n v p rule: more_hex.induct) auto

lemma more_octal_len: "length (snd (more_octal n v p)) \<le> length p"
  by (induction n v p rule: more_octal.induct) auto

lemma parse_escape_len: "parse_escape q = Some (c, r) \<Longrightarrow> q \<noteq> [] \<Longrightarrow> length r < length q"
proof -
  assume a: "parse_escape q = Some (c, r)" and ne: "q \<noteq> []"
  have "length r \<le> length (tl q)"
    using a more_hex_len[of 3 "to_hex (hd (tl q))" "tl (tl q)"] more_octal_len[of 2 "hd q - 48" "tl q"]
    by (auto simp: parse_escape_def Let_def split: if_splits)
  then show ?thesis using ne by (cases q) auto
qed

lemma utf8_cont_len: "length (fst (snd (utf8_cont n v p))) \<le> length p"
  by (induction n v p rule: utf8_cont.induct) auto

lemma parse_utf8_len: "length (snd (parse_utf8 room ch p)) \<le> length p"
  using utf8_cont_len[of "utf8_length ch" "ch mod utf8_mask (utf8_length ch)" p]
  by (auto simp: parse_utf8_def Let_def split: prod.splits)

text \<open>
  The loop: the characters read, the room left in the buffer, and the input from where it stopped.
\<close>

function parse_loop :: "byte \<Rightarrow> nat \<Rightarrow> wchar list \<Rightarrow> byte list \<Rightarrow> wchar list \<times> nat \<times> byte list" where
  "parse_loop endchar room acc p =
     (if p = [] \<or> hd p = endchar \<or> room = 0 then (acc, room, p)
      else if hd p = 92 \<and> tl p = [] then (acc, room, [])
      else case (if hd p = 92 then parse_escape (tl p) else None) of
             Some (c, r) \<Rightarrow> parse_loop endchar (room - 1) (acc @ [c]) r
           | None \<Rightarrow>
               (let q = (if hd p = 92 then tl p else p); ch = hd q in
                if ch < 0x80 then parse_loop endchar (room - 1) (acc @ [ch]) (tl q)
                else let (out, r) = parse_utf8 room ch (tl q)
                     in parse_loop endchar (room - length out) (acc @ out) r))"
  by pat_completeness auto
termination
proof (relation "measure (\<lambda>(e, room, acc, p). length p)", goal_cases)
  case (2 e room acc p q ch)
  then show ?case by (cases p) (auto split: if_splits)
next
  case (3 e room acc p q ch z out r)
  then have "length r \<le> length (tl q)" using parse_utf8_len[of room ch "tl q"] by (metis snd_conv)
  moreover have "q \<noteq> []" "length q \<le> length p" using 3 by (auto split: if_splits)
  ultimately show ?case by (cases q) auto
next
  case (4 e room acc p z c r)
  then have "length r < length (tl p)"
    using parse_escape_len[of "tl p" c r] by (auto split: if_splits)
  then show ?case by simp
qed simp

declare parse_loop.simps [simp del]

text \<open>
  \<open>room\<close> is the size of the buffer in characters.  The result is the string with its terminating
  0 and the number of bytes read, \<open>None\<close> for -1.
\<close>

definition parse_strW :: "nat \<Rightarrow> byte list \<Rightarrow> byte \<Rightarrow> (wchar list \<times> nat) option" where
  "parse_strW room src endchar =
     (let (out, left, p) = parse_loop endchar room [] src in
      if left = 0 then None
      else if p = [] then None
      else Some (out @ [0], length src - length p + 1))"

end
