(* ===== verification/Unicode_Correct.thy ===== *)
theory Unicode_Correct
  imports Unicode
begin

text \<open>
  Correctness of \<^verbatim>\<open>server/unicode.c\<close>: the comparison and the hash respect the case table, and the
  parser reads back what the printer writes.
\<close>

section \<open>Case-insensitive equality\<close>

lemma memicmp_zero:
  "length as = length bs \<Longrightarrow> memicmp_strW cm as bs = 0 \<longleftrightarrow> map (to_lower cm) as = map (to_lower cm) bs"
  by (induction cm as bs rule: memicmp_strW.induct) (auto simp: Let_def)

lemma hash_lower:
  "map (to_lower cm) as = map (to_lower cm) bs \<Longrightarrow> hash_strW cm as n = hash_strW cm bs n"
proof -
  assume eq: "map (to_lower cm) as = map (to_lower cm) bs"
  have f: "fold (\<lambda>ch hash. (hash * 65599 + to_lower cm ch) mod 2 ^ 32) xs h =
      fold (\<lambda>l hash. (hash * 65599 + l) mod 2 ^ 32) (map (to_lower cm) xs) h" for xs and h :: nat
    by (simp add: fold_map comp_def)
  show ?thesis unfolding hash_strW_def f eq ..
qed

section \<open>The escaped form is read back\<close>

definition good_escape :: "byte \<Rightarrow> bool" where
  "good_escape e = (32 \<le> e \<and> e < 128 \<and> \<not> isxdigit e \<and> e \<notin> {92, 110, 114, 116, 118, 120})"

lemma hex_digit [simp]: "d < 16 \<Longrightarrow> isxdigit (hex_digit d)" "d < 16 \<Longrightarrow> to_hex (hex_digit d) = d"
  by (auto simp: hex_digit_def isxdigit_def isdigit_def to_hex_def)

lemma hex_digit_64 [simp]: "c < 65536 \<Longrightarrow> c div 4096 < (16 :: nat)"
  by auto

lemma hex_places:
  "c div 256 = c div 16 div 16" "c div 4096 = c div 16 div 16 div (16 :: nat)"
  "c div 64 = c div 8 div (8 :: nat)"
  by (simp_all flip: div_mult2_eq)

lemma parse_escape_octal: "isoctal d \<Longrightarrow> parse_escape (d # p) = Some (more_octal 2 (d - 48) p)"
  by (auto simp: parse_escape_def isoctal_def)

lemma parse_escape_hex:
  "d < 16 \<Longrightarrow> parse_escape (120 # hex_digit d # p) = Some (more_hex 3 d p)"
  by (simp add: parse_escape_def isoctal_def)

lemma parse_hex_04:
  assumes "c < 65536"
  shows "parse_escape (120 # format_04x c @ t) = Some (c, t)"
proof -
  have "(((c div 4096) * 16 + c div 256 mod 16) * 16 + c div 16 mod 16) * 16 + c mod 16 = c"
    by (simp add: hex_places)
  then show ?thesis
    using assms by (simp add: format_04x_def parse_escape_hex numeral_3_eq_3)
qed

lemma parse_hex_escape:
  assumes "c < 65536" "127 < c" "t \<noteq> []" "\<not> isxdigit (hd t)"
  shows "parse_escape (120 # format_x c @ t) = Some (c, t)"
proof -
  obtain x xs where t: "t = x # xs" "\<not> isxdigit x" using assms(3,4) by (cases t) auto
  have e2: "c div 16 * 16 + c mod 16 = c" by simp
  have e3: "(c div 256 * 16 + c div 16 mod 16) * 16 + c mod 16 = c" by (simp add: hex_places)
  show ?thesis
    using assms(1,2) t e2 e3 parse_hex_04[OF assms(1)]
    by (auto simp: format_x_def parse_escape_hex numeral_3_eq_3 div_less_iff_less_mult)
qed

lemma parse_octal_03: "c < 32 \<Longrightarrow> parse_escape (format_03o c @ t) = Some (c, t)"
proof -
  assume c: "c < 32"
  have "isoctal (48 + c div 64)" "isoctal (48 + c div 8 mod 8)" "isoctal (48 + c mod 8)"
    using c by (auto simp: isoctal_def)
  moreover have "(c div 64 * 8 + c div 8 mod 8) * 8 + c mod 8 = c"
    by (simp add: hex_places)
  ultimately show ?thesis by (simp add: format_03o_def parse_escape_octal numeral_2_eq_2)
qed

lemma parse_octal:
  assumes "c < 32" "t \<noteq> []" "\<not> isoctal (hd t)"
  shows "parse_escape (format_o c @ t) = Some (c, t)"
proof -
  obtain x xs where t: "t = x # xs" "\<not> isoctal x" using assms(2,3) by (cases t) auto
  have o: "isoctal (48 + c mod 8)" "c < 8 \<Longrightarrow> isoctal (48 + c)" "isoctal (48 + c div 8)"
    using assms(1) by (auto simp: isoctal_def)
  have e2: "c div 8 * 8 + c mod 8 = c" by simp
  show ?thesis
    using assms(1) t o e2 by (auto simp: format_o_def parse_escape_octal numeral_2_eq_2)
qed

lemma escapes_parse: "c < 32 \<Longrightarrow> escapes c \<noteq> 46 \<Longrightarrow> parse_escape (escapes c # t) = Some (c, t)"
  by (auto simp: escapes_def parse_escape_def split: if_splits)

lemma parse_loop_escape:
  assumes "92 \<noteq> endc" "0 < room" "q \<noteq> []" "parse_escape (q @ t) = Some (c, t)"
  shows "parse_loop endc room acc ((92 # q) @ t) = parse_loop endc (room - 1) (acc @ [c]) t"
  using assms by (subst parse_loop.simps) auto

lemma parse_loop_quoted:
  assumes "92 \<noteq> endc" "0 < room" "parse_escape (c # t) = None" "c < 128"
  shows "parse_loop endc room acc ([92, c] @ t) = parse_loop endc (room - 1) (acc @ [c]) t"
  using assms by (subst parse_loop.simps) auto

lemma parse_loop_plain:
  assumes "c \<noteq> endc" "c \<noteq> 92" "0 < room" "c < 128"
  shows "parse_loop endc room acc ([c] @ t) = parse_loop endc (room - 1) (acc @ [c]) t"
  using assms by (subst parse_loop.simps) auto

lemma parse_escape_None:
  "good_escape c \<or> c = 92 \<Longrightarrow> parse_escape (c # t) = None"
proof -
  assume c: "good_escape c \<or> c = 92"
  have x: "\<not> isxdigit c" "c \<notin> {110, 114, 116, 118, 120}" using c by (auto simp: good_escape_def isxdigit_def isdigit_def)
  have "\<forall>d \<in> {97, 98, 101, 102}. isxdigit d" by (simp add: isxdigit_def)
  then have "c \<notin> {97, 98, 101, 102}" using x(1) by blast
  moreover have "\<not> isoctal c" using x(1) by (auto simp: isoctal_def isxdigit_def isdigit_def)
  ultimately show ?thesis using x(2) by (simp add: parse_escape_def)
qed

lemma dump_hd:
  assumes "good_escape endc"
  shows "dump_strW e0 e1 cs @ endc # rest \<noteq> []"
    "\<not> (cs \<noteq> [] \<and> hd cs < 128 \<and> isxdigit (hd cs)) \<Longrightarrow> \<not> isxdigit (hd (dump_strW e0 e1 cs @ endc # rest))"
    "\<not> (cs \<noteq> [] \<and> isoctal (hd cs)) \<Longrightarrow> \<not> isoctal (hd (dump_strW e0 e1 cs @ endc # rest))"
proof -
  have e: "\<not> isxdigit endc" "\<not> isoctal endc"
    using assms by (auto simp: good_escape_def isxdigit_def isdigit_def isoctal_def)
  have b: "\<not> isxdigit 92" "\<not> isoctal 92" by (simp_all add: isxdigit_def isdigit_def isoctal_def)
  have d: "hd (dump_char e0 e1 c ds @ t) = 92 \<or> (c < 128 \<and> hd (dump_char e0 e1 c ds @ t) = c)" for c ds t
    by (simp add: dump_char_def)
  show "dump_strW e0 e1 cs @ endc # rest \<noteq> []" by simp
  show "\<not> (cs \<noteq> [] \<and> hd cs < 128 \<and> isxdigit (hd cs)) \<Longrightarrow> \<not> isxdigit (hd (dump_strW e0 e1 cs @ endc # rest))"
  proof (cases cs)
    case (Cons c ds)
    assume "\<not> (cs \<noteq> [] \<and> hd cs < 128 \<and> isxdigit (hd cs))"
    then show ?thesis using Cons b d[of c ds "dump_strW e0 e1 ds @ endc # rest"] by auto
  qed (simp add: e)
  show "\<not> (cs \<noteq> [] \<and> isoctal (hd cs)) \<Longrightarrow> \<not> isoctal (hd (dump_strW e0 e1 cs @ endc # rest))"
  proof (cases cs)
    case (Cons c ds)
    assume "\<not> (cs \<noteq> [] \<and> isoctal (hd cs))"
    then show ?thesis using Cons b d[of c ds "dump_strW e0 e1 ds @ endc # rest"] by auto
  qed (simp add: e)
qed

lemma dump_char_parsed:
  assumes "c < 65536" "good_escape e0" "good_escape e1" "endc = e0 \<or> endc = e1" "0 < room"
  shows "parse_loop endc room acc (dump_char e0 e1 c cs @ dump_strW e0 e1 cs @ endc # rest) =
    parse_loop endc (room - 1) (acc @ [c]) (dump_strW e0 e1 cs @ endc # rest)"
proof -
  let ?t = "dump_strW e0 e1 cs @ endc # rest"
  have g: "good_escape endc" "92 \<noteq> endc" using assms(2-4) by (auto simp: good_escape_def)
  note hd = dump_hd[OF g(1), where ?e0.0 = e0 and ?e1.0 = e1 and cs = cs and rest = rest]
  note esc = parse_loop_escape[OF g(2) assms(5)]
  show ?thesis
  proof (cases "c > 127")
    case True
    show ?thesis
    proof (cases "cs \<noteq> [] \<and> hd cs < 128 \<and> isxdigit (hd cs)")
      case x: True
      then show ?thesis
        using True esc[of "120 # format_04x c" ?t c] parse_hex_04[OF assms(1)] by (simp add: dump_char_def)
    next
      case x: False
      then have "dump_char e0 e1 c cs = 92 # 120 # format_x c" using True by (auto simp: dump_char_def)
      then show ?thesis
        using esc[of "120 # format_x c" ?t c] parse_hex_escape[OF assms(1) True hd(1) hd(2)[OF x]] by simp
    qed
  next
    case False
    show ?thesis
    proof (cases "c < 32")
      case True
      have ne: "format_03o c \<noteq> []" "format_o c \<noteq> []" by (auto simp: format_o_def format_03o_def)
      consider (named) "escapes c \<noteq> 46" | (three) "escapes c = 46" "cs \<noteq> [] \<and> isoctal (hd cs)"
        | (short) "escapes c = 46" "\<not> (cs \<noteq> [] \<and> isoctal (hd cs))" by blast
      then show ?thesis
      proof cases
        case named
        then show ?thesis
          using True esc[of "[escapes c]" ?t c] escapes_parse[OF True] by (simp add: dump_char_def)
      next
        case three
        then show ?thesis
          using True esc[OF ne(1), of ?t c] parse_octal_03[OF True] by (simp add: dump_char_def)
      next
        case short
        then have "dump_char e0 e1 c cs = 92 # format_o c" using True by (auto simp: dump_char_def)
        then show ?thesis
          using esc[OF ne(2), of ?t c] parse_octal[OF True hd(1) hd(3)[OF short(2)]] by simp
      qed
    next
      case ge: False
      show ?thesis
      proof (cases "c = 92 \<or> c = e0 \<or> c = e1")
        case True
        then have "good_escape c \<or> c = 92" using assms(2,3) by auto
        then have "parse_escape (c # ?t) = None" by (rule parse_escape_None)
        then show ?thesis
          using True False ge parse_loop_quoted[OF g(2) assms(5), of c ?t] by (simp add: dump_char_def)
      next
        case nq: False
        then have "c \<noteq> endc" "c \<noteq> 92" using assms(4) by auto
        moreover have "dump_char e0 e1 c cs = [c]" using nq False ge by (simp add: dump_char_def)
        moreover have "c < 128" using False by simp
        ultimately show ?thesis
          using parse_loop_plain[of c endc room acc ?t] assms(5) by simp
      qed
    qed
  qed
qed

lemma parse_loop_dump:
  assumes "good_escape e0" "good_escape e1" "endc = e0 \<or> endc = e1"
  shows "\<forall>c \<in> set cs. c < 65536 \<Longrightarrow> length cs < room \<Longrightarrow>
    parse_loop endc room acc (dump_strW e0 e1 cs @ endc # rest) = (acc @ cs, room - length cs, endc # rest)"
proof (induction cs arbitrary: acc room)
  case Nil
  then show ?case by (subst parse_loop.simps) simp
next
  case (Cons c cs)
  then show ?case using dump_char_parsed[OF _ assms, of c room acc cs rest] by simp
qed

section \<open>Properties\<close>

text \<open>
  C18: \<^verbatim>\<open>parse_strW\<close> reads back what \<^verbatim>\<open>dump_strW\<close> wrote: every string of 16-bit characters, with
  control characters, surrogates and quotes, dumped and followed by its delimiter, is parsed to the
  same string with a terminating 0, and exactly its bytes are consumed.
\<close>

theorem dump_parse_roundtrip:
  assumes "good_escape e0" "good_escape e1" "endc = e0 \<or> endc = e1"
    and "\<forall>c \<in> set str. c < 65536" "length str < room"
  shows "parse_strW room (dump_strW e0 e1 str @ endc # rest) endc = Some (str @ [0], length (dump_strW e0 e1 str) + 1)"
  using parse_loop_dump[OF assms(1-3) assms(4,5), of "[]" rest] assms(5) by (simp add: parse_strW_def)

theorem dump_parse_roundtrip_witness:
  "parse_strW 10 (dump_strW 34 34 [0, 7, 49, 34, 92, 0x41, 0xd83d, 0x66] @ [34]) 34 =
     Some ([0, 7, 49, 34, 92, 0x41, 0xd83d, 0x66, 0], length (dump_strW 34 34 [0, 7, 49, 34, 92, 0x41, 0xd83d, 0x66]) + 1)"
  using dump_parse_roundtrip[of 34 34 34 "[0, 7, 49, 34, 92, 0x41, 0xd83d, 0x66]" 10 "[]"]
  by (simp add: good_escape_def isxdigit_def isdigit_def)

end
