(* ===== verification/Atoms.thy ===== *)
theory Atoms
  imports Unicode_Correct
begin

text \<open>
  Atom tables, \<^verbatim>\<open>server/atom.c\<close>: reference-counted names, found by a hash that ignores case.

  The array of entry pointers is the function \<open>atoms\<close> on slots, \<^verbatim>\<open>NULL\<close> being \<open>None\<close>.  An entry is
  known by its slot, and a hash chain (linked through \<^verbatim>\<open>next\<close> and \<^verbatim>\<open>prev\<close>) is the list of the slots
  of its entries from the head on.  A name is the list of its characters, so that \<^verbatim>\<open>str.len\<close> is twice
  its length.  Reference counts are integers: the C \<^verbatim>\<open>int\<close> holds them while fewer than 2^31
  references to one atom are outstanding.
\<close>

section \<open>Data\<close>

definition HASH_SIZE :: nat where "HASH_SIZE = 37"
definition MIN_STR_ATOM :: nat where "MIN_STR_ATOM = 0xc000"
definition MAX_ATOMS :: nat where "MAX_ATOMS = 0x4000"
definition MAXINTATOM :: nat where "MAXINTATOM = 0xc000"
definition MAX_ATOM_LEN :: nat where "MAX_ATOM_LEN = 255"

type_synonym atom_t = nat

record atom_entry =
  ref_count :: int
  atom :: atom_t
  hash :: nat
  len :: nat
  str :: "wchar list"

record atom_table =
  used :: nat
  atoms :: "nat \<Rightarrow> atom_entry option"
  entries :: "nat \<Rightarrow> nat list"

section \<open>Operations\<close>

definition create_atom_table :: atom_table where
  "create_atom_table = \<lparr>used = 1, atoms = (\<lambda>_. None), entries = (\<lambda>_. [])\<rparr>"

text \<open>The slot of an atom in use; the table may be \<^verbatim>\<open>NULL\<close>.\<close>

definition get_atom_entry :: "atom_table option \<Rightarrow> atom_t \<Rightarrow> atom_entry result" where
  "get_atom_entry table a =
     (case table of
        None \<Rightarrow> Inl STATUS_INVALID_HANDLE
      | Some t \<Rightarrow>
          if MIN_STR_ATOM \<le> a \<and> a < MIN_STR_ATOM + used t
          then (case atoms t (a - MIN_STR_ATOM) of None \<Rightarrow> Inl STATUS_INVALID_HANDLE | Some e \<Rightarrow> Inr e)
          else Inl STATUS_INVALID_HANDLE)"

text \<open>The loop that looks for an unused slot from \<open>i\<close> on, with \<open>n\<close> slots to go.\<close>

fun free_slot :: "(nat \<Rightarrow> atom_entry option) \<Rightarrow> nat \<Rightarrow> nat \<Rightarrow> nat" where
  "free_slot as i 0 = i"
| "free_slot as i (Suc n) = (if as i = None then i else free_slot as (i + 1) n)"

definition add_atom_entry :: "atom_table \<Rightarrow> atom_entry \<Rightarrow> (atom_table \<times> atom_t) option" where
  "add_atom_entry t e =
     (let i = free_slot (atoms t) 1 (used t - 1) in
      if i = MAX_ATOMS then None
      else Some (t\<lparr>used := (if i = used t then used t + 1 else used t),
                   atoms := (atoms t)(i \<mapsto> e\<lparr>atom := i + MIN_STR_ATOM\<rparr>)\<rparr>,
                 i + MIN_STR_ATOM))"

fun int_atom_digits :: "nat \<Rightarrow> wchar list \<Rightarrow> atom_t" where
  "int_atom_digits ret [] = ret"
| "int_atom_digits ret (c # cs) =
     (if c < 48 \<or> c > 57 then 0
      else let r = (ret * 10 + c - 48) mod 2 ^ 32 in
           if r \<ge> MAXINTATOM then 0 else int_atom_digits r cs)"

text \<open>Only called for names that are not empty.\<close>

fun get_int_atom_value :: "wchar list \<Rightarrow> atom_t" where
  "get_int_atom_value [] = 0"
| "get_int_atom_value (c # cs) = (if c \<noteq> 35 then 0 else int_atom_digits 0 cs)"

definition entry_matches :: "(nat \<Rightarrow> nat) \<Rightarrow> atom_table \<Rightarrow> wchar list \<Rightarrow> nat \<Rightarrow> bool" where
  "entry_matches cm t name i =
     (case atoms t i of None \<Rightarrow> False
      | Some e \<Rightarrow> len e = 2 * length name \<and> memicmp_strW cm (str e) name = 0)"

definition find_atom_entry :: "(nat \<Rightarrow> nat) \<Rightarrow> atom_table \<Rightarrow> wchar list \<Rightarrow> nat \<Rightarrow> nat option" where
  "find_atom_entry cm t name h = find (entry_matches cm t name) (entries t h)"

definition ref_entry :: "atom_table \<Rightarrow> nat \<Rightarrow> atom_table" where
  "ref_entry t i = t\<lparr>atoms := (atoms t)(i := map_option (\<lambda>e. e\<lparr>ref_count := ref_count e + 1\<rparr>) (atoms t i))\<rparr>"

text \<open>\<open>ok\<close> says whether \<^verbatim>\<open>mem_alloc\<close> succeeds.\<close>

definition add_atom :: "(nat \<Rightarrow> nat) \<Rightarrow> bool \<Rightarrow> atom_table \<Rightarrow> wchar list \<Rightarrow> atom_table \<times> atom_t result" where
  "add_atom cm ok t name =
     (if name = [] then (t, Inl STATUS_OBJECT_NAME_INVALID)
      else if length name > MAX_ATOM_LEN then (t, Inl STATUS_INVALID_PARAMETER)
      else if get_int_atom_value name \<noteq> 0 then (t, Inr (get_int_atom_value name))
      else let h = hash_strW cm name HASH_SIZE in
        case find_atom_entry cm t name h of
          Some i \<Rightarrow> (ref_entry t i, case atoms t i of Some e \<Rightarrow> Inr (atom e) | None \<Rightarrow> Inl STATUS_INVALID_HANDLE)
        | None \<Rightarrow>
            if \<not> ok then (t, Inl STATUS_NO_MEMORY)
            else (case add_atom_entry t \<lparr>ref_count = 1, atom = 0, hash = h, len = 2 * length name, str = name\<rparr> of
                    None \<Rightarrow> (t, Inl STATUS_NO_MEMORY)
                  | Some (t', a) \<Rightarrow>
                      (t'\<lparr>entries := (entries t')(h := (a - MIN_STR_ATOM) # entries t' h)\<rparr>, Inr a)))"

text \<open>The flag is not used by the code.\<close>

definition delete_atom :: "atom_table \<Rightarrow> atom_t \<Rightarrow> bool \<Rightarrow> atom_table \<times> unit result" where
  "delete_atom t a if_pinned =
     (case get_atom_entry (Some t) a of
        Inl s \<Rightarrow> (t, Inl s)
      | Inr e \<Rightarrow>
          let i = a - MIN_STR_ATOM; c = ref_count e - 1 in
          if c = 0
          then (t\<lparr>entries := (entries t)(hash e := remove1 i (entries t (hash e))), atoms := (atoms t)(i := None)\<rparr>, Inr ())
          else (t\<lparr>atoms := (atoms t)(i \<mapsto> e\<lparr>ref_count := c\<rparr>)\<rparr>, Inr ()))"

definition find_atom :: "(nat \<Rightarrow> nat) \<Rightarrow> atom_table \<Rightarrow> wchar list \<Rightarrow> atom_t result" where
  "find_atom cm t name =
     (if name = [] then Inl STATUS_OBJECT_NAME_INVALID
      else if length name > MAX_ATOM_LEN then Inl STATUS_INVALID_PARAMETER
      else if get_int_atom_value name \<noteq> 0 then Inr (get_int_atom_value name)
      else case find_atom_entry cm t name (hash_strW cm name HASH_SIZE) of
             None \<Rightarrow> Inl STATUS_OBJECT_NAME_NOT_FOUND
           | Some i \<Rightarrow> (case atoms t i of Some e \<Rightarrow> Inr (atom e) | None \<Rightarrow> Inl STATUS_INVALID_HANDLE))"

definition grab_atom :: "atom_table \<Rightarrow> atom_t \<Rightarrow> atom_table \<times> atom_t result" where
  "grab_atom t a =
     (if a \<ge> MIN_STR_ATOM
      then (case get_atom_entry (Some t) a of
              Inl s \<Rightarrow> (t, Inl s)
            | Inr e \<Rightarrow> (ref_entry t (a - MIN_STR_ATOM), Inr a))
      else (t, Inr a))"

definition release_atom :: "atom_table \<Rightarrow> atom_t \<Rightarrow> atom_table \<times> unit result" where
  "release_atom t a = (if a \<ge> MIN_STR_ATOM then delete_atom t a True else (t, Inr ()))"

section \<open>The global and the user table\<close>

record atom_tables =
  global_table :: atom_table
  user_table :: atom_table

text \<open>The error of \<^verbatim>\<open>add_atom\<close> is ignored.\<close>

definition add_atom_asciiz :: "(nat \<Rightarrow> nat) \<Rightarrow> bool \<Rightarrow> string \<Rightarrow> atom_table \<Rightarrow> atom_table" where
  "add_atom_asciiz cm ok name t = fst (add_atom cm ok t (map of_char name))"

definition set_global_atom_table :: "(nat \<Rightarrow> nat) \<Rightarrow> bool \<Rightarrow> atom_table \<Rightarrow> atom_table" where
  "set_global_atom_table cm ok t =
     fold (add_atom_asciiz cm ok)
       [''StdExit'', ''StdNewDocument'', ''StdOpenDocument'', ''StdEditDocument'', ''StdNewfromTemplate'',
        ''StdCloseDocument'', ''StdShowItem'', ''StdDoVerbItem'', ''System'', ''OLEsystem'', ''StdDocumentName'',
        ''Protocols'', ''Topics'', ''Formats'', ''Status'', ''EditEnvItems'', ''True'', ''False'', ''Change'',
        ''Save'', ''Close'', ''MSDraw'', ''CC32SubclassInfo''] t"

definition set_user_atom_table :: "(nat \<Rightarrow> nat) \<Rightarrow> bool \<Rightarrow> atom_table \<Rightarrow> atom_table" where
  "set_user_atom_table cm ok t =
     fold (add_atom_asciiz cm ok)
       [''USER32'', ''ObjectLink'', ''OwnerLink'', ''Native'', ''Binary'', ''FileName'', ''FileNameW'',
        ''NetworkName'', ''DataObject'', ''Embedded Object'', ''Embed Source'', ''Custom Link Source'',
        ''Link Source'', ''Object Descriptor'', ''Link Source Descriptor'', ''OleDraw'', ''PBrush'', ''MSDraw'',
        ''Ole Private Data'', ''Screen Picture'', ''OleClipboardPersistOnFlush'', ''MoreOlePrivateData'',
        ''Button'', ''Edit'', ''Static'', ''ListBox'', ''ScrollBar'', ''ComboBox''] t"

section \<open>Requests\<close>

definition req_add_atom :: "(nat \<Rightarrow> nat) \<Rightarrow> bool \<Rightarrow> atom_tables \<Rightarrow> wchar list \<Rightarrow> atom_tables \<times> atom_t result" where
  "req_add_atom cm ok s name =
     (let (t, r) = add_atom cm ok (global_table s) name in (s\<lparr>global_table := t\<rparr>, r))"

definition req_delete_atom :: "atom_tables \<Rightarrow> atom_t \<Rightarrow> atom_tables \<times> unit result" where
  "req_delete_atom s a = (let (t, r) = delete_atom (global_table s) a False in (s\<lparr>global_table := t\<rparr>, r))"

definition req_find_atom :: "(nat \<Rightarrow> nat) \<Rightarrow> atom_tables \<Rightarrow> wchar list \<Rightarrow> atom_t result" where
  "req_find_atom cm s name = find_atom cm (global_table s) name"

definition wchar_bytes :: "wchar list \<Rightarrow> byte list" where
  "wchar_bytes cs = concat (map (\<lambda>c. [c mod 256, c div 256]) cs)"

text \<open>The reply's data, count, pinned flag and total length; the count is -1 with the error.\<close>

definition req_get_atom_information ::
    "atom_tables \<Rightarrow> atom_t \<Rightarrow> nat \<Rightarrow> (status \<times> int) + (byte list \<times> int \<times> nat \<times> nat)" where
  "req_get_atom_information s a reply_max_size =
     (case get_atom_entry (Some (global_table s)) a of
        Inl e \<Rightarrow> Inl (e, -1)
      | Inr e \<Rightarrow> Inr (take (min (len e) reply_max_size) (wchar_bytes (str e)), ref_count e, 0, len e))"

definition req_add_user_atom :: "(nat \<Rightarrow> nat) \<Rightarrow> bool \<Rightarrow> atom_tables \<Rightarrow> wchar list \<Rightarrow> atom_tables \<times> atom_t result" where
  "req_add_user_atom cm ok s name =
     (let (t, r) = add_atom cm ok (user_table s) name in (s\<lparr>user_table := t\<rparr>, r))"

definition req_get_user_atom_name :: "atom_tables \<Rightarrow> atom_t \<Rightarrow> nat \<Rightarrow> (byte list \<times> nat) result" where
  "req_get_user_atom_name s a reply_max_size =
     (case get_atom_entry (Some (user_table s)) a of
        Inl e \<Rightarrow> Inl e
      | Inr e \<Rightarrow> Inr (take (min (len e) reply_max_size) (wchar_bytes (str e)), len e))"

lemmas atom_consts [simp] = HASH_SIZE_def MIN_STR_ATOM_def MAX_ATOMS_def MAXINTATOM_def MAX_ATOM_LEN_def

section \<open>Invariant\<close>

abbreviation fold_name :: "(nat \<Rightarrow> nat) \<Rightarrow> wchar list \<Rightarrow> wchar list" where
  "fold_name cm \<equiv> map (to_lower cm)"

text \<open>What an entry in slot \<open>i\<close> holds.\<close>

definition entry_ok :: "(nat \<Rightarrow> nat) \<Rightarrow> nat \<Rightarrow> atom_entry \<Rightarrow> bool" where
  "entry_ok cm i e =
     (atom e = i + MIN_STR_ATOM \<and> 0 < ref_count e \<and> hash e = hash_strW cm (str e) HASH_SIZE \<and>
      len e = 2 * length (str e) \<and> str e \<noteq> [] \<and> length (str e) \<le> MAX_ATOM_LEN \<and> get_int_atom_value (str e) = 0)"

definition atom_inv :: "(nat \<Rightarrow> nat) \<Rightarrow> atom_table \<Rightarrow> bool" where
  "atom_inv cm t =
     (1 \<le> used t \<and> used t \<le> MAX_ATOMS \<and> atoms t 0 = None \<and> (\<forall>i \<ge> used t. atoms t i = None) \<and>
      (\<forall>i e. atoms t i = Some e \<longrightarrow> entry_ok cm i e) \<and>
      (\<forall>i j e f. atoms t i = Some e \<longrightarrow> atoms t j = Some f \<longrightarrow> fold_name cm (str e) = fold_name cm (str f) \<longrightarrow> i = j) \<and>
      (\<forall>h. distinct (entries t h) \<and> set (entries t h) = {i. \<exists>e. atoms t i = Some e \<and> hash e = h}))"

end
