(* ===== verification/Atom_Correct.thy ===== *)
theory Atom_Correct
  imports Atoms
begin

text \<open>
  Atom tables: the invariant under every operation, and what each operation does to the client's
  view of a table, a map from atoms to names and reference counts.
\<close>

section \<open>Lookup\<close>

lemma free_slot_bounds: "i \<le> free_slot as i n" "free_slot as i n \<le> i + n"
  by (induction as i n rule: free_slot.induct) auto

lemma free_slot_free: "free_slot as i n < i + n \<Longrightarrow> as (free_slot as i n) = None"
  by (induction as i n rule: free_slot.induct) auto

lemma free_slot_first: "i \<le> j \<Longrightarrow> j < free_slot as i n \<Longrightarrow> as j \<noteq> None"
  by (induction as i n rule: free_slot.induct) (auto split: if_splits simp: Suc_le_eq dest: le_neq_implies_less)

lemma atom_inv_D:
  assumes "atom_inv cm t"
  shows "1 \<le> used t" "used t \<le> MAX_ATOMS" "atoms t 0 = None" "used t \<le> i \<Longrightarrow> atoms t i = None"
    "atoms t i = Some e \<Longrightarrow> entry_ok cm i e"
    "atoms t i = Some e \<Longrightarrow> atoms t j = Some f \<Longrightarrow> fold_name cm (str e) = fold_name cm (str f) \<Longrightarrow> i = j"
    "distinct (entries t h)" "set (entries t h) = {i. \<exists>e. atoms t i = Some e \<and> hash e = h}"
  using assms unfolding atom_inv_def by blast+

lemma entry_matches_iff:
  assumes "atom_inv cm t"
  shows "entry_matches cm t name i \<longleftrightarrow> (\<exists>e. atoms t i = Some e \<and> fold_name cm (str e) = fold_name cm name)"
proof (cases "atoms t i")
  case (Some e)
  then have l: "len e = 2 * length (str e)" using atom_inv_D(5)[OF assms] by (simp add: entry_ok_def)
  show ?thesis
  proof (cases "length (str e) = length name")
    case True
    then show ?thesis using Some l memicmp_zero[OF True] by (simp add: entry_matches_def)
  next
    case False
    then show ?thesis using Some l map_eq_imp_length_eq[of "to_lower cm" "str e" "to_lower cm" name] by (auto simp: entry_matches_def)
  qed
qed (simp add: entry_matches_def)

lemma find_atom_entry_Some:
  assumes "atom_inv cm t"
  shows "find_atom_entry cm t name (hash_strW cm name HASH_SIZE) = Some i \<longleftrightarrow>
    (\<exists>e. atoms t i = Some e \<and> fold_name cm (str e) = fold_name cm name)"
proof
  assume "find_atom_entry cm t name (hash_strW cm name HASH_SIZE) = Some i"
  then have "entry_matches cm t name i" unfolding find_atom_entry_def by (auto simp: find_Some_iff)
  then show "\<exists>e. atoms t i = Some e \<and> fold_name cm (str e) = fold_name cm name"
    by (simp only: entry_matches_iff[OF assms])
next
  assume "\<exists>e. atoms t i = Some e \<and> fold_name cm (str e) = fold_name cm name"
  then obtain e where e: "atoms t i = Some e" "fold_name cm (str e) = fold_name cm name" by blast
  then have "hash e = hash_strW cm name HASH_SIZE"
    using atom_inv_D(5)[OF assms e(1)] hash_lower[OF e(2)] by (simp add: entry_ok_def)
  then have i: "i \<in> set (entries t (hash_strW cm name HASH_SIZE))" using atom_inv_D(8)[OF assms] e(1) by blast
  have m: "entry_matches cm t name i" using entry_matches_iff[OF assms] e by blast
  have "find (entry_matches cm t name) (entries t (hash_strW cm name HASH_SIZE)) \<noteq> None"
    using i m by (auto simp: find_None_iff)
  then obtain j where j: "find (entry_matches cm t name) (entries t (hash_strW cm name HASH_SIZE)) = Some j" by blast
  then have "entry_matches cm t name j" by (auto simp: find_Some_iff)
  then obtain f where "atoms t j = Some f" "fold_name cm (str f) = fold_name cm name"
    using entry_matches_iff[OF assms] by blast
  then have "i = j" using atom_inv_D(6)[OF assms e(1)] e(2) by simp
  then show "find_atom_entry cm t name (hash_strW cm name HASH_SIZE) = Some i"
    using j by (simp add: find_atom_entry_def)
qed

lemma find_atom_entry_None:
  assumes "atom_inv cm t"
  shows "find_atom_entry cm t name (hash_strW cm name HASH_SIZE) = None \<longleftrightarrow>
    (\<forall>i e. atoms t i = Some e \<longrightarrow> fold_name cm (str e) \<noteq> fold_name cm name)"
  using find_atom_entry_Some[OF assms, of name] by (metis not_None_eq)

section \<open>The view of a client\<close>

text \<open>The abstract state of a table: the name and the number of references of every string atom.\<close>

definition atom_view :: "atom_table \<Rightarrow> atom_t \<rightharpoonup> wchar list \<times> int" where
  "atom_view t a = (if MIN_STR_ATOM \<le> a then map_option (\<lambda>e. (str e, ref_count e)) (atoms t (a - MIN_STR_ATOM)) else None)"

text \<open>The names that denote string atoms.\<close>

definition string_atom :: "wchar list \<Rightarrow> bool" where
  "string_atom name = (name \<noteq> [] \<and> length name \<le> MAX_ATOM_LEN \<and> get_int_atom_value name = 0)"

lemma get_atom_entry_iff:
  assumes "atom_inv cm t"
  shows "get_atom_entry (Some t) a = Inr e \<longleftrightarrow> MIN_STR_ATOM \<le> a \<and> atoms t (a - MIN_STR_ATOM) = Some e"
proof -
  have "a < MIN_STR_ATOM + used t" if "MIN_STR_ATOM \<le> a" "atoms t (a - MIN_STR_ATOM) = Some e"
    using atom_inv_D(4)[OF assms, of "a - MIN_STR_ATOM"] that by (cases "a - MIN_STR_ATOM < used t") auto
  then show ?thesis by (auto simp: get_atom_entry_def split: option.splits)
qed

lemma get_atom_entry_Inl:
  assumes "atom_inv cm t"
  shows "get_atom_entry (Some t) a = Inl s \<longleftrightarrow> atom_view t a = None \<and> s = STATUS_INVALID_HANDLE"
proof (cases "get_atom_entry (Some t) a")
  case (Inl x)
  then have "x = STATUS_INVALID_HANDLE" by (auto simp: get_atom_entry_def split: if_splits option.splits)
  moreover have "atom_view t a = None"
    using Inl get_atom_entry_iff[OF assms, of a] by (fastforce simp: atom_view_def)
  ultimately show ?thesis using Inl by auto
next
  case (Inr e)
  then show ?thesis using get_atom_entry_iff[OF assms, of a e] by (auto simp: atom_view_def)
qed

section \<open>Every operation keeps the invariant\<close>

text \<open>A change of the reference count alone, and a new name.\<close>

lemma atom_inv_count:
  assumes inv: "atom_inv cm t" and e: "atoms t i = Some e" and c: "0 < c"
  shows "atom_inv cm (t\<lparr>atoms := (atoms t)(i \<mapsto> e\<lparr>ref_count := c\<rparr>)\<rparr>)"
proof -
  let ?t = "t\<lparr>atoms := (atoms t)(i \<mapsto> e\<lparr>ref_count := c\<rparr>)\<rparr>"
  note D = atom_inv_D[OF inv]
  have a: "\<exists>g. atoms t j = Some g \<and> str g = str f \<and> hash g = hash f" if "atoms ?t j = Some f" for j f
    using that e by (auto split: if_splits)
  have b: "\<exists>g. atoms ?t j = Some g \<and> hash g = hash f" if "atoms t j = Some f" for j f
    using that e by auto
  have i: "i < used t" using D(4)[of i] e by (cases "i < used t") auto
  show ?thesis
    unfolding atom_inv_def
  proof (intro conjI allI impI)
    show "1 \<le> used ?t" "used ?t \<le> MAX_ATOMS" using D(1,2) by simp_all
    show "atoms ?t 0 = None" using D(3) e by (cases i) auto
    show "atoms ?t j = None" if "used ?t \<le> j" for j using that D(4)[of j] i by simp
    show "entry_ok cm j f" if "atoms ?t j = Some f" for j f
      using that D(5)[OF e] D(5)[of j f] c by (auto simp: entry_ok_def split: if_splits)
    show "j = k" if "atoms ?t j = Some f" "atoms ?t k = Some g" "fold_name cm (str f) = fold_name cm (str g)" for j k f g
      using a[OF that(1)] a[OF that(2)] that(3) D(6) by fastforce
    show "distinct (entries ?t h)" for h using D(7) by simp
    show "set (entries ?t h) = {j. \<exists>f. atoms ?t j = Some f \<and> hash f = h}" for h
      using D(8)[of h] a b by fastforce
  qed
qed

lemma ref_entry_eq: "atoms t i = Some e \<Longrightarrow> ref_entry t i = t\<lparr>atoms := (atoms t)(i \<mapsto> e\<lparr>ref_count := ref_count e + 1\<rparr>)\<rparr>"
  by (simp add: ref_entry_def)

lemma atom_inv_ref: "atom_inv cm t \<Longrightarrow> atoms t i = Some e \<Longrightarrow> atom_inv cm (ref_entry t i)"
  using atom_inv_count[of cm t i e "ref_count e + 1"] atom_inv_D(5)[of cm t i e] by (simp add: ref_entry_eq entry_ok_def)

definition new_atom :: "(nat \<Rightarrow> nat) \<Rightarrow> atom_table \<Rightarrow> wchar list \<Rightarrow> nat \<Rightarrow> atom_table" where
  "new_atom cm t name i =
     (let h = hash_strW cm name HASH_SIZE in
      t\<lparr>used := (if i = used t then used t + 1 else used t),
        atoms := (atoms t)(i \<mapsto> \<lparr>ref_count = 1, atom = i + MIN_STR_ATOM, hash = h, len = 2 * length name, str = name\<rparr>),
        entries := (entries t)(h := i # entries t h)\<rparr>)"

lemma atom_inv_new:
  assumes inv: "atom_inv cm t" and i: "1 \<le> i" "i \<le> used t" "i < MAX_ATOMS" "atoms t i = None"
    and name: "string_atom name" "\<And>j f. atoms t j = Some f \<Longrightarrow> fold_name cm (str f) \<noteq> fold_name cm name"
  shows "atom_inv cm (new_atom cm t name i)"
proof -
  let ?t = "new_atom cm t name i" and ?h = "hash_strW cm name HASH_SIZE"
  let ?e = "\<lparr>ref_count = 1, atom = i + MIN_STR_ATOM, hash = ?h, len = 2 * length name, str = name\<rparr>"
  note D = atom_inv_D[OF inv]
  have at: "atoms ?t = (atoms t)(i \<mapsto> ?e)" and en: "entries ?t = (entries t)(?h := i # entries t ?h)"
    and us: "used ?t = (if i = used t then used t + 1 else used t)"
    by (simp_all add: new_atom_def Let_def)
  have ni: "i \<notin> set (entries t h)" for h using D(8)[of h] i(4) by simp
  show ?thesis
    unfolding atom_inv_def
  proof (intro conjI allI impI)
    show "1 \<le> used ?t" "used ?t \<le> MAX_ATOMS" using D(1,2) i(2,3) us by simp_all
    show "atoms ?t 0 = None" using D(3) i(1) at by simp
    show "atoms ?t j = None" if "used ?t \<le> j" for j using that D(4)[of j] i(2) us at by (auto split: if_splits)
    show "entry_ok cm j f" if "atoms ?t j = Some f" for j f
      using that D(5)[of j f] name(1) at by (auto simp: entry_ok_def string_atom_def split: if_splits)
    show "j = k" if "atoms ?t j = Some f" "atoms ?t k = Some g" "fold_name cm (str f) = fold_name cm (str g)" for j k f g
      using that D(6)[of j f k g] name(2)[of j f] name(2)[of k g] at by (auto split: if_splits)
    show "distinct (entries ?t h)" for h using D(7) ni en by simp
    show "set (entries ?t h) = {j. \<exists>f. atoms ?t j = Some f \<and> hash f = h}" for h
      using D(8)[of h] i(4) at en by auto
  qed
qed

lemma atom_inv_delete:
  assumes inv: "atom_inv cm t" and e: "atoms t i = Some e"
  shows "atom_inv cm (t\<lparr>entries := (entries t)(hash e := remove1 i (entries t (hash e))), atoms := (atoms t)(i := None)\<rparr>)"
    (is "atom_inv cm ?t")
proof -
  note D = atom_inv_D[OF inv]
  show ?thesis
    unfolding atom_inv_def
  proof (intro conjI allI impI)
    show "1 \<le> used ?t" "used ?t \<le> MAX_ATOMS" "atoms ?t 0 = None" using D(1,2,3) by simp_all
    show "atoms ?t j = None" if "used ?t \<le> j" for j using that D(4)[of j] by simp
    show "entry_ok cm j f" if "atoms ?t j = Some f" for j f
      using that D(5)[of j f] by (auto split: if_splits)
    show "j = k" if "atoms ?t j = Some f" "atoms ?t k = Some g" "fold_name cm (str f) = fold_name cm (str g)" for j k f g
      using that D(6)[of j f k g] by (auto split: if_splits)
    show "distinct (entries ?t h)" for h using D(7) by simp
    show "set (entries ?t h) = {j. \<exists>f. atoms ?t j = Some f \<and> hash f = h}" for h
      using D(8)[of h] D(7)[of h] e by (auto simp: set_remove1_eq)
  qed
qed


section \<open>The operations on the client's view\<close>

lemma view_ref:
  "atoms t i = Some e \<Longrightarrow> atom_view (ref_entry t i) = (atom_view t)(i + MIN_STR_ATOM \<mapsto> (str e, ref_count e + 1))"
  by (rule ext) (auto simp: atom_view_def ref_entry_def)

lemma view_new: "atom_view (new_atom cm t name i) = (atom_view t)(i + MIN_STR_ATOM \<mapsto> (name, 1))"
  by (rule ext) (auto simp: atom_view_def new_atom_def Let_def)

lemma add_atom_known:
  assumes "atom_inv cm t" "string_atom name" "atoms t i = Some e" "fold_name cm (str e) = fold_name cm name"
  shows "add_atom cm ok t name = (ref_entry t i, Inr (i + MIN_STR_ATOM))"
proof -
  have "find_atom_entry cm t name (hash_strW cm name HASH_SIZE) = Some i"
    using find_atom_entry_Some[OF assms(1)] assms(3,4) by blast
  moreover have "atom e = i + MIN_STR_ATOM" using atom_inv_D(5)[OF assms(1,3)] by (simp add: entry_ok_def)
  ultimately show ?thesis using assms(2,3) by (simp add: add_atom_def string_atom_def Let_def)
qed

lemma add_atom_new:
  assumes "atom_inv cm t" "string_atom name"
    and "\<And>j f. atoms t j = Some f \<Longrightarrow> fold_name cm (str f) \<noteq> fold_name cm name"
  shows "add_atom cm True t name =
    (let i = free_slot (atoms t) 1 (used t - 1) in
     if i = MAX_ATOMS then (t, Inl STATUS_NO_MEMORY) else (new_atom cm t name i, Inr (i + MIN_STR_ATOM)))"
    and "add_atom cm False t name = (t, Inl STATUS_NO_MEMORY)"
proof -
  have "find_atom_entry cm t name (hash_strW cm name HASH_SIZE) = None"
    using find_atom_entry_None[OF assms(1)] assms(3) by blast
  then show "add_atom cm True t name =
      (let i = free_slot (atoms t) 1 (used t - 1) in
       if i = MAX_ATOMS then (t, Inl STATUS_NO_MEMORY) else (new_atom cm t name i, Inr (i + MIN_STR_ATOM)))"
    and "add_atom cm False t name = (t, Inl STATUS_NO_MEMORY)"
    using assms(2) by (simp_all add: add_atom_def string_atom_def add_atom_entry_def new_atom_def Let_def)
qed

lemma free_slot_table:
  assumes "atom_inv cm t"
  defines "i \<equiv> free_slot (atoms t) 1 (used t - 1)"
  shows "1 \<le> i" "i \<le> used t" "atoms t i = None"
proof -
  note D = atom_inv_D[OF assms(1)]
  show "1 \<le> i" "i \<le> used t"
    using free_slot_bounds[where as = "atoms t" and i = 1 and n = "used t - 1"] D(1) by (simp_all add: i_def)
  then show "atoms t i = None"
    using free_slot_free[of "atoms t" 1 "used t - 1"] D(1) D(4)[of i] by (cases "i < used t") (simp_all add: i_def)
qed

lemma add_atom_not_string:
  "\<not> string_atom name \<Longrightarrow> fst (add_atom cm ok t name) = t"
  by (auto simp: add_atom_def string_atom_def)

text \<open>What \<^verbatim>\<open>add_atom\<close> does to the table: nothing, one more reference, or a new atom.\<close>

lemma add_atom_cases:
  assumes "atom_inv cm t"
  obtains (same) r where "add_atom cm ok t name = (t, r)" "string_atom name \<Longrightarrow> r = Inl STATUS_NO_MEMORY"
  | (ref) i e where "string_atom name" "atoms t i = Some e" "fold_name cm (str e) = fold_name cm name"
      "add_atom cm ok t name = (ref_entry t i, Inr (i + MIN_STR_ATOM))"
  | (new) i where "string_atom name" "1 \<le> i" "i \<le> used t" "i < MAX_ATOMS" "atoms t i = None"
      "\<And>j f. atoms t j = Some f \<Longrightarrow> fold_name cm (str f) \<noteq> fold_name cm name"
      "add_atom cm ok t name = (new_atom cm t name i, Inr (i + MIN_STR_ATOM))"
proof -
  consider "\<not> string_atom name"
    | i e where "string_atom name" "atoms t i = Some e" "fold_name cm (str e) = fold_name cm name"
    | "string_atom name" "\<forall>j f. atoms t j = Some f \<longrightarrow> fold_name cm (str f) \<noteq> fold_name cm name" by blast
  then show thesis
  proof cases
    case 1
    then show thesis using same add_atom_not_string[OF 1, of cm ok t] by (metis prod.collapse)
  next
    case 2
    then show thesis using ref add_atom_known[OF assms 2(1,2,3)] by blast
  next
    case 3
    let ?i = "free_slot (atoms t) 1 (used t - 1)"
    note new' = add_atom_new[OF assms 3(1) 3(2)[rule_format], simplified Let_def]
    show thesis
    proof (cases "ok \<and> ?i \<noteq> MAX_ATOMS")
      case True
      then have "?i < MAX_ATOMS" using free_slot_table(2)[OF assms] atom_inv_D(2)[OF assms] by simp
      then show thesis
        using new[of ?i] 3 True free_slot_table[OF assms] new'(1) by simp
    next
      case False
      then show thesis using same[of "Inl STATUS_NO_MEMORY"] new' by (cases ok) auto
    qed
  qed
qed

lemma atom_inv_add: "atom_inv cm t \<Longrightarrow> atom_inv cm (fst (add_atom cm ok t name))"
  by (rule add_atom_cases[where ok = ok and name = name], assumption) (auto intro: atom_inv_ref atom_inv_new)

lemma delete_atom_cases:
  assumes "atom_inv cm t"
  obtains (invalid) "atom_view t a = None" "delete_atom t a p = (t, Inl STATUS_INVALID_HANDLE)"
  | (last) e where "MIN_STR_ATOM \<le> a" "atoms t (a - MIN_STR_ATOM) = Some e" "ref_count e = 1"
      "delete_atom t a p = (t\<lparr>entries := (entries t)(hash e := remove1 (a - MIN_STR_ATOM) (entries t (hash e))),
         atoms := (atoms t)(a - MIN_STR_ATOM := None)\<rparr>, Inr ())"
  | (more) e where "MIN_STR_ATOM \<le> a" "atoms t (a - MIN_STR_ATOM) = Some e" "1 < ref_count e"
      "delete_atom t a p = (t\<lparr>atoms := (atoms t)(a - MIN_STR_ATOM \<mapsto> e\<lparr>ref_count := ref_count e - 1\<rparr>)\<rparr>, Inr ())"
proof (cases "get_atom_entry (Some t) a")
  case (Inl s)
  then show thesis using invalid get_atom_entry_Inl[OF assms, of a s] by (simp add: delete_atom_def)
next
  case (Inr e)
  then have e: "MIN_STR_ATOM \<le> a" "atoms t (a - MIN_STR_ATOM) = Some e" using get_atom_entry_iff[OF assms] by auto
  then have "0 < ref_count e" using atom_inv_D(5)[OF assms e(2)] by (simp add: entry_ok_def)
  then show thesis
    using last[OF e] more[OF e] Inr by (cases "ref_count e = 1") (simp_all add: delete_atom_def Let_def)
qed

lemma atom_inv_delete_atom: "atom_inv cm t \<Longrightarrow> atom_inv cm (fst (delete_atom t a p))"
  by (rule delete_atom_cases[where a = a and p = p], assumption) (simp_all add: atom_inv_delete atom_inv_count)

lemma atom_inv_grab: "atom_inv cm t \<Longrightarrow> atom_inv cm (fst (grab_atom t a))"
  using get_atom_entry_iff[of cm t a] by (auto simp: grab_atom_def intro: atom_inv_ref split: sum.splits)

lemma atom_inv_release: "atom_inv cm t \<Longrightarrow> atom_inv cm (fst (release_atom t a))"
  by (simp add: release_atom_def atom_inv_delete_atom)

lemma atom_inv_create: "atom_inv cm create_atom_table"
  by (simp add: atom_inv_def create_atom_table_def)

lemma view_delete:
  assumes "atom_inv cm t" "atom_view t a = Some (n, c)"
  shows "atom_view (fst (delete_atom t a p)) = (atom_view t)(a := if c = 1 then None else Some (n, c - 1))"
    and "snd (delete_atom t a p) = Inr ()"
  by (rule delete_atom_cases[OF assms(1), where a = a and p = p]; use assms(2) in \<open>auto simp: atom_view_def fun_eq_iff\<close>)+

end
