(* ===== verification/Atom_Properties.thy ===== *)
theory Atom_Properties
  imports Atom_Correct
begin

text \<open>
  The interface of a table of reference-counted names, its interpretation on \<^verbatim>\<open>atom.c\<close>, the
  reachable states of the server's two tables, and the properties of atoms.
\<close>

section \<open>The interface: reference-counted names\<close>

text \<open>
  A table of names gives a key for a name, the same one for every spelling of it, and forgets the
  key when as many references have been dropped as were taken.
\<close>

locale name_table =
  fixes inv :: "'s \<Rightarrow> bool"
    and view :: "'s \<Rightarrow> 'k \<rightharpoonup> 'n \<times> int"
    and same :: "'n \<Rightarrow> 'n \<Rightarrow> bool"
    and add :: "'s \<Rightarrow> 'n \<Rightarrow> ('s \<times> 'k) option"
    and drop :: "'s \<Rightarrow> 'k \<Rightarrow> 's option"
  assumes inv_add: "inv s \<Longrightarrow> add s n = Some (s', k) \<Longrightarrow> inv s'"
    and inv_drop: "inv s \<Longrightarrow> drop s k = Some s' \<Longrightarrow> inv s'"
    and view_add: "inv s \<Longrightarrow> add s n = Some (s', k) \<Longrightarrow>
      view s' = (view s)(k \<mapsto> (case view s k of None \<Rightarrow> (n, 1) | Some (m, c) \<Rightarrow> (m, c + 1)))"
    and add_same: "inv s \<Longrightarrow> add s n = Some (s', k) \<Longrightarrow> \<exists>m c. view s' k = Some (m, c) \<and> same m n"
    and view_drop: "inv s \<Longrightarrow> drop s k = Some s' \<Longrightarrow>
      \<exists>m c. view s k = Some (m, c) \<and> view s' = (view s)(k := if c = 1 then None else Some (m, c - 1))"
    and same_sym: "same m n \<Longrightarrow> same n m"
    and same_trans: "same l m \<Longrightarrow> same m n \<Longrightarrow> same l n"
    and view_inj: "inv s \<Longrightarrow> view s k = Some (m, c) \<Longrightarrow> view s k' = Some (n, d) \<Longrightarrow> same m n \<Longrightarrow> k = k'"
begin

text \<open>A client's run: the state and the keys it was given, \<open>None\<close> when an operation fails.\<close>

fun run :: "'s \<Rightarrow> ('k, 'n) table_op list \<Rightarrow> ('s \<times> 'k list) option" where
  "run s [] = Some (s, [])"
| "run s (Alloc n # os) =
     (case add s n of None \<Rightarrow> None
      | Some (s', k) \<Rightarrow> map_option (\<lambda>(s'', ks). (s'', k # ks)) (run s' os))"
| "run s (Free k # os) = (case drop s k of None \<Rightarrow> None | Some s' \<Rightarrow> run s' os)"

lemma run_inv: "inv s \<Longrightarrow> run s os = Some (s', ks) \<Longrightarrow> inv s'"
  by (induction s os arbitrary: ks rule: run.induct)
    (fastforce split: option.splits dest: inv_add inv_drop)+

text \<open>While fewer references are dropped than were held, the key stays and its count is exact.\<close>

lemma run_count:
  "\<lbrakk>inv s; view s k = Some (m, c); run s os = Some (s', ks); int (count_list os (Free k)) < c\<rbrakk> \<Longrightarrow>
   view s' k = Some (m, c + int (count_list ks k) - int (count_list os (Free k)))"
proof (induction s os arbitrary: ks c rule: run.induct)
  case (1 s)
  then show ?case by simp
next
  case (2 s n os)
  from "2.prems"(3) obtain s1 k1 ks1 where a: "add s n = Some (s1, k1)"
    and r: "run s1 os = Some (s', ks1)" and ks: "ks = k1 # ks1" by (auto split: option.splits)
  have "view s1 k = Some (m, if k1 = k then c + 1 else c)"
    using view_add[OF "2.prems"(1) a] "2.prems"(2) by (cases "k = k1") auto
  moreover have "inv s1" using inv_add[OF "2.prems"(1) a] .
  ultimately show ?case
    using "2.IH"[OF a refl, of "if k1 = k then c + 1 else c" ks1] r ks "2.prems"(4) by simp
next
  case (3 s k1 os)
  from "3.prems"(3) obtain s1 where f: "drop s k1 = Some s1" and r: "run s1 os = Some (s', ks)"
    by (auto split: option.splits)
  have c: "k1 = k \<Longrightarrow> c \<noteq> 1" using "3.prems"(4) by auto
  have "view s1 k = Some (m, if k1 = k then c - 1 else c)"
    using view_drop[OF "3.prems"(1) f] "3.prems"(2) c by (auto split: if_splits)
  moreover have "inv s1" using inv_drop[OF "3.prems"(1) f] .
  ultimately show ?case
    using "3.IH"[OF f, of "if k1 = k then c - 1 else c" ks] r "3.prems"(4) by (cases "k1 = k") (simp_all add: algebra_simps)
qed

text \<open>While the key lives, every spelling of its name gives that key.\<close>

lemma run_add_same:
  assumes "inv s" "view s k = Some (m, c)" "run s os = Some (s', ks)" "int (count_list os (Free k)) < c"
    and "add s' n = Some (s'', k')" "same m n"
  shows "k' = k"
proof (rule ccontr)
  assume ne: "k' \<noteq> k"
  have i: "inv s'" using run_inv[OF assms(1,3)] .
  obtain d where "view s' k = Some (m, d)" using run_count[OF assms(1-4)] by blast
  then have k: "view s'' k = Some (m, d)" using view_add[OF i assms(5)] ne by simp
  obtain n' e where k': "view s'' k' = Some (n', e)" "same n' n" using add_same[OF i assms(5)] by blast
  have "same m n'" using same_trans[OF assms(6) same_sym[OF k'(2)]] .
  then show False using view_inj[OF inv_add[OF i assms(5)] k k'(1)] ne by simp
qed

end

text \<open>The operations of \<^verbatim>\<open>atom.c\<close> on string atoms are such a table.\<close>

definition add_string_atom :: "(nat \<Rightarrow> nat) \<Rightarrow> bool \<Rightarrow> atom_table \<Rightarrow> wchar list \<Rightarrow> (atom_table \<times> atom_t) option" where
  "add_string_atom cm ok t name =
     (if string_atom name
      then case add_atom cm ok t name of (t', Inr a) \<Rightarrow> Some (t', a) | (t', Inl s) \<Rightarrow> None else None)"

definition drop_atom :: "atom_table \<Rightarrow> atom_t \<Rightarrow> atom_table option" where
  "drop_atom t a = (case delete_atom t a False of (t', Inr u) \<Rightarrow> Some t' | (t', Inl s) \<Rightarrow> None)"

definition same_name :: "(nat \<Rightarrow> nat) \<Rightarrow> wchar list \<Rightarrow> wchar list \<Rightarrow> bool" where
  "same_name cm m n = (fold_name cm m = fold_name cm n)"

lemma atom_view_iff: "atom_view t a = Some (n, c) \<longleftrightarrow>
    MIN_STR_ATOM \<le> a \<and> (\<exists>e. atoms t (a - MIN_STR_ATOM) = Some e \<and> n = str e \<and> c = ref_count e)"
  by (auto simp: atom_view_def)

text \<open>The two ways in which a string atom is added, as seen by the client.\<close>

lemma add_string_atom_view:
  assumes "atom_inv cm t" "add_string_atom cm ok t name = Some (t', a)"
  shows "atom_view t' = (atom_view t)(a \<mapsto> (case atom_view t a of None \<Rightarrow> (name, 1) | Some (m, c) \<Rightarrow> (m, c + 1)))"
    and "\<exists>m c. atom_view t' a = Some (m, c) \<and> same_name cm m name"
    and "atom_inv cm t'"
proof -
  have str: "string_atom name" and add: "add_atom cm ok t name = (t', Inr a)"
    using assms(2) by (auto simp: add_string_atom_def split: if_splits sum.splits prod.splits)
  then have inv': "atom_inv cm t'" using atom_inv_add[OF assms(1), of ok name] by simp
  have v: "atom_view t' = (atom_view t)(a \<mapsto> (case atom_view t a of None \<Rightarrow> (name, 1) | Some (m, c) \<Rightarrow> (m, c + 1))) \<and>
      (\<exists>m c. atom_view t' a = Some (m, c) \<and> same_name cm m name)"
  proof (rule add_atom_cases[OF assms(1), where ok = ok and name = name])
    fix r assume "add_atom cm ok t name = (t, r)" "string_atom name \<Longrightarrow> r = Inl STATUS_NO_MEMORY"
    then show ?thesis using add str by simp
  next
    fix i e assume e: "atoms t i = Some e" "fold_name cm (str e) = fold_name cm name"
      and "add_atom cm ok t name = (ref_entry t i, Inr (i + MIN_STR_ATOM))"
    then have "t' = ref_entry t i" "a = i + MIN_STR_ATOM" using add by auto
    then show ?thesis using view_ref[OF e(1)] e by (simp add: atom_view_def same_name_def)
  next
    fix i assume i: "atoms t i = None" and "add_atom cm ok t name = (new_atom cm t name i, Inr (i + MIN_STR_ATOM))"
    then have "t' = new_atom cm t name i" "a = i + MIN_STR_ATOM" using add by auto
    then show ?thesis using view_new[of cm t name i] i by (simp add: atom_view_def same_name_def)
  qed
  show "atom_view t' = (atom_view t)(a \<mapsto> (case atom_view t a of None \<Rightarrow> (name, 1) | Some (m, c) \<Rightarrow> (m, c + 1)))"
    "\<exists>m c. atom_view t' a = Some (m, c) \<and> same_name cm m name" "atom_inv cm t'"
    using v inv' by blast+
qed

lemma drop_atom_view:
  assumes "atom_inv cm t" "drop_atom t a = Some t'"
  shows "\<exists>m c. atom_view t a = Some (m, c) \<and> atom_view t' = (atom_view t)(a := if c = 1 then None else Some (m, c - 1))"
proof -
  have t': "t' = fst (delete_atom t a False)" "snd (delete_atom t a False) = Inr ()"
    using assms(2) by (auto simp: drop_atom_def split: prod.splits sum.splits)
  then have "atom_view t a \<noteq> None"
    using get_atom_entry_Inl[OF assms(1), of a STATUS_INVALID_HANDLE] by (auto simp: delete_atom_def)
  then obtain m c where v: "atom_view t a = Some (m, c)" by auto
  then show ?thesis using view_delete(1)[OF assms(1) v] t'(1) by blast
qed

interpretation atom_names: name_table "atom_inv cm" atom_view "same_name cm" "add_string_atom cm ok" drop_atom
  for cm ok
proof
  show "atom_inv cm s'" if "atom_inv cm s" "add_string_atom cm ok s n = Some (s', k)" for s n s' k
    using add_string_atom_view(3)[OF that] .
  show "atom_inv cm s'" if "atom_inv cm s" "drop_atom s k = Some s'" for s k s'
    using that atom_inv_delete_atom[of cm s k False] by (auto simp: drop_atom_def split: prod.splits sum.splits)
  show "k = k'" if "atom_inv cm s" "atom_view s k = Some (m, c)" "atom_view s k' = Some (n, d)" "same_name cm m n"
    for s k k' m n c d
  proof -
    note p = that
    obtain e f where e: "MIN_STR_ATOM \<le> k" "atoms s (k - MIN_STR_ATOM) = Some e" "m = str e"
      and f: "MIN_STR_ATOM \<le> k'" "atoms s (k' - MIN_STR_ATOM) = Some f" "n = str f"
      using p(2,3) unfolding atom_view_iff by blast
    have "fold_name cm (str e) = fold_name cm (str f)" using p(4) e(3) f(3) by (simp only: same_name_def)
    then have "k - MIN_STR_ATOM = k' - MIN_STR_ATOM" by (rule atom_inv_D(6)[OF p(1) e(2) f(2)])
    then show ?thesis by (rule eq_diff_iff[OF e(1) f(1), THEN iffD1])
  qed
  show "atom_view s' = (atom_view s)(k \<mapsto> (case atom_view s k of None \<Rightarrow> (n, 1) | Some (m, c) \<Rightarrow> (m, c + 1)))"
    if "atom_inv cm s" "add_string_atom cm ok s n = Some (s', k)" for s n s' k
    using add_string_atom_view(1)[OF that] .
  show "\<exists>m c. atom_view s' k = Some (m, c) \<and> same_name cm m n"
    if "atom_inv cm s" "add_string_atom cm ok s n = Some (s', k)" for s n s' k
    using add_string_atom_view(2)[OF that] .
  show "\<exists>m c. atom_view s k = Some (m, c) \<and> atom_view s' = (atom_view s)(k := if c = 1 then None else Some (m, c - 1))"
    if "atom_inv cm s" "drop_atom s k = Some s'" for s k s'
    using drop_atom_view[OF that] .
qed (simp_all add: same_name_def)


section \<open>Reachable states\<close>

text \<open>
  The server fills both tables at start-up; then requests change them, and window classes and
  properties take and release references.
\<close>

inductive atoms_reachable :: "(nat \<Rightarrow> nat) \<Rightarrow> atom_tables \<Rightarrow> bool" for cm where
  start: "atoms_reachable cm \<lparr>global_table = set_global_atom_table cm ok create_atom_table,
                              user_table = set_user_atom_table cm ok create_atom_table\<rparr>"
| add: "atoms_reachable cm s \<Longrightarrow> atoms_reachable cm (fst (req_add_atom cm ok s name))"
| delete: "atoms_reachable cm s \<Longrightarrow> atoms_reachable cm (fst (req_delete_atom s a))"
| add_user: "atoms_reachable cm s \<Longrightarrow> atoms_reachable cm (fst (req_add_user_atom cm ok s name))"
| grab: "atoms_reachable cm s \<Longrightarrow> atoms_reachable cm (s\<lparr>global_table := fst (grab_atom (global_table s) a)\<rparr>)"
| release: "atoms_reachable cm s \<Longrightarrow> atoms_reachable cm (s\<lparr>global_table := fst (release_atom (global_table s) a)\<rparr>)"
| grab_user: "atoms_reachable cm s \<Longrightarrow> atoms_reachable cm (s\<lparr>user_table := fst (grab_atom (user_table s) a)\<rparr>)"
| release_user: "atoms_reachable cm s \<Longrightarrow> atoms_reachable cm (s\<lparr>user_table := fst (release_atom (user_table s) a)\<rparr>)"

lemma atom_inv_fold: "atom_inv cm t \<Longrightarrow> atom_inv cm (fold (add_atom_asciiz cm ok) names t)"
  by (induction names arbitrary: t) (simp_all add: add_atom_asciiz_def atom_inv_add)

lemma atoms_reachable_inv:
  "atoms_reachable cm s \<Longrightarrow> atom_inv cm (global_table s) \<and> atom_inv cm (user_table s)"
proof (induction rule: atoms_reachable.induct)
  case (start ok)
  then show ?case
    using atom_inv_fold[OF atom_inv_create] by (simp only: set_global_atom_table_def set_user_atom_table_def atom_tables.simps)
next
  case (add s ok name)
  then show ?case using atom_inv_add[of cm "global_table s" ok name] by (auto simp: req_add_atom_def split: prod.split)
next
  case (delete s a)
  then show ?case
    using atom_inv_delete_atom[of cm "global_table s" a False] by (auto simp: req_delete_atom_def split: prod.split)
next
  case (add_user s ok name)
  then show ?case using atom_inv_add[of cm "user_table s" ok name] by (auto simp: req_add_user_atom_def split: prod.split)
qed (simp_all add: atom_inv_grab atom_inv_release)

lemma find_atom_view:
  assumes "atom_inv cm t" "string_atom name"
  shows "find_atom cm t name = Inr a \<longleftrightarrow> (\<exists>n c. atom_view t a = Some (n, c) \<and> same_name cm n name)"
proof -
  have s: "find_atom cm t name = (case find_atom_entry cm t name (hash_strW cm name HASH_SIZE) of
      None \<Rightarrow> Inl STATUS_OBJECT_NAME_NOT_FOUND
    | Some i \<Rightarrow> (case atoms t i of Some e \<Rightarrow> Inr (atom e) | None \<Rightarrow> Inl STATUS_INVALID_HANDLE))"
    using assms(2) by (simp add: find_atom_def string_atom_def)
  have a: "atom e = i + MIN_STR_ATOM" if "atoms t i = Some e" for i e
    using atom_inv_D(5)[OF assms(1) that] by (simp add: entry_ok_def)
  show ?thesis
  proof
    assume "find_atom cm t name = Inr a"
    then obtain i e where i: "find_atom_entry cm t name (hash_strW cm name HASH_SIZE) = Some i" "atoms t i = Some e" "a = atom e"
      unfolding s by (auto split: option.splits)
    then show "\<exists>n c. atom_view t a = Some (n, c) \<and> same_name cm n name"
      using find_atom_entry_Some[OF assms(1), of name i] a[OF i(2)] by (auto simp: atom_view_def same_name_def)
  next
    assume "\<exists>n c. atom_view t a = Some (n, c) \<and> same_name cm n name"
    then obtain e where e: "MIN_STR_ATOM \<le> a" "atoms t (a - MIN_STR_ATOM) = Some e" "fold_name cm (str e) = fold_name cm name"
      by (auto simp: atom_view_iff same_name_def)
    then have "find_atom_entry cm t name (hash_strW cm name HASH_SIZE) = Some (a - MIN_STR_ATOM)"
      using find_atom_entry_Some[OF assms(1), of name] by blast
    then show "find_atom cm t name = Inr a" unfolding s using a[OF e(2)] e by simp
  qed
qed

lemma int_atom_digits_value:
  "\<lbrakk>\<forall>d \<in> set ds. d < 10; v < MAXINTATOM\<rbrakk> \<Longrightarrow>
   int_atom_digits v (map (\<lambda>d. d + 48) ds) =
     (let r = foldl (\<lambda>v d. 10 * v + d) v ds in if r < MAXINTATOM then r else 0)"
proof (induction ds arbitrary: v)
  case Nil
  then show ?case by simp
next
  case (Cons d ds)
  have le: "w \<le> foldl (\<lambda>v d. 10 * v + d) w ds" for w :: nat
  proof (induction ds arbitrary: w)
    case (Cons e es)
    have "w \<le> 10 * w + e" by simp
    also have "\<dots> \<le> foldl (\<lambda>v d. 10 * v + d) (10 * w + e) es" by (rule Cons.IH)
    finally show ?case by simp
  qed simp
  show ?case
  proof (cases "10 * v + d < MAXINTATOM")
    case True
    then show ?thesis using Cons.IH[OF _ True] Cons.prems by (simp add: mult.commute)
  next
    case False
    then show ?thesis using le[of "10 * v + d"] Cons.prems by (simp add: mult.commute Let_def)
  qed
qed

lemma find_atom_error:
  assumes "atom_inv cm t" "string_atom name" "find_atom cm t name = Inl st"
  shows "st = STATUS_OBJECT_NAME_NOT_FOUND"
proof -
  have "atoms t i \<noteq> None" if "find_atom_entry cm t name (hash_strW cm name HASH_SIZE) = Some i" for i
    using that find_atom_entry_Some[OF assms(1), of name i] by auto
  then show ?thesis using assms(2,3) by (auto simp: find_atom_def string_atom_def split: option.splits)
qed

lemma atom_view_bounds:
  assumes "atom_inv cm t" "atom_view t a = Some (n, c)"
  shows "0 < c \<and> MIN_STR_ATOM < a \<and> a < MIN_STR_ATOM + MAX_ATOMS \<and> string_atom n"
proof -
  obtain e where e: "MIN_STR_ATOM \<le> a" "atoms t (a - MIN_STR_ATOM) = Some e" "n = str e" "c = ref_count e"
    using assms(2) unfolding atom_view_iff by blast
  have "a \<noteq> MIN_STR_ATOM" using e(2) atom_inv_D(3)[OF assms(1)] by auto
  moreover have "a - MIN_STR_ATOM < used t"
    using e(2) atom_inv_D(4)[OF assms(1), of "a - MIN_STR_ATOM"] by (cases "a - MIN_STR_ATOM < used t") auto
  ultimately show ?thesis
    using e atom_inv_D(2)[OF assms(1)] atom_inv_D(5)[OF assms(1) e(2)] by (auto simp: entry_ok_def string_atom_def)
qed

lemma add_delete_view:
  assumes "atom_inv cm t" "string_atom name" "add_atom cm ok t name = (t', Inr a)"
  shows "atom_inv cm t'"
    and "atom_view t' = (atom_view t)(a \<mapsto> (case atom_view t a of None \<Rightarrow> (name, 1) | Some (m, c) \<Rightarrow> (m, c + 1)))"
    and "atom_view t a = None \<longleftrightarrow> (\<forall>b m c. atom_view t b = Some (m, c) \<longrightarrow> \<not> same_name cm m name)"
    and "find_atom cm t' name = Inr a"
    and "atom_view t' b = Some (m, c) \<Longrightarrow> delete_atom t' b p = (t'', r) \<Longrightarrow>
      r = Inr () \<and> atom_inv cm t'' \<and> atom_view t'' = (atom_view t')(b := if c = 1 then None else Some (m, c - 1))"
proof -
  have add: "add_string_atom cm ok t name = Some (t', a)" using assms(2,3) by (simp add: add_string_atom_def)
  note v = add_string_atom_view[OF assms(1) add]
  show "atom_inv cm t'"
    and "atom_view t' = (atom_view t)(a \<mapsto> (case atom_view t a of None \<Rightarrow> (name, 1) | Some (m, c) \<Rightarrow> (m, c + 1)))"
    using v(3) v(1) .
  show "find_atom cm t' name = Inr a" using find_atom_view[OF v(3) assms(2)] v(2) by blast
  show "atom_view t' b = Some (m, c) \<Longrightarrow> delete_atom t' b p = (t'', r) \<Longrightarrow>
      r = Inr () \<and> atom_inv cm t'' \<and> atom_view t'' = (atom_view t')(b := if c = 1 then None else Some (m, c - 1))"
    using view_delete[OF v(3), of b m c p] atom_inv_delete_atom[OF v(3), of b p] by auto
  show "atom_view t a = None \<longleftrightarrow> (\<forall>b m c. atom_view t b = Some (m, c) \<longrightarrow> \<not> same_name cm m name)"
  proof
    assume n: "atom_view t a = None"
    show "\<forall>b m c. atom_view t b = Some (m, c) \<longrightarrow> \<not> same_name cm m name"
    proof (intro allI impI notI)
      fix b m c assume b: "atom_view t b = Some (m, c)" "same_name cm m name"
      then have "b \<noteq> a" using n by auto
      then have "atom_view t' b = Some (m, c)" using v(1) b(1) by simp
      then have "find_atom cm t' name = Inr b" using find_atom_view[OF v(3) assms(2)] b(2) by blast
      then show False using \<open>find_atom cm t' name = Inr a\<close> \<open>b \<noteq> a\<close> by simp
    qed
  next
    assume none: "\<forall>b m c. atom_view t b = Some (m, c) \<longrightarrow> \<not> same_name cm m name"
    show "atom_view t a = None"
    proof (rule ccontr)
      assume "atom_view t a \<noteq> None"
      then obtain m c where "atom_view t a = Some (m, c)" by auto
      moreover then have "same_name cm m name" using v(1,2) by simp
      ultimately show False using none by blast
    qed
  qed
qed

lemma int_atom_name:
  assumes "\<forall>d \<in> set ds. d < 10" "length ds < MAX_ATOM_LEN" "v = foldl (\<lambda>v d. 10 * v + d) 0 ds"
  defines "name \<equiv> 35 # map (\<lambda>d. d + 48) ds"
  shows "0 < v \<and> v < MAXINTATOM \<Longrightarrow> add_atom cm ok t name = (t, Inr v) \<and> find_atom cm t name = Inr v"
    and "v = 0 \<or> MAXINTATOM \<le> v \<Longrightarrow> string_atom name"
proof -
  have i: "get_int_atom_value name = (if v < MAXINTATOM then v else 0)"
    using int_atom_digits_value[OF assms(1), of 0] assms(3) by (simp add: name_def Let_def)
  have l: "name \<noteq> []" "length name \<le> MAX_ATOM_LEN" using assms(2) by (simp_all add: name_def)
  show "0 < v \<and> v < MAXINTATOM \<Longrightarrow> add_atom cm ok t name = (t, Inr v) \<and> find_atom cm t name = Inr v"
    using i l by (simp add: add_atom_def find_atom_def)
  show "v = 0 \<or> MAXINTATOM \<le> v \<Longrightarrow> string_atom name"
    using i l by (auto simp: string_atom_def)
qed

lemma add_atom_no_memory [simp]: "add_atom_asciiz cm False name create_atom_table = create_atom_table"
  by (simp add: add_atom_asciiz_def add_atom_def find_atom_entry_def create_atom_table_def Let_def)

text \<open>A case table that folds the letters of ASCII, for the examples.\<close>

definition ascii_casemap :: "nat \<Rightarrow> nat" where
  "ascii_casemap x =
     (if x = 0 then 256 else if x < 256 then 1024 else if x = 260 then 512 else if x = 261 then 528
      else if x < 272 \<or> (1024 \<le> x \<and> x < 1040) then 2048 else if 512 < x \<and> x \<le> 538 then 32 else 0)"

text \<open>The definitions that evaluate small tables.\<close>

lemma ascii_lower:
  "to_lower ascii_casemap 65 = 97" "to_lower ascii_casemap 66 = 98" "to_lower ascii_casemap 97 = 97"
  "to_lower ascii_casemap 98 = 98"
  by (simp_all add: to_lower_def ascii_casemap_def)

lemmas atom_eval = add_atom_def create_atom_table_def find_atom_entry_def hash_strW_def ascii_lower
  add_atom_entry_def find_atom_def entry_matches_def ref_entry_def atom_view_def
  string_atom_def same_name_def drop_atom_def delete_atom_def get_atom_entry_def add_string_atom_def Let_def

section \<open>Properties\<close>

text \<open>
  C19: In every state the server can reach, and in both tables, a string atom in use has a positive
  reference count and lies above the reserved atom \<^verbatim>\<open>0xc000\<close> and below \<^verbatim>\<open>0x10000\<close>, and \<^verbatim>\<open>find_atom\<close>
  returns exactly the atom in use whose name differs at most in case; for a name that no atom in
  use has, it reports that the name was not found.
\<close>

theorem atoms_found:
  assumes "atoms_reachable cm s" "t = global_table s \<or> t = user_table s"
  shows "(atom_view t a = Some (n, c) \<longrightarrow> 0 < c \<and> 0xc000 < a \<and> a < 0x10000 \<and> string_atom n) \<and>
    (string_atom name \<longrightarrow>
      (find_atom cm t name = Inr a \<longleftrightarrow> (\<exists>m d. atom_view t a = Some (m, d) \<and> same_name cm m name)) \<and>
      ((\<forall>b m d. atom_view t b = Some (m, d) \<longrightarrow> \<not> same_name cm m name) \<longrightarrow>
        find_atom cm t name = Inl STATUS_OBJECT_NAME_NOT_FOUND))"
proof (intro conjI impI)
  have inv: "atom_inv cm t" using atoms_reachable_inv[OF assms(1)] assms(2) by auto
  show "0 < c" "0xc000 < a" "a < 0x10000" "string_atom n" if "atom_view t a = Some (n, c)"
    using atom_view_bounds[OF inv that] by auto
  show "find_atom cm t name = Inr a \<longleftrightarrow> (\<exists>m d. atom_view t a = Some (m, d) \<and> same_name cm m name)"
    if "string_atom name" using find_atom_view[OF inv that] .
  show "find_atom cm t name = Inl STATUS_OBJECT_NAME_NOT_FOUND"
    if "string_atom name" "\<forall>b m d. atom_view t b = Some (m, d) \<longrightarrow> \<not> same_name cm m name"
    using find_atom_view[OF inv that(1)] find_atom_error[OF inv that(1)] that(2)
    by (cases "find_atom cm t name") auto
qed

theorem atoms_found_witness:
  "\<exists>s. atoms_reachable ascii_casemap s \<and> find_atom ascii_casemap (global_table s) [97, 66] = Inr 0xc001"
proof -
  let ?s = "fst (req_add_atom ascii_casemap True
    \<lparr>global_table = set_global_atom_table ascii_casemap False create_atom_table,
     user_table = set_user_atom_table ascii_casemap False create_atom_table\<rparr> [65, 66])"
  have r: "atoms_reachable ascii_casemap ?s" by (intro atoms_reachable.add atoms_reachable.start)
  have t: "global_table ?s = fst (add_atom ascii_casemap True create_atom_table [65, 66])"
    by (simp add: req_add_atom_def set_global_atom_table_def add_atom_no_memory split: prod.split)
  have "atom_view (global_table ?s) 0xc001 = Some ([65, 66], 1)" unfolding t by (simp add: atom_eval)
  moreover have "same_name ascii_casemap [65, 66] [97, 66]" by (simp add: atom_eval)
  moreover have "string_atom [97, 66]" by (simp add: atom_eval)
  ultimately have "find_atom ascii_casemap (global_table ?s) [97, 66] = Inr 0xc001"
    using atoms_found[OF r, of "global_table ?s"] by blast
  then show ?thesis using r by blast
qed

text \<open>
  C20: The table refines a map from atoms to their names and reference counts.  Adding a string atom
  gives one more reference to the atom whose name differs at most in case, and otherwise a new atom
  with one reference; deleting takes one away and forgets the atom with the last; nothing else changes.
\<close>

theorem atom_table_refines:
  assumes "atom_inv cm t" "string_atom name" "add_atom cm ok t name = (t', Inr a)"
  shows "atom_inv cm t' \<and> find_atom cm t' name = Inr a \<and>
    atom_view t' = (atom_view t)(a \<mapsto> (case atom_view t a of None \<Rightarrow> (name, 1) | Some (m, c) \<Rightarrow> (m, c + 1))) \<and>
    (atom_view t a = None \<longleftrightarrow> (\<forall>b m c. atom_view t b = Some (m, c) \<longrightarrow> \<not> same_name cm m name)) \<and>
    (\<forall>b m c p t'' r. atom_view t' b = Some (m, c) \<longrightarrow> delete_atom t' b p = (t'', r) \<longrightarrow>
      r = Inr () \<and> atom_inv cm t'' \<and> atom_view t'' = (atom_view t')(b := if c = 1 then None else Some (m, c - 1)))"
  using add_delete_view[OF assms] by blast

theorem atom_table_refines_witness:
  "find_atom ascii_casemap (fst (add_atom ascii_casemap True create_atom_table [65, 66])) [97, 66] = Inr 0xc001 \<and>
   atom_view (fst (add_atom ascii_casemap True (fst (add_atom ascii_casemap True create_atom_table [65, 66])) [97, 66])) 0xc001 = Some ([65, 66], 2)"
proof -
  let ?t = "fst (add_atom ascii_casemap True create_atom_table [65, 66])"
  have "snd (add_atom ascii_casemap True create_atom_table [65, 66]) = Inr 0xc001" by (simp add: atom_eval)
  then have a: "add_atom ascii_casemap True create_atom_table [65, 66] = (?t, Inr 0xc001)" by (metis prod.collapse)
  have "snd (add_atom ascii_casemap True ?t [97, 66]) = Inr 0xc001" by (simp add: atom_eval)
  then have b: "add_atom ascii_casemap True ?t [97, 66] = (fst (add_atom ascii_casemap True ?t [97, 66]), Inr 0xc001)"
    by (metis prod.collapse)
  have n: "string_atom [65, 66]" "string_atom [97, 66]" by (simp_all add: atom_eval)
  have v: "atom_view ?t 0xc001 = Some ([65, 66], 1)" by (simp add: atom_eval)
  have f: "find_atom ascii_casemap ?t [97, 66] = Inr 0xc001" by (simp add: atom_eval)
  have i: "atom_inv ascii_casemap ?t"
    using atom_table_refines[OF atom_inv_create n(1) a] by (rule conjunct1)
  have "atom_view (fst (add_atom ascii_casemap True ?t [97, 66])) = (atom_view ?t)(0xc001 \<mapsto>
      (case atom_view ?t 0xc001 of None \<Rightarrow> ([97, 66], 1) | Some (m, c) \<Rightarrow> (m, c + 1)))"
    using atom_table_refines[OF i n(2) b] by (elim conjE)
  then show ?thesis unfolding v using f by simp
qed

text \<open>
  An atom lives, and every spelling of its name gives the same atom, until as many references to
  it have been deleted as were held: after any sequence of additions of string atoms and deletions
  that deletes it less often than its count, its count is exact.
\<close>

theorem atom_lifetime:
  assumes "atom_inv cm t" "atom_view t a = Some (n, c)" "name_table.run (add_string_atom cm ok) drop_atom t acts = Some (t', as)"
    and "int (count_list acts (Free a)) < c"
  shows "atom_view t' a = Some (n, c + int (count_list as a) - int (count_list acts (Free a))) \<and>
    (\<forall>name. string_atom name \<longrightarrow> same_name cm n name \<longrightarrow> find_atom cm t' name = Inr a)"
proof (intro conjI allI impI)
  note w = atom_names.run_count[OF assms]
  show "atom_view t' a = Some (n, c + int (count_list as a) - int (count_list acts (Free a)))" by (rule w)
  show "find_atom cm t' name = Inr a" if "string_atom name" "same_name cm n name" for name
    using find_atom_view[OF atom_names.run_inv[OF assms(1,3)] that(1)] w that(2) by blast
qed

theorem atom_lifetime_witness:
  "\<exists>t0 t as. add_atom ascii_casemap True (fst (add_atom ascii_casemap True create_atom_table [65])) [97] = (t0, Inr 0xc001) \<and>
     name_table.run (add_string_atom ascii_casemap True) drop_atom t0 [Alloc [66], Free 0xc001] = Some (t, as) \<and>
     find_atom ascii_casemap t [97] = Inr 0xc001"
proof -
  let ?add = "add_string_atom ascii_casemap True"
  define t0 where "t0 = fst (add_atom ascii_casemap True (fst (add_atom ascii_casemap True create_atom_table [65])) [97])"
  have "snd (add_atom ascii_casemap True (fst (add_atom ascii_casemap True create_atom_table [65])) [97]) = Inr 0xc001"
    by (simp add: atom_eval)
  then have t0: "add_atom ascii_casemap True (fst (add_atom ascii_casemap True create_atom_table [65])) [97] = (t0, Inr 0xc001)"
    unfolding t0_def by (metis prod.collapse)
  have inv: "atom_inv ascii_casemap t0" unfolding t0_def by (intro atom_inv_add atom_inv_create)
  have v: "atom_view t0 0xc001 = Some ([65], 2)" unfolding t0_def by (simp add: atom_eval)
  have "case ?add t0 [66] of None \<Rightarrow> False | Some (t1, k) \<Rightarrow> drop_atom t1 0xc001 \<noteq> None"
    unfolding t0_def by (simp add: atom_eval)
  then obtain t as where r: "name_table.run ?add drop_atom t0 [Alloc [66], Free 0xc001] = Some (t, as)"
    by (auto split: option.splits)
  have "string_atom [97]" "same_name ascii_casemap [65] [97]" by (simp_all add: atom_eval)
  then have "find_atom ascii_casemap t [97] = Inr 0xc001"
    using atom_lifetime[OF inv v r] by simp
  then show ?thesis using t0 r by blast
qed

text \<open>
  A name of the form \<^verbatim>\<open>#\<close> and decimal digits denotes the integer atom of that value when the value
  is positive and below \<^verbatim>\<open>0xc000\<close>, without any entry in the table; zero and larger values, however
  many digits they have, are treated as ordinary names.
\<close>

theorem int_atoms:
  assumes "\<forall>d \<in> set ds. d < 10" "length ds < MAX_ATOM_LEN" "v = foldl (\<lambda>v d. 10 * v + d) 0 ds"
    and "name = 35 # map (\<lambda>d. d + 48) ds"
  shows "(0 < v \<and> v < MAXINTATOM \<longrightarrow> add_atom cm ok t name = (t, Inr v) \<and> find_atom cm t name = Inr v) \<and>
    (v = 0 \<or> MAXINTATOM \<le> v \<longrightarrow> string_atom name)"
  using int_atom_name[OF assms(1-3)] assms(4) by simp

theorem int_atoms_witness:
  "add_atom ascii_casemap True create_atom_table [35, 49, 50] = (create_atom_table, Inr 12) \<and>
   string_atom [35, 54, 53, 53, 51, 54]"
  using int_atoms[of "[1, 2]" 12 "[35, 49, 50]" ascii_casemap True create_atom_table]
    int_atoms[of "[6, 5, 5, 3, 6]" 65536 "[35, 54, 53, 53, 51, 54]" ascii_casemap True create_atom_table]
  by simp

text \<open>
  C21: With memory available, a new name is refused exactly when all 16383 string atoms are in use.
\<close>

theorem atoms_exhausted:
  assumes "atom_inv cm t" "string_atom name" "\<forall>b m c. atom_view t b = Some (m, c) \<longrightarrow> \<not> same_name cm m name"
  shows "snd (add_atom cm True t name) = Inl STATUS_NO_MEMORY \<longleftrightarrow>
    (\<forall>a. 0xc000 < a \<and> a < 0x10000 \<longrightarrow> atom_view t a \<noteq> None)"
proof -
  let ?i = "free_slot (atoms t) 1 (used t - 1)"
  have new: "\<And>j f. atoms t j = Some f \<Longrightarrow> fold_name cm (str f) \<noteq> fold_name cm name"
    using assms(3)[rule_format, of "_ + MIN_STR_ATOM"] by (fastforce simp: atom_view_def same_name_def)
  have "snd (add_atom cm True t name) = Inl STATUS_NO_MEMORY \<longleftrightarrow> ?i = MAX_ATOMS"
    using add_atom_new(1)[OF assms(1,2) new] by (simp add: Let_def)
  also have "\<dots> \<longleftrightarrow> (\<forall>a. 0xc000 < a \<and> a < 0x10000 \<longrightarrow> atom_view t a \<noteq> None)"
  proof
    assume "?i = MAX_ATOMS"
    then show "\<forall>a. 0xc000 < a \<and> a < 0x10000 \<longrightarrow> atom_view t a \<noteq> None"
      using free_slot_first[of 1 _ "atoms t" "used t - 1"] by (fastforce simp: atom_view_def)
  next
    assume a: "\<forall>a. 0xc000 < a \<and> a < 0x10000 \<longrightarrow> atom_view t a \<noteq> None"
    have "atom_view t (?i + MIN_STR_ATOM) = None" using free_slot_table(3)[OF assms(1)] by (simp add: atom_view_def)
    then have "\<not> ?i < MAX_ATOMS" using a[rule_format, of "?i + MIN_STR_ATOM"] free_slot_table(1)[OF assms(1)] by auto
    then show "?i = MAX_ATOMS" using free_slot_table(2)[OF assms(1)] atom_inv_D(2)[OF assms(1)] by simp
  qed
  finally show ?thesis .
qed


theorem atoms_exhausted_witness:
  "snd (add_atom ascii_casemap True create_atom_table [65]) \<noteq> Inl STATUS_NO_MEMORY"
proof -
  have "string_atom [65]" by (simp add: atom_eval)
  moreover have "atom_view create_atom_table a = None" for a by (simp add: atom_view_def create_atom_table_def)
  moreover have "\<exists>a::nat. 0xc000 < a \<and> a < 0x10000" by (intro exI[of _ "0xc001"]) simp
  ultimately show ?thesis
    using atoms_exhausted[OF atom_inv_create, of "[65]" ascii_casemap] by auto
qed

end
