(* ===== verification/WFUSync.thy ===== *)
theory WFUSync
  imports Server_Prelude "HOL-Library.Monad_Syntax"
begin

text \<open>
  Synchronization state shared with the clients, \<^verbatim>\<open>server/wfusync.c\<close> (the build with the shared fast
  path).  Events, semaphores and mutexes keep their state in 16-byte slots of pages that client
  processes map as well; the server keeps the list of clients that wait for several objects at once.

  The model runs one server operation at a time on the contents of the pages.  A slot's lock bit is
  set while a client works on the slot; an operation of the server that finds it set spins, and the
  model then gives \<open>None\<close>, since within one operation nobody clears it.  Calls that wake an address
  are recorded in \<open>wakes\<close>, the latest first.
\<close>

section \<open>Data\<close>

definition WFUSYNC_TYPE_MASK :: u16 where "WFUSYNC_TYPE_MASK = 0x1fff"
definition WFUSYNC_STATE_LOCKED :: u16 where "WFUSYNC_STATE_LOCKED = 0x2000"
definition WFUSYNC_MULTI_WAITERS :: u16 where "WFUSYNC_MULTI_WAITERS = 0x4000"
definition WFUSYNC_SERVER_WAITERS :: u16 where "WFUSYNC_SERVER_WAITERS = 0x8000"

definition INPROC_SYNC_UNKNOWN :: u16 where "INPROC_SYNC_UNKNOWN = 0"
definition INPROC_SYNC_INTERNAL :: u16 where "INPROC_SYNC_INTERNAL = 1"
definition INPROC_SYNC_EVENT :: u16 where "INPROC_SYNC_EVENT = 2"
definition INPROC_SYNC_MUTEX :: u16 where "INPROC_SYNC_MUTEX = 3"
definition INPROC_SYNC_SEMAPHORE :: u16 where "INPROC_SYNC_SEMAPHORE = 4"

text \<open>\<open>low\<close> and \<open>high\<close> are signed 32-bit numbers; \<open>to_int\<close> and \<open>to_uint\<close> are the casts.\<close>

definition to_int :: "int \<Rightarrow> int" where "to_int x = signed_take_bit 31 x"
definition to_uint :: "int \<Rightarrow> nat" where "to_uint x = nat (x mod 2 ^ 32)"
definition INT_MAX :: int where "INT_MAX = 0x7fffffff"

record wfusync_state =
  low :: int
  high :: int
  generation :: u32
  stype :: u16
  refcount :: u16

text \<open>The server's handle on a slot.\<close>

record wfusync =
  shm_idx :: nat
  server_waiters :: nat

text \<open>A client that waits for several objects, with the slot on which it sleeps.\<close>

record wfusync_waiter =
  slot_idx :: nat
  shm_idxs :: "nat list"

text \<open>\<open>wfusync_pages\<close> says for every page of the array whether it is mapped.\<close>

record shm =
  page_size :: nat
  wfusync_pages :: "bool list"
  states :: "nat \<Rightarrow> wfusync_state"
  next_shm_idx :: u32
  next_generation :: u32
  wfusync_waiters :: "wfusync_waiter list"
  multi_waiter_counts :: "nat list"
  wakes :: "(nat \<times> bool) list"

section \<open>Slots\<close>

definition state_page :: "shm \<Rightarrow> nat \<Rightarrow> nat" where
  "state_page s idx = idx * 16 div page_size s"

definition get_state :: "shm \<Rightarrow> nat \<Rightarrow> wfusync_state option" where
  "get_state s idx =
     (let entry = state_page s idx in
      if entry \<ge> length (wfusync_pages s) \<or> \<not> wfusync_pages s ! entry then None else Some (states s idx))"

definition set_state :: "shm \<Rightarrow> nat \<Rightarrow> wfusync_state \<Rightarrow> shm" where
  "set_state s idx st = s\<lparr>states := (states s)(idx := st)\<rparr>"

definition wake_address :: "shm \<Rightarrow> nat \<Rightarrow> bool \<Rightarrow> shm" where
  "wake_address s idx wake_all = s\<lparr>wakes := (idx, wake_all) # wakes s\<rparr>"

definition get_state_type :: "wfusync_state \<Rightarrow> u16" where
  "get_state_type st = stype st AND WFUSYNC_TYPE_MASK"

definition lock_state :: "shm \<Rightarrow> nat \<Rightarrow> u16 \<Rightarrow> (shm \<times> bool) option" where
  "lock_state s idx expected_type =
     (let st = states s idx in
      if stype st AND WFUSYNC_TYPE_MASK \<noteq> expected_type then Some (s, False)
      else if stype st AND WFUSYNC_STATE_LOCKED \<noteq> 0 then None
      else Some (set_state s idx (st\<lparr>stype := stype st OR WFUSYNC_STATE_LOCKED\<rparr>), True))"

definition unlock_state :: "shm \<Rightarrow> nat \<Rightarrow> shm" where
  "unlock_state s idx =
     set_state s idx ((states s idx)\<lparr>stype := stype (states s idx) AND NOT WFUSYNC_STATE_LOCKED\<rparr>)"

text \<open>The size of an array that is doubled from \<open>n\<close> until it has an entry \<open>i\<close>; \<open>n\<close> is not 0.\<close>

function grown :: "nat \<Rightarrow> nat \<Rightarrow> nat" where
  "grown i n = (if i < n \<or> n = 0 then n else grown i (n * 2))"
  by pat_completeness auto
termination by (relation "measure (\<lambda>(i, n). i + 1 - n)") auto

declare grown.simps [simp del]

definition zero_state :: wfusync_state where
  "zero_state = \<lparr>low = 0, high = 0, generation = 0, stype = 0, refcount = 0\<rparr>"

text \<open>\<open>realloc_ok\<close> and \<open>map_ok\<close>: the array of pages can be enlarged, the page can be mapped.\<close>

definition alloc_state_slot :: "bool \<Rightarrow> bool \<Rightarrow> shm \<Rightarrow> shm \<times> nat option" where
  "alloc_state_slot realloc_ok map_ok s =
     (let idx = unat (next_shm_idx s); s1 = s\<lparr>next_shm_idx := next_shm_idx s + 1\<rparr>;
          entry = state_page s idx; n = length (wfusync_pages s);
          s2 = s1\<lparr>wfusync_pages := wfusync_pages s @ replicate (grown entry (if n \<noteq> 0 then n * 2 else 16) - n) False\<rparr>;
          s3 = (if entry \<ge> n then s2 else s1) in
      if entry \<ge> n \<and> \<not> realloc_ok then (s1, None)
      else if \<not> wfusync_pages s3 ! entry \<and> \<not> map_ok then (s3, None)
      else (set_state (s3\<lparr>wfusync_pages := (wfusync_pages s3)[entry := True]\<rparr>) idx zero_state, Some idx))"

text \<open>\<open>mem_ok\<close>: the server's own structure can be allocated.\<close>

definition create_wfusync :: "bool \<Rightarrow> bool \<Rightarrow> bool \<Rightarrow> shm \<Rightarrow> int \<Rightarrow> int \<Rightarrow> u16 \<Rightarrow> shm \<times> wfusync option" where
  "create_wfusync mem_ok realloc_ok map_ok s l h t =
     (if \<not> mem_ok then (s, None)
      else case alloc_state_slot realloc_ok map_ok s of
        (s', None) \<Rightarrow> (s', None)
      | (s', Some idx) \<Rightarrow>
          (set_state (s'\<lparr>next_generation := next_generation s' + 1\<rparr>) idx
             \<lparr>low = l, high = h, generation = next_generation s', stype = t, refcount = 1\<rparr>,
           Some \<lparr>shm_idx = idx, server_waiters = 0\<rparr>))"

definition wfusync_grab_object :: "shm \<Rightarrow> wfusync \<Rightarrow> shm" where
  "wfusync_grab_object s sync =
     (case get_state s (shm_idx sync) of None \<Rightarrow> s
      | Some st \<Rightarrow> set_state s (shm_idx sync) (st\<lparr>refcount := refcount st + 1\<rparr>))"

definition wfusync_destroy :: "shm \<Rightarrow> wfusync \<Rightarrow> shm" where
  "wfusync_destroy s sync =
     (case get_state s (shm_idx sync) of None \<Rightarrow> s
      | Some st \<Rightarrow>
          set_state (s\<lparr>next_generation := next_generation s + 1\<rparr>) (shm_idx sync)
            (st\<lparr>stype := INPROC_SYNC_UNKNOWN, generation := next_generation s, refcount := refcount st - 1\<rparr>))"

definition wfusync_add_server_waiter :: "shm \<Rightarrow> wfusync \<Rightarrow> shm \<times> wfusync" where
  "wfusync_add_server_waiter s sync =
     (case get_state s (shm_idx sync) of None \<Rightarrow> (s, sync)
      | Some st \<Rightarrow> (set_state s (shm_idx sync) (st\<lparr>stype := stype st OR WFUSYNC_SERVER_WAITERS\<rparr>),
                     sync\<lparr>server_waiters := server_waiters sync + 1\<rparr>))"

definition wfusync_remove_server_waiter :: "shm \<Rightarrow> wfusync \<Rightarrow> shm \<times> wfusync" where
  "wfusync_remove_server_waiter s sync =
     (if server_waiters sync = 0 then (s, sync)
      else case get_state s (shm_idx sync) of None \<Rightarrow> (s, sync)
        | Some st \<Rightarrow>
            let n = server_waiters sync - 1; sync' = sync\<lparr>server_waiters := n\<rparr> in
            if n \<noteq> 0 then (s, sync')
            else (set_state s (shm_idx sync) (st\<lparr>stype := stype st AND NOT WFUSYNC_SERVER_WAITERS\<rparr>), sync'))"

section \<open>Clients that wait for several objects\<close>

definition wake_wait_slot :: "shm \<Rightarrow> nat \<Rightarrow> shm" where
  "wake_wait_slot s slot = wake_address (set_state s slot ((states s slot)\<lparr>low := 0\<rparr>)) slot True"

definition ensure_multi_waiter_count :: "bool \<Rightarrow> shm \<Rightarrow> nat \<Rightarrow> shm \<times> bool" where
  "ensure_multi_waiter_count realloc_ok s idx =
     (let n = length (multi_waiter_counts s) in
      if idx < n then (s, True)
      else if \<not> realloc_ok then (s, False)
      else (s\<lparr>multi_waiter_counts :=
               multi_waiter_counts s @ replicate (grown idx (if n \<noteq> 0 then n * 2 else 256) - n) 0\<rparr>, True))"

definition waitable_type :: "u16 \<Rightarrow> bool" where
  "waitable_type t = (t = INPROC_SYNC_EVENT \<or> t = INPROC_SYNC_SEMAPHORE \<or> t = INPROC_SYNC_MUTEX)"

definition add_multi_waiter :: "bool \<Rightarrow> shm \<Rightarrow> nat \<Rightarrow> shm \<times> bool" where
  "add_multi_waiter realloc_ok s idx =
     (case get_state s idx of None \<Rightarrow> (s, False)
      | Some st \<Rightarrow>
          if \<not> waitable_type (get_state_type st) then (s, False)
          else case ensure_multi_waiter_count realloc_ok s idx of
            (s', False) \<Rightarrow> (s', False)
          | (s', True) \<Rightarrow>
              (set_state (s'\<lparr>multi_waiter_counts := (multi_waiter_counts s')[idx := multi_waiter_counts s' ! idx + 1]\<rparr>)
                 idx (st\<lparr>stype := stype st OR WFUSYNC_MULTI_WAITERS\<rparr>), True))"

definition remove_multi_waiter :: "shm \<Rightarrow> nat \<Rightarrow> shm" where
  "remove_multi_waiter s idx =
     (case get_state s idx of None \<Rightarrow> s
      | Some st \<Rightarrow>
          if idx \<ge> length (multi_waiter_counts s) \<or> multi_waiter_counts s ! idx = 0 then s
          else let n = multi_waiter_counts s ! idx - 1;
                   s' = s\<lparr>multi_waiter_counts := (multi_waiter_counts s)[idx := n]\<rparr> in
               if n \<noteq> 0 then s'
               else set_state s' idx (st\<lparr>stype := stype st AND NOT WFUSYNC_MULTI_WAITERS\<rparr>))"

definition remove_multi_waiters :: "shm \<Rightarrow> nat list \<Rightarrow> shm" where
  "remove_multi_waiters s idxs = foldl remove_multi_waiter s idxs"

text \<open>The walk of the list: the waiters that stay, and the state after the others were removed.\<close>

fun remove_waiters :: "shm \<Rightarrow> nat \<Rightarrow> wfusync_waiter list \<Rightarrow> shm \<times> wfusync_waiter list" where
  "remove_waiters s slot [] = (s, [])"
| "remove_waiters s slot (w # ws) =
     (if slot_idx w = slot then remove_waiters (remove_multi_waiters s (shm_idxs w)) slot ws
      else let (s', ws') = remove_waiters s slot ws in (s', w # ws'))"

definition remove_waiter :: "shm \<Rightarrow> nat \<Rightarrow> shm" where
  "remove_waiter s slot = (let (s', ws) = remove_waiters s slot (wfusync_waiters s) in s'\<lparr>wfusync_waiters := ws\<rparr>)"

definition wfusync_state_signaled :: "shm \<Rightarrow> nat \<Rightarrow> bool" where
  "wfusync_state_signaled s idx =
     (case get_state s idx of None \<Rightarrow> False
      | Some st \<Rightarrow>
          let t = get_state_type st in
          if t = INPROC_SYNC_EVENT then low st \<noteq> 0
          else if t = INPROC_SYNC_SEMAPHORE then low st > 0
          else if t = INPROC_SYNC_MUTEX then low st = 0 \<or> low st < 0
          else False)"

definition wake_waiter :: "nat \<Rightarrow> shm \<Rightarrow> wfusync_waiter \<Rightarrow> shm" where
  "wake_waiter idx s w =
     (if idx \<in> set (shm_idxs w)
      then (case get_state s (slot_idx w) of None \<Rightarrow> s | Some slot \<Rightarrow> wake_wait_slot s (slot_idx w)) else s)"

definition wake_waiters_for_object :: "shm \<Rightarrow> nat \<Rightarrow> shm" where
  "wake_waiters_for_object s idx = foldl (wake_waiter idx) s (wfusync_waiters s)"

definition wfusync_alloc_wait_slot :: "bool \<Rightarrow> bool \<Rightarrow> shm \<Rightarrow> shm \<times> nat" where
  "wfusync_alloc_wait_slot realloc_ok map_ok s =
     (case alloc_state_slot realloc_ok map_ok s of
        (s', None) \<Rightarrow> (s', 0)
      | (s', Some idx) \<Rightarrow>
          (set_state (s'\<lparr>next_generation := next_generation s' + 1\<rparr>) idx
             \<lparr>low = 0, high = 0, generation = next_generation s', stype = INPROC_SYNC_INTERNAL, refcount = 1\<rparr>, idx))"

text \<open>
  The loop that takes a reference to every object, giving back those already taken when one fails;
  \<open>taken\<close> are the objects before the first of the list, the last one first.
\<close>

fun add_multi_waiters :: "(nat \<Rightarrow> bool) \<Rightarrow> shm \<Rightarrow> nat list \<Rightarrow> nat list \<Rightarrow> shm \<times> bool" where
  "add_multi_waiters A s taken [] = (s, True)"
| "add_multi_waiters A s taken (idx # idxs) =
     (case add_multi_waiter (A idx) s idx of
        (s', True) \<Rightarrow> add_multi_waiters A s' (idx # taken) idxs
      | (s', False) \<Rightarrow> (remove_multi_waiters s' taken, False))"

definition valid_wait_object :: "shm \<Rightarrow> nat \<Rightarrow> bool" where
  "valid_wait_object s idx =
     (case get_state s idx of None \<Rightarrow> False | Some st \<Rightarrow> waitable_type (get_state_type st))"

text \<open>\<open>mem_ok\<close>: both allocations for the waiter succeed; \<open>A\<close>: the counters can be enlarged.\<close>

definition wfusync_register_wait :: "bool \<Rightarrow> (nat \<Rightarrow> bool) \<Rightarrow> shm \<Rightarrow> nat \<Rightarrow> nat list \<Rightarrow> shm \<times> bool" where
  "wfusync_register_wait mem_ok A s slot idxs =
     (case get_state s slot of None \<Rightarrow> (s, False)
      | Some st \<Rightarrow>
          if get_state_type st \<noteq> INPROC_SYNC_INTERNAL \<or> idxs = [] \<or> length idxs > 64 then (s, False)
          else
            let s1 = remove_waiter s slot;
                s2 = set_state (s1\<lparr>next_generation := next_generation s1 + 1\<rparr>) slot
                       ((states s1 slot)\<lparr>low := 1, generation := next_generation s1\<rparr>) in
            if \<not> list_all (valid_wait_object s2) idxs \<or> \<not> mem_ok then (wake_wait_slot s2 slot, False)
            else case add_multi_waiters A s2 [] idxs of
              (s3, False) \<Rightarrow> (wake_wait_slot s3 slot, False)
            | (s3, True) \<Rightarrow>
                let s4 = s3\<lparr>wfusync_waiters := \<lparr>slot_idx = slot, shm_idxs = idxs\<rparr> # wfusync_waiters s3\<rparr> in
                (if list_ex (wfusync_state_signaled s4) idxs then wake_wait_slot s4 slot else s4, True))"

definition wfusync_unregister_wait :: "shm \<Rightarrow> nat \<Rightarrow> shm" where
  "wfusync_unregister_wait s slot =
     (let s' = remove_waiter s slot in
      case get_state s' slot of None \<Rightarrow> s' | Some st \<Rightarrow> wake_wait_slot s' slot)"

definition wfusync_wake_waiters :: "shm \<Rightarrow> nat \<Rightarrow> shm \<times> bool" where
  "wfusync_wake_waiters s idx =
     (case get_state s idx of None \<Rightarrow> (s, False) | Some st \<Rightarrow> (wake_waiters_for_object s idx, True))"

section \<open>Events\<close>

text \<open>
  Every operation finds the slot, takes its lock for the expected type, works on the slot and
  releases the lock; \<open>r0\<close> is the result when there is no slot or it has another type.
\<close>

definition locked :: "shm \<Rightarrow> nat \<Rightarrow> u16 \<Rightarrow> 'a \<Rightarrow> (shm \<Rightarrow> shm \<times> 'a) \<Rightarrow> (shm \<times> 'a) option" where
  "locked s idx t r0 f =
     do { (s1, ok) \<leftarrow> lock_state s idx t;
          if \<not> ok then Some (s1, r0)
          else let (s2, r) = f s1 in Some (unlock_state s2 idx, r) }"

definition event_type :: "u16 \<Rightarrow> bool" where
  "event_type t = (t = INPROC_SYNC_EVENT \<or> t = INPROC_SYNC_INTERNAL)"

definition locked_event :: "shm \<Rightarrow> wfusync \<Rightarrow> 'a \<Rightarrow> (shm \<Rightarrow> shm \<times> 'a) \<Rightarrow> (shm \<times> 'a) option" where
  "locked_event s sync r0 f =
     (case get_state s (shm_idx sync) of None \<Rightarrow> Some (s, r0)
      | Some st \<Rightarrow>
          if \<not> event_type (get_state_type st) then Some (s, r0)
          else locked s (shm_idx sync) (get_state_type st) r0 f)"

definition locked_type :: "u16 \<Rightarrow> shm \<Rightarrow> wfusync \<Rightarrow> 'a \<Rightarrow> (shm \<Rightarrow> shm \<times> 'a) \<Rightarrow> (shm \<times> 'a) option" where
  "locked_type t s sync r0 f =
     (case get_state s (shm_idx sync) of None \<Rightarrow> Some (s, r0)
      | Some st \<Rightarrow> locked s (shm_idx sync) t r0 f)"

text \<open>The manual flag and the signaled state as stored, \<open>None\<close> when the function returns 0.\<close>

definition wfusync_get_event_state :: "shm \<Rightarrow> wfusync \<Rightarrow> (shm \<times> (int \<times> int) option) option" where
  "wfusync_get_event_state s sync =
     locked_event s sync None (\<lambda>s. (s, Some (high (states s (shm_idx sync)), low (states s (shm_idx sync)))))"

definition wfusync_event_signaled :: "shm \<Rightarrow> wfusync \<Rightarrow> (shm \<times> bool) option" where
  "wfusync_event_signaled s sync = locked_event s sync False (\<lambda>s. (s, low (states s (shm_idx sync)) \<noteq> 0))"

definition set_low :: "shm \<Rightarrow> nat \<Rightarrow> int \<Rightarrow> shm" where
  "set_low s idx v = set_state s idx ((states s idx)\<lparr>low := v\<rparr>)"

definition set_high :: "shm \<Rightarrow> nat \<Rightarrow> int \<Rightarrow> shm" where
  "set_high s idx v = set_state s idx ((states s idx)\<lparr>high := v\<rparr>)"

definition wfusync_event_satisfied :: "shm \<Rightarrow> wfusync \<Rightarrow> shm option" where
  "wfusync_event_satisfied s sync =
     map_option fst (locked_event s sync ()
       (\<lambda>s. (if high (states s (shm_idx sync)) = 0 then set_low s (shm_idx sync) 0 else s, ())))"

definition wfusync_set_event :: "shm \<Rightarrow> wfusync \<Rightarrow> shm option" where
  "wfusync_set_event s sync =
     do { (s1, previous) \<leftarrow> locked_event s sync None
            (\<lambda>s. (set_low s (shm_idx sync) 1, Some (low (states s (shm_idx sync)))));
          case previous of None \<Rightarrow> Some s1
          | Some p \<Rightarrow>
              let s2 = (if p = 0 then wake_address s1 (shm_idx sync) (high (states s1 (shm_idx sync)) \<noteq> 0) else s1)
              in Some (wake_waiters_for_object s2 (shm_idx sync)) }"

definition wfusync_reset_event :: "shm \<Rightarrow> wfusync \<Rightarrow> shm option" where
  "wfusync_reset_event s sync = map_option fst (locked_event s sync () (\<lambda>s. (set_low s (shm_idx sync) 0, ())))"

section \<open>Semaphores\<close>

definition wfusync_semaphore_signaled :: "shm \<Rightarrow> wfusync \<Rightarrow> (shm \<times> bool) option" where
  "wfusync_semaphore_signaled s sync =
     locked_type INPROC_SYNC_SEMAPHORE s sync False (\<lambda>s. (s, low (states s (shm_idx sync)) > 0))"

definition wfusync_semaphore_satisfied :: "shm \<Rightarrow> wfusync \<Rightarrow> shm option" where
  "wfusync_semaphore_satisfied s sync =
     map_option fst (locked_type INPROC_SYNC_SEMAPHORE s sync ()
       (\<lambda>s. let count = low (states s (shm_idx sync)) in
            (if count \<le> 0 then s else set_low s (shm_idx sync) (count - 1), ())))"

text \<open>The outcome of a release: refused without an error, refused with one, or the previous count.\<close>

datatype release = No_State | Refused status | Released nat

definition wfusync_release_semaphore :: "shm \<Rightarrow> wfusync \<Rightarrow> nat \<Rightarrow> (shm \<times> release) option" where
  "wfusync_release_semaphore s sync count =
     do { (s1, r) \<leftarrow> locked_type INPROC_SYNC_SEMAPHORE s sync No_State
            (\<lambda>s. let st = states s (shm_idx sync); old = to_uint (low st); new = (old + count) mod 2 ^ 32 in
                 if new < old \<or> new > to_uint (high st) then (s, Refused STATUS_SEMAPHORE_LIMIT_EXCEEDED)
                 else (set_low s (shm_idx sync) (to_int (int new)), Released old));
          case r of Released old \<Rightarrow> Some (if old = 0 then wake_address s1 (shm_idx sync) (count > 1) else s1, r)
          | _ \<Rightarrow> Some (s1, r) }"

definition wfusync_get_semaphore_state :: "shm \<Rightarrow> wfusync \<Rightarrow> (shm \<times> (nat \<times> nat) option) option" where
  "wfusync_get_semaphore_state s sync =
     locked_type INPROC_SYNC_SEMAPHORE s sync None
       (\<lambda>s. (s, Some (to_uint (low (states s (shm_idx sync))), to_uint (high (states s (shm_idx sync))))))"

section \<open>Mutexes\<close>

text \<open>\<open>low\<close> is the owner's thread id, negative when it left the mutex abandoned; \<open>high\<close> the recursion count.\<close>

definition wfusync_mutex_signaled :: "shm \<Rightarrow> wfusync \<Rightarrow> nat \<Rightarrow> (shm \<times> bool) option" where
  "wfusync_mutex_signaled s sync tid =
     locked_type INPROC_SYNC_MUTEX s sync False
       (\<lambda>s. let owner = low (states s (shm_idx sync)) in (s, owner = 0 \<or> owner = to_int (int tid) \<or> owner < 0))"

text \<open>The result is whether the mutex was taken and whether it had been abandoned.\<close>

definition wfusync_mutex_satisfied :: "shm \<Rightarrow> wfusync \<Rightarrow> nat \<Rightarrow> (shm \<times> bool option) option" where
  "wfusync_mutex_satisfied s sync tid =
     locked_type INPROC_SYNC_MUTEX s sync None
       (\<lambda>s. let idx = shm_idx sync; owner = low (states s idx); count = high (states s idx) in
            if owner = to_int (int tid) then (set_high s idx (to_int (count + 1)), Some False)
            else if owner = 0 \<or> owner < 0
            then (let s1 = set_high (set_low s idx (to_int (int tid))) idx 1;
                      st = states s1 idx in
                  (if owner < 0 then set_state s1 idx (st\<lparr>generation := generation st + 1\<rparr>) else s1, Some (owner < 0)))
            else (s, None))"

definition wfusync_release_mutex :: "shm \<Rightarrow> wfusync \<Rightarrow> nat \<Rightarrow> (shm \<times> release) option" where
  "wfusync_release_mutex s sync tid =
     do { (s1, r, wake) \<leftarrow> locked_type INPROC_SYNC_MUTEX s sync (No_State, False)
            (\<lambda>s. let idx = shm_idx sync; count = high (states s idx) in
                 if low (states s idx) \<noteq> to_int (int tid) \<or> count = 0 then (s, Refused STATUS_MUTANT_NOT_OWNED, False)
                 else if count > 1 then (set_high s idx (count - 1), Released (to_uint count), False)
                 else (set_low (set_high s idx 0) idx 0, Released (to_uint count), True));
          Some (if wake then wake_address s1 (shm_idx sync) False else s1, r) }"

text \<open>The count, whether the caller owns it and whether it is abandoned.\<close>

definition wfusync_get_mutex_state :: "shm \<Rightarrow> wfusync \<Rightarrow> nat \<Rightarrow> (shm \<times> (nat \<times> bool \<times> bool) option) option" where
  "wfusync_get_mutex_state s sync tid =
     locked_type INPROC_SYNC_MUTEX s sync None
       (\<lambda>s. let st = states s (shm_idx sync); owner = low st in
            (s, Some (if owner < 0 then 0 else to_uint (high st), owner = to_int (int tid), owner < 0)))"

definition wfusync_abandon_mutex :: "shm \<Rightarrow> wfusync \<Rightarrow> nat \<Rightarrow> (shm \<times> bool) option" where
  "wfusync_abandon_mutex s sync tid =
     do { (s1, ok) \<leftarrow> locked_type INPROC_SYNC_MUTEX s sync False
            (\<lambda>s. let idx = shm_idx sync; st = states s idx in
                 if low st \<noteq> to_int (int tid) \<or> high st = 0 then (s, False)
                 else (set_state s idx (st\<lparr>low := - to_int (int tid), high := 0, generation := generation st + 1\<rparr>), True));
          Some (if ok then wake_address s1 (shm_idx sync) True else s1, ok) }"


section \<open>Waiting for all of several objects\<close>

text \<open>
  An entry of the request: the slot, the generation the client has seen, and the type.  The first
  pass marks the slots so that clients leave them to the server; \<open>guarded\<close> are the marked ones.
\<close>

type_synonym wait_entry = "nat \<times> u32 \<times> nat"

definition entry_valid :: "wfusync_state \<Rightarrow> u32 \<Rightarrow> nat \<Rightarrow> bool" where
  "entry_valid st gen t = (unat (get_state_type st) = t \<and> generation st = gen)"

fun guard_states :: "shm \<Rightarrow> nat list \<Rightarrow> wait_entry list \<Rightarrow> shm \<times> nat list \<times> bool" where
  "guard_states s guarded [] = (s, guarded, True)"
| "guard_states s guarded ((idx, gen, t) # es) =
     (case get_state s idx of None \<Rightarrow> (s, guarded, False)
      | Some st \<Rightarrow>
          if stype st AND (WFUSYNC_STATE_LOCKED OR WFUSYNC_SERVER_WAITERS) \<noteq> 0 \<or> \<not> entry_valid st gen t
          then (s, guarded, False)
          else guard_states (set_state s idx (st\<lparr>stype := stype st OR WFUSYNC_SERVER_WAITERS\<rparr>)) (idx # guarded) es)"

text \<open>The second pass: the status with which the wait ends here, or whether a mutex is abandoned.\<close>

fun check_states :: "shm \<Rightarrow> nat \<Rightarrow> bool \<Rightarrow> wait_entry list \<Rightarrow> bool result" where
  "check_states s tid abandoned [] = Inr abandoned"
| "check_states s tid abandoned ((idx, gen, t) # es) =
     (let st = states s idx; l = low st in
      if \<not> entry_valid st gen t then Inl STATUS_NOT_IMPLEMENTED
      else if t = unat INPROC_SYNC_EVENT
      then (if l = 0 then Inl STATUS_TIMEOUT else check_states s tid abandoned es)
      else if t = unat INPROC_SYNC_SEMAPHORE
      then (if l \<le> 0 then Inl STATUS_TIMEOUT else check_states s tid abandoned es)
      else if t = unat INPROC_SYNC_MUTEX
      then (if l \<noteq> 0 \<and> l \<noteq> to_int (int tid) \<and> l > 0 then Inl STATUS_TIMEOUT
            else if l = to_int (int tid) \<and> high st = INT_MAX then Inl STATUS_NOT_IMPLEMENTED
            else check_states s tid (abandoned \<or> l < 0) es)
      else Inl STATUS_NOT_IMPLEMENTED)"

text \<open>The third pass acquires the objects; \<open>False\<close> when it stops early.\<close>

definition acquire_state :: "wfusync_state \<Rightarrow> nat \<Rightarrow> nat \<Rightarrow> wfusync_state option" where
  "acquire_state st tid t =
     (if t = unat INPROC_SYNC_EVENT
      then (if low st = 0 then None else Some (if high st = 0 then st\<lparr>low := 0\<rparr> else st))
      else if t = unat INPROC_SYNC_SEMAPHORE
      then (if low st \<le> 0 then None else Some (st\<lparr>low := low st - 1\<rparr>))
      else if t = unat INPROC_SYNC_MUTEX
      then (if low st = to_int (int tid)
            then (if high st = INT_MAX then None else Some (st\<lparr>high := high st + 1\<rparr>))
            else if low st = 0 \<or> low st < 0
            then Some (st\<lparr>generation := (if low st < 0 then generation st + 1 else generation st),
                          low := to_int (int tid), high := 1\<rparr>)
            else None)
      else Some st)"

fun acquire_states :: "shm \<Rightarrow> nat \<Rightarrow> wait_entry list \<Rightarrow> shm \<times> bool" where
  "acquire_states s tid [] = (s, True)"
| "acquire_states s tid ((idx, gen, t) # es) =
     (case acquire_state (states s idx) tid t of
        None \<Rightarrow> (s, False)
      | Some st \<Rightarrow> acquire_states (set_state s idx st) tid es)"

definition unguard :: "shm \<Rightarrow> nat \<Rightarrow> shm" where
  "unguard s idx = set_state s idx ((states s idx)\<lparr>stype := stype (states s idx) AND NOT WFUSYNC_SERVER_WAITERS\<rparr>)"

definition wfusync_try_wait_all :: "shm \<Rightarrow> wait_entry list \<Rightarrow> nat \<Rightarrow> shm \<times> status" where
  "wfusync_try_wait_all s es tid =
     (if es = [] \<or> length es > 64 then (s, STATUS_NOT_IMPLEMENTED)
      else
        let (s1, guarded, ok) = guard_states s [] es;
            (s2, status) =
              (if \<not> ok then (s1, STATUS_NOT_IMPLEMENTED)
               else case check_states s1 tid False es of
                 Inl st \<Rightarrow> (s1, st)
               | Inr abandoned \<Rightarrow>
                   (case acquire_states s1 tid es of
                      (s', False) \<Rightarrow> (s', STATUS_NOT_IMPLEMENTED)
                    | (s', True) \<Rightarrow> (s', if abandoned then STATUS_ABANDONED_WAIT_0 else STATUS_WAIT_0)))
        in (foldl unguard s2 (rev guarded), status))"

text \<open>The objects that are not signaled; \<open>None\<close> when an entry is stale or in use.\<close>

fun get_wait_all_unsignaled :: "shm \<Rightarrow> nat \<Rightarrow> wait_entry list \<Rightarrow> nat list option" where
  "get_wait_all_unsignaled s tid [] = Some []"
| "get_wait_all_unsignaled s tid ((idx, gen, t) # es) =
     (case get_state s idx of None \<Rightarrow> None
      | Some st \<Rightarrow>
          if stype st AND (WFUSYNC_STATE_LOCKED OR WFUSYNC_SERVER_WAITERS) \<noteq> 0 \<or> \<not> entry_valid st gen t then None
          else
            let l = low st; rest = get_wait_all_unsignaled s tid es in
            if t = unat INPROC_SYNC_EVENT then (if l = 0 then map_option ((#) idx) rest else rest)
            else if t = unat INPROC_SYNC_SEMAPHORE then (if l \<le> 0 then map_option ((#) idx) rest else rest)
            else if t = unat INPROC_SYNC_MUTEX
            then (if l \<noteq> 0 \<and> l \<noteq> to_int (int tid) \<and> l > 0 then map_option ((#) idx) rest else rest)
            else None)"

section \<open>Requests\<close>

text \<open>\<open>enabled\<close> is \<^verbatim>\<open>do_wfusync()\<close>; request data are lists of 32-bit numbers of \<open>data_size\<close> bytes.\<close>

definition req_get_wfusync_wait_slot :: "bool \<Rightarrow> bool \<Rightarrow> bool \<Rightarrow> shm \<Rightarrow> shm \<times> nat result" where
  "req_get_wfusync_wait_slot enabled realloc_ok map_ok s =
     (if \<not> enabled then (s, Inl STATUS_NOT_IMPLEMENTED)
      else let (s', idx) = wfusync_alloc_wait_slot realloc_ok map_ok s in
           (s', if idx = 0 then Inl STATUS_NO_MEMORY else Inr idx))"

definition req_register_wfusync_wait ::
    "bool \<Rightarrow> bool \<Rightarrow> (nat \<Rightarrow> bool) \<Rightarrow> shm \<Rightarrow> nat \<Rightarrow> nat \<Rightarrow> nat list \<Rightarrow> shm \<times> unit result" where
  "req_register_wfusync_wait enabled mem_ok A s slot data_size data =
     (if \<not> enabled \<or> data_size = 0 \<or> data_size mod 4 \<noteq> 0 then (s, Inl STATUS_INVALID_PARAMETER)
      else let (s', ok) = wfusync_register_wait mem_ok A s slot data in
           (s', if ok then Inr () else Inl STATUS_NOT_IMPLEMENTED))"

definition req_unregister_wfusync_wait :: "bool \<Rightarrow> shm \<Rightarrow> nat \<Rightarrow> shm \<times> unit result" where
  "req_unregister_wfusync_wait enabled s slot =
     (if \<not> enabled then (s, Inl STATUS_NOT_IMPLEMENTED) else (wfusync_unregister_wait s slot, Inr ()))"

definition req_wake_wfusync_waiters :: "bool \<Rightarrow> shm \<Rightarrow> nat \<Rightarrow> shm \<times> unit result" where
  "req_wake_wfusync_waiters enabled s idx =
     (if \<not> enabled then (s, Inl STATUS_NOT_IMPLEMENTED)
      else let (s', ok) = wfusync_wake_waiters s idx in (s', if ok then Inr () else Inl STATUS_NOT_IMPLEMENTED))"

text \<open>The retry loop, \<open>n\<close> attempts after the current one; a slot of 0 asks not to register.\<close>

fun try_wait_all_loop :: "bool \<Rightarrow> (nat \<Rightarrow> bool) \<Rightarrow> nat \<Rightarrow> shm \<Rightarrow> wait_entry list \<Rightarrow> nat \<Rightarrow> nat \<Rightarrow> shm \<times> status" where
  "try_wait_all_loop mem_ok A n s es tid slot =
     (let (s1, status) = wfusync_try_wait_all s es tid in
      if status \<noteq> STATUS_TIMEOUT \<or> slot = 0 then (s1, status)
      else case get_wait_all_unsignaled s1 tid es of
        None \<Rightarrow> (s1, STATUS_NOT_IMPLEMENTED)
      | Some idxs \<Rightarrow>
          if idxs \<noteq> []
          then (let (s2, ok) = wfusync_register_wait mem_ok A s1 slot idxs in
                (s2, if ok then STATUS_PENDING else STATUS_NOT_IMPLEMENTED))
          else case n of 0 \<Rightarrow> (s1, STATUS_NOT_IMPLEMENTED)
               | Suc m \<Rightarrow> try_wait_all_loop mem_ok A m s1 es tid slot)"

fun wait_entries :: "u32 list \<Rightarrow> wait_entry list" where
  "wait_entries (i # g # t # ws) = (unat i, g, unat t) # wait_entries ws"
| "wait_entries _ = []"

definition req_try_wait_all_wfusync ::
    "bool \<Rightarrow> bool \<Rightarrow> (nat \<Rightarrow> bool) \<Rightarrow> shm \<Rightarrow> nat \<Rightarrow> u32 list \<Rightarrow> nat \<Rightarrow> nat \<Rightarrow> shm \<times> unit result" where
  "req_try_wait_all_wfusync enabled mem_ok A s data_size data tid slot =
     (if \<not> enabled \<or> data_size = 0 \<or> data_size mod 12 \<noteq> 0 then (s, Inl STATUS_NOT_IMPLEMENTED)
      else if data_size div 12 > 64 then (s, Inl STATUS_NOT_IMPLEMENTED)
      else let s1 = (if slot \<noteq> 0 then wfusync_unregister_wait s slot else s);
               (s2, status) = try_wait_all_loop mem_ok A 3 s1 (wait_entries data) tid slot in
           (s2, if status = STATUS_SUCCESS then Inr () else Inl status))"

end
