(* ===== verification/WFUSync_Slots.thy ===== *)
theory WFUSync_Slots
  imports WFUSync
begin

text \<open>
  Single operations on the shared slots: the bits of the type word, what each operation does to an
  unlocked slot, and the attempt to acquire several objects at once.
\<close>

section \<open>Bits of the type word\<close>

lemma word_and_0: "(m :: u16) AND k = 0 \<longleftrightarrow> (\<forall>n. bit m n \<longrightarrow> \<not> bit k n)"
  using bit_imp_le_length[of m] by (auto simp: bit_eq_iff bit_and_iff)

lemma or_and_other: "(m :: u16) AND k = 0 \<Longrightarrow> (t OR m) AND k = t AND k"
  by (simp add: bit.conj_disj_distrib2)

lemma andnot_and_other: "(m :: u16) AND k = 0 \<Longrightarrow> (t AND NOT m) AND k = t AND k"
  unfolding word_and_0 by (auto simp: bit_eq_iff bit_and_iff bit_not_iff)

lemma or_andnot: "(t :: u16) AND m = 0 \<Longrightarrow> (t OR m) AND NOT m = t"
  unfolding word_and_0 by (auto simp: bit_eq_iff bit_and_iff bit_not_iff bit_or_iff)

lemma and_or_zero: "(t :: u16) AND (m OR k) = 0 \<longleftrightarrow> t AND m = 0 \<and> t AND k = 0"
  unfolding word_and_0 by (auto simp: bit_or_iff)

lemma andnot_self: "((t :: u16) AND NOT m) AND m = 0"
  unfolding word_and_0 by (auto simp: bit_and_iff bit_not_iff)

lemma or_self: "((t :: u16) OR m) AND m = m"
  by (auto simp: bit_eq_iff bit_and_iff bit_or_iff)

lemmas type_bits = WFUSYNC_TYPE_MASK_def WFUSYNC_STATE_LOCKED_def WFUSYNC_MULTI_WAITERS_def WFUSYNC_SERVER_WAITERS_def
lemmas type_codes = INPROC_SYNC_UNKNOWN_def INPROC_SYNC_INTERNAL_def INPROC_SYNC_EVENT_def INPROC_SYNC_MUTEX_def
  INPROC_SYNC_SEMAPHORE_def

lemma type_mask_simps [simp]:
  "(t OR WFUSYNC_STATE_LOCKED) AND WFUSYNC_TYPE_MASK = t AND WFUSYNC_TYPE_MASK"
  "(t OR WFUSYNC_MULTI_WAITERS) AND WFUSYNC_TYPE_MASK = t AND WFUSYNC_TYPE_MASK"
  "(t OR WFUSYNC_SERVER_WAITERS) AND WFUSYNC_TYPE_MASK = t AND WFUSYNC_TYPE_MASK"
  "(t AND NOT WFUSYNC_STATE_LOCKED) AND WFUSYNC_TYPE_MASK = t AND WFUSYNC_TYPE_MASK"
  "(t AND NOT WFUSYNC_MULTI_WAITERS) AND WFUSYNC_TYPE_MASK = t AND WFUSYNC_TYPE_MASK"
  "(t AND NOT WFUSYNC_SERVER_WAITERS) AND WFUSYNC_TYPE_MASK = t AND WFUSYNC_TYPE_MASK"
  by (rule or_and_other andnot_and_other; simp add: type_bits)+

lemma type_locked_simps [simp]:
  "(t OR WFUSYNC_MULTI_WAITERS) AND WFUSYNC_STATE_LOCKED = t AND WFUSYNC_STATE_LOCKED"
  "(t OR WFUSYNC_SERVER_WAITERS) AND WFUSYNC_STATE_LOCKED = t AND WFUSYNC_STATE_LOCKED"
  "(t AND NOT WFUSYNC_MULTI_WAITERS) AND WFUSYNC_STATE_LOCKED = t AND WFUSYNC_STATE_LOCKED"
  "(t AND NOT WFUSYNC_SERVER_WAITERS) AND WFUSYNC_STATE_LOCKED = t AND WFUSYNC_STATE_LOCKED"
  by (rule or_and_other andnot_and_other; simp add: type_bits)+

lemma type_multi_simps [simp]:
  "(t OR WFUSYNC_SERVER_WAITERS) AND WFUSYNC_MULTI_WAITERS = t AND WFUSYNC_MULTI_WAITERS"
  "(t AND NOT WFUSYNC_SERVER_WAITERS) AND WFUSYNC_MULTI_WAITERS = t AND WFUSYNC_MULTI_WAITERS"
  by (rule or_and_other andnot_and_other; simp add: type_bits)+

lemma type_multi_set [simp]:
  "(t OR WFUSYNC_MULTI_WAITERS) AND WFUSYNC_MULTI_WAITERS = WFUSYNC_MULTI_WAITERS"
  "(t AND NOT WFUSYNC_MULTI_WAITERS) AND WFUSYNC_MULTI_WAITERS = 0"
  "WFUSYNC_MULTI_WAITERS \<noteq> 0"
  by (rule or_self andnot_self | simp add: type_bits)+

section \<open>Slots\<close>

lemma states_set_state [simp]: "states (set_state s i st) = (states s)(i := st)"
  by (simp add: set_state_def)

lemma set_state_fields [simp]:
  "page_size (set_state s i st) = page_size s" "wfusync_pages (set_state s i st) = wfusync_pages s"
  "next_shm_idx (set_state s i st) = next_shm_idx s" "next_generation (set_state s i st) = next_generation s"
  "wfusync_waiters (set_state s i st) = wfusync_waiters s" "multi_waiter_counts (set_state s i st) = multi_waiter_counts s"
  "wakes (set_state s i st) = wakes s"
  by (simp_all add: set_state_def)

lemma set_state_twice [simp]: "set_state (set_state s i a) i b = set_state s i b"
  by (simp add: set_state_def)

lemma set_state_same [simp]: "set_state s i (states s i) = s"
  by (simp add: set_state_def)

text \<open>Whether a slot is mapped does not depend on what it holds.\<close>

definition slot_mapped :: "shm \<Rightarrow> nat \<Rightarrow> bool" where
  "slot_mapped s i = (state_page s i < length (wfusync_pages s) \<and> wfusync_pages s ! state_page s i)"

lemma get_state_eq: "get_state s i = (if slot_mapped s i then Some (states s i) else None)"
  by (auto simp: get_state_def slot_mapped_def Let_def)

lemma slot_mapped_cong:
  "page_size s' = page_size s \<Longrightarrow> wfusync_pages s' = wfusync_pages s \<Longrightarrow> slot_mapped s' i = slot_mapped s i"
  by (simp add: slot_mapped_def state_page_def)

lemma slot_mapped_simps [simp]:
  "slot_mapped (set_state s i st) j = slot_mapped s j"
  "slot_mapped (wake_address s i b) j = slot_mapped s j"
  "slot_mapped (s\<lparr>wfusync_waiters := ws\<rparr>) j = slot_mapped s j"
  "slot_mapped (s\<lparr>multi_waiter_counts := cs\<rparr>) j = slot_mapped s j"
  "slot_mapped (s\<lparr>next_generation := g\<rparr>) j = slot_mapped s j"
  by (auto intro!: slot_mapped_cong simp: wake_address_def)

lemma wake_address_fields [simp]:
  "states (wake_address s i b) = states s" "wfusync_waiters (wake_address s i b) = wfusync_waiters s"
  "multi_waiter_counts (wake_address s i b) = multi_waiter_counts s"
  "next_shm_idx (wake_address s i b) = next_shm_idx s" "next_generation (wake_address s i b) = next_generation s"
  by (simp_all add: wake_address_def)

abbreviation unlocked :: "wfusync_state \<Rightarrow> bool" where
  "unlocked st \<equiv> stype st AND WFUSYNC_STATE_LOCKED = 0"

text \<open>
  An operation that works on its own slot and leaves the type alone acts, under the lock, as the
  same change of the unlocked slot, and never spins on an unlocked slot.
\<close>

lemma locked_local:
  assumes "unlocked (states s i)" "get_state_type (states s i) = t"
    and "\<And>s. f s = (set_state s i (g (states s i)), r (states s i))"
    and "\<And>st y. g (st\<lparr>stype := y\<rparr>) = (g st)\<lparr>stype := y\<rparr>" "\<And>st y. r (st\<lparr>stype := y\<rparr>) = r st"
  shows "locked s i t r0 f = Some (set_state s i ((g (states s i))\<lparr>stype := stype (states s i)\<rparr>), r (states s i))"
  using assms(1,2) or_andnot[OF assms(1)]
  by (simp add: locked_def lock_state_def unlock_state_def get_state_type_def assms(3-5) Let_def)


section \<open>Waiting for all objects\<close>

text \<open>The first pass marks a prefix of the entries; the last step takes the marks away.\<close>

definition mark :: "nat list \<Rightarrow> shm \<Rightarrow> shm" where
  "mark ps s = s\<lparr>states := (\<lambda>i. if i \<in> set ps then (states s i)\<lparr>stype := stype (states s i) OR WFUSYNC_SERVER_WAITERS\<rparr>
                               else states s i)\<rparr>"

definition unmark :: "nat list \<Rightarrow> shm \<Rightarrow> shm" where
  "unmark ps s = s\<lparr>states := (\<lambda>i. if i \<in> set ps then (states s i)\<lparr>stype := stype (states s i) AND NOT WFUSYNC_SERVER_WAITERS\<rparr>
                                 else states s i)\<rparr>"

abbreviation unguarded :: "wfusync_state \<Rightarrow> bool" where
  "unguarded st \<equiv> stype st AND (WFUSYNC_STATE_LOCKED OR WFUSYNC_SERVER_WAITERS) = 0"

lemma unmark_foldl: "distinct ps \<Longrightarrow> foldl unguard s ps = unmark ps s"
proof (induction ps arbitrary: s)
  case Nil
  then show ?case by (simp add: unmark_def)
next
  case (Cons p ps)
  then show ?case by (auto simp: unmark_def unguard_def set_state_def fun_eq_iff)
qed

lemma unmark_mark:
  assumes "\<forall>i \<in> set ps. unguarded (states s i)"
  shows "unmark ps (mark ps s) = s"
proof -
  have "(stype (states s i) OR WFUSYNC_SERVER_WAITERS) AND NOT WFUSYNC_SERVER_WAITERS = stype (states s i)"
    if "i \<in> set ps" for i using assms that by (auto intro: or_andnot simp: and_or_zero)
  then show ?thesis by (simp add: unmark_def mark_def cong: if_cong)
qed

lemma mark_simps [simp]:
  "slot_mapped (mark ps s) i = slot_mapped s i" "mark [] s = s"
  by (auto simp: mark_def intro!: slot_mapped_cong)

lemma mark_Cons: "mark ps (set_state s p ((states s p)\<lparr>stype := stype (states s p) OR WFUSYNC_SERVER_WAITERS\<rparr>)) =
    mark (p # ps) s" if "p \<notin> set ps"
  using that by (auto simp: mark_def set_state_def fun_eq_iff)

lemma guarded_bit: "\<not> unguarded (st\<lparr>stype := t OR WFUSYNC_SERVER_WAITERS\<rparr>)"
proof -
  have "(t OR WFUSYNC_SERVER_WAITERS) AND WFUSYNC_SERVER_WAITERS \<noteq> 0" unfolding or_self by (simp add: type_bits)
  then show ?thesis by (simp add: and_or_zero)
qed

lemma entry_valid_marked [simp]:
  "entry_valid (st\<lparr>stype := stype st OR WFUSYNC_SERVER_WAITERS\<rparr>) g t = entry_valid st g t"
  by (simp add: entry_valid_def get_state_type_def)

lemma guard_states_spec:
  "guard_states s g es = (s1, g1, ok) \<Longrightarrow>
   \<exists>ps. g1 = rev ps @ g \<and> s1 = mark ps s \<and> distinct ps \<and> (\<forall>i \<in> set ps. slot_mapped s i \<and> unguarded (states s i)) \<and>
     (ok \<longrightarrow> ps = map fst es \<and> (\<forall>(i, gen, t) \<in> set es. entry_valid (states s i) gen t))"
proof (induction s g es rule: guard_states.induct)
  case (1 s g)
  then show ?case by (intro exI[of _ "[]"]) auto
next
  case (2 s g i gen t es)
  show ?case
  proof (cases "slot_mapped s i \<and> unguarded (states s i) \<and> entry_valid (states s i) gen t")
    case False
    then have "s1 = s" "g1 = g" "\<not> ok" using "2.prems" by (auto simp: get_state_eq split: if_splits)
    then show ?thesis by (intro exI[of _ "[]"]) simp
  next
    case True
    let ?s = "set_state s i ((states s i)\<lparr>stype := stype (states s i) OR WFUSYNC_SERVER_WAITERS\<rparr>)"
    have st: "get_state s i = Some (states s i)" using True by (simp add: get_state_eq)
    then have r: "guard_states ?s (i # g) es = (s1, g1, ok)" using "2.prems" True by simp
    obtain ps where ps: "g1 = rev ps @ i # g" "s1 = mark ps ?s" "distinct ps"
        "\<forall>j \<in> set ps. slot_mapped s j \<and> unguarded (states ?s j)"
        "ok \<longrightarrow> ps = map fst es \<and> (\<forall>(j, gen, t) \<in> set es. entry_valid (states ?s j) gen t)"
      using "2.IH"[OF st _ r] True by auto
    have i: "i \<notin> set ps" using ps(4) guarded_bit by auto
    have u: "\<forall>j \<in> set ps. unguarded (states s j)"
    proof
      fix j assume j: "j \<in> set ps"
      then have "states ?s j = states s j" using i by auto
      then show "unguarded (states s j)" using ps(4) j by metis
    qed
    have v: "entry_valid (states ?s j) gen' t' = entry_valid (states s j) gen' t'" for j gen' t' by simp
    have ev: "ok \<longrightarrow> ps = map fst es \<and> (\<forall>(j, gen, t) \<in> set es. entry_valid (states s j) gen t)"
      using ps(5) unfolding v .
    have sm: "\<forall>j \<in> set ps. slot_mapped s j" using ps(4) by blast
    show ?thesis
      using ps(1,2,3) sm i u ev True mark_Cons[OF i] by (intro exI[of _ "i # ps"]) auto
  qed
qed

lemma acquire_state_type:
  "acquire_state (st\<lparr>stype := y\<rparr>) tid t = map_option (\<lambda>st'. st'\<lparr>stype := y\<rparr>) (acquire_state st tid t)"
  by (simp add: acquire_state_def)

lemma sync_codes: "unat INPROC_SYNC_EVENT = 2" "unat INPROC_SYNC_MUTEX = 3" "unat INPROC_SYNC_SEMAPHORE = 4"
  by (simp_all add: type_codes)

lemma check_states_acquire:
  "check_states s tid ab es = Inr ab' \<Longrightarrow>
   (\<forall>(i, gen, t) \<in> set es. acquire_state (states s i) tid t \<noteq> None \<and> t \<in> {2, 3, 4}) \<and>
   (ab' \<longleftrightarrow> ab \<or> (\<exists>(i, gen, t) \<in> set es. t = 3 \<and> low (states s i) < 0))"
proof (induction es arbitrary: ab)
  case Nil
  then show ?case by simp
next
  case (Cons e es)
  obtain i gen t where e: "e = (i, gen, t)" by (cases e) auto
  let ?l = "low (states s i)"
  have p: "check_states s tid ab ((i, gen, t) # es) = Inr ab'" using Cons.prems e by simp
  consider "t = 2" "?l \<noteq> 0" "check_states s tid ab es = Inr ab'"
    | "t = 4" "?l > 0" "check_states s tid ab es = Inr ab'"
    | "t = 3" "\<not> 0 < ?l \<or> ?l = to_int (int tid)" "?l = to_int (int tid) \<longrightarrow> high (states s i) \<noteq> INT_MAX"
      "check_states s tid (ab \<or> ?l < 0) es = Inr ab'"
    using p by (auto simp: Let_def sync_codes split: if_splits)
  then show ?case
  proof cases
    case 1
    then show ?thesis using Cons.IH[OF 1(3)] by (simp add: e acquire_state_def sync_codes)
  next
    case 2
    then show ?thesis using Cons.IH[OF 2(3)] by (simp add: e acquire_state_def sync_codes)
  next
    case 3
    then show ?thesis using Cons.IH[OF 3(4)] by (auto simp: e acquire_state_def sync_codes)
  qed
qed

lemma check_states_status: "check_states s tid ab es = Inl st \<Longrightarrow> st = STATUS_TIMEOUT \<or> st = STATUS_NOT_IMPLEMENTED"
  by (induction s tid ab es rule: check_states.induct) (auto simp: Let_def split: if_splits)

lemma acquire_states_spec:
  "distinct (map fst es) \<Longrightarrow> \<forall>(i, gen, t) \<in> set es. acquire_state (states s i) tid t \<noteq> None \<Longrightarrow>
   \<exists>s'. acquire_states s tid es = (s', True) \<and> s' = s\<lparr>states := states s'\<rparr> \<and>
     (\<forall>(i, gen, t) \<in> set es. acquire_state (states s i) tid t = Some (states s' i)) \<and>
     (\<forall>i. i \<notin> fst ` set es \<longrightarrow> states s' i = states s i)"
proof (induction s tid es rule: acquire_states.induct)
  case (1 s tid)
  then show ?case by simp
next
  case (2 s tid i gen t es)
  obtain st where st: "acquire_state (states s i) tid t = Some st" using "2.prems"(2) by auto
  have ne: "j \<noteq> i" if "(j, g, u) \<in> set es" for j g u using that "2.prems"(1) by force
  have "\<forall>(j, g, u) \<in> set es. acquire_state (states (set_state s i st) j) tid u \<noteq> None"
    using "2.prems"(2) ne by fastforce
  then obtain s' where s': "acquire_states (set_state s i st) tid es = (s', True)" "s' = (set_state s i st)\<lparr>states := states s'\<rparr>"
    "\<forall>(j, g, u) \<in> set es. acquire_state (states (set_state s i st) j) tid u = Some (states s' j)"
    "\<forall>j. j \<notin> fst ` set es \<longrightarrow> states s' j = states (set_state s i st) j"
    using "2.IH"[OF st] "2.prems"(1) by auto
  have "i \<notin> fst ` set es" using "2.prems"(1) by auto
  moreover have "s' = s\<lparr>states := states s'\<rparr>" using s'(2) by (simp add: set_state_def)
  ultimately show ?case using s' st ne by (fastforce split: if_splits)
qed

lemma unmark_acquired:
  assumes "\<forall>i \<in> set ps. unguarded (states s i)" "i \<in> set ps"
    and "acquire_state (states (mark ps s) i) tid t = Some (states s2 i)"
  shows "acquire_state (states s i) tid t = Some (states (unmark ps s2) i)"
proof -
  have m: "acquire_state (states (mark ps s) i) tid t =
      map_option (\<lambda>st'. st'\<lparr>stype := stype (states s i) OR WFUSYNC_SERVER_WAITERS\<rparr>) (acquire_state (states s i) tid t)"
    using assms(2) by (simp add: mark_def acquire_state_type)
  then obtain st where st: "acquire_state (states s i) tid t = Some st"
    "states s2 i = st\<lparr>stype := stype (states s i) OR WFUSYNC_SERVER_WAITERS\<rparr>"
    using assms(3) by (cases "acquire_state (states s i) tid t") auto
  have "stype st = stype (states s i)" using st(1) by (auto simp: acquire_state_def split: if_splits)
  moreover have "(stype (states s i) OR WFUSYNC_SERVER_WAITERS) AND NOT WFUSYNC_SERVER_WAITERS = stype (states s i)"
    using assms(1,2) by (auto intro: or_andnot simp: and_or_zero)
  ultimately have "states (unmark ps s2) i = st" using st(2) assms(2) by (simp add: unmark_def)
  then show ?thesis using st(1) by simp
qed

text \<open>The outcome of an attempt: everything is acquired, or nothing has changed.\<close>

definition all_acquired :: "shm \<Rightarrow> shm \<Rightarrow> wait_entry list \<Rightarrow> nat \<Rightarrow> bool" where
  "all_acquired s s' es tid =
     (distinct (map fst es) \<and> s' = s\<lparr>states := states s'\<rparr> \<and>
      (\<forall>(i, gen, t) \<in> set es. slot_mapped s i \<and> unguarded (states s i) \<and> entry_valid (states s i) gen t \<and>
         acquire_state (states s i) tid t = Some (states s' i)) \<and>
      (\<forall>i. i \<notin> fst ` set es \<longrightarrow> states s' i = states s i))"

lemma try_wait_all_cases:
  assumes "wfusync_try_wait_all s es tid = (s', status)"
  shows "(status = STATUS_WAIT_0 \<or> status = STATUS_ABANDONED_WAIT_0) \<and> all_acquired s s' es tid \<and>
      (status = STATUS_ABANDONED_WAIT_0 \<longleftrightarrow> (\<exists>(i, gen, t) \<in> set es. t = 3 \<and> low (states s i) < 0)) \<and>
      (\<forall>(i, gen, t) \<in> set es. t \<in> {2, 3, 4})
    \<or> (status = STATUS_TIMEOUT \<or> status = STATUS_NOT_IMPLEMENTED) \<and> s' = s"
proof (cases "es = [] \<or> length es > 64")
  case True
  then show ?thesis using assms by (auto simp: wfusync_try_wait_all_def)
next
  case False
  obtain s1 g ok where g: "guard_states s [] es = (s1, g, ok)" by (cases "guard_states s [] es") auto
  obtain ps where ps: "g = rev ps" "s1 = mark ps s" "distinct ps" "\<forall>i \<in> set ps. slot_mapped s i \<and> unguarded (states s i)"
    "ok \<Longrightarrow> ps = map fst es" "ok \<Longrightarrow> \<forall>(i, gen, t) \<in> set es. entry_valid (states s i) gen t"
    using guard_states_spec[OF g] by auto
  have un: "unmark ps s1 = s" using unmark_mark[of ps s] ps(2,4) by simp
  have lo: "low (states s1 i) = low (states s i)" for i by (simp add: ps(2) mark_def)
  note r = assms[unfolded wfusync_try_wait_all_def g Let_def prod.case, simplified, simplified False unmark_foldl[OF ps(3)] ps(1)]
  show ?thesis
  proof (cases "ok \<and> (\<exists>ab. check_states s1 tid False es = Inr ab)")
    case False
    then show ?thesis using r un check_states_status ps(1) by (auto simp: unmark_foldl[OF ps(3)] split: if_splits sum.splits)
  next
    case True
    then obtain ab where ab: "check_states s1 tid False es = Inr ab" and ok by auto
    note c = check_states_acquire[OF ab]
    have d: "distinct (map fst es)" using ps(3,5) \<open>ok\<close> by simp
    have "\<forall>(i, gen, t) \<in> set es. acquire_state (states s1 i) tid t \<noteq> None" using c by auto
    then obtain s2 where a: "acquire_states s1 tid es = (s2, True)" "s2 = s1\<lparr>states := states s2\<rparr>"
      "\<forall>(i, gen, t) \<in> set es. acquire_state (states s1 i) tid t = Some (states s2 i)"
      "\<forall>i. i \<notin> fst ` set es \<longrightarrow> states s2 i = states s1 i"
      using acquire_states_spec[OF d, of s1 tid] by blast
    have s': "s' = unmark ps s2" "status = (if ab then STATUS_ABANDONED_WAIT_0 else STATUS_WAIT_0)"
      using r \<open>ok\<close> ab a(1) ps(1) by (auto simp: unmark_foldl[OF ps(3)])
    have mem: "i \<in> set ps" if "(i, gen, t) \<in> set es" for i gen t using that ps(5)[OF \<open>ok\<close>] by force
    have "acquire_state (states s i) tid t = Some (states s' i)" if "(i, gen, t) \<in> set es" for i gen t
      using unmark_acquired[OF _ mem[OF that]] ps(4) a(3) that unfolding s'(1) ps(2) by blast
    moreover have "states s' i = states s i" if "i \<notin> fst ` set es" for i
      using that a(4) ps(5)[OF \<open>ok\<close>] by (auto simp: s'(1) unmark_def ps(2) mark_def)
    moreover have "s' = s\<lparr>states := states s'\<rparr>" 
    proof -
      have s2: "s2 = s\<lparr>states := states s2\<rparr>" using a(2) by (simp add: ps(2) mark_def)
      have "s' = s2\<lparr>states := states s'\<rparr>" by (simp add: s'(1) unmark_def)
      also have "\<dots> = s\<lparr>states := states s'\<rparr>" by (subst s2) simp
      finally show ?thesis .
    qed
    ultimately have "all_acquired s s' es tid"
      using d ps(4) ps(6)[OF \<open>ok\<close>] mem unfolding all_acquired_def by blast
    then show ?thesis using s'(2) c lo by auto
  qed
qed

section \<open>The operations on an unlocked slot\<close>

text \<open>The slot of a handle: mapped, not locked, of the given type.\<close>

definition at_slot :: "shm \<Rightarrow> wfusync \<Rightarrow> u16 \<Rightarrow> bool" where
  "at_slot s sync t =
     (slot_mapped s (shm_idx sync) \<and> unlocked (states s (shm_idx sync)) \<and> get_state_type (states s (shm_idx sync)) = t)"

lemma locked_type_local:
  assumes "at_slot s sync t"
    and "\<And>s. f s = (set_state s (shm_idx sync) (g (states s (shm_idx sync))), r (states s (shm_idx sync)))"
    and "\<And>st y. g (st\<lparr>stype := y\<rparr>) = (g st)\<lparr>stype := y\<rparr>" "\<And>st y. r (st\<lparr>stype := y\<rparr>) = r st"
    and "\<And>st. stype (g st) = stype st"
  shows "locked_type t s sync r0 f =
    Some (set_state s (shm_idx sync) (g (states s (shm_idx sync))), r (states s (shm_idx sync)))"
proof -
  have "(g st)\<lparr>stype := stype st\<rparr> = g st" for st using assms(5)[of st] by (metis wfusync_state.surjective wfusync_state.update_convs(4))
  then show ?thesis
    using assms(1) locked_local[of s "shm_idx sync" t f g r r0, OF _ _ assms(2-4)]
    by (simp add: locked_type_def at_slot_def get_state_eq)
qed

lemma locked_event_type: "at_slot s sync t \<Longrightarrow> event_type t \<Longrightarrow> locked_event s sync r0 f = locked_type t s sync r0 f"
  by (simp add: locked_event_def locked_type_def at_slot_def get_state_eq)

abbreviation the_slot :: "shm \<Rightarrow> wfusync \<Rightarrow> wfusync_state" where
  "the_slot s sync \<equiv> states s (shm_idx sync)"

lemma event_state_eq:
  assumes "at_slot s sync t" "event_type t"
  shows "wfusync_get_event_state s sync = Some (s, Some (high (the_slot s sync), low (the_slot s sync)))"
    and "wfusync_event_signaled s sync = Some (s, low (the_slot s sync) \<noteq> 0)"
    and "wfusync_event_satisfied s sync =
      Some (if high (the_slot s sync) = 0 then set_low s (shm_idx sync) 0 else s)"
    and "wfusync_reset_event s sync = Some (set_low s (shm_idx sync) 0)"
proof -
  note loc = locked_type_local[OF assms(1)]
  show "wfusync_get_event_state s sync = Some (s, Some (high (the_slot s sync), low (the_slot s sync)))"
    unfolding wfusync_get_event_state_def locked_event_type[OF assms]
    by (subst loc[where g = "\<lambda>st. st" and r = "\<lambda>st. Some (high st, low st)"]) simp_all
  show "wfusync_event_signaled s sync = Some (s, low (the_slot s sync) \<noteq> 0)"
    unfolding wfusync_event_signaled_def locked_event_type[OF assms]
    by (subst loc[where g = "\<lambda>st. st" and r = "\<lambda>st. low st \<noteq> 0"]) simp_all
  show "wfusync_event_satisfied s sync = Some (if high (the_slot s sync) = 0 then set_low s (shm_idx sync) 0 else s)"
    unfolding wfusync_event_satisfied_def locked_event_type[OF assms]
    by (subst loc[where g = "\<lambda>st. if high st = 0 then st\<lparr>low := 0\<rparr> else st" and r = "\<lambda>st. ()"])
      (simp_all add: set_low_def)
  show "wfusync_reset_event s sync = Some (set_low s (shm_idx sync) 0)"
    unfolding wfusync_reset_event_def locked_event_type[OF assms]
    by (subst loc[where g = "\<lambda>st. st\<lparr>low := 0\<rparr>" and r = "\<lambda>st. ()"]) (simp_all add: set_low_def)
qed

lemma set_event_eq:
  assumes "at_slot s sync t" "event_type t"
  shows "wfusync_set_event s sync =
    Some (wake_waiters_for_object
      (if low (the_slot s sync) = 0 then wake_address (set_low s (shm_idx sync) 1) (shm_idx sync) (high (the_slot s sync) \<noteq> 0)
       else set_low s (shm_idx sync) 1) (shm_idx sync))"
  unfolding wfusync_set_event_def locked_event_type[OF assms]
  by (subst locked_type_local[OF assms(1), where g = "\<lambda>st. st\<lparr>low := 1\<rparr>" and r = "\<lambda>st. Some (low st)"])
    (simp_all add: set_low_def)

lemma semaphore_state_eq:
  assumes "at_slot s sync INPROC_SYNC_SEMAPHORE"
  shows "wfusync_semaphore_signaled s sync = Some (s, low (the_slot s sync) > 0)"
    and "wfusync_semaphore_satisfied s sync =
      Some (if low (the_slot s sync) \<le> 0 then s else set_low s (shm_idx sync) (low (the_slot s sync) - 1))"
    and "wfusync_get_semaphore_state s sync =
      Some (s, Some (to_uint (low (the_slot s sync)), to_uint (high (the_slot s sync))))"
proof -
  note loc = locked_type_local[OF assms]
  show "wfusync_semaphore_signaled s sync = Some (s, low (the_slot s sync) > 0)"
    unfolding wfusync_semaphore_signaled_def
    by (subst loc[where g = "\<lambda>st. st" and r = "\<lambda>st. low st > 0"]) simp_all
  show "wfusync_semaphore_satisfied s sync =
      Some (if low (the_slot s sync) \<le> 0 then s else set_low s (shm_idx sync) (low (the_slot s sync) - 1))"
    unfolding wfusync_semaphore_satisfied_def
    by (subst loc[where g = "\<lambda>st. if low st \<le> 0 then st else st\<lparr>low := low st - 1\<rparr>" and r = "\<lambda>st. ()"])
      (simp_all add: set_low_def Let_def)
  show "wfusync_get_semaphore_state s sync =
      Some (s, Some (to_uint (low (the_slot s sync)), to_uint (high (the_slot s sync))))"
    unfolding wfusync_get_semaphore_state_def
    by (subst loc[where g = "\<lambda>st. st" and r = "\<lambda>st. Some (to_uint (low st), to_uint (high st))"]) simp_all
qed

lemma release_semaphore_eq:
  assumes "at_slot s sync INPROC_SYNC_SEMAPHORE"
  defines "st \<equiv> the_slot s sync"
  shows "wfusync_release_semaphore s sync count =
    (let old = to_uint (low st); new = (old + count) mod 2 ^ 32 in
     if new < old \<or> new > to_uint (high st) then Some (s, Refused STATUS_SEMAPHORE_LIMIT_EXCEEDED)
     else let s1 = set_low s (shm_idx sync) (to_int (int new)) in
          Some (if old = 0 then wake_address s1 (shm_idx sync) (count > 1) else s1, Released old))"
proof -
  let ?bad = "\<lambda>st. let old = to_uint (low st); new = (old + count) mod 2 ^ 32 in new < old \<or> new > to_uint (high st)"
  show ?thesis
    unfolding wfusync_release_semaphore_def
    by (subst locked_type_local[OF assms(1),
          where g = "\<lambda>st. if ?bad st then st else st\<lparr>low := to_int (int ((to_uint (low st) + count) mod 2 ^ 32))\<rparr>"
            and r = "\<lambda>st. if ?bad st then Refused STATUS_SEMAPHORE_LIMIT_EXCEEDED else Released (to_uint (low st))"])
      (simp_all add: set_low_def Let_def st_def)
qed

lemma mutex_state_eq:
  assumes "at_slot s sync INPROC_SYNC_MUTEX"
  shows "wfusync_mutex_signaled s sync tid =
      Some (s, low (the_slot s sync) = 0 \<or> low (the_slot s sync) = to_int (int tid) \<or> low (the_slot s sync) < 0)"
    and "wfusync_get_mutex_state s sync tid =
      Some (s, Some (if low (the_slot s sync) < 0 then 0 else to_uint (high (the_slot s sync)),
        low (the_slot s sync) = to_int (int tid), low (the_slot s sync) < 0))"
proof -
  note loc = locked_type_local[OF assms]
  show "wfusync_mutex_signaled s sync tid =
      Some (s, low (the_slot s sync) = 0 \<or> low (the_slot s sync) = to_int (int tid) \<or> low (the_slot s sync) < 0)"
    unfolding wfusync_mutex_signaled_def
    by (subst loc[where g = "\<lambda>st. st" and r = "\<lambda>st. low st = 0 \<or> low st = to_int (int tid) \<or> low st < 0"])
      (simp_all add: Let_def)
  show "wfusync_get_mutex_state s sync tid =
      Some (s, Some (if low (the_slot s sync) < 0 then 0 else to_uint (high (the_slot s sync)),
        low (the_slot s sync) = to_int (int tid), low (the_slot s sync) < 0))"
    unfolding wfusync_get_mutex_state_def
    by (subst loc[where g = "\<lambda>st. st"
          and r = "\<lambda>st. Some (if low st < 0 then 0 else to_uint (high st), low st = to_int (int tid), low st < 0)"])
      (simp_all add: Let_def)
qed

lemma mutex_satisfied_eq:
  assumes "at_slot s sync INPROC_SYNC_MUTEX"
  defines "st \<equiv> the_slot s sync"
  shows "wfusync_mutex_satisfied s sync tid =
    (if low st = to_int (int tid) then Some (set_state s (shm_idx sync) (st\<lparr>high := to_int (high st + 1)\<rparr>), Some False)
     else if low st \<le> 0
     then Some (set_state s (shm_idx sync) (st\<lparr>low := to_int (int tid), high := 1,
            generation := (if low st < 0 then generation st + 1 else generation st)\<rparr>), Some (low st < 0))
     else Some (s, None))"
  unfolding wfusync_mutex_satisfied_def
  by (subst locked_type_local[OF assms(1),
        where g = "\<lambda>st. if low st = to_int (int tid) then st\<lparr>high := to_int (high st + 1)\<rparr>
            else if low st \<le> 0 then st\<lparr>low := to_int (int tid), high := 1,
              generation := (if low st < 0 then generation st + 1 else generation st)\<rparr> else st"
          and r = "\<lambda>st. if low st = to_int (int tid) then Some False else if low st \<le> 0 then Some (low st < 0) else None"])
    (auto simp: set_low_def set_high_def Let_def st_def)

lemma release_mutex_eq:
  assumes "at_slot s sync INPROC_SYNC_MUTEX"
  defines "st \<equiv> the_slot s sync"
  shows "wfusync_release_mutex s sync tid =
    (if low st \<noteq> to_int (int tid) \<or> high st = 0 then Some (s, Refused STATUS_MUTANT_NOT_OWNED)
     else if high st > 1 then Some (set_state s (shm_idx sync) (st\<lparr>high := high st - 1\<rparr>), Released (to_uint (high st)))
     else Some (wake_address (set_state s (shm_idx sync) (st\<lparr>high := 0, low := 0\<rparr>)) (shm_idx sync) False,
       Released (to_uint (high st))))"
  unfolding wfusync_release_mutex_def
  by (subst locked_type_local[OF assms(1),
        where g = "\<lambda>st. if low st \<noteq> to_int (int tid) \<or> high st = 0 then st
            else if high st > 1 then st\<lparr>high := high st - 1\<rparr> else st\<lparr>high := 0, low := 0\<rparr>"
          and r = "\<lambda>st. if low st \<noteq> to_int (int tid) \<or> high st = 0 then (Refused STATUS_MUTANT_NOT_OWNED, False)
            else (Released (to_uint (high st)), \<not> high st > 1)"])
    (auto simp: set_low_def set_high_def Let_def st_def)

lemma abandon_mutex_eq:
  assumes "at_slot s sync INPROC_SYNC_MUTEX"
  defines "st \<equiv> the_slot s sync"
  shows "wfusync_abandon_mutex s sync tid =
    (if low st \<noteq> to_int (int tid) \<or> high st = 0 then Some (s, False)
     else Some (wake_address (set_state s (shm_idx sync)
       (st\<lparr>low := - to_int (int tid), high := 0, generation := generation st + 1\<rparr>)) (shm_idx sync) True, True))"
  unfolding wfusync_abandon_mutex_def
  by (subst locked_type_local[OF assms(1),
        where g = "\<lambda>st. if low st \<noteq> to_int (int tid) \<or> high st = 0 then st
            else st\<lparr>low := - to_int (int tid), high := 0, generation := generation st + 1\<rparr>"
          and r = "\<lambda>st. \<not> (low st \<noteq> to_int (int tid) \<or> high st = 0)"])
    (auto simp: Let_def st_def)

end
