(* ===== verification/Sync_Objects.thy ===== *)
theory Sync_Objects
  imports WFUSync_Slots
begin

text \<open>
  Events, mutexes and semaphores, \<^verbatim>\<open>server/event.c\<close>, \<^verbatim>\<open>server/mutex.c\<close> and \<^verbatim>\<open>server/semaphore.c\<close>: the
  synchronization objects behind them, with the two ways they keep their state, in the server or in
  a shared slot.

  A thread is its id, 0 being \<^verbatim>\<open>NULL\<close>.  An operation works on one object and the shared state; it is
  \<open>None\<close> when the server would spin on a locked slot or fail an assertion.  The definitions named
  \<open>\<dots>_state\<close> are an operation up to its call of \<^verbatim>\<open>wake_up\<close>, whose second argument is their last result
  (\<open>None\<close> when it is not called); the theory of waits completes them.
\<close>

section \<open>Events\<close>

record event_sync =
  manual :: bool
  signaled :: bool
  event_wfusync :: "wfusync option"

text \<open>\<open>create\<close>: whether the fast path is in use and its slot can be allocated.\<close>

record create_env =
  do_wfusync :: bool
  mem_ok :: bool
  realloc_ok :: bool
  map_ok :: bool

definition int_of_bool :: "bool \<Rightarrow> int" where "int_of_bool b = (if b then 1 else 0)"

definition create_event_sync :: "create_env \<Rightarrow> shm \<Rightarrow> bool \<Rightarrow> bool \<Rightarrow> bool \<Rightarrow> shm \<times> event_sync" where
  "create_event_sync E s m sg inproc =
     (if inproc \<and> do_wfusync E
      then let (s', w) = create_wfusync (mem_ok E) (realloc_ok E) (map_ok E) s (int_of_bool sg) (int_of_bool m) INPROC_SYNC_EVENT
           in (s', \<lparr>manual = m, signaled = sg, event_wfusync = w\<rparr>)
      else (s, \<lparr>manual = m, signaled = sg, event_wfusync = None\<rparr>))"

definition create_server_internal_sync :: "bool \<Rightarrow> bool \<Rightarrow> event_sync" where
  "create_server_internal_sync m sg = \<lparr>manual = m, signaled = sg, event_wfusync = None\<rparr>"

definition event_sync_signaled :: "shm \<Rightarrow> event_sync \<Rightarrow> (shm \<times> bool) option" where
  "event_sync_signaled s e =
     (case event_wfusync e of Some w \<Rightarrow> wfusync_event_signaled s w | None \<Rightarrow> Some (s, signaled e))"

definition event_sync_satisfied :: "shm \<Rightarrow> event_sync \<Rightarrow> (shm \<times> event_sync) option" where
  "event_sync_satisfied s e =
     do { s' \<leftarrow> (case event_wfusync e of Some w \<Rightarrow> wfusync_event_satisfied s w | None \<Rightarrow> Some s);
          Some (s', if \<not> manual e then e\<lparr>signaled := False\<rparr> else e) }"

text \<open>The number of waiters to wake: all for a manual-reset event, one otherwise.\<close>

definition event_sync_signal_state :: "shm \<Rightarrow> event_sync \<Rightarrow> bool \<Rightarrow> (shm \<times> event_sync \<times> nat option) option" where
  "event_sync_signal_state s e sg =
     (let e' = e\<lparr>signaled := sg\<rparr>; n = (if manual e then 0 else 1) in
      case event_wfusync e of
        Some w \<Rightarrow> do { s' \<leftarrow> (if sg then wfusync_set_event s w else wfusync_reset_event s w); Some (s', e', Some n) }
      | None \<Rightarrow> Some (s, e', if sg then Some n else None))"

definition event_sync_add_queue :: "shm \<Rightarrow> event_sync \<Rightarrow> shm \<times> event_sync" where
  "event_sync_add_queue s e =
     (case event_wfusync e of None \<Rightarrow> (s, e)
      | Some w \<Rightarrow> let (s', w') = wfusync_add_server_waiter s w in (s', e\<lparr>event_wfusync := Some w'\<rparr>))"

definition event_sync_remove_queue :: "shm \<Rightarrow> event_sync \<Rightarrow> shm \<times> event_sync" where
  "event_sync_remove_queue s e =
     (case event_wfusync e of None \<Rightarrow> (s, e)
      | Some w \<Rightarrow> let (s', w') = wfusync_remove_server_waiter s w in (s', e\<lparr>event_wfusync := Some w'\<rparr>))"

definition event_sync_destroy :: "shm \<Rightarrow> event_sync \<Rightarrow> shm" where
  "event_sync_destroy s e = (case event_wfusync e of None \<Rightarrow> s | Some w \<Rightarrow> wfusync_destroy s w)"

text \<open>The manual flag and the state that \<^verbatim>\<open>query_event\<close> and \<^verbatim>\<open>event_op\<close> report.\<close>

definition query_event_state :: "shm \<Rightarrow> event_sync \<Rightarrow> (shm \<times> int \<times> int) option" where
  "query_event_state s e =
     (case event_wfusync e of
        None \<Rightarrow> Some (s, int_of_bool (manual e), int_of_bool (signaled e))
      | Some w \<Rightarrow>
          do { (s', r) \<leftarrow> wfusync_get_event_state s w;
               case r of Some (m, sg) \<Rightarrow> Some (s', m, sg)
               | None \<Rightarrow> Some (s', int_of_bool (manual e), int_of_bool (signaled e)) })"

section \<open>Semaphores\<close>

record semaphore_sync =
  sem_count :: nat
  sem_max :: nat
  sem_wfusync :: "wfusync option"

definition create_semaphore_sync :: "create_env \<Rightarrow> shm \<Rightarrow> nat \<Rightarrow> nat \<Rightarrow> bool \<Rightarrow> shm \<times> semaphore_sync" where
  "create_semaphore_sync E s initial mx inproc =
     (if inproc \<and> do_wfusync E
      then let (s', w) = create_wfusync (mem_ok E) (realloc_ok E) (map_ok E) s (to_int (int initial)) (to_int (int mx)) INPROC_SYNC_SEMAPHORE
           in (s', \<lparr>sem_count = initial, sem_max = mx, sem_wfusync = w\<rparr>)
      else (s, \<lparr>sem_count = initial, sem_max = mx, sem_wfusync = None\<rparr>))"

definition semaphore_sync_signaled :: "shm \<Rightarrow> semaphore_sync \<Rightarrow> (shm \<times> bool) option" where
  "semaphore_sync_signaled s m =
     (case sem_wfusync m of Some w \<Rightarrow> wfusync_semaphore_signaled s w | None \<Rightarrow> Some (s, sem_count m > 0))"

definition semaphore_sync_satisfied :: "shm \<Rightarrow> semaphore_sync \<Rightarrow> (shm \<times> semaphore_sync) option" where
  "semaphore_sync_satisfied s m =
     (case sem_wfusync m of
        Some w \<Rightarrow> map_option (\<lambda>s'. (s', m)) (wfusync_semaphore_satisfied s w)
      | None \<Rightarrow> if sem_count m = 0 then None else Some (s, m\<lparr>sem_count := sem_count m - 1\<rparr>))"

text \<open>\<^verbatim>\<open>release_semaphore\<close>: the previous count or the error, and the waiters to wake.\<close>

definition release_semaphore_state :: "shm \<Rightarrow> semaphore_sync \<Rightarrow> nat \<Rightarrow> (shm \<times> semaphore_sync \<times> release \<times> nat option) option" where
  "release_semaphore_state s m count =
     (case sem_wfusync m of
        Some w \<Rightarrow>
          do { (s', r) \<leftarrow> wfusync_release_semaphore s w count;
               Some (s', m, r, if r = Released 0 then Some count else None) }
      | None \<Rightarrow>
          let new = (sem_count m + count) mod 2 ^ 32 in
          if new < sem_count m \<or> new > sem_max m then Some (s, m, Refused STATUS_SEMAPHORE_LIMIT_EXCEEDED, None)
          else if sem_count m \<noteq> 0 then Some (s, m\<lparr>sem_count := new\<rparr>, Released (sem_count m), None)
          else Some (s, m\<lparr>sem_count := count\<rparr>, Released 0, Some count))"

definition query_semaphore_state :: "shm \<Rightarrow> semaphore_sync \<Rightarrow> (shm \<times> (nat \<times> nat) option) option" where
  "query_semaphore_state s m =
     (case sem_wfusync m of
        Some w \<Rightarrow> wfusync_get_semaphore_state s w
      | None \<Rightarrow> Some (s, Some (sem_count m, sem_max m)))"

definition semaphore_sync_add_queue :: "shm \<Rightarrow> semaphore_sync \<Rightarrow> shm \<times> semaphore_sync" where
  "semaphore_sync_add_queue s m =
     (case sem_wfusync m of None \<Rightarrow> (s, m)
      | Some w \<Rightarrow> let (s', w') = wfusync_add_server_waiter s w in (s', m\<lparr>sem_wfusync := Some w'\<rparr>))"

definition semaphore_sync_remove_queue :: "shm \<Rightarrow> semaphore_sync \<Rightarrow> shm \<times> semaphore_sync" where
  "semaphore_sync_remove_queue s m =
     (case sem_wfusync m of None \<Rightarrow> (s, m)
      | Some w \<Rightarrow> let (s', w') = wfusync_remove_server_waiter s w in (s', m\<lparr>sem_wfusync := Some w'\<rparr>))"

definition semaphore_sync_destroy :: "shm \<Rightarrow> semaphore_sync \<Rightarrow> shm" where
  "semaphore_sync_destroy s m = (case sem_wfusync m of None \<Rightarrow> s | Some w \<Rightarrow> wfusync_destroy s w)"

section \<open>Mutexes\<close>

record mutex_sync =
  owner :: nat
  mutex_count :: nat
  abandoned :: bool
  mutex_wfusync :: "wfusync option"

text \<open>
  The second result says that the mutex enters the list of the thread's mutexes.  The first
  assertion is the one of the code; the second, that a free mutex has no owner, is checked as well.
\<close>

definition do_grab :: "mutex_sync \<Rightarrow> nat \<Rightarrow> (mutex_sync \<times> bool) option" where
  "do_grab m tid =
     (if mutex_count m \<noteq> 0 \<and> owner m \<noteq> tid then None
      else let m' = m\<lparr>mutex_count := (mutex_count m + 1) mod 2 ^ 32\<rparr> in
           if mutex_count m \<noteq> 0 then Some (m', False)
           else if owner m \<noteq> 0 then None
           else Some (m'\<lparr>owner := tid\<rparr>, True))"

text \<open>When the count reaches 0 the mutex leaves the thread's list and all waiters are woken.\<close>

definition do_release :: "mutex_sync \<Rightarrow> nat \<Rightarrow> nat \<Rightarrow> mutex_sync \<times> unit result \<times> nat option" where
  "do_release m tid count =
     (if mutex_count m = 0 \<or> owner m \<noteq> tid then (m, Inl STATUS_MUTANT_NOT_OWNED, None)
      else let c = nat ((int (mutex_count m) - int count) mod 2 ^ 32); m' = m\<lparr>mutex_count := c\<rparr> in
           if c = 0 then (m'\<lparr>owner := 0\<rparr>, Inr (), Some 0) else (m', Inr (), None))"

definition create_mutex_sync :: "create_env \<Rightarrow> shm \<Rightarrow> nat \<Rightarrow> bool \<Rightarrow> bool \<Rightarrow> (shm \<times> mutex_sync) option" where
  "create_mutex_sync E s tid owned inproc =
     (let m = \<lparr>owner = 0, mutex_count = 0, abandoned = False, mutex_wfusync = None\<rparr>;
          (s', w) = (if inproc \<and> do_wfusync E
                     then create_wfusync (mem_ok E) (realloc_ok E) (map_ok E) s
                            (if owned then to_int (int tid) else 0) (if owned then 1 else 0) INPROC_SYNC_MUTEX
                     else (s, None)) in
      case w of Some x \<Rightarrow> Some (s', m\<lparr>mutex_wfusync := Some x\<rparr>)
      | None \<Rightarrow> if owned then map_option (\<lambda>(m', _). (s', m')) (do_grab m tid) else Some (s', m))"

definition mutex_sync_signaled :: "shm \<Rightarrow> mutex_sync \<Rightarrow> nat \<Rightarrow> (shm \<times> bool) option" where
  "mutex_sync_signaled s m tid =
     (case mutex_wfusync m of
        Some w \<Rightarrow> wfusync_mutex_signaled s w tid
      | None \<Rightarrow> Some (s, mutex_count m = 0 \<or> owner m = tid))"

text \<open>The last two results: the wait becomes an abandoned one, and the mutex enters the thread's list.\<close>

definition mutex_sync_satisfied :: "shm \<Rightarrow> mutex_sync \<Rightarrow> nat \<Rightarrow> (shm \<times> mutex_sync \<times> bool \<times> bool) option" where
  "mutex_sync_satisfied s m tid =
     (case mutex_wfusync m of
        Some w \<Rightarrow> map_option (\<lambda>(s', r). (s', m, r = Some True, False)) (wfusync_mutex_satisfied s w tid)
      | None \<Rightarrow> map_option (\<lambda>(m', l). (s, m'\<lparr>abandoned := False\<rparr>, abandoned m, l)) (do_grab m tid))"

definition mutex_sync_add_queue :: "shm \<Rightarrow> mutex_sync \<Rightarrow> shm \<times> mutex_sync" where
  "mutex_sync_add_queue s m =
     (case mutex_wfusync m of None \<Rightarrow> (s, m)
      | Some w \<Rightarrow> let (s', w') = wfusync_add_server_waiter s w in (s', m\<lparr>mutex_wfusync := Some w'\<rparr>))"

definition mutex_sync_remove_queue :: "shm \<Rightarrow> mutex_sync \<Rightarrow> shm \<times> mutex_sync" where
  "mutex_sync_remove_queue s m =
     (case mutex_wfusync m of None \<Rightarrow> (s, m)
      | Some w \<Rightarrow> let (s', w') = wfusync_remove_server_waiter s w in (s', m\<lparr>mutex_wfusync := Some w'\<rparr>))"

definition mutex_sync_destroy :: "shm \<Rightarrow> mutex_sync \<Rightarrow> shm option" where
  "mutex_sync_destroy s m =
     (let s' = (case mutex_wfusync m of None \<Rightarrow> s | Some w \<Rightarrow> wfusync_destroy s w) in
      if mutex_count m = 0 then Some s' else None)"

text \<open>The object's part of the \<^verbatim>\<open>release_mutex\<close> request.\<close>

definition release_mutex_state :: "shm \<Rightarrow> mutex_sync \<Rightarrow> nat \<Rightarrow> (shm \<times> mutex_sync \<times> release \<times> nat option) option" where
  "release_mutex_state s m tid =
     (case mutex_wfusync m of
        Some w \<Rightarrow>
          do { (s', r) \<leftarrow> wfusync_release_mutex s w tid;
               Some (s', m, r, if r = Released 1 then Some 0 else None) }
      | None \<Rightarrow>
          let (m', r, wake) = do_release m tid 1 in
          Some (s, m', case r of Inl e \<Rightarrow> Refused e | Inr _ \<Rightarrow> Released (mutex_count m), wake))"

text \<open>The count, whether the caller owns the mutex, and whether it is abandoned.\<close>

definition query_mutex_state :: "shm \<Rightarrow> mutex_sync \<Rightarrow> nat \<Rightarrow> (shm \<times> (nat \<times> bool \<times> bool) option) option" where
  "query_mutex_state s m tid =
     (case mutex_wfusync m of
        Some w \<Rightarrow> wfusync_get_mutex_state s w tid
      | None \<Rightarrow> Some (s, Some (mutex_count m, owner m = tid, abandoned m)))"

text \<open>One mutex of a thread that exits: whether it was abandoned, its waiters being woken if so.\<close>

definition abandon_mutex_state :: "shm \<Rightarrow> mutex_sync \<Rightarrow> nat \<Rightarrow> (shm \<times> mutex_sync \<times> bool \<times> nat option) option" where
  "abandon_mutex_state s m tid =
     (case mutex_wfusync m of
        Some w \<Rightarrow> map_option (\<lambda>(s', ok). (s', m, ok, if ok then Some 0 else None)) (wfusync_abandon_mutex s w tid)
      | None \<Rightarrow>
          if owner m \<noteq> tid then None
          else let (m', r, wake) = do_release (m\<lparr>abandoned := True\<rparr>) tid (mutex_count m) in Some (s, m', True, wake))"

end
