(* ===== verification/WFUSync_Waiters.thy ===== *)
theory WFUSync_Waiters
  imports WFUSync_Slots
begin

text \<open>
  The clients that wait for several objects: counters, flags and wake-ups.  The invariant of the
  shared state is shown for every operation of the server, and with it for every reachable state.
\<close>

section \<open>Counters of the registered waiters\<close>

definition multi_count :: "shm \<Rightarrow> nat \<Rightarrow> nat" where
  "multi_count s i = (if i < length (multi_waiter_counts s) then multi_waiter_counts s ! i else 0)"

text \<open>How often the waiters of a list wait for an object.\<close>

definition waiting_for :: "wfusync_waiter list \<Rightarrow> nat \<Rightarrow> nat" where
  "waiting_for ws i = sum_list (map (\<lambda>w. count_list (shm_idxs w) i) ws)"

lemma waiting_for_simps [simp]:
  "waiting_for [] i = 0" "waiting_for (w # ws) i = count_list (shm_idxs w) i + waiting_for ws i"
  by (simp_all add: waiting_for_def)

lemma waiting_for_pos: "0 < waiting_for ws i \<longleftrightarrow> (\<exists>w \<in> set ws. i \<in> set (shm_idxs w))"
  by (induction ws) (auto simp: count_list_0_iff simp flip: neq0_conv)

abbreviation multi_bit :: "wfusync_state \<Rightarrow> bool" where
  "multi_bit st \<equiv> stype st AND WFUSYNC_MULTI_WAITERS \<noteq> 0"

text \<open>The counters are \<open>f\<close>, and the objects in use carry the flag that tells clients about it.\<close>

definition counts_are :: "shm \<Rightarrow> (nat \<Rightarrow> nat) \<Rightarrow> bool" where
  "counts_are s f =
     ((\<forall>i. multi_count s i = f i) \<and>
      (\<forall>i. slot_mapped s i \<longrightarrow> waitable_type (get_state_type (states s i)) \<longrightarrow> multi_bit (states s i) = (0 < f i)))"

text \<open>Two states that differ in the counters and the flag alone.\<close>

definition same_slots :: "shm \<Rightarrow> shm \<Rightarrow> bool" where
  "same_slots s s' =
     (page_size s' = page_size s \<and> wfusync_pages s' = wfusync_pages s \<and> next_shm_idx s' = next_shm_idx s \<and>
      next_generation s' = next_generation s \<and> wfusync_waiters s' = wfusync_waiters s \<and>
      (\<forall>i. low (states s' i) = low (states s i) \<and> high (states s' i) = high (states s i) \<and>
           get_state_type (states s' i) = get_state_type (states s i) \<and> unlocked (states s' i) = unlocked (states s i)))"

lemma same_slots_refl [simp]: "same_slots s s"
  by (simp add: same_slots_def)

lemma same_slots_trans: "same_slots s s1 \<Longrightarrow> same_slots s1 s2 \<Longrightarrow> same_slots s s2"
  by (simp add: same_slots_def)

lemma same_slots_D:
  assumes "same_slots s s'"
  shows "slot_mapped s' i = slot_mapped s i" "low (states s' i) = low (states s i)" "high (states s' i) = high (states s i)"
    "get_state_type (states s' i) = get_state_type (states s i)" "unlocked (states s' i) = unlocked (states s i)"
    "wfusync_waiters s' = wfusync_waiters s" "next_shm_idx s' = next_shm_idx s"
  using assms slot_mapped_cong[of s' s i] by (simp_all add: same_slots_def)

lemma multi_count_set_state [simp]: "multi_count (set_state s i st) = multi_count s"
  by (simp add: multi_count_def fun_eq_iff)

lemma remove_multi_waiter_counts:
  assumes "counts_are s f" "slot_mapped s i" "0 < f i"
  shows "counts_are (remove_multi_waiter s i) (f(i := f i - 1)) \<and> same_slots s (remove_multi_waiter s i)"
proof -
  have c: "multi_count s i = f i" using assms(1) by (simp add: counts_are_def)
  then have l: "i < length (multi_waiter_counts s)" "multi_waiter_counts s ! i = f i"
    using assms(3) by (auto simp: multi_count_def split: if_splits)
  let ?s = "s\<lparr>multi_waiter_counts := (multi_waiter_counts s)[i := f i - 1]\<rparr>"
  have r: "remove_multi_waiter s i = (if f i - 1 \<noteq> 0 then ?s else
      set_state ?s i ((states s i)\<lparr>stype := stype (states s i) AND NOT WFUSYNC_MULTI_WAITERS\<rparr>))"
    using assms(2,3) l by (simp add: remove_multi_waiter_def get_state_eq Let_def)
  have m: "multi_count ?s j = (f(i := f i - 1)) j" for j
    using assms(1)[unfolded counts_are_def, THEN conjunct1, rule_format, of j] l
    by (auto simp: multi_count_def nth_list_update)
  have "same_slots s ?s" by (simp add: same_slots_def)
  moreover have "counts_are ?s (f(i := f i - 1))" if "f i - 1 \<noteq> 0"
    using assms(1) that m by (auto simp: counts_are_def)
  moreover have "counts_are (set_state ?s i ((states s i)\<lparr>stype := stype (states s i) AND NOT WFUSYNC_MULTI_WAITERS\<rparr>)) (f(i := f i - 1))"
    if "f i - 1 = 0"
    using assms(1) that m by (auto simp: counts_are_def get_state_type_def)
  moreover have "same_slots s (set_state ?s i ((states s i)\<lparr>stype := stype (states s i) AND NOT WFUSYNC_MULTI_WAITERS\<rparr>))"
    by (simp add: same_slots_def get_state_type_def)
  ultimately show ?thesis unfolding r by (cases "f i - 1 \<noteq> 0") simp_all
qed

lemma remove_multi_waiters_counts:
  "\<lbrakk>counts_are s f; \<forall>i \<in> set idxs. slot_mapped s i; \<forall>i. count_list idxs i \<le> f i\<rbrakk> \<Longrightarrow>
   counts_are (remove_multi_waiters s idxs) (\<lambda>i. f i - count_list idxs i) \<and> same_slots s (remove_multi_waiters s idxs)"
proof (induction idxs arbitrary: s f)
  case Nil
  then show ?case by (simp add: remove_multi_waiters_def)
next
  case (Cons i idxs)
  let ?s = "remove_multi_waiter s i" and ?f = "f(i := f i - 1)"
  have fi: "0 < f i" using Cons.prems(3)[rule_format, of i] by simp
  have step: "counts_are ?s ?f" "same_slots s ?s"
    using remove_multi_waiter_counts[OF Cons.prems(1) _ fi] Cons.prems(2) by auto
  have "\<forall>j \<in> set idxs. slot_mapped ?s j" using Cons.prems(2) same_slots_D(1)[OF step(2)] by simp
  moreover have "\<forall>j. count_list idxs j \<le> ?f j"
  proof
    fix j
    show "count_list idxs j \<le> ?f j" using Cons.prems(3)[rule_format, of j] by auto
  qed
  ultimately have "counts_are (remove_multi_waiters ?s idxs) (\<lambda>j. ?f j - count_list idxs j)"
    "same_slots ?s (remove_multi_waiters ?s idxs)"
    using Cons.IH[OF step(1)] by auto
  moreover have "(\<lambda>j. ?f j - count_list idxs j) = (\<lambda>j. f j - count_list (i # idxs) j)" by auto
  ultimately show ?case
    using same_slots_trans[OF step(2)] by (auto simp: remove_multi_waiters_def)
qed

lemma grown_less: "n \<noteq> 0 \<Longrightarrow> i < grown i n \<and> n \<le> grown i n"
  by (induction i n rule: grown.induct) (subst (1 2) grown.simps; auto)

lemma ensure_count:
  "ensure_multi_waiter_count ok s i = (s', b) \<Longrightarrow>
   (b \<longrightarrow> i < length (multi_waiter_counts s')) \<and> (\<forall>j. multi_count s' j = multi_count s j) \<and>
   states s' = states s \<and> same_slots s s' \<and> (\<forall>j. slot_mapped s' j = slot_mapped s j)"
proof -
  let ?n = "length (multi_waiter_counts s)" and ?g = "grown i (if multi_waiter_counts s \<noteq> [] then length (multi_waiter_counts s) * 2 else 256)"
  have g: "i < ?g" using grown_less[of "if multi_waiter_counts s \<noteq> [] then ?n * 2 else 256" i] by simp
  assume "ensure_multi_waiter_count ok s i = (s', b)"
  then consider "s' = s" "b \<longrightarrow> i < ?n"
    | "s' = s\<lparr>multi_waiter_counts := multi_waiter_counts s @ replicate (?g - ?n) 0\<rparr>"
    by (auto simp: ensure_multi_waiter_count_def Let_def split: if_splits)
  then show ?thesis
    by cases (use g in \<open>auto simp: multi_count_def nth_append same_slots_def\<close>)
qed

lemma add_multi_waiter_counts:
  assumes "counts_are s f" "add_multi_waiter ok s i = (s', b)"
  shows "counts_are s' (if b then f(i := f i + 1) else f) \<and> same_slots s s' \<and> (b \<longrightarrow> slot_mapped s i)"
proof (cases "slot_mapped s i \<and> waitable_type (get_state_type (states s i))")
  case False
  then have "s' = s" "\<not> b" using assms(2) by (auto simp: add_multi_waiter_def get_state_eq split: if_splits)
  then show ?thesis using assms(1) by simp
next
  case True
  obtain s1 b1 where e: "ensure_multi_waiter_count ok s i = (s1, b1)" by (cases "ensure_multi_waiter_count ok s i")
  note E = ensure_count[OF e]
  have c1: "counts_are s1 f" using assms(1) E by (simp add: counts_are_def)
  show ?thesis
  proof (cases b1)
    case False
    then have "s' = s1" "\<not> b" using assms(2) True e by (auto simp: add_multi_waiter_def get_state_eq)
    then show ?thesis using c1 E by simp
  next
    case b1: True
    let ?s = "s1\<lparr>multi_waiter_counts := (multi_waiter_counts s1)[i := multi_waiter_counts s1 ! i + 1]\<rparr>"
    have s': "s' = set_state ?s i ((states s i)\<lparr>stype := stype (states s i) OR WFUSYNC_MULTI_WAITERS\<rparr>)" "b"
      using assms(2) True e b1 by (auto simp: add_multi_waiter_def get_state_eq)
    have i: "i < length (multi_waiter_counts s1)" using E b1 by simp
    then have "multi_waiter_counts s1 ! i = f i" using c1 by (auto simp: counts_are_def multi_count_def dest: spec[of _ i])
    then have m: "multi_count s' j = (f(i := f i + 1)) j" for j
      using c1[unfolded counts_are_def, THEN conjunct1, rule_format, of j] i
      by (auto simp: s' multi_count_def nth_list_update split: if_splits)
    have "counts_are s' (f(i := f i + 1))"
      using c1 m E by (auto simp: counts_are_def s'(1) get_state_type_def)
    moreover have "same_slots s s'"
      using E by (auto simp: s'(1) same_slots_def get_state_type_def)
    ultimately show ?thesis using s'(2) True by simp
  qed
qed

lemma add_multi_waiters_counts:
  "\<lbrakk>counts_are s f; \<forall>i. count_list taken i \<le> f i; \<forall>i \<in> set taken. slot_mapped s i;
    add_multi_waiters A s taken idxs = (s', b)\<rbrakk> \<Longrightarrow>
   counts_are s' (\<lambda>i. if b then f i + count_list idxs i else f i - count_list taken i) \<and> same_slots s s' \<and>
   (b \<longrightarrow> (\<forall>i \<in> set idxs. slot_mapped s i))"
proof (induction idxs arbitrary: s taken f)
  case Nil
  then show ?case by simp
next
  case (Cons i idxs)
  obtain s1 b1 where a: "add_multi_waiter (A i) s i = (s1, b1)" by (cases "add_multi_waiter (A i) s i")
  note C = add_multi_waiter_counts[OF Cons.prems(1) a]
  have sm: "slot_mapped s1 j = slot_mapped s j" for j using C same_slots_D(1) by blast
  show ?case
  proof (cases b1)
    case False
    then have r: "s' = remove_multi_waiters s1 taken" "\<not> b" using Cons.prems(4) a by auto
    then show ?thesis
      using remove_multi_waiters_counts[of s1 f taken] C False Cons.prems(2,3) sm same_slots_trans by auto
  next
    case True
    let ?f = "f(i := f i + 1)"
    have c1: "counts_are s1 ?f" using C True by simp
    have a1: "add_multi_waiters A s1 (i # taken) idxs = (s', b)" using Cons.prems(4) a True by simp
    have t1: "\<forall>j. count_list (i # taken) j \<le> ?f j" using Cons.prems(2) by simp
    have m1: "\<forall>j \<in> set (i # taken). slot_mapped s1 j" using Cons.prems(3) C True sm by simp
    note IH = Cons.IH[OF c1 t1 m1 a1]
    have "(\<lambda>j. if b then ?f j + count_list idxs j else ?f j - count_list (i # taken) j) =
        (\<lambda>j. if b then f j + count_list (i # idxs) j else f j - count_list taken j)" by auto
    then show ?thesis using IH C True sm same_slots_trans by auto
  qed
qed

section \<open>The invariant of the shared state\<close>

definition slot_signaled :: "wfusync_state \<Rightarrow> bool" where
  "slot_signaled st =
     (let t = get_state_type st in
      if t = INPROC_SYNC_EVENT then low st \<noteq> 0
      else if t = INPROC_SYNC_SEMAPHORE then low st > 0
      else if t = INPROC_SYNC_MUTEX then low st \<le> 0
      else False)"

lemma state_signaled_eq: "wfusync_state_signaled s i = (slot_mapped s i \<and> slot_signaled (states s i))"
  by (auto simp: wfusync_state_signaled_def slot_signaled_def get_state_eq Let_def)

definition slot_ranges :: "wfusync_state \<Rightarrow> bool" where
  "slot_ranges st =
     ((get_state_type st = INPROC_SYNC_SEMAPHORE \<longrightarrow> - (2 ^ 31) \<le> low st \<and> low st < 2 ^ 31) \<and>
      (get_state_type st = INPROC_SYNC_MUTEX \<longrightarrow> 0 \<le> high st))"

text \<open>A client sleeps while the word of its slot is not 0.\<close>

abbreviation asleep :: "shm \<Rightarrow> wfusync_waiter \<Rightarrow> bool" where
  "asleep s w \<equiv> low (states s (slot_idx w)) \<noteq> 0"

text \<open>
  A waiter's slot is a wait slot and its objects are not, and it sleeps only while none of its
  objects, but those of \<open>X\<close>, is signaled.
\<close>

definition waiter_ok :: "nat set \<Rightarrow> shm \<Rightarrow> wfusync_waiter \<Rightarrow> bool" where
  "waiter_ok X s w =
     (slot_mapped s (slot_idx w) \<and> get_state_type (states s (slot_idx w)) = INPROC_SYNC_INTERNAL \<and>
      slot_idx w < unat (next_shm_idx s) \<and>
      (\<forall>i \<in> set (shm_idxs w). slot_mapped s i \<and> get_state_type (states s i) \<noteq> INPROC_SYNC_INTERNAL \<and>
         i < unat (next_shm_idx s)) \<and>
      (asleep s w \<longrightarrow> (\<forall>i \<in> set (shm_idxs w) - X. \<not> slot_signaled (states s i))))"

definition wfu_rest :: "nat set \<Rightarrow> shm \<Rightarrow> wfusync_waiter list \<Rightarrow> bool" where
  "wfu_rest X s ws =
     ((\<forall>i. unlocked (states s i) \<and> slot_ranges (states s i)) \<and>
      (\<forall>i. \<not> slot_mapped s i \<or> unat (next_shm_idx s) \<le> i \<longrightarrow> get_state_type (states s i) = INPROC_SYNC_UNKNOWN) \<and>
      (\<forall>w \<in> set ws. waiter_ok X s w))"

definition wfu_inv_but :: "nat set \<Rightarrow> shm \<Rightarrow> bool" where
  "wfu_inv_but X s = (wfu_rest X s (wfusync_waiters s) \<and> counts_are s (waiting_for (wfusync_waiters s)))"

abbreviation wfu_inv :: "shm \<Rightarrow> bool" where "wfu_inv \<equiv> wfu_inv_but {}"

lemma type_code_neq [simp]:
  "INPROC_SYNC_INTERNAL \<noteq> INPROC_SYNC_UNKNOWN" "INPROC_SYNC_EVENT \<noteq> INPROC_SYNC_UNKNOWN"
  "INPROC_SYNC_MUTEX \<noteq> INPROC_SYNC_UNKNOWN" "INPROC_SYNC_SEMAPHORE \<noteq> INPROC_SYNC_UNKNOWN"
  "INPROC_SYNC_EVENT \<noteq> INPROC_SYNC_INTERNAL" "INPROC_SYNC_MUTEX \<noteq> INPROC_SYNC_INTERNAL"
  "INPROC_SYNC_SEMAPHORE \<noteq> INPROC_SYNC_INTERNAL" "INPROC_SYNC_MUTEX \<noteq> INPROC_SYNC_EVENT"
  "INPROC_SYNC_SEMAPHORE \<noteq> INPROC_SYNC_EVENT" "INPROC_SYNC_SEMAPHORE \<noteq> INPROC_SYNC_MUTEX"
  by (simp_all add: type_codes)

lemmas type_code_neq' [simp] = type_code_neq [symmetric]

lemma slot_signaled_cong:
  "get_state_type st' = get_state_type st \<Longrightarrow> low st' = low st \<Longrightarrow> slot_signaled st' = slot_signaled st"
  by (simp add: slot_signaled_def)

lemma slot_ranges_cong:
  "get_state_type st' = get_state_type st \<Longrightarrow> low st' = low st \<Longrightarrow> high st' = high st \<Longrightarrow> slot_ranges st' = slot_ranges st"
  by (simp add: slot_ranges_def)

lemma wfu_rest_same:
  assumes "same_slots s s'"
  shows "wfu_rest X s' ws = wfu_rest X s ws"
proof -
  note D = same_slots_D[OF assms]
  have "slot_signaled (states s' i) = slot_signaled (states s i)" for i by (rule slot_signaled_cong) (simp_all add: D)
  moreover have "slot_ranges (states s' i) = slot_ranges (states s i)" for i by (rule slot_ranges_cong) (simp_all add: D)
  ultimately show ?thesis unfolding wfu_rest_def waiter_ok_def by (simp only: D)
qed

lemma wfu_rest_mono: "wfu_rest X s ws \<Longrightarrow> X \<subseteq> Y \<Longrightarrow> set ws' \<subseteq> set ws \<Longrightarrow> wfu_rest Y s ws'"
  unfolding wfu_rest_def waiter_ok_def by blast

lemma wfu_inv_mono: "wfu_inv_but X s \<Longrightarrow> X \<subseteq> Y \<Longrightarrow> wfu_inv_but Y s"
  by (auto simp: wfu_inv_but_def intro: wfu_rest_mono)

lemma multi_count_fields [simp]:
  "multi_count (wake_address s i b) = multi_count s" "multi_count (s\<lparr>next_generation := g\<rparr>) = multi_count s"
  "multi_count (s\<lparr>wfusync_waiters := ws\<rparr>) = multi_count s"
  by (simp_all add: multi_count_def fun_eq_iff)

lemma counts_are_fields [simp]:
  "counts_are (wake_address s i b) f = counts_are s f" "counts_are (s\<lparr>next_generation := g\<rparr>) f = counts_are s f"
  "counts_are (s\<lparr>wfusync_waiters := ws\<rparr>) f = counts_are s f"
  by (simp_all add: counts_are_def)

lemma wfu_rest_fields [simp]:
  "wfu_rest X (wake_address s i b) ws = wfu_rest X s ws" "wfu_rest X (s\<lparr>next_generation := g\<rparr>) ws = wfu_rest X s ws"
  "wfu_rest X (s\<lparr>wfusync_waiters := ws'\<rparr>) ws = wfu_rest X s ws"
  by (simp_all add: wfu_rest_def waiter_ok_def)

lemma wfu_inv_fields [simp]:
  "wfu_inv_but X (wake_address s i b) = wfu_inv_but X s" "wfu_inv_but X (s\<lparr>next_generation := g\<rparr>) = wfu_inv_but X s"
  by (simp_all add: wfu_inv_but_def)

text \<open>The change of one slot.\<close>

lemma wfu_rest_set:
  assumes "wfu_rest X s ws" "slot_mapped s i" "unlocked st'" "slot_ranges st'"
    and "get_state_type st' = get_state_type (states s i)"
    and "get_state_type st' = INPROC_SYNC_INTERNAL \<longrightarrow> low st' = 0 \<or> low st' = low (states s i) \<or> i \<notin> slot_idx ` set ws"
    and "slot_signaled st' \<longrightarrow> slot_signaled (states s i) \<or> i \<in> X"
  shows "wfu_rest X (set_state s i st') ws"
proof -
  have w: "waiter_ok X (set_state s i st') w" if "w \<in> set ws" for w
  proof -
    have ok: "waiter_ok X s w" using assms(1) that by (simp add: wfu_rest_def)
    have sl: "asleep (set_state s i st') w \<longrightarrow> asleep s w"
      using assms(5,6) ok that by (auto simp: waiter_ok_def)
    have sg: "slot_signaled (states (set_state s i st') j) \<longrightarrow> slot_signaled (states s j) \<or> j \<in> X" for j
      using assms(7) by simp
    have gt: "get_state_type (states (set_state s i st') j) = get_state_type (states s j)" for j
      using assms(5) by simp
    show ?thesis
      using ok sl sg unfolding waiter_ok_def slot_mapped_simps set_state_fields gt by blast
  qed
  show ?thesis
    using assms(1-5) w by (auto simp: wfu_rest_def)
qed

lemma counts_are_set:
  assumes "counts_are s f" "get_state_type st' = get_state_type (states s i)" "multi_bit st' = multi_bit (states s i)"
  shows "counts_are (set_state s i st') f"
  using assms by (auto simp: counts_are_def)

lemma wfu_inv_set:
  assumes "wfu_inv_but X s" "slot_mapped s i" "unlocked st'" "slot_ranges st'"
    and "get_state_type st' = get_state_type (states s i)" "multi_bit st' = multi_bit (states s i)"
    and "get_state_type st' = INPROC_SYNC_INTERNAL \<longrightarrow>
      low st' = 0 \<or> low st' = low (states s i) \<or> i \<notin> slot_idx ` set (wfusync_waiters s)"
    and "slot_signaled st' \<longrightarrow> slot_signaled (states s i) \<or> i \<in> X"
  shows "wfu_inv_but X (set_state s i st')"
  using assms wfu_rest_set[of X s "wfusync_waiters s" i st'] counts_are_set[of s _ st' i]
  by (simp add: wfu_inv_but_def)

lemma wfu_inv_D:
  assumes "wfu_inv_but X s"
  shows "unlocked (states s i)" "slot_ranges (states s i)"
    "w \<in> set (wfusync_waiters s) \<Longrightarrow> waiter_ok X s w" "counts_are s (waiting_for (wfusync_waiters s))"
  using assms by (auto simp: wfu_inv_but_def wfu_rest_def)

section \<open>Waking the waiters\<close>

lemma wake_waiters_states:
  "states (foldl (wake_waiter i) s ws) j =
     (if \<exists>w \<in> set ws. i \<in> set (shm_idxs w) \<and> slot_idx w = j \<and> slot_mapped s j then (states s j)\<lparr>low := 0\<rparr> else states s j) \<and>
   slot_mapped (foldl (wake_waiter i) s ws) j = slot_mapped s j \<and>
   wfusync_waiters (foldl (wake_waiter i) s ws) = wfusync_waiters s \<and>
   next_shm_idx (foldl (wake_waiter i) s ws) = next_shm_idx s \<and> multi_count (foldl (wake_waiter i) s ws) = multi_count s"
proof (induction ws arbitrary: s)
  case Nil
  then show ?case by simp
next
  case (Cons w ws)
  have f: "slot_mapped (wake_waiter i s w) k = slot_mapped s k" "wfusync_waiters (wake_waiter i s w) = wfusync_waiters s"
    "next_shm_idx (wake_waiter i s w) = next_shm_idx s" "multi_count (wake_waiter i s w) = multi_count s"
    "states (wake_waiter i s w) k = (if i \<in> set (shm_idxs w) \<and> slot_idx w = k \<and> slot_mapped s k then (states s k)\<lparr>low := 0\<rparr> else states s k)"
    for k
    by (auto simp: wake_waiter_def get_state_eq wake_wait_slot_def)
  show ?case using Cons.IH[of "wake_waiter i s w"] by (auto simp: f)
qed

lemma wfu_inv_wake:
  assumes "wfu_inv_but X s"
  shows "wfu_inv_but (X - {i}) (wake_waiters_for_object s i)"
proof -
  let ?s = "wake_waiters_for_object s i" and ?ws = "wfusync_waiters s"
  note W = wake_waiters_states[of i s ?ws, folded wake_waiters_for_object_def]
  have ws: "wfusync_waiters ?s = ?ws" and nx: "next_shm_idx ?s = next_shm_idx s" and mc: "multi_count ?s = multi_count s"
    and sm: "slot_mapped ?s j = slot_mapped s j" for j using W by auto
  have slot: "get_state_type (states s j) = INPROC_SYNC_INTERNAL" if "states ?s j \<noteq> states s j" for j
    using that W[of j] wfu_inv_D(3)[OF assms] by (auto simp: waiter_ok_def split: if_splits)
  have ty: "get_state_type (states ?s j) = get_state_type (states s j)" "stype (states ?s j) = stype (states s j)"
    "high (states ?s j) = high (states s j)" for j
    using W[of j] by (auto simp: get_state_type_def)
  have sg: "slot_signaled (states ?s j) = slot_signaled (states s j)" for j
    using slot[of j] ty(1)[of j] by (cases "states ?s j = states s j") (auto simp: slot_signaled_def)
  have rg: "slot_ranges (states ?s j)" for j
    using slot[of j] ty(1)[of j] wfu_inv_D(2)[OF assms, of j] by (cases "states ?s j = states s j") (auto simp: slot_ranges_def)
  have "waiter_ok (X - {i}) ?s w" if w: "w \<in> set ?ws" for w
  proof -
    note ok = wfu_inv_D(3)[OF assms w, unfolded waiter_ok_def]
    have "\<not> asleep ?s w" if "i \<in> set (shm_idxs w)" using W[of "slot_idx w"] ok w that by auto
    moreover have "asleep ?s w \<longrightarrow> asleep s w" using W[of "slot_idx w"] by auto
    ultimately show ?thesis using ok unfolding waiter_ok_def sm ty sg nx by blast
  qed
  then show ?thesis
    using assms rg unfolding wfu_inv_but_def wfu_rest_def counts_are_def ws sm ty nx mc by blast
qed

section \<open>Registering and removing waiters\<close>

lemma waiter_ok_fields [simp]: "waiter_ok X (s\<lparr>wfusync_waiters := ws\<rparr>) w = waiter_ok X s w"
  by (simp add: waiter_ok_def)

lemma waiting_for_Cons: "waiting_for (w # ws) = (\<lambda>i. count_list (shm_idxs w) i + waiting_for ws i)"
  by (rule ext) simp

lemma remove_waiters_counts:
  "\<lbrakk>counts_are s (\<lambda>i. waiting_for ws i + g i); \<forall>w \<in> set ws. \<forall>i \<in> set (shm_idxs w). slot_mapped s i;
    remove_waiters s slot ws = (s', ws')\<rbrakk> \<Longrightarrow>
   counts_are s' (\<lambda>i. waiting_for ws' i + g i) \<and> same_slots s s' \<and> ws' = filter (\<lambda>w. slot_idx w \<noteq> slot) ws"
proof (induction ws arbitrary: s g ws')
  case Nil
  then show ?case by simp
next
  case (Cons w ws)
  show ?case
  proof (cases "slot_idx w = slot")
    case True
    let ?s = "remove_multi_waiters s (shm_idxs w)"
    have "counts_are ?s (\<lambda>i. waiting_for (w # ws) i + g i - count_list (shm_idxs w) i) \<and> same_slots s ?s"
      using remove_multi_waiters_counts[OF Cons.prems(1), of "shm_idxs w"] Cons.prems(2) by simp
    then have c: "counts_are ?s (\<lambda>i. waiting_for ws i + g i)" and ss: "same_slots s ?s" by auto
    have "\<forall>v \<in> set ws. \<forall>i \<in> set (shm_idxs v). slot_mapped ?s i" using Cons.prems(2) same_slots_D(1)[OF ss] by simp
    then show ?thesis
      using Cons.IH[OF c, of ws'] Cons.prems(3) True same_slots_trans[OF ss] by auto
  next
    case False
    obtain ws1 where r: "remove_waiters s slot ws = (s', ws1)" "ws' = w # ws1"
      using Cons.prems(3) False by (auto split: prod.splits)
    have "counts_are s (\<lambda>i. waiting_for ws i + (count_list (shm_idxs w) i + g i))"
      using Cons.prems(1) by (simp add: ac_simps)
    then have "counts_are s' (\<lambda>i. waiting_for ws1 i + (count_list (shm_idxs w) i + g i)) \<and> same_slots s s' \<and>
        ws1 = filter (\<lambda>w. slot_idx w \<noteq> slot) ws"
      using Cons.IH[OF _ _ r(1), of "\<lambda>i. count_list (shm_idxs w) i + g i"] Cons.prems(2) by (meson list.set_intros(2))
    moreover have "(\<lambda>i. waiting_for ws1 i + (count_list (shm_idxs w) i + g i)) = (\<lambda>i. waiting_for ws' i + g i)"
      by (auto simp: r(2))
    ultimately show ?thesis using r(2) False by auto
  qed
qed

lemma wfu_inv_remove:
  assumes "wfu_inv_but X s"
  shows "wfu_inv_but X (remove_waiter s slot)"
    and "wfusync_waiters (remove_waiter s slot) = filter (\<lambda>w. slot_idx w \<noteq> slot) (wfusync_waiters s)"
    and "same_slots (s\<lparr>wfusync_waiters := filter (\<lambda>w. slot_idx w \<noteq> slot) (wfusync_waiters s)\<rparr>) (remove_waiter s slot)"
proof -
  obtain s1 ws1 where r: "remove_waiters s slot (wfusync_waiters s) = (s1, ws1)" by (cases "remove_waiters s slot (wfusync_waiters s)")
  have "\<forall>w \<in> set (wfusync_waiters s). \<forall>i \<in> set (shm_idxs w). slot_mapped s i"
    using wfu_inv_D(3)[OF assms] by (auto simp: waiter_ok_def)
  then have c: "counts_are s1 (waiting_for ws1)" and ss: "same_slots s s1"
    and ws1: "ws1 = filter (\<lambda>w. slot_idx w \<noteq> slot) (wfusync_waiters s)"
    using remove_waiters_counts[OF _ _ r, of "\<lambda>_. 0"] wfu_inv_D(4)[OF assms] by auto
  have eq: "remove_waiter s slot = s1\<lparr>wfusync_waiters := ws1\<rparr>" by (simp add: remove_waiter_def r)
  have "wfu_rest X s ws1" using assms ws1 by (auto simp: wfu_inv_but_def intro: wfu_rest_mono)
  then show "wfu_inv_but X (remove_waiter s slot)" using c wfu_rest_same[OF ss] by (simp add: wfu_inv_but_def eq)
  show "wfusync_waiters (remove_waiter s slot) = filter (\<lambda>w. slot_idx w \<noteq> slot) (wfusync_waiters s)"
    "same_slots (s\<lparr>wfusync_waiters := filter (\<lambda>w. slot_idx w \<noteq> slot) (wfusync_waiters s)\<rparr>) (remove_waiter s slot)"
    using ws1 ss by (simp_all add: eq same_slots_def)
qed

lemma get_state_type_low [simp]: "get_state_type (st\<lparr>low := v\<rparr>) = get_state_type st"
  "get_state_type (st\<lparr>high := v\<rparr>) = get_state_type st" "get_state_type (st\<lparr>generation := g\<rparr>) = get_state_type st"
  "get_state_type (st\<lparr>refcount := c\<rparr>) = get_state_type st"
  by (simp_all add: get_state_type_def)

lemma internal_slot [simp]:
  "get_state_type st = INPROC_SYNC_INTERNAL \<Longrightarrow> \<not> slot_signaled st"
  "get_state_type st = INPROC_SYNC_INTERNAL \<Longrightarrow> slot_ranges st"
  by (simp_all add: slot_signaled_def slot_ranges_def)

lemma wfu_inv_wake_slot:
  assumes "wfu_inv_but X s" "slot_mapped s i" "get_state_type (states s i) = INPROC_SYNC_INTERNAL"
  shows "wfu_inv_but X (wake_wait_slot s i)"
  using wfu_inv_set[OF assms(1,2), of "(states s i)\<lparr>low := 0\<rparr>"] wfu_inv_D(1,2)[OF assms(1), of i] assms(3)
  by (simp add: wake_wait_slot_def)

lemma wfu_inv_register:
  assumes inv: "wfu_inv s"
  shows "wfu_inv (fst (wfusync_register_wait mem_ok A s slot idxs))"
proof (cases "slot_mapped s slot \<and> get_state_type (states s slot) = INPROC_SYNC_INTERNAL \<and> idxs \<noteq> [] \<and> length idxs \<le> 64")
  case False
  then have "wfusync_register_wait mem_ok A s slot idxs = (s, False)"
    by (auto simp: wfusync_register_wait_def get_state_eq)
  then show ?thesis using inv by simp
next
  case True
  let ?s1 = "remove_waiter s slot"
  let ?s2 = "set_state (?s1\<lparr>next_generation := next_generation ?s1 + 1\<rparr>) slot ((states ?s1 slot)\<lparr>low := 1, generation := next_generation ?s1\<rparr>)"
  note R = wfu_inv_remove[OF inv, of slot]
  have sl: "slot_mapped ?s1 slot" "get_state_type (states ?s1 slot) = INPROC_SYNC_INTERNAL"
    using True same_slots_D(1,4)[OF R(3), of slot] by auto
  have free: "slot \<notin> slot_idx ` set (wfusync_waiters ?s1)" using R(2) by auto
  have i2: "wfu_inv ?s2"
    by (rule wfu_inv_set) (use R(1) sl free wfu_inv_D(1)[OF R(1), of slot] in simp_all)
  have sl2: "slot_mapped ?s2 slot" "get_state_type (states ?s2 slot) = INPROC_SYNC_INTERNAL" using sl by simp_all
  have fail: "wfu_inv (wake_wait_slot s3 slot)" if "wfu_inv s3" "same_slots ?s2 s3" for s3
    using wfu_inv_wake_slot[OF that(1)] same_slots_D(1,4)[OF that(2)] sl2 by simp
  show ?thesis
  proof (cases "list_all (valid_wait_object ?s2) idxs \<and> mem_ok")
    case False
    then show ?thesis using True fail[OF i2] by (auto simp: wfusync_register_wait_def get_state_eq Let_def)
  next
    case ok: True
    obtain s3 b where a: "add_multi_waiters A ?s2 [] idxs = (s3, b)" by (cases "add_multi_waiters A ?s2 [] idxs")
    have c2: "counts_are ?s2 (waiting_for (wfusync_waiters ?s2))" using wfu_inv_D(4)[OF i2] .
    note C = add_multi_waiters_counts[OF c2 _ _ a, simplified]
    have ss: "same_slots ?s2 s3" using C by simp
    note D = same_slots_D[OF ss]
    have rest: "wfu_rest {} s3 (wfusync_waiters ?s2)" using i2 wfu_rest_same[OF ss] by (simp add: wfu_inv_but_def)
    show ?thesis
    proof (cases b)
      case False
      then have "wfu_inv s3" using C rest D(6) by (simp add: wfu_inv_but_def)
      then show ?thesis
        using True ok a False fail[OF _ ss] by (simp add: wfusync_register_wait_def get_state_eq Let_def)
    next
      case b: True
      let ?w = "\<lparr>slot_idx = slot, shm_idxs = idxs\<rparr>"
      let ?s4 = "s3\<lparr>wfusync_waiters := ?w # wfusync_waiters s3\<rparr>"
      have val: "slot_mapped ?s2 i \<and> waitable_type (get_state_type (states ?s2 i))" if "i \<in> set idxs" for i
        using ok that by (auto simp: list_all_iff valid_wait_object_def get_state_eq split: if_splits)
      have used: "i < unat (next_shm_idx ?s2)" if "get_state_type (states ?s2 i) \<noteq> INPROC_SYNC_UNKNOWN" for i
        using i2 that unfolding wfu_inv_but_def wfu_rest_def by (meson not_le)
      have w: "waiter_ok X s3 ?w" if "\<And>i. i \<in> set idxs \<Longrightarrow> i \<in> X \<or> \<not> slot_signaled (states s3 i)" for X
      proof -
        have "slot_mapped s3 i \<and> get_state_type (states s3 i) \<noteq> INPROC_SYNC_INTERNAL \<and> i < unat (next_shm_idx s3)"
          if "i \<in> set idxs" for i
          using val[OF that] used[of i] unfolding D by (auto simp: waitable_type_def)
        then show ?thesis
          using sl2 used[of slot] that by (auto simp: waiter_ok_def D simp del: slot_mapped_simps states_set_state set_state_fields)
      qed
      have c4: "counts_are ?s4 (waiting_for (wfusync_waiters ?s4))"
        using C b D(6) by (simp add: add.commute waiting_for_Cons)
      have i4: "wfu_inv ?s4" if "\<And>i. i \<in> set idxs \<Longrightarrow> \<not> slot_signaled (states s3 i)"
        using w[of "{}"] that rest c4 D(6) by (simp add: wfu_inv_but_def wfu_rest_def)
      have r: "fst (wfusync_register_wait mem_ok A s slot idxs) =
          (if list_ex (wfusync_state_signaled ?s4) idxs then wake_wait_slot ?s4 slot else ?s4)"
        using True ok a b by (simp add: wfusync_register_wait_def get_state_eq Let_def)
      show ?thesis
      proof (cases "list_ex (wfusync_state_signaled ?s4) idxs")
        case False
        then have "\<not> slot_signaled (states s3 i)" if "i \<in> set idxs" for i
          using that val[OF that] D(1)[of i] by (auto simp: list_ex_iff state_signaled_eq)
        then show ?thesis using i4 False r by simp
      next
        case sg: True
        let ?s5 = "wake_wait_slot s3 slot"
        have sl3: "slot_mapped s3 slot" "get_state_type (states s3 slot) = INPROC_SYNC_INTERNAL"
          using sl2 D(1,4)[of slot] by simp_all
        have u3: "unlocked (states s3 slot)" using rest by (simp add: wfu_rest_def)
        have "wfu_rest {} ?s5 (wfusync_waiters ?s2)"
          using wfu_rest_set[OF rest sl3(1), of "(states s3 slot)\<lparr>low := 0\<rparr>"] sl3 u3 by (simp add: wake_wait_slot_def)
        moreover have "waiter_ok {} ?s5 ?w"
          using w[of UNIV] by (auto simp: waiter_ok_def wake_wait_slot_def)
        moreover have "counts_are ?s5 (waiting_for (?w # wfusync_waiters s3))"
          using counts_are_set[of s3 _ "(states s3 slot)\<lparr>low := 0\<rparr>" slot] c4 by (simp add: wake_wait_slot_def)
        moreover have "wake_wait_slot ?s4 slot = ?s5\<lparr>wfusync_waiters := ?w # wfusync_waiters s3\<rparr>"
          by (simp add: wake_wait_slot_def wake_address_def set_state_def)
        ultimately show ?thesis using r sg D(6) by (simp add: wfu_inv_but_def wfu_rest_def)
      qed
    qed
  qed
qed

section \<open>Every server operation keeps the invariant\<close>

lemma wfu_inv_unregister: "wfu_inv s \<Longrightarrow> get_state_type (states s slot) = INPROC_SYNC_INTERNAL \<Longrightarrow> wfu_inv (wfusync_unregister_wait s slot)"
  using wfu_inv_remove[of "{}" s slot] wfu_inv_wake_slot[of "{}" "remove_waiter s slot" slot]
    same_slots_D(1,4)[OF wfu_inv_remove(3)[of "{}" s slot], of slot]
  by (simp add: wfusync_unregister_wait_def get_state_eq Let_def)

lemma wfu_inv_wake_waiters: "wfu_inv_but X s \<Longrightarrow> X \<subseteq> {i} \<Longrightarrow> slot_mapped s i \<Longrightarrow> wfu_inv (fst (wfusync_wake_waiters s i))"
  using wfu_inv_wake[of X s i] by (simp add: wfusync_wake_waiters_def get_state_eq subset_singleton_iff, auto)

text \<open>A change of the numbers of a slot, its type word staying the same.\<close>

lemma wfu_inv_numbers:
  assumes "wfu_inv_but X s" "slot_mapped s i" "stype st' = stype (states s i)" "slot_ranges st'"
    and "get_state_type (states s i) = INPROC_SYNC_INTERNAL \<longrightarrow>
      low st' = 0 \<or> low st' = low (states s i) \<or> i \<notin> slot_idx ` set (wfusync_waiters s)"
    and "slot_signaled st' \<longrightarrow> slot_signaled (states s i) \<or> i \<in> X"
  shows "wfu_inv_but X (set_state s i st')"
proof -
  have "get_state_type st' = get_state_type (states s i)" using assms(3) by (simp add: get_state_type_def)
  then show ?thesis
    using wfu_inv_set[OF assms(1,2), of st'] assms(3-6) wfu_inv_D(1)[OF assms(1), of i] by simp
qed

lemma at_slotI: "wfu_inv_but X s \<Longrightarrow> slot_mapped s (shm_idx sync) \<Longrightarrow> get_state_type (the_slot s sync) = t \<Longrightarrow> at_slot s sync t"
  using wfu_inv_D(1) by (simp add: at_slot_def)

lemma set_low_inv:
  assumes "wfu_inv_but X s" "slot_mapped s i" "slot_ranges ((states s i)\<lparr>low := v\<rparr>)"
    and "get_state_type (states s i) = INPROC_SYNC_INTERNAL \<longrightarrow>
      v = 0 \<or> v = low (states s i) \<or> i \<notin> slot_idx ` set (wfusync_waiters s)"
    and "slot_signaled ((states s i)\<lparr>low := v\<rparr>) \<longrightarrow> slot_signaled (states s i) \<or> i \<in> X"
  shows "wfu_inv_but X (set_low s i v)"
  using wfu_inv_numbers[OF assms(1,2), of "(states s i)\<lparr>low := v\<rparr>"] assms(3-5) by (simp add: set_low_def)

lemma set_low_mapped [simp]: "slot_mapped (set_low s i v) j = slot_mapped s j"
  by (simp add: set_low_def)

lemma event_ranges: "event_type (get_state_type st) \<Longrightarrow> slot_ranges (st\<lparr>low := v\<rparr>)"
  by (auto simp: slot_ranges_def event_type_def)

lemma set_event_inv:
  assumes "wfu_inv s" "at_slot s sync t" "event_type t" "t = INPROC_SYNC_INTERNAL \<longrightarrow> shm_idx sync \<notin> slot_idx ` set (wfusync_waiters s)"
    and "wfusync_set_event s sync = Some s'"
  shows "wfu_inv s'"
proof -
  let ?i = "shm_idx sync"
  have m: "slot_mapped s ?i" and ty: "get_state_type (states s ?i) = t" using assms(2) by (auto simp: at_slot_def)
  have "wfu_inv_but {?i} (set_low s ?i 1)"
    using set_low_inv[OF wfu_inv_mono[OF assms(1)] m, of "{?i}" 1] ty assms(3,4) event_ranges by simp
  then have "wfu_inv_but {?i} (if low (states s ?i) = 0 then wake_address (set_low s ?i 1) ?i (high (states s ?i) \<noteq> 0) else set_low s ?i 1)"
    by simp
  from wfu_inv_wake[OF this, of ?i] show ?thesis
    using assms(5) set_event_eq[OF assms(2,3)] by simp
qed

lemma event_low_inv:
  assumes "wfu_inv s" "at_slot s sync t" "event_type t"
  shows "wfu_inv (set_low s (shm_idx sync) 0)"
proof -
  have m: "slot_mapped s (shm_idx sync)" and ty: "get_state_type (the_slot s sync) = t" using assms(2) by (auto simp: at_slot_def)
  have "\<not> slot_signaled ((the_slot s sync)\<lparr>low := 0\<rparr>)" using ty assms(3) by (auto simp: slot_signaled_def event_type_def)
  then show ?thesis using set_low_inv[OF assms(1) m, of 0] event_ranges ty assms(3) by simp
qed

lemma to_int_range: "- (2 ^ 31) \<le> to_int x" "to_int x < 2 ^ 31"
  using signed_take_bit_int_greater_eq_minus_exp[of 31 x] signed_take_bit_int_less_exp[of 31 x]
  by (simp_all add: to_int_def)

lemma to_int_high: "2 ^ 31 \<le> n \<Longrightarrow> n < 2 ^ 32 \<Longrightarrow> to_int (int n) < 0"
proof -
  assume n: "2 ^ 31 \<le> n" "n < 2 ^ 32"
  have "n div 2147483648 = 1" by (rule div_nat_eqI) (use n in simp_all)
  then have "int n div 2147483648 = 1" by (metis of_nat_numeral of_nat_1 zdiv_int)
  then have "to_int (int n) = int n - 2 ^ 32"
    using n by (simp add: to_int_def signed_take_bit_eq_take_bit_minus take_bit_eq_mod bit_iff_odd)
  then show ?thesis using n by simp
qed

lemma to_uint_neg: "- (2 ^ 31) \<le> x \<Longrightarrow> x < 0 \<Longrightarrow> 2 ^ 31 \<le> to_uint x"
proof -
  assume x: "- (2 ^ 31) \<le> x" "x < 0"
  have "x mod 2 ^ 32 = (x + 2 ^ 32) mod 2 ^ 32" by simp
  also have "\<dots> = x + 2 ^ 32" by (rule mod_pos_pos_trivial) (use x in simp_all)
  finally show ?thesis using x by (simp add: to_uint_def)
qed

lemma semaphore_release_inv:
  assumes "wfu_inv s" "at_slot s sync INPROC_SYNC_SEMAPHORE" "count < 2 ^ 32"
    and "wfusync_release_semaphore s sync count = Some (s1, r)"
  shows "wfu_inv (if r = Released 0 then fst (wfusync_wake_waiters s1 (shm_idx sync)) else s1)"
proof -
  let ?i = "shm_idx sync"
  have m: "slot_mapped s ?i" and ty: "get_state_type (states s ?i) = INPROC_SYNC_SEMAPHORE" using assms(2) by (auto simp: at_slot_def)
  define old where "old = to_uint (low (states s ?i))"
  define new where "new = (old + count) mod 2 ^ 32"
  consider "s1 = s" "r = Refused STATUS_SEMAPHORE_LIMIT_EXCEEDED"
    | "old \<le> new" "r = Released old"
      "s1 = (if old = 0 then wake_address (set_low s ?i (to_int (int new))) ?i (count > 1) else set_low s ?i (to_int (int new)))"
    using assms(4)[unfolded release_semaphore_eq[OF assms(2)] Let_def, folded old_def, folded new_def]
    by (cases "new < old \<or> to_uint (high (states s ?i)) < new") auto
  then show ?thesis
  proof cases
    case 1
    then show ?thesis using assms(1) by simp
  next
    case 2
    have rg: "slot_ranges ((states s ?i)\<lparr>low := to_int (int new)\<rparr>)" using ty to_int_range by (simp add: slot_ranges_def)
    show ?thesis
    proof (cases "old = 0")
      case True
      have "wfu_inv_but {?i} (set_low s ?i (to_int (int new)))"
        using set_low_inv[OF wfu_inv_mono[OF assms(1)] m rg, of "{?i}"] ty by simp
      then show ?thesis using 2 True wfu_inv_wake_waiters[of "{?i}" s1 ?i] m by simp
    next
      case False
      have "slot_signaled ((states s ?i)\<lparr>low := to_int (int new)\<rparr>) \<longrightarrow> slot_signaled (states s ?i)"
      proof
        assume "slot_signaled ((states s ?i)\<lparr>low := to_int (int new)\<rparr>)"
        then have "to_int (int new) > 0" using ty by (simp add: slot_signaled_def)
        then have "new < 2 ^ 31" using to_int_high[of new] by (force simp: new_def)
        then have "old < 2 ^ 31" using 2(1) by simp
        moreover have "- (2 ^ 31) \<le> low (states s ?i)" using wfu_inv_D(2)[OF assms(1), of ?i] ty by (simp add: slot_ranges_def)
        ultimately have "low (states s ?i) \<ge> 0" 
          using to_uint_neg[of "low (states s ?i)"] by (fastforce simp: old_def)
        then show "slot_signaled (states s ?i)" using False ty
          by (cases "low (states s ?i) = 0") (auto simp: slot_signaled_def old_def to_uint_def)
      qed
      then show ?thesis using 2 False set_low_inv[OF assms(1) m rg] ty by simp
    qed
  qed
qed


lemma semaphore_satisfied_inv:
  assumes "wfu_inv s" "at_slot s sync INPROC_SYNC_SEMAPHORE"
  shows "wfu_inv (the (wfusync_semaphore_satisfied s sync))"
proof -
  let ?st = "the_slot s sync"
  have m: "slot_mapped s (shm_idx sync)" and ty: "get_state_type ?st = INPROC_SYNC_SEMAPHORE" using assms(2) by (auto simp: at_slot_def)
  have "wfu_inv (set_low s (shm_idx sync) (low ?st - 1))" if "low ?st > 0"
    using set_low_inv[OF assms(1) m, of "low ?st - 1"] wfu_inv_D(2)[OF assms(1), of "shm_idx sync"] ty that
    by (simp add: slot_ranges_def slot_signaled_def)
  then show ?thesis using assms(1) semaphore_state_eq(2)[OF assms(2)] by simp
qed

lemma mutex_satisfied_inv:
  assumes "wfu_inv s" "at_slot s sync INPROC_SYNC_MUTEX" "high (the_slot s sync) < INT_MAX"
    and "wfusync_mutex_satisfied s sync tid = Some (s', r)"
  shows "wfu_inv s'"
proof -
  let ?st = "the_slot s sync"
  have m: "slot_mapped s (shm_idx sync)" and ty: "get_state_type ?st = INPROC_SYNC_MUTEX" using assms(2) by (auto simp: at_slot_def)
  have h: "0 \<le> high ?st" using wfu_inv_D(2)[OF assms(1), of "shm_idx sync"] ty by (simp add: slot_ranges_def)
  have hi: "to_int (high ?st + 1) = high ?st + 1"
    using h assms(3) by (simp add: to_int_def INT_MAX_def signed_take_bit_int_eq_self)
  consider "s' = s" | "s' = set_state s (shm_idx sync) (?st\<lparr>high := high ?st + 1\<rparr>)"
    | "low ?st \<le> 0" "s' = set_state s (shm_idx sync) (?st\<lparr>low := to_int (int tid), high := 1,
            generation := (if low ?st < 0 then generation ?st + 1 else generation ?st)\<rparr>)"
    using assms(4)[unfolded mutex_satisfied_eq[OF assms(2), of tid] hi]
    by (cases "low ?st = to_int (int tid)"; cases "low ?st \<le> 0") auto
  then show ?thesis
  proof cases
    case 2
    show ?thesis
      unfolding 2 by (rule wfu_inv_numbers[OF assms(1) m]) (use ty h in \<open>simp_all add: slot_ranges_def slot_signaled_def\<close>)
  next
    case 3
    show ?thesis
      unfolding 3(2) by (rule wfu_inv_numbers[OF assms(1) m]) (use ty 3(1) in \<open>simp_all add: slot_ranges_def slot_signaled_def\<close>)
  qed (use assms(1) in simp)
qed

text \<open>Releasing wakes the registered waiters when the previous count was 1, abandoning always does.\<close>

lemma mutex_release_inv:
  assumes "wfu_inv s" "at_slot s sync INPROC_SYNC_MUTEX"
    and "wfusync_release_mutex s sync tid = Some (s1, r)"
  shows "wfu_inv (if r = Released 1 then fst (wfusync_wake_waiters s1 (shm_idx sync)) else s1)"
proof -
  let ?st = "the_slot s sync" and ?i = "shm_idx sync"
  have m: "slot_mapped s ?i" and ty: "get_state_type ?st = INPROC_SYNC_MUTEX" using assms(2) by (auto simp: at_slot_def)
  have h: "0 \<le> high ?st" using wfu_inv_D(2)[OF assms(1), of ?i] ty by (simp add: slot_ranges_def)
  note e = assms(3)[unfolded release_mutex_eq[OF assms(2), of tid]]
  consider (no) "low ?st \<noteq> to_int (int tid) \<or> high ?st = 0"
    | (part) "\<not> (low ?st \<noteq> to_int (int tid) \<or> high ?st = 0)" "high ?st > 1"
    | (full) "\<not> (low ?st \<noteq> to_int (int tid) \<or> high ?st = 0)" "\<not> high ?st > 1"
    by blast
  then show ?thesis
  proof cases
    case no
    then show ?thesis using e assms(1) by auto
  next
    case part
    then have 2: "high ?st > 1" "s1 = set_state s ?i (?st\<lparr>high := high ?st - 1\<rparr>)" using e by simp_all
    have i1: "wfu_inv s1"
      unfolding 2(2) by (rule wfu_inv_numbers[OF assms(1) m]) (use ty 2(1) in \<open>simp_all add: slot_ranges_def slot_signaled_def\<close>)
    moreover have "slot_mapped s1 ?i" using m by (simp add: 2(2))
    ultimately show ?thesis using wfu_inv_wake_waiters[of "{}" s1 ?i] by simp
  next
    case full
    then have 3: "high ?st = 1" "s1 = wake_address (set_state s ?i (?st\<lparr>high := 0, low := 0\<rparr>)) ?i False"
        "r = Released (to_uint (high ?st))"
      using e h by simp_all
    have "wfu_inv_but {?i} s1"
      using wfu_inv_numbers[OF wfu_inv_mono[OF assms(1)] m, of "{?i}" "?st\<lparr>high := 0, low := 0\<rparr>"] ty
      by (simp add: 3(2) slot_ranges_def)
    moreover have "r = Released 1" using 3(1,3) by (simp add: to_uint_def)
    ultimately show ?thesis using wfu_inv_wake_waiters[of "{?i}" s1 ?i] m 3(2) by simp
  qed
qed

lemma mutex_abandon_inv:
  assumes "wfu_inv s" "at_slot s sync INPROC_SYNC_MUTEX" "wfusync_abandon_mutex s sync tid = Some (s1, ok)"
  shows "wfu_inv (if ok then fst (wfusync_wake_waiters s1 (shm_idx sync)) else s1)"
proof -
  let ?st = "the_slot s sync" and ?i = "shm_idx sync"
  have m: "slot_mapped s ?i" and ty: "get_state_type ?st = INPROC_SYNC_MUTEX" using assms(2) by (auto simp: at_slot_def)
  consider "s1 = s" "\<not> ok"
    | "s1 = wake_address (set_state s ?i (?st\<lparr>low := - to_int (int tid), high := 0, generation := generation ?st + 1\<rparr>)) ?i True" "ok"
    using assms(3) abandon_mutex_eq[OF assms(2), of tid] by (auto split: if_splits)
  then show ?thesis
  proof cases
    case 1
    then show ?thesis using assms(1) by simp
  next
    case 2
    have "wfu_inv_but {?i} s1"
      using wfu_inv_numbers[OF wfu_inv_mono[OF assms(1)] m, of "{?i}"
          "?st\<lparr>low := - to_int (int tid), high := 0, generation := generation ?st + 1\<rparr>"] ty
      by (simp add: 2(1) slot_ranges_def)
    then show ?thesis using wfu_inv_wake_waiters[of "{?i}" s1 ?i] m 2 by simp
  qed
qed

lemma wfu_inv_states:
  assumes "wfu_inv_but X s" "s' = s\<lparr>states := states s'\<rparr>"
    and "\<And>i. stype (states s' i) = stype (states s i)" "\<And>i. slot_ranges (states s' i)"
    and "\<And>i. get_state_type (states s i) = INPROC_SYNC_INTERNAL \<Longrightarrow> low (states s' i) = low (states s i)"
    and "\<And>i. slot_signaled (states s' i) \<Longrightarrow> slot_signaled (states s i)"
  shows "wfu_inv_but X s'"
proof -
  have ty: "get_state_type (states s' i) = get_state_type (states s i)" for i using assms(3) by (simp add: get_state_type_def)
  define F where "F = states s'"
  have e: "s' = s\<lparr>states := F\<rparr>" using assms(2) unfolding F_def .
  have f: "page_size s' = page_size s" "wfusync_pages s' = wfusync_pages s" "next_shm_idx s' = next_shm_idx s"
    "wfusync_waiters s' = wfusync_waiters s" "multi_waiter_counts s' = multi_waiter_counts s"
    unfolding e by simp_all
  have sm: "slot_mapped s' i = slot_mapped s i" for i by (rule slot_mapped_cong[OF f(1,2)])
  have wk: "waiter_ok X s' w" if w: "w \<in> set (wfusync_waiters s)" for w
  proof -
    note ok = wfu_inv_D(3)[OF assms(1) w, unfolded waiter_ok_def]
    have "low (states s' (slot_idx w)) = low (states s (slot_idx w))" using assms(5) ok by blast
    then show ?thesis using ok assms(6) unfolding waiter_ok_def f sm ty by (metis DiffD1)
  qed
  have mc: "multi_count s' = multi_count s" by (simp add: multi_count_def f fun_eq_iff)
  have "wfu_rest X s' (wfusync_waiters s)"
    using assms(1,4) wk unfolding wfu_inv_but_def wfu_rest_def f sm ty assms(3) by blast
  moreover have "counts_are s' (waiting_for (wfusync_waiters s))"
    using wfu_inv_D(4)[OF assms(1)] unfolding counts_are_def sm ty mc assms(3) .
  ultimately show ?thesis by (simp add: wfu_inv_but_def f)
qed

lemma try_wait_all_inv:
  assumes "wfu_inv s" "wfusync_try_wait_all s es tid = (s', status)"
  shows "wfu_inv s'"
proof (cases "s' = s")
  case True
  then show ?thesis using assms(1) by simp
next
  case False
  then have a: "all_acquired s s' es tid" using try_wait_all_cases[OF assms(2)] by auto
  have eq: "states s' i = states s i \<or> (\<exists>t. unat (get_state_type (states s i)) = t \<and> acquire_state (states s i) tid t = Some (states s' i))" for i
  proof (cases "i \<in> fst ` set es")
    case True
    then obtain g t where "(i, g, t) \<in> set es" by auto
    then have "entry_valid (states s i) g t \<and> acquire_state (states s i) tid t = Some (states s' i)"
      using a unfolding all_acquired_def by blast
    then show ?thesis by (auto simp: entry_valid_def)
  qed (use a in \<open>auto simp: all_acquired_def\<close>)
  have ty: "(unat (get_state_type st) = unat c) = (get_state_type st = c)" for st c by (rule word_unat_eq_iff[symmetric])
  have acq: "stype st' = stype st \<and> slot_ranges st' \<and> (get_state_type st = INPROC_SYNC_INTERNAL \<longrightarrow> low st' = low st) \<and>
      (slot_signaled st' \<longrightarrow> slot_signaled st)"
    if "acquire_state st tid (unat (get_state_type st)) = Some st'" "slot_ranges st" for st st'
    using that unfolding acquire_state_def ty by (auto simp: slot_ranges_def slot_signaled_def get_state_type_def split: if_splits)
  have all: "stype (states s' i) = stype (states s i) \<and> slot_ranges (states s' i) \<and>
      (get_state_type (states s i) = INPROC_SYNC_INTERNAL \<longrightarrow> low (states s' i) = low (states s i)) \<and>
      (slot_signaled (states s' i) \<longrightarrow> slot_signaled (states s i))" for i
    using eq[of i] acq[of "states s i" "states s' i"] wfu_inv_D(2)[OF assms(1), of i] by auto
  show ?thesis
    by (rule wfu_inv_states[OF assms(1)]) (use a all in \<open>auto simp: all_acquired_def\<close>)
qed

section \<open>Creation and destruction\<close>

text \<open>A new slot is zeroed; it was not in use, and no page that was mapped is lost.\<close>

definition codes :: "u16 set" where
  "codes = {INPROC_SYNC_INTERNAL, INPROC_SYNC_EVENT, INPROC_SYNC_MUTEX, INPROC_SYNC_SEMAPHORE}"

lemma codes_bits:
  "t \<in> codes \<Longrightarrow> t AND WFUSYNC_TYPE_MASK = t \<and> t AND WFUSYNC_STATE_LOCKED = 0 \<and> t AND WFUSYNC_MULTI_WAITERS = 0"
  by (auto simp: codes_def type_codes type_bits)

lemma alloc_state_slot_spec:
  assumes "alloc_state_slot a b s = (s', r)" "next_shm_idx s + 1 \<noteq> 0"
  shows "(\<forall>i. slot_mapped s i \<longrightarrow> slot_mapped s' i) \<and> unat (next_shm_idx s') = unat (next_shm_idx s) + 1 \<and>
    wfusync_waiters s' = wfusync_waiters s \<and> multi_waiter_counts s' = multi_waiter_counts s \<and>
    (case r of None \<Rightarrow> states s' = states s
     | Some idx \<Rightarrow> idx = unat (next_shm_idx s) \<and> slot_mapped s' idx \<and> states s' = (states s)(idx := zero_state))"
proof -
  let ?idx = "unat (next_shm_idx s)"
  let ?e = "state_page s ?idx" and ?n = "length (wfusync_pages s)"
  let ?g = "grown ?e (if ?n \<noteq> 0 then ?n * 2 else 16)"
  let ?s1 = "s\<lparr>next_shm_idx := next_shm_idx s + 1\<rparr>"
  define s3 where "s3 = (if ?e \<ge> ?n then ?s1\<lparr>wfusync_pages := wfusync_pages s @ replicate (?g - ?n) False\<rparr> else ?s1)"
  let ?s4 = "set_state (s3\<lparr>wfusync_pages := (wfusync_pages s3)[?e := True]\<rparr>) ?idx zero_state"
  have g: "?e < ?g" using grown_less[of "if ?n \<noteq> 0 then ?n * 2 else 16" ?e] by simp
  have e3: "?e < length (wfusync_pages s3)" using g by (auto simp: s3_def)
  have ps: "page_size s3 = page_size s" by (simp add: s3_def)
  have nx: "unat (next_shm_idx s + 1) = ?idx + 1" using unat_plus_if_size assms(2)
    by (metis add_is_0 unat_1 unat_eq_zero unatSuc Suc_eq_plus1 add.commute)
  have m3: "slot_mapped s3 i" if "slot_mapped s i" for i
    using that by (auto simp: s3_def slot_mapped_def state_page_def nth_append)
  have m4: "slot_mapped ?s4 i" if "slot_mapped s i" for i
    using m3[OF that] e3 by (auto simp: slot_mapped_def state_page_def nth_list_update simp del: length_append split: if_splits)
  have idx4: "slot_mapped ?s4 ?idx" using e3 by (simp add: slot_mapped_def state_page_def ps)
  consider "s' = ?s1" "r = None" | "s' = s3" "r = None" | "s' = ?s4" "r = Some ?idx"
    using assms(1) unfolding alloc_state_slot_def Let_def s3_def by (auto split: if_splits)
  then show ?thesis
  proof cases
    case 1
    then show ?thesis using nx by (simp add: slot_mapped_def state_page_def)
  next
    case 2
    then show ?thesis using nx m3 by (auto simp: s3_def)
  next
    case 3
    then show ?thesis using nx m4 idx4 by (auto simp: s3_def)
  qed
qed


lemma waiting_for_unused:
  assumes "wfu_inv s" "unat (next_shm_idx s) \<le> i"
  shows "waiting_for (wfusync_waiters s) i = 0"
proof -
  have "\<not> 0 < waiting_for (wfusync_waiters s) i"
    unfolding waiting_for_pos using wfu_inv_D(3)[OF assms(1)] assms(2) by (fastforce simp: waiter_ok_def)
  then show ?thesis by simp
qed

lemma wfu_inv_grow:
  assumes inv: "wfu_inv s" and mp: "\<forall>i. slot_mapped s i \<longrightarrow> slot_mapped s' i"
    and nx: "unat (next_shm_idx s') = unat (next_shm_idx s) + 1"
    and ws: "wfusync_waiters s' = wfusync_waiters s" and mc: "multi_waiter_counts s' = multi_waiter_counts s"
    and st: "states s' = states s \<or> slot_mapped s' (unat (next_shm_idx s)) \<and> states s' = (states s)(unat (next_shm_idx s) := st) \<and>
      unlocked st \<and> \<not> multi_bit st \<and> slot_ranges st"
  shows "wfu_inv s'"
proof -
  let ?n = "unat (next_shm_idx s)"
  have old: "states s' i = states s i" if "i < ?n" for i using st that by auto
  have wk: "waiter_ok {} s' w" if w: "w \<in> set (wfusync_waiters s)" for w
  proof -
    note ok = wfu_inv_D(3)[OF inv w, unfolded waiter_ok_def]
    have "states s' (slot_idx w) = states s (slot_idx w)" "\<And>i. i \<in> set (shm_idxs w) \<Longrightarrow> states s' i = states s i"
      using ok old by blast+
    then show ?thesis using ok mp unfolding waiter_ok_def nx by auto
  qed
  have un: "get_state_type (states s i) = INPROC_SYNC_UNKNOWN" if "\<not> slot_mapped s i \<or> ?n \<le> i" for i
    using inv that unfolding wfu_inv_but_def wfu_rest_def by blast
  have z: "get_state_type (states s' i) = INPROC_SYNC_UNKNOWN" if "\<not> slot_mapped s' i \<or> ?n + 1 \<le> i" for i
  proof -
    have "\<not> slot_mapped s i \<or> ?n \<le> i" using that mp by auto
    moreover have "states s' i = states s i" using that st by auto
    ultimately show ?thesis using un by simp
  qed
  have ur: "unlocked (states s' i) \<and> slot_ranges (states s' i)" for i
    using wfu_inv_D(1,2)[OF inv, of i] st by auto
  have cn: "multi_bit (states s' i) = (0 < waiting_for (wfusync_waiters s) i)"
    if "slot_mapped s' i" "waitable_type (get_state_type (states s' i))" for i
  proof (cases "states s' i = states s i")
    case True
    have "slot_mapped s i" using un[of i] that(2) True by (cases "slot_mapped s i") (auto simp: waitable_type_def)
    then show ?thesis using wfu_inv_D(4)[OF inv] that(2) True by (simp add: counts_are_def)
  next
    case False
    then have "i = ?n" "\<not> multi_bit (states s' i)" using st by (auto split: if_splits)
    then show ?thesis using waiting_for_unused[OF inv] by simp
  qed
  have "multi_count s' = multi_count s" by (simp add: multi_count_def mc fun_eq_iff)
  then have "counts_are s' (waiting_for (wfusync_waiters s))"
    using cn wfu_inv_D(4)[OF inv] by (simp add: counts_are_def)
  then show ?thesis using wk z ur by (auto simp: wfu_inv_but_def wfu_rest_def ws nx)
qed

lemma wfu_inv_new_slot:
  assumes "wfu_inv s" "next_shm_idx s + 1 \<noteq> 0" "t \<in> codes" "alloc_state_slot a b s = (s1, r)"
    and "slot_ranges \<lparr>low = l, high = h, generation = 0, stype = t, refcount = 1\<rparr>"
    and "s' = (case r of None \<Rightarrow> s1 | Some idx \<Rightarrow> set_state (s1\<lparr>next_generation := next_generation s1 + 1\<rparr>) idx
             \<lparr>low = l, high = h, generation = next_generation s1, stype = t, refcount = 1\<rparr>)"
  shows "wfu_inv s'"
proof -
  let ?st = "\<lparr>low = l, high = h, generation = next_generation s1, stype = t, refcount = 1\<rparr> :: wfusync_state"
  note S = alloc_state_slot_spec[OF assms(4,2)]
  have st: "unlocked ?st" "\<not> multi_bit ?st" "slot_ranges ?st"
    using codes_bits[OF assms(3)] assms(5) by (simp_all add: slot_ranges_def get_state_type_def)
  show ?thesis
    by (rule wfu_inv_grow[OF assms(1), where st = ?st]) (use S st in \<open>auto simp: assms(6) split: option.splits\<close>)
qed

lemma create_inv:
  assumes "wfu_inv s" "next_shm_idx s + 1 \<noteq> 0" "t \<in> codes"
    and "slot_ranges \<lparr>low = l, high = h, generation = 0, stype = t, refcount = 1\<rparr>"
  shows "wfu_inv (fst (create_wfusync m a b s l h t))"
proof -
  obtain s1 r where r: "alloc_state_slot a b s = (s1, r)" by (cases "alloc_state_slot a b s")
  show ?thesis
    using wfu_inv_new_slot[OF assms(1-3) r assms(4) refl] assms(1) r by (cases r) (auto simp: create_wfusync_def)
qed

lemma wait_slot_inv:
  assumes "wfu_inv s" "next_shm_idx s + 1 \<noteq> 0"
  shows "wfu_inv (fst (wfusync_alloc_wait_slot a b s))"
proof -
  obtain s1 r where r: "alloc_state_slot a b s = (s1, r)" by (cases "alloc_state_slot a b s")
  have "slot_ranges \<lparr>low = 0, high = 0, generation = 0, stype = INPROC_SYNC_INTERNAL, refcount = 1\<rparr>"
    by (simp add: slot_ranges_def)
  then show ?thesis
    using wfu_inv_new_slot[OF assms _ r, of INPROC_SYNC_INTERNAL 0 0, OF _ _ refl] r
    by (cases r) (auto simp: wfusync_alloc_wait_slot_def codes_def)
qed

lemma unknown_type [simp]: "get_state_type (st\<lparr>stype := INPROC_SYNC_UNKNOWN\<rparr>) = INPROC_SYNC_UNKNOWN"
  by (simp add: get_state_type_def type_codes)

lemma destroy_inv:
  assumes "wfu_inv s" "shm_idx sync \<notin> slot_idx ` set (wfusync_waiters s)"
  shows "wfu_inv (wfusync_destroy s sync)"
proof (cases "slot_mapped s (shm_idx sync)")
  case False
  then show ?thesis using assms(1) by (simp add: wfusync_destroy_def get_state_eq)
next
  case True
  let ?i = "shm_idx sync"
  let ?st = "(states s ?i)\<lparr>stype := INPROC_SYNC_UNKNOWN, generation := next_generation s, refcount := refcount (states s ?i) - 1\<rparr>"
  have u: "get_state_type ?st = INPROC_SYNC_UNKNOWN" "unlocked ?st" by (simp, simp add: type_codes)
  have n: "\<not> slot_signaled ?st" "slot_ranges ?st" "\<not> waitable_type (get_state_type ?st)"
    by (simp_all add: slot_signaled_def slot_ranges_def waitable_type_def)
  have wk: "waiter_ok {} (set_state s ?i ?st) w" if w: "w \<in> set (wfusync_waiters s)" for w
  proof -
    note ok = wfu_inv_D(3)[OF assms(1) w, unfolded waiter_ok_def]
    have "slot_idx w \<noteq> ?i" using assms(2) w by (metis image_eqI)
    then show ?thesis using ok n(1) u(1) unfolding waiter_ok_def by auto
  qed
  have "wfu_rest {} (set_state s ?i ?st) (wfusync_waiters s)"
    using assms(1) wk u n(2) by (auto simp: wfu_inv_but_def wfu_rest_def)
  moreover have "counts_are (set_state s ?i ?st) (waiting_for (wfusync_waiters s))"
    using wfu_inv_D(4)[OF assms(1)] n(3) by (auto simp: counts_are_def)
  ultimately have "wfu_inv (set_state s ?i ?st)" by (simp add: wfu_inv_but_def)
  moreover have "wfusync_destroy s sync = (set_state s ?i ?st)\<lparr>next_generation := next_generation s + 1\<rparr>"
    using True by (simp add: wfusync_destroy_def get_state_eq set_state_def)
  ultimately show ?thesis by simp
qed

lemma server_flag_inv:
  assumes "wfu_inv s" "slot_mapped s i" "t = stype (states s i) OR WFUSYNC_SERVER_WAITERS \<or> t = stype (states s i) AND NOT WFUSYNC_SERVER_WAITERS"
  shows "wfu_inv (set_state s i ((states s i)\<lparr>stype := t\<rparr>))"
proof -
  have ty: "get_state_type ((states s i)\<lparr>stype := t\<rparr>) = get_state_type (states s i)" using assms(3) by (auto simp: get_state_type_def)
  have "slot_signaled ((states s i)\<lparr>stype := t\<rparr>) = slot_signaled (states s i)" by (rule slot_signaled_cong[OF ty]) simp
  moreover have "slot_ranges ((states s i)\<lparr>stype := t\<rparr>)"
    using wfu_inv_D(2)[OF assms(1), of i] slot_ranges_cong[OF ty] by simp
  ultimately show ?thesis
    using wfu_inv_set[OF assms(1,2), of "(states s i)\<lparr>stype := t\<rparr>"] ty assms(3) wfu_inv_D(1)[OF assms(1), of i] by auto
qed

lemma server_waiter_inv:
  "wfu_inv s \<Longrightarrow> wfu_inv (fst (wfusync_add_server_waiter s sync))"
  "wfu_inv s \<Longrightarrow> wfu_inv (fst (wfusync_remove_server_waiter s sync))"
  by (auto simp: wfusync_add_server_waiter_def wfusync_remove_server_waiter_def get_state_eq Let_def server_flag_inv
      split: option.splits)

section \<open>Reachable states\<close>

text \<open>
  The operations of the server, with the calls by which \<^verbatim>\<open>event.c\<close>, \<^verbatim>\<open>semaphore.c\<close> and \<^verbatim>\<open>mutex.c\<close> wake
  the registered waiters: \<^verbatim>\<open>release_semaphore\<close> does when the count was 0, the \<^verbatim>\<open>release_mutex\<close> request
  when the recursion count was 1, and \<^verbatim>\<open>abandon_mutexes\<close> always.  Clients name the wait slots they
  were given, slot numbers do not wrap around, and recursion counts stay below the largest number.
\<close>

definition shm_start :: "nat \<Rightarrow> shm" where
  "shm_start p = \<lparr>page_size = p, wfusync_pages = [], states = (\<lambda>_. zero_state), next_shm_idx = 1,
     next_generation = 1, wfusync_waiters = [], multi_waiter_counts = [], wakes = []\<rparr>"

inductive wfu_reachable :: "shm \<Rightarrow> bool" where
  start: "wfu_reachable (shm_start p)"
| create: "\<lbrakk>wfu_reachable s; next_shm_idx s + 1 \<noteq> 0; t \<in> codes;
     slot_ranges \<lparr>low = l, high = h, generation = 0, stype = t, refcount = 1\<rparr>\<rbrakk> \<Longrightarrow>
   wfu_reachable (fst (create_wfusync m a b s l h t))"
| wait_slot: "\<lbrakk>wfu_reachable s; next_shm_idx s + 1 \<noteq> 0\<rbrakk> \<Longrightarrow> wfu_reachable (fst (wfusync_alloc_wait_slot a b s))"
| register: "wfu_reachable s \<Longrightarrow> wfu_reachable (fst (wfusync_register_wait m A s slot idxs))"
| unregister: "\<lbrakk>wfu_reachable s; get_state_type (states s slot) = INPROC_SYNC_INTERNAL\<rbrakk> \<Longrightarrow>
   wfu_reachable (wfusync_unregister_wait s slot)"
| wake: "\<lbrakk>wfu_reachable s; slot_mapped s i\<rbrakk> \<Longrightarrow> wfu_reachable (fst (wfusync_wake_waiters s i))"
| destroy: "\<lbrakk>wfu_reachable s; shm_idx sync \<notin> slot_idx ` set (wfusync_waiters s)\<rbrakk> \<Longrightarrow> wfu_reachable (wfusync_destroy s sync)"
| add_server_waiter: "wfu_reachable s \<Longrightarrow> wfu_reachable (fst (wfusync_add_server_waiter s sync))"
| remove_server_waiter: "wfu_reachable s \<Longrightarrow> wfu_reachable (fst (wfusync_remove_server_waiter s sync))"
| set_event: "\<lbrakk>wfu_reachable s; at_slot s sync INPROC_SYNC_EVENT; wfusync_set_event s sync = Some s'\<rbrakk> \<Longrightarrow> wfu_reachable s'"
| reset_event: "\<lbrakk>wfu_reachable s; at_slot s sync INPROC_SYNC_EVENT; wfusync_reset_event s sync = Some s'\<rbrakk> \<Longrightarrow> wfu_reachable s'"
| event_satisfied: "\<lbrakk>wfu_reachable s; at_slot s sync INPROC_SYNC_EVENT; wfusync_event_satisfied s sync = Some s'\<rbrakk> \<Longrightarrow> wfu_reachable s'"
| semaphore_satisfied: "\<lbrakk>wfu_reachable s; at_slot s sync INPROC_SYNC_SEMAPHORE; wfusync_semaphore_satisfied s sync = Some s'\<rbrakk> \<Longrightarrow>
   wfu_reachable s'"
| release_semaphore: "\<lbrakk>wfu_reachable s; at_slot s sync INPROC_SYNC_SEMAPHORE; count < 2 ^ 32;
     wfusync_release_semaphore s sync count = Some (s1, r)\<rbrakk> \<Longrightarrow>
   wfu_reachable (if r = Released 0 then fst (wfusync_wake_waiters s1 (shm_idx sync)) else s1)"
| mutex_satisfied: "\<lbrakk>wfu_reachable s; at_slot s sync INPROC_SYNC_MUTEX; high (the_slot s sync) < INT_MAX;
     wfusync_mutex_satisfied s sync tid = Some (s', r)\<rbrakk> \<Longrightarrow> wfu_reachable s'"
| release_mutex: "\<lbrakk>wfu_reachable s; at_slot s sync INPROC_SYNC_MUTEX; wfusync_release_mutex s sync tid = Some (s1, r)\<rbrakk> \<Longrightarrow>
   wfu_reachable (if r = Released 1 then fst (wfusync_wake_waiters s1 (shm_idx sync)) else s1)"
| abandon_mutex: "\<lbrakk>wfu_reachable s; at_slot s sync INPROC_SYNC_MUTEX; wfusync_abandon_mutex s sync tid = Some (s1, ok)\<rbrakk> \<Longrightarrow>
   wfu_reachable (if ok then fst (wfusync_wake_waiters s1 (shm_idx sync)) else s1)"
| try_wait_all: "\<lbrakk>wfu_reachable s; wfusync_try_wait_all s es tid = (s', status)\<rbrakk> \<Longrightarrow> wfu_reachable s'"

lemma wfu_inv_start:
  "wfu_inv (shm_start p)"
  by (simp add: shm_start_def wfu_inv_but_def wfu_rest_def counts_are_def multi_count_def waiting_for_def zero_state_def slot_ranges_def
      get_state_type_def waitable_type_def type_codes slot_mapped_def)

lemma event_code [simp]: "event_type INPROC_SYNC_EVENT"
  by (simp add: event_type_def)

lemma wfu_reachable_inv: "wfu_reachable s \<Longrightarrow> wfu_inv s"
proof (induction rule: wfu_reachable.induct)
  case (start p)
  then show ?case by (rule wfu_inv_start)
next
  case (set_event s sync s')
  then show ?case using set_event_inv by fastforce
next
  case (reset_event s sync s')
  then show ?case using event_low_inv[of s sync] event_state_eq(4)[of s sync] by fastforce
next
  case (event_satisfied s sync s')
  then show ?case using event_low_inv[of s sync] event_state_eq(3)[of s sync] by (fastforce split: if_splits)
next
  case (semaphore_satisfied s sync s')
  then show ?case using semaphore_satisfied_inv[of s sync] by simp
next
  case (wake s i)
  then show ?case using wfu_inv_wake_waiters[of "{}" s i] by simp
next
  case (release_semaphore s sync count s1 r)
  show ?case by (rule semaphore_release_inv[OF release_semaphore.IH release_semaphore.hyps(2-4)])
next
  case (mutex_satisfied s sync tid s' r)
  show ?case by (rule mutex_satisfied_inv[OF mutex_satisfied.IH mutex_satisfied.hyps(2-4)])
next
  case (release_mutex s sync tid s1 r)
  show ?case by (rule mutex_release_inv[OF release_mutex.IH release_mutex.hyps(2,3)])
next
  case (abandon_mutex s sync tid s1 ok)
  show ?case by (rule mutex_abandon_inv[OF abandon_mutex.IH abandon_mutex.hyps(2,3)])
next
  case (try_wait_all s es tid s' status)
  show ?case by (rule try_wait_all_inv[OF try_wait_all.IH try_wait_all.hyps(2)])
next
  case (create s t l h m a b)
  show ?case by (rule create_inv[OF create.IH create.hyps(2-4)])
next
  case (wait_slot s a b)
  show ?case by (rule wait_slot_inv[OF wait_slot.IH wait_slot.hyps(2)])
next
  case (register s m A slot idxs)
  show ?case by (rule wfu_inv_register[OF register.IH])
next
  case (unregister s slot)
  show ?case by (rule wfu_inv_unregister[OF unregister.IH unregister.hyps(2)])
next
  case (destroy s sync)
  show ?case by (rule destroy_inv[OF destroy.IH destroy.hyps(2)])
next
  case (add_server_waiter s sync)
  show ?case by (rule server_waiter_inv(1)[OF add_server_waiter.IH])
next
  case (remove_server_waiter s sync)
  show ?case by (rule server_waiter_inv(2)[OF remove_server_waiter.IH])
qed

end
