(* ===== verification/WFUSync_Properties.thy ===== *)
theory WFUSync_Properties
  imports WFUSync_Waiters
begin

text \<open>
  Properties of the shared synchronization state.
\<close>

section \<open>Properties\<close>

text \<open>An event, and a client that sleeps in slot 2 until the event is signaled.\<close>

definition shm_example :: shm where
  "shm_example = fst (wfusync_register_wait True (\<lambda>_. True)
     (fst (wfusync_alloc_wait_slot True True (fst (create_wfusync True True True (shm_start 64) 0 0 INPROC_SYNC_EVENT)))) 2 [1])"

lemma shm_example_reachable: "wfu_reachable shm_example"
proof -
  let ?s = "fst (create_wfusync True True True (shm_start 64) 0 0 INPROC_SYNC_EVENT)"
  have "next_shm_idx (shm_start 64) + 1 \<noteq> 0" by code_simp
  then have "wfu_reachable ?s"
    by (intro wfu_reachable.create wfu_reachable.start) (simp_all add: codes_def slot_ranges_def get_state_type_def type_codes type_bits)
  moreover have "next_shm_idx ?s + 1 \<noteq> 0" by code_simp
  ultimately show ?thesis unfolding shm_example_def by (intro wfu_reachable.register wfu_reachable.wait_slot)
qed



lemma acquire_state_cases:
  "acquire_state st tid t = Some st' \<Longrightarrow> t \<in> {2, 3, 4} \<Longrightarrow>
   t = unat INPROC_SYNC_EVENT \<and> low st \<noteq> 0 \<and> st' = (if high st = 0 then st\<lparr>low := 0\<rparr> else st) \<or>
   t = unat INPROC_SYNC_SEMAPHORE \<and> 0 < low st \<and> st' = st\<lparr>low := low st - 1\<rparr> \<or>
   t = unat INPROC_SYNC_MUTEX \<and> low st' = to_int (int tid) \<and>
     (if low st = to_int (int tid) then high st' = high st + 1 else low st \<le> 0 \<and> high st' = 1)"
  by (auto simp: acquire_state_def sync_codes split: if_splits)

text \<open>
  C23: Waiting for all of several objects is atomic.  When \<^verbatim>\<open>wfusync_try_wait_all\<close> reports success, the
  entries name distinct objects, each was signaled for the thread and has been acquired (an
  auto-reset event reset, a semaphore counted down, a mutex taken or entered again), nothing else has
  changed, and the status says whether a mutex had been abandoned; otherwise no state has changed.
\<close>

theorem try_wait_all_atomic:
  assumes "wfusync_try_wait_all s es tid = (s', status)"
  shows "if status = STATUS_WAIT_0 \<or> status = STATUS_ABANDONED_WAIT_0
    then distinct (map fst es) \<and> s' = s\<lparr>states := states s'\<rparr> \<and> (\<forall>i. i \<notin> fst ` set es \<longrightarrow> states s' i = states s i) \<and>
      (\<forall>(i, gen, t) \<in> set es.
         entry_valid (states s i) gen t \<and>
         (t = unat INPROC_SYNC_EVENT \<and> low (states s i) \<noteq> 0 \<and>
            states s' i = (if high (states s i) = 0 then (states s i)\<lparr>low := 0\<rparr> else states s i) \<or>
          t = unat INPROC_SYNC_SEMAPHORE \<and> 0 < low (states s i) \<and> states s' i = (states s i)\<lparr>low := low (states s i) - 1\<rparr> \<or>
          t = unat INPROC_SYNC_MUTEX \<and> low (states s' i) = to_int (int tid) \<and>
            (if low (states s i) = to_int (int tid) then high (states s' i) = high (states s i) + 1
             else low (states s i) \<le> 0 \<and> high (states s' i) = 1))) \<and>
      (status = STATUS_ABANDONED_WAIT_0 \<longleftrightarrow> (\<exists>(i, gen, t) \<in> set es. t = unat INPROC_SYNC_MUTEX \<and> low (states s i) < 0))
    else s' = s"
proof -
  consider "(status = STATUS_WAIT_0 \<or> status = STATUS_ABANDONED_WAIT_0)" "all_acquired s s' es tid"
      "status = STATUS_ABANDONED_WAIT_0 \<longleftrightarrow> (\<exists>(i, gen, t) \<in> set es. t = 3 \<and> low (states s i) < 0)"
      "\<forall>(i, gen, t) \<in> set es. t \<in> {2, 3, 4}"
    | "\<not> (status = STATUS_WAIT_0 \<or> status = STATUS_ABANDONED_WAIT_0)" "s' = s"
    using try_wait_all_cases[OF assms] by auto
  then show ?thesis
  proof cases
    case 1
    have acq: "entry_valid (states s i) gen t \<and>
         (t = unat INPROC_SYNC_EVENT \<and> low (states s i) \<noteq> 0 \<and>
            states s' i = (if high (states s i) = 0 then (states s i)\<lparr>low := 0\<rparr> else states s i) \<or>
          t = unat INPROC_SYNC_SEMAPHORE \<and> 0 < low (states s i) \<and> states s' i = (states s i)\<lparr>low := low (states s i) - 1\<rparr> \<or>
          t = unat INPROC_SYNC_MUTEX \<and> low (states s' i) = to_int (int tid) \<and>
            (if low (states s i) = to_int (int tid) then high (states s' i) = high (states s i) + 1
             else low (states s i) \<le> 0 \<and> high (states s' i) = 1))"
      if m: "(i, gen, t) \<in> set es" for i gen t
    proof -
      have "entry_valid (states s i) gen t" "acquire_state (states s i) tid t = Some (states s' i)"
        using 1(2) m unfolding all_acquired_def by blast+
      moreover have "t \<in> {2, 3, 4}" using 1(4) m by blast
      ultimately show ?thesis using acquire_state_cases by blast
    qed
    have "distinct (map fst es)" "s' = s\<lparr>states := states s'\<rparr>" "\<forall>i. i \<notin> fst ` set es \<longrightarrow> states s' i = states s i"
      using 1(2) unfolding all_acquired_def by blast+
    then show ?thesis using 1(1,3) acq unfolding sync_codes(2) by (simp only: if_True) blast
  next
    case 2
    then show ?thesis by (simp only: if_False)
  qed
qed

theorem try_wait_all_atomic_witness:
  "let s = fst (create_wfusync True True True (fst (create_wfusync True True True (shm_start 64) 1 0 INPROC_SYNC_EVENT)) (-8) 0 INPROC_SYNC_MUTEX);
       (s', status) = wfusync_try_wait_all s [(1, 1, 2), (2, 2, 3)] 12
   in status = STATUS_ABANDONED_WAIT_0 \<and> low (states s' 1) = 0 \<and> low (states s' 2) = 12 \<and> high (states s' 2) = 1"
proof -
  define s where "s = fst (create_wfusync True True True (fst (create_wfusync True True True (shm_start 64) 1 0 INPROC_SYNC_EVENT)) (-8) 0 INPROC_SYNC_MUTEX)"
  obtain s' status where r: "wfusync_try_wait_all s [(1, 1, 2), (2, 2, 3)] 12 = (s', status)"
    by (cases "wfusync_try_wait_all s [(1, 1, 2), (2, 2, 3)] 12")
  have "snd (wfusync_try_wait_all s [(1, 1, 2), (2, 2, 3)] 12) = STATUS_ABANDONED_WAIT_0" unfolding s_def by code_simp
  then have st: "status = STATUS_ABANDONED_WAIT_0" using r by simp
  have v: "low (states s 2) = -8" "high (states s 1) = 0" unfolding s_def by (code_simp, code_simp)
  have t: "to_int 12 = 12" by code_simp
  have "low (states s' 1) = 0 \<and> low (states s' 2) = 12 \<and> high (states s' 2) = 1"
    using try_wait_all_atomic[OF r] unfolding st by (simp add: sync_codes v t del: One_nat_def)
  then show ?thesis using r st unfolding Let_def s_def[symmetric] by simp
qed

end
