(* ===== verification/Sync_Correct.thy ===== *)
theory Sync_Correct
  imports Sync_Objects WFUSync_Properties
begin

text \<open>
  Events, semaphores and mutexes keep their contract on both paths: an abstract view of each kind, what
  every operation does to it, and mutual exclusion from the interface of a mutex.
\<close>

section \<open>The interface of a mutex\<close>

text \<open>
  A mutex has an owner and a recursion count.  A thread acquires it when it is free or its own, and
  only the owner releases it.  Counts stay below a limit in the runs considered.
\<close>

datatype mutex_op = Acquire nat | Release nat

locale mutex_interface =
  fixes ok :: "'s \<Rightarrow> bool"
    and thread :: "nat \<Rightarrow> bool"
    and limit :: nat
    and holder :: "'s \<Rightarrow> nat"
    and depth :: "'s \<Rightarrow> nat"
    and acquire :: "'s \<Rightarrow> nat \<Rightarrow> 's option"
    and release :: "'s \<Rightarrow> nat \<Rightarrow> 's option"
  assumes acquire_iff: "ok s \<Longrightarrow> thread t \<Longrightarrow> depth s < limit \<Longrightarrow> acquire s t \<noteq> None \<longleftrightarrow> depth s = 0 \<or> holder s = t"
    and acquire_step: "ok s \<Longrightarrow> thread t \<Longrightarrow> depth s < limit \<Longrightarrow> acquire s t = Some s' \<Longrightarrow>
      ok s' \<and> holder s' = t \<and> depth s' = depth s + 1"
    and release_iff: "ok s \<Longrightarrow> thread t \<Longrightarrow> release s t \<noteq> None \<longleftrightarrow> depth s \<noteq> 0 \<and> holder s = t"
    and release_step: "ok s \<Longrightarrow> thread t \<Longrightarrow> release s t = Some s' \<Longrightarrow>
      ok s' \<and> depth s' = depth s - 1 \<and> (depth s' \<noteq> 0 \<longrightarrow> holder s' = t)"
begin

text \<open>The state after operations of several threads; \<open>None\<close> when one must wait or is refused.\<close>

fun run :: "'s \<Rightarrow> mutex_op list \<Rightarrow> 's option" where
  "run s [] = Some s"
| "run s (Acquire t # os) = (case acquire s t of None \<Rightarrow> None | Some s' \<Rightarrow> run s' os)"
| "run s (Release t # os) = (case release s t of None \<Rightarrow> None | Some s' \<Rightarrow> run s' os)"

definition held :: "'s \<Rightarrow> nat \<Rightarrow> int" where
  "held s t = (if holder s = t then int (depth s) else 0)"

definition balance :: "mutex_op list \<Rightarrow> nat \<Rightarrow> int" where
  "balance os t = int (count_list os (Acquire t)) - int (count_list os (Release t))"

lemma balance_simps [simp]:
  "balance [] t = 0"
  "balance (Acquire u # os) t = (if u = t then 1 else 0) + balance os t"
  "balance (Release u # os) t = balance os t - (if u = t then 1 else 0)"
  by (simp_all add: balance_def)

definition threads_ok :: "mutex_op list \<Rightarrow> bool" where
  "threads_ok os = (\<forall>t. Acquire t \<in> set os \<or> Release t \<in> set os \<longrightarrow> thread t)"

lemma run_balance:
  "\<lbrakk>ok s; threads_ok os; depth s + length os \<le> limit; run s os = Some s'\<rbrakk> \<Longrightarrow>
   ok s' \<and> (\<forall>t. thread t \<longrightarrow> held s' t = held s t + balance os t)"
proof (induction s os rule: run.induct)
  case (1 s)
  then show ?case by simp
next
  case (2 s t os)
  obtain s1 where a: "acquire s t = Some s1" and r: "run s1 os = Some s'" using "2.prems"(4) by (auto split: option.splits)
  have th: "thread t" "threads_ok os" using "2.prems"(2) by (auto simp: threads_ok_def)
  have d: "depth s < limit" using "2.prems"(3) by simp
  note st = acquire_step[OF "2.prems"(1) th(1) d a]
  have "depth s = 0 \<or> holder s = t" using acquire_iff[OF "2.prems"(1) th(1) d] a by simp
  then have "held s1 u = held s u + (if t = u then 1 else 0)" for u using st by (auto simp: held_def)
  then show ?case using "2.IH"[OF a _ th(2) _ r] st "2.prems"(3) by simp
next
  case (3 s t os)
  obtain s1 where a: "release s t = Some s1" and r: "run s1 os = Some s'" using "3.prems"(4) by (auto split: option.splits)
  have th: "thread t" "threads_ok os" using "3.prems"(2) by (auto simp: threads_ok_def)
  note st = release_step[OF "3.prems"(1) th(1) a]
  have "depth s \<noteq> 0 \<and> holder s = t" using release_iff[OF "3.prems"(1) th(1)] a by simp
  then have "held s1 u = held s u - (if t = u then 1 else 0)" for u
    using st by (cases "depth s1 = 0") (auto simp: held_def)
  then show ?case using "3.IH"[OF a _ th(2) _ r] st "3.prems"(3) by simp
qed

text \<open>At most one thread is inside, and every other one has to wait.\<close>

lemma run_exclusive:
  assumes "ok s" "depth s = 0" "threads_ok os" "length os < limit" "run s os = Some s'" "thread t" "thread u" "0 < balance os t" "u \<noteq> t"
  shows "balance os u = 0 \<and> acquire s' u = None \<and> release s' u = None"
proof -
  have R: "ok s'" "held s' v = balance os v" if "thread v" for v
    using run_balance[OF assms(1,3) _ assms(5)] assms(2,4) that by (auto simp: held_def)
  have h: "holder s' = t" "0 < depth s'" using R(2)[OF assms(6)] assms(8) by (auto simp: held_def split: if_splits)
  have len: "depth s' < limit"
  proof -
    have "int (depth s') = balance os t" using R(2)[OF assms(6)] h by (simp add: held_def)
    moreover have "balance os t \<le> int (length os)" 
      using count_le_length[of os "Acquire t"] by (simp add: balance_def)
    ultimately show ?thesis using assms(4) by simp
  qed
  have "acquire s' u = None" "release s' u = None"
    using acquire_iff[OF R(1)[OF assms(7)] assms(7) len] release_iff[OF R(1)[OF assms(7)] assms(7)] h assms(9) by auto
  then show ?thesis using R(2)[OF assms(7)] h assms(9) by (simp add: held_def)
qed

end

section \<open>Both paths of a mutex are such a mutex\<close>

text \<open>Owner, recursion count and whether the last owner left it abandoned.\<close>

definition mutex_view :: "shm \<Rightarrow> mutex_sync \<Rightarrow> nat \<times> nat \<times> bool" where
  "mutex_view s m =
     (case mutex_wfusync m of
        None \<Rightarrow> (owner m, mutex_count m, abandoned m)
      | Some w \<Rightarrow> let st = the_slot s w in
          (if 0 < low st then nat (low st) else 0, if low st < 0 then 0 else nat (high st), low st < 0))"

definition thread_id :: "nat \<Rightarrow> bool" where "thread_id t = (0 < t \<and> t < 2 ^ 31)"

definition mutex_ok :: "shm \<Rightarrow> mutex_sync \<Rightarrow> bool" where
  "mutex_ok s m =
     (case mutex_wfusync m of
        None \<Rightarrow> (mutex_count m = 0 \<longleftrightarrow> owner m = 0) \<and> mutex_count m < 2 ^ 31 \<and> (abandoned m \<longrightarrow> mutex_count m = 0)
      | Some w \<Rightarrow> at_slot s w INPROC_SYNC_MUTEX \<and> (let st = the_slot s w in
          0 \<le> high st \<and> high st < 2 ^ 31 \<and> low st < 2 ^ 31 \<and> (0 < low st \<longleftrightarrow> 0 < high st)))"

text \<open>What the operations do to the view.\<close>

definition view_release :: "nat \<times> nat \<times> bool \<Rightarrow> nat \<Rightarrow> (nat \<times> nat \<times> bool) \<times> release \<times> nat option" where
  "view_release v t =
     (let (h, c, a) = v in
      if c = 0 \<or> h \<noteq> t then (v, Refused STATUS_MUTANT_NOT_OWNED, None)
      else if c = 1 then ((0, 0, a), Released 1, Some 0)
      else ((h, c - 1, a), Released c, None))"

lemma to_int_small: "x < 2 ^ 31 \<Longrightarrow> to_int (int x) = int x"
  by (simp add: to_int_def signed_take_bit_int_eq_self)

lemma to_uint_small: "0 \<le> x \<Longrightarrow> x < 2 ^ 31 \<Longrightarrow> to_uint x = nat x"
  by (simp add: to_uint_def)

lemma at_slot_numbers:
  "at_slot s w t \<Longrightarrow> stype st = stype (the_slot s w) \<Longrightarrow> at_slot (set_state s (shm_idx w) st) w t"
  by (simp add: at_slot_def get_state_type_def)

lemma at_slot_wake [simp]: "at_slot (wake_address s i b) w t = at_slot s w t"
  by (simp add: at_slot_def)

lemma mutex_signaled_view:
  assumes "mutex_ok s m" "thread_id t"
  shows "mutex_sync_signaled s m t = Some (s, let (h, c, a) = mutex_view s m in c = 0 \<or> h = t)"
proof (cases "mutex_wfusync m")
  case None
  then show ?thesis by (simp add: mutex_sync_signaled_def mutex_view_def)
next
  case (Some w)
  then have sl: "at_slot s w INPROC_SYNC_MUTEX" and r: "0 \<le> high (the_slot s w)" "low (the_slot s w) < 2 ^ 31"
      "0 < low (the_slot s w) \<longleftrightarrow> 0 < high (the_slot s w)"
    using assms(1) by (auto simp: mutex_ok_def Let_def)
  have "to_int (int t) = int t" "0 < t" using assms(2) by (auto simp: thread_id_def to_int_small)
  then show ?thesis using Some mutex_state_eq(1)[OF sl, of t] r by (auto simp: mutex_sync_signaled_def mutex_view_def Let_def)
qed

lemma mutex_query_view:
  assumes "mutex_ok s m" "thread_id t"
  shows "query_mutex_state s m t = Some (s, Some (let (h, c, a) = mutex_view s m in (c, h = t, a)))"
proof (cases "mutex_wfusync m")
  case None
  then show ?thesis by (simp add: query_mutex_state_def mutex_view_def)
next
  case (Some w)
  then have sl: "at_slot s w INPROC_SYNC_MUTEX" and r: "0 \<le> high (the_slot s w)" "high (the_slot s w) < 2 ^ 31" "low (the_slot s w) < 2 ^ 31"
    using assms(1) by (auto simp: mutex_ok_def Let_def)
  have "to_int (int t) = int t" "0 < t" using assms(2) by (auto simp: thread_id_def to_int_small)
  then show ?thesis
    using Some mutex_state_eq(2)[OF sl, of t] r by (auto simp: query_mutex_state_def mutex_view_def Let_def to_uint_small)
qed

lemma mutex_satisfied_view:
  assumes "mutex_ok s m" "thread_id t" "mutex_view s m = (h, c, a)" "c = 0 \<or> h = t" "c + 1 < 2 ^ 31"
  shows "\<exists>s' m' l. mutex_sync_satisfied s m t = Some (s', m', a, l) \<and> mutex_ok s' m' \<and> mutex_view s' m' = (t, c + 1, False) \<and>
    (mutex_wfusync m' = mutex_wfusync m)"
proof (cases "mutex_wfusync m")
  case None
  then have v: "owner m = h" "mutex_count m = c" "abandoned m = a" using assms(3) by (auto simp: mutex_view_def)
  have "(c = 0 \<longleftrightarrow> h = 0)" using assms(1) None v by (simp add: mutex_ok_def)
  moreover have "(c + 1) mod 2 ^ 32 = c + 1" using assms(5) by simp
  ultimately show ?thesis
    using None v assms(2,4,5) by (auto simp: mutex_sync_satisfied_def do_grab_def mutex_ok_def mutex_view_def thread_id_def Let_def)
next
  case (Some w)
  let ?st = "the_slot s w"
  have sl: "at_slot s w INPROC_SYNC_MUTEX" and r: "0 \<le> high ?st" "high ?st < 2 ^ 31" "low ?st < 2 ^ 31" "0 < low ?st \<longleftrightarrow> 0 < high ?st"
    using assms(1) Some by (auto simp: mutex_ok_def Let_def)
  have t: "to_int (int t) = int t" "0 < t" "t < 2 ^ 31" using assms(2) by (auto simp: thread_id_def to_int_small)
  have v: "h = (if 0 < low ?st then nat (low ?st) else 0)" "c = (if low ?st < 0 then 0 else nat (high ?st))" "a = (low ?st < 0)"
    using assms(3) Some by (auto simp: mutex_view_def Let_def)
  show ?thesis
  proof (cases "low ?st = int t")
    case True
    have "to_int (high ?st + 1) = high ?st + 1"
      using assms(5) r v True t by (auto simp: to_int_def signed_take_bit_int_eq_self)
    then have e: "wfusync_mutex_satisfied s w t = Some (set_state s (shm_idx w) (?st\<lparr>high := high ?st + 1\<rparr>), Some False)"
      using mutex_satisfied_eq[OF sl, of t] True t by simp
    have "at_slot (set_state s (shm_idx w) (?st\<lparr>high := high ?st + 1\<rparr>)) w INPROC_SYNC_MUTEX" by (rule at_slot_numbers[OF sl]) simp
    then show ?thesis
      using e Some True t r v assms(5)
      by (auto simp: mutex_sync_satisfied_def mutex_ok_def mutex_view_def Let_def nat_add_distrib)
  next
    case False
    then have lo: "low ?st \<le> 0" using assms(4) v r t by (auto split: if_splits)
    let ?s = "set_state s (shm_idx w) (?st\<lparr>low := int t, high := 1, generation := (if low ?st < 0 then generation ?st + 1 else generation ?st)\<rparr>)"
    have e: "wfusync_mutex_satisfied s w t = Some (?s, Some (low ?st < 0))"
      using mutex_satisfied_eq[OF sl, of t] False t lo by simp
    have "at_slot ?s w INPROC_SYNC_MUTEX" by (rule at_slot_numbers[OF sl]) simp
    moreover have "c = 0" using v lo r by auto
    ultimately show ?thesis
      using e Some t v by (auto simp: mutex_sync_satisfied_def mutex_ok_def mutex_view_def Let_def)
  qed
qed

lemma mutex_release_view:
  assumes "mutex_ok s m" "thread_id t"
  shows "\<exists>s' m'. release_mutex_state s m t = Some (s', m', snd (view_release (mutex_view s m) t)) \<and> mutex_ok s' m' \<and>
    mutex_view s' m' = fst (view_release (mutex_view s m) t) \<and> mutex_wfusync m' = mutex_wfusync m"
proof (cases "mutex_wfusync m")
  case None
  have "nat ((int c - 1) mod 2 ^ 32) = c - 1" if "0 < c" "c < 2 ^ 31" for c :: nat using that by simp
  then show ?thesis
    using None assms
    by (auto simp: release_mutex_state_def do_release_def view_release_def mutex_ok_def mutex_view_def thread_id_def Let_def)
next
  case (Some w)
  let ?st = "the_slot s w"
  have sl: "at_slot s w INPROC_SYNC_MUTEX" and r: "0 \<le> high ?st" "high ?st < 2 ^ 31" "low ?st < 2 ^ 31" "0 < low ?st \<longleftrightarrow> 0 < high ?st"
    using assms(1) Some by (auto simp: mutex_ok_def Let_def)
  have t: "to_int (int t) = int t" "0 < t" "t < 2 ^ 31" using assms(2) by (auto simp: thread_id_def to_int_small)
  have at: "at_slot (set_state s (shm_idx w) (?st\<lparr>high := v\<rparr>)) w INPROC_SYNC_MUTEX"
    "at_slot (set_state s (shm_idx w) (?st\<lparr>high := v, low := u\<rparr>)) w INPROC_SYNC_MUTEX" for u v
    by (rule at_slot_numbers[OF sl]; simp)+
  consider "low ?st \<noteq> int t \<or> high ?st = 0" | "low ?st = int t" "high ?st = 1" | "low ?st = int t" "high ?st > 1"
    using r by fastforce
  then show ?thesis
  proof cases
    case 1
    then have "release_mutex_state s m t = Some (s, m, Refused STATUS_MUTANT_NOT_OWNED, None)"
      using release_mutex_eq[OF sl, of t] t Some by (simp add: release_mutex_state_def)
    moreover have "view_release (mutex_view s m) t = (mutex_view s m, Refused STATUS_MUTANT_NOT_OWNED, None)"
      using 1 r t Some by (auto simp: view_release_def mutex_view_def Let_def)
    ultimately show ?thesis using assms(1) by simp
  next
    case 2
    then show ?thesis
      using release_mutex_eq[OF sl, of t] t Some at(2)[of 0 0]
      by (simp add: release_mutex_state_def view_release_def mutex_view_def mutex_ok_def Let_def to_uint_def)
  next
    case 3
    then show ?thesis
      using release_mutex_eq[OF sl, of t] t r Some at(1)[of "high ?st - 1"]
      by (auto simp: release_mutex_state_def view_release_def mutex_view_def mutex_ok_def Let_def to_uint_small nat_diff_distrib)
  qed
qed

text \<open>What a wait for one mutex does when it need not block, and a release that is accepted.\<close>

definition mutex_acquire :: "shm \<times> mutex_sync \<Rightarrow> nat \<Rightarrow> (shm \<times> mutex_sync) option" where
  "mutex_acquire x t =
     (let (s, m) = x in
      do { (s1, ok) \<leftarrow> mutex_sync_signaled s m t;
           if ok then map_option (\<lambda>(s', m', _). (s', m')) (mutex_sync_satisfied s1 m t) else None })"

definition mutex_drop :: "shm \<times> mutex_sync \<Rightarrow> nat \<Rightarrow> (shm \<times> mutex_sync) option" where
  "mutex_drop x t =
     (let (s, m) = x in
      case release_mutex_state s m t of Some (s', m', Released _, _) \<Rightarrow> Some (s', m') | _ \<Rightarrow> None)"

definition mutex_holder :: "shm \<times> mutex_sync \<Rightarrow> nat" where "mutex_holder x = fst (mutex_view (fst x) (snd x))"
definition mutex_depth :: "shm \<times> mutex_sync \<Rightarrow> nat" where "mutex_depth x = fst (snd (mutex_view (fst x) (snd x)))"

lemma mutex_acquire_eq:
  assumes "mutex_ok s m" "thread_id t" "mutex_view s m = (h, c, a)" "c + 1 < 2 ^ 31"
  shows "if c = 0 \<or> h = t
    then \<exists>s' m'. mutex_acquire (s, m) t = Some (s', m') \<and> mutex_ok s' m' \<and> mutex_view s' m' = (t, c + 1, False)
    else mutex_acquire (s, m) t = None"
  using mutex_signaled_view[OF assms(1,2)] mutex_satisfied_view[OF assms(1-3) _ assms(4)] assms(3)
  by (auto simp: mutex_acquire_def)

lemma mutex_drop_eq:
  assumes "mutex_ok s m" "thread_id t" "mutex_view s m = (h, c, a)"
  shows "if c \<noteq> 0 \<and> h = t
    then \<exists>s' m'. mutex_drop (s, m) t = Some (s', m') \<and> mutex_ok s' m' \<and> mutex_view s' m' = (if c = 1 then 0 else t, c - 1, a)
    else mutex_drop (s, m) t = None"
proof -
  obtain s' m' where r: "release_mutex_state s m t = Some (s', m', snd (view_release (h, c, a) t))" "mutex_ok s' m'"
    "mutex_view s' m' = fst (view_release (h, c, a) t)"
    using mutex_release_view[OF assms(1,2)] assms(3) by auto
  then show ?thesis by (auto simp: mutex_drop_def view_release_def)
qed

interpretation mutexes: mutex_interface "\<lambda>x. mutex_ok (fst x) (snd x)" thread_id "2 ^ 31 - 1" mutex_holder mutex_depth mutex_acquire mutex_drop
proof
  fix x t assume ok: "mutex_ok (fst x) (snd x)" and t: "thread_id t"
  obtain s m where x: "x = (s, m)" by (cases x)
  obtain h c a where v: "mutex_view s m = (h, c, a)" by (cases "mutex_view s m") auto
  note ok' = ok[unfolded x fst_conv snd_conv]
  have hd: "mutex_holder x = h" "mutex_depth x = c" by (simp_all add: mutex_holder_def mutex_depth_def x v)
  note A = mutex_acquire_eq[OF ok' t v, folded x] and D = mutex_drop_eq[OF ok' t v, folded x]
  show "mutex_acquire x t \<noteq> None \<longleftrightarrow> mutex_depth x = 0 \<or> mutex_holder x = t" if "mutex_depth x < 2 ^ 31 - 1"
    using A that unfolding hd by (auto split: if_splits)
  show "mutex_ok (fst x') (snd x') \<and> mutex_holder x' = t \<and> mutex_depth x' = mutex_depth x + 1"
    if "mutex_depth x < 2 ^ 31 - 1" "mutex_acquire x t = Some x'" for x'
    using A that unfolding hd by (auto simp: mutex_holder_def mutex_depth_def split: if_splits)
  show "mutex_drop x t \<noteq> None \<longleftrightarrow> mutex_depth x \<noteq> 0 \<and> mutex_holder x = t"
    using D unfolding hd by (auto split: if_splits)
  show "mutex_ok (fst x') (snd x') \<and> mutex_depth x' = mutex_depth x - 1 \<and> (mutex_depth x' \<noteq> 0 \<longrightarrow> mutex_holder x' = t)"
    if "mutex_drop x t = Some x'" for x'
    using D that unfolding hd by (auto simp: mutex_holder_def mutex_depth_def split: if_splits)
qed

section \<open>Semaphores and events\<close>

definition semaphore_ok :: "shm \<Rightarrow> semaphore_sync \<Rightarrow> bool" where
  "semaphore_ok s m =
     (case sem_wfusync m of
        None \<Rightarrow> sem_count m \<le> sem_max m \<and> sem_max m < 2 ^ 31
      | Some w \<Rightarrow> at_slot s w INPROC_SYNC_SEMAPHORE \<and> 0 \<le> low (the_slot s w) \<and> low (the_slot s w) \<le> high (the_slot s w) \<and>
          high (the_slot s w) < 2 ^ 31)"

definition semaphore_view :: "shm \<Rightarrow> semaphore_sync \<Rightarrow> nat \<times> nat" where
  "semaphore_view s m =
     (case sem_wfusync m of None \<Rightarrow> (sem_count m, sem_max m)
      | Some w \<Rightarrow> (nat (low (the_slot s w)), nat (high (the_slot s w))))"

lemma at_slot_low: "at_slot s w t \<Longrightarrow> at_slot (set_low s (shm_idx w) v) w t"
  by (simp add: set_low_def at_slot_numbers)

lemma set_low_slot [simp]: "the_slot (set_low s (shm_idx w) v) w = (the_slot s w)\<lparr>low := v\<rparr>"
  by (simp add: set_low_def)

lemma semaphore_state_view:
  assumes "semaphore_ok s m" "semaphore_view s m = (c, mx)"
  shows "semaphore_sync_signaled s m = Some (s, 0 < c) \<and> query_semaphore_state s m = Some (s, Some (c, mx))"
proof (cases "sem_wfusync m")
  case None
  then show ?thesis using assms by (auto simp: semaphore_view_def semaphore_sync_signaled_def query_semaphore_state_def)
next
  case (Some w)
  then have "at_slot s w INPROC_SYNC_SEMAPHORE" "low (the_slot s w) = int c" "high (the_slot s w) = int mx" "c < 2 ^ 31" "mx < 2 ^ 31"
    using assms by (auto simp: semaphore_ok_def semaphore_view_def)
  then show ?thesis
    using Some semaphore_state_eq(1,3) by (simp add: semaphore_sync_signaled_def query_semaphore_state_def to_uint_small)
qed

lemma semaphore_satisfied_view:
  assumes "semaphore_ok s m" "semaphore_view s m = (c, mx)" "0 < c"
  shows "\<exists>s' m'. semaphore_sync_satisfied s m = Some (s', m') \<and> semaphore_ok s' m' \<and> semaphore_view s' m' = (c - 1, mx)"
proof (cases "sem_wfusync m")
  case None
  then show ?thesis using assms by (auto simp: semaphore_ok_def semaphore_view_def semaphore_sync_satisfied_def)
next
  case (Some w)
  then have sl: "at_slot s w INPROC_SYNC_SEMAPHORE" and v: "low (the_slot s w) = int c" "high (the_slot s w) = int mx" "c \<le> mx" "mx < 2 ^ 31"
    using assms by (auto simp: semaphore_ok_def semaphore_view_def)
  let ?s = "set_low s (shm_idx w) (int c - 1)"
  have "semaphore_sync_satisfied s m = Some (?s, m)"
    using Some semaphore_state_eq(2)[OF sl] v assms(3) by (simp add: semaphore_sync_satisfied_def)
  moreover have "semaphore_ok ?s m \<and> semaphore_view ?s m = (c - 1, mx)"
    using Some v at_slot_low[OF sl] assms(3) by (auto simp: semaphore_ok_def semaphore_view_def)
  ultimately show ?thesis by blast
qed

text \<open>What a release does to the view.\<close>

definition view_add :: "nat \<times> nat \<Rightarrow> nat \<Rightarrow> (nat \<times> nat) \<times> release \<times> nat option" where
  "view_add v n =
     (let (c, mx) = v in
      if c + n \<le> mx then ((c + n, mx), Released c, if c = 0 then Some n else None)
      else (v, Refused STATUS_SEMAPHORE_LIMIT_EXCEEDED, None))"

lemma semaphore_release_view:
  assumes "semaphore_ok s m" "n < 2 ^ 31"
  shows "\<exists>s' m'. release_semaphore_state s m n = Some (s', m', snd (view_add (semaphore_view s m) n)) \<and> semaphore_ok s' m' \<and>
    semaphore_view s' m' = fst (view_add (semaphore_view s m) n)"
proof (cases "sem_wfusync m")
  case None
  then have v: "semaphore_view s m = (sem_count m, sem_max m)" "sem_count m \<le> sem_max m" "sem_max m < 2 ^ 31"
    using assms by (auto simp: semaphore_ok_def semaphore_view_def)
  then have "(sem_count m + n) mod 2 ^ 32 = sem_count m + n" using assms(2) by simp
  then show ?thesis
    using None v by (auto simp: release_semaphore_state_def semaphore_ok_def semaphore_view_def view_add_def Let_def)
next
  case (Some w)
  obtain c mx where cm: "semaphore_view s m = (c, mx)" by (cases "semaphore_view s m")
  have sl: "at_slot s w INPROC_SYNC_SEMAPHORE" and v: "low (the_slot s w) = int c" "high (the_slot s w) = int mx" "c \<le> mx" "mx < 2 ^ 31"
    using assms(1) Some cm by (auto simp: semaphore_ok_def semaphore_view_def)
  have u: "to_uint (int c) = c" "to_uint (int mx) = mx" using v by (simp_all add: to_uint_small)
  have new: "(c + n) mod 2 ^ 32 = c + n" using assms(2) v by simp
  note e = release_semaphore_eq[OF sl, of n, unfolded v u new Let_def]
  show ?thesis
  proof (cases "c + n \<le> mx")
    case True
    then have ti: "to_int (int (c + n)) = int (c + n)" using v by (intro to_int_small) simp
    let ?s1 = "set_low s (shm_idx w) (int (c + n))"
    let ?s = "if c = 0 then wake_address ?s1 (shm_idx w) (1 < n) else ?s1"
    have "semaphore_ok ?s m" "semaphore_view ?s m = (c + n, mx)"
      using Some at_slot_low[OF sl] True v by (auto simp: semaphore_ok_def semaphore_view_def nat_add_distrib)
    moreover have "release_semaphore_state s m n = Some (?s, m, Released c, if c = 0 then Some n else None)"
      using e True ti Some by (auto simp: release_semaphore_state_def)
    ultimately show ?thesis using True cm by (auto simp: view_add_def)
  next
    case False
    then have "release_semaphore_state s m n = Some (s, m, Refused STATUS_SEMAPHORE_LIMIT_EXCEEDED, None)"
      using e Some by (simp add: release_semaphore_state_def)
    then show ?thesis using False assms cm by (auto simp: view_add_def)
  qed
qed

definition event_ok :: "shm \<Rightarrow> event_sync \<Rightarrow> bool" where
  "event_ok s e =
     (case event_wfusync e of None \<Rightarrow> True
      | Some w \<Rightarrow> at_slot s w INPROC_SYNC_EVENT \<and> (manual e \<longleftrightarrow> high (the_slot s w) \<noteq> 0) \<and>
          shm_idx w \<notin> slot_idx ` set (wfusync_waiters s))"

definition event_view :: "shm \<Rightarrow> event_sync \<Rightarrow> bool \<times> bool" where
  "event_view s e = (manual e, case event_wfusync e of None \<Rightarrow> signaled e | Some w \<Rightarrow> low (the_slot s w) \<noteq> 0)"

lemma event_set_low:
  assumes "event_ok s e" "event_wfusync e = Some w"
  shows "event_ok (set_low s (shm_idx w) v) (e\<lparr>signaled := b\<rparr>) \<and> event_view (set_low s (shm_idx w) v) (e\<lparr>signaled := b\<rparr>) = (manual e, v \<noteq> 0)"
  using assms at_slot_low[of s w INPROC_SYNC_EVENT v] by (auto simp: event_ok_def event_view_def set_low_def)

lemma event_wakes [simp]:
  "event_ok (wake_address s i b) e = event_ok s e" "event_view (wake_address s i b) e = event_view s e"
  by (auto simp: event_ok_def event_view_def split: option.splits)

lemma event_wake_waiters:
  assumes "event_ok s e" "event_wfusync e = Some w"
  shows "event_ok (wake_waiters_for_object s i) e \<and> event_view (wake_waiters_for_object s i) e = event_view s e"
proof -
  have "shm_idx w \<notin> slot_idx ` set (wfusync_waiters s)" using assms by (simp add: event_ok_def)
  then have "\<not> (\<exists>v \<in> set (wfusync_waiters s). i \<in> set (shm_idxs v) \<and> slot_idx v = shm_idx w \<and> slot_mapped s (shm_idx w))" by force
  then have "the_slot (wake_waiters_for_object s i) w = the_slot s w"
    using wake_waiters_states[of i s "wfusync_waiters s" "shm_idx w"] by (auto simp: wake_waiters_for_object_def)
  moreover have "wfusync_waiters (wake_waiters_for_object s i) = wfusync_waiters s"
    "slot_mapped (wake_waiters_for_object s i) (shm_idx w) = slot_mapped s (shm_idx w)"
    using wake_waiters_states[of i s "wfusync_waiters s" "shm_idx w"] by (simp_all add: wake_waiters_for_object_def)
  ultimately show ?thesis using assms by (simp add: event_ok_def event_view_def at_slot_def)
qed

lemma event_signal_view:
  assumes "event_ok s e"
  shows "\<exists>s' e' n. event_sync_signal_state s e b = Some (s', e', n) \<and> event_ok s' e' \<and> event_view s' e' = (manual e, b) \<and>
    (b \<longrightarrow> n = Some (if manual e then 0 else 1))"
proof (cases "event_wfusync e")
  case None
  then show ?thesis by (auto simp: event_sync_signal_state_def event_ok_def event_view_def Let_def)
next
  case (Some w)
  then have sl: "at_slot s w INPROC_SYNC_EVENT" using assms by (simp add: event_ok_def)
  note low = event_set_low[OF assms Some]
  have w: "event_ok (wake_waiters_for_object s1 i) (e\<lparr>signaled := True\<rparr>) \<and>
      event_view (wake_waiters_for_object s1 i) (e\<lparr>signaled := True\<rparr>) = (manual e, True)"
    if "s1 \<in> {set_low s (shm_idx w) 1, wake_address (set_low s (shm_idx w) 1) (shm_idx w) c}" for s1 i c
    using that event_wake_waiters[of s1 "e\<lparr>signaled := True\<rparr>" w i] low[of 1 True] Some by auto
  show ?thesis
    using Some low[of 0 False] event_state_eq(4)[OF sl] set_event_eq[OF sl] w
    by (cases b) (auto simp: event_sync_signal_state_def Let_def)
qed

lemma event_satisfied_view:
  assumes "event_ok s e" "event_view s e = (m, b)"
  shows "\<exists>s' e'. event_sync_satisfied s e = Some (s', e') \<and> event_ok s' e' \<and> event_view s' e' = (m, m \<and> b)"
proof (cases "event_wfusync e")
  case None
  then show ?thesis using assms by (auto simp: event_sync_satisfied_def event_ok_def event_view_def)
next
  case (Some w)
  then have sl: "at_slot s w INPROC_SYNC_EVENT" "manual e \<longleftrightarrow> high (the_slot s w) \<noteq> 0" using assms by (simp_all add: event_ok_def)
  show ?thesis
    using Some event_state_eq(3)[OF sl(1)] event_set_low[OF assms(1) Some, of 0 False] sl(2) assms
    by (cases "manual e") (auto simp: event_sync_satisfied_def event_view_def)
qed

lemma event_state_view:
  assumes "event_ok s e" "event_view s e = (m, b)"
  shows "event_sync_signaled s e = Some (s, b) \<and> (\<exists>x y. query_event_state s e = Some (s, x, y) \<and> (x \<noteq> 0 \<longleftrightarrow> m) \<and> (y \<noteq> 0 \<longleftrightarrow> b))"
proof (cases "event_wfusync e")
  case None
  then show ?thesis using assms by (auto simp: event_sync_signaled_def query_event_state_def event_view_def int_of_bool_def)
next
  case (Some w)
  then have "at_slot s w INPROC_SYNC_EVENT" using assms by (simp add: event_ok_def)
  then show ?thesis
    using assms Some event_state_eq(1,2) by (auto simp: event_sync_signaled_def query_event_state_def event_view_def event_ok_def)
qed

lemma mutex_abandon_view:
  assumes "mutex_ok s m" "thread_id t" "mutex_view s m = (t, c, a)"
  shows "\<exists>s' m'. abandon_mutex_state s m t = Some (s', m', True, Some 0) \<and> mutex_ok s' m' \<and> mutex_view s' m' = (0, 0, True)"
proof (cases "mutex_wfusync m")
  case None
  then show ?thesis
    using assms by (auto simp: abandon_mutex_state_def do_release_def mutex_ok_def mutex_view_def thread_id_def Let_def)
next
  case (Some w)
  let ?st = "the_slot s w"
  have sl: "at_slot s w INPROC_SYNC_MUTEX" and r: "0 \<le> high ?st" "0 < low ?st \<longleftrightarrow> 0 < high ?st"
    using assms(1) Some by (auto simp: mutex_ok_def Let_def)
  have t: "to_int (int t) = int t" "0 < t" using assms(2) by (auto simp: thread_id_def to_int_small)
  have l: "low ?st = int t" using assms(3) t Some by (auto simp: mutex_view_def Let_def split: if_splits)
  have "at_slot (set_state s (shm_idx w) (?st\<lparr>low := v, high := 0, generation := g\<rparr>)) w INPROC_SYNC_MUTEX" for v g
    by (rule at_slot_numbers[OF sl]) simp
  then show ?thesis
    using Some abandon_mutex_eq[OF sl, of t] r t l
    by (auto simp: abandon_mutex_state_def mutex_ok_def mutex_view_def Let_def)
qed

section \<open>Properties\<close>

text \<open>
  C24: A mutex behaves the same whether its state is in the server or in a shared slot: all its
  operations are determined by its owner, recursion count and abandoned mark.  It is signaled for a
  thread exactly when it is free or the thread's own; acquiring it counts up and clears the
  mark, which the wait reports; a release is refused to every thread but the owner, counts down and
  frees the mutex at 0, waking all waiters; abandoning it frees and marks it.
\<close>

theorem mutex_refines:
  assumes "mutex_ok s m" "thread_id t" "mutex_view s m = (h, c, a)" "c + 1 < 2 ^ 31"
  shows "mutex_sync_signaled s m t = Some (s, c = 0 \<or> h = t) \<and>
    query_mutex_state s m t = Some (s, Some (c, h = t, a)) \<and>
    (c = 0 \<or> h = t \<longrightarrow>
      (\<exists>s' m' l. mutex_sync_satisfied s m t = Some (s', m', a, l) \<and> mutex_ok s' m' \<and> mutex_view s' m' = (t, c + 1, False))) \<and>
    (\<exists>s' m'. release_mutex_state s m t = Some (s', m', snd (view_release (h, c, a) t)) \<and> mutex_ok s' m' \<and>
      mutex_view s' m' = fst (view_release (h, c, a) t)) \<and>
    (h = t \<longrightarrow> (\<exists>s' m'. abandon_mutex_state s m t = Some (s', m', True, Some 0) \<and> mutex_ok s' m' \<and> mutex_view s' m' = (0, 0, True)))"
  using mutex_signaled_view[OF assms(1,2)] mutex_query_view[OF assms(1,2)] mutex_satisfied_view[OF assms(1-3) _ assms(4)]
    mutex_release_view[OF assms(1,2)] mutex_abandon_view[OF assms(1,2)] assms(3) by auto

text \<open>A mutex in slot 1 that no thread owns.\<close>

definition mutex_example :: "shm \<times> mutex_sync" where
  "mutex_example = (let (s, w) = create_wfusync True True True (shm_start 64) 0 0 INPROC_SYNC_MUTEX
     in (s, \<lparr>owner = 0, mutex_count = 0, abandoned = False, mutex_wfusync = w\<rparr>))"

lemma mutex_example_ok:
  "mutex_ok (fst mutex_example) (snd mutex_example)" "mutex_view (fst mutex_example) (snd mutex_example) = (0, 0, False)"
  unfolding mutex_ok_def mutex_view_def at_slot_def slot_mapped_def by (code_simp, code_simp)

theorem mutex_refines_witness:
  "\<exists>s' m' l. mutex_sync_satisfied (fst mutex_example) (snd mutex_example) 12 = Some (s', m', False, l) \<and>
     mutex_view s' m' = (12, 1, False)"
  using mutex_refines[OF mutex_example_ok(1), of 12 0 0 False] mutex_example_ok(2) by (auto simp: thread_id_def)

text \<open>
  C25: Mutual exclusion: after any sequence of waits and releases by several threads that starts with
  a free mutex, when some thread has acquired it more often than it has released it, every other thread
  has released it as often as acquired, and is made to wait by a further wait and refused a release.
\<close>

theorem mutex_exclusion:
  assumes "mutex_ok s m" "mutex_depth (s, m) = 0" "mutexes.threads_ok os" "length os < 2 ^ 31 - 1"
    and "mutexes.run (s, m) os = Some x" "thread_id t" "thread_id u" "u \<noteq> t" "0 < mutexes.balance os t"
  shows "mutexes.balance os u = 0 \<and> mutex_acquire x u = None \<and> mutex_drop x u = None"
  using mutexes.run_exclusive[of "(s, m)" os x t u] assms by simp

theorem mutex_exclusion_witness:
  "mutex_acquire (the (mutexes.run mutex_example [Acquire 12, Acquire 12, Release 12])) 16 = None"
proof -
  have th: "mutexes.threads_ok [Acquire 12, Acquire 12, Release 12]" by (auto simp: mutexes.threads_ok_def thread_id_def)
  have b: "0 < mutexes.balance [Acquire 12, Acquire 12, Release 12] 12" by simp
  have "\<not> Option.is_none (mutexes.run mutex_example [Acquire 12, Acquire 12, Release 12])"
    unfolding mutexes.run.simps by code_simp
  then obtain x where x: "mutexes.run mutex_example [Acquire 12, Acquire 12, Release 12] = Some x"
    by (auto simp: Option.is_none_def)
  have "mutex_depth mutex_example = 0" using mutex_example_ok(2) by (simp add: mutex_depth_def)
  then show ?thesis
    using mutex_exclusion[OF mutex_example_ok(1) _ th, of x 12 16] x b by (simp add: thread_id_def)
qed

text \<open>
  C26: A semaphore behaves the same in the server and in a shared slot: it is signaled while its
  count is positive, a satisfied wait counts down, and a release adds its count, reporting the previous
  one and waking that many waiters when it was 0, unless the sum exceeds the maximum, when nothing
  changes.  So the count never exceeds the maximum.
\<close>

theorem semaphore_refines:
  assumes "semaphore_ok s m" "semaphore_view s m = (c, mx)" "n < 2 ^ 31"
  shows "c \<le> mx \<and> semaphore_sync_signaled s m = Some (s, 0 < c) \<and> query_semaphore_state s m = Some (s, Some (c, mx)) \<and>
    (0 < c \<longrightarrow> (\<exists>s' m'. semaphore_sync_satisfied s m = Some (s', m') \<and> semaphore_ok s' m' \<and> semaphore_view s' m' = (c - 1, mx))) \<and>
    (\<exists>s' m'. release_semaphore_state s m n = Some (s', m', snd (view_add (c, mx) n)) \<and> semaphore_ok s' m' \<and>
      semaphore_view s' m' = fst (view_add (c, mx) n))"
proof -
  have "c \<le> mx" using assms(1,2) by (auto simp: semaphore_ok_def semaphore_view_def split: option.splits)
  then show ?thesis
    using semaphore_state_view[OF assms(1,2)] semaphore_satisfied_view[OF assms(1,2)] semaphore_release_view[OF assms(1,3)] assms(2)
    by simp
qed

definition semaphore_example :: "shm \<times> semaphore_sync" where
  "semaphore_example = (let (s, w) = create_wfusync True True True (shm_start 64) 1 3 INPROC_SYNC_SEMAPHORE
     in (s, \<lparr>sem_count = 1, sem_max = 3, sem_wfusync = w\<rparr>))"

theorem semaphore_refines_witness:
  "\<exists>s' m'. release_semaphore_state (fst semaphore_example) (snd semaphore_example) 3 =
     Some (s', m', Refused STATUS_SEMAPHORE_LIMIT_EXCEEDED, None) \<and> semaphore_view s' m' = (1, 3)"
proof -
  have "semaphore_ok (fst semaphore_example) (snd semaphore_example)"
    "semaphore_view (fst semaphore_example) (snd semaphore_example) = (1, 3)"
    unfolding semaphore_ok_def semaphore_view_def at_slot_def slot_mapped_def by (code_simp, code_simp)
  from semaphore_refines[OF this, of 3] show ?thesis by (auto simp: view_add_def)
qed

text \<open>
  An event behaves the same in the server and in a shared slot: setting and resetting it decide
  whether it is signaled, whatever it was before, an event being set wakes one server waiter or, when it
  is reset by hand, all; a satisfied wait resets it unless it is reset by hand.
\<close>

theorem event_refines:
  assumes "event_ok s e" "event_view s e = (m, b)"
  shows "event_sync_signaled s e = Some (s, b) \<and>
    (\<exists>x y. query_event_state s e = Some (s, x, y) \<and> (x \<noteq> 0 \<longleftrightarrow> m) \<and> (y \<noteq> 0 \<longleftrightarrow> b)) \<and>
    (\<exists>s' e'. event_sync_satisfied s e = Some (s', e') \<and> event_ok s' e' \<and> event_view s' e' = (m, m \<and> b)) \<and>
    (\<exists>s' e'. event_sync_signal_state s e True = Some (s', e', Some (if m then 0 else 1)) \<and> event_ok s' e' \<and> event_view s' e' = (m, True)) \<and>
    (\<exists>s' e' n. event_sync_signal_state s e False = Some (s', e', n) \<and> event_ok s' e' \<and> event_view s' e' = (m, False))"
proof -
  have "manual e = m" using assms(2) by (simp add: event_view_def)
  then show ?thesis
    using event_state_view[OF assms] event_satisfied_view[OF assms] event_signal_view[OF assms(1), of True]
      event_signal_view[OF assms(1), of False] by auto
qed

theorem event_refines_witness:
  "\<exists>s' e'. event_sync_signal_state shm_example \<lparr>manual = False, signaled = False, event_wfusync = Some \<lparr>shm_idx = 1, server_waiters = 0\<rparr>\<rparr> True =
     Some (s', e', Some 1) \<and> event_view s' e' = (False, True)"
proof -
  let ?e = "\<lparr>manual = False, signaled = False, event_wfusync = Some \<lparr>shm_idx = 1, server_waiters = 0\<rparr>\<rparr>"
  have "event_ok shm_example ?e" "event_view shm_example ?e = (False, False)"
    unfolding event_ok_def event_view_def at_slot_def slot_mapped_def by (code_simp, code_simp)
  from event_refines[OF this] show ?thesis by auto
qed

end
