(* ===== verification/Waits.thy ===== *)
theory Waits
  imports Handle_Table Sync_Objects
begin

text \<open>
  Waits, \<^verbatim>\<open>server/thread.c\<close>: the stack of wait structures of each thread, the wait queues of the
  objects, the check of a wait, its end, the wake-up of threads when an object changes, and the
  operations of events, semaphores, mutexes and keyed events that use them.

  An object and its sync object are one address with one reference count.  Writes to the pipe that
  wakes a client succeed and are logged; a write that fails would kill the thread.  A result \<open>None\<close> is
  an assertion that fails, a slot that stays locked, or recursion deeper than the fuel.
\<close>

section \<open>State\<close>

datatype sync = Event event_sync | Semaphore semaphore_sync | Mutex mutex_sync | Keyed_Event | Inproc_Sync

datatype select_opcode =
    SELECT_NONE | SELECT_WAIT | SELECT_WAIT_ALL | SELECT_SIGNAL_AND_WAIT | SELECT_KEYED_EVENT_WAIT | SELECT_KEYED_EVENT_RELEASE

definition SELECT_ALERTABLE :: u32 where "SELECT_ALERTABLE = 1"

definition SELECT_INTERRUPTIBLE :: u32 where "SELECT_INTERRUPTIBLE = 2"

definition SELECT_COOPERATIVE_SUSPEND :: u32 where "SELECT_COOPERATIVE_SUSPEND = 4"

text \<open>
  A wait structure is known by its number.  An entry of an object's wait queue is a thread, the number of
  one of its waits and an index in it; \<open>wobjs\<close> are the objects of the entries.
\<close>

type_synonym queue_entry = "nat \<times> nat \<times> nat"

record thread_wait =
  wid :: nat
  wobjs :: "ptr list"
  select :: select_opcode
  wflags :: u32
  key :: nat
  cookie :: nat
  "when" :: int
  user :: bool

record thread_context =
  cooperative :: bool
  native_flags :: u32
  wow_flags :: u32

text \<open>\<open>waits\<close>: the wait of the thread and those below it.  Of the queues of calls only the length matters here.\<close>

record thread =
  process :: nat
  mutex_list :: "ptr list"
  waits :: "thread_wait list"
  system_apc :: nat
  user_apc :: nat
  ctx :: "thread_context option"
  suspend_cookie :: nat
  suspend :: nat
  bypass_proc_suspend :: bool

text \<open>What ends a wait: the object with an index, such an object abandoned, or another status.\<close>

datatype wait_status = Index nat | Abandoned nat | Code status

record world =
  handles :: server
  shmem :: shm
  syncs :: "ptr \<Rightarrow> sync"
  wait_queue :: "ptr \<Rightarrow> queue_entry list"
  wfusync_mutexes :: "ptr list"
  thread_list :: "nat list"
  thread_of :: "nat \<Rightarrow> thread"
  process_suspend :: "nat \<Rightarrow> nat"
  current :: nat
  current_time :: int
  monotonic_time :: int
  next_wid :: nat
  wakeups :: "(nat \<times> nat \<times> wait_status) list"

definition set_thread :: "world \<Rightarrow> nat \<Rightarrow> thread \<Rightarrow> world" where
  "set_thread s t th = s\<lparr>thread_of := (thread_of s)(t := th)\<rparr>"

definition set_sync :: "world \<Rightarrow> shm \<Rightarrow> ptr \<Rightarrow> sync \<Rightarrow> world" where
  "set_sync s m obj y = s\<lparr>shmem := m, syncs := (syncs s)(obj := y)\<rparr>"

definition set_waits :: "world \<Rightarrow> nat \<Rightarrow> thread_wait list \<Rightarrow> world" where
  "set_waits s t ws = set_thread s t ((thread_of s t)\<lparr>waits := ws\<rparr>)"

abbreviation waits_of :: "world \<Rightarrow> nat \<Rightarrow> thread_wait list" where
  "waits_of s t \<equiv> waits (thread_of s t)"

definition total_waits :: "world \<Rightarrow> nat" where
  "total_waits s = (\<Sum>t\<leftarrow>thread_list s. length (waits_of s t))"

section \<open>References\<close>

definition grab :: "world \<Rightarrow> ptr \<Rightarrow> world" where
  "grab s obj = s\<lparr>handles := grab_object (handles s) obj\<rparr>"

definition sync_destroy :: "world \<Rightarrow> ptr \<Rightarrow> world option" where
  "sync_destroy s obj =
     (case syncs s obj of
        Event e \<Rightarrow> Some (s\<lparr>shmem := event_sync_destroy (shmem s) e\<rparr>)
      | Semaphore m \<Rightarrow> Some (s\<lparr>shmem := semaphore_sync_destroy (shmem s) m\<rparr>)
      | Mutex m \<Rightarrow>
          do { h \<leftarrow> mutex_sync_destroy (shmem s) m;
               Some (s\<lparr>shmem := h,
                 wfusync_mutexes := (if mutex_wfusync m = None then wfusync_mutexes s else remove1 obj (wfusync_mutexes s))\<rparr>) }
      | _ \<Rightarrow> Some s)"

definition release :: "world \<Rightarrow> ptr \<Rightarrow> world option" where
  "release s obj =
     do { h \<leftarrow> release_object (handles s) obj;
          (if kobject.refcount (kobjs h obj) = 0 then sync_destroy (s\<lparr>handles := h\<rparr>) obj else Some (s\<lparr>handles := h\<rparr>)) }"

section \<open>The operations of the objects\<close>

definition add_queue :: "world \<Rightarrow> ptr \<Rightarrow> queue_entry \<Rightarrow> world" where
  "add_queue s obj e = s\<lparr>wait_queue := (wait_queue s)(obj := wait_queue s obj @ [e])\<rparr>"

definition remove_queue :: "world \<Rightarrow> ptr \<Rightarrow> queue_entry \<Rightarrow> world" where
  "remove_queue s obj e = s\<lparr>wait_queue := (wait_queue s)(obj := remove1 e (wait_queue s obj))\<rparr>"

definition object_sync_add_queue :: "world \<Rightarrow> ptr \<Rightarrow> queue_entry \<Rightarrow> world result" where
  "object_sync_add_queue s obj e =
     (case syncs s obj of
        Event v \<Rightarrow> let (m, v') = event_sync_add_queue (shmem s) v in Inr (add_queue (set_sync s m obj (Event v')) obj e)
      | Semaphore v \<Rightarrow> let (m, v') = semaphore_sync_add_queue (shmem s) v in Inr (add_queue (set_sync s m obj (Semaphore v')) obj e)
      | Mutex v \<Rightarrow> let (m, v') = mutex_sync_add_queue (shmem s) v in Inr (add_queue (set_sync s m obj (Mutex v')) obj e)
      | Keyed_Event \<Rightarrow> Inr (add_queue s obj e)
      | Inproc_Sync \<Rightarrow> Inl STATUS_OBJECT_TYPE_MISMATCH)"

definition object_sync_remove_queue :: "world \<Rightarrow> ptr \<Rightarrow> queue_entry \<Rightarrow> world option" where
  "object_sync_remove_queue s obj e =
     (case syncs s obj of
        Event v \<Rightarrow> let (m, v') = event_sync_remove_queue (shmem s) v in Some (remove_queue (set_sync s m obj (Event v')) obj e)
      | Semaphore v \<Rightarrow> let (m, v') = semaphore_sync_remove_queue (shmem s) v in Some (remove_queue (set_sync s m obj (Semaphore v')) obj e)
      | Mutex v \<Rightarrow> let (m, v') = mutex_sync_remove_queue (shmem s) v in Some (remove_queue (set_sync s m obj (Mutex v')) obj e)
      | Keyed_Event \<Rightarrow> Some (remove_queue s obj e)
      | Inproc_Sync \<Rightarrow> None)"

text \<open>The second result: the wait becomes an abandoned one.\<close>

definition object_sync_satisfied :: "world \<Rightarrow> ptr \<Rightarrow> nat \<Rightarrow> (world \<times> bool) option" where
  "object_sync_satisfied s obj t =
     (case syncs s obj of
        Event v \<Rightarrow> map_option (\<lambda>(m, v'). (set_sync s m obj (Event v'), False)) (event_sync_satisfied (shmem s) v)
      | Semaphore v \<Rightarrow> map_option (\<lambda>(m, v'). (set_sync s m obj (Semaphore v'), False)) (semaphore_sync_satisfied (shmem s) v)
      | Mutex v \<Rightarrow>
          map_option (\<lambda>(m, v', ab, l).
             let s1 = set_sync s m obj (Mutex v') in
             (if l then set_thread (grab s1 obj) t ((thread_of s t)\<lparr>mutex_list := obj # mutex_list (thread_of s t)\<rparr>) else s1, ab))
            (mutex_sync_satisfied (shmem s) v t)
      | _ \<Rightarrow> Some (s, False))"

section \<open>The end of a wait\<close>

fun satisfy_objects :: "world \<Rightarrow> nat \<Rightarrow> ptr list \<Rightarrow> (world \<times> bool) option" where
  "satisfy_objects s t [] = Some (s, False)"
| "satisfy_objects s t (obj # objs) =
     do { (s1, a) \<leftarrow> object_sync_satisfied s obj t;
          (s2, b) \<leftarrow> satisfy_objects s1 t objs;
          Some (s2, a \<or> b) }"

fun remove_queues :: "world \<Rightarrow> nat \<Rightarrow> nat \<Rightarrow> nat \<Rightarrow> ptr list \<Rightarrow> world option" where
  "remove_queues s t w i [] = Some s"
| "remove_queues s t w i (obj # objs) =
     do { s1 \<leftarrow> object_sync_remove_queue s obj (t, w, i);
          s2 \<leftarrow> release s1 obj;
          remove_queues s2 t w (i + 1) objs }"

definition end_wait :: "world \<Rightarrow> nat \<Rightarrow> wait_status \<Rightarrow> (world \<times> wait_status) option" where
  "end_wait s t status =
     (case waits_of s t of
        [] \<Rightarrow> None
      | w # ws \<Rightarrow>
          do { (s2, st) \<leftarrow>
                 (case status of
                    Index i \<Rightarrow>
                      if i < length (wobjs w)
                      then do { (s2, ab) \<leftarrow> satisfy_objects (set_waits s t ws) t
                                  (if select w = SELECT_WAIT_ALL then wobjs w else [wobjs w ! i]);
                                Some (s2, if ab then Abandoned i else Index i) }
                      else Some (set_waits s t ws, status)
                  | _ \<Rightarrow> Some (set_waits s t ws, status));
               s3 \<leftarrow> remove_queues s2 t (wid w) 0 (wobjs w);
               Some (s3, st) })"

section \<open>The check of a wait\<close>

definition is_thread_suspended :: "world \<Rightarrow> nat \<Rightarrow> bool" where
  "is_thread_suspended s t =
     (let th = thread_of s t in
      if (case ctx th of None \<Rightarrow> False | Some c \<Rightarrow> cooperative c) then False
      else if suspend th \<noteq> 0 then True
      else \<not> bypass_proc_suspend th \<and> process_suspend s (process th) \<noteq> 0)"

definition matching_op :: "select_opcode \<Rightarrow> select_opcode" where
  "matching_op op = (if op = SELECT_KEYED_EVENT_WAIT then SELECT_KEYED_EVENT_RELEASE else SELECT_KEYED_EVENT_WAIT)"

definition wait_of :: "world \<Rightarrow> queue_entry \<Rightarrow> thread_wait option" where
  "wait_of s e = find (\<lambda>w. wid w = fst (snd e)) (waits_of s (fst e))"

text \<open>The other entries of a keyed event's queue; \<open>wake\<close> is \<^verbatim>\<open>wake_thread_queue_entry\<close>.\<close>

fun keyed_scan :: "(world \<Rightarrow> queue_entry \<Rightarrow> (world \<times> bool) option) \<Rightarrow> world \<Rightarrow> queue_entry \<Rightarrow> thread_wait \<Rightarrow>
    queue_entry list \<Rightarrow> (world \<times> bool) option" where
  "keyed_scan wake s e w [] = Some (s, False)"
| "keyed_scan wake s e w (p # ps) =
     (if p = e \<or> process (thread_of s (fst p)) \<noteq> process (thread_of s (fst e)) then keyed_scan wake s e w ps
      else case wait_of s p of None \<Rightarrow> None
      | Some v \<Rightarrow>
          if select v \<noteq> matching_op (select w) \<or> key v \<noteq> key w then keyed_scan wake s e w ps
          else do { (s1, ok) \<leftarrow> wake s p;
                    if ok then Some (s1, True) else keyed_scan wake s1 e w ps })"

definition keyed_event_signaled :: "(world \<Rightarrow> queue_entry \<Rightarrow> (world \<times> bool) option) \<Rightarrow> world \<Rightarrow> ptr \<Rightarrow> queue_entry \<Rightarrow>
    (world \<times> bool) option" where
  "keyed_event_signaled wake s obj e =
     (case wait_of s e of None \<Rightarrow> None
      | Some w \<Rightarrow>
          if select w \<noteq> SELECT_KEYED_EVENT_WAIT \<and> select w \<noteq> SELECT_KEYED_EVENT_RELEASE then Some (s, True)
          else keyed_scan wake s e w (wait_queue s obj))"

definition object_sync_signaled :: "(world \<Rightarrow> queue_entry \<Rightarrow> (world \<times> bool) option) \<Rightarrow> world \<Rightarrow> ptr \<Rightarrow> queue_entry \<Rightarrow>
    (world \<times> bool) option" where
  "object_sync_signaled wake s obj e =
     (case syncs s obj of
        Event v \<Rightarrow> map_option (\<lambda>(m, b). (s\<lparr>shmem := m\<rparr>, b)) (event_sync_signaled (shmem s) v)
      | Semaphore v \<Rightarrow> map_option (\<lambda>(m, b). (s\<lparr>shmem := m\<rparr>, b)) (semaphore_sync_signaled (shmem s) v)
      | Mutex v \<Rightarrow> map_option (\<lambda>(m, b). (s\<lparr>shmem := m\<rparr>, b)) (mutex_sync_signaled (shmem s) v (fst e))
      | Keyed_Event \<Rightarrow> keyed_event_signaled wake s obj e
      | Inproc_Sync \<Rightarrow> None)"

fun all_signaled :: "(world \<Rightarrow> queue_entry \<Rightarrow> (world \<times> bool) option) \<Rightarrow> world \<Rightarrow> nat \<Rightarrow> nat \<Rightarrow> nat \<Rightarrow> ptr list \<Rightarrow>
    (world \<times> bool) option" where
  "all_signaled wake s t w i [] = Some (s, True)"
| "all_signaled wake s t w i (obj # objs) =
     do { (s1, a) \<leftarrow> object_sync_signaled wake s obj (t, w, i);
          (s2, b) \<leftarrow> all_signaled wake s1 t w (i + 1) objs;
          Some (s2, a \<and> b) }"

fun any_signaled :: "(world \<Rightarrow> queue_entry \<Rightarrow> (world \<times> bool) option) \<Rightarrow> world \<Rightarrow> nat \<Rightarrow> nat \<Rightarrow> nat \<Rightarrow> ptr list \<Rightarrow>
    (world \<times> nat option) option" where
  "any_signaled wake s t w i [] = Some (s, None)"
| "any_signaled wake s t w i (obj # objs) =
     do { (s1, a) \<leftarrow> object_sync_signaled wake s obj (t, w, i);
          if a then Some (s1, Some i) else any_signaled wake s1 t w (i + 1) objs }"

text \<open>The outcome without a signaled object; the result \<open>None\<close> of a check is -1, to go on waiting.\<close>

definition check_rest :: "world \<Rightarrow> nat \<Rightarrow> thread_wait \<Rightarrow> wait_status option" where
  "check_rest s t w =
     (if wflags w AND SELECT_ALERTABLE \<noteq> 0 \<and> user_apc (thread_of s t) \<noteq> 0 then Some (Code STATUS_USER_APC)
      else if when w \<ge> 0 \<and> when w \<le> current_time s then Some (Code STATUS_TIMEOUT)
      else if when w < 0 \<and> - when w \<le> monotonic_time s then Some (Code STATUS_TIMEOUT)
      else None)"

definition check_wait :: "(world \<Rightarrow> queue_entry \<Rightarrow> (world \<times> bool) option) \<Rightarrow> world \<Rightarrow> nat \<Rightarrow>
    (world \<times> wait_status option) option" where
  "check_wait wake s t =
     (case waits_of s t of
        [] \<Rightarrow> None
      | w # ws \<Rightarrow>
          let th = thread_of s t in
          if wflags w AND SELECT_INTERRUPTIBLE \<noteq> 0 \<and> system_apc th \<noteq> 0 then Some (s, Some (Code STATUS_KERNEL_APC))
          else if wflags w AND SELECT_COOPERATIVE_SUSPEND \<noteq> 0 \<and> ctx th \<noteq> None
          then Some (set_thread s t (th\<lparr>ctx := map_option (\<lambda>c. c\<lparr>cooperative := True\<rparr>) (ctx th)\<rparr>),
                     Some (Code STATUS_THREAD_WAS_SUSPENDED))
          else if is_thread_suspended s t then Some (s, None)
          else if select w = SELECT_WAIT_ALL
          then do { (s1, ok) \<leftarrow> all_signaled wake s t (wid w) 0 (wobjs w);
                    Some (s1, if ok then Some (Index 0) else check_rest s1 t w) }
          else do { (s1, r) \<leftarrow> any_signaled wake s t (wid w) 0 (wobjs w);
                    Some (s1, case r of Some i \<Rightarrow> Some (Index i) | None \<Rightarrow> check_rest s1 t w) })"

section \<open>Waking threads\<close>

definition send_thread_wakeup :: "world \<Rightarrow> nat \<Rightarrow> nat \<Rightarrow> wait_status \<Rightarrow> world" where
  "send_thread_wakeup s t ck sg =
     (let th = thread_of s t in
      if ctx th \<noteq> None \<and> suspend_cookie th = ck \<and> sg \<noteq> Code STATUS_KERNEL_APC \<and> sg \<noteq> Code STATUS_USER_APC
      then (if native_flags (the (ctx th)) = 0 \<and> wow_flags (the (ctx th)) = 0
            then let s1 = set_thread s t (th\<lparr>ctx := None\<rparr>) in s1\<lparr>wakeups := wakeups s1 @ [(t, ck, sg)]\<rparr>
            else s\<lparr>wakeups := wakeups s @ [(t, ck, Code STATUS_KERNEL_APC)]\<rparr>)
      else s\<lparr>wakeups := wakeups s @ [(t, ck, sg)]\<rparr>)"

text \<open>\<open>wt\<close> is \<^verbatim>\<open>wake_thread\<close>, which calls this function again for the matching entries of keyed events.\<close>

definition wake_thread_queue_entry :: "(world \<Rightarrow> nat \<Rightarrow> (world \<times> nat) option) \<Rightarrow> world \<Rightarrow> queue_entry \<Rightarrow> (world \<times> bool) option" where
  "wake_thread_queue_entry wt s e =
     (case waits_of s (fst e) of
        [] \<Rightarrow> Some (s, False)
      | w # ws \<Rightarrow>
          if wid w \<noteq> fst (snd e) then Some (s, False)
          else if is_thread_suspended s (fst e) then Some (s, False)
          else if select w = SELECT_WAIT_ALL then None
          else do { (s1, sg) \<leftarrow> end_wait s (fst e) (Index (snd (snd e)));
                    (s2, _) \<leftarrow> wt (if cookie w \<noteq> 0 then send_thread_wakeup s1 (fst e) (cookie w) sg else s1) (fst e);
                    Some (s2, True) })"

text \<open>The number of waits that ended; a wait that has no cookie is not reported.\<close>

fun wake_thread_fuel :: "nat \<Rightarrow> world \<Rightarrow> nat \<Rightarrow> (world \<times> nat) option" where
  "wake_thread_fuel 0 s t = None"
| "wake_thread_fuel (Suc n) s t =
     (case waits_of s t of
        [] \<Rightarrow> Some (s, 0)
      | w # ws \<Rightarrow>
          do { (s1, r) \<leftarrow> check_wait (wake_thread_queue_entry (wake_thread_fuel n)) s t;
               case r of
                 None \<Rightarrow> Some (s1, 0)
               | Some status \<Rightarrow>
                   do { (s2, sg) \<leftarrow> end_wait s1 t status;
                        (s3, c) \<leftarrow> wake_thread_fuel n
                          (if cookie w \<noteq> 0 then send_thread_wakeup s2 t (cookie w) sg else s2) t;
                        Some (s3, c + 1) } })"

text \<open>Every wait that ends is gone, so the number of all waits bounds the recursion.\<close>

definition wake_thread :: "world \<Rightarrow> nat \<Rightarrow> (world \<times> nat) option" where
  "wake_thread s t = wake_thread_fuel (Suc (total_waits s)) s t"

fun wake_up_loop :: "nat \<Rightarrow> world \<Rightarrow> ptr \<Rightarrow> nat \<Rightarrow> queue_entry list \<Rightarrow> world option" where
  "wake_up_loop n s obj mx [] = Some s"
| "wake_up_loop n s obj mx (e # es) =
     (case wake_thread s (fst e) of
        None \<Rightarrow> None
      | Some (s1, 0) \<Rightarrow> wake_up_loop n s1 obj mx es
      | Some (s1, Suc _) \<Rightarrow>
          if mx = 1 then Some s1
          else case n of 0 \<Rightarrow> None | Suc n' \<Rightarrow> wake_up_loop n' s1 obj (mx - 1) (wait_queue s1 obj))"

definition wake_up :: "world \<Rightarrow> ptr \<Rightarrow> nat \<Rightarrow> world option" where
  "wake_up s obj mx = wake_up_loop (total_waits s) s obj mx (wait_queue s obj)"

end
