(* ===== verification/Wait_Correct.thy ===== *)
theory Wait_Correct
  imports Waits
begin

text \<open>
  What a wait does to the world: the interface of an object that threads wait for, well-formed waits and
  queues, the end of a wait, the check of a wait, and \<^verbatim>\<open>wake_thread\<close> and \<^verbatim>\<open>wake_up\<close>, which return and
  leave nobody asleep who could go on.
\<close>

section \<open>The interface of an object that threads wait for\<close>

text \<open>
  \<open>sg y t\<close>: the object lets thread \<open>t\<close> pass; \<open>sat y t\<close>: the object once it has let \<open>t\<close> pass; \<open>units y\<close>: how many
  threads can still pass, where this is limited.
\<close>

locale waitable =
  fixes ok :: "'o \<Rightarrow> bool"
    and sg :: "'o \<Rightarrow> nat \<Rightarrow> bool"
    and sat :: "'o \<Rightarrow> nat \<Rightarrow> 'o"
    and units :: "'o \<Rightarrow> nat option"
    and kind :: "'o \<Rightarrow> nat"
  assumes sat_ok: "ok y \<Longrightarrow> sg y t \<Longrightarrow> t \<noteq> 0 \<Longrightarrow> ok (sat y t)"
    and sat_sg: "ok y \<Longrightarrow> sg y t \<Longrightarrow> sg (sat y t) u \<Longrightarrow> sg y u"
    and sat_units: "ok y \<Longrightarrow> sg y t \<Longrightarrow> units y = Some n \<Longrightarrow> 0 < n \<and> units (sat y t) = Some (n - 1)"
    and sat_kind: "kind (sat y t) = kind y"
    and units_sg: "ok y \<Longrightarrow> units y = Some n \<Longrightarrow> sg y u \<longleftrightarrow> 0 < n"
begin

text \<open>\<open>y'\<close> is what threads that passed may have left of \<open>y\<close>.\<close>

definition left_by :: "'o \<Rightarrow> 'o \<Rightarrow> bool" where
  "left_by y y' =
     ((\<forall>u. sg y' u \<longrightarrow> sg y u) \<and> (ok y \<longrightarrow> ok y') \<and> kind y' = kind y \<and> (\<forall>n. units y = Some n \<longrightarrow> (\<exists>m \<le> n. units y' = Some m)))"

lemma left_by_refl [simp]: "left_by y y"
  by (auto simp: left_by_def)

lemma left_by_trans: "left_by x y \<Longrightarrow> left_by y z \<Longrightarrow> left_by x z"
  unfolding left_by_def by (metis order_trans)

lemma left_by_sat: "ok y \<Longrightarrow> sg y t \<Longrightarrow> t \<noteq> 0 \<Longrightarrow> left_by y (sat y t)"
  unfolding left_by_def using sat_ok sat_sg sat_units sat_kind by (metis diff_le_self)

lemma units_used_up: "ok y \<Longrightarrow> units y = Some 0 \<Longrightarrow> \<not> sg y u"
  using units_sg by blast

end

section \<open>Objects that keep their state in the server\<close>

text \<open>An event, a semaphore or a mutex without a shared slot.\<close>

fun plain :: "sync \<Rightarrow> bool" where
  "plain (Event e) = (event_wfusync e = None)"
| "plain (Semaphore m) = (sem_wfusync m = None)"
| "plain (Mutex m) = (mutex_wfusync m = None \<and> (mutex_count m = 0 \<longleftrightarrow> owner m = 0))"
| "plain _ = False"

fun sig :: "sync \<Rightarrow> nat \<Rightarrow> bool" where
  "sig (Event e) t = signaled e"
| "sig (Semaphore m) t = (0 < sem_count m)"
| "sig (Mutex m) t = (mutex_count m = 0 \<or> owner m = t)"
| "sig _ t = False"

fun sat :: "sync \<Rightarrow> nat \<Rightarrow> sync" where
  "sat (Event e) t = Event (if manual e then e else e\<lparr>signaled := False\<rparr>)"
| "sat (Semaphore m) t = Semaphore (m\<lparr>sem_count := sem_count m - 1\<rparr>)"
| "sat (Mutex m) t = Mutex (m\<lparr>owner := t, mutex_count := mutex_count m + 1, abandoned := False\<rparr>)"
| "sat y t = y"

fun units :: "sync \<Rightarrow> nat option" where
  "units (Event e) = (if manual e then None else Some (if signaled e then 1 else 0))"
| "units (Semaphore m) = Some (sem_count m)"
| "units _ = None"

fun kind :: "sync \<Rightarrow> nat" where
  "kind (Event e) = 0"
| "kind (Semaphore m) = 2"
| "kind (Mutex m) = 3"
| "kind Keyed_Event = 4"
| "kind Inproc_Sync = 5"

interpretation obj: waitable plain sig sat units kind
proof
  show "plain (sat y t)" if "plain y" "sig y t" "t \<noteq> 0" for y t using that by (cases y) auto
  show "sig y u" if "plain y" "sig y t" "sig (sat y t) u" for y t u
    using that by (cases y) (auto split: if_splits)
  show "0 < n \<and> units (sat y t) = Some (n - 1)" if "plain y" "sig y t" "units y = Some n" for y t n
    using that by (cases y) (auto split: if_splits)
  show "kind (sat y t) = kind y" for y t by (cases y) auto
  show "sig y u \<longleftrightarrow> 0 < n" if "plain y" "units y = Some n" for y n u
    using that by (cases y) (auto split: if_splits)
qed

text \<open>A reference of its own that a mutex has while it is owned, and how far its count is from wrapping.\<close>

fun held :: "sync \<Rightarrow> nat" where
  "held (Mutex m) = (if mutex_count m = 0 then 0 else 1)"
| "held _ = 0"

fun room :: "sync \<Rightarrow> nat \<Rightarrow> bool" where
  "room (Mutex m) n = (mutex_count m + n < 2 ^ 32)"
| "room _ n = True"

section \<open>Well-formed waits\<close>

definition entries_of :: "nat \<Rightarrow> thread_wait \<Rightarrow> ptr \<Rightarrow> queue_entry set" where
  "entries_of t w obj = {(t, wid w, i) | i. i < length (wobjs w) \<and> wobjs w ! i = obj}"

definition wait_ok :: "world \<Rightarrow> nat \<Rightarrow> thread_wait \<Rightarrow> bool" where
  "wait_ok s t w =
     (t \<noteq> 0 \<and> t \<in> set (thread_list s) \<and> (select w = SELECT_WAIT_ALL \<longrightarrow> distinct (wobjs w)) \<and>
      (\<forall>obj \<in> set (wobjs w). plain (syncs s obj)))"

text \<open>\<open>x\<close>: how many references to an object are not those of the waits for it and of its owner.\<close>

definition object_ok :: "(ptr \<Rightarrow> nat) \<Rightarrow> world \<Rightarrow> ptr \<Rightarrow> bool" where
  "object_ok x s obj =
     (distinct (wait_queue s obj) \<and>
      length (wait_queue s obj) + held (syncs s obj) + x obj \<le> kobject.refcount (kobjs (handles s) obj) \<and>
      room (syncs s obj) (length (wait_queue s obj)) \<and>
      set (wait_queue s obj) = (\<Union>t. \<Union>w \<in> set (waits_of s t). entries_of t w obj))"

definition wait_inv :: "(ptr \<Rightarrow> nat) \<Rightarrow> world \<Rightarrow> bool" where
  "wait_inv x s =
     (distinct (thread_list s) \<and> (\<forall>t. distinct (map wid (waits_of s t))) \<and>
      (\<forall>t. \<forall>w \<in> set (waits_of s t). wait_ok s t w) \<and> (\<forall>obj. object_ok x s obj))"

text \<open>What the end of a wait changes is in the fields left out here: objects, queues, references and threads.\<close>

definition obj_ops :: "world \<Rightarrow> ptr \<Rightarrow> nat" where
  "obj_ops s = (\<lambda>obj. ops (kobjs (handles s) obj))"

definition frame :: "world \<Rightarrow> world \<Rightarrow> bool" where
  "frame s s' =
     (thread_list s' = thread_list s \<and> process_suspend s' = process_suspend s \<and> current_time s' = current_time s \<and>
      monotonic_time s' = monotonic_time s \<and> next_wid s' = next_wid s \<and> current s' = current s \<and> obj_ops s' = obj_ops s)"

lemma frame_refl [simp]: "frame s s" by (simp add: frame_def)

lemma frame_trans: "frame s s1 \<Longrightarrow> frame s1 s2 \<Longrightarrow> frame s s2" by (simp add: frame_def)

text \<open>What does not change when thread \<open>t\<close> is woken.\<close>

definition same_but :: "nat \<Rightarrow> world \<Rightarrow> world \<Rightarrow> bool" where
  "same_but t s s' =
     ((\<forall>u. u \<noteq> t \<longrightarrow> thread_of s' u = thread_of s u) \<and> (\<forall>obj. obj.left_by (syncs s obj) (syncs s' obj)) \<and> frame s s')"

lemma same_but_refl [simp]: "same_but t s s"
  by (simp add: same_but_def)

lemma same_but_trans: "same_but t s s1 \<Longrightarrow> same_but t s1 s2 \<Longrightarrow> same_but t s s2"
  unfolding same_but_def using obj.left_by_trans frame_trans by metis

lemma same_butI:
  "(\<And>u. u \<noteq> t \<Longrightarrow> thread_of s' u = thread_of s u) \<Longrightarrow> (\<And>obj. obj.left_by (syncs s obj) (syncs s' obj)) \<Longrightarrow> frame s s' \<Longrightarrow>
   same_but t s s'"
  by (simp add: same_but_def)

lemma same_but_frame:
  "same_but t s s' \<Longrightarrow> thread_list s' = thread_list s" "same_but t s s' \<Longrightarrow> process_suspend s' = process_suspend s"
  "same_but t s s' \<Longrightarrow> current_time s' = current_time s" "same_but t s s' \<Longrightarrow> monotonic_time s' = monotonic_time s"
  "same_but t s s' \<Longrightarrow> next_wid s' = next_wid s" "same_but t s s' \<Longrightarrow> current s' = current s" "same_but t s s' \<Longrightarrow> obj_ops s' = obj_ops s"
  by (simp_all add: same_but_def frame_def)

section \<open>The check of a wait for such objects\<close>

text \<open>The objects that let a thread pass are given, so that one can be left out.\<close>

fun first_pass :: "(ptr \<Rightarrow> bool) \<Rightarrow> nat \<Rightarrow> ptr list \<Rightarrow> nat option" where
  "first_pass f i [] = None"
| "first_pass f i (obj # objs) = (if f obj then Some i else first_pass f (i + 1) objs)"

definition check :: "(ptr \<Rightarrow> bool) \<Rightarrow> world \<Rightarrow> nat \<Rightarrow> thread_wait \<Rightarrow> wait_status option" where
  "check f s t w =
     (let th = thread_of s t in
      if wflags w AND SELECT_INTERRUPTIBLE \<noteq> 0 \<and> system_apc th \<noteq> 0 then Some (Code STATUS_KERNEL_APC)
      else if wflags w AND SELECT_COOPERATIVE_SUSPEND \<noteq> 0 \<and> ctx th \<noteq> None then Some (Code STATUS_THREAD_WAS_SUSPENDED)
      else if is_thread_suspended s t then None
      else if select w = SELECT_WAIT_ALL
      then (if \<forall>obj \<in> set (wobjs w). f obj then Some (Index 0) else check_rest s t w)
      else case first_pass f 0 (wobjs w) of Some i \<Rightarrow> Some (Index i) | None \<Rightarrow> check_rest s t w)"

abbreviation passing :: "world \<Rightarrow> nat \<Rightarrow> ptr \<Rightarrow> bool" where
  "passing s t obj \<equiv> sig (syncs s obj) t"

lemma first_pass_None: "first_pass f i objs = None \<longleftrightarrow> (\<forall>obj \<in> set objs. \<not> f obj)"
  by (induction objs arbitrary: i) auto

lemma first_pass_Some: "first_pass f i objs = Some k \<Longrightarrow> i \<le> k \<and> k - i < length objs \<and> f (objs ! (k - i))"
proof (induction objs arbitrary: i)
  case Nil
  then show ?case by simp
next
  case (Cons a objs)
  show ?case
  proof (cases "f a")
    case True
    then show ?thesis using Cons.prems by simp
  next
    case False
    then have "i + 1 \<le> k" "k - (i + 1) < length objs" "f (objs ! (k - (i + 1)))"
      using Cons.IH[of "i + 1"] Cons.prems by simp_all
    moreover from this have "k - i = Suc (k - (i + 1))" by simp
    ultimately show ?thesis by simp
  qed
qed

lemma object_sync_signaled_plain:
  "plain (syncs s obj) \<Longrightarrow> object_sync_signaled wake s obj (t, w, i) = Some (s, passing s t obj)"
  by (cases "syncs s obj")
    (auto simp: object_sync_signaled_def event_sync_signaled_def semaphore_sync_signaled_def mutex_sync_signaled_def)

lemma all_signaled_plain:
  "\<forall>obj \<in> set objs. plain (syncs s obj) \<Longrightarrow> all_signaled wake s t w i objs = Some (s, \<forall>obj \<in> set objs. passing s t obj)"
  by (induction objs arbitrary: i) (auto simp: object_sync_signaled_plain)

lemma any_signaled_plain:
  "\<forall>obj \<in> set objs. plain (syncs s obj) \<Longrightarrow> any_signaled wake s t w i objs = Some (s, first_pass (passing s t) i objs)"
  by (induction objs arbitrary: i) (auto simp: object_sync_signaled_plain)

text \<open>The check changes at most the mark of a cooperative suspension.\<close>

definition checked :: "world \<Rightarrow> nat \<Rightarrow> world" where
  "checked s t =
     (case waits_of s t of [] \<Rightarrow> s
      | w # ws \<Rightarrow>
          let th = thread_of s t in
          if wflags w AND SELECT_INTERRUPTIBLE \<noteq> 0 \<and> system_apc th \<noteq> 0 then s
          else if wflags w AND SELECT_COOPERATIVE_SUSPEND \<noteq> 0 \<and> ctx th \<noteq> None
          then set_thread s t (th\<lparr>ctx := map_option (\<lambda>c. c\<lparr>cooperative := True\<rparr>) (ctx th)\<rparr>)
          else s)"

lemma check_wait_plain:
  assumes "waits_of s t = w # ws" "\<forall>obj \<in> set (wobjs w). plain (syncs s obj)"
  shows "check_wait wake s t = Some (checked s t, check (passing s t) s t w)"
  using assms
  by (auto simp: check_wait_def check_def checked_def Let_def all_signaled_plain any_signaled_plain split: option.splits)

lemma checked_None: "waits_of s t = w # ws \<Longrightarrow> check f s t w = None \<Longrightarrow> checked s t = s"
  by (auto simp: checked_def check_def Let_def split: if_splits)

lemma checked_fields [simp]:
  "syncs (checked s t) = syncs s" "wait_queue (checked s t) = wait_queue s" "handles (checked s t) = handles s"
  "thread_list (checked s t) = thread_list s" "waits_of (checked s t) u = waits_of s u"
  "u \<noteq> t \<Longrightarrow> thread_of (checked s t) u = thread_of s u" "frame s (checked s t)"
  by (auto simp: checked_def set_thread_def Let_def frame_def obj_ops_def split: list.splits)

section \<open>The end of a wait\<close>

abbreviation refs :: "world \<Rightarrow> ptr \<Rightarrow> nat" where
  "refs s obj \<equiv> kobject.refcount (kobjs (handles s) obj)"

text \<open>What a thread is besides its waits and its mutexes.\<close>

definition rest :: "thread \<Rightarrow> thread" where
  "rest th = th\<lparr>mutex_list := [], waits := []\<rparr>"

lemma satisfied_effect:
  assumes "plain (syncs s obj)" "passing s t obj" "room (syncs s obj) 1" "t \<noteq> 0"
  shows "\<exists>s' ab. object_sync_satisfied s obj t = Some (s', ab) \<and> syncs s' = (syncs s)(obj := sat (syncs s obj) t) \<and>
    (\<forall>u. u \<noteq> t \<longrightarrow> thread_of s' u = thread_of s u) \<and> waits_of s' t = waits_of s t \<and> rest (thread_of s' t) = rest (thread_of s t) \<and>
    wait_queue s' = wait_queue s \<and> frame s s' \<and>
    (\<forall>o'. refs s' o' + held (syncs s o') = refs s o' + held (syncs s' o'))"
proof (cases "syncs s obj")
  case (Event e)
  then show ?thesis
    using assms by (auto simp: object_sync_satisfied_def event_sync_satisfied_def set_sync_def frame_def obj_ops_def rest_def)
next
  case (Semaphore m)
  then show ?thesis
    using assms by (auto simp: object_sync_satisfied_def semaphore_sync_satisfied_def set_sync_def frame_def obj_ops_def)
next
  case (Mutex m)
  have "(mutex_count m + 1) mod 2 ^ 32 = mutex_count m + 1" using assms(3) Mutex by simp
  then show ?thesis
    using assms Mutex
    by (cases "mutex_count m = 0")
      (auto simp: object_sync_satisfied_def mutex_sync_satisfied_def do_grab_def set_sync_def frame_def obj_ops_def rest_def set_thread_def grab_def
        grab_object_def Let_def)
qed (use assms in auto)

lemma satisfy_objects_effect:
  assumes "\<forall>obj \<in> set objs. plain (syncs s obj) \<and> passing s t obj \<and> room (syncs s obj) 1" "t \<noteq> 0" "distinct objs"
  shows "\<exists>s' ab. satisfy_objects s t objs = Some (s', ab) \<and>
    syncs s' = (\<lambda>obj. if obj \<in> set objs then sat (syncs s obj) t else syncs s obj) \<and>
    (\<forall>u. u \<noteq> t \<longrightarrow> thread_of s' u = thread_of s u) \<and> waits_of s' t = waits_of s t \<and> rest (thread_of s' t) = rest (thread_of s t) \<and>
    wait_queue s' = wait_queue s \<and> frame s s' \<and>
    (\<forall>obj. refs s' obj + held (syncs s obj) = refs s obj + held (syncs s' obj))"
  using assms
proof (induction objs arbitrary: s)
  case Nil
  then show ?case by auto
next
  case (Cons obj objs)
  obtain s1 a where 1: "object_sync_satisfied s obj t = Some (s1, a)" "syncs s1 = (syncs s)(obj := sat (syncs s obj) t)"
    "\<forall>u. u \<noteq> t \<longrightarrow> thread_of s1 u = thread_of s u" "waits_of s1 t = waits_of s t" "wait_queue s1 = wait_queue s" "frame s s1"
    "rest (thread_of s1 t) = rest (thread_of s t)"
    "\<forall>o'. refs s1 o' + held (syncs s o') = refs s o' + held (syncs s1 o')"
    using satisfied_effect[of s obj t] Cons.prems by auto
  have "\<forall>o' \<in> set objs. plain (syncs s1 o') \<and> passing s1 t o' \<and> room (syncs s1 o') 1" using Cons.prems 1(2) by auto
  then obtain s2 b where 2: "satisfy_objects s1 t objs = Some (s2, b)"
    "syncs s2 = (\<lambda>o'. if o' \<in> set objs then sat (syncs s1 o') t else syncs s1 o')"
    "\<forall>u. u \<noteq> t \<longrightarrow> thread_of s2 u = thread_of s1 u" "waits_of s2 t = waits_of s1 t" "wait_queue s2 = wait_queue s1" "frame s1 s2"
    "rest (thread_of s2 t) = rest (thread_of s1 t)"
    "\<forall>o'. refs s2 o' + held (syncs s1 o') = refs s1 o' + held (syncs s2 o')"
    using Cons.IH[of s1] Cons.prems(2,3) by auto
  have "syncs s2 = (\<lambda>o'. if o' \<in> set (obj # objs) then sat (syncs s o') t else syncs s o')"
    using 1(2) 2(2) Cons.prems(3) by auto
  moreover have "refs s2 o' + held (syncs s o') = refs s o' + held (syncs s2 o')" for o'
    using 1(8)[rule_format, of o'] 2(8)[rule_format, of o'] by linarith
  moreover have "satisfy_objects s t (obj # objs) = Some (s2, a \<or> b)" using 1(1) 2(1) by simp
  ultimately show ?case using 1 2 frame_trans by auto
qed

lemma release_effect:
  assumes "plain (syncs s obj)" "held (syncs s obj) < refs s obj"
  shows "\<exists>s'. release s obj = Some s' \<and> syncs s' = syncs s \<and> thread_of s' = thread_of s \<and> wait_queue s' = wait_queue s \<and> frame s s' \<and>
    (\<forall>o'. refs s' o' = refs s o' - (if o' = obj then 1 else 0))"
  using assms
  by (cases "syncs s obj")
    (auto simp: release_def release_object_def sync_destroy_def event_sync_destroy_def semaphore_sync_destroy_def mutex_sync_destroy_def
      frame_def obj_ops_def split: if_splits)

lemma set_sync_same [simp]: "syncs s obj = y \<Longrightarrow> set_sync s (shmem s) obj y = s"
  by (auto simp: set_sync_def)

lemma object_sync_remove_queue_plain: "plain (syncs s obj) \<Longrightarrow> object_sync_remove_queue s obj e = Some (remove_queue s obj e)"
  by (cases "syncs s obj")
    (auto simp: object_sync_remove_queue_def event_sync_remove_queue_def semaphore_sync_remove_queue_def mutex_sync_remove_queue_def)

definition queues_ok :: "(ptr \<Rightarrow> nat) \<Rightarrow> world \<Rightarrow> bool" where
  "queues_ok x s = (\<forall>obj. distinct (wait_queue s obj) \<and> length (wait_queue s obj) + held (syncs s obj) + x obj \<le> refs s obj)"

lemma entries_Cons:
  "{(t, w, i + j) | j. j < length (x # xs) \<and> (x # xs) ! j = y} =
   (if y = x then {(t, w, i)} else {}) \<union> {(t, w, (i + 1) + j) | j. j < length xs \<and> xs ! j = y}" (is "?A = ?B")
proof (intro equalityI subsetI)
  fix e assume "e \<in> ?A"
  then obtain j where "e = (t, w, i + j)" "j < length (x # xs)" "(x # xs) ! j = y" by blast
  then show "e \<in> ?B" by (cases j) auto
next
  fix e assume "e \<in> ?B"
  then consider "e = (t, w, i + 0)" "y = x" | j where "e = (t, w, i + Suc j)" "j < length xs" "xs ! j = y"
    by (auto split: if_splits)
  then show "e \<in> ?A"
  proof cases
    case 1
    then show ?thesis by (intro CollectI exI[of _ 0]) simp
  next
    case 2
    then show ?thesis by (intro CollectI exI[of _ "Suc j"]) simp
  qed
qed

lemma remove_queues_effect:
  assumes "\<forall>obj \<in> set objs. plain (syncs s obj)" "queues_ok x s" "\<forall>j < length objs. (t, w, i + j) \<in> set (wait_queue s (objs ! j))"
  shows "\<exists>s'. remove_queues s t w i objs = Some s' \<and> syncs s' = syncs s \<and> thread_of s' = thread_of s \<and> frame s s' \<and> queues_ok x s' \<and>
    (\<forall>obj. length (wait_queue s' obj) + (if obj \<in> set objs then 1 else 0) \<le> length (wait_queue s obj) \<and>
      set (wait_queue s' obj) = set (wait_queue s obj) - {(t, w, i + j) | j. j < length objs \<and> objs ! j = obj})"
  using assms
proof (induction objs arbitrary: s i)
  case Nil
  then show ?case by auto
next
  case (Cons obj objs)
  have e: "(t, w, i) \<in> set (wait_queue s obj)" using Cons.prems(3) by force
  let ?r = "remove_queue s obj (t, w, i)"
  have q: "distinct (wait_queue s o')" "length (wait_queue s o') + held (syncs s o') + x o' \<le> refs s o'" for o'
    using Cons.prems(2) by (auto simp: queues_ok_def)
  have pl: "plain (syncs s obj)" using Cons.prems(1) by simp
  have len: "length (wait_queue s obj) = Suc (length (remove1 (t, w, i) (wait_queue s obj)))"
    using e length_pos_if_in_set[OF e] by (simp add: length_remove1)
  have "held (syncs s obj) < refs s obj" using q(2)[of obj] len by linarith
  then have "held (syncs ?r obj) < refs ?r obj" by (simp add: remove_queue_def)
  moreover have "plain (syncs ?r obj)" using pl by (simp add: remove_queue_def)
  ultimately obtain s1 where 1: "release ?r obj = Some s1" "syncs s1 = syncs s" "thread_of s1 = thread_of s" "frame s s1"
    "wait_queue s1 = (wait_queue s)(obj := remove1 (t, w, i) (wait_queue s obj))" "\<forall>o'. refs s1 o' = refs s o' - (if o' = obj then 1 else 0)"
    using release_effect[of ?r obj] by (auto simp: remove_queue_def frame_def obj_ops_def)
  have "queues_ok x s1"
    unfolding queues_ok_def
  proof
    fix o'
    show "distinct (wait_queue s1 o') \<and> length (wait_queue s1 o') + held (syncs s1 o') + x o' \<le> refs s1 o'"
      using q[of o'] 1 len by (cases "o' = obj") (auto simp: distinct_remove1)
  qed
  moreover have "(t, w, (i + 1) + j) \<in> set (wait_queue s1 (objs ! j))" if "j < length objs" for j
    using Cons.prems(3)[rule_format, of "Suc j"] that 1(5) q(1)[of obj] by (auto simp: set_remove1_eq)
  ultimately obtain s2 where 2: "remove_queues s1 t w (i + 1) objs = Some s2" "syncs s2 = syncs s1" "thread_of s2 = thread_of s1" "frame s1 s2"
    "queues_ok x s2"
    "\<forall>o'. length (wait_queue s2 o') + (if o' \<in> set objs then 1 else 0) \<le> length (wait_queue s1 o') \<and>
      set (wait_queue s2 o') = set (wait_queue s1 o') - {(t, w, (i + 1) + j) | j. j < length objs \<and> objs ! j = o'}"
    using Cons.IH[of s1 "i + 1"] Cons.prems(1) 1(2) by auto
  have "length (wait_queue s2 o') + (if o' \<in> set (obj # objs) then 1 else 0) \<le> length (wait_queue s o')" for o'
    using 2(6)[rule_format, of o'] 1(5) len by (cases "o' = obj") (auto split: if_splits)
  moreover have "set (wait_queue s2 o') = set (wait_queue s o') - {(t, w, i + j) | j. j < length (obj # objs) \<and> (obj # objs) ! j = o'}" for o'
  proof -
    have "{(t, w, i + j) | j. j < length (obj # objs) \<and> (obj # objs) ! j = o'} =
      (if o' = obj then {(t, w, i)} else {}) \<union> {(t, w, (i + 1) + j) | j. j < length objs \<and> objs ! j = o'}"
      by (rule entries_Cons)
    then show ?thesis using 2(6)[rule_format, of o'] 1(5) q(1)[of obj] by (auto simp: set_remove1_eq)
  qed
  moreover have "remove_queues s t w i (obj # objs) = Some s2"
    using 1(1) 2(1) pl by (simp add: object_sync_remove_queue_plain)
  ultimately show ?case using 1 2 frame_trans by auto
qed

text \<open>The objects that are told when a wait ends.\<close>

definition told :: "thread_wait \<Rightarrow> wait_status \<Rightarrow> ptr list" where
  "told w status =
     (case status of
        Index i \<Rightarrow> if i < length (wobjs w) then (if select w = SELECT_WAIT_ALL then wobjs w else [wobjs w ! i]) else []
      | _ \<Rightarrow> [])"

lemma end_wait_told:
  assumes "waits_of s t = w # ws" "satisfy_objects (set_waits s t ws) t (told w status) = Some (s2, ab)"
    "remove_queues s2 t (wid w) 0 (wobjs w) = Some s3"
  shows "\<exists>st. end_wait s t status = Some (s3, st)"
  using assms by (auto simp: end_wait_def told_def split: wait_status.splits if_splits)

lemma told_subset: "set (told w status) \<subseteq> set (wobjs w)"
  by (auto simp: told_def split: wait_status.splits)

lemma wait_inv_D:
  assumes "wait_inv x s"
  shows "distinct (map wid (waits_of s t))" "w \<in> set (waits_of s t) \<Longrightarrow> wait_ok s t w" "object_ok x s obj" "distinct (thread_list s)"
  using assms by (auto simp: wait_inv_def)

lemma set_waits_fields [simp]:
  "syncs (set_waits s t ws) = syncs s" "wait_queue (set_waits s t ws) = wait_queue s" "handles (set_waits s t ws) = handles s"
  "waits_of (set_waits s t ws) u = (if u = t then ws else waits_of s u)" "u \<noteq> t \<Longrightarrow> thread_of (set_waits s t ws) u = thread_of s u"
  "frame s (set_waits s t ws)"
  by (auto simp: set_waits_def set_thread_def frame_def obj_ops_def)

text \<open>The entries of the wait that ends leave the queues, and no others.\<close>

lemma entries_without:
  assumes "\<And>t. distinct (map wid (W t))" "W t = w # ws"
  shows "(\<Union>u. \<Union>v \<in> set (W u). entries_of u v obj) - {(t, wid w, 0 + j) | j. j < length (wobjs w) \<and> wobjs w ! j = obj} =
    (\<Union>u. \<Union>v \<in> set (if u = t then ws else W u). entries_of u v obj)"
proof -
  have "wid w \<notin> wid ` set ws" using assms(1)[of t, unfolded assms(2)] by simp
  then have "wid v \<noteq> wid w" if "v \<in> set ws" for v using that by (metis imageI)
  then show ?thesis using assms(2) by (fastforce simp: entries_of_def split: if_splits)
qed

lemma end_wait_effect:
  assumes inv: "wait_inv x s" and w: "waits_of s t = w # ws" and pass: "\<forall>obj \<in> set (told w status). passing s t obj"
  shows "\<exists>s' st. end_wait s t status = Some (s', st) \<and> wait_inv x s' \<and> waits_of s' t = ws \<and> same_but t s s' \<and>
    syncs s' = (\<lambda>obj. if obj \<in> set (told w status) then sat (syncs s obj) t else syncs s obj) \<and>
    rest (thread_of s' t) = rest (thread_of s t)"
proof -
  let ?objs = "told w status" and ?s1 = "set_waits s t ws"
  have wok: "t \<noteq> 0" "\<forall>obj \<in> set (wobjs w). plain (syncs s obj)" "select w = SELECT_WAIT_ALL \<longrightarrow> distinct (wobjs w)"
    using wait_inv_D(2)[OF inv, of w t] w by (auto simp: wait_ok_def)
  have dist: "distinct ?objs" using wok(3) by (auto simp: told_def split: wait_status.splits)
  have ent: "(t, wid w, j) \<in> set (wait_queue s (wobjs w ! j))" if "j < length (wobjs w)" for j
    using wait_inv_D(3)[OF inv, of "wobjs w ! j"] that w by (force simp: object_ok_def entries_of_def)
  have len: "0 < length (wait_queue s obj)" if "obj \<in> set (wobjs w)" for obj
    using ent that by (metis in_set_conv_nth length_pos_if_in_set)
  have pl: "plain (syncs s obj)" "room (syncs s obj) 1" if "obj \<in> set ?objs" for obj
  proof -
    have m: "obj \<in> set (wobjs w)" using told_subset that by blast
    show "plain (syncs s obj)" using wok(2) m by blast
    obtain n where "length (wait_queue s obj) = Suc n" using len[OF m] gr0_implies_Suc by blast
    then show "room (syncs s obj) 1"
      using wait_inv_D(3)[OF inv, of obj] by (cases "syncs s obj") (auto simp: object_ok_def)
  qed
  obtain s2 ab where 2: "satisfy_objects ?s1 t ?objs = Some (s2, ab)"
    "syncs s2 = (\<lambda>obj. if obj \<in> set ?objs then sat (syncs s obj) t else syncs s obj)"
    "\<forall>u. u \<noteq> t \<longrightarrow> thread_of s2 u = thread_of s u" "waits_of s2 t = ws" "wait_queue s2 = wait_queue s" "frame s s2"
    "rest (thread_of s2 t) = rest (thread_of s t)"
    "\<forall>obj. refs s2 obj + held (syncs s obj) = refs s obj + held (syncs s2 obj)"
  proof -
    have p1: "\<forall>obj \<in> set ?objs. plain (syncs ?s1 obj) \<and> passing ?s1 t obj \<and> room (syncs ?s1 obj) 1" using pl pass by simp
    have "rest (thread_of ?s1 t) = rest (thread_of s t)" by (simp add: rest_def set_waits_def set_thread_def)
    with satisfy_objects_effect[OF p1 wok(1) dist, unfolded set_waits_fields(1-4)] show ?thesis
      using frame_trans[OF set_waits_fields(6)[of s t ws]] by (auto intro!: that)
  qed
  have psat: "plain (sat (syncs s obj) t)" if "obj \<in> set ?objs" for obj using obj.sat_ok pl(1) pass wok(1) that by blast
  have q2: "queues_ok x s2"
    unfolding queues_ok_def
  proof
    fix obj
    show "distinct (wait_queue s2 obj) \<and> length (wait_queue s2 obj) + held (syncs s2 obj) + x obj \<le> refs s2 obj"
      using wait_inv_D(3)[OF inv, of obj] 2(5) 2(8)[rule_format, of obj] by (auto simp: object_ok_def)
  qed
  have pl2: "\<forall>obj \<in> set (wobjs w). plain (syncs s2 obj)" using wok(2) psat 2(2) by auto
  obtain s3 where 3: "remove_queues s2 t (wid w) 0 (wobjs w) = Some s3" "syncs s3 = syncs s2" "thread_of s3 = thread_of s2" "frame s2 s3"
    "queues_ok x s3"
    "\<forall>obj. length (wait_queue s3 obj) + (if obj \<in> set (wobjs w) then 1 else 0) \<le> length (wait_queue s2 obj) \<and>
      set (wait_queue s3 obj) = set (wait_queue s2 obj) - {(t, wid w, 0 + j) | j. j < length (wobjs w) \<and> wobjs w ! j = obj}"
    using remove_queues_effect[OF pl2 q2, of t "wid w" 0] ent 2(5) by auto
  have W: "waits_of s3 u = (if u = t then ws else waits_of s u)" for u using 2(3,4) 3(3) by simp
  have fr: "frame s s3" using 2(6) 3(4) frame_trans by blast
  have same: "same_but t s s3"
    using 2(2,3) 3(2,3) fr pl(1) pass wok(1) obj.left_by_sat by (intro same_butI) auto
  have "wait_inv x s3"
    unfolding wait_inv_def
  proof (intro conjI allI ballI)
    show "distinct (thread_list s3)" using wait_inv_D(4)[OF inv] fr by (simp add: frame_def obj_ops_def)
    show "distinct (map wid (waits_of s3 u))" for u using wait_inv_D(1)[OF inv, of u] wait_inv_D(1)[OF inv, of t] W w by auto
    show "wait_ok s3 u v" if "v \<in> set (waits_of s3 u)" for u v
      using wait_inv_D(2)[OF inv, of v u] that W w fr psat 2(2) 3(2) by (auto simp: wait_ok_def frame_def obj_ops_def split: if_splits)
    fix obj
    have "room (syncs s3 obj) (length (wait_queue s3 obj))"
      using wait_inv_D(3)[OF inv, of obj] 3(6)[rule_format, of obj] told_subset[of w status] 2(2,5) 3(2)
      by (cases "syncs s obj") (auto simp: object_ok_def split: if_splits)
    then show "object_ok x s3 obj"
      using 3(5) 3(6)[rule_format, of obj] wait_inv_D(3)[OF inv, of obj] 2(5)
        entries_without[of "waits_of s" t w ws obj, OF wait_inv_D(1)[OF inv] w]
      by (auto simp: object_ok_def queues_ok_def W)
  qed
  then show ?thesis using end_wait_told[OF w 2(1) 3(1)] W same 2(2) 2(7) 3(2,3) by auto
qed

section \<open>Waking a thread\<close>

lemma check_None:
  "check f s t w = None \<longleftrightarrow>
     \<not> (wflags w AND SELECT_INTERRUPTIBLE \<noteq> 0 \<and> system_apc (thread_of s t) \<noteq> 0) \<and>
     \<not> (wflags w AND SELECT_COOPERATIVE_SUSPEND \<noteq> 0 \<and> ctx (thread_of s t) \<noteq> None) \<and>
     (is_thread_suspended s t \<or>
      check_rest s t w = None \<and>
      (if select w = SELECT_WAIT_ALL then \<exists>obj \<in> set (wobjs w). \<not> f obj else \<forall>obj \<in> set (wobjs w). \<not> f obj))"
  by (cases "first_pass f 0 (wobjs w)")
    (auto simp: check_def Let_def first_pass_None[symmetric] simp del: first_pass.simps split: if_splits
      dest: iffD1[OF first_pass_None] first_pass_Some)

lemma check_mono: "check g s t w = None \<Longrightarrow> (\<And>obj. f obj \<Longrightarrow> g obj) \<Longrightarrow> check f s t w = None"
  unfolding check_None by (auto split: if_splits)

lemma check_same:
  assumes "same_but t s s'" "u \<noteq> t"
  shows "check f s' u w = check f s u w"
proof -
  have f: "thread_of s' u = thread_of s u" "process_suspend s' = process_suspend s" "current_time s' = current_time s"
    "monotonic_time s' = monotonic_time s"
    using assms by (simp_all add: same_but_def frame_def)
  then have "check_rest s' u w = check_rest s u w" "is_thread_suspended s' u = is_thread_suspended s u"
    by (simp_all add: check_rest_def is_thread_suspended_def)
  then show ?thesis by (simp only: check_def Let_def f)
qed

lemma passing_same: "same_but t s s' \<Longrightarrow> passing s' u obj \<Longrightarrow> passing s u obj"
  by (auto simp: same_but_def obj.left_by_def)

lemma check_Index:
  "check f s t w = Some (Index i) \<Longrightarrow>
   if select w = SELECT_WAIT_ALL then \<forall>obj \<in> set (wobjs w). f obj else first_pass f 0 (wobjs w) = Some i"
  by (auto simp: check_def check_rest_def Let_def split: if_splits option.splits)

lemma check_told:
  assumes "check f s t w = Some st" "obj \<in> set (told w st)"
  shows "f obj"
proof -
  obtain i where i: "st = Index i" "i < length (wobjs w)" using assms(2) by (auto simp: told_def split: wait_status.splits if_splits)
  note c = check_Index[OF assms(1)[unfolded i]]
  show ?thesis
  proof (cases "select w = SELECT_WAIT_ALL")
    case True
    then show ?thesis using c assms(2) i by (simp add: told_def)
  next
    case False
    then have "obj = wobjs w ! i" using assms(2) i by (simp add: told_def)
    then show ?thesis using first_pass_Some[of f 0 "wobjs w" i] c False by simp
  qed
qed

definition settled_thread :: "world \<Rightarrow> nat \<Rightarrow> bool" where
  "settled_thread s t = (\<forall>w ws. waits_of s t = w # ws \<longrightarrow> check (passing s t) s t w = None)"

definition settled :: "world \<Rightarrow> bool" where "settled s = (\<forall>t. settled_thread s t)"

lemma settled_same: "same_but t s s' \<Longrightarrow> u \<noteq> t \<Longrightarrow> settled_thread s u \<Longrightarrow> settled_thread s' u"
proof -
  assume same: "same_but t s s'" and ne: "u \<noteq> t" and q: "settled_thread s u"
  have W: "waits_of s' u = waits_of s u" using same ne by (simp add: same_but_def)
  have "check (passing s' u) s' u w = None" if "waits_of s u = w # ws" for w ws
    unfolding check_same[OF same ne]
  proof (rule check_mono)
    show "check (passing s u) s u w = None" using q that unfolding settled_thread_def by blast
    show "passing s u obj" if "passing s' u obj" for obj using passing_same[OF same that] .
  qed
  then show "settled_thread s' u" unfolding settled_thread_def W by blast
qed

lemma wait_inv_cong:
  "thread_list s' = thread_list s \<Longrightarrow> (\<And>u. waits_of s' u = waits_of s u) \<Longrightarrow> syncs s' = syncs s \<Longrightarrow>
   wait_queue s' = wait_queue s \<Longrightarrow> handles s' = handles s \<Longrightarrow> wait_inv x s' = wait_inv x s"
  by (simp add: wait_inv_def wait_ok_def object_ok_def)

lemma send_thread_wakeup_fields [simp]:
  "syncs (send_thread_wakeup s t c st) = syncs s" "wait_queue (send_thread_wakeup s t c st) = wait_queue s"
  "handles (send_thread_wakeup s t c st) = handles s" "waits_of (send_thread_wakeup s t c st) u = waits_of s u"
  "thread_list (send_thread_wakeup s t c st) = thread_list s"
  by (auto simp: send_thread_wakeup_def set_thread_def Let_def)

lemma send_thread_wakeup_same: "same_but t s (send_thread_wakeup s t c st)"
  by (auto simp: same_but_def frame_def obj_ops_def send_thread_wakeup_def set_thread_def Let_def)

lemma checked_same: "same_but t s (checked s t)"
  by (auto simp: same_but_def)

text \<open>What has happened when a thread has been woken: \<open>c\<close> of its waits have ended, and it sleeps again or is awake.\<close>

definition woken :: "(ptr \<Rightarrow> nat) \<Rightarrow> nat \<Rightarrow> world \<Rightarrow> world \<Rightarrow> nat \<Rightarrow> bool" where
  "woken x t s s' c =
     (wait_inv x s' \<and> same_but t s s' \<and> length (waits_of s' t) + c = length (waits_of s t) \<and> settled_thread s' t \<and>
      (c = 0 \<longrightarrow> s' = s) \<and> (settled_thread s t \<longrightarrow> c = 0) \<and> set (waits_of s' t) \<subseteq> set (waits_of s t))"

text \<open>The same for any threads: objects, frame, and no new waits.\<close>

definition left :: "world \<Rightarrow> world \<Rightarrow> bool" where
  "left s s' =
     (frame s s' \<and> (\<forall>obj. obj.left_by (syncs s obj) (syncs s' obj)) \<and> (\<forall>u. set (waits_of s' u) \<subseteq> set (waits_of s u)))"

lemma left_refl [simp]: "left s s"
  by (simp add: left_def)

lemma left_trans: "left s s1 \<Longrightarrow> left s1 s2 \<Longrightarrow> left s s2"
  unfolding left_def using obj.left_by_trans frame_trans by (meson subset_trans)

lemma woken_left: "woken x t s s' c \<Longrightarrow> left s s'"
proof -
  assume w: "woken x t s s' c"
  then have "set (waits_of s' u) \<subseteq> set (waits_of s u)" for u by (cases "u = t") (auto simp: woken_def same_but_def)
  then show "left s s'" using w by (simp add: woken_def left_def same_but_def)
qed

definition uses_up :: "world \<Rightarrow> nat \<Rightarrow> ptr \<Rightarrow> bool" where
  "uses_up s t obj =
     (\<exists>w ws st. waits_of s t = w # ws \<and> check (passing s t) s t w = Some st \<and> obj \<in> set (told w st))"

lemma units_same: "same_but t s s' \<Longrightarrow> units (syncs s obj) = Some k \<Longrightarrow> \<exists>m \<le> k. units (syncs s' obj) = Some m"
  by (simp add: same_but_def obj.left_by_def)

lemma wake_thread_fuel_effect:
  assumes "wait_inv x s" "length (waits_of s t) < n"
  shows "\<exists>s' c. wake_thread_fuel n s t = Some (s', c) \<and> woken x t s s' c \<and>
    (\<forall>obj k. uses_up s t obj \<longrightarrow> units (syncs s obj) = Some k \<longrightarrow> (\<exists>m < k. units (syncs s' obj) = Some m))"
  using assms
proof (induction n arbitrary: s)
  case 0
  then show ?case by simp
next
  case (Suc n)
  show ?case
  proof (cases "waits_of s t")
    case Nil
    then show ?thesis using Suc.prems by (simp add: woken_def settled_thread_def uses_up_def)
  next
    case (Cons w ws)
    have pl: "\<forall>obj \<in> set (wobjs w). plain (syncs s obj)"
      using wait_inv_D(2)[OF Suc.prems(1), of w t] Cons by (simp add: wait_ok_def)
    note chk = check_wait_plain[OF Cons pl]
    show ?thesis
    proof (cases "check (passing s t) s t w")
      case None
      then show ?thesis
        using Suc.prems Cons chk checked_None[OF Cons None] by (simp add: woken_def settled_thread_def uses_up_def)
    next
      case (Some st)
      have inv1: "wait_inv x (checked s t)" using Suc.prems(1) wait_inv_cong[of "checked s t" s] by simp
      have "\<forall>obj \<in> set (told w st). passing s t obj" using check_told[OF Some] by blast
      then obtain s2 sg where 2: "end_wait (checked s t) t st = Some (s2, sg)" "wait_inv x s2" "waits_of s2 t = ws" "same_but t (checked s t) s2"
        "syncs s2 = (\<lambda>obj. if obj \<in> set (told w st) then sat (syncs s obj) t else syncs s obj)"
        using end_wait_effect[OF inv1, of t w ws st, unfolded checked_fields] Cons by blast
      let ?s = "if cookie w \<noteq> 0 then send_thread_wakeup s2 t (cookie w) sg else s2"
      have inv: "wait_inv x ?s" using 2(2) wait_inv_cong[of ?s s2] by simp
      have same: "same_but t s ?s"
        using same_but_trans[OF checked_same 2(4)] same_but_trans send_thread_wakeup_same by auto
      have W: "waits_of ?s t = ws" "syncs ?s = syncs s2" using 2(3) by simp_all
      obtain s3 c where 3: "wake_thread_fuel n ?s t = Some (s3, c)" "woken x t ?s s3 c"
        using Suc.IH[OF inv] Suc.prems(2) W(1) Cons by auto
      have "wake_thread_fuel (Suc n) s t = Some (s3, c + 1)" using Cons chk Some 2(1) 3(1) by simp
      moreover have "woken x t s s3 (c + 1)"
        using 3(2) W(1) Cons same same_but_trans Some by (auto simp: woken_def settled_thread_def)
      moreover have "\<exists>m < k. units (syncs s3 obj) = Some m" if "uses_up s t obj" "units (syncs s obj) = Some k" for obj k
      proof -
        have o': "obj \<in> set (told w st)" using that(1) Cons Some by (simp add: uses_up_def)
        then have "plain (syncs s obj)" "passing s t obj" using pl told_subset check_told[OF Some] by blast+
        then have "0 < k" "units (sat (syncs s obj) t) = Some (k - 1)" using obj.sat_units that(2) by blast+
        then obtain m where "m \<le> k - 1" "units (syncs s3 obj) = Some m"
          using units_same[of t ?s s3 obj "k - 1"] 3(2) W(2) 2(5) o' by (auto simp: woken_def)
        then show ?thesis using \<open>0 < k\<close> by auto
      qed
      ultimately show ?thesis by blast
    qed
  qed
qed

lemma total_waits_member: "t \<in> set (thread_list s) \<Longrightarrow> length (waits_of s t) \<le> total_waits s"
  unfolding total_waits_def by (rule member_le_sum_list) auto

lemma waits_listed: "wait_inv x s \<Longrightarrow> length (waits_of s t) \<le> total_waits s"
proof (cases "waits_of s t")
  case (Cons w ws)
  assume "wait_inv x s"
  then have "wait_ok s t w" using wait_inv_D(2)[of x s w t] Cons by simp
  then show ?thesis using total_waits_member by (simp add: wait_ok_def)
qed simp

lemma total_waits_change:
  assumes "same_but t s s'" "distinct (thread_list s)" "length (waits_of s' t) + c = length (waits_of s t)" "t \<in> set (thread_list s) \<or> c = 0"
  shows "total_waits s' + c = total_waits s"
proof -
  have "(\<Sum>u\<leftarrow>xs. length (waits_of s' u)) + (if t \<in> set xs then c else 0) = (\<Sum>u\<leftarrow>xs. length (waits_of s u))" if "distinct xs" for xs
    using that assms(1,3) by (induction xs) (auto simp: same_but_def)
  from this[OF assms(2)] show ?thesis using assms(1,4) by (auto simp: total_waits_def same_but_def frame_def)
qed

lemma wake_thread_effect:
  assumes "wait_inv x s"
  shows "\<exists>s' c. wake_thread s t = Some (s', c) \<and> woken x t s s' c \<and> total_waits s' + c = total_waits s \<and>
    (\<forall>obj k. uses_up s t obj \<longrightarrow> units (syncs s obj) = Some k \<longrightarrow> (\<exists>m < k. units (syncs s' obj) = Some m))"
proof -
  obtain s' c where r: "wake_thread s t = Some (s', c)" "woken x t s s' c"
    "\<forall>obj k. uses_up s t obj \<longrightarrow> units (syncs s obj) = Some k \<longrightarrow> (\<exists>m < k. units (syncs s' obj) = Some m)"
    using wake_thread_fuel_effect[OF assms, of t "Suc (total_waits s)"] waits_listed[OF assms, of t]
    by (auto simp: wake_thread_def)
  have "t \<in> set (thread_list s) \<or> c = 0"
  proof (cases "waits_of s t")
    case Nil
    then show ?thesis using r(2) by (simp add: woken_def)
  next
    case (Cons w ws)
    then show ?thesis using wait_inv_D(2)[OF assms, of w t] by (simp add: wait_ok_def)
  qed
  then have "total_waits s' + c = total_waits s"
    using total_waits_change wait_inv_D(4)[OF assms] r(2) unfolding woken_def by blast
  then show ?thesis using r by blast
qed

section \<open>Waking the waiters of an object\<close>

text \<open>Nobody could go on if the object did not let anyone pass.\<close>

abbreviation passing_but :: "ptr \<Rightarrow> world \<Rightarrow> nat \<Rightarrow> ptr \<Rightarrow> bool" where
  "passing_but obj s t o' \<equiv> o' \<noteq> obj \<and> passing s t o'"

definition settled_but :: "ptr \<Rightarrow> world \<Rightarrow> bool" where
  "settled_but obj s = (\<forall>t w ws. waits_of s t = w # ws \<longrightarrow> check (passing_but obj s t) s t w = None)"

lemma settled_but_same:
  assumes same: "same_but t s s'" and but: "settled_but obj s" and t: "settled_thread s' t"
  shows "settled_but obj s'"
  unfolding settled_but_def
proof (intro allI impI)
  fix u w ws assume w: "waits_of s' u = w # ws"
  show "check (passing_but obj s' u) s' u w = None"
  proof (cases "u = t")
    case True
    have "check (passing s' u) s' u w = None" using t[unfolded settled_thread_def] w by (simp add: True)
    then show ?thesis by (rule check_mono) simp
  next
    case False
    then have "waits_of s u = w # ws" using w same by (simp add: same_but_def)
    then have "check (passing_but obj s u) s u w = None" using but unfolding settled_but_def by blast
    then have "check (passing_but obj s' u) s u w = None"
      by (rule check_mono) (use passing_same[OF same] in blast)
    then show ?thesis by (simp only: check_same[OF same False])
  qed
qed

lemma check_cong: "(\<And>obj. obj \<in> set (wobjs w) \<Longrightarrow> f obj = g obj) \<Longrightarrow> check f s t w = None \<longleftrightarrow> check g s t w = None"
  unfolding check_None by (auto split: if_splits)

lemma settled_but_not_passing:
  assumes "settled_but obj s" "\<And>w ws. waits_of s t = w # ws \<Longrightarrow> obj \<in> set (wobjs w) \<Longrightarrow> \<not> passing s t obj"
  shows "settled_thread s t"
  unfolding settled_thread_def
proof (intro allI impI)
  fix w ws assume w: "waits_of s t = w # ws"
  then have "check (passing_but obj s t) s t w = None" using assms(1) unfolding settled_but_def by blast
  moreover have "check (passing_but obj s t) s t w = None \<longleftrightarrow> check (passing s t) s t w = None"
    by (rule check_cong) (use assms(2)[OF w] in blast)
  ultimately show "check (passing s t) s t w = None" by blast
qed

text \<open>So a thread that can go on uses the object up.\<close>

lemma unsettled_uses_up:
  assumes "settled_but obj s" "\<not> settled_thread s t"
  shows "uses_up s t obj"
proof -
  obtain w ws st where w: "waits_of s t = w # ws" and st: "check (passing s t) s t w = Some st"
    using assms(2) by (auto simp: settled_thread_def)
  have but: "check (passing_but obj s t) s t w = None" using assms(1) w unfolding settled_but_def by blast
  then have e: "\<not> (wflags w AND SELECT_INTERRUPTIBLE \<noteq> 0 \<and> system_apc (thread_of s t) \<noteq> 0)"
    "\<not> (wflags w AND SELECT_COOPERATIVE_SUSPEND \<noteq> 0 \<and> ctx (thread_of s t) \<noteq> None)"
    unfolding check_None by blast+
  have "\<not> is_thread_suspended s t" using st e by (simp only: check_def Let_def if_False if_True) auto
  then have n: "check_rest s t w = None" "if select w = SELECT_WAIT_ALL then \<exists>o' \<in> set (wobjs w). \<not> passing_but obj s t o'
      else \<forall>o' \<in> set (wobjs w). \<not> passing_but obj s t o'" and ns: "\<not> is_thread_suspended s t"
    using but unfolding check_None by blast+
  have "obj \<in> set (told w st)"
  proof (cases "select w = SELECT_WAIT_ALL")
    case True
    have "st = Index 0 \<and> (\<forall>o' \<in> set (wobjs w). passing s t o')"
      using st True n(1) by (simp only: check_def Let_def e ns if_False if_True) (simp split: if_splits)
    moreover from this have "obj \<in> set (wobjs w)" using n(2) True by auto
    ultimately show ?thesis using True by (auto simp: told_def)
  next
    case False
    obtain i where i: "st = Index i" "first_pass (passing s t) 0 (wobjs w) = Some i"
      using st False n(1) by (simp only: check_def Let_def e ns if_False) (auto split: option.splits)
    then have l: "i < length (wobjs w)" "passing s t (wobjs w ! i)" using first_pass_Some[of "passing s t" 0 "wobjs w" i] by auto
    then have "wobjs w ! i = obj" using n(2) False nth_mem[OF l(1)] by auto
    then show ?thesis using False i l by (simp add: told_def)
  qed
  then show ?thesis using w st by (auto simp: uses_up_def)
qed

lemma wake_up_loop_returns:
  assumes "wait_inv x s" "total_waits s \<le> n"
  shows "\<exists>s'. wake_up_loop n s obj mx es = Some s' \<and> wait_inv x s' \<and> left s s'"
  using assms
proof (induction n s obj mx es rule: wake_up_loop.induct)
  case (1 n s obj mx)
  then show ?case by simp
next
  case (2 n s obj mx e es)
  obtain s1 c where 1: "wake_thread s (fst e) = Some (s1, c)" "woken x (fst e) s s1 c" "total_waits s1 + c = total_waits s"
    using wake_thread_effect[OF "2.prems"(1)] by blast
  have inv: "wait_inv x s1" using 1(2) by (simp add: woken_def)
  note lf = woken_left[OF 1(2)]
  show ?case
  proof (cases c)
    case 0
    then show ?thesis using "2.IH"(1)[OF 1(1) refl] inv 1 "2.prems"(2) left_trans[OF lf] by auto
  next
    case (Suc c')
    then obtain n' where n: "n = Suc n'" using 1(3) "2.prems"(2) by (cases n) auto
    show ?thesis
    proof (cases "mx = 1")
      case True
      then show ?thesis using 1(1) Suc inv lf by simp
    next
      case False
      then have "\<exists>s'. wake_up_loop n' s1 obj (mx - 1) (wait_queue s1 obj) = Some s' \<and> wait_inv x s' \<and> left s1 s'"
        using "2.IH"(2)[OF 1(1) refl Suc False n inv] 1(3) "2.prems"(2) Suc n by simp
      then show ?thesis using False 1(1) Suc n left_trans[OF lf] by auto
    qed
  qed
qed

lemma in_queue: "wait_inv x s \<Longrightarrow> waits_of s t = w # ws \<Longrightarrow> obj \<in> set (wobjs w) \<Longrightarrow> \<exists>e \<in> set (wait_queue s obj). fst e = t"
proof -
  assume inv: "wait_inv x s" and w: "waits_of s t = w # ws" and o': "obj \<in> set (wobjs w)"
  obtain i where "i < length (wobjs w)" "wobjs w ! i = obj" using o' by (auto simp: in_set_conv_nth)
  then have "(t, wid w, i) \<in> entries_of t w obj" by (simp add: entries_of_def)
  then have "(t, wid w, i) \<in> set (wait_queue s obj)" using wait_inv_D(3)[OF inv, of obj] w by (force simp: object_ok_def)
  then show ?thesis by force
qed

lemma wake_up_loop_settles:
  assumes "wait_inv x s" "total_waits s \<le> n" "settled_but obj s" "mx = 0 \<or> (\<exists>k \<le> mx. units (syncs s obj) = Some k)"
    and "wait_queue s obj = ps @ es" "\<forall>e \<in> set ps. settled_thread s (fst e)" "wake_up_loop n s obj mx es = Some s'"
  shows "settled s'"
  using assms
proof (induction n s obj mx es arbitrary: ps rule: wake_up_loop.induct)
  case (1 n s obj mx)
  have "settled_thread s t" for t
  proof (cases "\<exists>e \<in> set ps. fst e = t")
    case True
    then show ?thesis using "1.prems"(6) by blast
  next
    case False
    then show ?thesis
      using in_queue[OF "1.prems"(1), of t _ _ obj] "1.prems"(5) by (intro settled_but_not_passing[OF "1.prems"(3)]) auto
  qed
  then show ?case using "1.prems"(7) by (simp add: settled_def)
next
  case (2 n s obj mx e es)
  obtain s1 c where 1: "wake_thread s (fst e) = Some (s1, c)" "woken x (fst e) s s1 c" "total_waits s1 + c = total_waits s"
      "uses_up s (fst e) obj \<Longrightarrow> units (syncs s obj) = Some k \<Longrightarrow> \<exists>m < k. units (syncs s1 obj) = Some m" for k
    using wake_thread_effect[OF "2.prems"(1), of "fst e"] by blast
  have w1: "wait_inv x s1" "same_but (fst e) s s1" "settled_thread s1 (fst e)" "c = 0 \<Longrightarrow> s1 = s" "settled_thread s (fst e) \<Longrightarrow> c = 0"
    using 1(2) by (simp_all add: woken_def)
  have but: "settled_but obj s1" by (rule settled_but_same[OF w1(2) "2.prems"(3) w1(3)])
  show ?case
  proof (cases c)
    case 0
    then have "s1 = s" using w1(4) by blast
    then show ?thesis
      using "2.IH"(1)[OF 1(1) refl 0, of "ps @ [e]"] 0 "2.prems" 1(1) w1(3) by auto
  next
    case (Suc c')
    then obtain n' where n: "n = Suc n'" using 1(3) "2.prems"(2) by (cases n) auto
    have up: "uses_up s (fst e) obj" using unsettled_uses_up[OF "2.prems"(3)] w1(5) Suc by auto
    show ?thesis
    proof (cases "mx = 1")
      case True
      then obtain k where "k \<le> 1" "units (syncs s obj) = Some k" using "2.prems"(4) by auto
      then have used: "units (syncs s1 obj) = Some 0" using 1(4)[OF up, of k] by auto
      have "settled_thread s1 t" for t
      proof (rule settled_but_not_passing[OF but])
        fix w ws assume "waits_of s1 t = w # ws" "obj \<in> set (wobjs w)"
        then have "plain (syncs s1 obj)" using wait_inv_D(2)[OF w1(1), of w t] by (simp add: wait_ok_def)
        then show "\<not> passing s1 t obj" using obj.units_used_up used by blast
      qed
      then show ?thesis using "2.prems"(7) 1(1) Suc True by (simp add: settled_def)
    next
      case False
      have "mx - 1 = 0 \<or> (\<exists>k \<le> mx - 1. units (syncs s1 obj) = Some k)"
      proof (cases "mx = 0")
        case False
        then obtain k where "k \<le> mx" "units (syncs s obj) = Some k" using "2.prems"(4) by auto
        then show ?thesis using 1(4)[OF up, of k] by fastforce
      qed simp
      then show ?thesis
        using "2.IH"(2)[OF 1(1) refl Suc False n, of "[]"] Suc n w1(1) but 1(1,3) "2.prems"(2,7) False by simp
    qed
  qed
qed

lemma wake_up_settles:
  assumes "wait_inv x s" "settled_but obj s" "mx = 0 \<or> (\<exists>k \<le> mx. units (syncs s obj) = Some k)"
  shows "\<exists>s'. wake_up s obj mx = Some s' \<and> wait_inv x s' \<and> settled s' \<and> left s s'"
proof -
  obtain s' where s': "wake_up s obj mx = Some s'" "wait_inv x s'" "left s s'"
    using wake_up_loop_returns[OF assms(1) order_refl, of obj mx "wait_queue s obj"] unfolding wake_up_def by blast
  then show ?thesis
    using wake_up_loop_settles[OF assms(1) order_refl assms(2,3), of "[]" "wait_queue s obj"] by (simp add: wake_up_def)
qed

end
