(* ===== verification/Wait_Requests.thy ===== *)
theory Wait_Requests
  imports Waits
begin

text \<open>
  The operations that change an object and wake its waiters, \<^verbatim>\<open>server/event.c\<close>, \<^verbatim>\<open>server/semaphore.c\<close>
  and \<^verbatim>\<open>server/mutex.c\<close>, with their requests, and the start of a wait, its timeout and the suspension of
  threads, \<^verbatim>\<open>server/thread.c\<close>.
\<close>

section \<open>Constants\<close>

definition EVENT_QUERY_STATE :: u32 where "EVENT_QUERY_STATE = 1"

definition EVENT_MODIFY_STATE :: u32 where "EVENT_MODIFY_STATE = 2"

definition SEMAPHORE_QUERY_STATE :: u32 where "SEMAPHORE_QUERY_STATE = 1"

definition SEMAPHORE_MODIFY_STATE :: u32 where "SEMAPHORE_MODIFY_STATE = 2"

definition MUTANT_QUERY_STATE :: u32 where "MUTANT_QUERY_STATE = 1"

definition KEYEDEVENT_WAIT :: u32 where "KEYEDEVENT_WAIT = 1"

definition KEYEDEVENT_WAKE :: u32 where "KEYEDEVENT_WAKE = 2"

definition SYNCHRONIZE :: u32 where "SYNCHRONIZE = 0x00100000"

definition MAXIMUM_WAIT_OBJECTS :: nat where "MAXIMUM_WAIT_OBJECTS = 64"

definition MAXIMUM_SUSPEND_COUNT :: nat where "MAXIMUM_SUSPEND_COUNT = 127"

definition TIMEOUT_INFINITE :: int where "TIMEOUT_INFINITE = 0x7fffffffffffffff"

text \<open>The operation tables of the object types, as far as they are compared.\<close>

definition event_ops :: nat where "event_ops = 1"

definition semaphore_ops :: nat where "semaphore_ops = 2"

definition mutex_ops :: nat where "mutex_ops = 3"

definition keyed_event_ops :: nat where "keyed_event_ops = 4"

section \<open>Objects change\<close>

text \<open>Clients that registered for several objects are woken after the server's own waiters.\<close>

definition wake_registered :: "world \<Rightarrow> wfusync option \<Rightarrow> world" where
  "wake_registered s w = (case w of None \<Rightarrow> s | Some x \<Rightarrow> s\<lparr>shmem := fst (wfusync_wake_waiters (shmem s) (shm_idx x))\<rparr>)"

definition event_sync_signal :: "world \<Rightarrow> ptr \<Rightarrow> bool \<Rightarrow> world option" where
  "event_sync_signal s obj sg =
     (case syncs s obj of
        Event e \<Rightarrow>
          do { (m, e', wake) \<leftarrow> event_sync_signal_state (shmem s) e sg;
               case wake of None \<Rightarrow> Some (set_sync s m obj (Event e'))
               | Some n \<Rightarrow> wake_up (set_sync s m obj (Event e')) obj n }
      | _ \<Rightarrow> None)"

definition release_semaphore :: "world \<Rightarrow> ptr \<Rightarrow> nat \<Rightarrow> (world \<times> release) option" where
  "release_semaphore s obj cnt =
     (case syncs s obj of
        Semaphore v \<Rightarrow>
          do { (m, v', r, wake) \<leftarrow> release_semaphore_state (shmem s) v cnt;
               let s1 = set_sync s m obj (Semaphore v');
               case wake of None \<Rightarrow> Some (s1, r)
               | Some n \<Rightarrow> do { s2 \<leftarrow> wake_up s1 obj n; Some (wake_registered s2 (sem_wfusync v), r) } }
      | _ \<Rightarrow> None)"

text \<open>\<^verbatim>\<open>do_release\<close> on the object: when the count reaches 0 it leaves the thread's list and gives up a reference.\<close>

definition drop_mutex :: "world \<Rightarrow> ptr \<Rightarrow> nat \<Rightarrow> nat \<Rightarrow> (world \<times> unit result) option" where
  "drop_mutex s obj t cnt =
     (case syncs s obj of
        Mutex v \<Rightarrow>
          let (v', r, wake) = do_release v t cnt; s1 = set_sync s (shmem s) obj (Mutex v') in
          (case wake of None \<Rightarrow> Some (s1, r)
           | Some n \<Rightarrow>
               do { s2 \<leftarrow> wake_up (set_thread s1 t ((thread_of s1 t)\<lparr>mutex_list := remove1 obj (mutex_list (thread_of s1 t))\<rparr>)) obj n;
                    s3 \<leftarrow> release s2 obj;
                    Some (s3, r) })
      | _ \<Rightarrow> None)"

section \<open>Signaling an object by its handle\<close>

definition event_signal :: "world \<Rightarrow> ptr \<Rightarrow> u32 \<Rightarrow> (world \<times> unit result) option" where
  "event_signal s obj acc =
     (if acc AND EVENT_MODIFY_STATE = 0 then Some (s, Inl STATUS_ACCESS_DENIED)
      else map_option (\<lambda>s'. (s', Inr ())) (event_sync_signal s obj True))"

definition semaphore_signal :: "world \<Rightarrow> ptr \<Rightarrow> u32 \<Rightarrow> (world \<times> unit result) option" where
  "semaphore_signal s obj acc =
     (if acc AND SEMAPHORE_MODIFY_STATE = 0 then Some (s, Inl STATUS_ACCESS_DENIED)
      else map_option (\<lambda>(s', r). (s', case r of Released _ \<Rightarrow> Inr () | Refused e \<Rightarrow> Inl e | No_State \<Rightarrow> Inl STATUS_SUCCESS))
             (release_semaphore s obj 1))"

text \<open>In the fast path only the server's waiters are woken.\<close>

definition mutex_signal :: "world \<Rightarrow> ptr \<Rightarrow> u32 \<Rightarrow> (world \<times> unit result) option" where
  "mutex_signal s obj acc =
     (if acc AND SYNCHRONIZE = 0 then Some (s, Inl STATUS_ACCESS_DENIED)
      else case syncs s obj of
        Mutex v \<Rightarrow>
          (case mutex_wfusync v of
             Some w \<Rightarrow>
               do { (m, r) \<leftarrow> wfusync_release_mutex (shmem s) w (current s);
                    case r of
                      Released prev \<Rightarrow>
                        map_option (\<lambda>s'. (s', Inr ()))
                          (if prev = 1 then wake_up (s\<lparr>shmem := m\<rparr>) obj 0 else Some (s\<lparr>shmem := m\<rparr>))
                    | Refused e \<Rightarrow> Some (s\<lparr>shmem := m\<rparr>, Inl e)
                    | No_State \<Rightarrow> Some (s\<lparr>shmem := m\<rparr>, Inl STATUS_SUCCESS) }
           | None \<Rightarrow> drop_mutex s obj (current s) 1)
      | _ \<Rightarrow> None)"

definition cur_proc :: "world \<Rightarrow> nat" where
  "cur_proc s = process (thread_of s (current s))"

text \<open>A failure without an error status keeps the status of success.\<close>

definition signal_object :: "world \<Rightarrow> u32 \<Rightarrow> (world \<times> unit result) option" where
  "signal_object s h =
     (case get_handle_obj (handles s) (cur_proc s) h 0 None of
        Inl e \<Rightarrow> Some (s, Inl e)
      | Inr (hs, obj) \<Rightarrow>
          let s1 = s\<lparr>handles := hs\<rparr>; acc = get_handle_access hs (cur_proc s) h in
          do { (s2, r) \<leftarrow>
                 (case syncs s1 obj of
                    Event _ \<Rightarrow> event_signal s1 obj acc
                  | Semaphore _ \<Rightarrow> semaphore_signal s1 obj acc
                  | Mutex _ \<Rightarrow> mutex_signal s1 obj acc
                  | Keyed_Event \<Rightarrow> Some (s1, Inl STATUS_OBJECT_TYPE_MISMATCH)
                  | Inproc_Sync \<Rightarrow> None);
               s3 \<leftarrow> release s2 obj;
               Some (s3, r) })"

section \<open>The start of a wait\<close>

text \<open>What the waits are given: memory for the wait structure and for its timer.\<close>

record wait_env =
  wait_mem :: bool
  timer_mem :: bool

text \<open>The objects that have a queue entry so far are those of the wait; each has a reference.\<close>

fun add_queues :: "world \<Rightarrow> nat \<Rightarrow> ptr list \<Rightarrow> world \<times> status option" where
  "add_queues s t [] = (s, None)"
| "add_queues s t (obj # objs) =
     (case waits_of s t of
        [] \<Rightarrow> (s, None)
      | w # ws \<Rightarrow>
          (case object_sync_add_queue s obj (t, wid w, length (wobjs w)) of
             Inl e \<Rightarrow> (s, Some e)
           | Inr s1 \<Rightarrow> add_queues (grab (set_waits s1 t (w\<lparr>wobjs := wobjs w @ [obj]\<rparr> # ws)) obj) t objs))"

text \<open>The second result is the error of a wait that could not be built.\<close>

definition wait_on :: "wait_env \<Rightarrow> world \<Rightarrow> select_opcode \<Rightarrow> ptr list \<Rightarrow> u32 \<Rightarrow> int \<Rightarrow> (world \<times> wait_status option) option" where
  "wait_on E s op objs flags wh =
     (if \<not> wait_mem E then Some (s, Some (Code STATUS_NO_MEMORY))
      else let t = current s;
               w = \<lparr>wid = next_wid s, wobjs = [], select = op, wflags = flags, key = 0, cookie = 0, when = wh, user = False\<rparr>;
               s1 = (set_waits s t (w # waits_of s t))\<lparr>next_wid := next_wid s + 1\<rparr>
           in case add_queues s1 t objs of
                (s2, None) \<Rightarrow> Some (s2, None)
              | (s2, Some e) \<Rightarrow> map_option (\<lambda>(s3, st). (s3, Some (Code e))) (end_wait s2 t (Code e)))"

fun release_all :: "world \<Rightarrow> ptr list \<Rightarrow> world option" where
  "release_all s [] = Some s"
| "release_all s (obj # objs) = do { s1 \<leftarrow> release s obj; release_all s1 objs }"

text \<open>The objects of the handles, each with a reference, the last one first, and the error that stopped the loop.\<close>

fun get_objects :: "world \<Rightarrow> u32 list \<Rightarrow> ptr list \<Rightarrow> world \<times> ptr list \<times> status option" where
  "get_objects s [] objs = (s, objs, None)"
| "get_objects s (h # hs) objs =
     (case get_handle_obj (handles s) (cur_proc s) h SYNCHRONIZE None of
        Inl e \<Rightarrow> (s, objs, Some e)
      | Inr (k, obj) \<Rightarrow> get_objects (s\<lparr>handles := k\<rparr>) hs (obj # objs))"

definition wait_on_handles :: "wait_env \<Rightarrow> world \<Rightarrow> select_opcode \<Rightarrow> u32 list \<Rightarrow> u32 \<Rightarrow> int \<Rightarrow> (world \<times> wait_status option) option" where
  "wait_on_handles E s op hs flags wh =
     (if length hs > MAXIMUM_WAIT_OBJECTS then None
      else let (s1, objs, err) = get_objects s hs [] in
           do { (s2, r) \<leftarrow> (case err of None \<Rightarrow> wait_on E s1 op (rev objs) flags wh | Some e \<Rightarrow> Some (s1, Some (Code e)));
                s3 \<leftarrow> release_all s2 objs;
                Some (s3, r) })"

datatype select_op =
    Op_None
  | Op_Wait bool "u32 list"
  | Op_Signal_And_Wait u32 u32
  | Op_Keyed bool u32 nat
  | Op_Invalid

text \<open>What is common to all waits once they are in the queues: check, timer, cookie.\<close>

definition start_wait :: "wait_env \<Rightarrow> world \<Rightarrow> nat \<Rightarrow> (world \<times> bool \<times> wait_status) option" where
  "start_wait E s ck =
     (let t = current s in
      do { (s1, r) \<leftarrow> check_wait (wake_thread_queue_entry (wake_thread_fuel (Suc (total_waits s)))) s t;
           case r of
             Some status \<Rightarrow> map_option (\<lambda>(s2, st). (s2, True, st)) (end_wait s1 t status)
           | None \<Rightarrow>
               (case waits_of s1 t of
                  [] \<Rightarrow> None
                | w # ws \<Rightarrow>
                    if when w \<noteq> TIMEOUT_INFINITE \<and> \<not> timer_mem E
                    then map_option (\<lambda>(s2, _). (s2, True, Code STATUS_NO_MEMORY)) (end_wait s1 t (Code STATUS_NO_MEMORY))
                    else Some (set_waits s1 t (w\<lparr>cookie := ck, user := (when w \<noteq> TIMEOUT_INFINITE)\<rparr> # ws), False, Code STATUS_PENDING)) })"

text \<open>
  The results: whether the wait is over, and its status.  A size that does not fit the operation is
  \<open>Op_Invalid\<close>; a wait for all has the flag \<open>True\<close>, a keyed event wait as well, its release \<open>False\<close>.
\<close>

definition select_on :: "wait_env \<Rightarrow> world \<Rightarrow> select_op \<Rightarrow> nat \<Rightarrow> u32 \<Rightarrow> int \<Rightarrow> (world \<times> bool \<times> wait_status) option" where
  "select_on E s op ck flags wh =
     (case op of
        Op_None \<Rightarrow>
          do { (s1, r) \<leftarrow> wait_on E s SELECT_NONE [] flags wh;
               case r of Some e \<Rightarrow> Some (s1, True, e) | None \<Rightarrow> start_wait E s1 ck }
      | Op_Wait al hs \<Rightarrow>
          if length hs > MAXIMUM_WAIT_OBJECTS then Some (s, True, Code STATUS_INVALID_PARAMETER)
          else do { (s1, r) \<leftarrow> wait_on_handles E s (if al then SELECT_WAIT_ALL else SELECT_WAIT) hs flags wh;
                    case r of Some e \<Rightarrow> Some (s1, True, e) | None \<Rightarrow> start_wait E s1 ck }
      | Op_Signal_And_Wait h sh \<Rightarrow>
          do { (s1, r) \<leftarrow> wait_on_handles E s SELECT_SIGNAL_AND_WAIT [h] flags wh;
               case r of Some e \<Rightarrow> Some (s1, True, e)
               | None \<Rightarrow>
                   if sh = 0 then start_wait E s1 ck
                   else do { (s2, q) \<leftarrow> signal_object s1 sh;
                             case q of
                               Inl e \<Rightarrow> map_option (\<lambda>(s3, _). (s3, True, Code e)) (end_wait s2 (current s2) (Code e))
                             | Inr _ \<Rightarrow>
                                 if waits_of s2 (current s2) = [] then Some (s2, True, Code STATUS_SUCCESS) else start_wait E s2 ck } }
      | Op_Keyed wait h k \<Rightarrow>
          (case get_handle_obj (handles s) (cur_proc s) h (if wait then KEYEDEVENT_WAIT else KEYEDEVENT_WAKE) (Some keyed_event_ops) of
             Inl e \<Rightarrow> Some (s, True, Code e)
           | Inr (hs, obj) \<Rightarrow>
               do { (s1, r) \<leftarrow> wait_on E (s\<lparr>handles := hs\<rparr>) (if wait then SELECT_KEYED_EVENT_WAIT else SELECT_KEYED_EVENT_RELEASE)
                      [obj] flags wh;
                    s2 \<leftarrow> release s1 obj;
                    case r of Some e \<Rightarrow> Some (s2, True, e)
                    | None \<Rightarrow>
                        (case waits_of s2 (current s2) of [] \<Rightarrow> None
                         | w # ws \<Rightarrow> start_wait E (set_waits s2 (current s2) (w\<lparr>key := k\<rparr> # ws)) ck) })
      | Op_Invalid \<Rightarrow> Some (s, True, Code STATUS_INVALID_PARAMETER))"

section \<open>Timeouts and suspension\<close>

definition thread_timeout :: "world \<Rightarrow> nat \<Rightarrow> nat \<Rightarrow> world option" where
  "thread_timeout s t i =
     (let s1 = set_waits s t (map (\<lambda>w. if wid w = i then w\<lparr>user := False\<rparr> else w) (waits_of s t)) in
      case waits_of s1 t of
        [] \<Rightarrow> Some s1
      | w # ws \<Rightarrow>
          if wid w \<noteq> i then Some s1
          else if is_thread_suspended s1 t then Some s1
          else do { (s2, _) \<leftarrow> end_wait s1 t (Code STATUS_TIMEOUT);
                    (if cookie w = 0 then None
                     else map_option fst (wake_thread (send_thread_wakeup s2 t (cookie w) (Code STATUS_TIMEOUT)) t)) })"

text \<open>
  \<^verbatim>\<open>set_current_time\<close>, and the loop of \<^verbatim>\<open>get_next_timeout\<close>, \<^verbatim>\<open>server/fd.c\<close>, that calls the timers of waits that
  have expired, each a thread and a wait.
\<close>

definition set_current_time :: "world \<Rightarrow> int \<Rightarrow> int \<Rightarrow> world" where
  "set_current_time s now ticks = s\<lparr>current_time := now, monotonic_time := ticks\<rparr>"

fun run_timeouts :: "world \<Rightarrow> (nat \<times> nat) list \<Rightarrow> world option" where
  "run_timeouts s [] = Some s"
| "run_timeouts s ((t, i) # ts) = do { s1 \<leftarrow> thread_timeout s t i; run_timeouts s1 ts }"

text \<open>The signal that makes the client report its context is not modelled.\<close>

definition stop_thread :: "bool \<Rightarrow> world \<Rightarrow> nat \<Rightarrow> world" where
  "stop_thread mem s t =
     (let th = thread_of s t in
      if ctx th \<noteq> None \<or> \<not> mem then s
      else set_thread s t (th\<lparr>ctx := Some \<lparr>cooperative = False, native_flags = 0, wow_flags = 0\<rparr>\<rparr>))"

definition suspend_thread :: "bool \<Rightarrow> world \<Rightarrow> nat \<Rightarrow> world \<times> nat result" where
  "suspend_thread mem s t =
     (if suspend (thread_of s t) < MAXIMUM_SUSPEND_COUNT
      then let s1 = (if is_thread_suspended s t then s else stop_thread mem s t) in
           (set_thread s1 t ((thread_of s1 t)\<lparr>suspend := suspend (thread_of s1 t) + 1\<rparr>), Inr (suspend (thread_of s t)))
      else (s, Inl STATUS_SUSPEND_COUNT_EXCEEDED))"

definition resume_thread :: "world \<Rightarrow> nat \<Rightarrow> (world \<times> nat) option" where
  "resume_thread s t =
     (let old = suspend (thread_of s t) in
      if old = 0 then Some (s, old)
      else let s1 = set_thread s t ((thread_of s t)\<lparr>suspend := old - 1\<rparr>) in
           if is_thread_suspended s1 t then Some (s1, old)
           else map_option (\<lambda>(s2, _). (s2, old)) (wake_thread s1 t))"

text \<open>The threads of a process, oldest first.\<close>

definition process_threads :: "world \<Rightarrow> nat \<Rightarrow> nat list" where
  "process_threads s p = List.filter (\<lambda>t. process (thread_of s t) = p) (thread_list s)"

fun stop_threads :: "(nat \<Rightarrow> bool) \<Rightarrow> world \<Rightarrow> nat list \<Rightarrow> world" where
  "stop_threads mem s [] = s"
| "stop_threads mem s (t # ts) =
     stop_threads mem
       (if \<not> bypass_proc_suspend (thread_of s t) \<and> suspend (thread_of s t) = 0 then stop_thread (mem t) s t else s) ts"

definition suspend_process :: "(nat \<Rightarrow> bool) \<Rightarrow> world \<Rightarrow> nat \<Rightarrow> world" where
  "suspend_process mem s p =
     (let s1 = s\<lparr>process_suspend := (process_suspend s)(p := process_suspend s p + 1)\<rparr> in
      if process_suspend s p = 0 then stop_threads mem s1 (process_threads s p) else s1)"

fun wake_threads :: "world \<Rightarrow> nat list \<Rightarrow> world option" where
  "wake_threads s [] = Some s"
| "wake_threads s (t # ts) =
     (if \<not> bypass_proc_suspend (thread_of s t) \<and> suspend (thread_of s t) = 0
      then do { (s1, _) \<leftarrow> wake_thread s t; wake_threads s1 ts }
      else wake_threads s ts)"

definition resume_process :: "world \<Rightarrow> nat \<Rightarrow> world option" where
  "resume_process s p =
     (if process_suspend s p = 0 then None
      else let s1 = s\<lparr>process_suspend := (process_suspend s)(p := process_suspend s p - 1)\<rparr> in
           if process_suspend s p = 1 then wake_threads s1 (process_threads s p) else Some s1)"

section \<open>Asynchronous procedure calls\<close>

text \<open>
  A call is queued to a thread, or to one of a process that can take it; \<open>sent\<close>: which threads the signal
  can be sent to.  The calls here have no owner, so they cancel none; the alert object is not modelled.
\<close>

definition is_in_apc_wait :: "world \<Rightarrow> nat \<Rightarrow> bool" where
  "is_in_apc_wait s t =
     (is_thread_suspended s t \<or> (case waits_of s t of [] \<Rightarrow> False | w # _ \<Rightarrow> wflags w AND SELECT_INTERRUPTIBLE \<noteq> 0))"

definition append_apc :: "world \<Rightarrow> nat \<Rightarrow> bool \<Rightarrow> (world \<times> bool) option" where
  "append_apc s t system =
     (let th = thread_of s t;
          n = (if system then system_apc th else user_apc th);
          s1 = set_thread s t (if system then th\<lparr>system_apc := n + 1\<rparr> else th\<lparr>user_apc := n + 1\<rparr>)
      in if n = 0 then map_option (\<lambda>(s2, _). (s2, True)) (wake_thread s1 t) else Some (s1, True))"

definition queue_apc :: "(nat \<Rightarrow> bool) \<Rightarrow> world \<Rightarrow> nat \<Rightarrow> nat option \<Rightarrow> bool \<Rightarrow> (world \<times> bool) option" where
  "queue_apc sent s p target system =
     (case target of
        None \<Rightarrow>
          (case List.find (is_in_apc_wait s) (process_threads s p) of
             Some t \<Rightarrow> append_apc s t system
           | None \<Rightarrow>
               (case List.find sent (process_threads s p) of Some t \<Rightarrow> append_apc s t system | None \<Rightarrow> Some (s, False)))
      | Some t \<Rightarrow>
          if system \<and> system_apc (thread_of s t) = 0 \<and> \<not> is_in_apc_wait s t \<and> \<not> sent t then Some (s, False)
          else append_apc s t system)"

definition thread_dequeue_apc :: "world \<Rightarrow> nat \<Rightarrow> bool \<Rightarrow> world \<times> bool" where
  "thread_dequeue_apc s t system =
     (let th = thread_of s t; n = (if system then system_apc th else user_apc th) in
      if n = 0 then (s, False)
      else (set_thread s t (if system then th\<lparr>system_apc := n - 1\<rparr> else th\<lparr>user_apc := n - 1\<rparr>), True))"

section \<open>The mutexes of a thread that exits\<close>

fun abandon_owned :: "nat \<Rightarrow> world \<Rightarrow> nat \<Rightarrow> world option" where
  "abandon_owned n s t =
     (case mutex_list (thread_of s t) of
        [] \<Rightarrow> Some s
      | obj # _ \<Rightarrow>
          (case (n, syncs s obj) of
             (Suc n', Mutex v) \<Rightarrow>
               if owner v \<noteq> t then None
               else do { (s1, _) \<leftarrow> drop_mutex (set_sync s (shmem s) obj (Mutex (v\<lparr>abandoned := True\<rparr>))) obj t (mutex_count v);
                         abandon_owned n' s1 t }
           | _ \<Rightarrow> None))"

fun abandon_shared :: "world \<Rightarrow> nat \<Rightarrow> ptr list \<Rightarrow> world option" where
  "abandon_shared s t [] = Some s"
| "abandon_shared s t (obj # objs) =
     (case syncs s obj of
        Mutex v \<Rightarrow>
          (case mutex_wfusync v of
             Some w \<Rightarrow>
               do { (m, ok) \<leftarrow> wfusync_abandon_mutex (shmem s) w t;
                    (if ok then do { s1 \<leftarrow> wake_up (s\<lparr>shmem := m\<rparr>) obj 0; abandon_shared (wake_registered s1 (Some w)) t objs }
                     else abandon_shared (s\<lparr>shmem := m\<rparr>) t objs) }
           | None \<Rightarrow> None)
      | _ \<Rightarrow> None)"

text \<open>The list of owned mutexes shrinks at every turn unless a wait of the thread ends; ntsync mutexes follow in the code.\<close>

definition abandon_mutexes :: "world \<Rightarrow> nat \<Rightarrow> world option" where
  "abandon_mutexes s t =
     do { s1 \<leftarrow> abandon_owned (length (mutex_list (thread_of s t)) + total_waits s) s t;
          abandon_shared s1 t (wfusync_mutexes s1) }"

section \<open>Requests\<close>

text \<open>A request on a handle: the object is looked up, worked on and released; a reply or an error.\<close>

definition on_object :: "world \<Rightarrow> u32 \<Rightarrow> u32 \<Rightarrow> nat \<Rightarrow> (world \<Rightarrow> ptr \<Rightarrow> (world \<times> 'a result) option) \<Rightarrow> (world \<times> 'a result) option" where
  "on_object s h acc q f =
     (case get_handle_obj (handles s) (cur_proc s) h acc (Some q) of
        Inl e \<Rightarrow> Some (s, Inl e)
      | Inr (hs, obj) \<Rightarrow>
          do { (s1, r) \<leftarrow> f (s\<lparr>handles := hs\<rparr>) obj;
               s2 \<leftarrow> release s1 obj;
               Some (s2, r) })"

datatype event_op = PULSE_EVENT | SET_EVENT | RESET_EVENT | Other_Op

definition req_event_op :: "world \<Rightarrow> u32 \<Rightarrow> event_op \<Rightarrow> (world \<times> int result) option" where
  "req_event_op s h op =
     on_object s h EVENT_MODIFY_STATE event_ops
       (\<lambda>s obj. case syncs s obj of
          Event e \<Rightarrow>
            do { (m, _, state) \<leftarrow> query_event_state (shmem s) e;
                 let s1 = s\<lparr>shmem := m\<rparr>;
                 case op of
                   PULSE_EVENT \<Rightarrow> do { s2 \<leftarrow> event_sync_signal s1 obj True; s3 \<leftarrow> event_sync_signal s2 obj False; Some (s3, Inr state) }
                 | SET_EVENT \<Rightarrow> map_option (\<lambda>s2. (s2, Inr state)) (event_sync_signal s1 obj True)
                 | RESET_EVENT \<Rightarrow> map_option (\<lambda>s2. (s2, Inr state)) (event_sync_signal s1 obj False)
                 | Other_Op \<Rightarrow> Some (s1, Inl STATUS_INVALID_PARAMETER) }
        | _ \<Rightarrow> None)"

definition req_query_event :: "world \<Rightarrow> u32 \<Rightarrow> (world \<times> (int \<times> int) result) option" where
  "req_query_event s h =
     on_object s h EVENT_QUERY_STATE event_ops
       (\<lambda>s obj. case syncs s obj of
          Event e \<Rightarrow> map_option (\<lambda>(m, mn, st). (s\<lparr>shmem := m\<rparr>, Inr (mn, st))) (query_event_state (shmem s) e)
        | _ \<Rightarrow> None)"

definition req_release_semaphore :: "world \<Rightarrow> u32 \<Rightarrow> nat \<Rightarrow> (world \<times> nat result) option" where
  "req_release_semaphore s h cnt =
     on_object s h SEMAPHORE_MODIFY_STATE semaphore_ops
       (\<lambda>s obj. map_option (\<lambda>(s', r). (s', case r of Released p \<Rightarrow> Inr p | Refused e \<Rightarrow> Inl e | No_State \<Rightarrow> Inl STATUS_SUCCESS))
          (release_semaphore s obj cnt))"

definition req_query_semaphore :: "world \<Rightarrow> u32 \<Rightarrow> (world \<times> (nat \<times> nat) option result) option" where
  "req_query_semaphore s h =
     on_object s h SEMAPHORE_QUERY_STATE semaphore_ops
       (\<lambda>s obj. case syncs s obj of
          Semaphore v \<Rightarrow> map_option (\<lambda>(m, r). (s\<lparr>shmem := m\<rparr>, Inr r)) (query_semaphore_state (shmem s) v)
        | _ \<Rightarrow> None)"

text \<open>A refused release has an error and no reply here; the code fills in the previous count all the same.\<close>

definition req_release_mutex :: "world \<Rightarrow> u32 \<Rightarrow> (world \<times> release result) option" where
  "req_release_mutex s h =
     on_object s h 0 mutex_ops
       (\<lambda>s obj. case syncs s obj of
          Mutex v \<Rightarrow>
            (case mutex_wfusync v of
               Some w \<Rightarrow>
                 do { (m, r) \<leftarrow> wfusync_release_mutex (shmem s) w (current s);
                      (if r = Released 1
                       then do { s1 \<leftarrow> wake_up (s\<lparr>shmem := m\<rparr>) obj 0; Some (wake_registered s1 (Some w), Inr r) }
                       else Some (s\<lparr>shmem := m\<rparr>, case r of Refused e \<Rightarrow> Inl e | _ \<Rightarrow> Inr r)) }
             | None \<Rightarrow> map_option (\<lambda>(s1, r). (s1, map_sum id (\<lambda>_. Released (mutex_count v)) r)) (drop_mutex s obj (current s) 1))
        | _ \<Rightarrow> None)"

definition req_query_mutex :: "world \<Rightarrow> u32 \<Rightarrow> (world \<times> (nat \<times> bool \<times> bool) option result) option" where
  "req_query_mutex s h =
     on_object s h MUTANT_QUERY_STATE mutex_ops
       (\<lambda>s obj. case syncs s obj of
          Mutex v \<Rightarrow> map_option (\<lambda>(m, r). (s\<lparr>shmem := m\<rparr>, Inr r)) (query_mutex_state (shmem s) v (current s))
        | _ \<Rightarrow> None)"

end
