(* ===== verification/Wait_Steady.thy ===== *)
theory Wait_Steady
  imports Wait_Correct Wait_Requests
begin

text \<open>
  The requests on events, semaphores and mutexes, the timers and the suspension of threads keep waits
  well formed and leave nobody asleep who could go on.
\<close>

section \<open>An object changes\<close>

text \<open>What an operation leaves alone besides \<open>frame\<close>: the kinds of the objects, and it starts no wait.\<close>

abbreviation wait_data :: "thread_wait \<Rightarrow> nat \<times> nat \<times> u32" where
  "wait_data w \<equiv> (wid w, cookie w, wflags w)"

definition keeps :: "world \<Rightarrow> world \<Rightarrow> bool" where
  "keeps s s' =
     (frame s s' \<and> (\<forall>obj. (plain (syncs s obj) \<longrightarrow> plain (syncs s' obj)) \<and> kind (syncs s' obj) = kind (syncs s obj)) \<and>
      (\<forall>u. wait_data ` set (waits_of s' u) \<subseteq> wait_data ` set (waits_of s u)))"

lemma keeps_refl [simp]: "keeps s s" by (simp add: keeps_def)

lemma keeps_D:
  assumes "keeps s s'"
  shows "frame s s'" "plain (syncs s obj) \<Longrightarrow> plain (syncs s' obj)" "kind (syncs s' obj) = kind (syncs s obj)"
    "wait_data ` set (waits_of s' u) \<subseteq> wait_data ` set (waits_of s u)"
  using assms by (simp_all only: keeps_def simp_thms)

lemma keeps_trans:
  assumes a: "keeps s s1" and b: "keeps s1 s2"
  shows "keeps s s2"
  unfolding keeps_def
  using frame_trans[OF keeps_D(1)[OF a] keeps_D(1)[OF b]] keeps_D(2)[OF b keeps_D(2)[OF a]] keeps_D(3)[OF a] keeps_D(3)[OF b]
    subset_trans[OF keeps_D(4)[OF b] keeps_D(4)[OF a]] by simp

lemma left_keeps: "left s s' \<Longrightarrow> keeps s s'"
proof -
  assume l: "left s s'"
  have "wait_data ` set (waits_of s' u) \<subseteq> wait_data ` set (waits_of s u)" for u
    by (rule image_mono) (use l in \<open>simp add: left_def\<close>)
  then show "keeps s s'" using l by (simp add: left_def keeps_def obj.left_by_def)
qed

definition typed :: "world \<Rightarrow> bool" where
  "typed s =
     (\<forall>obj. (obj_ops s obj = event_ops \<longrightarrow> plain (syncs s obj) \<and> kind (syncs s obj) = 0) \<and>
       (obj_ops s obj = semaphore_ops \<longrightarrow> plain (syncs s obj) \<and> kind (syncs s obj) = 2) \<and>
       (obj_ops s obj = mutex_ops \<longrightarrow> plain (syncs s obj) \<and> kind (syncs s obj) = 3))"

definition waits_known :: "world \<Rightarrow> bool" where
  "waits_known s = (\<forall>t. \<forall>w \<in> set (waits_of s t). wid w < next_wid s \<and> cookie w \<noteq> 0 \<and> wflags w AND SELECT_COOPERATIVE_SUSPEND = 0)"

lemma waits_known_D:
  assumes "waits_known s" "w \<in> set (waits_of s t)"
  shows "wid w < next_wid s" "cookie w \<noteq> 0" "wflags w AND SELECT_COOPERATIVE_SUSPEND = 0"
  using assms unfolding waits_known_def by blast+

lemma typed_keeps: "typed s \<Longrightarrow> keeps s s' \<Longrightarrow> typed s'"
  unfolding typed_def keeps_def frame_def by metis

lemma waits_known_keeps: "waits_known s \<Longrightarrow> keeps s s' \<Longrightarrow> waits_known s'"
proof -
  assume k: "waits_known s" and s: "keeps s s'"
  show "waits_known s'"
    unfolding waits_known_def
  proof (intro allI ballI)
    fix t w assume "w \<in> set (waits_of s' t)"
    then have "wait_data w \<in> wait_data ` set (waits_of s t)" using s unfolding keeps_def by blast
    then obtain v where "v \<in> set (waits_of s t)" "wait_data w = wait_data v" by blast
    moreover have "next_wid s' = next_wid s" using s by (simp add: keeps_def frame_def)
    ultimately show "wid w < next_wid s' \<and> cookie w \<noteq> 0 \<and> wflags w AND SELECT_COOPERATIVE_SUSPEND = 0"
      using k by (simp add: waits_known_def)
  qed
qed

lemma kind_cases:
  "kind y = 0 \<longleftrightarrow> (\<exists>e. y = Event e)" "kind y = 2 \<longleftrightarrow> (\<exists>m. y = Semaphore m)" "kind y = 3 \<longleftrightarrow> (\<exists>m. y = Mutex m)"
  by (cases y; simp)+

lemma check_frame:
  assumes "thread_of s' = thread_of s" "frame s s'"
  shows "check f s' t w = check f s t w"
proof -
  have "check_rest s' t w = check_rest s t w" "is_thread_suspended s' t = is_thread_suspended s t"
    using assms by (simp_all add: check_rest_def is_thread_suspended_def frame_def)
  then show ?thesis by (simp only: check_def Let_def assms(1))
qed

lemma set_sync_fields [simp]:
  "thread_of (set_sync s m obj y) = thread_of s" "frame s (set_sync s m obj y)" "syncs (set_sync s m obj y) = (syncs s)(obj := y)"
  "wait_queue (set_sync s m obj y) = wait_queue s" "handles (set_sync s m obj y) = handles s"
  by (simp_all add: set_sync_def frame_def obj_ops_def)

lemma keeps_set_sync: "plain y \<Longrightarrow> kind y = kind (syncs s obj) \<Longrightarrow> keeps s (set_sync s m obj y)"
  by (auto simp: keeps_def)

lemma wait_inv_set_sync:
  assumes "wait_inv x s" "plain y" "room y (length (wait_queue s obj))" "held y + x' obj \<le> held (syncs s obj) + x obj"
    "\<And>o'. o' \<noteq> obj \<Longrightarrow> x' o' = x o'"
  shows "wait_inv x' (set_sync s m obj y)"
proof -
  have tl: "thread_list (set_sync s m obj y) = thread_list s" by (simp add: set_sync_def)
  have "object_ok x' (set_sync s m obj y) o'" for o'
    using wait_inv_D(3)[OF assms(1), of o'] assms(3-5) by (cases "o' = obj") (auto simp: object_ok_def)
  moreover have "wait_ok (set_sync s m obj y) t w" if "w \<in> set (waits_of s t)" for t w
    using wait_inv_D(2)[OF assms(1) that] assms(2) tl by (simp add: wait_ok_def)
  ultimately show ?thesis using wait_inv_D(1,4)[OF assms(1)] tl by (simp add: wait_inv_def)
qed

lemma settled_raise: "settled s \<Longrightarrow> settled_but obj (set_sync s m obj y)"
  unfolding settled_but_def
proof (intro allI impI)
  fix t w ws assume "settled s" "waits_of (set_sync s m obj y) t = w # ws"
  then have "check (passing s t) s t w = None" by (simp add: settled_def settled_thread_def)
  then have "check (passing_but obj (set_sync s m obj y) t) s t w = None" by (rule check_mono) (simp split: if_splits)
  then show "check (passing_but obj (set_sync s m obj y) t) (set_sync s m obj y) t w = None"
    by (simp only: check_frame[OF set_sync_fields(1,2)])
qed

lemma settled_lower:
  assumes "settled s" "\<And>u. sig y u \<Longrightarrow> sig (syncs s obj) u"
  shows "settled (set_sync s m obj y)"
  unfolding settled_def settled_thread_def
proof (intro allI impI)
  fix t w ws assume "waits_of (set_sync s m obj y) t = w # ws"
  then have "check (passing s t) s t w = None" using assms(1) by (simp add: settled_def settled_thread_def)
  then have "check (passing (set_sync s m obj y) t) s t w = None"
    by (rule check_mono) (use assms(2) in \<open>simp split: if_splits\<close>)
  then show "check (passing (set_sync s m obj y) t) (set_sync s m obj y) t w = None"
    by (simp only: check_frame[OF set_sync_fields(1,2)])
qed

text \<open>The outcome of an operation that leaves nobody asleep who could go on.\<close>

definition steady :: "(ptr \<Rightarrow> nat) \<Rightarrow> world \<Rightarrow> world \<Rightarrow> bool" where
  "steady x s s' = (wait_inv x s' \<and> settled s' \<and> keeps s s')"

lemma steady_trans: "keeps s s1 \<Longrightarrow> steady x s1 s2 \<Longrightarrow> steady x s s2"
  using keeps_trans by (auto simp: steady_def)

lemma raise_and_wake:
  assumes "wait_inv x s" "settled s" "plain y" "kind y = kind (syncs s obj)" "room y (length (wait_queue s obj))"
    "held y + x' obj \<le> held (syncs s obj) + x obj" "\<And>o'. o' \<noteq> obj \<Longrightarrow> x' o' = x o'" "n = 0 \<or> (\<exists>k \<le> n. units y = Some k)"
  shows "\<exists>s'. wake_up (set_sync s m obj y) obj n = Some s' \<and> steady x' s s'"
proof -
  obtain s' where s': "wake_up (set_sync s m obj y) obj n = Some s'" "wait_inv x' s'" "settled s'" "left (set_sync s m obj y) s'"
    using wake_up_settles[OF wait_inv_set_sync[OF assms(1,3,5,6,7)] settled_raise[OF assms(2)], of n m] assms(8) by auto
  then have "keeps s s'" using keeps_trans[OF keeps_set_sync[OF assms(3,4)] left_keeps] by blast
  then show ?thesis using s' by (auto simp: steady_def)
qed

lemma event_sync_signal_steady:
  assumes "wait_inv x s" "settled s" "plain (syncs s obj)" "kind (syncs s obj) = 0"
  shows "\<exists>s'. event_sync_signal s obj b = Some s' \<and> steady x s s' \<and> (\<not> b \<longrightarrow> (\<forall>u. \<not> passing s' u obj))"
proof -
  obtain e where e: "syncs s obj = Event e" "event_wfusync e = None" using assms(3,4) by (auto simp: kind_cases)
  let ?y = "Event (e\<lparr>signaled := b\<rparr>)"
  have y: "plain ?y" "kind ?y = kind (syncs s obj)" "room ?y k" "held ?y + x obj \<le> held (syncs s obj) + x obj" for k
    using e by simp_all
  show ?thesis
  proof (cases b)
    case True
    have "(if manual e then 0 else 1) = (0::nat) \<or> (\<exists>k \<le> (if manual e then 0 else 1). units ?y = Some k)" using True by auto
    from raise_and_wake[where x' = x and x = x, OF assms(1,2) y refl this, of "shmem s"] show ?thesis
      using True e by (auto simp: event_sync_signal_def event_sync_signal_state_def Let_def)
  next
    case False
    have "steady x s (set_sync s (shmem s) obj ?y)"
      using wait_inv_set_sync[where x' = x and x = x, OF assms(1) y(1,3,4) refl] settled_lower[OF assms(2), of ?y] keeps_set_sync[OF y(1,2)]
        False by (simp add: steady_def)
    then show ?thesis using False e by (simp add: event_sync_signal_def event_sync_signal_state_def Let_def)
  qed
qed

lemma release_semaphore_steady:
  assumes "wait_inv x s" "settled s" "plain (syncs s obj)" "kind (syncs s obj) = 2"
  shows "\<exists>s' r. release_semaphore s obj n = Some (s', r) \<and> steady x s s'"
proof -
  obtain v where v: "syncs s obj = Semaphore v" "sem_wfusync v = None" using assms(3,4) by (auto simp: kind_cases)
  let ?new = "(sem_count v + n) mod 2 ^ 32"
  have same: "set_sync s (shmem s) obj (Semaphore v) = s" using v by simp
  consider "?new < sem_count v \<or> ?new > sem_max v" | "\<not> (?new < sem_count v \<or> ?new > sem_max v)" "sem_count v \<noteq> 0"
    | "\<not> (?new < sem_count v \<or> ?new > sem_max v)" "sem_count v = 0" by blast
  then show ?thesis
  proof cases
    case 1
    then have "release_semaphore s obj n = Some (s, Refused STATUS_SEMAPHORE_LIMIT_EXCEEDED)"
      using v same by (simp add: release_semaphore_def release_semaphore_state_def Let_def)
    then show ?thesis using assms(1,2) by (simp add: steady_def)
  next
    case 2
    let ?y = "Semaphore (v\<lparr>sem_count := ?new\<rparr>)"
    have "wait_inv x (set_sync s (shmem s) obj ?y)" by (rule wait_inv_set_sync[OF assms(1)]) (use v in simp_all)
    moreover have "settled (set_sync s (shmem s) obj ?y)" by (rule settled_lower[OF assms(2)]) (use v 2 in simp)
    moreover have "keeps s (set_sync s (shmem s) obj ?y)" by (rule keeps_set_sync) (use v in simp_all)
    ultimately show ?thesis
      using v 2 by (simp add: release_semaphore_def release_semaphore_state_def Let_def steady_def)
  next
    case 3
    let ?y = "Semaphore (v\<lparr>sem_count := n\<rparr>)"
    have "\<exists>s'. wake_up (set_sync s (shmem s) obj ?y) obj n = Some s' \<and> steady x s s'"
      by (rule raise_and_wake[OF assms(1,2)]) (use v in simp_all)
    then show ?thesis
      using v 3 by (auto simp: release_semaphore_def release_semaphore_state_def Let_def wake_registered_def)
  qed
qed

section \<open>References\<close>

lemma settled_cong:
  "thread_of s' = thread_of s \<Longrightarrow> syncs s' = syncs s \<Longrightarrow> frame s s' \<Longrightarrow> settled s' = settled s"
  using check_frame[of s' s] unfolding settled_def settled_thread_def by simp

lemma grab_effect:
  assumes "wait_inv x s"
  shows "wait_inv (x(obj := x obj + 1)) (grab s obj)" and "settled (grab s obj) = settled s" and "keeps s (grab s obj)"
    and "syncs (grab s obj) = syncs s" and "obj_ops (grab s obj) = obj_ops s"
proof -
  have f: "thread_of (grab s obj) = thread_of s" "syncs (grab s obj) = syncs s" "frame s (grab s obj)" "wait_queue (grab s obj) = wait_queue s"
    "refs (grab s obj) o' = refs s o' + (if o' = obj then 1 else 0)" "thread_list (grab s obj) = thread_list s" for o'
    by (auto simp: grab_def grab_object_def frame_def obj_ops_def)
  show "wait_inv (x(obj := x obj + 1)) (grab s obj)"
  proof -
    have "object_ok (x(obj := x obj + 1)) (grab s obj) o'" for o'
      using wait_inv_D(3)[OF assms, of o'] f by (auto simp: object_ok_def)
    then show ?thesis using assms f by (simp add: wait_inv_def wait_ok_def)
  qed
  show "settled (grab s obj) = settled s" "keeps s (grab s obj)" using settled_cong[OF f(1-3)] f by (auto simp: keeps_def)
  show "syncs (grab s obj) = syncs s" "obj_ops (grab s obj) = obj_ops s" using f by (auto simp: frame_def)
qed

lemma release_ok:
  assumes "wait_inv (x(obj := x obj + 1)) s" "plain (syncs s obj)"
  shows "\<exists>s'. release s obj = Some s' \<and> wait_inv x s' \<and> syncs s' = syncs s \<and> thread_of s' = thread_of s \<and> frame s s'"
proof -
  have "held (syncs s obj) < refs s obj" using wait_inv_D(3)[OF assms(1), of obj] by (simp add: object_ok_def)
  then obtain s' where s': "release s obj = Some s'" "syncs s' = syncs s" "thread_of s' = thread_of s" "wait_queue s' = wait_queue s"
    "frame s s'" "\<forall>o'. refs s' o' = refs s o' - (if o' = obj then 1 else 0)"
    using release_effect[OF assms(2)] by blast
  have "object_ok x s' o'" for o'
    using wait_inv_D(3)[OF assms(1), of o'] s' by (cases "o' = obj") (auto simp: object_ok_def)
  then have "wait_inv x s'" using assms(1) s' by (simp add: wait_inv_def wait_ok_def frame_def)
  then show ?thesis using s' by blast
qed

lemma release_steady:
  assumes "wait_inv (x(obj := x obj + 1)) s" "plain (syncs s obj)" "settled s"
  shows "\<exists>s'. release s obj = Some s' \<and> steady x s s'"
proof -
  obtain s' where s': "release s obj = Some s'" "wait_inv x s'" "syncs s' = syncs s" "thread_of s' = thread_of s" "frame s s'"
    using release_ok[OF assms(1,2)] by blast
  moreover have "settled s'" using settled_cong[OF s'(4,3,5)] assms(3) by simp
  moreover have "keeps s s'" using s' by (simp add: keeps_def)
  ultimately show ?thesis by (auto simp: steady_def)
qed

section \<open>Mutexes\<close>

lemma check_thread:
  assumes "thread_of s' t = (thread_of s t)\<lparr>mutex_list := l\<rparr> \<or> thread_of s' t = (thread_of s t)\<lparr>waits := ws\<rparr> \<or> thread_of s' t = thread_of s t"
    and "frame s s'"
  shows "check f s' t w = check f s t w"
proof -
  have th: "wflags w AND SELECT_INTERRUPTIBLE \<noteq> 0 \<and> system_apc (thread_of s' t) \<noteq> 0 \<longleftrightarrow>
      wflags w AND SELECT_INTERRUPTIBLE \<noteq> 0 \<and> system_apc (thread_of s t) \<noteq> 0" "ctx (thread_of s' t) = ctx (thread_of s t)"
    using assms(1) by auto
  have "check_rest s' t w = check_rest s t w" "is_thread_suspended s' t = is_thread_suspended s t"
    using assms by (auto simp: check_rest_def is_thread_suspended_def frame_def Let_def)
  then show ?thesis by (simp only: check_def Let_def th)
qed

definition set_mutex_list :: "world \<Rightarrow> nat \<Rightarrow> ptr list \<Rightarrow> world" where
  "set_mutex_list s t l = set_thread s t ((thread_of s t)\<lparr>mutex_list := l\<rparr>)"

lemma set_mutex_list_fields [simp]:
  "syncs (set_mutex_list s t l) = syncs s" "wait_queue (set_mutex_list s t l) = wait_queue s" "handles (set_mutex_list s t l) = handles s"
  "waits_of (set_mutex_list s t l) u = waits_of s u" "thread_list (set_mutex_list s t l) = thread_list s" "frame s (set_mutex_list s t l)"
  by (auto simp: set_mutex_list_def set_thread_def frame_def obj_ops_def)

lemma check_mutex_list [simp]: "check f (set_mutex_list s t l) u w = check f s u w"
  by (rule check_thread[where l = l]) (auto simp: set_mutex_list_def set_thread_def frame_def obj_ops_def)

lemma set_mutex_list_keeps:
  "wait_inv x (set_mutex_list s t l) = wait_inv x s" "settled_but obj (set_mutex_list s t l) = settled_but obj s"
  "keeps s (set_mutex_list s t l)"
proof -
  show "wait_inv x (set_mutex_list s t l) = wait_inv x s" by (rule wait_inv_cong) simp_all
  show "settled_but obj (set_mutex_list s t l) = settled_but obj s" by (simp add: settled_but_def)
  show "keeps s (set_mutex_list s t l)" by (simp add: keeps_def)
qed

lemma drop_mutex_steady:
  assumes "wait_inv x s" "settled s" "plain (syncs s obj)" "kind (syncs s obj) = 3" "t \<noteq> 0"
  shows "\<exists>s' r. drop_mutex s obj t 1 = Some (s', r) \<and> steady x s s'"
proof -
  obtain v where v: "syncs s obj = Mutex v" "mutex_wfusync v = None" "mutex_count v = 0 \<longleftrightarrow> owner v = 0"
    using assms(3,4) by (auto simp: kind_cases)
  have room: "mutex_count v + length (wait_queue s obj) < 2 ^ 32" using wait_inv_D(3)[OF assms(1), of obj] v by (simp add: object_ok_def)
  have same: "set_sync s (shmem s) obj (Mutex v) = s" using v by simp
  have cnt: "nat ((int (mutex_count v) - int 1) mod 2 ^ 32) = mutex_count v - 1" if "mutex_count v \<noteq> 0" using that room by simp
  consider "mutex_count v = 0 \<or> owner v \<noteq> t" | "mutex_count v > 1" "owner v = t" | "mutex_count v = 1" "owner v = t" by linarith
  then show ?thesis
  proof cases
    case 1
    then have "drop_mutex s obj t 1 = Some (s, Inl STATUS_MUTANT_NOT_OWNED)" using v same by (simp add: drop_mutex_def do_release_def)
    then show ?thesis using assms(1,2) by (simp add: steady_def)
  next
    case 2
    let ?y = "Mutex (v\<lparr>mutex_count := mutex_count v - 1\<rparr>)"
    have "wait_inv x (set_sync s (shmem s) obj ?y)"
      by (rule wait_inv_set_sync[OF assms(1)]) (use v 2 room in auto)
    moreover have "settled (set_sync s (shmem s) obj ?y)" by (rule settled_lower[OF assms(2)]) (use v 2 in auto)
    moreover have "keeps s (set_sync s (shmem s) obj ?y)" by (rule keeps_set_sync) (use v 2 in auto)
    moreover have "do_release v t 1 = (v\<lparr>mutex_count := mutex_count v - 1\<rparr>, Inr (), None)"
      using 2 by (simp only: do_release_def Let_def cnt) simp
    then have "drop_mutex s obj t 1 = Some (set_sync s (shmem s) obj ?y, Inr ())"
      using v by (simp add: drop_mutex_def)
    ultimately show ?thesis by (auto simp: steady_def)
  next
    case 3
    let ?y = "Mutex (v\<lparr>mutex_count := 0, owner := 0\<rparr>)"
    let ?s1 = "set_sync s (shmem s) obj ?y"
    let ?s2 = "set_mutex_list ?s1 t (remove1 obj (mutex_list (thread_of ?s1 t)))"
    have y: "plain ?y" "kind ?y = kind (syncs s obj)" using v by simp_all
    have "wait_inv (x(obj := x obj + 1)) ?s1" by (rule wait_inv_set_sync[OF assms(1) y(1)]) (use v 3 room in auto)
    then have "wait_inv (x(obj := x obj + 1)) ?s2" by (simp only: set_mutex_list_keeps(1))
    moreover have "settled_but obj ?s2" using settled_raise[OF assms(2)] by (simp only: set_mutex_list_keeps(2))
    ultimately obtain s3 where s3: "wake_up ?s2 obj 0 = Some s3" "wait_inv (x(obj := x obj + 1)) s3" "settled s3" "left ?s2 s3"
      using wake_up_settles[of "x(obj := x obj + 1)" ?s2 obj 0] by blast
    have k: "keeps s s3"
      using keeps_trans[OF keeps_set_sync[OF y] keeps_trans[OF set_mutex_list_keeps(3) left_keeps[OF s3(4)]]] .
    then have "plain (syncs s3 obj)" using assms(3) by (simp add: keeps_def)
    then obtain s4 where s4: "release s3 obj = Some s4" "steady x s3 s4" using release_steady[OF s3(2) _ s3(3)] by blast
    have "drop_mutex s obj t 1 = Some (s4, Inr ())"
      using v 3 cnt s3(1) s4(1) by (simp add: drop_mutex_def do_release_def Let_def set_mutex_list_def)
    then show ?thesis using steady_trans[OF k s4(2)] by blast
  qed
qed

section \<open>Requests\<close>

lemma get_handle_obj_Inr:
  "get_handle_obj hs p h acc q = Inr (hs', obj) \<Longrightarrow> hs' = grab_object hs obj \<and> (\<forall>k. q = Some k \<longrightarrow> ops (kobjs hs obj) = k)"
  by (auto simp: get_handle_obj_def Let_def split: if_splits option.splits)

text \<open>A request leaves nobody asleep if its work on the object does not.\<close>

lemma on_object_steady:
  assumes s: "wait_inv x s" "settled s"
    and f: "\<And>s1 obj. \<lbrakk>wait_inv (x(obj := x obj + 1)) s1; settled s1; obj_ops s1 obj = q; keeps s s1\<rbrakk> \<Longrightarrow>
      \<exists>s2 r. f s1 obj = Some (s2, r) \<and> steady (x(obj := x obj + 1)) s1 s2 \<and> plain (syncs s2 obj)"
  shows "\<exists>s' r. on_object s h acc q f = Some (s', r) \<and> steady x s s'"
proof (cases "get_handle_obj (handles s) (cur_proc s) h acc (Some q)")
  case (Inl e)
  then show ?thesis using s by (simp add: on_object_def steady_def)
next
  case (Inr k)
  then obtain hs' obj where k: "get_handle_obj (handles s) (cur_proc s) h acc (Some q) = Inr (hs', obj)" by (cases k) auto
  have g: "get_handle_obj (handles s) (cur_proc s) h acc (Some q) = Inr (grab_object (handles s) obj, obj)" "obj_ops s obj = q"
    using get_handle_obj_Inr[OF k] k by (simp_all add: obj_ops_def)
  have g1: "s\<lparr>handles := grab_object (handles s) obj\<rparr> = grab s obj" by (simp add: grab_def)
  obtain s2 r where 2: "f (grab s obj) obj = Some (s2, r)" "steady (x(obj := x obj + 1)) (grab s obj) s2" "plain (syncs s2 obj)"
    using f[of obj "grab s obj"] grab_effect[OF s(1), of obj] s(2) g(2) by auto
  obtain s3 where 3: "release s2 obj = Some s3" "steady x s2 s3"
    using release_steady[of x obj s2] 2 by (auto simp: steady_def)
  have "keeps s s2" using keeps_trans[OF grab_effect(3)[OF s(1)]] 2(2) by (auto simp: steady_def)
  then show ?thesis using g g1 2(1) 3 steady_trans by (auto simp: on_object_def)
qed

lemma typed_ops:
  assumes "typed s" "keeps s s1"
  shows "obj_ops s1 obj = event_ops \<Longrightarrow> \<exists>e. syncs s1 obj = Event e \<and> event_wfusync e = None"
    and "obj_ops s1 obj = semaphore_ops \<Longrightarrow> \<exists>m. syncs s1 obj = Semaphore m \<and> sem_wfusync m = None"
    and "obj_ops s1 obj = mutex_ops \<Longrightarrow> \<exists>m. syncs s1 obj = Mutex m \<and> mutex_wfusync m = None \<and> plain (syncs s1 obj)"
proof -
  have "typed s1" using typed_keeps assms by blast
  then have t: "obj_ops s1 obj = event_ops \<Longrightarrow> plain (syncs s1 obj) \<and> kind (syncs s1 obj) = 0"
    "obj_ops s1 obj = semaphore_ops \<Longrightarrow> plain (syncs s1 obj) \<and> kind (syncs s1 obj) = 2"
    "obj_ops s1 obj = mutex_ops \<Longrightarrow> plain (syncs s1 obj) \<and> kind (syncs s1 obj) = 3"
    by (simp_all add: typed_def)
  show "obj_ops s1 obj = event_ops \<Longrightarrow> \<exists>e. syncs s1 obj = Event e \<and> event_wfusync e = None" using t(1) by (auto simp: kind_cases)
  show "obj_ops s1 obj = semaphore_ops \<Longrightarrow> \<exists>m. syncs s1 obj = Semaphore m \<and> sem_wfusync m = None" using t(2) by (auto simp: kind_cases)
  show "obj_ops s1 obj = mutex_ops \<Longrightarrow> \<exists>m. syncs s1 obj = Mutex m \<and> mutex_wfusync m = None \<and> plain (syncs s1 obj)"
    using t(3) by (auto simp: kind_cases)
qed

lemma req_event_op_steady:
  assumes "wait_inv x s" "settled s" "typed s"
  shows "\<exists>s' r. req_event_op s h op = Some (s', r) \<and> steady x s s'"
  unfolding req_event_op_def
proof (rule on_object_steady[OF assms(1,2)])
  fix s1 obj assume 1: "wait_inv (x(obj := x obj + 1)) s1" "settled s1" "obj_ops s1 obj = event_ops" "keeps s s1"
  obtain e where e: "syncs s1 obj = Event e" "event_wfusync e = None" using typed_ops(1)[OF assms(3) 1(4,3)] by blast
  have sig: "\<exists>s2. event_sync_signal s obj b = Some s2 \<and> steady (x(obj := x obj + 1)) s1 s2 \<and> plain (syncs s2 obj)"
    if "wait_inv (x(obj := x obj + 1)) s" "settled s" "keeps s1 s" for s b
  proof -
    note w = that
    have k: "plain (syncs s obj)" "kind (syncs s obj) = 0" using w(3) e by (simp_all add: keeps_def)
    obtain s2 where s2: "event_sync_signal s obj b = Some s2" "steady (x(obj := x obj + 1)) s s2"
      using event_sync_signal_steady[OF w(1,2) k] by blast
    then have "plain (syncs s2 obj)" using k(1) by (simp add: steady_def keeps_def)
    then show ?thesis using s2 steady_trans[OF w(3)] by blast
  qed
  have q: "query_event_state (shmem s1) e = Some (shmem s1, int_of_bool (manual e), int_of_bool (signaled e))" "s1\<lparr>shmem := shmem s1\<rparr> = s1"
    using e by (simp_all add: query_event_state_def)
  show "\<exists>s2 r. (case syncs s1 obj of
          Event e \<Rightarrow>
            do { (m, _, state) \<leftarrow> query_event_state (shmem s1) e;
                 let s1 = s1\<lparr>shmem := m\<rparr>;
                 case op of
                   PULSE_EVENT \<Rightarrow> do { s2 \<leftarrow> event_sync_signal s1 obj True; s3 \<leftarrow> event_sync_signal s2 obj False; Some (s3, Inr state) }
                 | SET_EVENT \<Rightarrow> map_option (\<lambda>s2. (s2, Inr state)) (event_sync_signal s1 obj True)
                 | RESET_EVENT \<Rightarrow> map_option (\<lambda>s2. (s2, Inr state)) (event_sync_signal s1 obj False)
                 | Other_Op \<Rightarrow> Some (s1, Inl STATUS_INVALID_PARAMETER) }
        | _ \<Rightarrow> None) = Some (s2, r) \<and> steady (x(obj := x obj + 1)) s1 s2 \<and> plain (syncs s2 obj)"
  proof (cases op)
    case PULSE_EVENT
    obtain s2 where s2: "event_sync_signal s1 obj True = Some s2" "steady (x(obj := x obj + 1)) s1 s2" using sig[OF 1(1,2)] by auto
    then obtain s3 where "event_sync_signal s2 obj False = Some s3" "steady (x(obj := x obj + 1)) s1 s3" "plain (syncs s3 obj)"
      using sig[of s2 False] by (auto simp: steady_def)
    then show ?thesis using PULSE_EVENT e q s2 by simp
  next
    case SET_EVENT
    then show ?thesis using sig[OF 1(1,2), of True] e q by auto
  next
    case RESET_EVENT
    then show ?thesis using sig[OF 1(1,2), of False] e q by auto
  next
    case Other_Op
    then show ?thesis using e q 1 by (simp add: steady_def)
  qed
qed

lemma req_release_semaphore_steady:
  assumes "wait_inv x s" "settled s" "typed s"
  shows "\<exists>s' r. req_release_semaphore s h n = Some (s', r) \<and> steady x s s'"
  unfolding req_release_semaphore_def
proof (rule on_object_steady[OF assms(1,2)])
  fix s1 obj assume 1: "wait_inv (x(obj := x obj + 1)) s1" "settled s1" "obj_ops s1 obj = semaphore_ops" "keeps s s1"
  have k: "plain (syncs s1 obj)" "kind (syncs s1 obj) = 2" using typed_ops(2)[OF assms(3) 1(4,3)] by auto
  obtain s2 r where "release_semaphore s1 obj n = Some (s2, r)" "steady (x(obj := x obj + 1)) s1 s2"
    using release_semaphore_steady[OF 1(1,2) k] by blast
  moreover from this have "plain (syncs s2 obj)" using k by (simp add: steady_def keeps_def)
  ultimately show "\<exists>s2 r. map_option (\<lambda>(s', r). (s', case r of Released p \<Rightarrow> Inr p | Refused e \<Rightarrow> Inl e | No_State \<Rightarrow> Inl STATUS_SUCCESS))
      (release_semaphore s1 obj n) = Some (s2, r) \<and> steady (x(obj := x obj + 1)) s1 s2 \<and> plain (syncs s2 obj)" by auto
qed

lemma req_release_mutex_steady:
  assumes "wait_inv x s" "settled s" "typed s" "current s \<noteq> 0"
  shows "\<exists>s' r. req_release_mutex s h = Some (s', r) \<and> steady x s s'"
  unfolding req_release_mutex_def
proof (rule on_object_steady[OF assms(1,2)])
  fix s1 obj assume 1: "wait_inv (x(obj := x obj + 1)) s1" "settled s1" "obj_ops s1 obj = mutex_ops" "keeps s s1"
  obtain v where v: "syncs s1 obj = Mutex v" "mutex_wfusync v = None" "plain (syncs s1 obj)" using typed_ops(3)[OF assms(3) 1(4,3)] by blast
  have "current s1 \<noteq> 0" using assms(4) 1(4) by (simp add: keeps_def frame_def)
  then obtain s2 r where "drop_mutex s1 obj (current s1) 1 = Some (s2, r)" "steady (x(obj := x obj + 1)) s1 s2"
    using drop_mutex_steady[OF 1(1,2) v(3), of "current s1"] v(1) kind.simps(3) by metis
  moreover from this have "plain (syncs s2 obj)" using v(3) by (simp add: steady_def keeps_def)
  ultimately show "\<exists>s2 r. (case syncs s1 obj of
          Mutex v \<Rightarrow>
            (case mutex_wfusync v of
               Some w \<Rightarrow>
                 do { (m, r) \<leftarrow> wfusync_release_mutex (shmem s1) w (current s1);
                      (if r = Released 1
                       then do { s1 \<leftarrow> wake_up (s1\<lparr>shmem := m\<rparr>) obj 0; Some (wake_registered s1 (Some w), Inr r) }
                       else Some (s1\<lparr>shmem := m\<rparr>, case r of Refused e \<Rightarrow> Inl e | _ \<Rightarrow> Inr r)) }
             | None \<Rightarrow> map_option (\<lambda>(s1, r). (s1, map_sum id (\<lambda>_. Released (mutex_count v)) r)) (drop_mutex s1 obj (current s1) 1))
        | _ \<Rightarrow> None) = Some (s2, r) \<and> steady (x(obj := x obj + 1)) s1 s2 \<and> plain (syncs s2 obj)"
    using v by auto
qed

section \<open>Timeouts\<close>

text \<open>What the check of a wait and the queues depend on.\<close>

abbreviation wait_core :: "thread_wait \<Rightarrow> nat \<times> ptr list \<times> select_opcode \<times> u32 \<times> int" where
  "wait_core w \<equiv> (wid w, wobjs w, select w, wflags w, when w)"

lemma entries_core: "(\<Union>w \<in> set ws. entries_of t w obj) = (\<Union>(i, objs, r) \<in> set (map wait_core ws). {(t, i, j) | j. j < length objs \<and> objs ! j = obj})"
  by (auto simp: entries_of_def)

lemma wait_ok_core: "wait_core v = wait_core w \<Longrightarrow> wait_ok s t v = wait_ok s t w"
  by (simp add: wait_ok_def)

lemma check_core:
  assumes "wait_core v = wait_core w"
  shows "check f s t v = check f s t w"
proof -
  have c: "wobjs v = wobjs w" "select v = select w" "wflags v = wflags w" "when v = when w" using assms by simp_all
  show ?thesis by (simp only: check_def check_rest_def Let_def c)
qed

lemma set_waits_frame: "frame s (set_waits s t ws)" "syncs (set_waits s t ws) = syncs s" "thread_list (set_waits s t ws) = thread_list s"
  by (auto simp: frame_def obj_ops_def set_waits_def set_thread_def)

lemma check_set_waits: "check f (set_waits s t ws) u w = check f s u w"
  by (rule check_thread) (auto simp: set_waits_def set_thread_def set_waits_frame(1)[unfolded set_waits_def set_thread_def])

lemma wait_inv_core:
  assumes "wait_inv x s" "map wait_core vs = map wait_core (waits_of s t)"
  shows "wait_inv x (set_waits s t vs)"
proof -
  have W: "map wait_core (waits_of (set_waits s t vs) u) = map wait_core (waits_of s u)" for u using assms(2) by simp
  have ids: "map wid (waits_of (set_waits s t vs) u) = map wid (waits_of s u)" for u
    using arg_cong[OF W[of u], of "map fst"] by (simp add: comp_def)
  have "wait_ok (set_waits s t vs) u v" if v: "v \<in> set (waits_of (set_waits s t vs) u)" for u v
  proof -
    have "wait_core v \<in> wait_core ` set (waits_of (set_waits s t vs) u)" using v by (rule imageI)
    also have "\<dots> = wait_core ` set (waits_of s u)" using arg_cong[OF W[of u], of set] by (simp only: set_map)
    finally obtain w where w: "wait_core v = wait_core w" "w \<in> set (waits_of s u)" by (rule imageE)
    have "wait_ok s u v" using wait_inv_D(2)[OF assms(1) w(2)] by (simp only: wait_ok_core[OF w(1)])
    then show ?thesis by (simp add: wait_ok_def set_waits_frame)
  qed
  moreover have "object_ok x (set_waits s t vs) obj" for obj
  proof -
    have "(\<Union>u. \<Union>w \<in> set (waits_of (set_waits s t vs) u). entries_of u w obj) = (\<Union>u. \<Union>w \<in> set (waits_of s u). entries_of u w obj)"
      unfolding entries_core W ..
    then show ?thesis using wait_inv_D(3)[OF assms(1), of obj] unfolding object_ok_def by (simp only: set_waits_fields(1-3))
  qed
  ultimately show ?thesis
    using wait_inv_D(1,4)[OF assms(1)] unfolding wait_inv_def ids set_waits_frame by (intro conjI allI ballI) assumption+
qed

lemma settled_core:
  assumes "map wait_core vs = map wait_core (waits_of s t)" "settled_thread s u"
  shows "settled_thread (set_waits s t vs) u"
  unfolding settled_thread_def
proof (intro allI impI)
  fix v ws assume v: "waits_of (set_waits s t vs) u = v # ws"
  have "map wait_core (v # ws) = map wait_core (waits_of s u)" using assms(1) v by (auto split: if_splits)
  then obtain w ws' where w: "waits_of s u = w # ws'" "wait_core v = wait_core w" by (cases "waits_of s u") auto
  then have "check (passing s u) s u w = None" using assms(2) by (simp add: settled_thread_def)
  then show "check (passing (set_waits s t vs) u) (set_waits s t vs) u v = None"
    by (simp only: check_set_waits check_core[OF w(2)] set_waits_frame)
qed

lemma suspended_set_waits: "is_thread_suspended (set_waits s t ws) u = is_thread_suspended s u"
  by (cases "u = t") (simp_all add: is_thread_suspended_def set_waits_def set_thread_def Let_def)

lemma suspended_same: "same_but t s s' \<Longrightarrow> u \<noteq> t \<Longrightarrow> is_thread_suspended s' u = is_thread_suspended s u"
  by (simp add: is_thread_suspended_def same_but_def frame_def)

lemma thread_timeout_effect:
  assumes "wait_inv x s" "waits_known s"
  shows "\<exists>s'. thread_timeout s t i = Some s' \<and> wait_inv x s' \<and> keeps s s' \<and> (\<forall>u. settled_thread s u \<longrightarrow> settled_thread s' u) \<and>
    (\<forall>u. settled_thread s' u \<or>
       (map wid (waits_of s' u) = map wid (waits_of s u) \<and> is_thread_suspended s' u = is_thread_suspended s u \<and>
        (u = t \<longrightarrow> is_thread_suspended s t \<or> map wid (take 1 (waits_of s t)) \<noteq> [i])))"
proof -
  let ?ws = "map (\<lambda>w. if wid w = i then w\<lparr>user := False\<rparr> else w) (waits_of s t)"
  let ?s1 = "set_waits s t ?ws"
  have core: "map wait_core ?ws = map wait_core (waits_of s t)" by simp
  have ids: "map wid (waits_of ?s1 u) = map wid (waits_of s u)" for u by (simp add: comp_def)
  have inv: "wait_inv x ?s1" by (rule wait_inv_core[OF assms(1) core])
  have set1: "settled_thread s u \<Longrightarrow> settled_thread ?s1 u" for u by (rule settled_core[OF core])
  have "map wait_data ?ws = map wait_data (waits_of s t)" by simp
  from arg_cong[OF this, of set] have "wait_data ` set ?ws = wait_data ` set (waits_of s t)" by (simp only: set_map)
  then have "wait_data ` set (waits_of ?s1 u) \<subseteq> wait_data ` set (waits_of s u)" for u
    unfolding set_waits_fields(4) by (cases "u = t") simp_all
  then have k1: "keeps s ?s1" unfolding keeps_def by (simp only: set_waits_frame simp_thms)
  show ?thesis
  proof (cases "waits_of ?s1 t")
    case Nil
    then have "waits_of s t = []" by simp
    then have "settled_thread ?s1 t" by (simp add: settled_thread_def)
    then show ?thesis using Nil inv set1 k1 ids suspended_set_waits by (auto simp: thread_timeout_def Let_def)
  next
    case (Cons w ws)
    obtain v vs where v: "waits_of s t = v # vs" "wid v = wid w" "cookie v = cookie w" using Cons by (auto split: if_splits)
    show ?thesis
    proof (cases "wid w \<noteq> i \<or> is_thread_suspended s t")
      case True
      then have "thread_timeout s t i = Some ?s1" using Cons suspended_set_waits[of s t ?ws t] by (auto simp: thread_timeout_def Let_def)
      moreover have "is_thread_suspended s t \<or> map wid (take 1 (waits_of s t)) \<noteq> [i]" using True v by auto
      ultimately show ?thesis using inv set1 k1 ids suspended_set_waits by auto
    next
      case False
      have "\<forall>obj \<in> set (told w (Code STATUS_TIMEOUT)). passing ?s1 t obj" by (simp add: told_def)
      from end_wait_effect[OF inv Cons this] obtain s2 st where 2: "end_wait ?s1 t (Code STATUS_TIMEOUT) = Some (s2, st)" "wait_inv x s2"
        "waits_of s2 t = ws" "same_but t ?s1 s2" by blast
      have ck: "cookie w \<noteq> 0" using waits_known_D(2)[OF assms(2), of v t] v by simp
      let ?s3 = "send_thread_wakeup s2 t (cookie w) (Code STATUS_TIMEOUT)"
      have inv3: "wait_inv x ?s3" using 2(2) wait_inv_cong[of ?s3 s2] by simp
      obtain s4 c where 4: "wake_thread ?s3 t = Some (s4, c)" "woken x t ?s3 s4 c" using wake_thread_effect[OF inv3] by blast
      have same: "same_but t ?s1 s4"
        using same_but_trans[OF 2(4) same_but_trans[OF send_thread_wakeup_same]] 4(2) by (auto simp: woken_def)
      have set4: "settled_thread s4 t" using 4(2) by (simp add: woken_def)
      have sub: "set (waits_of s4 u) \<subseteq> set (waits_of ?s1 u)" for u
        using 4(2) 2(3) Cons same by (cases "u = t") (auto simp: woken_def same_but_def)
      have "left ?s1 s4" using same sub by (simp add: left_def same_but_def)
      then have "keeps s s4" using keeps_trans[OF k1 left_keeps] by blast
      moreover have "settled_thread s4 u" if "settled_thread s u" for u
        using settled_same[OF same _ set1[OF that]] set4 by (cases "u = t") auto
      moreover have "settled_thread s4 u \<or> (u \<noteq> t \<and> map wid (waits_of s4 u) = map wid (waits_of s u) \<and>
          is_thread_suspended s4 u = is_thread_suspended s u)" for u
        using same ids[of u] suspended_same[OF same] suspended_set_waits[of s t ?ws u] set4 by (cases "u = t") (simp_all add: same_but_def)
      moreover have "thread_timeout s t i = Some s4"
        using Cons False suspended_set_waits[of s t ?ws t] 2(1) ck 4(1) by (simp add: thread_timeout_def Let_def)
      moreover have "wait_inv x s4" using 4(2) by (simp add: woken_def)
      ultimately show ?thesis using set4 by (intro exI[of _ s4] conjI allI) auto
    qed
  qed
qed

lemma run_timeouts_steady:
  assumes "wait_inv x s" "waits_known s"
    and "\<And>u. settled_thread s u \<or> (\<not> is_thread_suspended s u \<and> (\<exists>i. map wid (take 1 (waits_of s u)) = [i] \<and> (u, i) \<in> set ts))"
  shows "\<exists>s'. run_timeouts s ts = Some s' \<and> steady x s s'"
  using assms
proof (induction ts arbitrary: s)
  case Nil
  then have "settled s" by (simp add: settled_def)
  then show ?case using Nil by (simp add: steady_def)
next
  case (Cons p ts)
  obtain t i where p: "p = (t, i)" by (cases p)
  obtain s1 where 1: "thread_timeout s t i = Some s1" "wait_inv x s1" "keeps s s1" "\<And>u. settled_thread s u \<Longrightarrow> settled_thread s1 u"
    "\<And>u. settled_thread s1 u \<or>
       (map wid (waits_of s1 u) = map wid (waits_of s u) \<and> is_thread_suspended s1 u = is_thread_suspended s u \<and>
        (u = t \<longrightarrow> is_thread_suspended s t \<or> map wid (take 1 (waits_of s t)) \<noteq> [i]))"
    using thread_timeout_effect[OF Cons.prems(1,2), of t i] by blast
  have "settled_thread s1 u \<or> (\<not> is_thread_suspended s1 u \<and> (\<exists>j. map wid (take 1 (waits_of s1 u)) = [j] \<and> (u, j) \<in> set ts))" for u
  proof (cases "settled_thread s1 u")
    case False
    then have w: "map wid (waits_of s1 u) = map wid (waits_of s u)" "is_thread_suspended s1 u = is_thread_suspended s u"
      "u = t \<longrightarrow> is_thread_suspended s t \<or> map wid (take 1 (waits_of s t)) \<noteq> [i]" using 1(5)[of u] by simp_all
    have "\<not> settled_thread s u" using 1(4) False by blast
    then obtain j where j: "\<not> is_thread_suspended s u" "map wid (take 1 (waits_of s u)) = [j]" "(u, j) \<in> set (p # ts)" using Cons.prems(3)[of u] by auto
    have "map wid (take 1 (waits_of s1 u)) = [j]" using j(2) w(1) by (metis take_map)
    moreover have "(u, j) \<noteq> (t, i)" using w(3) j(1,2) by auto
    ultimately show ?thesis using j p w(2) by auto
  qed blast
  then obtain s2 where "run_timeouts s1 ts = Some s2" "steady x s1 s2"
    using Cons.IH[OF 1(2) waits_known_keeps[OF Cons.prems(2) 1(3)]] by blast
  then show ?case using 1(1,3) p steady_trans by auto
qed

section \<open>Suspension\<close>

lemma wait_inv_thread:
  assumes "wait_inv x s" "waits th = waits_of s t"
  shows "wait_inv x (set_thread s t th)"
  using assms wait_inv_cong[of "set_thread s t th" s x] by (simp add: set_thread_def)

lemma keeps_thread: "waits th = waits_of s t \<Longrightarrow> keeps s (set_thread s t th)"
  by (auto simp: keeps_def set_thread_def frame_def obj_ops_def)

lemma settled_thread_other:
  "u \<noteq> t \<Longrightarrow> settled_thread (set_thread s t th) u = settled_thread s u"
proof -
  assume ne: "u \<noteq> t"
  have "check f (set_thread s t th) u w = check f s u w" for f w
    by (rule check_thread) (use ne in \<open>auto simp: set_thread_def frame_def obj_ops_def\<close>)
  then show ?thesis using ne by (simp add: settled_thread_def set_thread_def)
qed

lemma resume_thread_steady:
  assumes "wait_inv x s" "settled s"
  shows "\<exists>s' c. resume_thread s t = Some (s', c) \<and> steady x s s'"
proof (cases "suspend (thread_of s t) = 0")
  case True
  then show ?thesis using assms by (simp add: resume_thread_def steady_def)
next
  case False
  let ?s1 = "set_thread s t ((thread_of s t)\<lparr>suspend := suspend (thread_of s t) - 1\<rparr>)"
  have inv: "wait_inv x ?s1" by (rule wait_inv_thread[OF assms(1)]) simp
  have k: "keeps s ?s1" by (rule keeps_thread) simp
  have other: "settled_thread ?s1 u" if "u \<noteq> t" for u using assms(2) settled_thread_other[OF that] by (simp add: settled_def)
  show ?thesis
  proof (cases "is_thread_suspended ?s1 t")
    case True
    have "settled_thread ?s1 t"
      unfolding settled_thread_def
    proof (intro allI impI)
      fix w ws assume w: "waits_of ?s1 t = w # ws"
      then have "check (passing s t) s t w = None" using assms(2) by (simp add: settled_def settled_thread_def set_thread_def)
      then show "check (passing ?s1 t) ?s1 t w = None" using True unfolding check_None by (simp add: set_thread_def)
    qed
    then have "settled ?s1" using other unfolding settled_def by metis
    then show ?thesis using True False inv k by (simp add: resume_thread_def steady_def Let_def)
  next
    case ns: False
    obtain s2 c where 2: "wake_thread ?s1 t = Some (s2, c)" "woken x t ?s1 s2 c" using wake_thread_effect[OF inv] by blast
    have "settled_thread s2 u" for u
      using 2(2) settled_same[of t ?s1 s2 u] other by (cases "u = t") (auto simp: woken_def)
    then have "settled s2" by (simp add: settled_def)
    moreover have "keeps s s2" using keeps_trans[OF k left_keeps[OF woken_left[OF 2(2)]]] .
    moreover have "wait_inv x s2" using 2(2) by (simp add: woken_def)
    moreover have "resume_thread s t = Some (s2, suspend (thread_of s t))" using 2(1) False ns by (simp add: resume_thread_def Let_def)
    ultimately show ?thesis by (auto simp: steady_def)
  qed
qed

lemma suspend_thread_steady:
  assumes "wait_inv x s" "settled s" "waits_known s" "suspend_thread mem s t = (s', r)"
  shows "steady x s s'"
proof (cases "suspend (thread_of s t) < MAXIMUM_SUSPEND_COUNT")
  case False
  then show ?thesis using assms by (simp add: suspend_thread_def steady_def)
next
  case True
  let ?th = "thread_of s t"
  obtain c where s': "s' = set_thread s t (?th\<lparr>ctx := c, suspend := suspend ?th + 1\<rparr>)"
    and c: "c = ctx ?th \<or> (ctx ?th = None \<and> c = Some \<lparr>cooperative = False, native_flags = 0, wow_flags = 0\<rparr>)"
  proof (cases "is_thread_suspended s t \<or> ctx ?th \<noteq> None \<or> \<not> mem")
    case same: True
    have e: "s' = set_thread s t (?th\<lparr>ctx := ctx ?th, suspend := suspend ?th + 1\<rparr>)"
      using True same assms(4) by (auto simp: suspend_thread_def stop_thread_def Let_def)
    show ?thesis by (rule that[OF e]) simp
  next
    case False
    then have e: "s' = set_thread s t (?th\<lparr>ctx := Some \<lparr>cooperative = False, native_flags = 0, wow_flags = 0\<rparr>, suspend := suspend ?th + 1\<rparr>)"
      using True assms(4) by (simp add: suspend_thread_def stop_thread_def set_thread_def Let_def)
    show ?thesis by (rule that[OF e]) (use False in simp)
  qed
  have other: "settled_thread s' u" if "u \<noteq> t" for u using assms(2) settled_thread_other[OF that] s' by (simp add: settled_def)
  have "settled_thread s' t"
    unfolding settled_thread_def
  proof (intro allI impI)
    fix w ws assume w: "waits_of s' t = w # ws"
    then have ws: "waits_of s t = w # ws" using s' by (simp add: set_thread_def)
    then have "check (passing s t) s t w = None" using assms(2) by (simp add: settled_def settled_thread_def)
    moreover have "wflags w AND SELECT_COOPERATIVE_SUSPEND = 0"
      using waits_known_D(3)[OF assms(3), of w t] ws by simp
    ultimately show "check (passing s' t) s' t w = None"
      using c unfolding check_None s' by (auto simp: set_thread_def is_thread_suspended_def check_rest_def Let_def split: option.splits)
  qed
  then have "settled s'" using other unfolding settled_def by metis
  moreover have "wait_inv x s'" "keeps s s'" unfolding s' using wait_inv_thread[OF assms(1)] keeps_thread by simp_all
  ultimately show ?thesis by (simp add: steady_def)
qed

end
