(* ===== verification/Wait_Start.thy ===== *)
theory Wait_Start
  imports Wait_Steady
begin

text \<open>
  The start of a wait, procedure calls, time and suspension, and the worlds that the server can reach
  between two requests.
\<close>

section \<open>The start of a wait\<close>

lemma check_rest_fields:
  assumes "rest (thread_of s' t) = rest (thread_of s t)" "frame s s'"
  shows "check f s' t w = check f s t w"
proof -
  have th: "system_apc (thread_of s' t) = system_apc (thread_of s t)" "user_apc (thread_of s' t) = user_apc (thread_of s t)"
    "ctx (thread_of s' t) = ctx (thread_of s t)" "suspend (thread_of s' t) = suspend (thread_of s t)"
    "bypass_proc_suspend (thread_of s' t) = bypass_proc_suspend (thread_of s t)" "process (thread_of s' t) = process (thread_of s t)"
    using assms(1) unfolding rest_def by (cases "thread_of s' t"; cases "thread_of s t"; simp)+
  have "check_rest s' t w = check_rest s t w" "is_thread_suspended s' t = is_thread_suspended s t"
    using assms(2) th by (simp_all add: check_rest_def is_thread_suspended_def frame_def Let_def)
  then show ?thesis by (simp only: check_def Let_def th)
qed

text \<open>An entry is added: the wait has one more object, the object one more reference.\<close>

definition push :: "world \<Rightarrow> nat \<Rightarrow> thread_wait \<Rightarrow> thread_wait list \<Rightarrow> ptr \<Rightarrow> world" where
  "push s t w ws obj =
     grab (set_waits (add_queue s obj (t, wid w, length (wobjs w))) t (w\<lparr>wobjs := wobjs w @ [obj]\<rparr> # ws)) obj"

lemma push_fields:
  "syncs (push s t w ws obj) = syncs s" "waits_of (push s t w ws obj) t = w\<lparr>wobjs := wobjs w @ [obj]\<rparr> # ws"
  "u \<noteq> t \<Longrightarrow> thread_of (push s t w ws obj) u = thread_of s u" "rest (thread_of (push s t w ws obj) t) = rest (thread_of s t)"
  "frame s (push s t w ws obj)" "thread_list (push s t w ws obj) = thread_list s"
  "wait_queue (push s t w ws obj) = (wait_queue s)(obj := wait_queue s obj @ [(t, wid w, length (wobjs w))])"
  "refs (push s t w ws obj) o' = refs s o' + (if o' = obj then 1 else 0)"
  by (auto simp: push_def grab_def grab_object_def set_waits_def set_thread_def add_queue_def frame_def obj_ops_def rest_def)

lemma nth_snoc: "i < length (xs @ [a]) \<and> (xs @ [a]) ! i = y \<longleftrightarrow> (i < length xs \<and> xs ! i = y) \<or> (i = length xs \<and> a = y)"
  by (auto simp: nth_append less_Suc_eq)

lemma entries_push:
  "entries_of t (w\<lparr>wobjs := wobjs w @ [obj]\<rparr>) o' = entries_of t w o' \<union> (if o' = obj then {(t, wid w, length (wobjs w))} else {})"
proof -
  have "wobjs (w\<lparr>wobjs := wobjs w @ [obj]\<rparr>) = wobjs w @ [obj]" "wid (w\<lparr>wobjs := wobjs w @ [obj]\<rparr>) = wid w" by simp_all
  then show ?thesis unfolding entries_of_def by (simp only: nth_snoc) auto
qed

lemma wait_inv_push:
  assumes inv: "wait_inv x s" and w: "waits_of s t = w # ws" and pl: "plain (syncs s obj)"
    and ds: "select w = SELECT_WAIT_ALL \<longrightarrow> obj \<notin> set (wobjs w)" and rm: "room (syncs s obj) (length (wait_queue s obj) + 1)"
  shows "wait_inv x (push s t w ws obj)"
proof -
  let ?s = "push s t w ws obj" and ?w = "w\<lparr>wobjs := wobjs w @ [obj]\<rparr>"
  have W: "waits_of ?s u = (if u = t then ?w # ws else waits_of s u)" for u by (cases "u = t") (simp_all add: push_fields)
  have new: "(t, wid w, length (wobjs w)) \<notin> set (wait_queue s obj)"
  proof
    assume "(t, wid w, length (wobjs w)) \<in> set (wait_queue s obj)"
    then obtain v where v: "v \<in> set (waits_of s t)" "wid v = wid w" "length (wobjs w) < length (wobjs v)"
      using wait_inv_D(3)[OF inv, of obj] by (auto simp: object_ok_def entries_of_def)
    have "wid w \<notin> wid ` set ws" using wait_inv_D(1)[OF inv, of t] w by simp
    then have "v \<notin> set ws" using v(2) by (metis imageI)
    then have "v = w" using v(1) w by simp
    then show False using v(3) by simp
  qed
  have "object_ok x ?s o'" for o'
  proof -
    have "(\<Union>u. \<Union>v \<in> set (waits_of ?s u). entries_of u v o') =
      (\<Union>u. \<Union>v \<in> set (waits_of s u). entries_of u v o') \<union> (if o' = obj then {(t, wid w, length (wobjs w))} else {})"
    proof -
      have "(\<Union>v \<in> set (waits_of ?s u). entries_of u v o') =
        (\<Union>v \<in> set (waits_of s u). entries_of u v o') \<union> (if u = t \<and> o' = obj then {(t, wid w, length (wobjs w))} else {})" for u
        using w entries_push[of t w obj o'] by (auto simp: W)
      then show ?thesis by (auto split: if_splits)
    qed
    then show ?thesis
      using wait_inv_D(3)[OF inv, of o'] new rm by (cases "o' = obj") (auto simp: object_ok_def push_fields)
  qed
  moreover have "wait_ok ?s u v" if "v \<in> set (waits_of ?s u)" for u v
  proof (cases "u = t \<and> v = ?w")
    case True
    have "wait_ok s t w" using wait_inv_D(2)[OF inv, of w t] w by simp
    then show ?thesis using True pl ds by (auto simp: wait_ok_def push_fields)
  next
    case False
    then have "wait_ok s u v" using that w by (intro wait_inv_D(2)[OF inv]) (auto simp: W split: if_splits)
    then show ?thesis by (simp add: wait_ok_def push_fields)
  qed
  moreover have "distinct (map wid (waits_of ?s u))" for u
    using wait_inv_D(1)[OF inv, of u] wait_inv_D(1)[OF inv, of t] w by (simp add: W)
  moreover have "distinct (thread_list ?s)" using wait_inv_D(4)[OF inv] by (simp add: push_fields)
  ultimately show ?thesis unfolding wait_inv_def by blast
qed

lemma add_queue_plain: "plain (syncs s obj) \<Longrightarrow> object_sync_add_queue s obj e = Inr (add_queue s obj e)"
  by (cases "syncs s obj")
    (auto simp: object_sync_add_queue_def event_sync_add_queue_def semaphore_sync_add_queue_def mutex_sync_add_queue_def)

definition fits :: "world \<Rightarrow> bool \<Rightarrow> ptr list \<Rightarrow> bool" where
  "fits s al objs =
     ((\<forall>obj \<in> set objs. plain (syncs s obj) \<and> room (syncs s obj) (length (wait_queue s obj) + length objs)) \<and> (al \<longrightarrow> distinct objs))"

lemma room_mono: "room y m \<Longrightarrow> n \<le> m \<Longrightarrow> room y n"
  by (cases y) auto

lemma add_queues_effect:
  assumes "wait_inv x s" "waits_of s t = w # ws" "\<forall>obj \<in> set objs. plain (syncs s obj) \<and> room (syncs s obj) (length (wait_queue s obj) + length objs)"
    "select w = SELECT_WAIT_ALL \<longrightarrow> distinct objs \<and> set objs \<inter> set (wobjs w) = {}"
  shows "\<exists>s'. add_queues s t objs = (s', None) \<and> wait_inv x s' \<and> waits_of s' t = w\<lparr>wobjs := wobjs w @ objs\<rparr> # ws \<and>
    syncs s' = syncs s \<and> (\<forall>u. u \<noteq> t \<longrightarrow> thread_of s' u = thread_of s u) \<and> rest (thread_of s' t) = rest (thread_of s t) \<and> frame s s'"
  using assms
proof (induction objs arbitrary: s w)
  case Nil
  then show ?case by simp
next
  case (Cons obj objs)
  let ?s = "push s t w ws obj" and ?w = "w\<lparr>wobjs := wobjs w @ [obj]\<rparr>"
  have pl: "plain (syncs s obj)" and rm: "room (syncs s obj) (length (wait_queue s obj) + length (obj # objs))"
    using Cons.prems(3) by simp_all
  have rm1: "room (syncs s obj) (length (wait_queue s obj) + 1)" by (rule room_mono[OF rm]) simp
  have inv: "wait_inv x ?s" by (rule wait_inv_push[OF Cons.prems(1,2) pl _ rm1]) (use Cons.prems(4) in auto)
  have "\<forall>o' \<in> set objs. plain (syncs ?s o') \<and> room (syncs ?s o') (length (wait_queue ?s o') + length objs)"
    using Cons.prems(3) room_mono by (fastforce simp: push_fields)
  moreover have "select ?w = SELECT_WAIT_ALL \<longrightarrow> distinct objs \<and> set objs \<inter> set (wobjs ?w) = {}" using Cons.prems(4) by auto
  ultimately obtain s' where s': "add_queues ?s t objs = (s', None)" "wait_inv x s'" "waits_of s' t = ?w\<lparr>wobjs := wobjs ?w @ objs\<rparr> # ws"
    "syncs s' = syncs ?s" "\<forall>u. u \<noteq> t \<longrightarrow> thread_of s' u = thread_of ?s u" "rest (thread_of s' t) = rest (thread_of ?s t)" "frame ?s s'"
    using Cons.IH[OF inv push_fields(2)] by blast
  have "add_queues s t (obj # objs) = (s', None)"
    using Cons.prems(2) add_queue_plain[OF pl] s'(1) by (simp add: push_def)
  then show ?case using s' frame_trans[OF push_fields(5)] by (simp add: push_fields)
qed

lemma wait_inv_new:
  assumes "wait_inv x s" "waits_known s" "t \<noteq> 0" "t \<in> set (thread_list s)" "wid w = next_wid s" "wobjs w = []"
  shows "wait_inv x ((set_waits s t (w # waits_of s t))\<lparr>next_wid := n\<rparr>)"
proof -
  let ?s = "(set_waits s t (w # waits_of s t))\<lparr>next_wid := n\<rparr>"
  have W: "waits_of ?s u = (if u = t then w # waits_of s t else waits_of s u)" for u by (simp add: set_waits_def set_thread_def)
  have F: "syncs ?s = syncs s" "wait_queue ?s = wait_queue s" "handles ?s = handles s" "thread_list ?s = thread_list s"
    by (simp_all add: set_waits_def set_thread_def)
  have "entries_of t w obj = {}" for obj using assms(6) by (simp add: entries_of_def)
  then have "(\<Union>v \<in> set (waits_of ?s u). entries_of u v obj) = (\<Union>v \<in> set (waits_of s u). entries_of u v obj)" for u obj by (simp add: W)
  then have "object_ok x ?s obj" for obj using wait_inv_D(3)[OF assms(1), of obj] by (simp add: object_ok_def F)
  moreover have "wait_ok ?s u v" if "v \<in> set (waits_of ?s u)" for u v
  proof (cases "u = t \<and> v = w")
    case True
    then show ?thesis using assms(3,4,6) by (simp add: wait_ok_def F)
  next
    case False
    then have "wait_ok s u v" using that by (intro wait_inv_D(2)[OF assms(1)]) (auto simp: W split: if_splits)
    then show ?thesis by (simp add: wait_ok_def F)
  qed
  moreover have "wid w \<notin> wid ` set (waits_of s t)" using waits_known_D(1)[OF assms(2)] assms(5) by fastforce
  then have "distinct (map wid (waits_of ?s u))" for u
    using wait_inv_D(1)[OF assms(1), of u] by (cases "u = t") (simp_all add: W)
  moreover have "distinct (thread_list ?s)" using wait_inv_D(4)[OF assms(1)] by (simp add: F)
  ultimately show ?thesis unfolding wait_inv_def by blast
qed

section \<open>The objects of a wait\<close>

definition named :: "world \<Rightarrow> u32 \<Rightarrow> ptr option" where
  "named s h = (case get_handle_obj (handles s) (cur_proc s) h SYNCHRONIZE None of Inl _ \<Rightarrow> None | Inr (_, obj) \<Rightarrow> Some obj)"

definition names :: "world \<Rightarrow> u32 list \<Rightarrow> ptr list" where
  "names s hs = List.map_filter (named s) hs"

lemma names_simps [simp]:
  "names s [] = []" "names s (h # hs) = (case named s h of None \<Rightarrow> names s hs | Some obj \<Rightarrow> obj # names s hs)"
  by (simp_all add: names_def List.map_filter_simps split: option.split)

lemma get_handle_obj_grab: "get_handle_obj (grab_object hs o') p h acc None = map_sum id (\<lambda>(k, obj). (grab_object k o', obj)) (get_handle_obj hs p h acc None)"
proof -
  have m: "get_magic_handle (grab_object hs o') h = get_magic_handle hs h" by (simp add: get_magic_handle_def grab_object_def Let_def)
  have t: "get_table (grab_object hs o') w = get_table hs w" for w by (cases w) (simp_all add: get_table_def process_handles_def grab_object_def)
  have h: "get_handle (grab_object hs o') p h = get_handle hs p h" "entry_at (grab_object hs o') wi = entry_at hs wi" for wi
    by (simp_all only: get_handle_def entry_at_def t)
  have g: "grab_object (grab_object hs o') obj = grab_object (grab_object hs obj) o'" for obj
    by (cases "obj = o'") (auto simp: grab_object_def fun_upd_twist)
  show ?thesis by (cases "get_handle hs p h") (simp_all add: get_handle_obj_def Let_def m h g)
qed

lemma named_grab [simp]: "named (grab s o') = named s"
proof
  fix h
  have "cur_proc (grab s o') = cur_proc s" "handles (grab s o') = grab_object (handles s) o'" by (simp_all add: grab_def cur_proc_def)
  then show "named (grab s o') h = named s h" by (auto simp: named_def get_handle_obj_grab split: sum.splits prod.splits)
qed

lemma names_grab [simp]: "names (grab s o') = names s"
  by (rule ext) (simp add: names_def)

lemma get_objects_step:
  "get_objects s (h # hs) objs =
     (case get_handle_obj (handles s) (cur_proc s) h SYNCHRONIZE None of
        Inl e \<Rightarrow> (s, objs, Some e) | Inr (k, obj) \<Rightarrow> get_objects (grab s obj) hs (obj # objs))"
  using get_handle_obj_Inr[of "handles s" "cur_proc s" h SYNCHRONIZE None] by (auto simp: grab_def split: sum.splits prod.splits)

text \<open>Nothing but references to objects and the number for the next wait may change.\<close>

definition alike :: "world \<Rightarrow> world \<Rightarrow> bool" where
  "alike s s' = (syncs s' = syncs s \<and> thread_of s' = thread_of s \<and> frame s s')"

lemma alike_refl [simp]: "alike s s" by (simp add: alike_def)

lemma alike_trans: "alike s s1 \<Longrightarrow> alike s1 s2 \<Longrightarrow> alike s s2" using frame_trans[of s s1 s2] by (simp add: alike_def)

lemma alike_keeps: "alike s s' \<Longrightarrow> keeps s s'" by (simp add: alike_def keeps_def)

lemma alike_grab: "alike s (grab s obj)" by (auto simp: alike_def grab_def grab_object_def frame_def obj_ops_def)

lemma get_objects_effect:
  assumes "wait_inv (\<lambda>o'. x o' + count_list acc o') s"
  shows "\<exists>s1 objs err. get_objects s hs acc = (s1, objs @ acc, err) \<and> wait_inv (\<lambda>o'. x o' + count_list (objs @ acc) o') s1 \<and>
    alike s s1 \<and> wait_queue s1 = wait_queue s \<and> set objs \<subseteq> set (names s hs) \<and> (err = None \<longrightarrow> objs = rev (names s hs))"
  using assms
proof (induction hs arbitrary: s acc)
  case Nil
  then show ?case by simp
next
  case (Cons h hs)
  show ?case
  proof (cases "get_handle_obj (handles s) (cur_proc s) h SYNCHRONIZE None")
    case (Inl e)
    then show ?thesis using Cons.prems by (intro exI[of _ s] exI[of _ "[]"] exI[of _ "Some e"]) (simp add: get_objects_step del: get_objects.simps)
  next
    case (Inr k)
    obtain hs' obj where k: "k = (hs', obj)" by (cases k)
    have n: "named s h = Some obj" using Inr k by (simp add: named_def)
    have inv: "wait_inv (\<lambda>o'. x o' + count_list (obj # acc) o') (grab s obj)"
    proof -
      have "(\<lambda>o'. x o' + count_list acc o')(obj := (x obj + count_list acc obj) + 1) = (\<lambda>o'. x o' + count_list (obj # acc) o')" by auto
      then show ?thesis using grab_effect(1)[OF Cons.prems, of obj] by metis
    qed
    obtain s1 objs err where 1: "get_objects (grab s obj) hs (obj # acc) = (s1, objs @ obj # acc, err)"
      "wait_inv (\<lambda>o'. x o' + count_list (objs @ obj # acc) o') s1" "alike (grab s obj) s1" "wait_queue s1 = wait_queue (grab s obj)"
      "set objs \<subseteq> set (names s hs)" "err = None \<longrightarrow> objs = rev (names s hs)"
      using Cons.IH[OF inv] by auto
    have "get_objects s (h # hs) acc = (s1, (objs @ [obj]) @ acc, err)" using 1(1) by (simp add: get_objects_step Inr k del: get_objects.simps)
    moreover have "wait_inv (\<lambda>o'. x o' + count_list ((objs @ [obj]) @ acc) o') s1" using 1(2) by simp
    moreover have "alike s s1" using alike_trans[OF alike_grab 1(3)] .
    moreover have "wait_queue s1 = wait_queue s" using 1(4) by (simp add: grab_def)
    moreover have "set (objs @ [obj]) \<subseteq> set (names s (h # hs))" using 1(5) n by auto
    moreover have "err = None \<longrightarrow> objs @ [obj] = rev (names s (h # hs))" using 1(6) n by simp
    ultimately show ?thesis by blast
  qed
qed

lemma release_all_effect:
  assumes "wait_inv (\<lambda>o'. x o' + count_list objs o') s" "\<forall>obj \<in> set objs. plain (syncs s obj)"
  shows "\<exists>s'. release_all s objs = Some s' \<and> wait_inv x s' \<and> alike s s'"
  using assms
proof (induction objs arbitrary: s)
  case Nil
  then show ?case by simp
next
  case (Cons obj objs)
  let ?x = "\<lambda>o'. x o' + count_list objs o'"
  have "wait_inv (?x(obj := ?x obj + 1)) s"
  proof -
    have "?x(obj := ?x obj + 1) = (\<lambda>o'. x o' + count_list (obj # objs) o')" by auto
    then show ?thesis using Cons.prems(1) by metis
  qed
  then obtain s1 where 1: "release s obj = Some s1" "wait_inv ?x s1" "syncs s1 = syncs s" "thread_of s1 = thread_of s" "frame s s1"
    using release_ok[of ?x obj s] Cons.prems(2) by auto
  obtain s' where s': "release_all s1 objs = Some s'" "wait_inv x s'" "alike s1 s'" using Cons.IH[OF 1(2)] Cons.prems(2) 1(3) by auto
  moreover have "alike s s1" using 1 by (simp add: alike_def)
  ultimately show ?case using 1(1) alike_trans by auto
qed

section \<open>The start of a wait\<close>

text \<open>A new wait is on top of the thread's stack, and nothing else has changed.\<close>

definition begun :: "(ptr \<Rightarrow> nat) \<Rightarrow> world \<Rightarrow> world \<Rightarrow> thread_wait \<Rightarrow> bool" where
  "begun x s s' w =
     (wait_inv x s' \<and> waits_of s' (current s) = w # waits_of s (current s) \<and> wid w = next_wid s \<and> syncs s' = syncs s \<and>
      (\<forall>u. u \<noteq> current s \<longrightarrow> thread_of s' u = thread_of s u) \<and> rest (thread_of s' (current s)) = rest (thread_of s (current s)) \<and>
      frame (s\<lparr>next_wid := next_wid s + 1\<rparr>) s')"

lemma wait_on_begins:
  assumes "wait_inv x s" "waits_known s" "current s \<noteq> 0" "current s \<in> set (thread_list s)" "fits s (op = SELECT_WAIT_ALL) objs" "wait_mem E"
  shows "\<exists>s' w. wait_on E s op objs flags wh = Some (s', None) \<and> begun x s s' w \<and> wflags w = flags"
proof -
  let ?t = "current s"
  let ?w = "\<lparr>wid = next_wid s, wobjs = [], select = op, wflags = flags, key = 0, cookie = 0, when = wh, user = False\<rparr>"
  let ?s = "(set_waits s ?t (?w # waits_of s ?t))\<lparr>next_wid := next_wid s + 1\<rparr>"
  have inv: "wait_inv x ?s" by (rule wait_inv_new[OF assms(1,2,3,4)]) simp_all
  have F: "syncs ?s = syncs s" "wait_queue ?s = wait_queue s" "waits_of ?s ?t = ?w # waits_of s ?t" "rest (thread_of ?s ?t) = rest (thread_of s ?t)"
    "frame (s\<lparr>next_wid := next_wid s + 1\<rparr>) ?s" "\<And>u. u \<noteq> ?t \<Longrightarrow> thread_of ?s u = thread_of s u"
    by (simp_all add: set_waits_def set_thread_def rest_def frame_def obj_ops_def)
  have r: "\<forall>obj \<in> set objs. plain (syncs ?s obj) \<and> room (syncs ?s obj) (length (wait_queue ?s obj) + length objs)"
    "select ?w = SELECT_WAIT_ALL \<longrightarrow> distinct objs \<and> set objs \<inter> set (wobjs ?w) = {}"
    using assms(5) F(1,2) by (simp_all add: fits_def)
  obtain s' where s': "add_queues ?s ?t objs = (s', None)" "wait_inv x s'" "waits_of s' ?t = ?w\<lparr>wobjs := wobjs ?w @ objs\<rparr> # waits_of s ?t"
    "syncs s' = syncs ?s" "\<forall>u. u \<noteq> ?t \<longrightarrow> thread_of s' u = thread_of ?s u" "rest (thread_of s' ?t) = rest (thread_of ?s ?t)" "frame ?s s'"
    using add_queues_effect[OF inv F(3) r] by blast
  have "wait_on E s op objs flags wh = Some (s', None)" using assms(6) s'(1) by (simp add: wait_on_def Let_def)
  moreover have "begun x s s' (?w\<lparr>wobjs := wobjs ?w @ objs\<rparr>)"
    using s' F frame_trans[OF F(5) s'(7)] by (simp add: begun_def)
  moreover have "wflags (?w\<lparr>wobjs := wobjs ?w @ objs\<rparr>) = flags" by simp
  ultimately show ?thesis by blast
qed

text \<open>The handles of a wait name objects that fit.\<close>

definition handles_fit :: "world \<Rightarrow> bool \<Rightarrow> u32 list \<Rightarrow> bool" where
  "handles_fit s al hs = fits s al (names s hs)"

lemma wait_inv_same_queues: "alike s s1 \<Longrightarrow> wait_queue s1 = wait_queue s \<Longrightarrow> fits s1 al objs = fits s al objs"
  by (simp add: fits_def alike_def)

lemma begun_alike: "alike s s1 \<Longrightarrow> begun x s1 s2 w \<Longrightarrow> begun x s s2 w"
proof -
  assume a: "alike s s1" and b: "begun x s1 s2 w"
  have "current s1 = current s" "next_wid s1 = next_wid s" "thread_of s1 = thread_of s" "syncs s1 = syncs s" using a by (simp_all add: alike_def frame_def)
  moreover have "frame (s\<lparr>next_wid := next_wid s + 1\<rparr>) s2" if "frame (s1\<lparr>next_wid := next_wid s + 1\<rparr>) s2"
    using that a by (simp add: alike_def frame_def obj_ops_def)
  ultimately show ?thesis using b by (simp add: begun_def)
qed

lemma begun_then_alike: "begun x s s1 w \<Longrightarrow> alike s1 s2 \<Longrightarrow> wait_inv y s2 \<Longrightarrow> begun y s s2 w"
  unfolding begun_def alike_def by (simp add: frame_def)

lemma wait_on_handles_begins:
  assumes inv: "wait_inv x s" and k: "waits_known s" and c: "current s \<noteq> 0" "current s \<in> set (thread_list s)"
    and fit: "handles_fit s (op = SELECT_WAIT_ALL) hs" and len: "length hs \<le> MAXIMUM_WAIT_OBJECTS"
  shows "(\<exists>s' w. wait_on_handles E s op hs flags wh = Some (s', None) \<and> begun x s s' w \<and> wflags w = flags) \<or>
    (\<exists>s' e. wait_on_handles E s op hs flags wh = Some (s', Some e) \<and> wait_inv x s' \<and> alike s s')"
proof -
  obtain s1 objs err where 1: "get_objects s hs [] = (s1, objs, err)" "wait_inv (\<lambda>o'. x o' + count_list objs o') s1" "alike s s1"
    "wait_queue s1 = wait_queue s" "set objs \<subseteq> set (names s hs)" "err = None \<longrightarrow> objs = rev (names s hs)"
    using get_objects_effect[of x "[]" s hs] inv by auto
  have pl: "\<forall>obj \<in> set objs. plain (syncs s obj)" using 1(5) fit by (auto simp: handles_fit_def fits_def)
  have s1: "waits_known s1" "current s1 = current s" "thread_list s1 = thread_list s" "syncs s1 = syncs s"
    using waits_known_keeps[OF k alike_keeps[OF 1(3)]] 1(3) by (simp_all add: alike_def frame_def)
  show ?thesis
  proof (cases "err = None \<and> wait_mem E")
    case True
    then have "fits s1 (op = SELECT_WAIT_ALL) (rev objs)"
      using fit 1(6) wait_inv_same_queues[OF 1(3,4)] by (simp add: handles_fit_def)
    then obtain s2 w where 2: "wait_on E s1 op (rev objs) flags wh = Some (s2, None)"
      "begun (\<lambda>o'. x o' + count_list objs o') s1 s2 w" "wflags w = flags"
      using wait_on_begins[OF 1(2) s1(1)] c s1(2,3) True by metis
    then obtain s3 where 3: "release_all s2 objs = Some s3" "wait_inv x s3" "alike s2 s3"
      using release_all_effect[of x objs s2] pl s1(4) by (auto simp: begun_def)
    have "wait_on_handles E s op hs flags wh = Some (s3, None)" using len 1(1) True 2(1) 3(1) by (simp add: wait_on_handles_def)
    moreover have "begun x s s3 w" using begun_then_alike[OF begun_alike[OF 1(3) 2(2)] 3(3,2)] .
    ultimately show ?thesis using 2(3) by blast
  next
    case False
    obtain s3 where 3: "release_all s1 objs = Some s3" "wait_inv x s3" "alike s1 s3"
      using release_all_effect[of x objs s1] 1(2) pl s1(4) by auto
    have "\<exists>e. wait_on_handles E s op hs flags wh = Some (s3, Some e)"
      using len 1(1) 3(1) False by (cases err) (auto simp: wait_on_handles_def wait_on_def)
    then show ?thesis using 3(2) alike_trans[OF 1(3) 3(3)] by blast
  qed
qed

text \<open>The worlds between two requests.\<close>

definition world_ok :: "world \<Rightarrow> bool" where
  "world_ok s =
     (wait_inv (\<lambda>_. 0) s \<and> settled s \<and> typed s \<and> waits_known s \<and> 0 \<notin> set (thread_list s) \<and> current s \<in> set (thread_list s))"

lemma steady_world_ok: "world_ok s \<Longrightarrow> steady (\<lambda>_. 0) s s' \<Longrightarrow> world_ok s'"
proof -
  assume ok: "world_ok s" and st: "steady (\<lambda>_. 0) s s'"
  then have "thread_list s' = thread_list s" "current s' = current s" by (simp_all add: steady_def keeps_def frame_def)
  then show ?thesis using ok st typed_keeps[of s s'] waits_known_keeps[of s s'] by (simp add: world_ok_def steady_def)
qed

text \<open>The fields of a thread that its waits do not touch, and the outer waits.\<close>

lemma check_begun: "rest (thread_of s' t) = rest (thread_of s t) \<Longrightarrow> frame (s\<lparr>next_wid := n\<rparr>) s' \<Longrightarrow> check f s' t w = check f s t w"
proof -
  assume a: "rest (thread_of s' t) = rest (thread_of s t)" "frame (s\<lparr>next_wid := n\<rparr>) s'"
  have "check f s' t w = check f (s\<lparr>next_wid := n\<rparr>) t w" by (rule check_rest_fields) (use a in simp_all)
  also have "\<dots> = check f s t w"
  proof -
    have "thread_of (s\<lparr>next_wid := n\<rparr>) = thread_of s" "process_suspend (s\<lparr>next_wid := n\<rparr>) = process_suspend s"
      "current_time (s\<lparr>next_wid := n\<rparr>) = current_time s" "monotonic_time (s\<lparr>next_wid := n\<rparr>) = monotonic_time s" by simp_all
    then show ?thesis by (simp only: check_def check_rest_def is_thread_suspended_def Let_def)
  qed
  finally show ?thesis .
qed

lemma left_passing: "obj.left_by y y' \<Longrightarrow> sig y' u \<Longrightarrow> sig y u"
  by (simp add: obj.left_by_def)

lemma settled_after:
  assumes "settled_thread s u" "waits_of s' u = waits_of s u" "\<And>obj. obj.left_by (syncs s obj) (syncs s' obj)"
    "rest (thread_of s' u) = rest (thread_of s u)" "frame (s\<lparr>next_wid := n\<rparr>) s'"
  shows "settled_thread s' u"
  unfolding settled_thread_def assms(2) check_begun[OF assms(4,5)]
proof (intro allI impI)
  fix w ws assume "waits_of s u = w # ws"
  then have "check (passing s u) s u w = None" using assms(1) by (simp add: settled_thread_def)
  then show "check (passing s' u) s u w = None" by (rule check_mono) (rule left_passing[OF assms(3)])
qed

lemma started_ok:
  assumes ok: "world_ok s" and inv: "wait_inv (\<lambda>_. 0) s'" and fr: "frame (s\<lparr>next_wid := next_wid s + 1\<rparr>) s'"
    and left: "\<And>obj. obj.left_by (syncs s obj) (syncs s' obj)"
    and others: "\<And>u. u \<noteq> current s \<Longrightarrow> thread_of s' u = thread_of s u" and r: "rest (thread_of s' (current s)) = rest (thread_of s (current s))"
    and w: "waits_of s' (current s) = waits_of s (current s) \<or>
      (\<exists>w. waits_of s' (current s) = w # waits_of s (current s) \<and> check (passing s' (current s)) s' (current s) w = None \<and>
        wid w = next_wid s \<and> cookie w \<noteq> 0 \<and> wflags w AND SELECT_COOPERATIVE_SUSPEND = 0)"
  shows "world_ok s'"
proof -
  let ?t = "current s"
  have parts: "settled s" "typed s" "waits_known s" using ok by (simp_all add: world_ok_def)
  have "settled_thread s' u" for u
  proof (cases "u = ?t")
    case False
    show ?thesis by (rule settled_after[OF _ _ left _ fr]) (use parts(1) others[OF False] in \<open>simp_all add: settled_def\<close>)
  next
    case True
    show ?thesis
    proof (cases "waits_of s' ?t = waits_of s ?t")
      case same: True
      show ?thesis by (rule settled_after[OF _ _ left _ fr]) (use parts(1) same r True in \<open>simp_all add: settled_def\<close>)
    next
      case False
      then show ?thesis using w True by (auto simp: settled_thread_def)
    qed
  qed
  moreover have "typed s'"
  proof -
    have "plain (syncs s obj) \<longrightarrow> plain (syncs s' obj)" "kind (syncs s' obj) = kind (syncs s obj)" for obj
      using left[of obj] by (simp_all add: obj.left_by_def)
    moreover have "obj_ops s' = obj_ops s" using fr by (simp add: frame_def obj_ops_def)
    ultimately show ?thesis using parts(2) by (simp add: typed_def)
  qed
  moreover have "waits_known s'"
    unfolding waits_known_def
  proof (intro allI ballI)
    fix u v assume v: "v \<in> set (waits_of s' u)"
    have n: "next_wid s' = next_wid s + 1" using fr by (simp add: frame_def)
    show "wid v < next_wid s' \<and> cookie v \<noteq> 0 \<and> wflags v AND SELECT_COOPERATIVE_SUSPEND = 0"
    proof (cases "v \<in> set (waits_of s u)")
      case True
      then show ?thesis using waits_known_D[OF parts(3) True] n by auto
    next
      case False
      then have "u = ?t" using v others[of u] by metis
      then show ?thesis using v w False n by auto
    qed
  qed
  moreover have "thread_list s' = thread_list s" "current s' = current s" using fr by (simp_all add: frame_def)
  ultimately show ?thesis using inv ok by (simp add: world_ok_def settled_def)
qed

lemma checked_plain_flags: "waits_of s t = w # ws \<Longrightarrow> wflags w AND SELECT_COOPERATIVE_SUSPEND = 0 \<Longrightarrow> checked s t = s"
  by (simp add: checked_def Let_def)

lemma start_wait_effect:
  assumes ok: "world_ok s" and b: "begun (\<lambda>_. 0) s s2 w" and fl: "wflags w AND SELECT_COOPERATIVE_SUSPEND = 0" and ck: "ck \<noteq> 0"
  shows "\<exists>s' d st. start_wait E s2 ck = Some (s', d, st) \<and> world_ok s'"
proof -
  let ?t = "current s"
  have B: "wait_inv (\<lambda>_. 0) s2" "waits_of s2 ?t = w # waits_of s ?t" "wid w = next_wid s" "syncs s2 = syncs s"
    "\<And>u. u \<noteq> ?t \<Longrightarrow> thread_of s2 u = thread_of s u" "rest (thread_of s2 ?t) = rest (thread_of s ?t)"
    "frame (s\<lparr>next_wid := next_wid s + 1\<rparr>) s2" using b by (simp_all add: begun_def)
  have cur: "current s2 = ?t" using B(7) by (simp add: frame_def)
  have "\<forall>obj \<in> set (wobjs w). plain (syncs s2 obj)" using wait_inv_D(2)[OF B(1), of w ?t] B(2) by (simp add: wait_ok_def)
  from check_wait_plain[OF B(2) this]
  have c: "check_wait wake s2 ?t = Some (s2, check (passing s2 ?t) s2 ?t w)" for wake by (simp only: checked_plain_flags[OF B(2) fl])
  have ended: "\<exists>s' st. end_wait s2 ?t status = Some (s', st) \<and> world_ok s'" if "\<forall>obj \<in> set (told w status). passing s2 ?t obj" for status
  proof -
    note pass = that
    obtain s' st where e: "end_wait s2 ?t status = Some (s', st)" "wait_inv (\<lambda>_. 0) s'" "waits_of s' ?t = waits_of s ?t" "same_but ?t s2 s'"
      "rest (thread_of s' ?t) = rest (thread_of s2 ?t)"
      using end_wait_effect[OF B(1,2) pass] by blast
    have "world_ok s'"
    proof (rule started_ok[OF ok e(2)])
      show "frame (s\<lparr>next_wid := next_wid s + 1\<rparr>) s'" using frame_trans[OF B(7)] e(4) by (simp add: same_but_def)
      show "obj.left_by (syncs s obj) (syncs s' obj)" for obj using e(4) B(4) by (simp add: same_but_def)
      show "thread_of s' u = thread_of s u" if "u \<noteq> ?t" for u using e(4) B(5)[OF that] that by (simp add: same_but_def)
      show "rest (thread_of s' ?t) = rest (thread_of s ?t)" using e(5) B(6) by simp
    qed (use e(3) in simp)
    then show ?thesis using e(1) by blast
  qed
  show ?thesis
  proof (cases "check (passing s2 ?t) s2 ?t w")
    case (Some status)
    have "\<forall>obj \<in> set (told w status). passing s2 ?t obj" using check_told[OF Some] by blast
    from ended[OF this] show ?thesis using c Some by (auto simp: start_wait_def cur Let_def)
  next
    case None
    show ?thesis
    proof (cases "when w \<noteq> TIMEOUT_INFINITE \<and> \<not> timer_mem E")
      case True
      from ended[of "Code STATUS_NO_MEMORY"] show ?thesis using c None True B(2) by (auto simp: start_wait_def cur Let_def told_def)
    next
      case False
      let ?w = "w\<lparr>cookie := ck, user := (when w \<noteq> TIMEOUT_INFINITE)\<rparr>" and ?ws = "waits_of s ?t"
      let ?s = "set_waits s2 ?t (?w # ?ws)"
      have run: "start_wait E s2 ck = Some (?s, False, Code STATUS_PENDING)"
        using c None False B(2) by (simp add: start_wait_def cur Let_def)
      have core: "map wait_core (?w # ?ws) = map wait_core (waits_of s2 ?t)" using B(2) by simp
      have "world_ok ?s"
      proof (rule started_ok[OF ok wait_inv_core[OF B(1) core]])
        show "frame (s\<lparr>next_wid := next_wid s + 1\<rparr>) ?s" using frame_trans[OF B(7) set_waits_fields(6)] .
        show "obj.left_by (syncs s obj) (syncs ?s obj)" for obj using B(4) by simp
        show "thread_of ?s u = thread_of s u" if "u \<noteq> ?t" for u using B(5)[OF that] that by simp
        show "rest (thread_of ?s ?t) = rest (thread_of s ?t)" using B(6) by (simp add: set_waits_def set_thread_def rest_def)
        have "check (passing ?s ?t) ?s ?t ?w = check (passing s2 ?t) s2 ?t w"
          by (simp only: check_set_waits set_waits_fields(1)) (rule check_core, simp)
        then have "check (passing ?s ?t) ?s ?t ?w = None" using None by simp
        then show "waits_of ?s ?t = ?ws \<or> (\<exists>v. waits_of ?s ?t = v # ?ws \<and> check (passing ?s ?t) ?s ?t v = None \<and>
            wid v = next_wid s \<and> cookie v \<noteq> 0 \<and> wflags v AND SELECT_COOPERATIVE_SUSPEND = 0)"
          using B(3) ck fl by (intro disjI2 exI[of _ ?w]) simp
      qed
      then show ?thesis using run by blast
    qed
  qed
qed

text \<open>The operations of a wait that are covered here: no signal, no keyed event, and objects that fit.\<close>

fun select_fits :: "world \<Rightarrow> select_op \<Rightarrow> bool" where
  "select_fits s (Op_Wait al hs) = handles_fit s al hs"
| "select_fits s (Op_Signal_And_Wait _ _) = False"
| "select_fits s (Op_Keyed _ _ _) = False"
| "select_fits s _ = True"

lemma alike_settled: "alike s s' \<Longrightarrow> settled s' = settled s"
  using settled_cong[of s' s] by (simp add: alike_def)

lemma alike_ok: "world_ok s \<Longrightarrow> alike s s' \<Longrightarrow> wait_inv (\<lambda>_. 0) s' \<Longrightarrow> world_ok s'"
  using steady_world_ok[of s s'] alike_settled[of s s'] alike_keeps[of s s'] by (simp add: world_ok_def steady_def)

lemma select_on_ok:
  assumes ok: "world_ok s" and fit: "select_fits s op" and ck: "ck \<noteq> 0" and fl: "flags AND SELECT_COOPERATIVE_SUSPEND = 0"
  shows "\<exists>s' d st. select_on E s op ck flags wh = Some (s', d, st) \<and> world_ok s'"
proof -
  have inv: "wait_inv (\<lambda>_. 0) s" and k: "waits_known s" and c: "current s \<noteq> 0" "current s \<in> set (thread_list s)"
    using ok unfolding world_ok_def by metis+
  show ?thesis
  proof (cases op)
    case Op_None
    show ?thesis
    proof (cases "wait_mem E")
      case True
      have "fits s (SELECT_NONE = SELECT_WAIT_ALL) []" by (simp add: fits_def)
      from wait_on_begins[OF inv k c this True]
      obtain s1 w where 1: "wait_on E s SELECT_NONE [] flags wh = Some (s1, None)" "begun (\<lambda>_. 0) s s1 w" "wflags w = flags" by blast
      then show ?thesis using start_wait_effect[OF ok 1(2) _ ck] fl Op_None by (auto simp: select_on_def)
    next
      case False
      then have "select_on E s op ck flags wh = Some (s, True, Code STATUS_NO_MEMORY)" using Op_None by (simp add: select_on_def wait_on_def)
      then show ?thesis using ok by blast
    qed
  next
    case (Op_Wait al hs)
    let ?op = "if al then SELECT_WAIT_ALL else SELECT_WAIT"
    show ?thesis
    proof (cases "length hs > MAXIMUM_WAIT_OBJECTS")
      case True
      then have "select_on E s op ck flags wh = Some (s, True, Code STATUS_INVALID_PARAMETER)" using Op_Wait by (simp add: select_on_def)
      then show ?thesis using ok by blast
    next
      case False
      have hf: "handles_fit s (?op = SELECT_WAIT_ALL) hs" using fit Op_Wait by (cases al) simp_all
      have len: "length hs \<le> MAXIMUM_WAIT_OBJECTS" using False by simp
      from wait_on_handles_begins[OF inv k c hf len, of E flags wh] show ?thesis
      proof (elim disjE exE conjE)
        fix s1 w assume 1: "wait_on_handles E s ?op hs flags wh = Some (s1, None)" "begun (\<lambda>_. 0) s s1 w" "wflags w = flags"
        obtain s' d st where 2: "start_wait E s1 ck = Some (s', d, st)" "world_ok s'"
          using start_wait_effect[OF ok 1(2) _ ck] 1(3) fl by blast
        have "select_on E s op ck flags wh = Some (s', d, st)" using 1(1) 2(1) False Op_Wait by (simp add: select_on_def)
        then show ?thesis using 2(2) by blast
      next
        fix s1 e assume 1: "wait_on_handles E s ?op hs flags wh = Some (s1, Some e)" "wait_inv (\<lambda>_. 0) s1" "alike s s1"
        have "select_on E s op ck flags wh = Some (s1, True, e)" using 1(1) False Op_Wait by (simp add: select_on_def)
        then show ?thesis using alike_ok[OF ok 1(3,2)] by blast
      qed
    qed
  next
    case Op_Invalid
    then have "select_on E s op ck flags wh = Some (s, True, Code STATUS_INVALID_PARAMETER)" by (simp add: select_on_def)
    then show ?thesis using ok by blast
  qed (use fit in simp_all)
qed

section \<open>Asynchronous procedure calls\<close>

lemma woken_steady:
  assumes "wake_thread s1 t = Some (s2, c)" "woken x t s1 s2 c" "keeps s s1" "\<And>u. u \<noteq> t \<Longrightarrow> settled_thread s1 u"
  shows "steady x s s2"
proof -
  have "settled_thread s2 u" for u
    using assms(2) settled_same[of t s1 s2 u] assms(4) by (cases "u = t") (auto simp: woken_def)
  moreover have "keeps s s2" using keeps_trans[OF assms(3) left_keeps[OF woken_left[OF assms(2)]]] .
  ultimately show ?thesis using assms(2) by (simp add: steady_def settled_def woken_def)
qed

lemma apc_settled:
  assumes "settled s" "th' = (thread_of s t)\<lparr>system_apc := a, user_apc := b\<rparr>"
    "system_apc (thread_of s t) = 0 \<longrightarrow> a = 0" "user_apc (thread_of s t) = 0 \<longrightarrow> b = 0"
  shows "settled (set_thread s t th')"
proof -
  have "settled_thread (set_thread s t th') t"
    unfolding settled_thread_def
  proof (intro allI impI)
    fix w ws assume w: "waits_of (set_thread s t th') t = w # ws"
    then have "check (passing s t) s t w = None" using assms(1,2) by (simp add: settled_def settled_thread_def set_thread_def)
    then show "check (passing (set_thread s t th') t) (set_thread s t th') t w = None"
      unfolding check_None assms(2) using assms(3,4)
      by (auto simp: set_thread_def is_thread_suspended_def check_rest_def Let_def split: if_splits option.splits)
  qed
  moreover have "settled_thread (set_thread s t th') u" if "u \<noteq> t" for u using assms(1) settled_thread_other[OF that] by (simp add: settled_def)
  ultimately show ?thesis unfolding settled_def by metis
qed

lemma append_apc_steady:
  assumes "wait_inv x s" "settled s"
  shows "\<exists>s' b. append_apc s t system = Some (s', b) \<and> steady x s s'"
proof -
  let ?th = "thread_of s t" and ?n = "if system then system_apc (thread_of s t) else user_apc (thread_of s t)"
  let ?th' = "if system then ?th\<lparr>system_apc := ?n + 1\<rparr> else ?th\<lparr>user_apc := ?n + 1\<rparr>"
  let ?s1 = "set_thread s t ?th'"
  have e: "?th' = ?th\<lparr>system_apc := (if system then ?n + 1 else system_apc ?th), user_apc := (if system then user_apc ?th else ?n + 1)\<rparr>" by simp
  have inv: "wait_inv x ?s1" by (rule wait_inv_thread[OF assms(1)]) simp
  have k: "keeps s ?s1" by (rule keeps_thread) simp
  show ?thesis
  proof (cases "?n = 0")
    case False
    have "settled ?s1" by (rule apc_settled[OF assms(2) e]) (use False in auto)
    then have "steady x s ?s1" using inv k by (simp add: steady_def)
    moreover have "append_apc s t system = Some (?s1, True)" using False unfolding append_apc_def Let_def by (simp only: if_False)
    ultimately show ?thesis by blast
  next
    case True
    obtain s2 c where 2: "wake_thread ?s1 t = Some (s2, c)" "woken x t ?s1 s2 c" using wake_thread_effect[OF inv] by blast
    have "steady x s s2" by (rule woken_steady[OF 2 k]) (use assms(2) settled_thread_other in \<open>simp add: settled_def\<close>)
    moreover have "append_apc s t system = Some (s2, True)" using True 2(1) unfolding append_apc_def Let_def by simp
    ultimately show ?thesis by blast
  qed
qed

lemma queue_apc_steady:
  assumes "wait_inv x s" "settled s"
  shows "\<exists>s' b. queue_apc sent s p target system = Some (s', b) \<and> steady x s s'"
proof -
  have "steady x s s" using assms by (simp add: steady_def)
  then have "\<exists>s' b. Some (s, False) = Some (s', b) \<and> steady x s s'" by blast
  then show ?thesis using append_apc_steady[OF assms] unfolding queue_apc_def by (auto split: option.split)
qed

lemma thread_dequeue_apc_steady:
  assumes "wait_inv x s" "settled s" "thread_dequeue_apc s t system = (s', b)"
  shows "steady x s s'"
proof (cases "s' = s")
  case True
  then show ?thesis using assms by (simp add: steady_def)
next
  case False
  let ?th = "thread_of s t"
  obtain th' where s': "s' = set_thread s t th'"
    "th' = ?th\<lparr>system_apc := (if system then system_apc ?th - 1 else system_apc ?th), user_apc := (if system then user_apc ?th else user_apc ?th - 1)\<rparr>"
    using assms(3) False by (auto simp: thread_dequeue_apc_def Let_def split: if_splits)
  have "settled s'" unfolding s'(1) by (rule apc_settled[OF assms(2) s'(2)]) simp_all
  moreover have "waits th' = waits ?th" using s'(2) by simp
  ultimately show ?thesis using wait_inv_thread[OF assms(1)] keeps_thread unfolding s'(1) by (simp add: steady_def)
qed

section \<open>Suspension of processes\<close>

lemma stop_thread_settled:
  assumes "settled s" "waits_known s"
  shows "settled (stop_thread mem s t)"
proof (cases "ctx (thread_of s t) \<noteq> None \<or> \<not> mem")
  case True
  then show ?thesis using assms by (simp add: stop_thread_def)
next
  case False
  let ?th' = "(thread_of s t)\<lparr>ctx := Some \<lparr>cooperative = False, native_flags = 0, wow_flags = 0\<rparr>\<rparr>"
  have e: "stop_thread mem s t = set_thread s t ?th'" using False by (simp add: stop_thread_def Let_def)
  have "settled_thread (set_thread s t ?th') t"
    unfolding settled_thread_def
  proof (intro allI impI)
    fix w ws assume "waits_of (set_thread s t ?th') t = w # ws"
    then have ws: "waits_of s t = w # ws" by (simp add: set_thread_def)
    then have "check (passing s t) s t w = None" using assms(1) by (simp add: settled_def settled_thread_def)
    moreover have "wflags w AND SELECT_COOPERATIVE_SUSPEND = 0" using waits_known_D(3)[OF assms(2), of w t] ws by simp
    ultimately show "check (passing (set_thread s t ?th') t) (set_thread s t ?th') t w = None"
      using False unfolding check_None by (auto simp: set_thread_def is_thread_suspended_def check_rest_def Let_def)
  qed
  moreover have "settled_thread (set_thread s t ?th') u" if "u \<noteq> t" for u using assms(1) settled_thread_other[OF that] by (simp add: settled_def)
  ultimately show ?thesis unfolding e settled_def by metis
qed

lemma stop_thread_set: "\<exists>th. stop_thread mem s t = set_thread s t th \<and> waits th = waits_of s t"
proof (cases "ctx (thread_of s t) \<noteq> None \<or> \<not> mem")
  case True
  then show ?thesis by (intro exI[of _ "thread_of s t"]) (simp add: stop_thread_def set_thread_def)
next
  case False
  let ?th = "(thread_of s t)\<lparr>ctx := Some \<lparr>cooperative = False, native_flags = 0, wow_flags = 0\<rparr>\<rparr>"
  have "stop_thread mem s t = set_thread s t ?th" "waits ?th = waits_of s t" using False by (simp_all add: stop_thread_def Let_def)
  then show ?thesis by blast
qed

lemma stop_threads_steady:
  assumes "wait_inv x s" "settled s" "waits_known s"
  shows "steady x s (stop_threads mem s ts)"
  using assms
proof (induction ts arbitrary: s)
  case Nil
  then show ?case by (simp add: steady_def)
next
  case (Cons t ts)
  let ?s = "stop_thread (mem t) s t"
  obtain th where th: "?s = set_thread s t th" "waits th = waits_of s t" using stop_thread_set by blast
  have k: "wait_inv x ?s" "keeps s ?s" using wait_inv_thread[OF Cons.prems(1) th(2)] keeps_thread[OF th(2)] th(1) by simp_all
  have "steady x ?s (stop_threads mem ?s ts)"
    using Cons.IH[OF k(1) stop_thread_settled[OF Cons.prems(2,3)] waits_known_keeps[OF Cons.prems(3) k(2)]] .
  then show ?case using Cons steady_trans[OF k(2)] by simp
qed

lemma wake_threads_steady:
  assumes "wait_inv x s"
    and "\<And>u. settled_thread s u \<or> (u \<in> set ts \<and> \<not> bypass_proc_suspend (thread_of s u) \<and> suspend (thread_of s u) = 0)"
  shows "\<exists>s'. wake_threads s ts = Some s' \<and> steady x s s'"
  using assms
proof (induction ts arbitrary: s)
  case Nil
  then have "settled s" by (simp add: settled_def)
  then show ?case using Nil by (simp add: steady_def)
next
  case (Cons t ts)
  show ?case
  proof (cases "\<not> bypass_proc_suspend (thread_of s t) \<and> suspend (thread_of s t) = 0")
    case False
    have "settled_thread s u \<or> (u \<in> set ts \<and> \<not> bypass_proc_suspend (thread_of s u) \<and> suspend (thread_of s u) = 0)" for u
      using Cons.prems(2)[of u] False by auto
    from Cons.IH[OF Cons.prems(1) this] show ?thesis using False by auto
  next
    case True
    obtain s1 c where 1: "wake_thread s t = Some (s1, c)" "woken x t s s1 c" using wake_thread_effect[OF Cons.prems(1)] by blast
    have w: "wait_inv x s1" "settled_thread s1 t" "same_but t s s1" using 1(2) by (simp_all add: woken_def)
    have "settled_thread s1 u \<or> (u \<in> set ts \<and> \<not> bypass_proc_suspend (thread_of s1 u) \<and> suspend (thread_of s1 u) = 0)" for u
      using Cons.prems(2)[of u] w settled_same[OF w(3), of u] by (cases "u = t") (auto simp: same_but_def)
    from Cons.IH[OF w(1) this] obtain s' where "wake_threads s1 ts = Some s'" "steady x s1 s'" by blast
    then show ?thesis using 1(1) True steady_trans[OF left_keeps[OF woken_left[OF 1(2)]]] by auto
  qed
qed

lemma set_process_suspend:
  assumes "wait_inv x s"
  shows "wait_inv x (s\<lparr>process_suspend := f\<rparr>)"
  using assms wait_inv_cong[of "s\<lparr>process_suspend := f\<rparr>" s x] by simp

text \<open>A thread that is suspended now, or as much as before, sleeps on.\<close>

lemma settled_process_suspend:
  assumes "settled_thread s u" "is_thread_suspended s u \<longrightarrow> is_thread_suspended (s\<lparr>process_suspend := f\<rparr>) u"
  shows "settled_thread (s\<lparr>process_suspend := f\<rparr>) u"
  unfolding settled_thread_def
proof (intro allI impI)
  fix w ws assume "waits_of (s\<lparr>process_suspend := f\<rparr>) u = w # ws"
  then have "check (passing s u) s u w = None" using assms(1) by (simp add: settled_thread_def)
  then show "check (passing (s\<lparr>process_suspend := f\<rparr>) u) (s\<lparr>process_suspend := f\<rparr>) u w = None"
    unfolding check_None using assms(2) by (auto simp: check_rest_def)
qed

lemma steady_shape:
  assumes "typed s" "waits_known s" "0 \<notin> set (thread_list s)" "current s \<in> set (thread_list s)" "steady (\<lambda>_. 0) s s'"
  shows "world_ok s'"
proof -
  have "thread_list s' = thread_list s" "current s' = current s" using assms(5) by (simp_all add: steady_def keeps_def frame_def)
  then show ?thesis using assms typed_keeps[of s s'] waits_known_keeps[of s s'] by (simp add: world_ok_def steady_def)
qed

lemma suspend_process_ok:
  assumes "world_ok s"
  shows "world_ok (suspend_process mem s p)"
proof -
  let ?s = "s\<lparr>process_suspend := (process_suspend s)(p := process_suspend s p + 1)\<rparr>"
  have ok: "wait_inv (\<lambda>_. 0) s" "settled s" using assms by (simp_all add: world_ok_def)
  have "settled_thread ?s u" for u
    by (rule settled_process_suspend) (use ok(2) in \<open>auto simp: settled_def is_thread_suspended_def Let_def split: option.splits\<close>)
  then have "world_ok ?s"
    using assms set_process_suspend[OF ok(1)] by (simp add: world_ok_def settled_def typed_def obj_ops_def waits_known_def)
  moreover from this have "world_ok (stop_threads mem ?s ts)" for ts
    using steady_world_ok[OF _ stop_threads_steady] by (simp add: world_ok_def)
  ultimately show ?thesis by (simp only: suspend_process_def Let_def split: if_split) simp
qed

lemma resume_process_ok:
  assumes "world_ok s" "process_suspend s p \<noteq> 0"
  shows "\<exists>s'. resume_process s p = Some s' \<and> world_ok s'"
proof -
  let ?f = "(process_suspend s)(p := process_suspend s p - 1)"
  let ?s = "s\<lparr>process_suspend := ?f\<rparr>"
  have ok: "wait_inv (\<lambda>_. 0) s" "settled s" using assms(1) by (simp_all add: world_ok_def)
  have inv: "wait_inv (\<lambda>_. 0) ?s" by (rule set_process_suspend[OF ok(1)])
  have shape: "typed ?s" "waits_known ?s" "0 \<notin> set (thread_list ?s)" "current ?s \<in> set (thread_list ?s)"
    using assms(1) by (simp_all add: world_ok_def typed_def obj_ops_def waits_known_def)
  show ?thesis
  proof (cases "process_suspend s p = 1")
    case False
    then have "?f p \<noteq> 0" using assms(2) by simp
    then have "settled_thread ?s u" for u
      by (intro settled_process_suspend) (use ok(2) in \<open>auto simp: settled_def is_thread_suspended_def Let_def split: option.splits\<close>)
    then have "world_ok ?s" using inv shape by (simp add: world_ok_def settled_def)
    then show ?thesis using False assms(2) by (simp add: resume_process_def Let_def)
  next
    case True
    have "settled_thread ?s u \<or> (u \<in> set (process_threads s p) \<and> \<not> bypass_proc_suspend (thread_of ?s u) \<and> suspend (thread_of ?s u) = 0)" for u
    proof (cases "u \<in> set (process_threads s p) \<and> \<not> bypass_proc_suspend (thread_of s u) \<and> suspend (thread_of s u) = 0")
      case False
      show ?thesis
      proof (cases "waits_of s u")
        case Nil
        then show ?thesis by (simp add: settled_thread_def)
      next
        case (Cons w ws)
        then have "u \<in> set (thread_list s)" using wait_inv_D(2)[OF ok(1), of w u] by (simp add: wait_ok_def)
        then have "process (thread_of s u) \<noteq> p \<or> bypass_proc_suspend (thread_of s u) \<or> suspend (thread_of s u) \<noteq> 0"
          using False by (auto simp: process_threads_def)
        then have "is_thread_suspended s u \<longrightarrow> is_thread_suspended ?s u" by (auto simp: is_thread_suspended_def Let_def)
        then have "settled_thread ?s u" using ok(2) by (intro settled_process_suspend) (simp_all add: settled_def)
        then show ?thesis ..
      qed
    qed simp
    from wake_threads_steady[OF inv this]
    obtain s' where "wake_threads ?s (process_threads s p) = Some s'" "steady (\<lambda>_. 0) ?s s'" by blast
    moreover from this(2) have "world_ok s'" by (rule steady_shape[OF shape])
    ultimately show ?thesis using True by (simp add: resume_process_def Let_def)
  qed
qed

section \<open>Time\<close>

text \<open>The deadline of a wait has passed, as \<^verbatim>\<open>check_wait\<close> compares it.\<close>

definition expired :: "world \<Rightarrow> thread_wait \<Rightarrow> bool" where
  "expired s w = (when w \<ge> 0 \<and> when w \<le> current_time s \<or> when w < 0 \<and> - when w \<le> monotonic_time s)"

definition timers_cover :: "world \<Rightarrow> (nat \<times> nat) list \<Rightarrow> bool" where
  "timers_cover s ts =
     (\<forall>t \<in> set (thread_list s). case waits_of s t of [] \<Rightarrow> True | w # _ \<Rightarrow> expired s w \<longrightarrow> (t, wid w) \<in> set ts)"

lemma set_current_time_fields [simp]:
  "thread_of (set_current_time s now ticks) = thread_of s" "syncs (set_current_time s now ticks) = syncs s"
  "wait_queue (set_current_time s now ticks) = wait_queue s" "handles (set_current_time s now ticks) = handles s"
  "thread_list (set_current_time s now ticks) = thread_list s" "current (set_current_time s now ticks) = current s"
  "next_wid (set_current_time s now ticks) = next_wid s" "process_suspend (set_current_time s now ticks) = process_suspend s"
  by (simp_all add: set_current_time_def)

lemma suspended_set_time [simp]: "is_thread_suspended (set_current_time s now ticks) t = is_thread_suspended s t"
  by (simp add: is_thread_suspended_def)

lemma check_rest_time: "check_rest s t w = None \<Longrightarrow> \<not> expired s' w \<Longrightarrow> thread_of s' = thread_of s \<Longrightarrow> check_rest s' t w = None"
  unfolding check_rest_def expired_def by (auto split: if_splits)

lemma time_passes:
  assumes ok: "world_ok s" and cov: "timers_cover (set_current_time s now ticks) ts"
  shows "\<exists>s'. run_timeouts (set_current_time s now ticks) ts = Some s' \<and> world_ok s'"
proof -
  let ?s = "set_current_time s now ticks"
  have parts: "wait_inv (\<lambda>_. 0) s" "settled s" "typed s" "waits_known s" using ok by (simp_all add: world_ok_def)
  have inv: "wait_inv (\<lambda>_. 0) ?s" using parts(1) wait_inv_cong[of ?s s] by simp
  have known: "waits_known ?s" using parts(4) by (simp add: waits_known_def)
  have "settled_thread ?s u \<or> (\<not> is_thread_suspended ?s u \<and> (\<exists>i. map wid (take 1 (waits_of ?s u)) = [i] \<and> (u, i) \<in> set ts))" for u
  proof (cases "waits_of s u")
    case Nil
    then show ?thesis by (simp add: settled_thread_def)
  next
    case (Cons w ws)
    have c: "check (passing s u) s u w = None" using parts(2) Cons by (simp add: settled_def settled_thread_def)
    show ?thesis
    proof (cases "expired ?s w \<and> \<not> is_thread_suspended s u")
      case True
      have "u \<in> set (thread_list s)" using wait_inv_D(2)[OF parts(1), of w u] Cons by (simp add: wait_ok_def)
      then show ?thesis using cov True Cons by (auto simp: timers_cover_def dest!: bspec[where x = u])
    next
      case False
      have "check (passing ?s u) ?s u w = None"
        using c check_rest_time[of s u w ?s] False unfolding check_None by auto
      then show ?thesis using Cons by (simp add: settled_thread_def)
    qed
  qed
  from run_timeouts_steady[OF inv known this]
  obtain s' where s': "run_timeouts ?s ts = Some s'" "steady (\<lambda>_. 0) ?s s'" by blast
  have "typed ?s" using parts(3) by (simp add: typed_def obj_ops_def)
  then have "world_ok s'"
    using s'(2) ok known typed_keeps[of ?s s'] waits_known_keeps[of ?s s'] by (simp add: world_ok_def steady_def keeps_def frame_def)
  then show ?thesis using s'(1) by blast
qed

section \<open>The server between two requests\<close>

inductive server_step :: "world \<Rightarrow> world \<Rightarrow> bool" where
  event_op: "req_event_op s h op = Some (s', r) \<Longrightarrow> server_step s s'"
| release_semaphore: "req_release_semaphore s h n = Some (s', q) \<Longrightarrow> server_step s s'"
| release_mutex: "req_release_mutex s h = Some (s', m) \<Longrightarrow> server_step s s'"
| select: "select_fits s sel \<Longrightarrow> ck \<noteq> 0 \<Longrightarrow> flags AND SELECT_COOPERATIVE_SUSPEND = 0 \<Longrightarrow>
    select_on E s sel ck flags wh = Some (s', d, st) \<Longrightarrow> server_step s s'"
| timers: "timers_cover (set_current_time s now ticks) ts \<Longrightarrow> run_timeouts (set_current_time s now ticks) ts = Some s' \<Longrightarrow> server_step s s'"
| suspend: "suspend_thread mem s t = (s', c) \<Longrightarrow> server_step s s'"
| resume: "resume_thread s t = Some (s', k) \<Longrightarrow> server_step s s'"
| suspend_process: "server_step s (suspend_process stopped s p)"
| resume_process: "resume_process s p = Some s' \<Longrightarrow> server_step s s'"
| queue_apc: "queue_apc sent s p target system = Some (s', b) \<Longrightarrow> server_step s s'"
| dequeue_apc: "thread_dequeue_apc s t system = (s', b) \<Longrightarrow> server_step s s'"
| switch: "t \<in> set (thread_list s) \<Longrightarrow> server_step s (s\<lparr>current := t\<rparr>)"

text \<open>Nobody waits yet, and each owned mutex has the reference of its owner.\<close>

definition fresh_world :: "world \<Rightarrow> bool" where
  "fresh_world s =
     (distinct (thread_list s) \<and> 0 \<notin> set (thread_list s) \<and> current s \<in> set (thread_list s) \<and> (\<forall>t. waits_of s t = []) \<and>
      (\<forall>obj. wait_queue s obj = [] \<and> held (syncs s obj) \<le> refs s obj \<and> room (syncs s obj) 0) \<and> typed s)"

inductive reachable :: "world \<Rightarrow> bool" where
  fresh: "fresh_world s \<Longrightarrow> reachable s"
| step: "reachable s \<Longrightarrow> server_step s s' \<Longrightarrow> reachable s'"

lemma fresh_ok: "fresh_world s \<Longrightarrow> world_ok s"
  by (simp add: fresh_world_def world_ok_def wait_inv_def object_ok_def settled_def settled_thread_def waits_known_def)

lemma switch_ok:
  assumes "world_ok s" "t \<in> set (thread_list s)"
  shows "world_ok (s\<lparr>current := t\<rparr>)"
proof -
  let ?s = "s\<lparr>current := t\<rparr>"
  have "wait_inv (\<lambda>_. 0) ?s" using assms(1) wait_inv_cong[of ?s s] by (simp add: world_ok_def)
  moreover have "settled ?s"
  proof -
    have f: "thread_of ?s = thread_of s" "process_suspend ?s = process_suspend s" "current_time ?s = current_time s"
      "monotonic_time ?s = monotonic_time s" "syncs ?s = syncs s" by simp_all
    have "check f ?s u w = check f s u w" for f u w by (simp only: check_def check_rest_def is_thread_suspended_def Let_def f)
    then show ?thesis using assms(1) by (simp add: world_ok_def settled_def settled_thread_def)
  qed
  ultimately show ?thesis using assms by (simp add: world_ok_def typed_def obj_ops_def waits_known_def)
qed

lemma requests_ok:
  assumes "world_ok s"
  shows "\<exists>s' r. req_event_op s h op = Some (s', r) \<and> world_ok s'"
    and "\<exists>s' q. req_release_semaphore s h n = Some (s', q) \<and> world_ok s'"
    and "\<exists>s' m. req_release_mutex s h = Some (s', m) \<and> world_ok s'"
    and "\<exists>s' k. resume_thread s t = Some (s', k) \<and> world_ok s'"
    and "\<exists>s' b. queue_apc sent s p target system = Some (s', b) \<and> world_ok s'"
    and "suspend_thread mem s t = (s', c) \<Longrightarrow> world_ok s'"
    and "thread_dequeue_apc s t system = (s', b) \<Longrightarrow> world_ok s'"
proof -
  have parts: "wait_inv (\<lambda>_. 0) s" "settled s" "typed s" "waits_known s" and c: "current s \<noteq> 0" using assms unfolding world_ok_def by metis+
  note ok = steady_world_ok[OF assms]
  show "\<exists>s' r. req_event_op s h op = Some (s', r) \<and> world_ok s'" using req_event_op_steady[OF parts(1-3)] ok by blast
  show "\<exists>s' q. req_release_semaphore s h n = Some (s', q) \<and> world_ok s'" using req_release_semaphore_steady[OF parts(1-3)] ok by blast
  show "\<exists>s' m. req_release_mutex s h = Some (s', m) \<and> world_ok s'" using req_release_mutex_steady[OF parts(1-3) c] ok by blast
  show "\<exists>s' k. resume_thread s t = Some (s', k) \<and> world_ok s'" using resume_thread_steady[OF parts(1,2)] ok by blast
  show "\<exists>s' b. queue_apc sent s p target system = Some (s', b) \<and> world_ok s'" using queue_apc_steady[OF parts(1,2)] ok by blast
  show "world_ok s'" if "thread_dequeue_apc s t system = (s', b)" using thread_dequeue_apc_steady[OF parts(1,2) that] ok by blast
  show "world_ok s'" if "suspend_thread mem s t = (s', c)" using suspend_thread_steady[OF parts(1,2,4) that] ok by blast
qed

lemma server_step_ok: "server_step s s' \<Longrightarrow> world_ok s \<Longrightarrow> world_ok s'"
proof (induction rule: server_step.induct)
  case (event_op s h op s' r)
  then show ?case using requests_ok(1)[of s h op] by auto
next
  case (release_semaphore s h n s' q)
  then show ?case using requests_ok(2)[of s h n] by auto
next
  case (release_mutex s h s' m)
  then show ?case using requests_ok(3)[of s h] by auto
next
  case (select s sel ck flags E wh s' d st)
  then show ?case using select_on_ok[of s sel ck flags E wh] by auto
next
  case (timers s now ticks ts s')
  then show ?case using time_passes[of s now ticks ts] by auto
next
  case (suspend mem s t s' c)
  then show ?case using requests_ok(6) by blast
next
  case (resume s t s' k)
  then show ?case using requests_ok(4)[of s t] by auto
next
  case (suspend_process s stopped p)
  then show ?case by (rule suspend_process_ok)
next
  case (resume_process s p s')
  then have "process_suspend s p \<noteq> 0" by (cases "process_suspend s p = 0") (simp_all add: resume_process_def)
  then show ?case using resume_process_ok[of s p] resume_process by auto
next
  case (queue_apc sent s p target system s' b)
  then show ?case using requests_ok(5)[of s sent p target system] by auto
next
  case (dequeue_apc s t system s' b)
  then show ?case using requests_ok(7) by blast
next
  case (switch t s)
  then show ?case using switch_ok by blast
qed

lemma reachable_ok: "reachable s \<Longrightarrow> world_ok s"
  by (induction rule: reachable.induct) (use fresh_ok server_step_ok in blast)+

end
