(* ===== verification/Wait_Properties.thy ===== *)
theory Wait_Properties
  imports Wait_Start WFUSync_Waiters
begin

text \<open>
  Properties of the waits of threads.
\<close>

section \<open>An example world\<close>

lemma handle_is_global_code [code]: "handle_is_global h \<longleftrightarrow> h XOR HANDLE_OBFUSCATOR \<le> 0x3fffffc"
  by (simp add: handle_is_global_def MAX_HANDLE_ENTRIES_def word_le_nat_alt)

text \<open>Two auto-reset events, 16 with the handle 4 and 32 with the handle 8, and three threads of one process.\<close>

definition two_events :: world where
  "two_events =
     \<lparr>handles = \<lparr>kobjs = \<lambda>_. \<lparr>kobject.refcount = 1, handle_count = 1, ops = event_ops, is_permanent = False\<rparr>,
        types = \<lambda>_. \<lparr>type_handles = 2, type_handle_max = 2\<rparr>,
        ptables = [Some \<lparr>handle_table.count = 32, last = 1, free = 2,
          entries = \<lparr>eptr = 16, access = 0x1f0003\<rparr> # \<lparr>eptr = 32, access = 0x1f0003\<rparr> # replicate 30 \<lparr>eptr = 0, access = 0\<rparr>\<rparr>],
        global_table = None, cur_process = 0, cur_process_obj = 0, cur_thread_obj = 0, cur_thread_token = 0,
        cur_process_token = 0, cur_impersonation_token = 0\<rparr>,
      shmem = shm_start 64,
      syncs = \<lambda>_. Event \<lparr>manual = False, signaled = False, event_wfusync = None\<rparr>,
      wait_queue = \<lambda>_. [], wfusync_mutexes = [], thread_list = [1, 2, 3],
      thread_of = \<lambda>_. \<lparr>process = 0, mutex_list = [], waits = [], system_apc = 0, user_apc = 0, ctx = None, suspend_cookie = 0,
        suspend = 0, bypass_proc_suspend = False\<rparr>,
      process_suspend = \<lambda>_. 0, current = 1, current_time = 5, monotonic_time = 5, next_wid = 1, wakeups = []\<rparr>"

lemma two_events_fresh: "fresh_world two_events"
  by (simp add: fresh_world_def two_events_def typed_def obj_ops_def event_ops_def semaphore_ops_def mutex_ops_def)

abbreviation all_mem :: wait_env where "all_mem \<equiv> \<lparr>wait_mem = True, timer_mem = True\<rparr>"

definition after_select :: "world \<Rightarrow> select_op \<Rightarrow> nat \<Rightarrow> int \<Rightarrow> world" where
  "after_select s op ck wh = fst (the (select_on all_mem s op ck 0 wh))"

lemma after_select_step:
  assumes "reachable s" "select_fits s op" "ck \<noteq> 0"
  shows "reachable (after_select s op ck wh)"
proof -
  have "world_ok s" using reachable_ok[OF assms(1)] .
  then obtain s' d st where s': "select_on all_mem s op ck 0 wh = Some (s', d, st)"
    using select_on_ok[of s op ck 0 all_mem wh] assms(2,3) by auto
  have "server_step s s'" by (rule server_step.select[OF assms(2,3) _ s']) simp
  then show ?thesis using reachable.step[OF assms(1)] s' by (simp add: after_select_def)
qed

text \<open>Thread 1 waits for the event 16.\<close>

definition one_waits :: world where "one_waits = after_select two_events (Op_Wait False [4]) 7 TIMEOUT_INFINITE"

section \<open>One thread is woken\<close>

lemma wake_thread_fuel_awake: "waits_of s t = [] \<Longrightarrow> wake_thread_fuel (Suc n) s t = Some (s, 0)"
  by simp

lemma wake_thread_one:
  assumes inv: "wait_inv x s" and w: "waits_of s t = [w]" and fl: "wflags w AND SELECT_COOPERATIVE_SUSPEND = 0"
    and c: "check (passing s t) s t w = Some status"
  shows "\<exists>s'. wake_thread s t = Some (s', 1) \<and> waits_of s' t = [] \<and> (\<forall>u. u \<noteq> t \<longrightarrow> thread_of s' u = thread_of s u) \<and> frame s s' \<and>
    syncs s' = (\<lambda>obj. if obj \<in> set (told w status) then sat (syncs s obj) t else syncs s obj)"
proof -
  have "\<forall>obj \<in> set (wobjs w). plain (syncs s obj)" using wait_inv_D(2)[OF inv, of w t] w by (simp add: wait_ok_def)
  from check_wait_plain[OF w this] have cw: "check_wait wake s t = Some (s, Some status)" for wake
    by (simp only: checked_plain_flags[OF w fl] c)
  have "\<forall>obj \<in> set (told w status). passing s t obj" using check_told[OF c] by blast
  from end_wait_effect[OF inv w this] obtain s1 st where 1: "end_wait s t status = Some (s1, st)" "waits_of s1 t = []" "same_but t s s1"
    "syncs s1 = (\<lambda>obj. if obj \<in> set (told w status) then sat (syncs s obj) t else syncs s obj)" by blast
  let ?s = "if cookie w \<noteq> 0 then send_thread_wakeup s1 t (cookie w) st else s1"
  have 2: "waits_of ?s t = []" "syncs ?s = syncs s1" using 1(2) by simp_all
  have same: "same_but t s ?s" using same_but_trans[OF 1(3)] send_thread_wakeup_same 1(3) by simp
  obtain k where k: "total_waits s = Suc k" using waits_listed[OF inv, of t] w by (cases "total_waits s") simp_all
  have "wake_thread s t = Some (?s, 1)"
    using w cw 1(1) wake_thread_fuel_awake[OF 2(1), of k] unfolding wake_thread_def k by simp
  then show ?thesis using 2 1(4) same by (auto simp: same_but_def)
qed

lemma wake_up_first:
  assumes "wait_queue s obj = e # es" "wake_thread s (fst e) = Some (s', 1)"
  shows "wake_up s obj 1 = Some s'"
  using assms by (cases "total_waits s") (simp_all add: wake_up_def)

text \<open>The event is signaled, and only then the threads are woken.\<close>

lemma signal_auto_event:
  assumes "syncs s obj = Event e" "event_wfusync e = None" "\<not> manual e"
  shows "event_sync_signal s obj True = wake_up (set_sync s (shmem s) obj (Event (e\<lparr>signaled := True\<rparr>))) obj 1"
  using assms by (simp add: event_sync_signal_def event_sync_signal_state_def Let_def)

lemma signaled_event_inv:
  assumes "wait_inv x s" "syncs s obj = Event e" "event_wfusync e = None"
  shows "wait_inv x (set_sync s m obj (Event (e\<lparr>signaled := True\<rparr>)))"
  by (rule wait_inv_set_sync[OF assms(1)]) (use assms(2,3) in simp_all)

lemma check_set_sync [simp]: "check f (set_sync s m obj y) t w = check f s t w"
  by (rule check_frame) simp_all

lemma suspended_set_sync [simp]: "is_thread_suspended (set_sync s m obj y) t = is_thread_suspended s t"
  by (simp add: is_thread_suspended_def set_sync_def)

section \<open>Properties\<close>


lemma one_waits_reachable: "reachable one_waits"
  unfolding one_waits_def
proof (rule after_select_step)
  show "reachable two_events" by (rule reachable.fresh[OF two_events_fresh])
  show "select_fits two_events (Op_Wait False [4])" by (simp add: handles_fit_def fits_def two_events_def)
qed simp




text \<open>
  C3: The wait queue of an object lists each wait for it exactly once, the object has at least a
  reference for each of these and one for its owner, so it lives as long as anyone waits for it, and
  an object of a type has the state of that type.
\<close>

theorem wait_queues_exact:
  assumes "reachable s"
  shows "distinct (wait_queue s obj) \<and>
    set (wait_queue s obj) = {(t, wid w, i) | t w i. w \<in> set (waits_of s t) \<and> i < length (wobjs w) \<and> wobjs w ! i = obj} \<and>
    length (wait_queue s obj) + held (syncs s obj) \<le> refs s obj \<and>
    (obj_ops s obj = event_ops \<longrightarrow> (\<exists>e. syncs s obj = Event e)) \<and>
    (obj_ops s obj = semaphore_ops \<longrightarrow> (\<exists>m. syncs s obj = Semaphore m)) \<and>
    (obj_ops s obj = mutex_ops \<longrightarrow> (\<exists>m. syncs s obj = Mutex m))"
proof -
  have ok: "world_ok s" using reachable_ok[OF assms] .
  then have q: "object_ok (\<lambda>_. 0) s obj" by (simp add: world_ok_def wait_inv_def)
  have "set (wait_queue s obj) = (\<Union>t. \<Union>w \<in> set (waits_of s t). entries_of t w obj)" using q by (simp add: object_ok_def)
  also have "\<dots> = {(t, wid w, i) | t w i. w \<in> set (waits_of s t) \<and> i < length (wobjs w) \<and> wobjs w ! i = obj}"
    unfolding entries_of_def by blast
  finally show ?thesis using q ok by (auto simp: object_ok_def world_ok_def typed_def kind_cases)
qed

theorem wait_queues_exact_witness:
  "wait_queue one_waits 16 = [(1, 1, 0)] \<and>
   set (wait_queue one_waits 16) =
     {(t, wid w, i) | t w i. w \<in> set (waits_of one_waits t) \<and> i < length (wobjs w) \<and> wobjs w ! i = 16} \<and>
   2 \<le> refs one_waits 16 + 1"
proof -
  have "wait_queue one_waits 16 = [(1, 1, 0)]" by code_simp
  then show ?thesis using wait_queues_exact[OF one_waits_reachable, of 16] by simp
qed

text \<open>
  C4: Setting an auto-reset event on which threads wait releases exactly one of them, the one at the
  head of its queue if that thread waits for any one of its objects and is not suspended: its wait ends, the
  event is not signaled afterwards, and no other thread and no other object changes.
\<close>

theorem set_event_releases_first:
  assumes "reachable s" "syncs s obj = Event e" "event_wfusync e = None" "\<not> manual e"
    and "wait_queue s obj = (t, i, j) # es" "waits_of s t = [w]" "select w \<noteq> SELECT_WAIT_ALL" "\<not> is_thread_suspended s t"
  shows "\<exists>s'. event_sync_signal s obj True = Some s' \<and> waits_of s' t = [] \<and> (\<forall>u. u \<noteq> t \<longrightarrow> thread_of s' u = thread_of s u) \<and>
    syncs s' = (syncs s)(obj := Event (e\<lparr>signaled := False\<rparr>))"
proof -
  let ?y = "Event (e\<lparr>signaled := True\<rparr>)"
  let ?s = "set_sync s (shmem s) obj ?y"
  have ok: "wait_inv (\<lambda>_. 0) s" "settled s" "waits_known s" using reachable_ok[OF assms(1)] by (simp_all add: world_ok_def)
  have inv: "wait_inv (\<lambda>_. 0) ?s" by (rule signaled_event_inv[OF ok(1) assms(2,3)])
  have fl: "wflags w AND SELECT_COOPERATIVE_SUSPEND = 0" using waits_known_D(3)[OF ok(3), of w t] assms(6) by simp
  have none: "check (passing s t) s t w = None" using ok(2) assms(6) by (simp add: settled_def settled_thread_def)
  have mem: "obj \<in> set (wobjs w)"
  proof -
    have "(t, i, j) \<in> (\<Union>u. \<Union>v \<in> set (waits_of s u). entries_of u v obj)"
      using wait_inv_D(3)[OF ok(1), of obj] assms(5) unfolding object_ok_def by (metis list.set_intros(1))
    then obtain u v where v: "v \<in> set (waits_of s u)" "(t, i, j) \<in> entries_of u v obj" by blast
    then have "u = t" "obj \<in> set (wobjs v)" by (auto simp: entries_of_def)
    then show ?thesis using v(1) assms(6) by simp
  qed
  obtain k where k: "first_pass (passing ?s t) 0 (wobjs w) = Some k"
    using first_pass_None[of "passing ?s t" 0 "wobjs w"] mem by (cases "first_pass (passing ?s t) 0 (wobjs w)") auto
  have c: "check (passing ?s t) ?s t w = Some (Index k)"
    using none k assms(7,8) unfolding check_set_sync check_None by (auto simp: check_def Let_def)
  have "k < length (wobjs w)" "passing ?s t (wobjs w ! k)" using first_pass_Some[OF k] by simp_all
  moreover have "\<not> passing s t (wobjs w ! k)" using none assms(7,8) \<open>k < length (wobjs w)\<close> unfolding check_None by auto
  ultimately have told: "told w (Index k) = [obj]" using assms(7) by (auto simp: told_def split: if_splits)
  have "waits_of ?s t = [w]" using assms(6) by simp
  from wake_thread_one[OF inv this fl c] obtain s' where s': "wake_thread ?s t = Some (s', 1)" "waits_of s' t = []"
    "\<forall>u. u \<noteq> t \<longrightarrow> thread_of s' u = thread_of s u"
    "syncs s' = (\<lambda>o'. if o' \<in> set (told w (Index k)) then sat (syncs ?s o') t else syncs ?s o')" by auto
  have "event_sync_signal s obj True = Some s'"
    using signal_auto_event[OF assms(2-4)] wake_up_first[of ?s obj "(t, i, j)" es s'] assms(5) s'(1) by simp
  moreover have "syncs s' = (syncs s)(obj := Event (e\<lparr>signaled := False\<rparr>))"
    unfolding s'(4) told using assms(4) by auto
  ultimately show ?thesis using s'(2,3) by blast
qed

theorem set_event_releases_first_witness:
  "\<exists>s'. event_sync_signal one_waits 16 True = Some s' \<and> waits_of s' 1 = []"
proof -
  have e: "syncs one_waits 16 = Event \<lparr>manual = False, signaled = False, event_wfusync = None\<rparr>" by code_simp
  have q: "wait_queue one_waits 16 = [(1, 1, 0)]" by code_simp
  have "map (\<lambda>w. select w = SELECT_WAIT_ALL) (waits_of one_waits 1) = [False] \<and> \<not> is_thread_suspended one_waits 1" by code_simp
  then obtain w where w: "waits_of one_waits 1 = [w]" "select w \<noteq> SELECT_WAIT_ALL" "\<not> is_thread_suspended one_waits 1" by auto
  show ?thesis using set_event_releases_first[OF one_waits_reachable e _ _ q w] by auto
qed


text \<open>Thread 1 waits for both events until time 9, thread 2 for the first of them.\<close>

definition two_wait :: world where
  "two_wait = after_select ((after_select two_events (Op_Wait True [4, 8]) 7 9)\<lparr>current := 2\<rparr>) (Op_Wait False [4]) 8 TIMEOUT_INFINITE"

lemma two_wait_reachable: "reachable two_wait"
proof -
  let ?s = "after_select two_events (Op_Wait True [4, 8]) 7 9"
  have "names two_events [4, 8] = [16, 32]" by code_simp
  then have "select_fits two_events (Op_Wait True [4, 8])" by (simp add: handles_fit_def fits_def two_events_def)
  then have 1: "reachable ?s" by (rule after_select_step[OF reachable.fresh[OF two_events_fresh]]) simp
  have "thread_list ?s = [1, 2, 3]" by code_simp
  then have 2: "reachable (?s\<lparr>current := 2\<rparr>)" by (intro reachable.step[OF 1] server_step.switch) simp
  have "names (?s\<lparr>current := 2\<rparr>) [4] = [16] \<and> plain (syncs ?s 16) \<and> kind (syncs ?s 16) = 0" by code_simp
  then have "select_fits (?s\<lparr>current := 2\<rparr>) (Op_Wait False [4])" by (auto simp: handles_fit_def fits_def kind_cases)
  then show ?thesis unfolding two_wait_def by (rule after_select_step[OF 2]) simp
qed


section \<open>What goes wrong\<close>

text \<open>The object 16 is a semaphore whose count is 1; a wait for all of two handles for it lets the thread pass twice.\<close>

definition one_left :: world where
  "one_left = two_events\<lparr>syncs := (\<lambda>_. Semaphore \<lparr>sem_count = 1, sem_max = 2, sem_wfusync = None\<rparr>)\<rparr>"

lemma wait_all_same_semaphore:
  "\<not> Option.is_none (select_on all_mem one_left (Op_Wait True [4]) 7 0 TIMEOUT_INFINITE) \<and>
   Option.is_none (select_on all_mem one_left (Op_Wait True [4, 4]) 7 0 TIMEOUT_INFINITE)"
  by code_simp

text \<open>The mutex 16 in a shared slot, owned by thread 1, and a client that sleeps in its wait slot until it is free.\<close>

definition shared_mutex :: "shm \<times> wfusync option" where
  "shared_mutex = create_wfusync True True True (shm_start 64) 1 1 INPROC_SYNC_MUTEX"

definition client_waits :: world where
  "client_waits = two_events\<lparr>shmem := fst (wfusync_register_wait True (\<lambda>_. True) (fst (wfusync_alloc_wait_slot True True (fst shared_mutex))) 2 [1]),
     syncs := (\<lambda>_. Mutex \<lparr>owner = 0, mutex_count = 0, abandoned = False, mutex_wfusync = snd shared_mutex\<rparr>)\<rparr>"

definition client_sleeps_on_free :: "world \<Rightarrow> bool" where
  "client_sleeps_on_free s = (low (states (shmem s) 2) \<noteq> 0 \<and> wfusync_state_signaled (shmem s) 1)"

lemma signaled_mutex_misses_client:
  "(case mutex_signal client_waits 16 SYNCHRONIZE of Some (s, Inr ()) \<Rightarrow> client_sleeps_on_free s | _ \<Rightarrow> False) \<and>
   (case req_release_mutex (client_waits\<lparr>handles := (handles client_waits)\<lparr>kobjs := \<lambda>_. \<lparr>kobject.refcount = 1, handle_count = 1, ops = mutex_ops, is_permanent = False\<rparr>\<rparr>\<rparr>) 4 of
      Some (s, Inr (Released n)) \<Rightarrow> n = 1 \<and> \<not> client_sleeps_on_free s | _ \<Rightarrow> False)"
  by code_simp

end
