(* ===== verification/Namespace.thy ===== *)
theory Namespace
  imports Unicode "HOL-Library.Monad_Syntax"
begin

text \<open>
  The object namespace, \<^verbatim>\<open>server/object.c\<close>, \<^verbatim>\<open>server/directory.c\<close> and \<^verbatim>\<open>server/symlink.c\<close>: objects with
  names in directories, symbolic links, the lookup of paths, the creation and opening of named objects, and
  the references that keep an object and its name.

  Objects are numbered in the order in which they are created, from 1, and a number is not used again; an object without
  references has been freed.  A reference that a function takes and gives back without a use
  in between is left out.  The types of objects modelled are directories, symbolic links, and those without callbacks for
  looking up, linking and unlinking names, such as events, semaphores, mutexes and jobs.
\<close>

section \<open>Data\<close>

text \<open>
  What an object of a type holds: the lists of a hash table of names, the newest first; the target of a link, empty for
  a link to the root; the identity of the operations of any other type.
\<close>

datatype object_body = Directory nat "nat \<Rightarrow> ptr list" | Symlink "wchar list" | Other nat

text \<open>The name, which names an object in its parent, is kept with the object.\<close>

record object =
  nrefs :: nat
  npermanent :: bool
  nname :: "(wchar list \<times> ptr) option"
  nbody :: object_body

record namespace =
  nobjs :: "ptr \<Rightarrow> object"
  next_obj :: ptr
  root_directory :: ptr

text \<open>Memory for a name, for an object, for its security descriptor, and whether its initialization succeeds.\<close>

record name_env =
  can_name :: bool
  can_object :: bool
  can_sd :: bool
  can_init :: bool

definition OBJ_PERMANENT :: u32 where "OBJ_PERMANENT = 0x10"

definition OBJ_CASE_INSENSITIVE :: u32 where "OBJ_CASE_INSENSITIVE = 0x40"

definition OBJ_OPENIF :: u32 where "OBJ_OPENIF = 0x80"

definition OBJ_OPENLINK :: u32 where "OBJ_OPENLINK = 0x100"

definition set_object :: "namespace \<Rightarrow> ptr \<Rightarrow> object \<Rightarrow> namespace" where
  "set_object s p x = s\<lparr>nobjs := (nobjs s)(p := x)\<rparr>"

fun same_ops :: "object_body \<Rightarrow> object_body \<Rightarrow> bool" where
  "same_ops (Directory _ _) (Directory _ _) = True"
| "same_ops (Symlink _) (Symlink _) = True"
| "same_ops (Other m) (Other n) = (m = n)"
| "same_ops _ _ = False"

section \<open>Directories\<close>

definition get_path_element :: "wchar list \<Rightarrow> nat" where
  "get_path_element name = length (takeWhile (\<lambda>c. c \<noteq> 92) name)"

definition name_matches :: "(nat \<Rightarrow> nat) \<Rightarrow> namespace \<Rightarrow> wchar list \<Rightarrow> u32 \<Rightarrow> ptr \<Rightarrow> bool" where
  "name_matches cm s name attr p =
     (case nname (nobjs s p) of None \<Rightarrow> False
      | Some (nm, _) \<Rightarrow> length nm = length name \<and>
          (if attr AND OBJ_CASE_INSENSITIVE \<noteq> 0 then memicmp_strW cm nm name = 0 else nm = name))"

definition find_object :: "(nat \<Rightarrow> nat) \<Rightarrow> namespace \<Rightarrow> nat \<Rightarrow> (nat \<Rightarrow> ptr list) \<Rightarrow> wchar list \<Rightarrow> u32 \<Rightarrow> ptr option" where
  "find_object cm s hash_size names name attr =
     (if name = [] then None else find (name_matches cm s name attr) (names (hash_strW cm name hash_size)))"

definition find_object_index :: "nat \<Rightarrow> (nat \<Rightarrow> ptr list) \<Rightarrow> nat \<Rightarrow> ptr option" where
  "find_object_index hash_size names index =
     (let ps = concat (map names [0..<hash_size]) in if index < length ps then Some (ps ! index) else None)"

text \<open>
  What is left of a name during a lookup: \<open>No_Name\<close> when it was empty at the start and the object itself is wanted,
  \<open>Null_Name\<close> after its last element.  A step of the lookup fails, ends, or goes on at another object.
\<close>

datatype rest_name = No_Name | Null_Name | Name "wchar list"

fun rest_string :: "rest_name \<Rightarrow> wchar list" where
  "rest_string (Name n) = n"
| "rest_string _ = []"

definition directory_lookup_name ::
    "(nat \<Rightarrow> nat) \<Rightarrow> namespace \<Rightarrow> nat \<Rightarrow> (nat \<Rightarrow> ptr list) \<Rightarrow> rest_name \<Rightarrow> u32 \<Rightarrow> (ptr \<times> rest_name) option result" where
  "directory_lookup_name cm s hash_size names name attr =
     (case name of
        No_Name \<Rightarrow> Inr None
      | Null_Name \<Rightarrow> Inr None
      | Name n \<Rightarrow>
          let len = get_path_element n in
          case find_object cm s hash_size names (take len n) attr of
            Some p \<Rightarrow> Inr (Some (p, if len < length n then Name (drop (len + 1) n) else Null_Name))
          | None \<Rightarrow> if len = 0 then Inl STATUS_OBJECT_NAME_INVALID
                    else if len < length n then Inl STATUS_OBJECT_PATH_NOT_FOUND else Inr None)"

section \<open>Lookup\<close>

text \<open>
  The part of \<^verbatim>\<open>lookup_named_object\<close> before its loop: the object to start at, which the loop compares links with, and
  the name.  \<open>depth\<close> is the recursion count.
\<close>

definition lookup_start :: "namespace \<Rightarrow> nat \<Rightarrow> ptr option \<Rightarrow> wchar list \<Rightarrow> (ptr \<times> rest_name) result" where
  "lookup_start s depth root name =
     (let from = (case root of
            Some r \<Rightarrow> if name \<noteq> [] \<and> hd name = 92 then None else Some (r, name)
          | None \<Rightarrow> if name = [] \<or> hd name \<noteq> 92 then None else Some (root_directory s, tl name)) in
      case from of None \<Rightarrow> Inl STATUS_OBJECT_PATH_SYNTAX_BAD
      | Some (p, n) \<Rightarrow>
          if depth > 32 then Inl STATUS_INVALID_PARAMETER else Inr (p, if n = [] then No_Name else Name n))"

text \<open>Whether a link is not followed, and what following it does with the result of looking up its target.\<close>

definition link_stays :: "rest_name \<Rightarrow> u32 \<Rightarrow> ptr \<Rightarrow> ptr \<Rightarrow> bool" where
  "link_stays name attr p root = (name = No_Name \<or> (rest_string name = [] \<and> attr AND OBJ_OPENLINK \<noteq> 0) \<or> p = root)"

definition link_target :: "rest_name \<Rightarrow> (ptr \<times> rest_name) result \<Rightarrow> (ptr \<times> rest_name) option result" where
  "link_target name r =
     (case r of Inl e \<Rightarrow> Inl e
      | Inr (p, left) \<Rightarrow> if rest_string left \<noteq> [] then Inl STATUS_OBJECT_PATH_NOT_FOUND else Inr (Some (p, name)))"

text \<open>
  The loop of \<^verbatim>\<open>lookup_named_object\<close> with the lookup callback of each object it comes to; the callback of a link
  looks its target up.  \<open>None\<close> is a loop that does not end.
\<close>

partial_function (option) lookup_loop ::
    "(nat \<Rightarrow> nat) \<Rightarrow> namespace \<Rightarrow> nat \<Rightarrow> ptr \<Rightarrow> rest_name \<Rightarrow> u32 \<Rightarrow> ptr \<Rightarrow> (ptr \<times> rest_name) result option" where
  "lookup_loop cm s depth p name attr root =
     do { step \<leftarrow> (case nbody (nobjs s p) of
             Directory hash_size names \<Rightarrow> Some (directory_lookup_name cm s hash_size names name attr)
           | Symlink target \<Rightarrow>
               if link_stays name attr p root then Some (Inr None)
               else if target = [] then Some (Inr (Some (root_directory s, name)))
               else (case lookup_start s depth None target of
                       Inl e \<Rightarrow> Some (Inl e)
                     | Inr start \<Rightarrow>
                         do { r \<leftarrow> lookup_loop cm s (depth + 1) (fst start) (snd start) attr (fst start);
                              Some (link_target name r) })
           | Other _ \<Rightarrow> Some (if name = No_Name then Inl STATUS_OBJECT_TYPE_MISMATCH else Inr None));
          case step of
            Inl e \<Rightarrow> Some (Inl e)
          | Inr None \<Rightarrow> Some (Inr (p, name))
          | Inr (Some next) \<Rightarrow> lookup_loop cm s depth (fst next) (snd next) attr root }"

text \<open>The object and the rest of the name that it does not have.\<close>

definition lookup_named_object ::
    "(nat \<Rightarrow> nat) \<Rightarrow> namespace \<Rightarrow> nat \<Rightarrow> ptr option \<Rightarrow> wchar list \<Rightarrow> u32 \<Rightarrow> (ptr \<times> wchar list) result option" where
  "lookup_named_object cm s depth root name attr =
     (case lookup_start s depth root name of
        Inl e \<Rightarrow> Some (Inl e)
      | Inr start \<Rightarrow>
          map_option (\<lambda>r. case r of Inl e \<Rightarrow> Inl e | Inr (p, left) \<Rightarrow> Inr (p, rest_string left))
            (lookup_loop cm s (depth + 1) (fst start) (snd start) attr (fst start)))"

section \<open>References and names\<close>

definition ns_grab :: "namespace \<Rightarrow> ptr \<Rightarrow> namespace" where
  "ns_grab s p = set_object s p ((nobjs s p)\<lparr>nrefs := nrefs (nobjs s p) + 1\<rparr>)"

text \<open>The name of an object is taken out of the list that it is in.\<close>

definition unlink_name :: "namespace \<Rightarrow> ptr \<Rightarrow> ptr \<Rightarrow> namespace" where
  "unlink_name s p d =
     (let s1 = set_object s p ((nobjs s p)\<lparr>nname := None\<rparr>) in
      case nbody (nobjs s1 d) of
        Directory n names \<Rightarrow> set_object s1 d ((nobjs s1 d)\<lparr>nbody := Directory n (\<lambda>h. remove1 p (names h))\<rparr>)
      | _ \<Rightarrow> s1)"

text \<open>
  The last reference to an object frees it with its name, which gives back the reference to the parent.
  \<open>None\<close> is an assertion that fails: the object has no references.  A parent is older than its children, so that the
  number of an object bounds the recursion.
\<close>

fun release_fuel :: "nat \<Rightarrow> namespace \<Rightarrow> ptr \<Rightarrow> namespace option" where
  "release_fuel 0 s p = None"
| "release_fuel (Suc n) s p =
     (if nrefs (nobjs s p) = 0 then None
      else let s1 = set_object s p ((nobjs s p)\<lparr>nrefs := nrefs (nobjs s p) - 1\<rparr>) in
           if nrefs (nobjs s1 p) \<noteq> 0 then Some s1
           else case nname (nobjs s1 p) of None \<Rightarrow> Some s1
                | Some (_, d) \<Rightarrow> release_fuel n (unlink_name s1 p d) d)"

definition ns_release :: "namespace \<Rightarrow> ptr \<Rightarrow> namespace option" where
  "ns_release s p = release_fuel (p + 1) s p"

definition unlink_named_object :: "namespace \<Rightarrow> ptr \<Rightarrow> namespace option" where
  "unlink_named_object s p =
     (case nname (nobjs s p) of None \<Rightarrow> Some s | Some (_, d) \<Rightarrow> ns_release (unlink_name s p d) d)"

text \<open>The names from the root to an object; the fuel is the depth of the object.\<close>

fun full_name_fuel :: "nat \<Rightarrow> namespace \<Rightarrow> ptr \<Rightarrow> wchar list" where
  "full_name_fuel 0 s p = []"
| "full_name_fuel (Suc n) s p =
     (case nname (nobjs s p) of None \<Rightarrow> [] | Some (nm, d) \<Rightarrow> full_name_fuel n s d @ 92 # nm)"

definition default_get_full_name :: "namespace \<Rightarrow> ptr \<Rightarrow> wchar list option" where
  "default_get_full_name s p =
     (let name = full_name_fuel (p + 1) s p in if name = [] then None else Some name)"

section \<open>Creation\<close>

definition namespace_add :: "(nat \<Rightarrow> nat) \<Rightarrow> nat \<Rightarrow> (nat \<Rightarrow> ptr list) \<Rightarrow> wchar list \<Rightarrow> ptr \<Rightarrow> nat \<Rightarrow> ptr list" where
  "namespace_add cm hash_size names name p =
     (let h = hash_strW cm name hash_size in names(h := p # names h))"

definition directory_link_name :: "(nat \<Rightarrow> nat) \<Rightarrow> namespace \<Rightarrow> ptr \<Rightarrow> wchar list \<Rightarrow> ptr \<Rightarrow> namespace result" where
  "directory_link_name cm s p name parent =
     (case nbody (nobjs s parent) of
        Directory n names \<Rightarrow>
          let s1 = set_object s parent ((nobjs s parent)\<lparr>nbody := Directory n (namespace_add cm n names name p)\<rparr>);
              s2 = ns_grab s1 parent
          in Inr (set_object s2 p ((nobjs s2 p)\<lparr>nname := Some (name, parent)\<rparr>))
      | _ \<Rightarrow> Inl STATUS_OBJECT_TYPE_MISMATCH)"

text \<open>A new directory is empty.\<close>

fun init_body :: "object_body \<Rightarrow> object_body" where
  "init_body (Directory n _) = Directory n (\<lambda>_. [])"
| "init_body b = b"

definition alloc_object :: "namespace \<Rightarrow> object_body \<Rightarrow> namespace \<times> ptr" where
  "alloc_object s b =
     (let p = next_obj s in
      ((set_object s p \<lparr>nrefs = 1, npermanent = False, nname = None, nbody = init_body b\<rparr>)\<lparr>next_obj := p + 1\<rparr>, p))"

definition free_object :: "namespace \<Rightarrow> ptr \<Rightarrow> namespace" where
  "free_object s p = set_object s p ((nobjs s p)\<lparr>nrefs := 0\<rparr>)"

text \<open>The object and whether it existed before.\<close>

definition create_object_without_name :: "name_env \<Rightarrow> namespace \<Rightarrow> object_body \<Rightarrow> namespace \<times> (ptr \<times> bool) result" where
  "create_object_without_name E s b =
     (if \<not> can_object E then (s, Inl STATUS_NO_MEMORY)
      else let (s1, p) = alloc_object s b in
           if can_sd E \<and> can_init E then (s1, Inr (p, False)) else (free_object s1 p, Inl STATUS_NO_MEMORY))"

definition create_object_with_name ::
    "(nat \<Rightarrow> nat) \<Rightarrow> name_env \<Rightarrow> namespace \<Rightarrow> ptr option \<Rightarrow> wchar list \<Rightarrow> u32 \<Rightarrow> object_body \<Rightarrow>
     (namespace \<times> (ptr \<times> bool) result) option" where
  "create_object_with_name cm E s root name attr b =
     (if name = [] then Some (create_object_without_name E s b)
      else do { r \<leftarrow> lookup_named_object cm s 0 root name attr;
        case r of
          Inl e \<Rightarrow> Some (s, Inl e)
        | Inr (parent, new_name) \<Rightarrow>
            if new_name = []
            then Some (if attr AND OBJ_OPENIF \<noteq> 0 \<and> same_ops b (nbody (nobjs s parent)) then (ns_grab s parent, Inr (parent, True))
                       else (s, Inl (if attr AND OBJ_OPENIF \<noteq> 0 then STATUS_OBJECT_TYPE_MISMATCH else STATUS_OBJECT_NAME_COLLISION)))
            else if \<not> can_name E \<or> \<not> can_object E then Some (s, Inl STATUS_NO_MEMORY)
            else let (s1, p) = alloc_object s b in
                 if \<not> can_sd E then Some (free_object s1 p, Inl STATUS_NO_MEMORY)
                 else case directory_link_name cm s1 p new_name parent of
                        Inl e \<Rightarrow> Some (free_object s1 p, Inl e)
                      | Inr s2 \<Rightarrow>
                          if can_init E then Some (s2, Inr (p, False))
                          else map_option (\<lambda>s3. (free_object s3 p, Inl STATUS_NO_MEMORY)) (unlink_named_object s2 p) })"

definition make_object_permanent :: "namespace \<Rightarrow> ptr \<Rightarrow> namespace" where
  "make_object_permanent s p = set_object s p ((nobjs s p)\<lparr>npermanent := True\<rparr>)"

definition make_object_temporary :: "namespace \<Rightarrow> ptr \<Rightarrow> namespace" where
  "make_object_temporary s p = set_object s p ((nobjs s p)\<lparr>npermanent := False\<rparr>)"

text \<open>A permanent object gets a reference of its own.\<close>

definition create_named_object ::
    "(nat \<Rightarrow> nat) \<Rightarrow> name_env \<Rightarrow> namespace \<Rightarrow> ptr option \<Rightarrow> wchar list \<Rightarrow> u32 \<Rightarrow> object_body \<Rightarrow>
     (namespace \<times> (ptr \<times> bool) result) option" where
  "create_named_object cm E s root name attr b =
     do { (s1, r) \<leftarrow> create_object_with_name cm E s root name attr b;
          case r of Inl e \<Rightarrow> Some (s1, Inl e)
          | Inr (p, existed) \<Rightarrow>
              Some (if attr AND OBJ_PERMANENT \<noteq> 0 then ns_grab (make_object_permanent s1 p) p else s1, Inr (p, existed)) }"

text \<open>
  The handle of \<^verbatim>\<open>create_named_obj_handle\<close> is a reference to the object; \<open>handle_error\<close> is the error of \<^verbatim>\<open>alloc_handle\<close> or
  \<^verbatim>\<open>alloc_handle_no_access_check\<close>, if any.  A permanent object keeps the reference of its creation.
\<close>

definition create_named_obj_handle ::
    "(nat \<Rightarrow> nat) \<Rightarrow> name_env \<Rightarrow> (ptr \<Rightarrow> status option) \<Rightarrow> namespace \<Rightarrow> ptr option \<Rightarrow> wchar list \<Rightarrow> u32 \<Rightarrow> object_body \<Rightarrow>
     (namespace \<times> (ptr \<times> bool) result) option" where
  "create_named_obj_handle cm E handle_error s root name attr b =
     do { (s1, r) \<leftarrow> create_object_with_name cm E s root name attr b;
          case r of Inl e \<Rightarrow> Some (s1, Inl e)
          | Inr (p, existed) \<Rightarrow>
              let (s2, res) = (case handle_error p of None \<Rightarrow> (ns_grab s1 p, Inr (p, existed)) | Some e \<Rightarrow> (s1, Inl e)) in
              if \<not> existed \<and> handle_error p = None \<and> attr AND OBJ_PERMANENT \<noteq> 0
              then Some (make_object_permanent s2 p, res)
              else map_option (\<lambda>s3. (s3, res)) (ns_release s2 p) }"

text \<open>\<open>wanted\<close>: the type of the object, if one is asked for.\<close>

definition open_named_object ::
    "(nat \<Rightarrow> nat) \<Rightarrow> namespace \<Rightarrow> ptr option \<Rightarrow> wchar list \<Rightarrow> u32 \<Rightarrow> object_body option \<Rightarrow> (namespace \<times> ptr result) option" where
  "open_named_object cm s root name attr wanted =
     (if 2 * length name \<ge> 65534 then Some (s, Inl STATUS_OBJECT_NAME_INVALID)
      else do { r \<leftarrow> lookup_named_object cm s 0 root name attr;
        case r of
          Inl e \<Rightarrow> Some (s, Inl e)
        | Inr (p, left) \<Rightarrow>
            if left \<noteq> [] then Some (s, Inl STATUS_OBJECT_NAME_NOT_FOUND)
            else if (case wanted of None \<Rightarrow> False | Some b \<Rightarrow> \<not> same_ops (nbody (nobjs s p)) b) then Some (s, Inl STATUS_OBJECT_TYPE_MISMATCH)
            else Some (ns_grab s p, Inr p) })"

text \<open>The request \<^verbatim>\<open>set_object_permanence\<close> on an object that a handle refers to.\<close>

definition set_object_permanence :: "namespace \<Rightarrow> ptr \<Rightarrow> bool \<Rightarrow> namespace option" where
  "set_object_permanence s p permanent =
     (if permanent \<and> \<not> npermanent (nobjs s p) then Some (make_object_permanent (ns_grab s p) p)
      else if \<not> permanent \<and> npermanent (nobjs s p) then ns_release (make_object_temporary s p) p
      else Some s)"

section \<open>Links\<close>

text \<open>The requests \<^verbatim>\<open>create_symlink\<close>, \<^verbatim>\<open>open_symlink\<close> and \<^verbatim>\<open>query_symlink\<close>, and links to objects.\<close>

definition create_symlink ::
    "(nat \<Rightarrow> nat) \<Rightarrow> name_env \<Rightarrow> (ptr \<Rightarrow> status option) \<Rightarrow> namespace \<Rightarrow> ptr option \<Rightarrow> wchar list \<Rightarrow> u32 \<Rightarrow> wchar list \<Rightarrow>
     (namespace \<times> (ptr \<times> bool) result) option" where
  "create_symlink cm E handle_error s root name attr target =
     (if target = [] then Some (s, Inl STATUS_INVALID_PARAMETER)
      else create_named_obj_handle cm E handle_error s root name (attr OR OBJ_OPENLINK) (Symlink target))"

definition open_symlink ::
    "(nat \<Rightarrow> nat) \<Rightarrow> namespace \<Rightarrow> ptr option \<Rightarrow> wchar list \<Rightarrow> u32 \<Rightarrow> (namespace \<times> ptr result) option" where
  "open_symlink cm s root name attr = open_named_object cm s root name (attr OR OBJ_OPENLINK) (Some (Symlink []))"

definition query_symlink :: "namespace \<Rightarrow> ptr \<Rightarrow> nat \<Rightarrow> (nat \<times> wchar list) result" where
  "query_symlink s p room =
     (case nbody (nobjs s p) of
        Symlink target \<Rightarrow> if room < 2 * length target then Inl STATUS_BUFFER_TOO_SMALL else Inr (2 * length target, target)
      | _ \<Rightarrow> Inl STATUS_OBJECT_TYPE_MISMATCH)"

definition create_obj_symlink ::
    "(nat \<Rightarrow> nat) \<Rightarrow> name_env \<Rightarrow> namespace \<Rightarrow> ptr option \<Rightarrow> wchar list \<Rightarrow> u32 \<Rightarrow> ptr \<Rightarrow> (namespace \<times> (ptr \<times> bool) result) option" where
  "create_obj_symlink cm E s root name attr p =
     (case default_get_full_name s p of
        None \<Rightarrow> Some (s, Inl STATUS_INVALID_PARAMETER)
      | Some target \<Rightarrow> create_named_object cm E s root name attr (Symlink target))"

end
