(* ===== verification/Namespace_Tree.thy ===== *)
theory Namespace_Tree
  imports Namespace Unicode_Correct
begin

text \<open>
  The invariant of the namespace: the names form a tree of directories, each of which lists exactly the objects that are
  named in it, and the references of an object are those of its users, of its names and of its permanence.  Taking and
  giving back references, linking and unlinking names keep it.
\<close>

section \<open>The invariant\<close>

text \<open>The names of a directory differ, also in case when every name was created without regard to case.\<close>

definition names_agree :: "(nat \<Rightarrow> nat) \<Rightarrow> bool \<Rightarrow> wchar list \<Rightarrow> wchar list \<Rightarrow> bool" where
  "names_agree cm ins a b = (if ins then map (to_lower cm) a = map (to_lower cm) b else a = b)"

lemma names_agree_refl [simp]: "names_agree cm ins a a" by (simp add: names_agree_def)

abbreviation live :: "namespace \<Rightarrow> ptr \<Rightarrow> bool" where "live s p \<equiv> nrefs (nobjs s p) \<noteq> 0"

abbreviation named :: "namespace \<Rightarrow> ptr \<Rightarrow> wchar list \<Rightarrow> ptr \<Rightarrow> bool" where "named s p nm d \<equiv> nname (nobjs s p) = Some (nm, d)"

definition members :: "namespace \<Rightarrow> ptr \<Rightarrow> ptr set" where "members s d = {p. \<exists>nm. named s p nm d}"

text \<open>The lists of a directory are those of the names in it.\<close>

definition lists_ok :: "(nat \<Rightarrow> nat) \<Rightarrow> namespace \<Rightarrow> ptr \<Rightarrow> bool" where
  "lists_ok cm s d = (\<forall>n names. nbody (nobjs s d) = Directory n names \<longrightarrow> 0 < n \<and>
     (\<forall>h. distinct (names h) \<and> set (names h) = {p. \<exists>nm. named s p nm d \<and> hash_strW cm nm n = h}))"

definition ns_ok :: "(nat \<Rightarrow> nat) \<Rightarrow> bool \<Rightarrow> namespace \<Rightarrow> bool" where
  "ns_ok cm ins s \<longleftrightarrow>
     (live s (root_directory s) \<and> nname (nobjs s (root_directory s)) = None \<and> npermanent (nobjs s (root_directory s)) \<and>
      (\<exists>n names. nbody (nobjs s (root_directory s)) = Directory n names)) \<and>
     (\<forall>p. live s p \<longrightarrow> 0 < p \<and> p < next_obj s) \<and>
     (\<forall>p nm d. named s p nm d \<longrightarrow> live s p \<and> live s d \<and> d < p \<and> nm \<noteq> [] \<and> 92 \<notin> set nm \<and> (\<exists>n names. nbody (nobjs s d) = Directory n names)) \<and>
     (\<forall>d. live s d \<longrightarrow> lists_ok cm s d) \<and>
     (\<forall>p q a b d. named s p a d \<and> named s q b d \<and> names_agree cm ins a b \<longrightarrow> p = q)"

definition counted :: "namespace \<Rightarrow> (ptr \<Rightarrow> nat) \<Rightarrow> bool" where
  "counted s held = (\<forall>p. nrefs (nobjs s p) = held p + of_bool (npermanent (nobjs s p)) + card (members s p))"

lemma ns_ok_D:
  assumes "ns_ok cm ins s"
  shows "live s (root_directory s)" "nname (nobjs s (root_directory s)) = None" "npermanent (nobjs s (root_directory s))"
    "\<exists>n names. nbody (nobjs s (root_directory s)) = Directory n names"
    "live s p \<Longrightarrow> 0 < p" "live s p \<Longrightarrow> p < next_obj s"
    "named s p nm d \<Longrightarrow> live s p" "named s p nm d \<Longrightarrow> live s d" "named s p nm d \<Longrightarrow> d < p" "named s p nm d \<Longrightarrow> nm \<noteq> []"
    "named s p nm d \<Longrightarrow> 92 \<notin> set nm" "named s p nm d \<Longrightarrow> \<exists>n names. nbody (nobjs s d) = Directory n names"
    "live s d \<Longrightarrow> lists_ok cm s d"
    "named s p a d \<Longrightarrow> named s q b d \<Longrightarrow> names_agree cm ins a b \<Longrightarrow> p = q"
  using assms unfolding ns_ok_def by blast+

lemma dead_unnamed: "ns_ok cm ins s \<Longrightarrow> \<not> live s p \<Longrightarrow> nname (nobjs s p) = None"
  using ns_ok_D(7)[of cm ins s p] by (cases "nname (nobjs s p)") auto

lemma members_finite: "ns_ok cm ins s \<Longrightarrow> finite (members s d)"
  by (rule finite_subset[of _ "{..<next_obj s}"]) (auto simp: members_def dest: ns_ok_D(6,7))

lemma counted_D: "counted s held \<Longrightarrow> nrefs (nobjs s p) = held p + of_bool (npermanent (nobjs s p)) + card (members s p)"
  by (simp add: counted_def)

lemma held_live: "counted s held \<Longrightarrow> 0 < held p \<Longrightarrow> live s p" by (simp add: counted_def)

text \<open>The lists of a directory that is kept and has the same names.\<close>

lemma lists_ok_cong:
  assumes "lists_ok cm s d" "nbody (nobjs s' d) = nbody (nobjs s d)" "\<And>p nm. named s' p nm d \<longleftrightarrow> named s p nm d"
  shows "lists_ok cm s' d"
  using assms unfolding lists_ok_def by simp

section \<open>References\<close>

text \<open>An object of which only the count or the permanence changes.\<close>

definition recounted :: "namespace \<Rightarrow> ptr \<Rightarrow> nat \<Rightarrow> bool \<Rightarrow> namespace" where
  "recounted s p r b = set_object s p ((nobjs s p)\<lparr>nrefs := r, npermanent := b\<rparr>)"

lemma recounted_simps [simp]:
  "next_obj (recounted s p r b) = next_obj s" "root_directory (recounted s p r b) = root_directory s"
  "nname (nobjs (recounted s p r b) q) = nname (nobjs s q)" "nbody (nobjs (recounted s p r b) q) = nbody (nobjs s q)"
  "nrefs (nobjs (recounted s p r b) q) = (if q = p then r else nrefs (nobjs s q))"
  "npermanent (nobjs (recounted s p r b) q) = (if q = p then b else npermanent (nobjs s q))"
  "members (recounted s p r b) d = members s d"
  by (auto simp: recounted_def set_object_def members_def)

lemma recounted_ok:
  assumes "ns_ok cm ins s" "live s p" "r \<noteq> 0" "p = root_directory s \<longrightarrow> b"
  shows "ns_ok cm ins (recounted s p r b)"
proof -
  have live: "live (recounted s p r b) q \<longleftrightarrow> live s q" for q using assms(2,3) by simp
  have lists: "\<forall>d. live s d \<longrightarrow> lists_ok cm (recounted s p r b) d"
    using ns_ok_D(13)[OF assms(1)] lists_ok_cong[of cm s _ "recounted s p r b"] by simp
  show ?thesis using assms(1,4) lists unfolding ns_ok_def live by simp
qed

lemma counted_recounted:
  assumes "counted s held" "r = h + of_bool b + card (members s p)"
  shows "counted (recounted s p r b) (held(p := h))"
  using assms by (simp add: counted_def)

lemma ns_grab_recounted: "ns_grab s p = recounted s p (nrefs (nobjs s p) + 1) (npermanent (nobjs s p))"
  by (simp add: ns_grab_def recounted_def)

lemma ns_grab_ok:
  assumes "ns_ok cm ins s" "counted s held" "live s p"
  shows "ns_ok cm ins (ns_grab s p)" "counted (ns_grab s p) (held(p := held p + 1))"
proof -
  show "ns_ok cm ins (ns_grab s p)" unfolding ns_grab_recounted by (rule recounted_ok[OF assms(1,3)]) (use ns_ok_D(3)[OF assms(1)] in simp_all)
  show "counted (ns_grab s p) (held(p := held p + 1))" unfolding ns_grab_recounted
    by (rule counted_recounted[OF assms(2)]) (use counted_D[OF assms(2), of p] in simp)
qed

section \<open>Unlinking a name\<close>

text \<open>An object that is freed: it has no references and no name, and its directory does not list it.\<close>

definition freed :: "namespace \<Rightarrow> ptr \<Rightarrow> namespace" where
  "freed s p =
     (let s1 = recounted s p 0 (npermanent (nobjs s p)) in case nname (nobjs s p) of None \<Rightarrow> s1 | Some (_, d) \<Rightarrow> unlink_name s1 p d)"

lemma unlink_name_simps [simp]:
  "next_obj (unlink_name s p d) = next_obj s" "root_directory (unlink_name s p d) = root_directory s"
  "nname (nobjs (unlink_name s p d) q) = (if q = p then None else nname (nobjs s q))"
  "nrefs (nobjs (unlink_name s p d) q) = nrefs (nobjs s q)" "npermanent (nobjs (unlink_name s p d) q) = npermanent (nobjs s q)"
  by (auto simp: unlink_name_def set_object_def Let_def split: object_body.splits)

lemma unlink_name_body:
  "p \<noteq> d \<Longrightarrow> nbody (nobjs (unlink_name s p d) q) =
     (case nbody (nobjs s q) of Directory n names \<Rightarrow> Directory n (if q = d then \<lambda>h. remove1 p (names h) else names) | b \<Rightarrow> b)"
  by (auto simp: unlink_name_def set_object_def Let_def split: object_body.splits)

lemma members_unlink: "members (unlink_name s p d) e = members s e - {p}"
  by (auto simp: members_def)

text \<open>The lists after an unlinking, of any directory that is not the object itself.\<close>

lemma unlink_lists_ok:
  assumes "lists_ok cm s e" "named s p nm d" "p \<noteq> d"
  shows "lists_ok cm (unlink_name s p d) e"
proof -
  have "0 < n \<and> distinct (names h) \<and> set (names h) = {q. \<exists>a. named (unlink_name s p d) q a e \<and> hash_strW cm a n = h}"
    if b: "nbody (nobjs (unlink_name s p d) e) = Directory n names" for n names h
  proof -
    obtain ns where ns: "nbody (nobjs s e) = Directory n ns" "names = (if e = d then \<lambda>h. remove1 p (ns h) else ns)"
      using b unfolding unlink_name_body[OF assms(3)] by (auto split: object_body.splits)
    have o: "0 < n" "distinct (ns h)" "set (ns h) = {q. \<exists>a. named s q a e \<and> hash_strW cm a n = h}"
      using assms(1) ns(1) unfolding lists_ok_def by blast+
    have "p \<notin> set (ns h)" if "e \<noteq> d" using o(3) assms(2) that by auto
    then have s: "set (names h) = set (ns h) - {p}" and d: "distinct (names h)" unfolding ns(2) using o(2) by (simp_all add: set_remove1_eq)
    have "named (unlink_name s p d) q a e \<longleftrightarrow> named s q a e \<and> q \<noteq> p" for q a by simp
    then show ?thesis using o(1) d unfolding s o(3) by (simp only:) blast
  qed
  then show ?thesis unfolding lists_ok_def by blast
qed

lemma freed_ok:
  assumes ok: "ns_ok cm ins s" and p: "p \<noteq> root_directory s" "members s p = {}"
  shows "ns_ok cm ins (freed s p)"
proof -
  have unlisted: "\<not> named s q nm p" for q nm using p(2) by (auto simp: members_def)
  let ?s = "freed s p"
  have nm: "nname (nobjs ?s q) = (if q = p then None else nname (nobjs s q))" for q
    by (cases "nname (nobjs s p)") (auto simp: freed_def)
  have r: "nrefs (nobjs ?s q) = (if q = p then 0 else nrefs (nobjs s q))" "npermanent (nobjs ?s q) = npermanent (nobjs s q)"
    "next_obj ?s = next_obj s" "root_directory ?s = root_directory s" for q by (auto simp: freed_def Let_def split: option.splits)
  have dir: "(\<exists>n names. nbody (nobjs ?s q) = Directory n names) \<longleftrightarrow> (\<exists>n names. nbody (nobjs s q) = Directory n names)" for q
  proof (cases "nname (nobjs s p)")
    case None
    then show ?thesis by (simp add: freed_def)
  next
    case (Some nd)
    obtain nm d where nd: "nd = (nm, d)" by fastforce
    then have "p \<noteq> d" using ns_ok_D(9)[OF ok, of p nm d] Some by simp
    then show ?thesis using Some nd by (auto simp: freed_def unlink_name_body split: object_body.splits)
  qed
  have lists: "lists_ok cm ?s e" if e: "live s e" "e \<noteq> p" for e
  proof (cases "nname (nobjs s p)")
    case None
    show ?thesis by (rule lists_ok_cong[OF ns_ok_D(13)[OF ok e(1)]]) (use None in \<open>auto simp: freed_def\<close>)
  next
    case (Some nd)
    obtain nm d where nd: "nd = (nm, d)" by fastforce
    then have n: "named s p nm d" "p \<noteq> d" using ns_ok_D(9)[OF ok, of p nm d] Some by auto
    have l: "lists_ok cm (recounted s p 0 (npermanent (nobjs s p))) e" by (rule lists_ok_cong[OF ns_ok_D(13)[OF ok e(1)]]) auto
    have "lists_ok cm (unlink_name (recounted s p 0 (npermanent (nobjs s p))) p d) e" by (rule unlink_lists_ok[OF l]) (use n in auto)
    then show ?thesis using n(1) by (simp add: freed_def)
  qed
  have names: "named ?s q a d \<Longrightarrow> named s q a d \<and> q \<noteq> p \<and> d \<noteq> p" for q a d using unlisted by (auto simp: nm split: if_splits)
  show ?thesis
    unfolding ns_ok_def r dir nm[of "root_directory s"]
  proof (intro conjI allI impI)
    fix q a d assume "named ?s q a d"
    from names[OF this] have n: "named s q a d" "q \<noteq> p" "d \<noteq> p" by blast+
    show "(if q = p then 0 else nrefs (nobjs s q)) \<noteq> 0" "(if d = p then 0 else nrefs (nobjs s d)) \<noteq> 0" "d < q" "a \<noteq> []" "92 \<notin> set a"
      "\<exists>n names. nbody (nobjs s d) = Directory n names"
      using n ns_ok_D(7-12)[OF ok n(1)] by simp_all
  next
    fix q e a b d assume "named ?s q a d \<and> named ?s e b d \<and> names_agree cm ins a b"
    then show "q = e" using names ns_ok_D(14)[OF ok] by blast
  next
    fix d assume "(if d = p then 0 else nrefs (nobjs s d)) \<noteq> 0"
    then show "lists_ok cm ?s d" using lists[of d] by (simp split: if_splits)
  qed (use ns_ok_D(1-6)[OF ok] p(1) in \<open>auto split: if_splits\<close>)
qed

text \<open>The name's reference to the parent is now one that is held.\<close>

lemma freed_counted:
  assumes ok: "ns_ok cm ins s" and c: "counted s held" and p: "members s p = {}" "held p \<le> 1" "\<not> npermanent (nobjs s p)"
  shows "counted (freed s p) (case nname (nobjs s p) of None \<Rightarrow> held(p := 0) | Some (_, d) \<Rightarrow> (held(p := 0))(d := held d + 1))"
proof (cases "nname (nobjs s p)")
  case None
  then show ?thesis using c p by (auto simp: counted_def freed_def)
next
  case (Some nd)
  obtain nm d where nd: "nd = (nm, d)" by fastforce
  have n: "named s p nm d" using Some nd by simp
  have "p \<noteq> d" using ns_ok_D(9)[OF ok n] by simp
  have mem: "p \<in> members s e \<longleftrightarrow> e = d" for e using n by (auto simp: members_def)
  have card: "card (members s e) = card (members s e - {p}) + of_bool (e = d)" for e
  proof (cases "e = d")
    case True
    then have "p \<in> members s e" using mem by blast
    from card.remove[OF members_finite[OF ok] this] True show ?thesis by simp
  next
    case False
    then have "members s e - {p} = members s e" using mem[of e] by blast
    then show ?thesis using False by simp
  qed
  have m: "members (freed s p) e = members s e - {p}" for e using n by (simp add: freed_def members_unlink)
  have "nrefs (nobjs (freed s p) e) = ((held(p := 0))(d := held d + 1)) e + of_bool (npermanent (nobjs (freed s p) e)) + card (members (freed s p) e)" for e
  proof (cases "e = p")
    case True
    then show ?thesis unfolding m using n p \<open>p \<noteq> d\<close> by (simp add: freed_def)
  next
    case False
    then show ?thesis unfolding m using n counted_D[OF c, of e] card[of e] by (simp add: freed_def)
  qed
  then show ?thesis using Some nd by (simp add: counted_def)
qed

section \<open>Releasing\<close>

text \<open>Nothing changes but the references of an object and the objects above it, and those that are left without one.\<close>

inductive above :: "namespace \<Rightarrow> ptr \<Rightarrow> ptr \<Rightarrow> bool" for s where
  here: "above s p p"
| up: "named s p nm d \<Longrightarrow> above s d q \<Longrightarrow> above s p q"

definition kept :: "namespace \<Rightarrow> ptr \<Rightarrow> namespace \<Rightarrow> bool" where
  "kept s p s' \<longleftrightarrow> next_obj s' = next_obj s \<and> root_directory s' = root_directory s \<and>
     (\<forall>q. npermanent (nobjs s' q) = npermanent (nobjs s q)) \<and>
     (\<forall>q. live s' q \<longrightarrow> live s q \<and> nname (nobjs s' q) = nname (nobjs s q)) \<and>
     (\<forall>q. same_ops (nbody (nobjs s' q)) (nbody (nobjs s q)) \<and>
       (\<forall>t. nbody (nobjs s' q) = Symlink t \<longleftrightarrow> nbody (nobjs s q) = Symlink t)) \<and>
     (\<forall>q. \<not> above s p q \<longrightarrow> nrefs (nobjs s' q) = nrefs (nobjs s q))"

lemma same_ops_refl [simp]: "same_ops b b" by (cases b) simp_all

lemma same_ops_trans: "same_ops a b \<Longrightarrow> same_ops b c \<Longrightarrow> same_ops a c"
  by (cases a; cases b; cases c) simp_all

lemma freed_kept:
  assumes "ns_ok cm ins s"
  shows "npermanent (nobjs (freed s p) q) = npermanent (nobjs s q)" "nrefs (nobjs (freed s p) q) = (if q = p then 0 else nrefs (nobjs s q))"
    "nname (nobjs (freed s p) q) = (if q = p then None else nname (nobjs s q))" "next_obj (freed s p) = next_obj s" "root_directory (freed s p) = root_directory s"
    "same_ops (nbody (nobjs (freed s p) q)) (nbody (nobjs s q))" "nbody (nobjs (freed s p) q) = Symlink t \<longleftrightarrow> nbody (nobjs s q) = Symlink t"
proof -
  have up: "d \<noteq> p" if "named s p nm d" for d nm using ns_ok_D(9)[OF assms that] by simp
  show "npermanent (nobjs (freed s p) q) = npermanent (nobjs s q)" "nrefs (nobjs (freed s p) q) = (if q = p then 0 else nrefs (nobjs s q))"
    "next_obj (freed s p) = next_obj s" "root_directory (freed s p) = root_directory s"
    by (auto simp: freed_def Let_def split: option.splits)
  show "nname (nobjs (freed s p) q) = (if q = p then None else nname (nobjs s q))"
    by (cases "nname (nobjs s p)") (auto simp: freed_def)
  have "same_ops (nbody (nobjs (freed s p) q)) (nbody (nobjs s q)) \<and> (nbody (nobjs (freed s p) q) = Symlink t \<longleftrightarrow> nbody (nobjs s q) = Symlink t)"
    using up by (cases "nname (nobjs s p)") (auto simp: freed_def unlink_name_body split: object_body.splits)
  then show "same_ops (nbody (nobjs (freed s p) q)) (nbody (nobjs s q))" "nbody (nobjs (freed s p) q) = Symlink t \<longleftrightarrow> nbody (nobjs s q) = Symlink t"
    by blast+
qed

lemma release_last:
  assumes "nrefs (nobjs s p) = 1"
  shows "release_fuel (Suc n) s p = (case nname (nobjs s p) of None \<Rightarrow> Some (freed s p) | Some (_, d) \<Rightarrow> release_fuel n (freed s p) d)"
proof -
  have "set_object s p ((nobjs s p)\<lparr>nrefs := 0\<rparr>) = recounted s p 0 (npermanent (nobjs s p))" by (simp add: recounted_def)
  then show ?thesis using assms by (auto simp: freed_def split: option.splits)
qed

lemma release_fuel_effect:
  "ns_ok cm ins s \<Longrightarrow> counted s held \<Longrightarrow> 0 < held p \<Longrightarrow> p < n \<Longrightarrow>
   \<exists>s'. release_fuel n s p = Some s' \<and> ns_ok cm ins s' \<and> counted s' (held(p := held p - 1)) \<and> kept s p s'"
proof (induction n arbitrary: s held p)
  case (Suc n)
  note ok = Suc.prems(1) and c = Suc.prems(2)
  have l: "live s p" using held_live[OF c Suc.prems(3)] .
  show ?case
  proof (cases "nrefs (nobjs s p) = 1")
    case False
    let ?s = "recounted s p (nrefs (nobjs s p) - 1) (npermanent (nobjs s p))"
    have rel: "release_fuel (Suc n) s p = Some ?s" using False l by (simp add: recounted_def set_object_def)
    have "ns_ok cm ins ?s" by (rule recounted_ok[OF ok l]) (use False l ns_ok_D(3)[OF ok] in simp_all)
    moreover have "counted ?s (held(p := held p - 1))"
      by (rule counted_recounted[OF c]) (use counted_D[OF c, of p] Suc.prems(3) in simp)
    moreover have "kept s p ?s" using above.here[of s p] l unfolding kept_def by auto
    ultimately show ?thesis using rel by blast
  next
    case True
    have "held p = 1 \<and> of_bool (npermanent (nobjs s p)) = (0 :: nat) \<and> card (members s p) = 0"
      using counted_D[OF c, of p] True Suc.prems(3) by linarith
    then have z: "held p = 1" "\<not> npermanent (nobjs s p)" "members s p = {}" using members_finite[OF ok, of p] by (simp_all only: of_bool_eq_0_iff card_0_eq not_False_eq_True)
    have root: "p \<noteq> root_directory s" using z(2) ns_ok_D(3)[OF ok] by blast
    have ok1: "ns_ok cm ins (freed s p)" by (rule freed_ok[OF ok root z(3)])
    note fk = freed_kept[OF ok, of p]
    have c1: "counted (freed s p) (case nname (nobjs s p) of None \<Rightarrow> held(p := 0) | Some (_, d) \<Rightarrow> (held(p := 0))(d := held d + 1))"
      by (rule freed_counted[OF ok c z(3) _ z(2)]) (use z(1) in simp)
    show ?thesis
    proof (cases "nname (nobjs s p)")
      case None
      have "kept s p (freed s p)" unfolding kept_def fk using above.here[of s p] by (auto intro: fk)
      moreover have "release_fuel (Suc n) s p = Some (freed s p)" unfolding release_last[OF True] using None by simp
      ultimately show ?thesis using ok1 c1 unfolding None z(1) by (intro exI[of _ "freed s p"]) (simp only: option.case diff_self_eq_0)
    next
      case (Some nd)
      obtain nm d where nd: "nd = (nm, d)" by fastforce
      have n: "named s p nm d" "d < p" using Some nd ns_ok_D(9)[OF ok] by auto
      define h where "h = (held(p := 0))(d := held d + 1)"
      have c2: "counted (freed s p) h" using c1 n(1) by (simp only: option.case prod.case h_def)
      have h: "0 < h d" "d < n" using n(2) Suc.prems(4) by (simp_all add: h_def)
      obtain s' where s': "release_fuel n (freed s p) d = Some s'" "ns_ok cm ins s'" "counted s' (h(d := h d - 1))" "kept (freed s p) d s'"
        using Suc.IH[OF ok1 c2 h] by blast
      have "h(d := h d - 1) = held(p := held p - 1)" using z(1) n(2) by (auto simp: h_def fun_eq_iff)
      moreover have up: "above s e q" if "above (freed s p) e q" for e q
        using that
      proof (induction rule: above.induct)
        case (up e nm d q)
        then have "named s e nm d" unfolding fk by (simp split: if_splits)
        then show ?case by (rule above.up) (rule up.IH)
      qed (rule above.here)
      have "kept s p s'"
        unfolding kept_def
      proof (intro conjI allI impI)
        fix q assume "\<not> above s p q"
        then have "q \<noteq> p" "\<not> above (freed s p) d q" using above.here[of s p] above.up[OF n(1)] up[of d q] by blast+
        then show "nrefs (nobjs s' q) = nrefs (nobjs s q)" using s'(4) fk(2)[of q] unfolding kept_def by simp
      next
        fix q
        show "same_ops (nbody (nobjs s' q)) (nbody (nobjs s q))" using s'(4) fk(6)[of q] same_ops_trans unfolding kept_def by blast
      next
        fix q t
        show "nbody (nobjs s' q) = Symlink t \<longleftrightarrow> nbody (nobjs s q) = Symlink t" using s'(4) fk(7)[of q t] unfolding kept_def by blast
      next
        fix q assume "live s' q"
        then have "live (freed s p) q" "nname (nobjs s' q) = nname (nobjs (freed s p) q)" using s'(4) unfolding kept_def by blast+
        then show "live s q" "nname (nobjs s' q) = nname (nobjs s q)" unfolding fk by (auto split: if_splits)
      qed (use s'(4) fk in \<open>auto simp: kept_def\<close>)
      ultimately show ?thesis using s' unfolding release_last[OF True] n(1) by (intro exI[of _ s']) (simp only: option.case prod.case)
    qed
  qed
qed simp

lemma ns_release_effect:
  assumes "ns_ok cm ins s" "counted s held" "0 < held p"
  shows "\<exists>s'. ns_release s p = Some s' \<and> ns_ok cm ins s' \<and> counted s' (held(p := held p - 1)) \<and> kept s p s'"
  unfolding ns_release_def using release_fuel_effect[OF assms, of "p + 1"] by simp

end
