(* ===== verification/Namespace_Lookup.thy ===== *)
theory Namespace_Lookup
  imports Namespace_Tree
begin

text \<open>
  The lookup of paths: what a directory finds, the walk along the full name of an object, the end of the loop when links
  are followed to their end, and the loop that does not end when they are not.
\<close>

section \<open>Directories\<close>

text \<open>The comparison that a lookup with these attributes uses.\<close>

abbreviation folds :: "u32 \<Rightarrow> bool" where "folds attr \<equiv> attr AND OBJ_CASE_INSENSITIVE \<noteq> 0"

lemma name_matches_iff: "name_matches cm s name attr p \<longleftrightarrow> (\<exists>nm d. named s p nm d \<and> names_agree cm (folds attr) nm name)"
proof (cases "nname (nobjs s p)")
  case (Some nd)
  have "length nm = length name \<and> memicmp_strW cm nm name = 0 \<longleftrightarrow> map (to_lower cm) nm = map (to_lower cm) name" for nm
    using memicmp_zero[of nm name cm] map_eq_imp_length_eq by blast
  then show ?thesis using Some by (cases nd) (auto simp: name_matches_def names_agree_def)
qed (simp add: name_matches_def)

lemma names_agree_hash: "names_agree cm b x y \<Longrightarrow> hash_strW cm x n = hash_strW cm y n"
  using hash_lower[of cm x y n] by (cases b) (simp_all add: names_agree_def)

lemma find_object_Some:
  assumes "ns_ok cm ins s" "live s d" "nbody (nobjs s d) = Directory n names" "find_object cm s n names name attr = Some p"
  shows "\<exists>nm. named s p nm d \<and> names_agree cm (folds attr) nm name"
proof -
  have f: "p \<in> set (names (hash_strW cm name n))" "name_matches cm s name attr p"
    using assms(4) by (auto simp: find_object_def find_Some_iff split: if_splits)
  then have "\<exists>nm. named s p nm d" using ns_ok_D(13)[OF assms(1,2)] assms(3) unfolding lists_ok_def by blast
  then show ?thesis using f(2) unfolding name_matches_iff by fastforce
qed

lemma find_object_None:
  assumes "ns_ok cm ins s" "live s d" "nbody (nobjs s d) = Directory n names" "find_object cm s n names name attr = None"
    and "named s p nm d" "names_agree cm (folds attr) nm name"
  shows "name = []"
proof (rule ccontr)
  assume "name \<noteq> []"
  then have none: "\<forall>q\<in>set (names (hash_strW cm name n)). \<not> name_matches cm s name attr q"
    using assms(4) by (simp add: find_object_def find_None_iff)
  have "p \<in> set (names (hash_strW cm nm n))" using ns_ok_D(13)[OF assms(1,2)] assms(3,5) unfolding lists_ok_def by blast
  then show False using none assms(5,6) names_agree_hash[OF assms(6)] unfolding name_matches_iff by auto
qed

text \<open>An object is found by its name, by a lookup without regard to case only when names differ in more than that.\<close>

lemma find_object_named:
  assumes "ns_ok cm ins s" "named s p nm d" "nbody (nobjs s d) = Directory n names" "folds attr \<longrightarrow> ins"
  shows "find_object cm s n names nm attr = Some p"
proof -
  note D = ns_ok_D[OF assms(1)]
  have l: "live s d" "nm \<noteq> []" using D(8,10)[OF assms(2)] by blast+
  obtain q where q: "find_object cm s n names nm attr = Some q"
    using find_object_None[OF assms(1) l(1) assms(3) _ assms(2), of nm attr] l(2) by (cases "find_object cm s n names nm attr") auto
  obtain a where a: "named s q a d" "names_agree cm (folds attr) a nm" using find_object_Some[OF assms(1) l(1) assms(3) q] by blast
  have "names_agree cm ins a nm" using a(2) assms(4) by (auto simp: names_agree_def split: if_splits)
  then show ?thesis using D(14)[OF a(1) assms(2)] q by blast
qed

section \<open>Steps of the loop\<close>

lemma path_element_front: "92 \<notin> set nm \<Longrightarrow> get_path_element (nm @ 92 # r) = length nm" "92 \<notin> set nm \<Longrightarrow> get_path_element nm = length nm"
proof -
  assume "92 \<notin> set nm"
  then have a: "\<And>c. c \<in> set nm \<Longrightarrow> c \<noteq> 92" by blast
  show "get_path_element (nm @ 92 # r) = length nm" unfolding get_path_element_def by (subst takeWhile_append2) (use a in auto)
  show "get_path_element nm = length nm" unfolding get_path_element_def by (subst takeWhile_eq_all_conv[THEN iffD2]) (use a in auto)
qed

lemma loop_directory:
  assumes "nbody (nobjs s d) = Directory n names"
  shows "lookup_loop cm s depth d name attr root =
    (case directory_lookup_name cm s n names name attr of
       Inl e \<Rightarrow> Some (Inl e) | Inr None \<Rightarrow> Some (Inr (d, name)) | Inr (Some next) \<Rightarrow> lookup_loop cm s depth (fst next) (snd next) attr root)"
  by (subst lookup_loop.simps) (use assms in simp)

lemma loop_other:
  assumes "nbody (nobjs s d) = Other k"
  shows "lookup_loop cm s depth d name attr root = Some (if name = No_Name then Inl STATUS_OBJECT_TYPE_MISMATCH else Inr (d, name))"
  by (subst lookup_loop.simps) (use assms in simp)

lemma loop_link:
  assumes "nbody (nobjs s p) = Symlink target"
  shows "lookup_loop cm s depth p name attr root =
    (if link_stays name attr p root then Some (Inr (p, name))
     else if target = [] then lookup_loop cm s depth (root_directory s) name attr root
     else case lookup_start s depth None target of
            Inl e \<Rightarrow> Some (Inl e)
          | Inr start \<Rightarrow>
              (case lookup_loop cm s (depth + 1) (fst start) (snd start) attr (fst start) of
                 None \<Rightarrow> None
               | Some r \<Rightarrow>
                   (case link_target name r of Inl e \<Rightarrow> Some (Inl e) | Inr None \<Rightarrow> Some (Inr (p, name))
                    | Inr (Some next) \<Rightarrow> lookup_loop cm s depth (fst next) (snd next) attr root)))"
  by (subst lookup_loop.simps) (use assms in \<open>auto split: sum.splits option.splits\<close>)

section \<open>The walk along a full name\<close>

lemma full_name_root: "nname (nobjs s p) = None \<Longrightarrow> full_name_fuel n s p = []" by (cases n) simp_all

lemma full_name_more: "ns_ok cm ins s \<Longrightarrow> p < m \<Longrightarrow> p < n \<Longrightarrow> full_name_fuel m s p = full_name_fuel n s p"
proof (induction m arbitrary: n p)
  case (Suc m)
  then obtain k where n: "n = Suc k" by (cases n) auto
  have "full_name_fuel m s d = full_name_fuel k s d" if "named s p nm d" for nm d
    using Suc.IH[OF Suc.prems(1), of d k] ns_ok_D(9)[OF Suc.prems(1) that] Suc.prems(2,3) n by simp
  then show ?case unfolding n by (auto split: option.splits)
qed simp

definition full_name :: "namespace \<Rightarrow> ptr \<Rightarrow> wchar list" where "full_name s p = full_name_fuel (p + 1) s p"

lemma full_name_named:
  assumes "ns_ok cm ins s" "named s p nm d"
  shows "full_name s p = full_name s d @ 92 # nm"
  using full_name_more[OF assms(1), of d p "d + 1"] ns_ok_D(9)[OF assms] assms(2) by (simp add: full_name_def)

text \<open>An object with a place in the tree: the walk from it along the names ends at the root.\<close>

inductive rooted :: "namespace \<Rightarrow> ptr \<Rightarrow> bool" for s where
  root: "rooted s (root_directory s)"
| child: "rooted s d \<Longrightarrow> named s p nm d \<Longrightarrow> rooted s p"

text \<open>The loop with the names of a path in front of the rest of a name, which is that of the path alone at its end.\<close>

fun path_name :: "wchar list \<Rightarrow> rest_name \<Rightarrow> rest_name" where
  "path_name nm (Name r) = Name (nm @ 92 # r)"
| "path_name nm _ = Name nm"

lemma directory_finds:
  assumes "ns_ok cm ins s" "named s p nm d" "nbody (nobjs s d) = Directory n names" "folds attr \<longrightarrow> ins" "r \<noteq> No_Name"
  shows "directory_lookup_name cm s n names (path_name nm r) attr = Inr (Some (p, r))"
proof -
  have e: "92 \<notin> set nm" by (rule ns_ok_D(11)[OF assms(1,2)])
  have f: "find_object cm s n names nm attr = Some p" by (rule find_object_named[OF assms(1-4)])
  show ?thesis using assms(5) by (cases r) (simp_all add: directory_lookup_name_def path_element_front[OF e] f)
qed

text \<open>The walk from the root to the name of an object in its directory.\<close>

lemma full_name_walk:
  assumes ok: "ns_ok cm ins s" and attr: "folds attr \<longrightarrow> ins"
  shows "rooted s p \<Longrightarrow> r \<noteq> No_Name \<Longrightarrow> p \<noteq> root_directory s \<Longrightarrow>
    \<exists>path. path_name (full_name s p) r = Name (92 # path) \<and> path \<noteq> [] \<and>
      lookup_loop cm s depth (root_directory s) (Name path) attr root = lookup_loop cm s depth p r attr root"
proof (induction arbitrary: r rule: rooted.induct)
  case (child d p nm)
  note n = child.hyps(2)
  obtain k names where dir: "nbody (nobjs s d) = Directory k names" using ns_ok_D(12)[OF ok n] by blast
  have step: "lookup_loop cm s depth d (path_name nm r) attr root = lookup_loop cm s depth p r attr root"
    unfolding loop_directory[OF dir] directory_finds[OF ok n dir attr child.prems(1)] by simp
  obtain m where m: "path_name nm r = Name m" "m \<noteq> []" using ns_ok_D(10)[OF ok n] by (cases r) auto
  have full: "path_name (full_name s p) r = path_name (full_name s d) (path_name nm r)"
    unfolding full_name_named[OF ok n] by (cases r) simp_all
  show ?case
  proof (cases "d = root_directory s")
    case True
    have "full_name s d = []" unfolding full_name_def True by (rule full_name_root[OF ns_ok_D(2)[OF ok]])
    then show ?thesis using m step full True by (intro exI[of _ m]) simp
  next
    case False
    have "path_name nm r \<noteq> No_Name" using m by simp
    from child.IH[OF this False] obtain path where p: "path_name (full_name s d) (path_name nm r) = Name (92 # path)" "path \<noteq> []"
      "lookup_loop cm s depth (root_directory s) (Name path) attr root = lookup_loop cm s depth d (path_name nm r) attr root" by blast
    show ?thesis by (intro exI[of _ path] conjI) (use p step full in simp_all)
  qed
qed simp

text \<open>At the end of the name the loop stays at an object that is not a link, or a link that is wanted itself.\<close>

lemma loop_stays:
  assumes "\<forall>t. nbody (nobjs s p) = Symlink t \<longrightarrow> attr AND OBJ_OPENLINK \<noteq> 0"
  shows "lookup_loop cm s depth p Null_Name attr root = Some (Inr (p, Null_Name))"
proof (cases "nbody (nobjs s p)")
  case (Directory n names)
  then show ?thesis unfolding loop_directory[OF Directory] by (simp add: directory_lookup_name_def)
next
  case (Symlink t)
  then show ?thesis using assms unfolding loop_link[OF Symlink] by (simp add: link_stays_def)
next
  case (Other k)
  show ?thesis unfolding loop_other[OF Other] by simp
qed

lemma lookup_full_name:
  assumes "ns_ok cm ins s" "folds attr \<longrightarrow> ins" "rooted s p" "p \<noteq> root_directory s" "depth \<le> 32"
    and "\<forall>t. nbody (nobjs s p) = Symlink t \<longrightarrow> attr AND OBJ_OPENLINK \<noteq> 0"
  shows "lookup_named_object cm s depth None (full_name s p) attr = Some (Inr (p, []))"
proof -
  obtain path where path: "full_name s p = 92 # path" "path \<noteq> []"
    "lookup_loop cm s (depth + 1) (root_directory s) (Name path) attr (root_directory s) = lookup_loop cm s (depth + 1) p Null_Name attr (root_directory s)"
    using full_name_walk[OF assms(1-3) _ assms(4), of Null_Name "depth + 1" "root_directory s"] by auto
  have "lookup_start s depth None (full_name s p) = Inr (root_directory s, Name path)" using path(1,2) assms(5) by (simp add: lookup_start_def)
  then show ?thesis using path(3) unfolding lookup_named_object_def loop_stays[OF assms(6)] by simp
qed

section \<open>The loop ends when links are followed\<close>

text \<open>A lookup that does not stop at links ends at an object that is none, unless it is the link that it started from.\<close>

fun is_link :: "namespace \<Rightarrow> ptr \<Rightarrow> bool" where
  "is_link s p = (\<exists>t. nbody (nobjs s p) = Symlink t)"

abbreviation past_link :: "namespace \<Rightarrow> ptr \<Rightarrow> (ptr \<times> rest_name) result \<Rightarrow> bool" where
  "past_link s root r \<equiv> (\<forall>q left. r = Inr (q, left) \<longrightarrow> left \<noteq> No_Name \<and> (rest_string left = [] \<longrightarrow> is_link s q \<longrightarrow> q = root))"

lemma directory_shorter:
  assumes "directory_lookup_name cm s n names name attr = Inr (Some (q, m))"
  shows "length (rest_string m) < length (rest_string name)" "m \<noteq> No_Name"
proof -
  obtain x where x: "name = Name x" using assms by (cases name) (auto simp: directory_lookup_name_def)
  have "take (get_path_element x) x \<noteq> []" using assms x by (auto simp: directory_lookup_name_def find_object_def Let_def split: option.splits if_splits)
  then have "x \<noteq> []" by auto
  then show "length (rest_string m) < length (rest_string name)" "m \<noteq> No_Name"
    using assms x by (auto simp: directory_lookup_name_def Let_def split: option.splits if_splits)
qed

text \<open>The measure: the levels of links that are left, the rest of the name, whether a link is next.\<close>

lemma loop_returns:
  assumes root_dir: "\<exists>n names. nbody (nobjs s (root_directory s)) = Directory n names" and follow: "attr AND OBJ_OPENLINK = 0"
  shows "\<exists>r. lookup_loop cm s depth p name attr root = Some r \<and> (name \<noteq> No_Name \<longrightarrow> past_link s root r)"
proof (induction "(depth, p, name, root)" arbitrary: depth p name root
    rule: wf_induct_rule[OF wf_measures, of "[\<lambda>(d, q, m, rt). 33 - d, \<lambda>(d, q, m, rt). length (rest_string m), \<lambda>(d, q, m, rt). of_bool (is_link s q)]"])
  case 1
  have IH: "\<exists>r. lookup_loop cm s dp q m attr rt = Some r \<and> (m \<noteq> No_Name \<longrightarrow> past_link s rt r)"
    if "33 - dp < 33 - depth \<or> dp = depth \<and> (length (rest_string m) < length (rest_string name) \<or>
      m = name \<and> \<not> is_link s q \<and> is_link s p)" for dp q m rt
    by (rule 1) (use that in \<open>auto simp del: is_link.simps\<close>)
  show ?case
  proof (cases "nbody (nobjs s p)")
    case (Directory n names)
    then have nl: "\<not> is_link s p" by simp
    show ?thesis
    proof (cases "directory_lookup_name cm s n names name attr")
      case (Inl e)
      then show ?thesis unfolding loop_directory[OF Directory] by simp
    next
      case (Inr x)
      show ?thesis
      proof (cases x)
        case None
        then show ?thesis unfolding loop_directory[OF Directory] using Inr nl by simp
      next
        case (Some y)
        obtain q m where y: "y = (q, m)" by fastforce
        note sh = directory_shorter[OF Inr[unfolded Some y]]
        have eq: "lookup_loop cm s depth p name attr root = lookup_loop cm s depth q m attr root"
          unfolding loop_directory[OF Directory] Inr Some y by simp
        show ?thesis unfolding eq using IH[of depth m q root] sh by blast
      qed
    qed
  next
    case (Symlink target)
    have link: "is_link s p" using Symlink by simp
    have after: "\<exists>r. lookup_loop cm s depth q name attr root = Some r \<and> (name \<noteq> No_Name \<longrightarrow> past_link s root r)" if "\<not> is_link s q" for q
      using IH[of depth name q root] that link by blast
    have rd: "\<not> is_link s (root_directory s)" using root_dir by auto
    consider "link_stays name attr p root" | "\<not> link_stays name attr p root" "target = []"
      | e where "\<not> link_stays name attr p root" "target \<noteq> []" "lookup_start s depth None target = Inl e"
      | st where "\<not> link_stays name attr p root" "target \<noteq> []" "lookup_start s depth None target = Inr st" by (cases "lookup_start s depth None target") auto
    then show ?thesis
    proof cases
      case 1
      then have "name = No_Name \<or> p = root" using follow by (auto simp: link_stays_def)
      then show ?thesis unfolding loop_link[OF Symlink] using 1 by auto
    next
      case 2
      then show ?thesis unfolding loop_link[OF Symlink] using after[OF rd] by simp
    next
      case 3
      then show ?thesis unfolding loop_link[OF Symlink] by simp
    next
      case (4 st)
      have st: "fst st = root_directory s" "depth \<le> 32" using 4(3) by (auto simp: lookup_start_def Let_def split: if_splits)
      have "33 - (depth + 1) < 33 - depth" using st(2) by simp
      from IH[OF disjI1[OF this], of "fst st" "snd st" "fst st"]
      obtain r where r: "lookup_loop cm s (depth + 1) (fst st) (snd st) attr (fst st) = Some r" "snd st \<noteq> No_Name \<longrightarrow> past_link s (fst st) r" by blast
      have nn: "q = root_directory s \<and> left = No_Name" if "snd st = No_Name" "r = Inr (q, left)" for q left
      proof -
        obtain n names where "nbody (nobjs s (root_directory s)) = Directory n names" using root_dir by blast
        from r(1)[unfolded st(1) that(1) loop_directory[OF this]] that(2) show ?thesis by (simp add: directory_lookup_name_def)
      qed
      have plain: "\<not> is_link s q" if q: "r = Inr (q, left)" "rest_string left = []" for q left
      proof (cases "snd st = No_Name")
        case True
        then show ?thesis using nn[OF True q(1)] rd by simp
      next
        case False
        have "is_link s q \<longrightarrow> q = fst st" using r(2)[rule_format, OF False q(1)] q(2) by simp
        then show ?thesis using rd st(1) by metis
      qed
      show ?thesis
      proof (cases "link_target name r")
        case (Inl e)
        then show ?thesis unfolding loop_link[OF Symlink] using 4 r(1) by simp
      next
        case (Inr x)
        then obtain q left where q: "r = Inr (q, left)" "rest_string left = []" "x = Some (q, name)"
          by (auto simp: link_target_def split: sum.splits if_splits)
        have eq: "lookup_loop cm s depth p name attr root = lookup_loop cm s depth q name attr root"
          unfolding loop_link[OF Symlink] using 4 r(1) Inr q(3) by simp
        show ?thesis unfolding eq by (rule after[OF plain[OF q(1,2)]])
      qed
    qed
  next
    case (Other k)
    then show ?thesis unfolding loop_other[OF Other] by simp
  qed
qed

lemma lookup_returns:
  assumes "ns_ok cm ins s" "attr AND OBJ_OPENLINK = 0"
  shows "\<exists>r. lookup_named_object cm s depth root name attr = Some r"
proof (cases "lookup_start s depth root name")
  case (Inr st)
  then show ?thesis using loop_returns[OF ns_ok_D(4)[OF assms(1)] assms(2), of cm "depth + 1" "fst st" "snd st" "fst st"]
    unfolding lookup_named_object_def by auto
qed (simp add: lookup_named_object_def)

section \<open>The loop does not end at a link that leads to itself\<close>

text \<open>A link whose target is its own full name, to be passed by a lookup that does not follow a link at the end of a name.\<close>

definition self_link :: "(nat \<Rightarrow> nat) \<Rightarrow> namespace \<Rightarrow> nat \<Rightarrow> ptr \<Rightarrow> rest_name \<Rightarrow> u32 \<Rightarrow> ptr \<Rightarrow> bool" where
  "self_link cm s depth p name attr root \<longleftrightarrow>
     (\<exists>ins. ns_ok cm ins s \<and> (folds attr \<longrightarrow> ins)) \<and> rooted s p \<and> nbody (nobjs s p) = Symlink (full_name s p) \<and>
     rest_string name \<noteq> [] \<and> attr AND OBJ_OPENLINK \<noteq> 0 \<and> p \<noteq> root \<and> depth \<le> 32"

lemma self_link_target:
  assumes "self_link cm s depth p name attr root"
  shows "\<exists>path. lookup_start s depth None (full_name s p) = Inr (root_directory s, Name path) \<and>
    lookup_loop cm s (depth + 1) (root_directory s) (Name path) attr (root_directory s) = Some (Inr (p, Null_Name)) \<and> full_name s p \<noteq> []"
proof -
  obtain ins where ok: "ns_ok cm ins s" "folds attr \<longrightarrow> ins" and p: "rooted s p" "nbody (nobjs s p) = Symlink (full_name s p)"
    "attr AND OBJ_OPENLINK \<noteq> 0" "depth \<le> 32" using assms unfolding self_link_def by blast
  have root: "p \<noteq> root_directory s" using ns_ok_D(4)[OF ok(1)] p(2) by auto
  obtain path where path: "full_name s p = 92 # path" "path \<noteq> []"
    "lookup_loop cm s (depth + 1) (root_directory s) (Name path) attr (root_directory s) = lookup_loop cm s (depth + 1) p Null_Name attr (root_directory s)"
    using full_name_walk[OF ok p(1) _ root, of Null_Name "depth + 1" "root_directory s"] by auto
  have "lookup_start s depth None (full_name s p) = Inr (root_directory s, Name path)" using path(1,2) p(4) by (simp add: lookup_start_def)
  moreover have "lookup_loop cm s (depth + 1) p Null_Name attr (root_directory s) = Some (Inr (p, Null_Name))"
    by (rule loop_stays) (use p(3) in simp)
  ultimately show ?thesis using path by simp
qed

lemma self_link_spins:
  assumes "self_link cm s depth p name attr root"
  shows "lookup_loop cm s depth p name attr root = None"
proof (rule ccontr)
  assume "lookup_loop cm s depth p name attr root \<noteq> None"
  then obtain y where y: "lookup_loop cm s depth p name attr root = Some y" by blast
  have "lookup_loop cm s depth p name attr root = Some y \<and> \<not> self_link cm s depth p name attr root"
  proof (rule lookup_loop.raw_induct[where P = "\<lambda>cm s depth p name attr root y.
      lookup_loop cm s depth p name attr root = Some y \<and> \<not> self_link cm s depth p name attr root", OF _ y], goal_cases)
    case (1 f cm s depth p name attr root y)
    note IH = 1(1)[THEN conjunct1] 1(1)[THEN conjunct2] and eq = 1(2)
    have "lookup_loop cm s depth p name attr root = Some y"
    proof -
      define look where "look g = (case nbody (nobjs s p) of
             Directory hash_size names \<Rightarrow> Some (directory_lookup_name cm s hash_size names name attr)
           | Symlink target \<Rightarrow>
               if link_stays name attr p root then Some (Inr None)
               else if target = [] then Some (Inr (Some (root_directory s, name)))
               else (case lookup_start s depth None target of
                       Inl e \<Rightarrow> Some (Inl e)
                     | Inr start \<Rightarrow> do { r \<leftarrow> g cm s (depth + 1) (fst start) (snd start) attr (fst start); Some (link_target name r) })
           | Other _ \<Rightarrow> Some (if name = No_Name then Inl STATUS_OBJECT_TYPE_MISMATCH else Inr None))" for g
      obtain st where st: "look f = Some st"
        "(case st of Inl e \<Rightarrow> Some (Inl e) | Inr None \<Rightarrow> Some (Inr (p, name)) | Inr (Some next) \<Rightarrow> f cm s depth (fst next) (snd next) attr root) = Some y"
        using eq unfolding look_def[of f, symmetric] by (auto simp: bind_eq_Some_conv)
      have "look (lookup_loop) = Some st"
        using st(1) unfolding look_def by (auto simp: bind_eq_Some_conv dest: IH(1) split: object_body.splits sum.splits if_splits)
      moreover have "(case st of Inl e \<Rightarrow> Some (Inl e) | Inr None \<Rightarrow> Some (Inr (p, name))
          | Inr (Some next) \<Rightarrow> lookup_loop cm s depth (fst next) (snd next) attr root) = Some y"
        using st(2) by (auto dest: IH(1) split: sum.splits option.splits)
      ultimately show ?thesis by (subst lookup_loop.simps) (simp add: look_def)
    qed
    moreover have "\<not> self_link cm s depth p name attr root"
    proof
      assume sl: "self_link cm s depth p name attr root"
      obtain path where path: "lookup_start s depth None (full_name s p) = Inr (root_directory s, Name path)"
        "lookup_loop cm s (depth + 1) (root_directory s) (Name path) attr (root_directory s) = Some (Inr (p, Null_Name))" "full_name s p \<noteq> []"
        using self_link_target[OF sl] by blast
      have b: "nbody (nobjs s p) = Symlink (full_name s p)" "\<not> link_stays name attr p root"
        using sl by (auto simp: self_link_def link_stays_def)
      obtain x where x: "f cm s (depth + 1) (root_directory s) (Name path) attr (root_directory s) = Some x"
        "(case link_target name x of Inl e \<Rightarrow> Some (Inl e) | Inr None \<Rightarrow> Some (Inr (p, name))
          | Inr (Some next) \<Rightarrow> f cm s depth (fst next) (snd next) attr root) = Some y"
        using eq path(1,3) b by (auto simp: bind_eq_Some_conv)
      have "x = Inr (p, Null_Name)" using IH(1)[OF x(1)] path(2) by simp
      then have "f cm s depth p name attr root = Some y" using x(2) by (simp add: link_target_def)
      from IH(2)[OF this] show False using sl by blast
    qed
    ultimately show ?case by blast
  qed
  then show False using assms by blast
qed

lemma lookup_self_link:
  assumes "ns_ok cm ins s" "folds attr \<longrightarrow> ins" "rooted s p" "nbody (nobjs s p) = Symlink (full_name s p)" "attr AND OBJ_OPENLINK \<noteq> 0"
    and "rest \<noteq> []"
  shows "lookup_named_object cm s 0 None (full_name s p @ 92 # rest) attr = None"
proof -
  have root: "p \<noteq> root_directory s" using ns_ok_D(4)[OF assms(1)] assms(4) by auto
  obtain path where path: "full_name s p @ 92 # rest = 92 # path" "path \<noteq> []"
    "lookup_loop cm s 1 (root_directory s) (Name path) attr (root_directory s) = lookup_loop cm s 1 p (Name rest) attr (root_directory s)"
    using full_name_walk[OF assms(1-3) _ root, of "Name rest" 1 "root_directory s"] by auto
  have "self_link cm s 1 p (Name rest) attr (root_directory s)" using assms root unfolding self_link_def by auto
  from path(3)[unfolded self_link_spins[OF this]] path(1,2) show ?thesis by (simp add: lookup_named_object_def lookup_start_def)
qed

end
