(* ===== verification/Namespace_Create.thy ===== *)
theory Namespace_Create
  imports Namespace_Lookup
begin

text \<open>What the creation and the opening of objects do to the tree and to the references.\<close>

section \<open>New objects\<close>

text \<open>The objects of before keep their names and what they are.\<close>

definition old_kept :: "namespace \<Rightarrow> namespace \<Rightarrow> bool" where
  "old_kept s s' \<longleftrightarrow> root_directory s' = root_directory s \<and> next_obj s \<le> next_obj s' \<and>
     (\<forall>q<next_obj s. nname (nobjs s' q) = nname (nobjs s q) \<and> npermanent (nobjs s' q) = npermanent (nobjs s q) \<and>
        same_ops (nbody (nobjs s' q)) (nbody (nobjs s q)) \<and> (\<forall>t. nbody (nobjs s' q) = Symlink t \<longleftrightarrow> nbody (nobjs s q) = Symlink t))"

lemma old_kept_refl [simp]: "old_kept s s" by (simp add: old_kept_def)

lemma old_kept_trans: "old_kept s s' \<Longrightarrow> old_kept s' s'' \<Longrightarrow> old_kept s s''"
  unfolding old_kept_def
proof (elim conjE, intro conjI allI impI, goal_cases)
  case (5 q)
  then have "same_ops (nbody (nobjs s'' q)) (nbody (nobjs s' q))" "same_ops (nbody (nobjs s' q)) (nbody (nobjs s q))" by simp_all
  then show ?case by (rule same_ops_trans)
qed simp_all

text \<open>Directories have a positive number of lists.\<close>

fun proper_body :: "object_body \<Rightarrow> bool" where
  "proper_body (Directory n _) = (0 < n)"
| "proper_body _ = True"

definition allocated :: "namespace \<Rightarrow> object_body \<Rightarrow> namespace" where "allocated s b = fst (alloc_object s b)"

lemma alloc_object_eq: "alloc_object s b = (allocated s b, next_obj s)"
  by (simp add: allocated_def alloc_object_def Let_def)

lemma allocated_simps [simp]:
  "next_obj (allocated s b) = next_obj s + 1" "root_directory (allocated s b) = root_directory s"
  "nobjs (allocated s b) q = (if q = next_obj s then \<lparr>nrefs = 1, npermanent = False, nname = None, nbody = init_body b\<rparr> else nobjs s q)"
  by (simp_all add: allocated_def alloc_object_def set_object_def Let_def)

lemma new_unused:
  assumes "ns_ok cm ins s" "next_obj s \<le> p"
  shows "\<not> live s p" "nname (nobjs s p) = None" "\<not> named s q nm p" "members s p = {}"
proof -
  show l: "\<not> live s p" using ns_ok_D(6)[OF assms(1), of p] assms(2) by auto
  show "nname (nobjs s p) = None" by (rule dead_unnamed[OF assms(1) l])
  show n: "\<not> named s q nm p" for q nm using ns_ok_D(8)[OF assms(1), of q nm p] l by blast
  show "members s p = {}" using n by (simp add: members_def)
qed

lemma unheld_new: "ns_ok cm ins s \<Longrightarrow> counted s held \<Longrightarrow> held (next_obj s) = 0"
  using new_unused(1)[of cm ins s "next_obj s"] counted_D[of s held "next_obj s"] by simp

lemma allocated_named: "ns_ok cm ins s \<Longrightarrow> named (allocated s b) q nm d \<longleftrightarrow> named s q nm d"
  using new_unused(2)[of cm ins s "next_obj s"] by auto

lemma allocated_members: "ns_ok cm ins s \<Longrightarrow> members (allocated s b) d = members s d"
  unfolding members_def by (simp only: allocated_named)

lemma allocated_ok:
  assumes ok: "ns_ok cm ins s" and b: "proper_body b"
  shows "ns_ok cm ins (allocated s b)"
proof -
  note D = ns_ok_D[OF ok]
  have ne: "q \<noteq> next_obj s" if "live s q" for q using D(6)[OF that] by simp
  have lists: "lists_ok cm (allocated s b) d" if "live (allocated s b) d" for d
  proof (cases "d = next_obj s")
    case True
    have none: "\<not> named s q nm (next_obj s)" for q nm using new_unused(3)[OF ok] by blast
    show ?thesis unfolding lists_ok_def allocated_named[OF ok] using none b True by (cases b) auto
  next
    case False
    show ?thesis by (rule lists_ok_cong[OF D(13)]) (use that False allocated_named[OF ok] in auto)
  qed
  have live: "live (allocated s b) q \<longleftrightarrow> live s q \<or> q = next_obj s" for q by simp
  have old: "nobjs (allocated s b) q = nobjs s q" if "live s q" for q using ne[OF that] by simp
  show ?thesis
    unfolding ns_ok_def allocated_named[OF ok]
  proof (intro conjI allI impI)
    fix q assume "live (allocated s b) q"
    then show "0 < q" "q < next_obj (allocated s b)" using D(5,6)[of q] D(5,6)[OF D(1)] unfolding live by auto
  next
    fix q nm d assume n: "named s q nm d"
    show "live (allocated s b) q" "live (allocated s b) d" unfolding live using D(7,8)[OF n] by blast+
    show "\<exists>n names. nbody (nobjs (allocated s b) d) = Directory n names" unfolding old[OF D(8)[OF n]] by (rule D(12)[OF n])
  qed (use D(2-4,9-11,14) lists ne[OF D(1)] old[OF D(1)] D(1) in auto)
qed

lemma allocated_counted:
  assumes "ns_ok cm ins s" "counted s held"
  shows "counted (allocated s b) (held(next_obj s := 1))"
  using assms(2) new_unused(4)[OF assms(1) order.refl] unfolding counted_def allocated_members[OF assms(1)] by auto

lemma allocated_old: "old_kept s (allocated s b)" by (auto simp: old_kept_def)

text \<open>An object whose creation fails is freed.\<close>

lemma free_new:
  assumes ok: "ns_ok cm ins s" and c: "counted s held" and b: "proper_body b"
  shows "ns_ok cm ins (free_object (allocated s b) (next_obj s))" "counted (free_object (allocated s b) (next_obj s)) held"
    "old_kept s (free_object (allocated s b) (next_obj s))"
proof -
  let ?s = "allocated s b" and ?p = "next_obj s"
  have f: "free_object ?s ?p = freed ?s ?p" by (simp add: free_object_def freed_def recounted_def)
  have m: "members ?s ?p = {}" unfolding allocated_members[OF ok] by (rule new_unused(4)[OF ok order.refl])
  have r: "?p \<noteq> root_directory ?s" using ns_ok_D(6)[OF ok ns_ok_D(1)[OF ok]] by simp
  show "ns_ok cm ins (free_object ?s ?p)" unfolding f by (rule freed_ok[OF allocated_ok[OF ok b] r m])
  have "counted (freed ?s ?p) ((held(?p := 1))(?p := 0))"
    using freed_counted[OF allocated_ok[OF ok b] allocated_counted[OF ok c, of b] m] by simp
  moreover have "(held(?p := 1))(?p := 0) = held" using unheld_new[OF ok c] by (simp add: fun_upd_idem)
  ultimately show "counted (free_object ?s ?p) held" unfolding f by simp
  show "old_kept s (free_object ?s ?p)" unfolding free_object_def set_object_def old_kept_def by auto
qed

section \<open>Linking a name\<close>

definition linked :: "(nat \<Rightarrow> nat) \<Rightarrow> namespace \<Rightarrow> ptr \<Rightarrow> wchar list \<Rightarrow> ptr \<Rightarrow> namespace" where
  "linked cm s p nm d = (case directory_link_name cm s p nm d of Inr s' \<Rightarrow> s' | Inl e \<Rightarrow> s)"

lemma link_object:
  "directory_link_name cm s p nm d =
    (if \<exists>n names. nbody (nobjs s d) = Directory n names then Inr (linked cm s p nm d) else Inl STATUS_OBJECT_TYPE_MISMATCH)"
  by (auto simp: linked_def directory_link_name_def Let_def split: object_body.splits)

lemma linked_simps:
  assumes "nbody (nobjs s d) = Directory n names" "p \<noteq> d"
  shows "next_obj (linked cm s p nm d) = next_obj s" "root_directory (linked cm s p nm d) = root_directory s"
    "nname (nobjs (linked cm s p nm d) q) = (if q = p then Some (nm, d) else nname (nobjs s q))"
    "nrefs (nobjs (linked cm s p nm d) q) = (if q = d then nrefs (nobjs s d) + 1 else nrefs (nobjs s q))"
    "npermanent (nobjs (linked cm s p nm d) q) = npermanent (nobjs s q)"
    "nbody (nobjs (linked cm s p nm d) q) = (if q = d then Directory n (namespace_add cm n names nm p) else nbody (nobjs s q))"
  using assms by (simp_all add: linked_def directory_link_name_def ns_grab_def set_object_def Let_def)

lemma linked_members:
  assumes "nbody (nobjs s d) = Directory n names" "p \<noteq> d" "nname (nobjs s p) = None"
  shows "members (linked cm s p nm d) e = (if e = d then insert p (members s d) else members s e)"
  using assms(3) by (auto simp: members_def linked_simps[OF assms(1,2)])

lemma linked_ok:
  assumes ok: "ns_ok cm ins s" and p: "live s p" "nname (nobjs s p) = None" "d < p"
    and d: "live s d" "nbody (nobjs s d) = Directory n names" and nm: "nm \<noteq> []" "92 \<notin> set nm"
    and new: "\<And>q a. named s q a d \<Longrightarrow> \<not> names_agree cm ins a nm" and root: "p \<noteq> root_directory s"
  shows "ns_ok cm ins (linked cm s p nm d)"
proof -
  note D = ns_ok_D[OF ok] and L = linked_simps[OF d(2) less_imp_neq[OF p(3), symmetric], of cm nm]
  let ?s = "linked cm s p nm d"
  have named: "named ?s q a e \<longleftrightarrow> named s q a e \<and> q \<noteq> p \<or> q = p \<and> a = nm \<and> e = d" for q a e unfolding L by auto
  have old: "named s q a e \<Longrightarrow> q \<noteq> p" for q a e using p(2) by auto
  have live: "live ?s q \<longleftrightarrow> live s q" for q unfolding L using d(1) by simp
  have dir: "(\<exists>m ns. nbody (nobjs ?s q) = Directory m ns) \<longleftrightarrow> (\<exists>m ns. nbody (nobjs s q) = Directory m ns)" for q unfolding L using d(2) by simp
  have lists: "lists_ok cm ?s e" if "live s e" for e
  proof (cases "e = d")
    case False
    have n: "named ?s q a e \<longleftrightarrow> named s q a e" for q a using named old False by blast
    show ?thesis by (rule lists_ok_cong[OF D(13)[OF that]]) (use False n in \<open>simp_all add: L(6)\<close>)
  next
    case True
    have l: "0 < n" "distinct (names h)" "set (names h) = {q. \<exists>a. named s q a d \<and> hash_strW cm a n = h}" for h
      using D(13)[OF d(1)] d(2) unfolding lists_ok_def by blast+
    have "distinct (namespace_add cm n names nm p h) \<and> set (namespace_add cm n names nm p h) = {q. \<exists>a. named ?s q a d \<and> hash_strW cm a n = h}" for h
    proof -
      have np: "p \<notin> set (names h)" unfolding l(3) using old by blast
      have eq: "{q. \<exists>a. named ?s q a d \<and> hash_strW cm a n = h} = set (names h) \<union> (if hash_strW cm nm n = h then {p} else {})"
        unfolding l(3) named using old by auto
      show ?thesis using np l(2)[of h] unfolding eq by (auto simp: namespace_add_def Let_def)
    qed
    then show ?thesis using l(1) True unfolding lists_ok_def L(6) by auto
  qed
  have unique: "q = r" if "named ?s q a e" "named ?s r b e" "names_agree cm ins a b" for q r a b e
  proof -
    have sym: "names_agree cm ins b a" using that(3) by (auto simp: names_agree_def)
    show ?thesis using that(1,2) unfolding named using D(14)[of q a e r b] new that(3) sym by blast
  qed
  show ?thesis
    unfolding ns_ok_def live dir L(1,2,5)
  proof (intro conjI allI impI)
    fix q a e assume n: "named ?s q a e"
    show "live s q" "live s e" "e < q" "a \<noteq> []" "92 \<notin> set a" "\<exists>n names. nbody (nobjs s e) = Directory n names"
      using n p d nm D(7-12)[of q a e] unfolding named by blast+
  next
    fix q r a b e assume "named ?s q a e \<and> named ?s r b e \<and> names_agree cm ins a b"
    then show "q = r" using unique by blast
  next
    show "nname (nobjs ?s (root_directory s)) = None" using D(2) root unfolding L(3) by simp
  qed (use D(1-6) lists in simp_all)
qed

lemma linked_counted:
  assumes ok: "ns_ok cm ins s" and c: "counted s held" and p: "nname (nobjs s p) = None" "p \<noteq> d" and d: "nbody (nobjs s d) = Directory n names"
  shows "counted (linked cm s p nm d) held"
proof -
  have "p \<notin> members s d" using p(1) by (simp add: members_def)
  then have "card (insert p (members s d)) = card (members s d) + 1" using members_finite[OF ok] by simp
  then show ?thesis using c unfolding counted_def linked_members[OF d p(2,1)] linked_simps[OF d p(2)] by simp
qed

text \<open>Unlinking the name that was linked last.\<close>

lemma unlink_linked:
  assumes ok: "ns_ok cm ins s" and p: "nname (nobjs s p) = None" "p \<noteq> d" and d: "live s d" "nbody (nobjs s d) = Directory n names"
  shows "unlink_named_object (linked cm s p nm d) p = Some s"
proof -
  have L: "linked cm s p nm d = s\<lparr>nobjs := (nobjs s)(d := (nobjs s d)\<lparr>nbody := Directory n (namespace_add cm n names nm p), nrefs := nrefs (nobjs s d) + 1\<rparr>,
      p := (nobjs s p)\<lparr>nname := Some (nm, d)\<rparr>)\<rparr>"
    using p(2) d(2) by (simp add: linked_def directory_link_name_def ns_grab_def set_object_def Let_def fun_upd_twist)
  have "p \<notin> set (names h)" for h using ns_ok_D(13)[OF ok d(1)] d(2) p(1) unfolding lists_ok_def by auto
  then have "remove1 p (namespace_add cm n names nm p h) = names h" for h
    by (simp add: namespace_add_def Let_def remove1_idem)
  then have r: "(\<lambda>h. remove1 p (namespace_add cm n names nm p h)) = names" by (rule ext)
  have "(nobjs s p)\<lparr>nname := None\<rparr> = nobjs s p" "(nobjs s d)\<lparr>nbody := Directory n names\<rparr> = nobjs s d" using p(1) d(2) by simp_all
  then have "unlink_name (linked cm s p nm d) p d = s\<lparr>nobjs := (nobjs s)(d := (nobjs s d)\<lparr>nrefs := nrefs (nobjs s d) + 1\<rparr>)\<rparr>"
    unfolding L using p(2) d(2) r by (auto simp: unlink_name_def set_object_def Let_def fun_eq_iff)
  then have "ns_release (unlink_name (linked cm s p nm d) p d) d = Some s" using d(1) by (simp add: ns_release_def set_object_def)
  then show ?thesis using p(2) by (simp add: unlink_named_object_def L)
qed

end
