(* ===== verification/Namespace_Requests.thy ===== *)
theory Namespace_Requests
  imports Namespace_Create
begin

text \<open>
  What the requests on named objects do: where a lookup that returns ends, the creation of an object under a name, handles
  to new and existing objects, and the states that requests reach.
\<close>

section \<open>Where a lookup ends\<close>

text \<open>A name that is left at a directory is one element, and the directory has no such name.\<close>

definition name_left :: "(nat \<Rightarrow> nat) \<Rightarrow> namespace \<Rightarrow> u32 \<Rightarrow> ptr \<Rightarrow> wchar list \<Rightarrow> bool" where
  "name_left cm s attr q m \<longleftrightarrow> live s q \<and>
     (\<forall>n names. nbody (nobjs s q) = Directory n names \<and> m \<noteq> [] \<longrightarrow> 92 \<notin> set m \<and> find_object cm s n names m attr = None)"

lemma path_element_le: "get_path_element m \<le> length m"
  by (simp add: get_path_element_def length_takeWhile_le)

lemma path_element_all:
  assumes "get_path_element m = length m"
  shows "92 \<notin> set m"
proof -
  have "takeWhile (\<lambda>c. c \<noteq> 92) m = m" using assms takeWhile_eq_take[of "\<lambda>c. c \<noteq> 92" m] by (simp add: get_path_element_def)
  then show ?thesis unfolding takeWhile_eq_all_conv by blast
qed

lemma loop_left:
  assumes "lookup_loop cm s depth p name attr root = Some y"
  shows "\<forall>q left. ns_ok cm ins s \<longrightarrow> live s p \<longrightarrow> y = Inr (q, left) \<longrightarrow> name_left cm s attr q (rest_string left)"
proof (rule lookup_loop.raw_induct[where P = "\<lambda>cm s depth p name attr root y.
    \<forall>q left. ns_ok cm ins s \<longrightarrow> live s p \<longrightarrow> y = Inr (q, left) \<longrightarrow> name_left cm s attr q (rest_string left)", OF _ assms], intro allI impI, goal_cases)
  case (1 f cm s depth p name attr root y q left)
  have IH: "f cm s dp p m attr rt = Some y \<Longrightarrow> live s p \<Longrightarrow> y = Inr (q, left) \<Longrightarrow> name_left cm s attr q (rest_string left)" for dp p m rt y q left
    using 1(1,3) by blast
  note eq = 1(2) and ok = 1(3) and p = 1(4) and y = 1(5)
  have go: ?case if "f cm s depth r m attr root = Some y" "live s r" for r m using IH[OF that y] .
  have rd: "live s (root_directory s)" by (rule ns_ok_D(1)[OF ok])
  show ?case
  proof (cases "nbody (nobjs s p)")
    case (Directory n names)
    show ?thesis
    proof (cases "directory_lookup_name cm s n names name attr")
      case (Inl e)
      then show ?thesis using eq Directory y by simp
    next
      case (Inr x)
      show ?thesis
      proof (cases x)
        case None
        then have "q = p" "left = name" using eq Directory Inr y by auto
        then show ?thesis using None Inr p Directory path_element_all[of "rest_string name"] path_element_le[of "rest_string name"]
          by (cases name) (auto simp: name_left_def directory_lookup_name_def Let_def split: option.splits if_splits)
      next
        case (Some nx)
        have "\<exists>nm. find_object cm s n names nm attr = Some (fst nx)"
          using Inr Some by (cases name) (auto simp: directory_lookup_name_def Let_def split: option.splits if_splits)
        then have "live s (fst nx)" using find_object_Some[OF ok p Directory] ns_ok_D(7)[OF ok] by blast
        then show ?thesis by (intro go[of "fst nx" "snd nx"]) (use eq Directory Inr Some in auto)
      qed
    qed
  next
    case (Symlink target)
    have stay: ?thesis if "q = p" using p Symlink that by (simp add: name_left_def)
    consider "link_stays name attr p root" | "\<not> link_stays name attr p root" "target = []"
      | e where "\<not> link_stays name attr p root" "target \<noteq> []" "lookup_start s depth None target = Inl e"
      | st where "\<not> link_stays name attr p root" "target \<noteq> []" "lookup_start s depth None target = Inr st" by (cases "lookup_start s depth None target") auto
    then show ?thesis
    proof cases
      case 1
      then show ?thesis using eq Symlink y by (intro stay) simp
    next
      case 2
      then show ?thesis using eq Symlink rd by (intro go[of "root_directory s" name]) simp_all
    next
      case 3
      then show ?thesis using eq Symlink y by simp
    next
      case (4 st)
      obtain r where r: "f cm s (depth + 1) (fst st) (snd st) attr (fst st) = Some r"
        "(case link_target name r of Inl e \<Rightarrow> Some (Inl e) | Inr None \<Rightarrow> Some (Inr (p, name))
          | Inr (Some next) \<Rightarrow> f cm s depth (fst next) (snd next) attr root) = Some y"
        using eq Symlink 4 by (auto simp: bind_eq_Some_conv)
      have "fst st = root_directory s" using 4(3) by (auto simp: lookup_start_def Let_def split: if_splits)
      then have l: "live s t" if "r = Inr (t, lf)" for t lf using IH[OF r(1) _ that] rd unfolding name_left_def by simp
      obtain t lf where "r = Inr (t, lf)" "link_target name r = Inr (Some (t, name))" using r(2) y by (auto simp: link_target_def split: sum.splits if_splits)
      then show ?thesis using r(2) l by (intro go[of t name]) simp_all
    qed
  next
    case (Other k)
    then show ?thesis using eq p y by (auto simp: name_left_def split: if_splits)
  qed
qed

lemma lookup_left:
  assumes "ns_ok cm ins s" "\<forall>r. root = Some r \<longrightarrow> live s r" "lookup_named_object cm s depth root name attr = Some (Inr (q, m))"
  shows "name_left cm s attr q m"
proof -
  obtain st left where st: "lookup_start s depth root name = Inr st" "lookup_loop cm s (depth + 1) (fst st) (snd st) attr (fst st) = Some (Inr (q, left))"
    "m = rest_string left"
  proof (cases "lookup_start s depth root name")
    case (Inl e)
    then show ?thesis using assms(3) by (simp add: lookup_named_object_def)
  next
    case (Inr st)
    then obtain r where r: "lookup_loop cm s (depth + 1) (fst st) (snd st) attr (fst st) = Some r"
      "(case r of Inl e \<Rightarrow> Inl e | Inr (p, left) \<Rightarrow> Inr (p, rest_string left)) = Inr (q, m)"
      using assms(3) by (auto simp: lookup_named_object_def)
    then show ?thesis using that[OF Inr] by (cases r) auto
  qed
  have "live s (fst st)" using st(1) assms(2) ns_ok_D(1)[OF assms(1)] by (auto simp: lookup_start_def Let_def split: option.splits if_splits)
  from loop_left[OF st(2), rule_format, OF assms(1) this refl] show ?thesis unfolding st(3) .
qed

section \<open>Creation\<close>

text \<open>A new object \<open>k\<close> with the body and the name, held once by the creator.\<close>

definition new_object :: "(nat \<Rightarrow> nat) \<Rightarrow> bool \<Rightarrow> namespace \<Rightarrow> (ptr \<Rightarrow> nat) \<Rightarrow> namespace \<Rightarrow> object_body \<Rightarrow> (wchar list \<times> ptr) option \<Rightarrow> bool" where
  "new_object cm ins s held s' b nm \<longleftrightarrow> ns_ok cm ins s' \<and> counted s' (held(next_obj s := 1)) \<and> old_kept s s' \<and> next_obj s' = next_obj s + 1 \<and>
     nname (nobjs s' (next_obj s)) = nm \<and> nbody (nobjs s' (next_obj s)) = init_body b \<and> \<not> npermanent (nobjs s' (next_obj s))"

definition ns_same :: "(nat \<Rightarrow> nat) \<Rightarrow> bool \<Rightarrow> namespace \<Rightarrow> (ptr \<Rightarrow> nat) \<Rightarrow> namespace \<Rightarrow> bool" where
  "ns_same cm ins s held s' \<longleftrightarrow> ns_ok cm ins s' \<and> counted s' held \<and> old_kept s s'"

lemma create_without_name_effect:
  assumes ok: "ns_ok cm ins s" and c: "counted s held" and b: "proper_body b" and run: "create_object_without_name E s b = (s', r)"
  shows "case r of Inl e \<Rightarrow> ns_same cm ins s held s' | Inr (p, existed) \<Rightarrow> p = next_obj s \<and> \<not> existed \<and> new_object cm ins s held s' b None"
proof -
  note F = free_new[OF ok c b] and A = allocated_ok[OF ok b] allocated_counted[OF ok c, of b] allocated_old[of s b]
  have "new_object cm ins s held (allocated s b) b None" using A by (simp add: new_object_def)
  moreover have "ns_same cm ins s held (free_object (allocated s b) (next_obj s))" "ns_same cm ins s held s" using F ok c by (simp_all add: ns_same_def)
  ultimately show ?thesis using run by (auto simp: create_object_without_name_def alloc_object_eq split: if_splits)
qed

lemma linked_new:
  assumes ok: "ns_ok cm ins s" and c: "counted s held" and b: "proper_body b" and dir: "nbody (nobjs (allocated s b) d) = Directory n names"
    and nl: "name_left cm s attr d nm" "nm \<noteq> []" and attr: "ins \<longrightarrow> folds attr"
  shows "new_object cm ins s held (linked cm (allocated s b) (next_obj s) nm d) b (Some (nm, d))"
    "unlink_named_object (linked cm (allocated s b) (next_obj s) nm d) (next_obj s) = Some (allocated s b)"
proof -
  let ?s = "allocated s b" and ?p = "next_obj s"
  have d: "live s d" "d < ?p" using nl(1) ns_ok_D(6)[OF ok] unfolding name_left_def by blast+
  then have old: "nobjs ?s d = nobjs s d" by simp
  have dir': "nbody (nobjs s d) = Directory n names" using dir unfolding old .
  have none: "find_object cm s n names nm attr = None" "92 \<notin> set nm" using nl dir' unfolding name_left_def by blast+
  have live: "live ?s d" using d(1) unfolding old .
  have p: "live ?s ?p" "nname (nobjs ?s ?p) = None" "?p \<noteq> root_directory ?s" "?p \<noteq> d" using d(2) ns_ok_D(6)[OF ok ns_ok_D(1)[OF ok]] by simp_all
  have new: "\<not> names_agree cm ins a nm" if "named ?s q a d" for q a
  proof
    assume "names_agree cm ins a nm"
    then have "names_agree cm (folds attr) a nm" using attr by (auto simp: names_agree_def split: if_splits)
    moreover have "named s q a d" using that unfolding allocated_named[OF ok] .
    ultimately show False using find_object_None[OF ok d(1) dir' none(1)] nl(2) by blast
  qed
  note L = linked_simps[OF dir p(4), of cm nm]
  have "ns_ok cm ins (linked cm ?s ?p nm d)"
    by (rule linked_ok[OF allocated_ok[OF ok b] p(1,2) d(2) live dir nl(2) none(2) new p(3)])
  moreover have "counted (linked cm ?s ?p nm d) (held(?p := 1))"
    by (rule linked_counted[OF allocated_ok[OF ok b] allocated_counted[OF ok c] p(2,4) dir])
  moreover have "old_kept s (linked cm ?s ?p nm d)" using dir' d(2) unfolding old_kept_def L by auto
  ultimately show "new_object cm ins s held (linked cm ?s ?p nm d) b (Some (nm, d))" using p(4) unfolding new_object_def L by simp
  show "unlink_named_object (linked cm ?s ?p nm d) ?p = Some ?s" by (rule unlink_linked[OF allocated_ok[OF ok b] p(2,4) live dir])
qed

lemma create_with_name_effect:
  assumes ok: "ns_ok cm ins s" and c: "counted s held" and b: "proper_body b" and root: "\<forall>r. root = Some r \<longrightarrow> live s r"
    and attr: "ins \<longrightarrow> folds attr" and run: "create_object_with_name cm E s root name attr b = Some (s', r)"
  shows "case r of
      Inl e \<Rightarrow> ns_same cm ins s held s'
    | Inr (p, True) \<Rightarrow> live s p \<and> s' = ns_grab s p \<and> same_ops b (nbody (nobjs s p)) \<and> attr AND OBJ_OPENIF \<noteq> 0 \<and>
        lookup_named_object cm s 0 root name attr = Some (Inr (p, []))
    | Inr (p, False) \<Rightarrow> p = next_obj s \<and>
        (if name = [] then new_object cm ins s held s' b None
         else \<exists>nm d. nm \<noteq> [] \<and> lookup_named_object cm s 0 root name attr = Some (Inr (d, nm)) \<and> new_object cm ins s held s' b (Some (nm, d)))"
proof (cases "name = []")
  case True
  then have "create_object_without_name E s b = (s', r)" using run by (simp add: create_object_with_name_def)
  from create_without_name_effect[OF ok c b this] True show ?thesis by (auto split: sum.splits)
next
  case False
  have same: "ns_same cm ins s held s" using ok c by (simp add: ns_same_def)
  have freed: "ns_same cm ins s held (free_object (allocated s b) (next_obj s))" using free_new[OF ok c b] by (simp add: ns_same_def)
  obtain x where x: "lookup_named_object cm s 0 root name attr = Some x" using run False by (auto simp: create_object_with_name_def bind_eq_Some_conv)
  show ?thesis
  proof (cases x)
    case (Inl e)
    then show ?thesis using run False x same by (auto simp: create_object_with_name_def)
  next
    case (Inr y)
    obtain d nm where y: "y = (d, nm)" by fastforce
    have nl: "name_left cm s attr d nm" by (rule lookup_left[OF ok root]) (use x Inr y in simp)
    show ?thesis
    proof (cases "nm = []")
      case True
      then show ?thesis using run False x Inr y same nl by (auto simp: create_object_with_name_def name_left_def split: if_splits)
    next
      case nm: False
      show ?thesis
      proof (cases "can_name E \<and> can_object E \<and> can_sd E")
        case False
        then show ?thesis using run \<open>name \<noteq> []\<close> x Inr y nm same freed by (auto simp: create_object_with_name_def alloc_object_eq split: if_splits)
      next
        case True
        have eq: "(case directory_link_name cm (allocated s b) (next_obj s) nm d of Inl e \<Rightarrow> Some (free_object (allocated s b) (next_obj s), Inl e)
            | Inr s2 \<Rightarrow> if can_init E then Some (s2, Inr (next_obj s, False))
                else map_option (\<lambda>s3. (free_object s3 (next_obj s), Inl STATUS_NO_MEMORY)) (unlink_named_object s2 (next_obj s))) = Some (s', r)"
          using run False x Inr y nm True by (simp add: create_object_with_name_def alloc_object_eq)
        show ?thesis
        proof (cases "\<exists>n names. nbody (nobjs (allocated s b) d) = Directory n names")
          case False
          then show ?thesis using eq freed unfolding link_object if_not_P[OF False] by auto
        next
          case dir: True
          then obtain n names where dir': "nbody (nobjs (allocated s b) d) = Directory n names" by blast
          note N = linked_new[OF ok c b dir' nl nm attr]
          show ?thesis using eq dir N freed x Inr y nm False unfolding link_object by (auto split: if_splits)
        qed
      qed
    qed
  qed
qed

section \<open>Handles\<close>

text \<open>What a creation leads to, for the user who holds the result: an error, an object that exists, a new one.\<close>

definition created_object :: "(nat \<Rightarrow> nat) \<Rightarrow> bool \<Rightarrow> namespace \<Rightarrow> (ptr \<Rightarrow> nat) \<Rightarrow> namespace \<Rightarrow> (ptr \<times> bool) result \<Rightarrow> bool" where
  "created_object cm ins s held s' r \<longleftrightarrow> ns_ok cm ins s' \<and>
     (case r of Inl e \<Rightarrow> counted s' held | Inr (p, existed) \<Rightarrow> counted s' (held(p := held p + 1)))"

lemma permanent_recounted: "make_object_permanent s p = recounted s p (nrefs (nobjs s p)) True"
  by (simp add: make_object_permanent_def recounted_def)

lemma make_permanent_ok:
  assumes "ns_ok cm ins s" "counted s held" "0 < held p" "\<not> npermanent (nobjs s p)"
  shows "ns_ok cm ins (make_object_permanent s p)" "counted (make_object_permanent s p) (held(p := held p - 1))"
proof -
  have l: "live s p" by (rule held_live[OF assms(2,3)])
  show "ns_ok cm ins (make_object_permanent s p)" unfolding permanent_recounted by (rule recounted_ok[OF assms(1) l l]) simp
  show "counted (make_object_permanent s p) (held(p := held p - 1))" unfolding permanent_recounted
    by (rule counted_recounted[OF assms(2)]) (use counted_D[OF assms(2), of p] assms(3,4) in simp)
qed

lemma release_reference:
  assumes "ns_ok cm ins s" "counted s (held(p := held p + 1))"
  shows "\<exists>s'. ns_release s p = Some s' \<and> ns_ok cm ins s' \<and> counted s' held \<and> kept s p s'"
  using ns_release_effect[OF assms, of p] by simp

lemma create_handle_step:
  assumes ok: "ns_ok cm ins s" and c: "counted s held" and b: "proper_body b" and root: "\<forall>r. root = Some r \<longrightarrow> live s r"
    and attr: "ins \<longrightarrow> folds attr" and r1: "create_object_with_name cm E s root name attr b = Some (s1, r1)"
  shows "\<exists>s' r. create_named_obj_handle cm E err s root name attr b = Some (s', r) \<and> created_object cm ins s held s' r"
proof -
  note C = create_with_name_effect[OF ok c b root attr r1]
  show ?thesis
  proof (cases r1)
    case (Inl e)
    then show ?thesis using C r1 by (simp add: create_named_obj_handle_def created_object_def ns_same_def)
  next
    case (Inr pe)
    obtain p existed where pe: "pe = (p, existed)" by fastforce
    have s1: "ns_ok cm ins s1" "counted s1 (held(p := held p + 1))" "\<not> existed \<Longrightarrow> \<not> npermanent (nobjs s1 p)"
    proof -
      have "ns_ok cm ins s1 \<and> counted s1 (held(p := held p + 1)) \<and> (\<not> existed \<longrightarrow> \<not> npermanent (nobjs s1 p))"
      proof (cases existed)
        case True
        then have "live s p" "s1 = ns_grab s p" using C Inr pe by simp_all
        then show ?thesis using ns_grab_ok[OF ok c] True by simp
      next
        case False
        then have p: "p = next_obj s" and "\<exists>nm. new_object cm ins s held s1 b nm" using C Inr pe by (auto split: if_splits)
        then show ?thesis using unheld_new[OF ok c] unfolding new_object_def by simp
      qed
      then show "ns_ok cm ins s1" "counted s1 (held(p := held p + 1))" "\<not> existed \<Longrightarrow> \<not> npermanent (nobjs s1 p)" by blast+
    qed
    have live: "live s1 p" by (rule held_live[OF s1(2)]) simp
    have g: "ns_ok cm ins (ns_grab s1 p)" "counted (ns_grab s1 p) (held(p := held p + 1 + 1))" using ns_grab_ok[OF s1(1,2) live] by simp_all
    show ?thesis
    proof (cases "err p")
      case (Some e)
      obtain s3 where s3: "ns_release s1 p = Some s3" "ns_ok cm ins s3" "counted s3 held" using release_reference[OF s1(1,2)] by blast
      then show ?thesis using r1 Inr pe Some by (simp add: create_named_obj_handle_def created_object_def)
    next
      case None
      show ?thesis
      proof (cases "\<not> existed \<and> attr AND OBJ_PERMANENT \<noteq> 0")
        case True
        have np: "\<not> npermanent (nobjs (ns_grab s1 p) p)" using s1(3) True by (simp add: ns_grab_recounted)
        have "create_named_obj_handle cm E err s root name attr b = Some (make_object_permanent (ns_grab s1 p) p, Inr (p, existed))"
          using r1 Inr pe None True by (simp add: create_named_obj_handle_def)
        then show ?thesis using make_permanent_ok[OF g _ np] by (simp add: created_object_def)
      next
        case False
        have "counted (ns_grab s1 p) ((held(p := held p + 1))(p := (held(p := held p + 1)) p + 1))" using g(2) by simp
        from release_reference[OF g(1) this]
        obtain s3 where s3: "ns_release (ns_grab s1 p) p = Some s3" "ns_ok cm ins s3" "counted s3 (held(p := held p + 1))" by blast
        have "create_named_obj_handle cm E err s root name attr b = Some (s3, Inr (p, existed))"
          using r1 Inr pe None False s3(1) by (auto simp: create_named_obj_handle_def)
        then show ?thesis using s3(2,3) by (simp add: created_object_def)
      qed
    qed
  qed
qed

lemma create_handle_effect:
  assumes "ns_ok cm ins s" "counted s held" "proper_body b" "\<forall>r. root = Some r \<longrightarrow> live s r" "ins \<longrightarrow> folds attr"
    and run: "create_named_obj_handle cm E err s root name attr b = Some (s', r)"
  shows "created_object cm ins s held s' r"
proof -
  obtain s1 r1 where "create_object_with_name cm E s root name attr b = Some (s1, r1)"
    using run by (auto simp: create_named_obj_handle_def bind_eq_Some_conv)
  from create_handle_step[OF assms(1-5) this, of err] run show ?thesis by auto
qed

text \<open>A creation returns if its lookup does.\<close>

lemma create_with_name_returns:
  assumes ok: "ns_ok cm ins s" and c: "counted s held" and b: "proper_body b" and root: "\<forall>r. root = Some r \<longrightarrow> live s r"
    and attr: "ins \<longrightarrow> folds attr" and x: "lookup_named_object cm s 0 root name attr = Some x"
  shows "\<exists>s' r. create_object_with_name cm E s root name attr b = Some (s', r)"
proof (cases x)
  case (Inl e)
  then show ?thesis using x by (cases "name = []") (auto simp: create_object_with_name_def)
next
  case (Inr y)
  obtain d nm where y: "y = (d, nm)" by fastforce
  have nl: "name_left cm s attr d nm" by (rule lookup_left[OF ok root]) (use x Inr y in simp)
  show ?thesis
  proof (cases "nm \<noteq> [] \<and> (\<exists>n names. nbody (nobjs (allocated s b) d) = Directory n names)")
    case True
    then obtain n names where dir: "nbody (nobjs (allocated s b) d) = Directory n names" by blast
    note N = linked_new[OF ok c b dir nl conjunct1[OF True] attr]
    show ?thesis using x Inr y True N(2) by (auto simp: create_object_with_name_def alloc_object_eq link_object)
  next
    case False
    then show ?thesis using x Inr y by (auto simp: create_object_with_name_def alloc_object_eq link_object split: sum.splits)
  qed
qed

lemma open_effect:
  assumes ok: "ns_ok cm ins s" and c: "counted s held" and root: "\<forall>r. root = Some r \<longrightarrow> live s r"
    and run: "open_named_object cm s root name attr wanted = Some (s', r)"
  shows "case r of Inl e \<Rightarrow> s' = s | Inr p \<Rightarrow> live s p \<and> s' = ns_grab s p \<and> ns_ok cm ins s' \<and> counted s' (held(p := held p + 1))"
proof (cases "2 * length name \<ge> 65534")
  case True
  then show ?thesis using run by (auto simp: open_named_object_def)
next
  case False
  then obtain x where x: "lookup_named_object cm s 0 root name attr = Some x" using run by (auto simp: open_named_object_def bind_eq_Some_conv)
  show ?thesis
  proof (cases x)
    case (Inl e)
    then show ?thesis using run False x by (auto simp: open_named_object_def)
  next
    case (Inr y)
    obtain p left where y: "y = (p, left)" by fastforce
    have "name_left cm s attr p left" by (rule lookup_left[OF ok root]) (use x Inr y in simp)
    then have p: "live s p" by (simp add: name_left_def)
    show ?thesis using run False x Inr y p ns_grab_ok[OF ok c p] by (auto simp: open_named_object_def split: if_splits)
  qed
qed

section \<open>Reachable states\<close>

text \<open>
  The namespace after the root directory was created, and the users' references that requests give and take: handles
  and the references of the server's own code.  \<open>ins\<close>: every name is created without regard to case.  The root directory stays permanent.
\<close>

definition DIR_HASH_SIZE :: nat where "DIR_HASH_SIZE = 7"

definition root_namespace :: namespace where
  "root_namespace = \<lparr>nobjs = (\<lambda>p. \<lparr>nrefs = (if p = 1 then 1 else 0), npermanent = (p = 1), nname = None, nbody = Directory DIR_HASH_SIZE (\<lambda>_. [])\<rparr>),
     next_obj = 2, root_directory = 1\<rparr>"

inductive ns_reachable :: "(nat \<Rightarrow> nat) \<Rightarrow> bool \<Rightarrow> namespace \<Rightarrow> (ptr \<Rightarrow> nat) \<Rightarrow> bool" for cm ins where
  start: "ns_reachable cm ins root_namespace (\<lambda>_. 0)"
| create: "ns_reachable cm ins s held \<Longrightarrow> \<forall>r. root = Some r \<longrightarrow> 0 < held r \<Longrightarrow> proper_body b \<Longrightarrow> ins \<longrightarrow> folds attr \<Longrightarrow>
    create_named_obj_handle cm E err s root name attr b = Some (s', Inr (p, existed)) \<Longrightarrow> ns_reachable cm ins s' (held(p := held p + 1))"
| create_fails: "ns_reachable cm ins s held \<Longrightarrow> \<forall>r. root = Some r \<longrightarrow> 0 < held r \<Longrightarrow> proper_body b \<Longrightarrow> ins \<longrightarrow> folds attr \<Longrightarrow>
    create_named_obj_handle cm E err s root name attr b = Some (s', Inl e) \<Longrightarrow> ns_reachable cm ins s' held"
| open_object: "ns_reachable cm ins s held \<Longrightarrow> \<forall>r. root = Some r \<longrightarrow> 0 < held r \<Longrightarrow>
    open_named_object cm s root name attr wanted = Some (s', Inr p) \<Longrightarrow> ns_reachable cm ins s' (held(p := held p + 1))"
| duplicate: "ns_reachable cm ins s held \<Longrightarrow> 0 < held p \<Longrightarrow> ns_reachable cm ins (ns_grab s p) (held(p := held p + 1))"
| close: "ns_reachable cm ins s held \<Longrightarrow> 0 < held p \<Longrightarrow> ns_release s p = Some s' \<Longrightarrow> ns_reachable cm ins s' (held(p := held p - 1))"
| permanence: "ns_reachable cm ins s held \<Longrightarrow> 0 < held p \<Longrightarrow> permanent \<or> p \<noteq> root_directory s \<Longrightarrow>
    set_object_permanence s p permanent = Some s' \<Longrightarrow> ns_reachable cm ins s' held"

lemma root_namespace_ok: "ns_ok cm ins root_namespace" "counted root_namespace (\<lambda>_. 0)"
proof -
  have "nname (nobjs root_namespace p) = None" for p by (simp add: root_namespace_def)
  then have n: "\<not> named root_namespace p nm d" "members root_namespace d = {}" for p nm d by (auto simp: members_def)
  show "counted root_namespace (\<lambda>_. 0)" unfolding counted_def n by (simp add: root_namespace_def)
  have "lists_ok cm root_namespace d" for d unfolding lists_ok_def n by (simp add: root_namespace_def DIR_HASH_SIZE_def)
  then show "ns_ok cm ins root_namespace" unfolding ns_ok_def n by (simp add: root_namespace_def)
qed

lemma temporary_recounted: "make_object_temporary s p = recounted s p (nrefs (nobjs s p)) False"
  by (simp add: make_object_temporary_def recounted_def)

lemma permanence_effect:
  assumes ok: "ns_ok cm ins s" and c: "counted s held" and p: "0 < held p" "permanent \<or> p \<noteq> root_directory s"
  shows "\<exists>s'. set_object_permanence s p permanent = Some s' \<and> ns_ok cm ins s' \<and> counted s' held"
proof -
  have l: "live s p" by (rule held_live[OF c p(1)])
  consider "permanent" "\<not> npermanent (nobjs s p)" | "\<not> permanent" "npermanent (nobjs s p)" | "permanent = npermanent (nobjs s p)" by blast
  then show ?thesis
  proof cases
    case 1
    note g = ns_grab_ok[OF ok c l]
    have "\<not> npermanent (nobjs (ns_grab s p) p)" using 1(2) by (simp add: ns_grab_recounted)
    from make_permanent_ok[OF g _ this] show ?thesis using 1 by (simp add: set_object_permanence_def)
  next
    case 2
    have "ns_ok cm ins (make_object_temporary s p)" unfolding temporary_recounted by (rule recounted_ok[OF ok l l]) (use 2 p(2) in simp)
    moreover have "counted (make_object_temporary s p) (held(p := held p + 1))" unfolding temporary_recounted
      by (rule counted_recounted[OF c]) (use counted_D[OF c, of p] 2(2) in simp)
    ultimately have "\<exists>s'. ns_release (make_object_temporary s p) p = Some s' \<and> ns_ok cm ins s' \<and> counted s' held"
      using release_reference by blast
    then show ?thesis using 2 by (simp add: set_object_permanence_def)
  next
    case 3
    then show ?thesis using ok c by (simp add: set_object_permanence_def)
  qed
qed

lemma ns_reachable_inv: "ns_reachable cm ins s held \<Longrightarrow> ns_ok cm ins s \<and> counted s held"
proof (induction rule: ns_reachable.induct)
  case start
  then show ?case using root_namespace_ok by blast
next
  case (create s held root b attr E err name s' p existed)
  then have root: "\<forall>r. root = Some r \<longrightarrow> live s r" using held_live by blast
  from create_handle_effect[OF conjunct1[OF create.IH] conjunct2[OF create.IH] create.hyps(3) root create.hyps(4,5)] show ?case by (simp add: created_object_def del: fun_upd_apply)
next
  case (create_fails s held root b attr E err name s' e)
  then have root: "\<forall>r. root = Some r \<longrightarrow> live s r" using held_live by blast
  from create_handle_effect[OF conjunct1[OF create_fails.IH] conjunct2[OF create_fails.IH] create_fails.hyps(3) root create_fails.hyps(4,5)] show ?case by (simp add: created_object_def)
next
  case (open_object s held root name attr wanted s' p)
  then have root: "\<forall>r. root = Some r \<longrightarrow> live s r" using held_live by blast
  from open_effect[OF conjunct1[OF open_object.IH] conjunct2[OF open_object.IH] root open_object.hyps(3)] show ?case by (auto simp del: fun_upd_apply)
next
  case (duplicate s held p)
  then show ?case using ns_grab_ok held_live by blast
next
  case (close s held p s')
  then show ?case using ns_release_effect[of cm ins s held p] by (auto simp del: fun_upd_apply)
next
  case (permanence s held p permanent s')
  then show ?case using permanence_effect[of cm ins s held p permanent] by auto
qed

end
