(* ===== verification/Namespace_Properties.thy ===== *)
theory Namespace_Properties
  imports Namespace_Requests
begin

text \<open>
  The properties of the object namespace, \<^verbatim>\<open>server/object.c\<close>, \<^verbatim>\<open>server/directory.c\<close> and
  \<^verbatim>\<open>server/symlink.c\<close>, in every state that requests reach.
\<close>

section \<open>An example\<close>

text \<open>A link \<open>\L\<close> in the root directory that leads to itself, created by one request.\<close>

definition no_fold :: "nat \<Rightarrow> nat" where "no_fold _ = 0"

definition memory :: name_env where "memory = \<lparr>can_name = True, can_object = True, can_sd = True, can_init = True\<rparr>"

definition self_name :: "wchar list" where "self_name = [92, 76]"

definition with_link :: namespace where
  "with_link = fst (the (create_symlink no_fold memory (\<lambda>_. None) root_namespace None self_name 0 self_name))"

lemma root_facts: "ns_ok no_fold ins root_namespace" "nobjs root_namespace 1 = \<lparr>nrefs = 1, npermanent = True, nname = None, nbody = Directory 7 (\<lambda>_. [])\<rparr>"
    "root_directory root_namespace = 1" "next_obj root_namespace = 2"
  by (rule root_namespace_ok(1)) (simp_all add: root_namespace_def DIR_HASH_SIZE_def)

lemma root_lookup: "lookup_named_object no_fold root_namespace 0 None [92, 76] attr = Some (Inr (1, [76]))"
proof -
  have dir: "nbody (nobjs root_namespace 1) = Directory 7 (\<lambda>_. [])" using root_facts(2) by simp
  have "lookup_loop no_fold root_namespace 1 1 (Name [76]) attr 1 = Some (Inr (1, Name [76]))"
    unfolding loop_directory[OF dir] by (simp add: directory_lookup_name_def get_path_element_def find_object_def)
  then show ?thesis unfolding lookup_named_object_def using root_facts(3) by (simp add: lookup_start_def)
qed

lemma with_link_facts: "create_symlink no_fold memory (\<lambda>_. None) root_namespace None self_name 0 self_name = Some (with_link, Inr (2, False))"
    "named with_link 2 [76] 1" "nbody (nobjs with_link 2) = Symlink self_name" "root_directory with_link = 1" "live with_link 2"
    "nbody (nobjs with_link 1) = Directory 7 (\<lambda>h. if h = hash_strW no_fold [76] 7 then [2] else [])" "nname (nobjs with_link 1) = None"
proof -
  have "\<exists>s. create_symlink no_fold memory (\<lambda>_. None) root_namespace None self_name 0 self_name = Some (s, Inr (2, False)) \<and>
      named s 2 [76] 1 \<and> nbody (nobjs s 2) = Symlink self_name \<and> root_directory s = 1 \<and> live s 2 \<and>
      nbody (nobjs s 1) = Directory 7 (\<lambda>h. if h = hash_strW no_fold [76] 7 then [2] else []) \<and> nname (nobjs s 1) = None"
    unfolding self_name_def create_symlink_def create_named_obj_handle_def create_object_with_name_def root_lookup using root_facts
    by (simp add: memory_def alloc_object_def set_object_def directory_link_name_def namespace_add_def ns_grab_def ns_release_def OBJ_PERMANENT_def
        OBJ_OPENLINK_def Let_def fun_eq_iff)
  then show "create_symlink no_fold memory (\<lambda>_. None) root_namespace None self_name 0 self_name = Some (with_link, Inr (2, False))"
    "named with_link 2 [76] 1" "nbody (nobjs with_link 2) = Symlink self_name" "root_directory with_link = 1" "live with_link 2"
    "nbody (nobjs with_link 1) = Directory 7 (\<lambda>h. if h = hash_strW no_fold [76] 7 then [2] else [])" "nname (nobjs with_link 1) = None"
    by (auto simp: with_link_def)
qed

lemma with_link_reachable: "ns_reachable no_fold False with_link (\<lambda>p. of_bool (p = 2))"
proof -
  have "create_named_obj_handle no_fold memory (\<lambda>_. None) root_namespace None self_name (0 OR OBJ_OPENLINK) (Symlink self_name) = Some (with_link, Inr (2, False))"
    using with_link_facts(1) by (simp add: create_symlink_def self_name_def)
  from ns_reachable.create[OF ns_reachable.start _ _ _ this] have "ns_reachable no_fold False with_link ((\<lambda>_. 0)(2 := 0 + 1))" by simp
  moreover have "((\<lambda>_. 0)(2 := 0 + 1) :: ptr \<Rightarrow> nat) = (\<lambda>p. of_bool (p = 2))" by (simp add: fun_eq_iff)
  ultimately show ?thesis by simp
qed

lemma with_link_rooted: "rooted with_link 2" "full_name with_link 2 = self_name"
proof -
  have "rooted with_link 1" using rooted.root[of with_link] unfolding with_link_facts(4) .
  then show "rooted with_link 2" by (rule rooted.child) (rule with_link_facts(2))
  show "full_name with_link 2 = self_name" using with_link_facts(2,7) by (simp add: full_name_def self_name_def numeral_2_eq_2)
qed

section \<open>Names and references\<close>

lemma distinct_concat_map:
  "distinct hs \<Longrightarrow> \<forall>h\<in>set hs. distinct (f h) \<Longrightarrow> \<forall>h\<in>set hs. \<forall>h'\<in>set hs. h \<noteq> h' \<longrightarrow> set (f h) \<inter> set (f h') = {} \<Longrightarrow> distinct (concat (map f hs))"
  by (induction hs) auto



text \<open>
  C30: The full name of an object that is below the root directory finds it: opening that name, in a lookup that does not ignore case
  unless all names were created so, returns the object with one more reference, unless it is a link and the lookup follows links.
\<close>

theorem full_name_found:
  assumes "ns_reachable cm ins s held" "rooted s p" "default_get_full_name s p = Some name" "2 * length name < 65534"
    and "attr AND OBJ_CASE_INSENSITIVE \<noteq> 0 \<longrightarrow> ins" "(\<exists>t. nbody (nobjs s p) = Symlink t) \<longrightarrow> attr AND OBJ_OPENLINK \<noteq> 0"
    and "wanted = None \<or> wanted = Some (nbody (nobjs s p))"
  shows "open_named_object cm s None name attr wanted = Some (ns_grab s p, Inr p)"
proof -
  have ok: "ns_ok cm ins s" using ns_reachable_inv[OF assms(1)] by simp
  have name: "name = full_name s p" "name \<noteq> []" using assms(3) by (auto simp: default_get_full_name_def full_name_def Let_def split: if_splits)
  have "p \<noteq> root_directory s" using name ns_ok_D(2)[OF ok] by (auto simp: full_name_def)
  from lookup_full_name[OF ok assms(5,2) this, of 0] assms(6)
  have "lookup_named_object cm s 0 None name attr = Some (Inr (p, []))" unfolding name(1) by blast
  then show ?thesis using assms(4,7) by (auto simp: open_named_object_def)
qed

theorem full_name_found_witness:
  "open_named_object no_fold with_link None self_name OBJ_OPENLINK None = Some (ns_grab with_link 2, Inr 2)"
proof -
  have "default_get_full_name with_link 2 = Some self_name"
    using with_link_rooted(2) by (simp add: default_get_full_name_def full_name_def self_name_def)
  from full_name_found[OF with_link_reachable with_link_rooted(1) this, of OBJ_OPENLINK None]
  show ?thesis by (simp add: self_name_def OBJ_OPENLINK_def OBJ_CASE_INSENSITIVE_def)
qed

section \<open>Lookups\<close>

text \<open>
  C28: A lookup that follows links ends, whatever links there are: opening a name returns an object or an error, and so does creating
  an object under a name, with or without a handle.
\<close>

theorem lookups_end:
  assumes "ns_reachable cm ins s held" "\<forall>r. root = Some r \<longrightarrow> 0 < held r" "attr AND OBJ_OPENLINK = 0"
  shows "(\<exists>r. lookup_named_object cm s 0 root name attr = Some r) \<and> (\<exists>s' r. open_named_object cm s root name attr wanted = Some (s', r)) \<and>
    (proper_body b \<and> (ins \<longrightarrow> attr AND OBJ_CASE_INSENSITIVE \<noteq> 0) \<longrightarrow> (\<exists>s' r. create_named_obj_handle cm E err s root name attr b = Some (s', r)))"
proof -
  have ok: "ns_ok cm ins s" and c: "counted s held" using ns_reachable_inv[OF assms(1)] by simp_all
  have root: "\<forall>r. root = Some r \<longrightarrow> live s r" using held_live[OF c] assms(2) by blast
  obtain r where r: "lookup_named_object cm s 0 root name attr = Some r" using lookup_returns[OF ok assms(3)] by blast
  have "\<exists>s' r. open_named_object cm s root name attr wanted = Some (s', r)"
    using r by (cases r) (auto simp: open_named_object_def)
  moreover have "\<exists>s' r. create_named_obj_handle cm E err s root name attr b = Some (s', r)" if b: "proper_body b" "ins \<longrightarrow> folds attr"
  proof -
    obtain s1 r1 where "create_object_with_name cm E s root name attr b = Some (s1, r1)"
      using create_with_name_returns[OF ok c b(1) root b(2) r] by blast
    from create_handle_step[OF ok c b(1) root b(2) this] show ?thesis by blast
  qed
  ultimately show ?thesis using r by blast
qed

theorem lookups_end_witness: "\<exists>s' r. open_named_object no_fold with_link None (self_name @ 92 # [88]) 0 None = Some (s', r)"
  using lookups_end[OF with_link_reachable, of None 0 "self_name @ 92 # [88]" None] by simp

text \<open>
  C27: A link whose target is its own full name stops the server: a request to create or open a symbolic link at a path through it never
  returns.  These requests do not follow a link at the end of a name, so that looking up the target of the link gives the link
  itself, again and again, without a recursion that the limit on nested lookups would count.
\<close>

theorem self_link_hangs:
  assumes "ns_reachable cm ins s held" "rooted s p" "nbody (nobjs s p) = Symlink (full_name s p)" "rest \<noteq> []"
    and "attr AND OBJ_CASE_INSENSITIVE \<noteq> 0 \<longrightarrow> ins" "target \<noteq> []"
  shows "create_symlink cm E err s None (full_name s p @ 92 # rest) attr target = None \<and>
    (2 * length (full_name s p @ 92 # rest) < 65534 \<longrightarrow> open_symlink cm s None (full_name s p @ 92 # rest) attr = None)"
proof -
  have ok: "ns_ok cm ins s" using ns_reachable_inv[OF assms(1)] by simp
  have "(attr OR OBJ_OPENLINK) AND OBJ_CASE_INSENSITIVE = attr AND OBJ_CASE_INSENSITIVE" "(attr OR OBJ_OPENLINK) AND OBJ_OPENLINK = OBJ_OPENLINK"
    by (simp_all add: OBJ_OPENLINK_def OBJ_CASE_INSENSITIVE_def bit.conj_disj_distrib2)
  then have a: "folds (attr OR OBJ_OPENLINK) \<longrightarrow> ins" "(attr OR OBJ_OPENLINK) AND OBJ_OPENLINK \<noteq> 0" using assms(5) by (simp_all add: OBJ_OPENLINK_def)
  have "lookup_named_object cm s 0 None (full_name s p @ 92 # rest) (attr OR OBJ_OPENLINK) = None"
    by (rule lookup_self_link[OF ok a(1) assms(2,3) a(2) assms(4)])
  then show ?thesis using assms(6)
    by (simp add: create_symlink_def create_named_obj_handle_def create_object_with_name_def open_symlink_def open_named_object_def)
qed

theorem self_link_hangs_witness:
  "create_symlink no_fold memory (\<lambda>_. None) root_namespace None self_name 0 self_name = Some (with_link, Inr (2, False)) \<and>
   create_symlink no_fold memory (\<lambda>_. None) with_link None (self_name @ 92 # [88]) 0 self_name = None"
proof -
  have b: "nbody (nobjs with_link 2) = Symlink (full_name with_link 2)" using with_link_facts(3) with_link_rooted(2) by simp
  from self_link_hangs[OF with_link_reachable with_link_rooted(1) b, of "[88]" 0 self_name memory "\<lambda>_. None"]
  show ?thesis using with_link_facts(1) unfolding with_link_rooted(2) by (simp add: self_name_def)
qed

section \<open>Creation and release\<close>

text \<open>
  C31: Creating an object under a name in a directory: when the directory has no such name there is a new object with that name and that body,
  and every other name stays; when it has one, the request fails with a collision, or, if it may open, returns the object with one more
  reference when the types agree and fails otherwise, in both cases changing nothing else.
\<close>

theorem creation_outcome:
  assumes "ns_reachable cm ins s held" "0 < held d" "nbody (nobjs s d) = Directory n names" "nm \<noteq> []" "92 \<notin> set nm"
    and "attr AND OBJ_CASE_INSENSITIVE \<noteq> 0 \<longleftrightarrow> ins" "proper_body b" "E = \<lparr>can_name = True, can_object = True, can_sd = True, can_init = True\<rparr>"
  shows "(\<forall>q a. named s q a d \<and> names_agree cm ins a nm \<and> ((\<exists>t. nbody (nobjs s q) = Symlink t) \<longrightarrow> attr AND OBJ_OPENLINK \<noteq> 0) \<longrightarrow>
      create_object_with_name cm E s (Some d) nm attr b =
        Some (if attr AND OBJ_OPENIF = 0 then (s, Inl STATUS_OBJECT_NAME_COLLISION)
              else if same_ops b (nbody (nobjs s q)) then (ns_grab s q, Inr (q, True)) else (s, Inl STATUS_OBJECT_TYPE_MISMATCH))) \<and>
    ((\<forall>q a. named s q a d \<longrightarrow> \<not> names_agree cm ins a nm) \<longrightarrow>
      (\<exists>s'. create_object_with_name cm E s (Some d) nm attr b = Some (s', Inr (next_obj s, False)) \<and>
        named s' (next_obj s) nm d \<and> nbody (nobjs s' (next_obj s)) = init_body b \<and> nrefs (nobjs s' (next_obj s)) = 1 \<and>
        (\<forall>q. q \<noteq> next_obj s \<longrightarrow> nname (nobjs s' q) = nname (nobjs s q) \<and> (q \<noteq> d \<longrightarrow> nobjs s' q = nobjs s q))))"
proof -
  have ok: "ns_ok cm ins s" and c: "counted s held" using ns_reachable_inv[OF assms(1)] by simp_all
  have d: "live s d" by (rule held_live[OF c assms(2)])
  have start: "lookup_start s 0 (Some d) nm = Inr (d, Name nm)" using assms(4,5) by (cases nm) (simp_all add: lookup_start_def)
  have len: "get_path_element nm = length nm" by (rule path_element_front(2)[OF assms(5)])
  have found: "lookup_named_object cm s 0 (Some d) nm attr = Some (Inr (q, []))"
    if f: "find_object cm s n names nm attr = Some q" and q: "(\<exists>t. nbody (nobjs s q) = Symlink t) \<longrightarrow> attr AND OBJ_OPENLINK \<noteq> 0" for q
  proof -
    have "lookup_loop cm s 1 d (Name nm) attr d = Some (Inr (q, Null_Name))"
      unfolding loop_directory[OF assms(3)] using f len loop_stays[of s q attr cm 1 d] q by (simp add: directory_lookup_name_def)
    then show ?thesis by (simp add: lookup_named_object_def start)
  qed
  have missing: "lookup_named_object cm s 0 (Some d) nm attr = Some (Inr (d, nm))" if f: "find_object cm s n names nm attr = None"
  proof -
    have "lookup_loop cm s 1 d (Name nm) attr d = Some (Inr (d, Name nm))"
      unfolding loop_directory[OF assms(3)] using f len assms(4) by (simp add: directory_lookup_name_def)
    then show ?thesis by (simp add: lookup_named_object_def start)
  qed
  have finds: "find_object cm s n names nm attr = Some q" if q: "named s q a d" "names_agree cm ins a nm" for q a
  proof (cases "find_object cm s n names nm attr")
    case None
    then show ?thesis using find_object_None[OF ok d assms(3) None q(1)] q(2) assms(4,6) by simp
  next
    case (Some r)
    obtain b where r: "named s r b d" "names_agree cm ins b nm" using find_object_Some[OF ok d assms(3) Some] assms(6) by auto
    have "names_agree cm ins b a" using r(2) q(2) by (auto simp: names_agree_def split: if_splits)
    then show ?thesis using ns_ok_D(14)[OF ok r(1) q(1)] Some by simp
  qed
  have old: "create_object_with_name cm E s (Some d) nm attr b =
        Some (if attr AND OBJ_OPENIF = 0 then (s, Inl STATUS_OBJECT_NAME_COLLISION)
              else if same_ops b (nbody (nobjs s q)) then (ns_grab s q, Inr (q, True)) else (s, Inl STATUS_OBJECT_TYPE_MISMATCH))"
    if q: "named s q a d" "names_agree cm ins a nm" "(\<exists>t. nbody (nobjs s q) = Symlink t) \<longrightarrow> attr AND OBJ_OPENLINK \<noteq> 0" for q a
    using found[OF finds[OF q(1,2)] q(3)] assms(4) by (simp add: create_object_with_name_def)
  have new: "\<exists>s'. create_object_with_name cm E s (Some d) nm attr b = Some (s', Inr (next_obj s, False)) \<and>
        named s' (next_obj s) nm d \<and> nbody (nobjs s' (next_obj s)) = init_body b \<and> nrefs (nobjs s' (next_obj s)) = 1 \<and>
        (\<forall>q. q \<noteq> next_obj s \<longrightarrow> nname (nobjs s' q) = nname (nobjs s q) \<and> (q \<noteq> d \<longrightarrow> nobjs s' q = nobjs s q))"
    if none: "\<forall>q a. named s q a d \<longrightarrow> \<not> names_agree cm ins a nm"
  proof -
    have f: "find_object cm s n names nm attr = None"
    proof (rule ccontr)
      assume "find_object cm s n names nm attr \<noteq> None"
      then obtain q where "find_object cm s n names nm attr = Some q" by blast
      from find_object_Some[OF ok d assms(3) this] none assms(6) show False by auto
    qed
    have ne: "next_obj s \<noteq> d" using ns_ok_D(6)[OF ok d] by simp
    have dir: "nbody (nobjs (allocated s b) d) = Directory n names" using assms(3) ne by simp
    let ?s = "linked cm (allocated s b) (next_obj s) nm d"
    have "create_object_with_name cm E s (Some d) nm attr b = Some (?s, Inr (next_obj s, False))"
      using missing[OF f] assms(4,8) dir by (simp add: create_object_with_name_def alloc_object_eq link_object)
    moreover have "nobjs ?s q = nobjs s q" if "q \<noteq> next_obj s" "q \<noteq> d" for q
      using that dir by (simp add: linked_def directory_link_name_def ns_grab_def set_object_def Let_def)
    ultimately show ?thesis using ne by (intro exI[of _ ?s]) (simp add: linked_simps[OF dir ne])
  qed
  show ?thesis using old new by blast
qed

lemma root_opened: "ns_reachable no_fold ins (ns_grab root_namespace 1) (\<lambda>p. of_bool (p = 1))"
proof -
  have dir: "nbody (nobjs root_namespace 1) = Directory 7 (\<lambda>_. [])" using root_facts(2) by simp
  have "lookup_named_object no_fold root_namespace 0 None [92] 0 = Some (Inr (1, []))"
    using root_facts(3) by (simp add: lookup_named_object_def lookup_start_def loop_directory[OF dir[unfolded One_nat_def]] directory_lookup_name_def)
  then have "open_named_object no_fold root_namespace None [92] 0 None = Some (ns_grab root_namespace 1, Inr 1)" by (simp add: open_named_object_def)
  from ns_reachable.open_object[OF ns_reachable.start _ this] have "ns_reachable no_fold ins (ns_grab root_namespace 1) ((\<lambda>_. 0)(1 := 0 + 1))" by simp
  moreover have "((\<lambda>_. 0)(1 := 0 + 1) :: ptr \<Rightarrow> nat) = (\<lambda>p. of_bool (p = 1))" by (simp add: fun_eq_iff)
  ultimately show ?thesis by simp
qed

theorem creation_outcome_witness:
  "\<exists>s'. create_object_with_name no_fold memory (ns_grab root_namespace 1) (Some 1) [88] 0 (Other 5) = Some (s', Inr (2, False)) \<and> named s' 2 [88] 1"
proof -
  have f: "nbody (nobjs (ns_grab root_namespace 1) 1) = Directory 7 (\<lambda>_. [])" "next_obj (ns_grab root_namespace 1) = 2"
    using root_facts(2,4) by (simp_all add: ns_grab_recounted)
  have "\<not> named (ns_grab root_namespace 1) q a 1" for q a by (simp add: ns_grab_recounted root_namespace_def)
  with creation_outcome[OF root_opened _ f(1), of "[88]" 0 False "Other 5" memory] show ?thesis unfolding f(2) by (auto simp: memory_def)
qed

text \<open>
  C32: Giving back a reference returns without a failed assertion, and afterwards an object is kept exactly if a user has a reference to it,
  it is permanent, or a name is in it; what is kept has its name, and only the object itself and the directories above
  it can be gone.
\<close>

theorem release_keeps_referenced:
  assumes "ns_reachable cm ins s held" "0 < held p"
  shows "\<exists>s'. ns_release s p = Some s' \<and>
    (\<forall>q. live s' q \<longleftrightarrow> 0 < (held(p := held p - 1)) q \<or> npermanent (nobjs s q) \<or> members s' q \<noteq> {}) \<and>
    (\<forall>q. live s' q \<longrightarrow> nname (nobjs s' q) = nname (nobjs s q)) \<and>
    (\<forall>q. live s q \<and> \<not> live s' q \<longrightarrow> above s p q)"
proof -
  have ok: "ns_ok cm ins s" and c: "counted s held" using ns_reachable_inv[OF assms(1)] by simp_all
  obtain s' where s': "ns_release s p = Some s'" "ns_ok cm ins s'" "counted s' (held(p := held p - 1))" "kept s p s'"
    using ns_release_effect[OF ok c assms(2)] by blast
  have k: "npermanent (nobjs s' q) = npermanent (nobjs s q)" "live s' q \<Longrightarrow> nname (nobjs s' q) = nname (nobjs s q)"
    "\<not> above s p q \<Longrightarrow> nrefs (nobjs s' q) = nrefs (nobjs s q)" for q using s'(4) unfolding kept_def by blast+
  have "live s' q \<longleftrightarrow> 0 < (held(p := held p - 1)) q \<or> npermanent (nobjs s q) \<or> members s' q \<noteq> {}" for q
    using counted_D[OF s'(3), of q] members_finite[OF s'(2), of q] unfolding k(1) by (auto simp: card_gt_0_iff of_bool_def)
  moreover have "above s p q" if "live s q" "\<not> live s' q" for q using k(3)[of q] that by auto
  ultimately show ?thesis using s'(1) k(2) by blast
qed

theorem release_keeps_referenced_witness: "\<exists>s'. ns_release (ns_grab root_namespace 1) 1 = Some s' \<and> live s' 1"
proof -
  have "npermanent (nobjs (ns_grab root_namespace 1) 1)" by (simp add: ns_grab_recounted root_namespace_def)
  then show ?thesis using release_keeps_referenced[OF root_opened, of 1] by auto
qed

end
