(* ===== verification/Registry.thy ===== *)
theory Registry
  imports Namespace
begin

text \<open>
  The registry, \<^verbatim>\<open>server/registry.c\<close>: keys with their subkeys and values in sorted arrays, the search in
  them, creation, renaming and deletion of keys, setting, reading and deletion of values, the marks
  of modified keys and the notifications.

  Keys are numbered in the order in which they are created, from 1; a number is not used again, and
  neither references to keys nor the memory of deleted ones are modelled.  An array is the list of its
  used elements, and the number of allocated ones is kept beside it.  Names and classes are lists
  of characters, data are lists of bytes.  A result \<open>None\<close> is an assertion that fails or recursion
  deeper than the number of keys.
\<close>

section \<open>Data\<close>

text \<open>\<^verbatim>\<open>data\<close> is \<^verbatim>\<open>NULL\<close> when there are none.\<close>

record key_value =
  vname :: "wchar list"
  vtype :: u32
  vdata :: "byte list"

record notify =
  notify_events :: "ptr list"
  subtree :: bool
  notify_filter :: u32
  notify_hkey :: u32
  notify_process :: nat

text \<open>The parent of a key that is linked to none, or to a directory, is 0.\<close>

record key =
  kname :: "wchar list"
  kparent :: ptr
  kclass :: "wchar list"
  subkeys :: "ptr list"
  nb_subkeys :: nat
  wow6432node :: ptr
  kvalues :: "key_value list"
  nb_values :: nat
  kflags :: u32
  modif :: int
  notify_list :: "notify list"

text \<open>\<open>signals\<close>: the events that notifications have set.\<close>

record registry =
  keys :: "ptr \<Rightarrow> key"
  next_key :: nat
  root_key :: ptr
  now :: int
  signals :: "ptr list"

text \<open>Memory for an array of a number of elements, for a copy of a number of bytes, for an object and its name.\<close>

record reg_env =
  can_grow :: "nat \<Rightarrow> bool"
  can_copy :: "nat \<Rightarrow> bool"
  can_new :: bool

definition KEY_VOLATILE :: u32 where "KEY_VOLATILE = 1"

definition KEY_DELETED :: u32 where "KEY_DELETED = 2"

definition KEY_DIRTY :: u32 where "KEY_DIRTY = 4"

definition KEY_SYMLINK :: u32 where "KEY_SYMLINK = 8"

definition KEY_WOWSHARE :: u32 where "KEY_WOWSHARE = 0x10"

definition KEY_PREDEF :: u32 where "KEY_PREDEF = 0x20"

definition REG_OPTION_VOLATILE :: u32 where "REG_OPTION_VOLATILE = 1"

definition REG_OPTION_CREATE_LINK :: u32 where "REG_OPTION_CREATE_LINK = 2"

definition REG_NOTIFY_CHANGE_NAME :: u32 where "REG_NOTIFY_CHANGE_NAME = 1"

definition REG_NOTIFY_CHANGE_LAST_SET :: u32 where "REG_NOTIFY_CHANGE_LAST_SET = 4"

definition KEY_WOW64_64KEY :: u32 where "KEY_WOW64_64KEY = 0x100"

definition KEY_WOW64_32KEY :: u32 where "KEY_WOW64_32KEY = 0x200"

definition REG_NONE :: u32 where "REG_NONE = 0"

definition REG_SZ :: u32 where "REG_SZ = 1"

definition REG_EXPAND_SZ :: u32 where "REG_EXPAND_SZ = 2"

definition REG_BINARY :: u32 where "REG_BINARY = 3"

definition REG_DWORD :: u32 where "REG_DWORD = 4"

definition REG_LINK :: u32 where "REG_LINK = 6"

definition REG_MULTI_SZ :: u32 where "REG_MULTI_SZ = 7"

definition MIN_SUBKEYS :: nat where "MIN_SUBKEYS = 8"

definition MIN_VALUES :: nat where "MIN_VALUES = 8"

definition MAX_NAME_LEN :: nat where "MAX_NAME_LEN = 256"

definition MAX_VALUE_LEN :: nat where "MAX_VALUE_LEN = 16383"

definition ascii :: "string \<Rightarrow> nat list" where "ascii s = map of_char s"

definition wow6432node_name :: "wchar list" where "wow6432node_name = ascii ''Wow6432Node''"

definition symlink_str :: "wchar list" where "symlink_str = ascii ''SymbolicLinkValue''"

definition set_key :: "registry \<Rightarrow> ptr \<Rightarrow> key \<Rightarrow> registry" where
  "set_key s p k = s\<lparr>keys := (keys s)(p := k)\<rparr>"

section \<open>Names\<close>

definition is_wow6432node :: "(nat \<Rightarrow> nat) \<Rightarrow> wchar list \<Rightarrow> bool" where
  "is_wow6432node cm name =
     (get_path_element name = length wow6432node_name \<and> memicmp_strW cm (take (length wow6432node_name) name) wow6432node_name = 0)"

definition get_parent :: "registry \<Rightarrow> ptr \<Rightarrow> ptr" where
  "get_parent s p = kparent (keys s p)"

section \<open>Search\<close>

text \<open>The comparison and the loop that \<^verbatim>\<open>find_subkey\<close> and \<^verbatim>\<open>find_value\<close> share.\<close>

definition name_cmp :: "(nat \<Rightarrow> nat) \<Rightarrow> wchar list \<Rightarrow> wchar list \<Rightarrow> int" where
  "name_cmp cm a b =
     (let len = min (length a) (length b); res = memicmp_strW cm (take len a) (take len b) in
      if res = 0 then int (length a) - int (length b) else res)"

function search_loop :: "(nat \<Rightarrow> int) \<Rightarrow> int \<Rightarrow> int \<Rightarrow> bool \<times> nat" where
  "search_loop f mn mx =
     (if mn \<le> mx
      then let i = (mn + mx) div 2; res = f (nat i) in
           if res = 0 then (True, nat i)
           else if res > 0 then search_loop f mn (i - 1)
           else search_loop f (i + 1) mx
      else (False, nat mn))"
  by pat_completeness auto
termination by (relation "measure (\<lambda>(f, mn, mx). nat (mx - mn + 1))") auto

declare search_loop.simps [simp del]

text \<open>The key, and its index or the one where it should be inserted.\<close>

definition find_subkey :: "(nat \<Rightarrow> nat) \<Rightarrow> registry \<Rightarrow> ptr \<Rightarrow> wchar list \<Rightarrow> ptr option \<times> nat" where
  "find_subkey cm s p name =
     (let ks = subkeys (keys s p);
          (found, i) = search_loop (\<lambda>i. name_cmp cm (kname (keys s (ks ! i))) name) 0 (int (length ks) - 1)
      in (if found then Some (ks ! i) else None, i))"

definition find_value :: "(nat \<Rightarrow> nat) \<Rightarrow> key_value list \<Rightarrow> wchar list \<Rightarrow> key_value option \<times> nat" where
  "find_value cm vs name =
     (let (found, i) = search_loop (\<lambda>i. name_cmp cm (vname (vs ! i)) name) 0 (int (length vs) - 1)
      in (if found then Some (vs ! i) else None, i))"

definition insert_at :: "nat \<Rightarrow> 'a \<Rightarrow> 'a list \<Rightarrow> 'a list" where
  "insert_at i x xs = take i xs @ x # drop i xs"

definition remove_at :: "nat \<Rightarrow> 'a list \<Rightarrow> 'a list" where
  "remove_at i xs = take i xs @ drop (Suc i) xs"

section \<open>Marks and notifications\<close>

text \<open>The fuel is the number of keys a chain of parents can have.\<close>

fun make_dirty_fuel :: "nat \<Rightarrow> registry \<Rightarrow> ptr \<Rightarrow> registry option" where
  "make_dirty_fuel 0 s p =
     (if p = 0 \<or> kflags (keys s p) AND (KEY_DIRTY OR KEY_VOLATILE) \<noteq> 0 then Some s else None)"
| "make_dirty_fuel (Suc n) s p =
     (if p = 0 \<or> kflags (keys s p) AND (KEY_DIRTY OR KEY_VOLATILE) \<noteq> 0 then Some s
      else make_dirty_fuel n (set_key s p ((keys s p)\<lparr>kflags := kflags (keys s p) OR KEY_DIRTY\<rparr>)) (get_parent s p))"

definition make_dirty :: "registry \<Rightarrow> ptr \<Rightarrow> registry option" where
  "make_dirty s p = make_dirty_fuel (next_key s) s p"

text \<open>A subkey was created after its key, so the recursion is not deeper than the number of keys.\<close>

fun make_clean_fuel :: "nat \<Rightarrow> registry \<Rightarrow> ptr \<Rightarrow> registry option" and make_clean_all :: "nat \<Rightarrow> registry \<Rightarrow> ptr list \<Rightarrow> registry option" where
  "make_clean_fuel 0 s p = None"
| "make_clean_fuel (Suc n) s p =
     (if kflags (keys s p) AND KEY_VOLATILE \<noteq> 0 then Some s
      else if kflags (keys s p) AND KEY_DIRTY = 0 then Some s
      else make_clean_all n (set_key s p ((keys s p)\<lparr>kflags := kflags (keys s p) AND NOT KEY_DIRTY\<rparr>)) (subkeys (keys s p)))"
| "make_clean_all n s [] = Some s"
| "make_clean_all n s (p # ps) = do { s1 \<leftarrow> make_clean_fuel n s p; make_clean_all n s1 ps }"

definition make_clean :: "registry \<Rightarrow> ptr \<Rightarrow> registry option" where
  "make_clean s p = make_clean_fuel (next_key s) s p"

text \<open>The notifications after the change, which keep no event, and the events that were set.\<close>

definition do_notification :: "notify \<Rightarrow> notify \<times> ptr list" where
  "do_notification n = (n\<lparr>notify_events := []\<rparr>, notify_events n)"

fun send_notifications :: "u32 \<Rightarrow> bool \<Rightarrow> notify list \<Rightarrow> notify list \<times> ptr list" where
  "send_notifications change not_subtree [] = ([], [])"
| "send_notifications change not_subtree (n # ns) =
     (let (n', es) = (if (not_subtree \<or> subtree n) \<and> change AND notify_filter n \<noteq> 0 then do_notification n else (n, []));
          (ns', fs) = send_notifications change not_subtree ns
      in (n' # ns', es @ fs))"

definition check_notify :: "registry \<Rightarrow> ptr \<Rightarrow> u32 \<Rightarrow> bool \<Rightarrow> registry" where
  "check_notify s p change not_subtree =
     (let (ns, es) = send_notifications change not_subtree (notify_list (keys s p))
      in (set_key s p ((keys s p)\<lparr>notify_list := ns\<rparr>))\<lparr>signals := signals s @ es\<rparr>)"

fun notify_parents :: "nat \<Rightarrow> registry \<Rightarrow> ptr \<Rightarrow> u32 \<Rightarrow> registry option" where
  "notify_parents 0 s p change = (if p = 0 then Some s else None)"
| "notify_parents (Suc n) s p change =
     (if p = 0 then Some s else notify_parents n (check_notify s p change False) (get_parent s p) change)"

definition touch_key :: "registry \<Rightarrow> ptr \<Rightarrow> u32 \<Rightarrow> registry option" where
  "touch_key s p change =
     do { s1 \<leftarrow> make_dirty (set_key s p ((keys s p)\<lparr>modif := now s\<rparr>)) p;
          notify_parents (next_key s) (check_notify s1 p change True) (get_parent s p) change }"

definition find_notify :: "notify list \<Rightarrow> nat \<Rightarrow> u32 \<Rightarrow> notify option" where
  "find_notify ns process hkey = find (\<lambda>n. notify_process n = process \<and> notify_hkey n = hkey) ns"

text \<open>The handle of a notification is closed: its events are set and it is gone.\<close>

definition key_close_handle :: "registry \<Rightarrow> ptr \<Rightarrow> nat \<Rightarrow> u32 \<Rightarrow> registry" where
  "key_close_handle s p process hkey =
     (case find_notify (notify_list (keys s p)) process hkey of
        None \<Rightarrow> s
      | Some n \<Rightarrow> (set_key s p ((keys s p)\<lparr>notify_list := remove1 n (notify_list (keys s p))\<rparr>))\<lparr>signals := signals s @ notify_events n\<rparr>)"

section \<open>Subkeys\<close>

text \<open>\<^verbatim>\<open>realloc\<close> and \<^verbatim>\<open>mem_alloc\<close>: the error when there is no memory.\<close>

definition grow_subkeys :: "reg_env \<Rightarrow> registry \<Rightarrow> ptr \<Rightarrow> registry \<times> status option" where
  "grow_subkeys E s p =
     (let k = keys s p; n = (if nb_subkeys k \<noteq> 0 then nb_subkeys k + nb_subkeys k div 2 else MIN_SUBKEYS) in
      if can_grow E n then (set_key s p (k\<lparr>nb_subkeys := n\<rparr>), None) else (s, Some STATUS_NO_MEMORY))"

text \<open>The key gets its name and its parent and goes into the parent's array; the parent is a key.\<close>

definition key_link_name :: "(nat \<Rightarrow> nat) \<Rightarrow> reg_env \<Rightarrow> registry \<Rightarrow> ptr \<Rightarrow> wchar list \<Rightarrow> ptr \<Rightarrow> registry \<times> status option" where
  "key_link_name cm E s k name p =
     (let (s1, err) = (if length (subkeys (keys s p)) = nb_subkeys (keys s p) then grow_subkeys E s p else (s, None)) in
      case err of Some e \<Rightarrow> (s1, Some e)
      | None \<Rightarrow>
          let index = snd (find_subkey cm s1 p name);
              s2 = set_key s1 p ((keys s1 p)\<lparr>subkeys := insert_at index k (subkeys (keys s1 p))\<rparr>);
              s3 = (if is_wow6432node cm name \<and> \<not> is_wow6432node cm (kname (keys s2 p))
                    then set_key s2 p ((keys s2 p)\<lparr>wow6432node := k\<rparr>) else s2)
          in (set_key s3 k ((keys s3 k)\<lparr>kname := name, kparent := p\<rparr>), None))"

text \<open>The name of a key that is unlinked is freed.  An array that cannot be made smaller stays as it is.\<close>

definition shrink_array :: "reg_env \<Rightarrow> nat \<Rightarrow> nat \<Rightarrow> nat \<Rightarrow> nat" where
  "shrink_array E least used nb =
     (if nb > least \<and> int used - 1 < int (nb div 2)
      then (let n = max least (nb - nb div 3) in if can_grow E n then n else nb)
      else nb)"

definition key_unlink_name :: "reg_env \<Rightarrow> registry \<Rightarrow> ptr \<Rightarrow> registry option" where
  "key_unlink_name E s k =
     (let p = get_parent s k in
      if p = 0 then Some s
      else if k \<notin> set (subkeys (keys s p)) then None
      else let ks = remove1 k (subkeys (keys s p));
               s1 = set_key s p ((keys s p)\<lparr>subkeys := ks,
                      wow6432node := (if wow6432node (keys s p) = k then 0 else wow6432node (keys s p)),
                      nb_subkeys := shrink_array E MIN_SUBKEYS (length ks) (nb_subkeys (keys s p))\<rparr>)
           in Some (set_key s1 k ((keys s1 k)\<lparr>kname := [], kparent := 0\<rparr>)))"

text \<open>\<open>class_bytes\<close> counts the bytes of the class that are given, of which an odd last one is ignored.\<close>

definition key_init :: "reg_env \<Rightarrow> registry \<Rightarrow> ptr \<Rightarrow> u32 \<Rightarrow> wchar list \<Rightarrow> int \<Rightarrow> registry \<times> status option" where
  "key_init E s k options class t =
     (let p = get_parent s k;
          k0 = (keys s k)\<lparr>kclass := [], kflags := 0, subkeys := [], nb_subkeys := 0, wow6432node := 0, kvalues := [],
                 nb_values := 0, modif := t, notify_list := []\<rparr> in
      if class \<noteq> [] \<and> \<not> can_copy E (2 * length class) then (set_key s k k0, Some STATUS_NO_MEMORY)
      else let fl = (if options AND REG_OPTION_CREATE_LINK \<noteq> 0 then KEY_SYMLINK else 0); k1 = k0\<lparr>kclass := class\<rparr> in
           if options AND REG_OPTION_VOLATILE \<noteq> 0 then (set_key s k (k1\<lparr>kflags := fl OR KEY_VOLATILE\<rparr>), None)
           else if p \<noteq> 0 \<and> kflags (keys s p) AND KEY_VOLATILE \<noteq> 0
           then (set_key s k (k1\<lparr>kflags := fl\<rparr>), Some STATUS_CHILD_MUST_BE_VOLATILE)
           else (set_key s k (k1\<lparr>kflags := fl OR KEY_DIRTY\<rparr>), None))"

text \<open>
  \<^verbatim>\<open>create_object_with_name\<close>, \<^verbatim>\<open>server/object.c\<close>, for a key and the last element of its path, once the lookup
  has found its parent and no subkey of that name.  A key that was not created is freed, and its number taken by the next one.
\<close>

definition create_subkey :: "(nat \<Rightarrow> nat) \<Rightarrow> reg_env \<Rightarrow> registry \<Rightarrow> ptr \<Rightarrow> wchar list \<Rightarrow> u32 \<Rightarrow> wchar list \<Rightarrow> int \<Rightarrow> (registry \<times> ptr result) option" where
  "create_subkey cm E s p name options class t =
     (if \<not> can_new E then Some (s, Inl STATUS_NO_MEMORY)
      else let k = next_key s in
           case key_link_name cm E s k name p of
             (s1, Some e) \<Rightarrow> Some (s1, Inl e)
           | (s1, None) \<Rightarrow>
               (case key_init E s1 k options class t of
                  (s2, None) \<Rightarrow> Some (s2\<lparr>next_key := k + 1\<rparr>, Inr k)
                | (s2, Some e) \<Rightarrow> map_option (\<lambda>s3. (s3, Inl e)) (key_unlink_name E s2 k)))"

text \<open>
  The part of the request \<^verbatim>\<open>create_key\<close> that follows: the parent of a new key is marked and notified when
  the path was relative to an open key.
\<close>

definition create_key :: "(nat \<Rightarrow> nat) \<Rightarrow> reg_env \<Rightarrow> registry \<Rightarrow> bool \<Rightarrow> ptr \<Rightarrow> wchar list \<Rightarrow> u32 \<Rightarrow> wchar list \<Rightarrow> (registry \<times> ptr result) option" where
  "create_key cm E s relative p name options class =
     do { (s1, r) \<leftarrow> create_subkey cm E s p name options class (now s);
          case r of
            Inl e \<Rightarrow> Some (s1, Inl e)
          | Inr k \<Rightarrow> if relative then map_option (\<lambda>s2. (s2, Inr k)) (touch_key s1 (get_parent s1 k) REG_NOTIFY_CHANGE_NAME)
                     else Some (s1, Inr k) }"

definition rename_key :: "(nat \<Rightarrow> nat) \<Rightarrow> reg_env \<Rightarrow> registry \<Rightarrow> ptr \<Rightarrow> wchar list \<Rightarrow> (registry \<times> status option) option" where
  "rename_key cm E s k new_name =
     (let p = get_parent s k; len = get_path_element new_name in
      if len = 0 \<or> len \<noteq> length new_name \<or> len > MAX_NAME_LEN then Some (s, Some STATUS_INVALID_PARAMETER)
      else if p = 0 \<or> fst (find_subkey cm s p new_name) \<noteq> None then Some (s, Some STATUS_CANNOT_DELETE)
      else if k = wow6432node (keys s p) \<or> is_wow6432node cm new_name then Some (s, Some STATUS_INVALID_PARAMETER)
      else if \<not> can_new E then Some (s, Some STATUS_NO_MEMORY)
      else let ks = subkeys (keys s p); index = snd (find_subkey cm s p new_name);
               cur = length (takeWhile (\<lambda>c. c \<noteq> k) ks);
               ks' = (if cur < index then insert_at (index - 1) k (remove_at cur ks) else insert_at index k (remove_at cur ks));
               s1 = set_key s p ((keys s p)\<lparr>subkeys := ks'\<rparr>)
           in map_option (\<lambda>s2. (s2, None))
                (touch_key (set_key s1 k ((keys s1 k)\<lparr>kname := new_name\<rparr>)) k REG_NOTIFY_CHANGE_NAME))"

text \<open>The recursion: the fuel bounds the deletions together with the depth.  The results are the error that stopped it.\<close>

fun delete_key_fuel :: "nat \<Rightarrow> reg_env \<Rightarrow> registry \<Rightarrow> ptr \<Rightarrow> bool \<Rightarrow> (registry \<times> status option) option"
  and delete_subkeys :: "nat \<Rightarrow> reg_env \<Rightarrow> registry \<Rightarrow> ptr \<Rightarrow> (registry \<times> status option) option" where
  "delete_key_fuel 0 E s k recurse = None"
| "delete_key_fuel (Suc n) E s k recurse =
     (let p = get_parent s k in
      if kflags (keys s k) AND KEY_DELETED \<noteq> 0 then Some (s, None)
      else if p = 0 then Some (s, Some STATUS_ACCESS_DENIED)
      else if kflags (keys s k) AND KEY_PREDEF \<noteq> 0 then Some (s, Some STATUS_INVALID_HANDLE)
      else do { (s1, err) \<leftarrow> (if recurse then delete_subkeys n E s k
                             else Some (s, if subkeys (keys s k) = [] then None else Some STATUS_ACCESS_DENIED));
                case err of Some e \<Rightarrow> Some (s1, Some e)
                | None \<Rightarrow>
                    do { s2 \<leftarrow> key_unlink_name E (set_key s1 k ((keys s1 k)\<lparr>kflags := kflags (keys s1 k) OR KEY_DELETED\<rparr>)) k;
                         s3 \<leftarrow> touch_key s2 p REG_NOTIFY_CHANGE_NAME;
                         Some (s3, None) } })"
| "delete_subkeys 0 E s k = (if subkeys (keys s k) = [] then Some (s, None) else None)"
| "delete_subkeys (Suc n) E s k =
     (if subkeys (keys s k) = [] then Some (s, None)
      else do { (s1, err) \<leftarrow> delete_key_fuel n E s (last (subkeys (keys s k))) True;
                case err of Some e \<Rightarrow> Some (s1, Some e) | None \<Rightarrow> delete_subkeys n E s1 k })"

definition delete_key :: "reg_env \<Rightarrow> registry \<Rightarrow> ptr \<Rightarrow> bool \<Rightarrow> (registry \<times> status option) option" where
  "delete_key E s k recurse = delete_key_fuel (2 * next_key s) E s k recurse"

section \<open>Wow6432Node\<close>

text \<open>The key that 32-bit processes see instead.  The fuel is the depth of the key.\<close>

fun get_wow6432node_fuel :: "(nat \<Rightarrow> nat) \<Rightarrow> nat \<Rightarrow> registry \<Rightarrow> ptr \<Rightarrow> ptr option" where
  "get_wow6432node_fuel cm 0 s p = (if p = 0 then Some 0 else None)"
| "get_wow6432node_fuel cm (Suc n) s p =
     (if p = 0 then Some 0
      else if wow6432node (keys s p) \<noteq> 0 then Some (wow6432node (keys s p))
      else let q = get_parent s p in
           if q \<noteq> 0 \<and> p = wow6432node (keys s q) then Some p
           else do { r \<leftarrow> get_wow6432node_fuel cm n s q;
                     Some (if r = 0 then p else case fst (find_subkey cm s r (kname (keys s p))) of None \<Rightarrow> 0 | Some k \<Rightarrow> k) })"

definition get_wow6432node :: "(nat \<Rightarrow> nat) \<Rightarrow> registry \<Rightarrow> ptr \<Rightarrow> ptr option" where
  "get_wow6432node cm s p = get_wow6432node_fuel cm (next_key s) s p"

definition get_wow6432_parent :: "(nat \<Rightarrow> nat) \<Rightarrow> registry \<Rightarrow> ptr \<Rightarrow> u32 \<Rightarrow> wchar list \<Rightarrow> ptr option" where
  "get_wow6432_parent cm s p acc name =
     (if p \<noteq> 0 \<and> acc AND KEY_WOW64_64KEY = 0 \<and> \<not> is_wow6432node cm name
      then do { k \<leftarrow> get_wow6432node cm s p;
                Some (if k \<noteq> 0 \<and> (acc AND KEY_WOW64_32KEY \<noteq> 0 \<or> kflags (keys s k) AND KEY_WOWSHARE \<noteq> 0) then k else p) }
      else Some p)"

definition grab_wow6432node :: "registry \<Rightarrow> ptr \<Rightarrow> ptr" where
  "grab_wow6432node s p =
     (let r = wow6432node (keys s p) in
      if r = 0 then p else if kflags (keys s r) AND KEY_WOWSHARE \<noteq> 0 then p else r)"

section \<open>Values\<close>

definition grow_values :: "reg_env \<Rightarrow> registry \<Rightarrow> ptr \<Rightarrow> registry \<times> status option" where
  "grow_values E s p =
     (let k = keys s p; n = (if nb_values k \<noteq> 0 then nb_values k + nb_values k div 2 else MIN_VALUES) in
      if can_grow E n then (set_key s p (k\<lparr>nb_values := n\<rparr>), None) else (s, Some STATUS_NO_MEMORY))"

text \<open>The type of a new value is set by the caller; until then it is what the memory held, here \<open>REG_NONE\<close>.\<close>

definition insert_value :: "reg_env \<Rightarrow> registry \<Rightarrow> ptr \<Rightarrow> wchar list \<Rightarrow> nat \<Rightarrow> registry \<times> status option" where
  "insert_value E s p name index =
     (if length name > MAX_VALUE_LEN then (s, Some STATUS_NAME_TOO_LONG)
      else let (s1, err) = (if length (kvalues (keys s p)) = nb_values (keys s p) then grow_values E s p else (s, None)) in
           case err of Some e \<Rightarrow> (s1, Some e)
           | None \<Rightarrow>
               if name \<noteq> [] \<and> \<not> can_copy E (2 * length name) then (s1, Some STATUS_NO_MEMORY)
               else (set_key s1 p ((keys s1 p)\<lparr>kvalues :=
                       insert_at index \<lparr>vname = name, vtype = REG_NONE, vdata = []\<rparr> (kvalues (keys s1 p))\<rparr>), None))"

definition write_value :: "registry \<Rightarrow> ptr \<Rightarrow> nat \<Rightarrow> u32 \<Rightarrow> byte list \<Rightarrow> registry" where
  "write_value s p index type data =
     set_key s p ((keys s p)\<lparr>kvalues :=
       (kvalues (keys s p))[index := (kvalues (keys s p) ! index)\<lparr>vtype := type, vdata := data\<rparr>]\<rparr>)"

definition set_value :: "(nat \<Rightarrow> nat) \<Rightarrow> reg_env \<Rightarrow> registry \<Rightarrow> ptr \<Rightarrow> wchar list \<Rightarrow> u32 \<Rightarrow> byte list \<Rightarrow> (registry \<times> status option) option" where
  "set_value cm E s p name type data =
     (let (v, index) = find_value cm (kvalues (keys s p)) name in
      if kflags (keys s p) AND KEY_PREDEF \<noteq> 0 then Some (s, Some STATUS_INVALID_HANDLE)
      else if (case v of None \<Rightarrow> False | Some x \<Rightarrow> vtype x = type \<and> vdata x = data \<and> data \<noteq> []) then Some (s, None)
      else if kflags (keys s p) AND KEY_SYMLINK \<noteq> 0 \<and>
        (type \<noteq> REG_LINK \<or> length name \<noteq> length symlink_str \<or> memicmp_strW cm name symlink_str \<noteq> 0)
      then Some (s, Some STATUS_ACCESS_DENIED)
      else if data \<noteq> [] \<and> \<not> can_copy E (length data) then Some (s, Some STATUS_NO_MEMORY)
      else let (s1, err) = (case v of None \<Rightarrow> insert_value E s p name index | Some _ \<Rightarrow> (s, None)) in
           case err of Some e \<Rightarrow> Some (s1, Some e)
           | None \<Rightarrow> map_option (\<lambda>s2. (s2, None)) (touch_key (write_value s1 p index type data) p REG_NOTIFY_CHANGE_LAST_SET))"

text \<open>The type, the size of the data, and as many of them as the client has room for.\<close>

definition get_value :: "(nat \<Rightarrow> nat) \<Rightarrow> registry \<Rightarrow> ptr \<Rightarrow> wchar list \<Rightarrow> nat \<Rightarrow> (u32 \<times> nat \<times> byte list) result" where
  "get_value cm s p name room =
     (if kflags (keys s p) AND KEY_PREDEF \<noteq> 0 then Inl STATUS_INVALID_HANDLE
      else case fst (find_value cm (kvalues (keys s p)) name) of
             None \<Rightarrow> Inl STATUS_OBJECT_NAME_NOT_FOUND
           | Some v \<Rightarrow> Inr (vtype v, length (vdata v), take room (vdata v)))"

datatype value_info = KeyValueBasicInformation | KeyValueFullInformation | KeyValuePartialInformation | Other_Value_Info

definition utf16_bytes :: "wchar list \<Rightarrow> byte list" where
  "utf16_bytes cs = concat (map (\<lambda>c. [c mod 256, c div 256]) cs)"

text \<open>The type, the total size, the size of the name that is returned, and the data of the reply.\<close>

definition enum_value :: "registry \<Rightarrow> ptr \<Rightarrow> int \<Rightarrow> value_info \<Rightarrow> nat \<Rightarrow> (u32 \<times> nat \<times> nat \<times> byte list) result" where
  "enum_value s p i info room =
     (if kflags (keys s p) AND KEY_PREDEF \<noteq> 0 then Inl STATUS_INVALID_HANDLE
      else if i < 0 \<or> i > int (length (kvalues (keys s p))) - 1 then Inl STATUS_NO_MORE_ENTRIES
      else let v = kvalues (keys s p) ! nat i; nm = utf16_bytes (vname v);
               reply = (\<lambda>total namelen.
                 let maxlen = min total room in
                 if maxlen = 0 then Inr (vtype v, total, 0, [])
                 else if maxlen > namelen then Inr (vtype v, total, namelen, take namelen nm @ take (maxlen - namelen) (vdata v))
                 else Inr (vtype v, total, maxlen, take maxlen nm))
           in case info of
                KeyValueBasicInformation \<Rightarrow> reply (length nm) (length nm)
              | KeyValueFullInformation \<Rightarrow> reply (length nm + length (vdata v)) (length nm)
              | KeyValuePartialInformation \<Rightarrow> reply (length (vdata v)) 0
              | Other_Value_Info \<Rightarrow> Inl STATUS_INVALID_PARAMETER)"

definition delete_value :: "(nat \<Rightarrow> nat) \<Rightarrow> reg_env \<Rightarrow> registry \<Rightarrow> ptr \<Rightarrow> wchar list \<Rightarrow> (registry \<times> status option) option" where
  "delete_value cm E s p name =
     (if kflags (keys s p) AND KEY_PREDEF \<noteq> 0 then Some (s, Some STATUS_INVALID_HANDLE)
      else case find_value cm (kvalues (keys s p)) name of
             (None, _) \<Rightarrow> Some (s, Some STATUS_OBJECT_NAME_NOT_FOUND)
           | (Some _, index) \<Rightarrow>
               do { s1 \<leftarrow> touch_key (set_key s p ((keys s p)\<lparr>kvalues := remove_at index (kvalues (keys s p))\<rparr>)) p REG_NOTIFY_CHANGE_LAST_SET;
                    let vs = kvalues (keys s1 p);
                    Some (set_key s1 p ((keys s1 p)\<lparr>nb_values := shrink_array E MIN_VALUES (length vs) (nb_values (keys s1 p))\<rparr>), None) })"

end
