(* ===== verification/Registry_Search.thy ===== *)
theory Registry_Search
  imports Registry Unicode_Correct "HOL-Library.List_Lexorder"
begin

text \<open>
  The binary search of the registry: the comparison of names is a linear order of the names without
  case, the search finds what a sorted array holds, and insertion and removal at the place found keep it sorted.
\<close>

section \<open>The order of names\<close>

definition name_key :: "(nat \<Rightarrow> nat) \<Rightarrow> wchar list \<Rightarrow> nat list" where
  "name_key cm name = map (to_lower cm) name"

lemma memicmp_take: "memicmp_strW cm (take (min (length a) (length b)) a) (take (min (length a) (length b)) b) = memicmp_strW cm a b"
  by (induction cm a b rule: memicmp_strW.induct) (auto simp: Let_def)

lemma name_cmp_Cons:
  "name_cmp cm (x # a) (y # b) =
     (if to_lower cm x = to_lower cm y then name_cmp cm a b else int (to_lower cm x) - int (to_lower cm y))"
  by (simp add: name_cmp_def Let_def memicmp_take)

lemma name_cmp_Nil: "name_cmp cm [] b = - int (length b)" "name_cmp cm a [] = int (length a)"
  by (simp_all add: name_cmp_def)

lemma name_cmp_zero: "name_cmp cm a b = 0 \<longleftrightarrow> name_key cm a = name_key cm b"
proof (induction a arbitrary: b)
  case Nil
  then show ?case by (cases b) (auto simp: name_cmp_Nil name_key_def)
next
  case (Cons x a)
  then show ?case by (cases b) (auto simp: name_cmp_Nil name_cmp_Cons name_key_def)
qed

lemma name_cmp_pos: "0 < name_cmp cm a b \<longleftrightarrow> name_key cm b < name_key cm a"
proof (induction a arbitrary: b)
  case Nil
  then show ?case by (cases b) (auto simp: name_cmp_Nil name_key_def)
next
  case (Cons x a)
  then show ?case by (cases b) (auto simp: name_cmp_Nil name_cmp_Cons name_key_def)
qed

section \<open>Sorted arrays\<close>

abbreviation ascending :: "('a \<Rightarrow> 'k::linorder) \<Rightarrow> 'a list \<Rightarrow> bool" where
  "ascending key xs \<equiv> sorted_wrt (<) (map key xs)"

definition table :: "('a \<Rightarrow> 'k) \<Rightarrow> 'a list \<Rightarrow> 'k \<Rightarrow> 'a option" where
  "table key xs = map_of (map (\<lambda>x. (key x, x)) xs)"

lemma table_Some: "distinct (map key xs) \<Longrightarrow> table key xs k = Some x \<longleftrightarrow> x \<in> set xs \<and> key x = k"
  unfolding table_def by (subst map_of_eq_Some_iff) (auto simp: comp_def)

lemma table_None: "table key xs k = None \<longleftrightarrow> k \<notin> key ` set xs"
  unfolding table_def map_of_eq_None_iff by (force simp: image_iff)

lemma ascending_distinct: "ascending key xs \<Longrightarrow> distinct (map key xs)"
  by (simp add: strict_sorted_iff)

lemma ascending_less: "ascending key xs \<Longrightarrow> i < j \<Longrightarrow> j < length xs \<Longrightarrow> key (xs ! i) < key (xs ! j)"
  by (simp add: sorted_wrt_iff_nth_less)

lemma set_remove_at: "distinct xs \<Longrightarrow> i < length xs \<Longrightarrow> set (remove_at i xs) = set xs - {xs ! i}"
proof -
  assume d: "distinct xs" and i: "i < length xs"
  have x: "xs = take i xs @ xs ! i # drop (Suc i) xs" using i by (rule id_take_nth_drop)
  have "distinct (take i xs @ xs ! i # drop (Suc i) xs)" using d x by simp
  moreover have "set xs = set (take i xs @ xs ! i # drop (Suc i) xs)" using x by simp
  ultimately show ?thesis unfolding remove_at_def by auto
qed

lemma set_insert_at: "set (insert_at i x xs) = insert x (set xs)"
proof -
  have "set (take i xs) \<union> set (drop i xs) = set xs" by (metis append_take_drop_id set_append)
  then show ?thesis by (auto simp: insert_at_def)
qed

lemma length_at [simp]: "i < length xs \<Longrightarrow> length (remove_at i xs) = length xs - 1" "length (insert_at i x xs) = Suc (length xs)"
  by (auto simp: remove_at_def insert_at_def)

lemma ascending_remove: "ascending key xs \<Longrightarrow> ascending key (remove_at i xs)"
proof -
  assume a: "ascending key xs"
  show ?thesis
  proof (cases "i < length xs")
    case True
    have "map key xs = take i (map key xs) @ key (xs ! i) # drop (Suc i) (map key xs)"
      using id_take_nth_drop[of i "map key xs"] True by simp
    then have "sorted_wrt (<) (take i (map key xs) @ key (xs ! i) # drop (Suc i) (map key xs))" using a by simp
    then show ?thesis unfolding remove_at_def by (simp add: sorted_wrt_append take_map drop_map)
  next
    case False
    then show ?thesis using a by (simp add: remove_at_def)
  qed
qed

lemma ascending_insert:
  assumes "ascending key xs" "i \<le> length xs" "\<forall>j < i. key (xs ! j) < key x" "\<forall>j < length xs. i \<le> j \<longrightarrow> key x < key (xs ! j)"
  shows "ascending key (insert_at i x xs)"
proof -
  have "map key xs = take i (map key xs) @ drop i (map key xs)" by simp
  then have "sorted_wrt (<) (take i (map key xs) @ drop i (map key xs))" using assms(1) by simp
  moreover have "\<forall>y \<in> set (take i (map key xs)). y < key x" using assms(2,3) by (auto simp: in_set_conv_nth)
  moreover have "\<forall>y \<in> set (drop i (map key xs)). key x < y" using assms(2,4) by (auto simp: in_set_conv_nth)
  ultimately show ?thesis
    unfolding insert_at_def by (fastforce simp: sorted_wrt_append take_map drop_map)
qed

lemma table_insert: "ascending key (insert_at i x xs) \<Longrightarrow> ascending key xs \<Longrightarrow> table key (insert_at i x xs) = (table key xs)(key x \<mapsto> x)"
proof
  fix k
  assume a: "ascending key (insert_at i x xs)" and b: "ascending key xs"
  have d: "distinct (map key (insert_at i x xs))" "distinct (map key xs)" using a b ascending_distinct by blast+
  show "table key (insert_at i x xs) k = ((table key xs)(key x \<mapsto> x)) k"
  proof (cases "table key (insert_at i x xs) k")
    case None
    then show ?thesis using table_None[of key "insert_at i x xs" k] table_None[of key xs k] by (auto simp: set_insert_at)
  next
    case (Some y)
    then have y: "y \<in> insert x (set xs)" "key y = k" using table_Some[OF d(1)] by (auto simp: set_insert_at)
    show ?thesis
    proof (cases "k = key x")
      case True
      then have "y = x" using d(1) y by (metis (no_types, lifting) distinct_map inj_onD insertI1 set_insert_at)
      then show ?thesis using Some True by simp
    next
      case False
      then have "y \<in> set xs" using y by auto
      then have "table key xs k = Some y" using table_Some[OF d(2)] y(2) by simp
      then show ?thesis using Some False by simp
    qed
  qed
qed

lemma table_remove: "ascending key xs \<Longrightarrow> i < length xs \<Longrightarrow> table key (remove_at i xs) = (table key xs)(key (xs ! i) := None)"
proof
  fix k
  assume a: "ascending key xs" and i: "i < length xs"
  have d: "distinct (map key (remove_at i xs))" "distinct (map key xs)" using ascending_distinct ascending_remove a by blast+
  have s: "set (remove_at i xs) = set xs - {xs ! i}" using set_remove_at[OF _ i] d(2) by (simp add: distinct_map)
  have inj: "y = xs ! i" if "y \<in> set xs" "key y = key (xs ! i)" for y using d(2) that i by (auto simp: distinct_map inj_on_def)
  show "table key (remove_at i xs) k = ((table key xs)(key (xs ! i) := None)) k"
  proof (cases "table key (remove_at i xs) k")
    case None
    then have n: "k \<notin> key ` (set xs - {xs ! i})" using table_None[of key "remove_at i xs" k] s by simp
    show ?thesis
    proof (cases "k = key (xs ! i)")
      case False
      then have "k \<notin> key ` set xs" using n by auto
      then show ?thesis using None False table_None[of key xs k] by simp
    qed (use None in simp)
  next
    case (Some y)
    then have y: "y \<in> set xs" "y \<noteq> xs ! i" "key y = k" using table_Some[OF d(1)] s by auto
    then have "table key xs k = Some y" using table_Some[OF d(2)] by simp
    moreover have "k \<noteq> key (xs ! i)" using inj y by blast
    ultimately show ?thesis using Some by simp
  qed
qed

lemma table_update:
  "ascending key xs \<Longrightarrow> i < length xs \<Longrightarrow> key x = key (xs ! i) \<Longrightarrow>
   ascending key (xs[i := x]) \<and> table key (xs[i := x]) = (table key xs)(key x \<mapsto> x)"
proof
  assume a: "ascending key xs" and i: "i < length xs" and k: "key x = key (xs ! i)"
  have m: "map key (xs[i := x]) = map key xs" using k i by (simp add: map_update list_update_same_conv)
  show b: "ascending key (xs[i := x])" using a by (simp only: m)
  have "xs[i := x] = insert_at i x (remove_at i xs)"
    using i by (simp add: insert_at_def remove_at_def upd_conv_take_nth_drop)
  then show "table key (xs[i := x]) = (table key xs)(key x \<mapsto> x)"
    using table_insert[of key i x "remove_at i xs"] table_remove[OF a i] ascending_remove[OF a, of i] b k by simp
qed

section \<open>The interface of a search\<close>

text \<open>The comparison of an element with what is looked for has the sign of an order of keys.\<close>

locale ordered_search =
  fixes key :: "'a \<Rightarrow> 'k::linorder" and want :: "'n \<Rightarrow> 'k" and cmp :: "'a \<Rightarrow> 'n \<Rightarrow> int"
  assumes cmp_zero: "cmp x n = 0 \<longleftrightarrow> key x = want n"
    and cmp_pos: "0 < cmp x n \<longleftrightarrow> want n < key x"
begin

lemma loop_spec:
  assumes "ascending key xs" "0 \<le> mn" "mn \<le> int (length xs)" "- 1 \<le> mx" "mx < int (length xs)"
    and "\<forall>j < length xs. int j < mn \<longrightarrow> key (xs ! j) < want n" "\<forall>j < length xs. mx < int j \<longrightarrow> want n < key (xs ! j)"
    and "search_loop (\<lambda>i. cmp (xs ! i) n) mn mx = (b, i)"
  shows "if b then i < length xs \<and> key (xs ! i) = want n
    else i \<le> length xs \<and> (\<forall>j < i. key (xs ! j) < want n) \<and> (\<forall>j < length xs. i \<le> j \<longrightarrow> want n < key (xs ! j))"
  using assms(2-)
proof (induction "\<lambda>i. cmp (xs ! i) n" mn mx arbitrary: b i rule: search_loop.induct)
  case (1 mn mx)
  let ?i = "(mn + mx) div 2"
  show ?case
  proof (cases "mn \<le> mx")
    case False
    then have "b = False" "i = nat mn" using "1.prems"(7) by (simp_all add: search_loop.simps)
    then show ?thesis using "1.prems"(1-6) False by auto
  next
    case True
    have b: "mn \<le> ?i" "?i \<le> mx" using True by linarith+
    then have len: "nat ?i < length xs" using "1.prems"(1,4) by linarith
    have lt: "key (xs ! j) < key (xs ! nat ?i)" if "int j < ?i" for j
      using ascending_less[OF assms(1), of j "nat ?i"] that len by simp
    have gt: "key (xs ! nat ?i) < key (xs ! j)" if "?i < int j" "j < length xs" for j
      using ascending_less[OF assms(1), of "nat ?i" j] that b(1) "1.prems"(1) by simp
    consider "cmp (xs ! nat ?i) n = 0" | "0 < cmp (xs ! nat ?i) n" | "cmp (xs ! nat ?i) n < 0" by linarith
    then show ?thesis
    proof cases
      case 1
      then have "b = True" "i = nat ?i" using "1.prems"(7) True by (simp_all add: search_loop.simps Let_def)
      then show ?thesis using 1 len cmp_zero by simp
    next
      case 2
      then have run: "search_loop (\<lambda>i. cmp (xs ! i) n) mn (?i - 1) = (b, i)"
        using "1.prems"(7) True by (simp add: search_loop.simps[of _ mn mx] Let_def)
      have w: "want n < key (xs ! nat ?i)" using 2 cmp_pos by simp
      have "want n < key (xs ! j)" if "j < length xs" "?i - 1 < int j" for j
        proof (cases "int j = ?i")
        case True
        then have "nat ?i = j" by linarith
        then show ?thesis using w by simp
      next
        case False
        then show ?thesis using w gt[of j] that by (auto intro: less_trans)
      qed
      then show ?thesis
        using "1.hyps"(1)[OF True refl refl _ _ "1.prems"(1,2) _ _ "1.prems"(5) _ run] 2 b "1.prems"(1,4) by auto
    next
      case 3
      then have run: "search_loop (\<lambda>i. cmp (xs ! i) n) (?i + 1) mx = (b, i)"
        using "1.prems"(7) True by (simp add: search_loop.simps[of _ mn mx] Let_def)
      have w: "key (xs ! nat ?i) < want n" using 3 cmp_pos[of "xs ! nat ?i" n] cmp_zero[of "xs ! nat ?i" n] by (metis linorder_neqE not_less_iff_gr_or_eq)
      have "key (xs ! j) < want n" if "j < length xs" "int j < ?i + 1" for j
        proof (cases "int j = ?i")
        case True
        then have "nat ?i = j" by linarith
        then show ?thesis using w by simp
      next
        case False
        then show ?thesis using w lt[of j] that by (auto intro: less_trans)
      qed
      then show ?thesis
        using "1.hyps"(2)[OF True refl refl _ _ _ _ "1.prems"(3,4) _ "1.prems"(6) run] 3 b len "1.prems"(1) by auto
    qed
  qed
qed

lemma search_spec:
  assumes "ascending key xs" "search_loop (\<lambda>i. cmp (xs ! i) n) 0 (int (length xs) - 1) = (b, i)"
  shows "(if b then Some (xs ! i) else None) = table key xs (want n)"
    and "b \<Longrightarrow> i < length xs \<and> key (xs ! i) = want n"
    and "\<not> b \<Longrightarrow> key y = want n \<Longrightarrow> ascending key (insert_at i y xs)"
proof -
  have s: "if b then i < length xs \<and> key (xs ! i) = want n
    else i \<le> length xs \<and> (\<forall>j < i. key (xs ! j) < want n) \<and> (\<forall>j < length xs. i \<le> j \<longrightarrow> want n < key (xs ! j))"
    by (rule loop_spec[OF assms(1) _ _ _ _ _ _ assms(2)]) auto
  show "b \<Longrightarrow> i < length xs \<and> key (xs ! i) = want n" using s by simp
  show "(if b then Some (xs ! i) else None) = table key xs (want n)"
  proof (cases b)
    case True
    then show ?thesis using s table_Some[OF ascending_distinct[OF assms(1)], of "want n" "xs ! i"] by simp
  next
    case False
    have "key (xs ! j) \<noteq> want n" if "j < length xs" for j using s False that by (cases "j < i") auto
    then have "want n \<notin> key ` set xs" by (metis (no_types, lifting) image_iff in_set_conv_nth)
    then show ?thesis using False table_None[of key xs "want n"] by simp
  qed
  show "\<not> b \<Longrightarrow> key y = want n \<Longrightarrow> ascending key (insert_at i y xs)"
    using s ascending_insert[OF assms(1), of i y] by simp
qed

lemma search_gap:
  assumes "ascending key xs" "search_loop (\<lambda>i. cmp (xs ! i) n) 0 (int (length xs) - 1) = (False, i)"
  shows "i \<le> length xs \<and> sorted_wrt (<) (insert_at i (want n) (map key xs))"
proof -
  have "i \<le> length xs \<and> (\<forall>j < i. key (xs ! j) < want n) \<and> (\<forall>j < length xs. i \<le> j \<longrightarrow> want n < key (xs ! j))"
    using loop_spec[OF assms(1) _ _ _ _ _ _ assms(2)] by simp
  then show ?thesis using ascending_insert[of id "map key xs" i "want n"] assms(1) by (simp add: list.map_id)
qed

end

interpretation value_search: ordered_search "\<lambda>v. name_key cm (vname v)" "name_key cm" "\<lambda>v. name_cmp cm (vname v)" for cm
  by unfold_locales (simp_all add: name_cmp_zero name_cmp_pos)

interpretation child_search: ordered_search "\<lambda>p. name_key cm (kname (keys s p))" "name_key cm" "\<lambda>p. name_cmp cm (kname (keys s p))" for cm s
  by unfold_locales (simp_all add: name_cmp_zero name_cmp_pos)

end
