(* ===== verification/Registry_Tree.thy ===== *)
theory Registry_Tree
  imports Registry_Search
begin

text \<open>
  The tree of keys: the invariant of the arrays and links, that it is kept by marking and notifying, linking
  and unlinking, and that the marks of modified keys reach the root.
\<close>

section \<open>Flags\<close>

abbreviation has :: "registry \<Rightarrow> u32 \<Rightarrow> ptr \<Rightarrow> bool" where
  "has s f p \<equiv> kflags (keys s p) AND f \<noteq> 0"

lemma flag_or_dirty [simp]:
  "(fl OR KEY_DIRTY) AND KEY_VOLATILE = fl AND KEY_VOLATILE" "(fl OR KEY_DIRTY) AND KEY_DELETED = fl AND KEY_DELETED"
  "(fl OR KEY_DIRTY) AND KEY_PREDEF = fl AND KEY_PREDEF" "(fl OR KEY_DIRTY) AND KEY_SYMLINK = fl AND KEY_SYMLINK"
  "(fl OR KEY_DIRTY) AND KEY_WOWSHARE = fl AND KEY_WOWSHARE"
  by (simp_all add: bit.conj_disj_distrib2 KEY_DIRTY_def KEY_VOLATILE_def KEY_DELETED_def KEY_PREDEF_def KEY_SYMLINK_def KEY_WOWSHARE_def)

lemma flag_or_self [simp]: "(fl OR KEY_DIRTY) AND KEY_DIRTY = KEY_DIRTY"
  by (rule bit_eqI) (auto simp: bit_and_iff bit_or_iff)

lemma dirty_nonzero [simp]: "KEY_DIRTY \<noteq> 0" "KEY_DELETED \<noteq> 0" by (simp_all add: KEY_DIRTY_def KEY_DELETED_def)

lemma flag_both: "fl AND (KEY_DIRTY OR KEY_VOLATILE) \<noteq> 0 \<longleftrightarrow> fl AND KEY_DIRTY \<noteq> 0 \<or> fl AND KEY_VOLATILE \<noteq> (0 :: u32)"
proof -
  have "fl AND (KEY_DIRTY OR KEY_VOLATILE) = (fl AND KEY_DIRTY) OR (fl AND KEY_VOLATILE)" by (rule bit.conj_disj_distrib)
  then show ?thesis by (simp add: or_eq_0_iff)
qed

lemma flag_or_deleted [simp]:
  "(fl OR KEY_DELETED) AND KEY_VOLATILE = fl AND KEY_VOLATILE" "(fl OR KEY_DELETED) AND KEY_DIRTY = fl AND KEY_DIRTY"
  "(fl OR KEY_DELETED) AND KEY_DELETED = KEY_DELETED"
  by (simp add: bit.conj_disj_distrib2 KEY_DIRTY_def KEY_VOLATILE_def KEY_DELETED_def)
    (simp add: bit.conj_disj_distrib2 KEY_DIRTY_def KEY_VOLATILE_def KEY_DELETED_def, rule bit_eqI, auto simp: bit_and_iff bit_or_iff)

section \<open>What marking and notifying leave alone\<close>

definition core :: "key \<Rightarrow> key" where
  "core k = k\<lparr>modif := 0, kflags := 0, notify_list := []\<rparr>"

lemma core_D:
  assumes "core k' = core k"
  shows "kname k' = kname k" "kparent k' = kparent k" "kclass k' = kclass k" "subkeys k' = subkeys k" "nb_subkeys k' = nb_subkeys k"
    "wow6432node k' = wow6432node k" "kvalues k' = kvalues k" "nb_values k' = nb_values k"
  using assms by (cases k; cases k'; simp add: core_def)+

lemma core_eq [simp]: "core (k\<lparr>modif := t\<rparr>) = core k" "core (k\<lparr>kflags := f\<rparr>) = core k" "core (k\<lparr>notify_list := l\<rparr>) = core k"
  by (simp_all add: core_def)

definition same :: "registry \<Rightarrow> registry \<Rightarrow> bool" where
  "same s s' =
     (next_key s' = next_key s \<and> root_key s' = root_key s \<and> now s' = now s \<and>
      (\<forall>p. core (keys s' p) = core (keys s p) \<and>
        (kflags (keys s' p) = kflags (keys s p) \<or> kflags (keys s' p) = kflags (keys s p) OR KEY_DIRTY)))"

lemma same_refl [simp]: "same s s" by (simp add: same_def)

lemma or_twice: "(a OR b) OR b = (a OR b :: u32)"
  by (simp add: or.assoc)

lemma same_trans: "same s s1 \<Longrightarrow> same s1 s2 \<Longrightarrow> same s s2"
  unfolding same_def by (metis or_twice)

lemma same_D:
  assumes "same s s'"
  shows "next_key s' = next_key s" "root_key s' = root_key s" "now s' = now s" "kname (keys s' p) = kname (keys s p)"
    "kparent (keys s' p) = kparent (keys s p)" "subkeys (keys s' p) = subkeys (keys s p)" "nb_subkeys (keys s' p) = nb_subkeys (keys s p)"
    "wow6432node (keys s' p) = wow6432node (keys s p)" "kvalues (keys s' p) = kvalues (keys s p)" "nb_values (keys s' p) = nb_values (keys s p)"
    "kclass (keys s' p) = kclass (keys s p)"
    "kflags (keys s' p) AND KEY_VOLATILE = kflags (keys s p) AND KEY_VOLATILE" "kflags (keys s' p) AND KEY_DELETED = kflags (keys s p) AND KEY_DELETED"
    "kflags (keys s' p) AND KEY_PREDEF = kflags (keys s p) AND KEY_PREDEF" "kflags (keys s' p) AND KEY_SYMLINK = kflags (keys s p) AND KEY_SYMLINK"
    "has s KEY_DIRTY p \<Longrightarrow> has s' KEY_DIRTY p"
proof -
  have c: "core (keys s' p) = core (keys s p)" using assms by (simp add: same_def)
  have f: "kflags (keys s' p) = kflags (keys s p) \<or> kflags (keys s' p) = kflags (keys s p) OR KEY_DIRTY" using assms by (simp add: same_def)
  show "kname (keys s' p) = kname (keys s p)"
    "kparent (keys s' p) = kparent (keys s p)" "subkeys (keys s' p) = subkeys (keys s p)" "nb_subkeys (keys s' p) = nb_subkeys (keys s p)"
    "wow6432node (keys s' p) = wow6432node (keys s p)" "kvalues (keys s' p) = kvalues (keys s p)" "nb_values (keys s' p) = nb_values (keys s p)"
    "kclass (keys s' p) = kclass (keys s p)"
    using core_D[OF c] by simp_all
  show "kflags (keys s' p) AND KEY_VOLATILE = kflags (keys s p) AND KEY_VOLATILE" "kflags (keys s' p) AND KEY_DELETED = kflags (keys s p) AND KEY_DELETED"
    "kflags (keys s' p) AND KEY_PREDEF = kflags (keys s p) AND KEY_PREDEF" "kflags (keys s' p) AND KEY_SYMLINK = kflags (keys s p) AND KEY_SYMLINK"
    using f by (elim disjE; simp)+
  show "has s KEY_DIRTY p \<Longrightarrow> has s' KEY_DIRTY p" using f by (elim disjE) simp_all
qed (use assms in \<open>simp_all add: same_def\<close>)

section \<open>The invariant\<close>

definition array_ok :: "nat \<Rightarrow> nat \<Rightarrow> nat \<Rightarrow> bool" where
  "array_ok least used nb = (used \<le> nb \<and> (nb = 0 \<or> least \<le> nb))"

definition key_ok :: "(nat \<Rightarrow> nat) \<Rightarrow> registry \<Rightarrow> ptr \<Rightarrow> bool" where
  "key_ok cm s p =
     (kparent (keys s p) < p \<and>
      (\<forall>c \<in> set (subkeys (keys s p)). c < next_key s \<and> kparent (keys s c) = p) \<and> 0 \<notin> set (subkeys (keys s p)) \<and>
      ascending (\<lambda>c. name_key cm (kname (keys s c))) (subkeys (keys s p)) \<and>
      array_ok MIN_SUBKEYS (length (subkeys (keys s p))) (nb_subkeys (keys s p)) \<and>
      ascending (\<lambda>v. name_key cm (vname v)) (kvalues (keys s p)) \<and>
      array_ok MIN_VALUES (length (kvalues (keys s p))) (nb_values (keys s p)) \<and>
      (kparent (keys s p) \<noteq> 0 \<longrightarrow> p \<in> set (subkeys (keys s (kparent (keys s p))))) \<and>
      (wow6432node (keys s p) \<noteq> 0 \<longrightarrow> wow6432node (keys s p) \<in> set (subkeys (keys s p))) \<and>
      (has s KEY_DELETED p \<longrightarrow> subkeys (keys s p) = [] \<and> kparent (keys s p) = 0) \<and>
      (kparent (keys s p) \<noteq> 0 \<and> \<not> has s KEY_VOLATILE p \<longrightarrow> \<not> has s KEY_VOLATILE (kparent (keys s p))))"

abbreviation alive :: "registry \<Rightarrow> ptr \<Rightarrow> bool" where
  "alive s p \<equiv> 0 < p \<and> p < next_key s"

definition reg_inv :: "(nat \<Rightarrow> nat) \<Rightarrow> registry \<Rightarrow> bool" where
  "reg_inv cm s = (\<forall>p. alive s p \<longrightarrow> key_ok cm s p)"

lemma reg_inv_D:
  assumes "reg_inv cm s" "alive s p"
  shows "kparent (keys s p) < p" "c \<in> set (subkeys (keys s p)) \<Longrightarrow> alive s c \<and> kparent (keys s c) = p"
    "ascending (\<lambda>c. name_key cm (kname (keys s c))) (subkeys (keys s p))"
    "array_ok MIN_SUBKEYS (length (subkeys (keys s p))) (nb_subkeys (keys s p))"
    "ascending (\<lambda>v. name_key cm (vname v)) (kvalues (keys s p))"
    "array_ok MIN_VALUES (length (kvalues (keys s p))) (nb_values (keys s p))"
    "kparent (keys s p) \<noteq> 0 \<Longrightarrow> p \<in> set (subkeys (keys s (kparent (keys s p))))"
    "has s KEY_DELETED p \<Longrightarrow> subkeys (keys s p) = [] \<and> kparent (keys s p) = 0"
    "wow6432node (keys s p) \<noteq> 0 \<Longrightarrow> wow6432node (keys s p) \<in> set (subkeys (keys s p))"
    "kparent (keys s p) \<noteq> 0 \<Longrightarrow> \<not> has s KEY_VOLATILE p \<Longrightarrow> \<not> has s KEY_VOLATILE (kparent (keys s p))"
proof -
  have k: "key_ok cm s p" using assms by (simp add: reg_inv_def)
  show "kparent (keys s p) < p" "ascending (\<lambda>c. name_key cm (kname (keys s c))) (subkeys (keys s p))"
    "array_ok MIN_SUBKEYS (length (subkeys (keys s p))) (nb_subkeys (keys s p))"
    "ascending (\<lambda>v. name_key cm (vname v)) (kvalues (keys s p))"
    "array_ok MIN_VALUES (length (kvalues (keys s p))) (nb_values (keys s p))"
    "kparent (keys s p) \<noteq> 0 \<Longrightarrow> p \<in> set (subkeys (keys s (kparent (keys s p))))"
    "has s KEY_DELETED p \<Longrightarrow> subkeys (keys s p) = [] \<and> kparent (keys s p) = 0"
    "wow6432node (keys s p) \<noteq> 0 \<Longrightarrow> wow6432node (keys s p) \<in> set (subkeys (keys s p))"
    "kparent (keys s p) \<noteq> 0 \<Longrightarrow> \<not> has s KEY_VOLATILE p \<Longrightarrow> \<not> has s KEY_VOLATILE (kparent (keys s p))"
    using k by (simp_all add: key_ok_def)
  assume "c \<in> set (subkeys (keys s p))"
  then show "alive s c \<and> kparent (keys s c) = p" using k by (auto simp: key_ok_def intro: gr0I)
qed


lemma key_ok_same: "same s s' \<Longrightarrow> key_ok cm s' p = key_ok cm s p"
  unfolding key_ok_def by (simp only: same_D)

lemma reg_inv_same: "same s s' \<Longrightarrow> reg_inv cm s' = reg_inv cm s"
  unfolding reg_inv_def by (simp only: key_ok_same same_D)

section \<open>Marking and notifying\<close>

definition chain_ok :: "registry \<Rightarrow> bool" where
  "chain_ok s = (\<forall>p. alive s p \<longrightarrow> kparent (keys s p) < p)"

lemma reg_inv_chain: "reg_inv cm s \<Longrightarrow> chain_ok s"
  by (simp add: reg_inv_def chain_ok_def key_ok_def)

lemma set_key_fields [simp]:
  "keys (set_key s p k) = (keys s)(p := k)" "next_key (set_key s p k) = next_key s" "root_key (set_key s p k) = root_key s"
  "now (set_key s p k) = now s" "signals (set_key s p k) = signals s"
  by (simp_all add: set_key_def)

lemma same_mark: "same s (set_key s p ((keys s p)\<lparr>kflags := kflags (keys s p) OR KEY_DIRTY\<rparr>))"
  by (simp add: same_def)

lemma chain_ok_same: "same s s' \<Longrightarrow> chain_ok s' = chain_ok s"
  unfolding chain_ok_def by (simp only: same_D)

lemma check_notify_same: "same s (check_notify s p change b)"
  by (auto simp: check_notify_def same_def split: prod.splits)

lemma notify_parents_returns:
  assumes "chain_ok s" "p < next_key s" "p \<le> n"
  shows "\<exists>s'. notify_parents n s p change = Some s' \<and> same s s' \<and> (\<forall>q. kflags (keys s' q) = kflags (keys s q))"
  using assms
proof (induction n arbitrary: s p)
  case 0
  then show ?case by simp
next
  case (Suc n)
  show ?case
  proof (cases "p = 0")
    case False
    let ?s = "check_notify s p change False"
    have same: "same s ?s" by (rule check_notify_same)
    have "get_parent s p < p" using Suc.prems False by (simp add: chain_ok_def get_parent_def)
    then have "chain_ok ?s" "get_parent s p < next_key ?s" "get_parent s p \<le> n"
      using Suc.prems chain_ok_same[OF same] same_D(1)[OF same] by simp_all
    from Suc.IH[OF this] obtain s' where s': "notify_parents n ?s (get_parent s p) change = Some s'" "same ?s s'"
      "\<forall>q. kflags (keys s' q) = kflags (keys ?s q)" by blast
    have "kflags (keys ?s q) = kflags (keys s q)" for q by (auto simp: check_notify_def split: prod.splits)
    then show ?thesis using s' same_trans[OF same] False by auto
  qed simp
qed

text \<open>A modified key has a modified parent, except perhaps where \<open>p\<close> is the parent.\<close>

definition dirty_but :: "ptr \<Rightarrow> registry \<Rightarrow> bool" where
  "dirty_but p s =
     (\<forall>q. alive s q \<and> has s KEY_DIRTY q \<and> \<not> has s KEY_VOLATILE q \<and> kparent (keys s q) \<noteq> 0 \<and> kparent (keys s q) \<noteq> p \<longrightarrow>
        has s KEY_DIRTY (kparent (keys s q)))"

abbreviation dirty_up :: "registry \<Rightarrow> bool" where
  "dirty_up \<equiv> dirty_but 0"

definition volatile_down :: "registry \<Rightarrow> bool" where
  "volatile_down s =
     (\<forall>q. alive s q \<and> kparent (keys s q) \<noteq> 0 \<and> \<not> has s KEY_VOLATILE q \<longrightarrow> \<not> has s KEY_VOLATILE (kparent (keys s q)))"

lemma reg_inv_volatile: "reg_inv cm s \<Longrightarrow> volatile_down s"
  by (simp add: reg_inv_def volatile_down_def key_ok_def)

lemma volatile_down_same: "same s s' \<Longrightarrow> volatile_down s' = volatile_down s"
  unfolding volatile_down_def by (simp only: same_D)

lemma make_dirty_fuel_effect:
  assumes "chain_ok s" "p < next_key s" "p \<le> n"
  shows "\<exists>s'. make_dirty_fuel n s p = Some s' \<and> same s s' \<and> (volatile_down s \<and> dirty_but p s \<longrightarrow> dirty_up s') \<and>
    (p \<noteq> 0 \<and> \<not> has s KEY_VOLATILE p \<longrightarrow> has s' KEY_DIRTY p)"
  using assms
proof (induction n arbitrary: s p)
  case 0
  then show ?case by simp
next
  case (Suc n)
  show ?case
  proof (cases "p = 0 \<or> has s (KEY_DIRTY OR KEY_VOLATILE) p")
    case True
    have "dirty_up s" if "volatile_down s" "dirty_but p s"
      unfolding dirty_but_def
    proof (intro allI impI, elim conjE)
      fix q assume q: "0 < q" "q < next_key s" "has s KEY_DIRTY q" "\<not> has s KEY_VOLATILE q" "kparent (keys s q) \<noteq> 0"
      show "has s KEY_DIRTY (kparent (keys s q))"
      proof (cases "kparent (keys s q) = p")
        case eq: True
        then have "\<not> has s KEY_VOLATILE p" using that(1) q by (auto simp: volatile_down_def)
        then show ?thesis using True eq q(5) by (auto simp: flag_both)
      next
        case False
        then show ?thesis using that(2) q by (auto simp: dirty_but_def)
      qed
    qed
    then show ?thesis using True by (auto simp: flag_both)
  next
    case False
    let ?s = "set_key s p ((keys s p)\<lparr>kflags := kflags (keys s p) OR KEY_DIRTY\<rparr>)" and ?q = "get_parent s p"
    have same: "same s ?s" by (rule same_mark)
    have "?q < p" using Suc.prems False by (simp add: chain_ok_def get_parent_def)
    then have pre: "chain_ok ?s" "?q < next_key ?s" "?q \<le> n" using Suc.prems chain_ok_same[OF same] by simp_all
    from Suc.IH[OF this] obtain s' where s': "make_dirty_fuel n ?s ?q = Some s'" "same ?s s'"
      "volatile_down ?s \<and> dirty_but ?q ?s \<longrightarrow> dirty_up s'" by blast
    have "dirty_up s'" if "volatile_down s" "dirty_but p s"
    proof -
      have "dirty_but ?q ?s"
        unfolding dirty_but_def
      proof (intro allI impI, elim conjE)
        fix q assume q: "0 < q" "q < next_key ?s" "has ?s KEY_DIRTY q" "\<not> has ?s KEY_VOLATILE q" "kparent (keys ?s q) \<noteq> 0" "kparent (keys ?s q) \<noteq> ?q"
        have "q \<noteq> p" using q(6) by (auto simp: get_parent_def)
        then have "has s KEY_DIRTY q" "\<not> has s KEY_VOLATILE q" "kparent (keys s q) \<noteq> 0" using q(3-5) by simp_all
        then show "has ?s KEY_DIRTY (kparent (keys ?s q))"
          using that(2) q(1,2) \<open>q \<noteq> p\<close> by (cases "kparent (keys s q) = p") (auto simp: dirty_but_def)
      qed
      then show ?thesis using s'(3) that(1) volatile_down_same[OF same] by blast
    qed
    moreover have "has ?s KEY_DIRTY p" by simp
    then have "has s' KEY_DIRTY p" by (rule same_D(16)[OF s'(2)])
    ultimately show ?thesis using s'(1) same_trans[OF same s'(2)] False by auto
  qed
qed

lemma touch_key_effect:
  assumes "chain_ok s" "alive s p"
  shows "\<exists>s'. touch_key s p change = Some s' \<and> same s s' \<and> (volatile_down s \<and> dirty_but p s \<longrightarrow> dirty_up s') \<and>
    (\<not> has s KEY_VOLATILE p \<longrightarrow> has s' KEY_DIRTY p)"
proof -
  let ?s0 = "set_key s p ((keys s p)\<lparr>modif := now s\<rparr>)"
  have same0: "same s ?s0" by (simp add: same_def)
  have fl: "kflags (keys ?s0 q) = kflags (keys s q)" for q by simp
  have pre: "chain_ok ?s0" "p < next_key ?s0" "p \<le> next_key ?s0" using assms chain_ok_same[OF same0] by simp_all
  obtain s1 where 1: "make_dirty_fuel (next_key ?s0) ?s0 p = Some s1" "same ?s0 s1"
    "volatile_down ?s0 \<and> dirty_but p ?s0 \<longrightarrow> dirty_up s1" "p \<noteq> 0 \<and> \<not> has ?s0 KEY_VOLATILE p \<longrightarrow> has s1 KEY_DIRTY p"
    using make_dirty_fuel_effect[OF pre] by blast
  let ?s2 = "check_notify s1 p change True"
  have same2: "same s ?s2" using same_trans[OF same_trans[OF same0 1(2)] check_notify_same] .
  have "kparent (keys s p) < p" using assms by (simp add: chain_ok_def)
  then have "chain_ok ?s2" "get_parent s p < next_key ?s2" "get_parent s p \<le> next_key s"
    using assms chain_ok_same[OF same2] same_D(1)[OF same2] by (simp_all add: get_parent_def)
  from notify_parents_returns[OF this] obtain s' where s': "notify_parents (next_key s) ?s2 (get_parent s p) change = Some s'"
    "same ?s2 s'" "\<forall>q. kflags (keys s' q) = kflags (keys ?s2 q)" by blast
  have fl2: "kflags (keys s' q) = kflags (keys s1 q)" for q using s'(3) by (auto simp: check_notify_def split: prod.splits)
  have par: "kparent (keys s' q) = kparent (keys s1 q)" "next_key s' = next_key s1" for q
    using same_D(1,5)[OF s'(2)] same_D(1,5)[OF check_notify_same[of s1 p change True]] by simp_all
  have "dirty_up s'" if "volatile_down s" "dirty_but p s"
  proof -
    have "dirty_but p ?s0" using that(2) by (auto simp: dirty_but_def)
    then have "dirty_up s1" using 1(3) that(1) volatile_down_same[OF same0] by blast
    then show ?thesis unfolding dirty_but_def par fl2 .
  qed
  moreover have "touch_key s p change = Some s'" using 1(1) s'(1) by (simp add: touch_key_def make_dirty_def)
  moreover have "same s s'" using same_trans[OF same2 s'(2)] .
  moreover have "has s' KEY_DIRTY p" if "\<not> has s KEY_VOLATILE p" using 1(4) that assms(2) fl fl2 by simp
  ultimately show ?thesis by blast
qed

end
