(* ===== verification/Registry_Values.thy ===== *)
theory Registry_Values
  imports Registry_Tree
begin

text \<open>The values of a key: the operations keep the invariant and refine a map from names without case.\<close>

section \<open>The map of a key's values\<close>

definition values_of :: "(nat \<Rightarrow> nat) \<Rightarrow> registry \<Rightarrow> ptr \<Rightarrow> nat list \<Rightarrow> (u32 \<times> byte list) option" where
  "values_of cm s p name = map_option (\<lambda>v. (vtype v, vdata v)) (table (\<lambda>v. name_key cm (vname v)) (kvalues (keys s p)) name)"

lemma values_of_same: "same s s' \<Longrightarrow> values_of cm s' p = values_of cm s p"
  by (rule ext) (simp add: values_of_def same_D)

lemma find_value_spec:
  assumes "reg_inv cm s" "alive s p" "find_value cm (kvalues (keys s p)) name = (v, i)"
  shows "v = table (\<lambda>v. name_key cm (vname v)) (kvalues (keys s p)) (name_key cm name)"
    and "v = Some x \<Longrightarrow> i < length (kvalues (keys s p)) \<and> kvalues (keys s p) ! i = x \<and> name_key cm (vname x) = name_key cm name"
    and "v = None \<Longrightarrow> name_key cm (vname y) = name_key cm name \<Longrightarrow> ascending (\<lambda>v. name_key cm (vname v)) (insert_at i y (kvalues (keys s p)))"
proof -
  let ?vs = "kvalues (keys s p)"
  obtain b where b: "search_loop (\<lambda>i. name_cmp cm (vname (?vs ! i)) name) 0 (int (length ?vs) - 1) = (b, i)" "v = (if b then Some (?vs ! i) else None)"
    using assms(3) by (auto simp: find_value_def split: prod.splits if_splits)
  note sp = value_search.search_spec[OF reg_inv_D(5)[OF assms(1,2)] b(1)]
  show "v = table (\<lambda>v. name_key cm (vname v)) ?vs (name_key cm name)" using sp(1) b(2) by simp
  show "v = Some x \<Longrightarrow> i < length ?vs \<and> ?vs ! i = x \<and> name_key cm (vname x) = name_key cm name" using sp(2) b(2) by (auto split: if_splits)
  show "v = None \<Longrightarrow> name_key cm (vname y) = name_key cm name \<Longrightarrow> ascending (\<lambda>v. name_key cm (vname v)) (insert_at i y ?vs)"
    using sp(3)[of y] b(2) by (auto split: if_splits)
qed

lemma nth_insert_at: "i \<le> length xs \<Longrightarrow> insert_at i x xs ! i = x" "i \<le> length xs \<Longrightarrow> (insert_at i x xs)[i := y] = insert_at i y xs"
  by (simp_all add: insert_at_def nth_append list_update_append)

section \<open>Changes of the values\<close>

definition put_values :: "registry \<Rightarrow> ptr \<Rightarrow> key_value list \<Rightarrow> nat \<Rightarrow> registry" where
  "put_values s p vs nb = set_key s p ((keys s p)\<lparr>kvalues := vs, nb_values := nb\<rparr>)"

lemma put_values_fields [simp]:
  "kname (keys (put_values s p vs nb) q) = kname (keys s q)" "kparent (keys (put_values s p vs nb) q) = kparent (keys s q)"
  "subkeys (keys (put_values s p vs nb) q) = subkeys (keys s q)" "nb_subkeys (keys (put_values s p vs nb) q) = nb_subkeys (keys s q)"
  "wow6432node (keys (put_values s p vs nb) q) = wow6432node (keys s q)" "kflags (keys (put_values s p vs nb) q) = kflags (keys s q)"
  "next_key (put_values s p vs nb) = next_key s"
  "kvalues (keys (put_values s p vs nb) q) = (if q = p then vs else kvalues (keys s q))"
  "nb_values (keys (put_values s p vs nb) q) = (if q = p then nb else nb_values (keys s q))"
  by (simp_all add: put_values_def)

lemma reg_inv_put:
  "reg_inv cm s \<Longrightarrow> ascending (\<lambda>v. name_key cm (vname v)) vs \<Longrightarrow> array_ok MIN_VALUES (length vs) nb \<Longrightarrow> reg_inv cm (put_values s p vs nb)"
  by (simp add: reg_inv_def key_ok_def)

lemma put_values_twice: "put_values (put_values s p vs nb) p vs' nb' = put_values s p vs' nb'"
  by (simp add: put_values_def set_key_def)

lemma same_put: "same a b \<Longrightarrow> same (put_values a p vs nb) (put_values b p vs nb)"
proof -
  assume s: "same a b"
  have c: "core (k\<lparr>kvalues := vs, nb_values := nb\<rparr>) = (core k)\<lparr>kvalues := vs, nb_values := nb\<rparr>" for k by (cases k) (simp add: core_def)
  show ?thesis using s unfolding same_def put_values_def by (simp add: c)
qed

lemma put_values_chain [simp]:
  "chain_ok (put_values s p vs nb) = chain_ok s" "volatile_down (put_values s p vs nb) = volatile_down s" "dirty_but q (put_values s p vs nb) = dirty_but q s"
  by (simp_all add: chain_ok_def volatile_down_def dirty_but_def)

text \<open>What an operation on values leaves alone, and that a change marks the key and all keys above it.\<close>

definition only_values :: "registry \<Rightarrow> ptr \<Rightarrow> registry \<Rightarrow> bool" where
  "only_values s p s' = (\<exists>vs nb. same (put_values s p vs nb) s')"

lemma only_values_same: "only_values s p s"
  unfolding only_values_def by (intro exI[of _ "kvalues (keys s p)"] exI[of _ "nb_values (keys s p)"]) (simp add: put_values_def same_def core_def)

lemma values_of_put: "values_of cm (put_values s p vs nb) p = (\<lambda>n. map_option (\<lambda>v. (vtype v, vdata v)) (table (\<lambda>v. name_key cm (vname v)) vs n))"
  by (rule ext) (simp add: values_of_def)

lemma only_values_others: "only_values s p s' \<Longrightarrow> q \<noteq> p \<Longrightarrow> values_of cm s' q = values_of cm s q"
  unfolding only_values_def using values_of_same[of "put_values s p _ _" s' cm q] by (auto simp: values_of_def)

text \<open>A change followed by the marks and notifications.\<close>

lemma put_and_touch:
  assumes "reg_inv cm s" "alive s p" "ascending (\<lambda>v. name_key cm (vname v)) vs" "array_ok MIN_VALUES (length vs) nb"
  shows "\<exists>s'. touch_key (put_values s p vs nb) p change = Some s' \<and> same (put_values s p vs nb) s' \<and> reg_inv cm s' \<and>
    (dirty_up s \<longrightarrow> dirty_up s') \<and> (\<not> has s KEY_VOLATILE p \<longrightarrow> has s' KEY_DIRTY p)"
proof -
  let ?s = "put_values s p vs nb"
  have "chain_ok ?s" "alive ?s p" using reg_inv_chain[OF assms(1)] assms(2) by simp_all
  from touch_key_effect[OF this, of change] obtain s' where s': "touch_key ?s p change = Some s'" "same ?s s'"
    "volatile_down ?s \<and> dirty_but p ?s \<longrightarrow> dirty_up s'" "\<not> has ?s KEY_VOLATILE p \<longrightarrow> has s' KEY_DIRTY p" by blast
  have "reg_inv cm s'" using reg_inv_same[OF s'(2)] reg_inv_put[OF assms(1,3,4)] by simp
  moreover have "dirty_up s \<longrightarrow> dirty_up s'" using s'(3) reg_inv_volatile[OF assms(1)] by (auto simp: dirty_but_def)
  ultimately show ?thesis using s' by auto
qed

lemma insert_value_effect:
  assumes "reg_inv cm s" "alive s p" "fst (find_value cm (kvalues (keys s p)) name) = None" "snd (find_value cm (kvalues (keys s p)) name) = i"
  shows "\<exists>vs nb err. insert_value E s p name i = (put_values s p vs nb, err) \<and> array_ok MIN_VALUES (length vs) nb \<and>
    vs = (if err = None then insert_at i \<lparr>vname = name, vtype = REG_NONE, vdata = []\<rparr> (kvalues (keys s p)) else kvalues (keys s p))"
proof -
  let ?vs = "kvalues (keys s p)" and ?nb = "nb_values (keys s p)" and ?v = "\<lparr>vname = name, vtype = REG_NONE, vdata = []\<rparr>"
  let ?n = "if ?nb \<noteq> 0 then ?nb + ?nb div 2 else MIN_VALUES"
  have ar: "array_ok MIN_VALUES (length ?vs) ?nb" by (rule reg_inv_D(6)[OF assms(1,2)])
  have id: "s = put_values s p ?vs ?nb" by (simp add: put_values_def set_key_def)
  have g: "grow_values E s p = (if can_grow E ?n then (put_values s p ?vs ?n, None) else (s, Some STATUS_NO_MEMORY))"
    by (simp add: grow_values_def put_values_def Let_def)
  have room: "array_ok MIN_VALUES (Suc (length ?vs)) ?n" if "length ?vs = ?nb"
    using ar that by (auto simp: array_ok_def MIN_VALUES_def)
  have room': "array_ok MIN_VALUES (Suc (length ?vs)) ?nb" if "length ?vs \<noteq> ?nb" using ar that by (auto simp: array_ok_def)
  have ins: "set_key (put_values s p ?vs n) p ((keys (put_values s p ?vs n) p)\<lparr>kvalues := insert_at i ?v (kvalues (keys (put_values s p ?vs n) p))\<rparr>) =
    put_values s p (insert_at i ?v ?vs) n" for n
    by (cases "keys s p") (simp add: put_values_def set_key_def)
  have arn: "array_ok MIN_VALUES (length ?vs) ?n" if "length ?vs = ?nb" using ar that by (auto simp: array_ok_def MIN_VALUES_def)
  show ?thesis
  proof (cases "length name > MAX_VALUE_LEN")
    case True
    then show ?thesis using id ar by (intro exI[of _ ?vs] exI[of _ ?nb] exI[of _ "Some STATUS_NAME_TOO_LONG"]) (simp add: insert_value_def)
  next
    case False
    show ?thesis
    proof (cases "length ?vs = ?nb")
      case full: True
      show ?thesis
      proof (cases "can_grow E ?n")
        case no: False
        then show ?thesis using False full id ar
          by (intro exI[of _ ?vs] exI[of _ ?nb] exI[of _ "Some STATUS_NO_MEMORY"]) (simp add: insert_value_def g)
      next
        case yes: True
        show ?thesis
        proof (cases "name \<noteq> [] \<and> \<not> can_copy E (2 * length name)")
          case True
          then show ?thesis using False full yes arn
            by (intro exI[of _ ?vs] exI[of _ ?n] exI[of _ "Some STATUS_NO_MEMORY"]) (simp add: insert_value_def g)
        next
          case ok: False
          have "insert_value E s p name i = (put_values s p (insert_at i ?v ?vs) ?n, None)"
            using False full yes ok ins[of ?n] by (simp add: insert_value_def g)
          then show ?thesis using room[OF full] by (intro exI[of _ "insert_at i ?v ?vs"] exI[of _ ?n] exI[of _ None]) simp
        qed
      qed
    next
      case part: False
      show ?thesis
      proof (cases "name \<noteq> [] \<and> \<not> can_copy E (2 * length name)")
        case True
        then show ?thesis using False part id ar
          by (intro exI[of _ ?vs] exI[of _ ?nb] exI[of _ "Some STATUS_NO_MEMORY"]) (simp add: insert_value_def)
      next
        case ok: False
        have "insert_value E s p name i = (put_values s p (insert_at i ?v ?vs) ?nb, None)"
          using False part ok ins[of ?nb] id by (simp add: insert_value_def)
        then show ?thesis using room'[OF part] by (intro exI[of _ "insert_at i ?v ?vs"] exI[of _ ?nb] exI[of _ None]) simp
      qed
    qed
  qed
qed

text \<open>The data and type are written to the new value, or to the one that was found.\<close>

definition value_put :: "(nat \<Rightarrow> nat) \<Rightarrow> registry \<Rightarrow> ptr \<Rightarrow> nat list \<Rightarrow> u32 \<Rightarrow> byte list \<Rightarrow> registry \<Rightarrow> bool" where
  "value_put cm s p n type data s' =
     (\<exists>vs nb y. s' = put_values s p vs nb \<and> ascending (\<lambda>v. name_key cm (vname v)) vs \<and> array_ok MIN_VALUES (length vs) nb \<and>
        table (\<lambda>v. name_key cm (vname v)) vs = (table (\<lambda>v. name_key cm (vname v)) (kvalues (keys s p)))(n \<mapsto> y) \<and> vtype y = type \<and> vdata y = data)"

lemma write_new_value:
  assumes inv: "reg_inv cm s" and p: "alive s p" and f: "find_value cm (kvalues (keys s p)) name = (None, i)"
    and ins: "insert_value E s p name i = (s1, None)"
  shows "value_put cm s p (name_key cm name) type data (write_value s1 p i type data)"
proof -
  let ?vs = "kvalues (keys s p)" and ?k = "\<lambda>v. name_key cm (vname v)" and ?y = "\<lparr>vname = name, vtype = type, vdata = data\<rparr>"
  note asc = reg_inv_D(5)[OF inv p]
  obtain vs nb where vs: "s1 = put_values s p vs nb" "array_ok MIN_VALUES (length vs) nb" "vs = insert_at i \<lparr>vname = name, vtype = REG_NONE, vdata = []\<rparr> ?vs"
    using insert_value_effect[OF inv p, of name i E] f ins by auto
  have a: "ascending ?k (insert_at i ?y ?vs)" by (rule find_value_spec(3)[OF inv p f refl]) simp
  have le: "i \<le> length ?vs"
  proof -
    obtain b where b: "search_loop (\<lambda>i. name_cmp cm (vname (?vs ! i)) name) 0 (int (length ?vs) - 1) = (b, i)" "\<not> b"
      using f by (auto simp: find_value_def split: prod.splits if_splits)
    then show ?thesis using value_search.loop_spec[OF asc _ _ _ _ _ _ b(1)] by auto
  qed
  have "write_value s1 p i type data = put_values s p (insert_at i ?y ?vs) nb"
    unfolding vs(1) using vs(3) nth_insert_at[OF le] by (cases "keys s p") (simp add: write_value_def put_values_def set_key_def)
  moreover have "array_ok MIN_VALUES (length (insert_at i ?y ?vs)) nb" using vs(2,3) by simp
  moreover have "table ?k (insert_at i ?y ?vs) = (table ?k ?vs)(name_key cm name \<mapsto> ?y)" using table_insert[OF a asc] by simp
  ultimately show ?thesis unfolding value_put_def using a by (intro exI[of _ "insert_at i ?y ?vs"] exI[of _ nb] exI[of _ ?y]) simp
qed

lemma write_found_value:
  assumes inv: "reg_inv cm s" and p: "alive s p" and f: "find_value cm (kvalues (keys s p)) name = (Some x, i)"
  shows "value_put cm s p (name_key cm name) type data (write_value s p i type data)"
proof -
  let ?vs = "kvalues (keys s p)" and ?k = "\<lambda>v. name_key cm (vname v)" and ?y = "x\<lparr>vtype := type, vdata := data\<rparr>"
  have i: "i < length ?vs" "?vs ! i = x" "name_key cm (vname x) = name_key cm name" using find_value_spec(2)[OF inv p f refl] by simp_all
  have u: "ascending ?k (?vs[i := ?y]) \<and> table ?k (?vs[i := ?y]) = (table ?k ?vs)(name_key cm (vname ?y) \<mapsto> ?y)"
    using table_update[OF reg_inv_D(5)[OF inv p] i(1), of ?y] i(2) by simp
  have "write_value s p i type data = put_values s p (?vs[i := ?y]) (nb_values (keys s p))"
    using i(2) by (simp add: write_value_def put_values_def)
  then show ?thesis unfolding value_put_def using u i(3) reg_inv_D(6)[OF inv p]
    by (intro exI[of _ "?vs[i := ?y]"] exI[of _ "nb_values (keys s p)"] exI[of _ ?y]) simp
qed

lemma value_put_D:
  assumes "value_put cm s p n type data s'" "reg_inv cm s"
  shows "reg_inv cm s'" "values_of cm s' p = (values_of cm s p)(n \<mapsto> (type, data))" "only_values s p s'"
proof -
  obtain vs nb y where v: "s' = put_values s p vs nb" "ascending (\<lambda>v. name_key cm (vname v)) vs" "array_ok MIN_VALUES (length vs) nb"
    "table (\<lambda>v. name_key cm (vname v)) vs = (table (\<lambda>v. name_key cm (vname v)) (kvalues (keys s p)))(n \<mapsto> y)" "vtype y = type" "vdata y = data"
    using assms(1) unfolding value_put_def by blast
  show "reg_inv cm s'" unfolding v(1) by (rule reg_inv_put[OF assms(2) v(2,3)])
  show "values_of cm s' p = (values_of cm s p)(n \<mapsto> (type, data))"
    unfolding v(1) using v(4-6) by (rule_tac ext) (simp add: values_of_put values_of_def)
  show "only_values s p s'" unfolding v(1) only_values_def using same_refl by blast
qed

section \<open>Setting, reading and deleting a value\<close>

text \<open>What is known of a run that ends without and with an error.\<close>

lemma set_value_writes:
  assumes "find_value cm (kvalues (keys s p)) name = (v, i)" "\<not> has s KEY_PREDEF p"
    "\<not> (case v of None \<Rightarrow> False | Some x \<Rightarrow> vtype x = type \<and> vdata x = data \<and> data \<noteq> [])"
    "\<not> (has s KEY_SYMLINK p \<and> (type \<noteq> REG_LINK \<or> length name \<noteq> length symlink_str \<or> memicmp_strW cm name symlink_str \<noteq> 0))"
    "\<not> (data \<noteq> [] \<and> \<not> can_copy E (length data))"
  shows "set_value cm E s p name type data =
    (case (case v of None \<Rightarrow> insert_value E s p name i | Some _ \<Rightarrow> (s, None)) of
       (s1, Some e) \<Rightarrow> Some (s1, Some e)
     | (s1, None) \<Rightarrow> map_option (\<lambda>s2. (s2, None)) (touch_key (write_value s1 p i type data) p REG_NOTIFY_CHANGE_LAST_SET))"
  unfolding set_value_def assms(1) Let_def prod.case
  by (simp only: assms(2-5) simp_thms if_False split: prod.splits)

lemma set_value_effect:
  assumes inv: "reg_inv cm s" and p: "alive s p"
  shows "\<exists>s' err. set_value cm E s p name type data = Some (s', err) \<and> reg_inv cm s' \<and> only_values s p s' \<and>
    values_of cm s' p = (if err = None then (values_of cm s p)(name_key cm name \<mapsto> (type, data)) else values_of cm s p) \<and>
    (dirty_up s \<longrightarrow> dirty_up s') \<and>
    (values_of cm s' p \<noteq> values_of cm s p \<longrightarrow> has s KEY_VOLATILE p \<or> has s' KEY_DIRTY p)"
proof -
  let ?vs = "kvalues (keys s p)" and ?k = "\<lambda>v. name_key cm (vname v)"
  obtain v i where f: "find_value cm ?vs name = (v, i)" by (cases "find_value cm ?vs name")
  note sp = find_value_spec[OF inv p f]
  have asc: "ascending ?k ?vs" and ar: "array_ok MIN_VALUES (length ?vs) (nb_values (keys s p))" using reg_inv_D(5,6)[OF inv p] .
  have keep: "\<exists>s' err. r = Some (s', err) \<and> reg_inv cm s' \<and> only_values s p s' \<and>
      values_of cm s' p = (if err = None then (values_of cm s p)(name_key cm name \<mapsto> (type, data)) else values_of cm s p) \<and>
      (dirty_up s \<longrightarrow> dirty_up s') \<and> (values_of cm s' p \<noteq> values_of cm s p \<longrightarrow> has s KEY_VOLATILE p \<or> has s' KEY_DIRTY p)"
    if "r = Some (s, Some e)" for r e using that inv only_values_same by auto
  let ?refused = "kflags (keys s p) AND KEY_SYMLINK \<noteq> 0 \<and>
    (type \<noteq> REG_LINK \<or> length name \<noteq> length symlink_str \<or> memicmp_strW cm name symlink_str \<noteq> 0)"
  let ?same = "case v of None \<Rightarrow> False | Some x \<Rightarrow> vtype x = type \<and> vdata x = data \<and> data \<noteq> []"
  consider "has s KEY_PREDEF p" | "\<not> has s KEY_PREDEF p" "?same" | "\<not> has s KEY_PREDEF p" "\<not> ?same" "?refused"
    | "\<not> has s KEY_PREDEF p" "\<not> ?same" "\<not> ?refused" "data \<noteq> [] \<and> \<not> can_copy E (length data)"
    | "\<not> has s KEY_PREDEF p" "\<not> ?same" "\<not> ?refused" "\<not> (data \<noteq> [] \<and> \<not> can_copy E (length data))" by blast
  then show ?thesis
  proof cases
    case 1
    then show ?thesis by (intro keep) (simp add: set_value_def f)
  next
    case 2
    then obtain x where x: "v = Some x" "vtype x = type" "vdata x = data" by (auto split: option.splits)
    have "values_of cm s p (name_key cm name) = Some (type, data)" using x sp(1)[symmetric] by (simp add: values_of_def)
    then have "(values_of cm s p)(name_key cm name \<mapsto> (type, data)) = values_of cm s p" by auto
    moreover have "set_value cm E s p name type data = Some (s, None)" using 2 by (simp add: set_value_def f)
    ultimately show ?thesis using inv only_values_same by (intro exI[of _ s] exI[of _ None]) auto
  next
    case 3
    then show ?thesis by (intro keep) (simp add: set_value_def f)
  next
    case 4
    then have "set_value cm E s p name type data = Some (s, Some STATUS_NO_MEMORY)" by (simp add: set_value_def f)
    then show ?thesis by (rule keep)
  next
    case 5
    have change: "\<exists>s' err. set_value cm E s p name type data = Some (s', err) \<and> reg_inv cm s' \<and> only_values s p s' \<and>
        values_of cm s' p = (if err = None then (values_of cm s p)(name_key cm name \<mapsto> (type, data)) else values_of cm s p) \<and>
        (dirty_up s \<longrightarrow> dirty_up s') \<and> (values_of cm s' p \<noteq> values_of cm s p \<longrightarrow> has s KEY_VOLATILE p \<or> has s' KEY_DIRTY p)"
      if w: "value_put cm s p (name_key cm name) type data (write_value s1 p i type data)"
        and run: "set_value cm E s p name type data =
          map_option (\<lambda>s2. (s2, None)) (touch_key (write_value s1 p i type data) p REG_NOTIFY_CHANGE_LAST_SET)" for s1
    proof -
      obtain vs nb where v: "write_value s1 p i type data = put_values s p vs nb" "ascending ?k vs" "array_ok MIN_VALUES (length vs) nb"
        using w unfolding value_put_def by blast
      obtain s' where s': "touch_key (put_values s p vs nb) p REG_NOTIFY_CHANGE_LAST_SET = Some s'" "same (put_values s p vs nb) s'"
        "reg_inv cm s'" "dirty_up s \<longrightarrow> dirty_up s'" "\<not> has s KEY_VOLATILE p \<longrightarrow> has s' KEY_DIRTY p"
        using put_and_touch[OF inv p v(2,3)] by blast
      have "values_of cm s' p = (values_of cm s p)(name_key cm name \<mapsto> (type, data))"
        using value_put_D(2)[OF w inv] unfolding v(1) by (simp add: values_of_same[OF s'(2)])
      moreover have "only_values s p s'" using s'(2) by (auto simp: only_values_def)
      ultimately show ?thesis using s' run v(1) by auto
    qed
    show ?thesis
    proof (cases v)
      case None
      obtain vs nb err where ins: "insert_value E s p name i = (put_values s p vs nb, err)" "array_ok MIN_VALUES (length vs) nb"
        "vs = (if err = None then insert_at i \<lparr>vname = name, vtype = REG_NONE, vdata = []\<rparr> ?vs else ?vs)"
        using insert_value_effect[OF inv p, of name i E] f None by auto
      show ?thesis
      proof (cases err)
        case (Some e)
        have "set_value cm E s p name type data = Some (put_values s p vs nb, Some e)"
          using set_value_writes[OF f 5] ins(1) None Some by simp
        moreover have "values_of cm (put_values s p vs nb) p = values_of cm s p" using ins(3) Some by (rule_tac ext) (simp add: values_of_put values_of_def)
        moreover have "only_values s p (put_values s p vs nb)" unfolding only_values_def using same_refl by blast
        moreover have "reg_inv cm (put_values s p vs nb)" using reg_inv_put[OF inv _ ins(2)] ins(3) Some asc by simp
        ultimately show ?thesis by (intro exI[of _ "put_values s p vs nb"] exI[of _ "Some e"]) simp
      next
        case err: None
        have "set_value cm E s p name type data =
            map_option (\<lambda>s2. (s2, None)) (touch_key (write_value (put_values s p vs nb) p i type data) p REG_NOTIFY_CHANGE_LAST_SET)"
          using set_value_writes[OF f 5] ins(1) None err by simp
        then show ?thesis using write_new_value[OF inv p f[unfolded None] ins(1)[unfolded err]] by (rule change[rotated])
      qed
    next
      case (Some x)
      have "set_value cm E s p name type data =
          map_option (\<lambda>s2. (s2, None)) (touch_key (write_value s p i type data) p REG_NOTIFY_CHANGE_LAST_SET)"
        using set_value_writes[OF f 5] Some by simp
      then show ?thesis using write_found_value[OF inv p f[unfolded Some]] by (rule change[rotated])
    qed
  qed
qed

lemma get_value_effect:
  assumes "reg_inv cm s" "alive s p"
  shows "get_value cm s p name room =
    (if has s KEY_PREDEF p then Inl STATUS_INVALID_HANDLE
     else case values_of cm s p (name_key cm name) of
            None \<Rightarrow> Inl STATUS_OBJECT_NAME_NOT_FOUND
          | Some (type, data) \<Rightarrow> Inr (type, length data, take room data))"
proof -
  obtain v i where f: "find_value cm (kvalues (keys s p)) name = (v, i)" by (cases "find_value cm (kvalues (keys s p)) name")
  then show ?thesis using find_value_spec(1)[OF assms f, symmetric] by (cases v) (auto simp: get_value_def values_of_def)
qed

lemma delete_value_effect:
  assumes inv: "reg_inv cm s" and p: "alive s p"
  shows "\<exists>s' err. delete_value cm E s p name = Some (s', err) \<and> reg_inv cm s' \<and> only_values s p s' \<and>
    values_of cm s' p = (if err = None then (values_of cm s p)(name_key cm name := None) else values_of cm s p) \<and>
    err = (if has s KEY_PREDEF p then Some STATUS_INVALID_HANDLE
           else if values_of cm s p (name_key cm name) = None then Some STATUS_OBJECT_NAME_NOT_FOUND else None) \<and>
    (dirty_up s \<longrightarrow> dirty_up s') \<and>
    (values_of cm s' p \<noteq> values_of cm s p \<longrightarrow> has s KEY_VOLATILE p \<or> has s' KEY_DIRTY p)"
proof -
  let ?vs = "kvalues (keys s p)" and ?k = "\<lambda>v. name_key cm (vname v)" and ?nb = "nb_values (keys s p)"
  obtain v i where f: "find_value cm ?vs name = (v, i)" by (cases "find_value cm ?vs name")
  note sp = find_value_spec[OF inv p f]
  show ?thesis
  proof (cases "has s KEY_PREDEF p \<or> v = None")
    case True
    have "values_of cm s p (name_key cm name) = None" if "v = None" using sp(1) that by (simp add: values_of_def)
    then show ?thesis using True inv only_values_same by (auto simp: delete_value_def f split: option.splits)
  next
    case False
    then obtain x where x: "v = Some x" by auto
    have i: "i < length ?vs" "?vs ! i = x" "name_key cm (vname x) = name_key cm name" using sp(2)[OF x] by simp_all
    let ?ws = "remove_at i ?vs"
    have asc: "ascending ?k ?ws" using ascending_remove[OF reg_inv_D(5)[OF inv p]] .
    have ar: "array_ok MIN_VALUES (length ?ws) ?nb" using reg_inv_D(6)[OF inv p] i(1) by (auto simp: array_ok_def)
    obtain s1 where s1: "touch_key (put_values s p ?ws ?nb) p REG_NOTIFY_CHANGE_LAST_SET = Some s1" "same (put_values s p ?ws ?nb) s1"
      "reg_inv cm s1" "dirty_up s \<longrightarrow> dirty_up s1" "\<not> has s KEY_VOLATILE p \<longrightarrow> has s1 KEY_DIRTY p"
      using put_and_touch[OF inv p asc ar] by blast
    have e: "set_key s p ((keys s p)\<lparr>kvalues := ?ws\<rparr>) = put_values s p ?ws ?nb" by (simp add: put_values_def)
    let ?n = "shrink_array E MIN_VALUES (length ?ws) ?nb"
    let ?s2 = "put_values s1 p ?ws ?n"
    have vs1: "kvalues (keys s1 p) = ?ws" "nb_values (keys s1 p) = ?nb" using same_D(9,10)[OF s1(2), of p] by simp_all
    have w: "set_key s1 p ((keys s1 p)\<lparr>nb_values := ?n\<rparr>) = ?s2" using vs1(1) by (cases "keys s1 p") (simp add: put_values_def)
    have run: "delete_value cm E s p name = Some (?s2, None)"
      using False f x s1(1) vs1 w unfolding e[symmetric] by (simp add: delete_value_def)
    have arn: "array_ok MIN_VALUES (length ?ws) ?n" using ar by (auto simp: array_ok_def shrink_array_def Let_def max_def)
    have inv2: "reg_inv cm ?s2" by (rule reg_inv_put[OF s1(3) asc arn])
    have same2: "same (put_values s p ?ws ?n) ?s2"
      using same_put[OF s1(2), of p ?ws ?n] by (simp add: put_values_twice)
    have val: "values_of cm ?s2 p = (values_of cm s p)(name_key cm name := None)"
      using table_remove[OF reg_inv_D(5)[OF inv p] i(1)] i(2,3) by (rule_tac ext) (simp add: values_of_put values_of_def)
    have "values_of cm s p (name_key cm name) \<noteq> None" using x sp(1)[symmetric] by (simp add: values_of_def)
    then have err: "None = (if has s KEY_PREDEF p then Some STATUS_INVALID_HANDLE
        else if values_of cm s p (name_key cm name) = None then Some STATUS_OBJECT_NAME_NOT_FOUND else None)" using False by simp
    have ov: "only_values s p ?s2" unfolding only_values_def using same2 by blast
    have du: "dirty_up s \<longrightarrow> dirty_up ?s2" using s1(4) by simp
    have di: "\<not> has s KEY_VOLATILE p \<longrightarrow> has ?s2 KEY_DIRTY p" using s1(5) by simp
    have val': "values_of cm ?s2 p = (if (None :: status option) = None then (values_of cm s p)(name_key cm name := None) else values_of cm s p)" using val by simp
    have di': "values_of cm ?s2 p \<noteq> values_of cm s p \<longrightarrow> has s KEY_VOLATILE p \<or> has ?s2 KEY_DIRTY p" using di by blast
    show ?thesis by (rule exI[of _ ?s2], rule exI[of _ None], intro conjI) (rule run inv2 ov val' err du di')+
  qed
qed

end
