(* ===== verification/Registry_Keys.thy ===== *)
theory Registry_Keys
  imports Registry_Values
begin

text \<open>Creating, renaming and deleting keys: the tree keeps its shape, and the subkeys of a key are a map from names without case.\<close>

section \<open>The map of a key's subkeys\<close>

definition children_of :: "(nat \<Rightarrow> nat) \<Rightarrow> registry \<Rightarrow> ptr \<Rightarrow> nat list \<Rightarrow> ptr option" where
  "children_of cm s p = table (\<lambda>c. name_key cm (kname (keys s c))) (subkeys (keys s p))"

lemma children_of_same: "same s s' \<Longrightarrow> children_of cm s' p = children_of cm s p"
  by (simp add: children_of_def same_D)

lemma table_cong: "(\<And>x. x \<in> set xs \<Longrightarrow> f x = g x) \<Longrightarrow> table f xs = table g xs"
  unfolding table_def by (rule arg_cong[where f = map_of], rule map_cong) simp_all

lemma ascending_cong: "(\<And>x. x \<in> set xs \<Longrightarrow> f x = g x) \<Longrightarrow> ascending f xs = ascending g xs"
  by (rule arg_cong[where f = "sorted_wrt (<)"], rule map_cong) simp_all

lemma map_at: "map f (insert_at i x xs) = insert_at i (f x) (map f xs)" "map f (remove_at i xs) = remove_at i (map f xs)"
  by (simp_all add: insert_at_def remove_at_def take_map drop_map)

lemma find_subkey_spec:
  assumes "reg_inv cm s" "alive s p" "find_subkey cm s p name = (c, i)"
  shows "c = children_of cm s p (name_key cm name)"
    and "c = Some k \<Longrightarrow> k \<in> set (subkeys (keys s p)) \<and> name_key cm (kname (keys s k)) = name_key cm name"
    and "c = None \<Longrightarrow> i \<le> length (subkeys (keys s p)) \<and>
      sorted_wrt (<) (insert_at i (name_key cm name) (map (\<lambda>c. name_key cm (kname (keys s c))) (subkeys (keys s p))))"
proof -
  let ?ks = "subkeys (keys s p)"
  obtain b where b: "search_loop (\<lambda>i. name_cmp cm (kname (keys s (?ks ! i))) name) 0 (int (length ?ks) - 1) = (b, i)"
    "c = (if b then Some (?ks ! i) else None)"
    using assms(3) by (auto simp: find_subkey_def Let_def split: prod.splits if_splits)
  note asc = reg_inv_D(3)[OF assms(1,2)]
  note sp = child_search.search_spec[OF asc b(1)]
  show "c = children_of cm s p (name_key cm name)" using sp(1) b(2) by (simp add: children_of_def)
  show "c = Some k \<Longrightarrow> k \<in> set ?ks \<and> name_key cm (kname (keys s k)) = name_key cm name" using sp(2) b(2) by (auto split: if_splits)
  show "c = None \<Longrightarrow> i \<le> length ?ks \<and> sorted_wrt (<) (insert_at i (name_key cm name) (map (\<lambda>c. name_key cm (kname (keys s c))) ?ks))"
    using child_search.search_gap[OF asc, of name i] b by (auto split: if_splits)
qed

lemma subkeys_iff:
  assumes "reg_inv cm s" "alive s p"
  shows "c \<in> set (subkeys (keys s p)) \<longleftrightarrow> alive s c \<and> kparent (keys s c) = p"
  using reg_inv_D(2)[OF assms, of c] reg_inv_D(7)[OF assms(1), of c] assms(2) by auto

lemma subkeys_distinct: "reg_inv cm s \<Longrightarrow> alive s p \<Longrightarrow> distinct (subkeys (keys s p))"
  using ascending_distinct[OF reg_inv_D(3)] by (auto simp: distinct_map)

section \<open>Attaching a key\<close>

definition put_subkeys :: "registry \<Rightarrow> ptr \<Rightarrow> ptr list \<Rightarrow> nat \<Rightarrow> ptr \<Rightarrow> registry" where
  "put_subkeys s p ks nb w = set_key s p ((keys s p)\<lparr>subkeys := ks, nb_subkeys := nb, wow6432node := w\<rparr>)"

lemma put_subkeys_fields [simp]:
  "kname (keys (put_subkeys s p ks nb w) q) = kname (keys s q)" "kparent (keys (put_subkeys s p ks nb w) q) = kparent (keys s q)"
  "kvalues (keys (put_subkeys s p ks nb w) q) = kvalues (keys s q)" "nb_values (keys (put_subkeys s p ks nb w) q) = nb_values (keys s q)"
  "kflags (keys (put_subkeys s p ks nb w) q) = kflags (keys s q)" "next_key (put_subkeys s p ks nb w) = next_key s" "now (put_subkeys s p ks nb w) = now s"
  "subkeys (keys (put_subkeys s p ks nb w) q) = (if q = p then ks else subkeys (keys s q))"
  "nb_subkeys (keys (put_subkeys s p ks nb w) q) = (if q = p then nb else nb_subkeys (keys s q))"
  "wow6432node (keys (put_subkeys s p ks nb w) q) = (if q = p then w else wow6432node (keys s q))"
  by (simp_all add: put_subkeys_def)

lemma put_subkeys_id: "put_subkeys s p (subkeys (keys s p)) (nb_subkeys (keys s p)) (wow6432node (keys s p)) = s"
  by (simp add: put_subkeys_def set_key_def)

text \<open>The parent's array may be larger and its mark for the Wow6432Node may be gone.\<close>

lemma reg_inv_room:
  assumes "reg_inv cm s" "array_ok MIN_SUBKEYS (length (subkeys (keys s p))) nb" "w = 0 \<or> w = wow6432node (keys s p)"
  shows "reg_inv cm (put_subkeys s p (subkeys (keys s p)) nb w)"
  unfolding reg_inv_def
proof (intro allI impI)
  fix q assume q: "alive (put_subkeys s p (subkeys (keys s p)) nb w) q"
  then have "key_ok cm s q" using assms(1) by (simp add: reg_inv_def)
  then show "key_ok cm (put_subkeys s p (subkeys (keys s p)) nb w) q" using assms(2,3) by (cases "q = p") (auto simp: key_ok_def)
qed

text \<open>The names that keys have after one of them got a name and went into the array of another.\<close>

lemma named_insert:
  assumes "sorted_wrt (<) (insert_at i (f k) (map g ks))" "\<And>x. x \<in> set ks \<Longrightarrow> f x = g x" "ascending g ks"
  shows "ascending f (insert_at i k ks)" "table f (insert_at i k ks) = (table g ks)(f k \<mapsto> k)"
proof -
  have m: "map f ks = map g ks" using assms(2) by simp
  show a: "ascending f (insert_at i k ks)" using assms(1) by (simp add: map_at m)
  have "ascending f ks" unfolding m by (rule assms(3))
  from table_insert[OF a this] table_cong[of ks f g, OF assms(2)]
  show "table f (insert_at i k ks) = (table g ks)(f k \<mapsto> k)" by simp
qed

definition attached :: "registry \<Rightarrow> ptr \<Rightarrow> ptr list \<Rightarrow> nat \<Rightarrow> ptr \<Rightarrow> ptr \<Rightarrow> key \<Rightarrow> registry" where
  "attached s p ks nb w k new = (set_key (put_subkeys s p ks nb w) k new)\<lparr>next_key := Suc (next_key s)\<rparr>"

lemma attached_keys:
  "next_key (attached s p ks nb w k new) = Suc (next_key s)" "now (attached s p ks nb w k new) = now s"
  "keys (attached s p ks nb w k new) k = new"
  "q \<noteq> k \<Longrightarrow> keys (attached s p ks nb w k new) q = keys (put_subkeys s p ks nb w) q"
  by (simp_all add: attached_def set_key_def)

lemma reg_inv_attached:
  assumes inv: "reg_inv cm s" and p: "alive s p" "\<not> has s KEY_DELETED p" and k: "k = next_key s"
    and new: "kname new = name" "kparent new = p" "subkeys new = []" "nb_subkeys new = 0" "wow6432node new = 0" "kvalues new = []" "nb_values new = 0"
      "kflags new AND KEY_DELETED = 0" "kflags new AND KEY_VOLATILE = 0 \<longrightarrow> \<not> has s KEY_VOLATILE p"
    and i: "sorted_wrt (<) (insert_at i (name_key cm name) (map (\<lambda>c. name_key cm (kname (keys s c))) (subkeys (keys s p))))"
    and nb: "array_ok MIN_SUBKEYS (Suc (length (subkeys (keys s p)))) nb" and w: "w = k \<or> w = wow6432node (keys s p)"
  shows "reg_inv cm (attached s p (insert_at i k (subkeys (keys s p))) nb w k new)" (is "reg_inv cm ?s")
  and "children_of cm (attached s p (insert_at i k (subkeys (keys s p))) nb w k new) p = (children_of cm s p)(name_key cm name \<mapsto> k)"
proof -
  let ?ks = "subkeys (keys s p)"
  note at = attached_keys[where s = s and p = p and ks = "insert_at i k ?ks" and nb = nb and w = w and k = k and new = new]
  have old: "c \<noteq> k" if "c \<in> set (subkeys (keys s q))" "alive s q" for c q using reg_inv_D(2)[OF inv that(2,1)] k by simp
  have pk: "p \<noteq> k" "0 < k" using p k by auto
  have fk: "name_key cm (kname (keys ?s k)) = name_key cm name" using at(3) new(1) by simp
  have fo: "name_key cm (kname (keys ?s c)) = name_key cm (kname (keys s c))" if "c \<noteq> k" for c using at(4)[OF that] by simp
  have f: "\<And>x. x \<in> set ?ks \<Longrightarrow> name_key cm (kname (keys ?s x)) = name_key cm (kname (keys s x))" using fo old p(1) by blast
  note ins = named_insert[of i "\<lambda>c. name_key cm (kname (keys ?s c))" k "\<lambda>c. name_key cm (kname (keys s c))" ?ks,
      unfolded fk, OF i f reg_inv_D(3)[OF inv p(1)]]
  have sk: "subkeys (keys ?s p) = insert_at i k ?ks" using at(4)[of p] pk by simp
  show "children_of cm ?s p = (children_of cm s p)(name_key cm name \<mapsto> k)"
    unfolding children_of_def sk using ins(2) .
  show "reg_inv cm ?s"
    unfolding reg_inv_def
  proof (intro allI impI)
    fix q assume "alive ?s q"
    then consider "q = k" | "q = p" "q \<noteq> k" | "alive s q" "q \<noteq> p" "q \<noteq> k" using k at(1) by (auto simp: less_Suc_eq)
    then show "key_ok cm ?s q"
    proof cases
      case 1
      show ?thesis unfolding 1 key_ok_def at(3) new
        using pk p(1) k new(8,9) sk at(4)[of p] by (auto simp: set_insert_at array_ok_def)
    next
      case 2
      have e: "keys ?s p = keys (put_subkeys s p (insert_at i k ?ks) nb w) p" using at(4) 2 by simp
      have ch: "\<forall>c \<in> set (insert_at i k ?ks). c < next_key ?s \<and> kparent (keys ?s c) = p"
      proof
        fix c assume "c \<in> set (insert_at i k ?ks)"
        then show "c < next_key ?s \<and> kparent (keys ?s c) = p"
          using at(1,3) new(2) k reg_inv_D(2)[OF inv p(1), of c] at(4)[of c] by (cases "c = k") (auto simp: set_insert_at)
      qed
      have z: "0 \<notin> set (insert_at i k ?ks)" using reg_inv_D(2)[OF inv p(1), of 0] pk(2) by (auto simp: set_insert_at)
      have par: "kparent (keys s p) \<noteq> 0 \<Longrightarrow> p \<in> set (subkeys (keys ?s (kparent (keys s p)))) \<and> (\<not> has s KEY_VOLATILE p \<longrightarrow> \<not> has ?s KEY_VOLATILE (kparent (keys s p)))"
        using reg_inv_D(1,7,10)[OF inv p(1)] at(4)[of "kparent (keys s p)"] p(1) k by auto
      have wo: "w \<noteq> 0 \<longrightarrow> w \<in> set (insert_at i k ?ks)" using w reg_inv_D(9)[OF inv p(1)] by (auto simp: set_insert_at)
      show ?thesis
        unfolding 2 key_ok_def e using reg_inv_D(1,5,6)[OF inv p(1)] ch z par wo ins(1) nb p(2) by simp
    next
      case 3
      have e: "keys ?s q = keys s q" using at(4) 3 by (simp add: put_subkeys_def)
      have nm: "c \<in> set (subkeys (keys s q)) \<Longrightarrow> name_key cm (kname (keys ?s c)) = name_key cm (kname (keys s c)) \<and> kparent (keys ?s c) = kparent (keys s c)" for c
        using fo[of c] at(4)[of c] old[of c q] 3(1) by auto
      have asc: "ascending (\<lambda>c. name_key cm (kname (keys ?s c))) (subkeys (keys s q))"
        using reg_inv_D(3)[OF inv 3(1)] ascending_cong[of "subkeys (keys s q)"] nm by (metis (no_types, lifting))
      have ch: "\<forall>c \<in> set (subkeys (keys s q)). c < next_key ?s \<and> kparent (keys ?s c) = q" "0 \<notin> set (subkeys (keys s q))"
        using reg_inv_D(2)[OF inv 3(1)] nm at(1) by fastforce+
      let ?r = "kparent (keys s q)"
      have par: "?r \<noteq> 0 \<Longrightarrow> q \<in> set (subkeys (keys ?s ?r)) \<and> kflags (keys ?s ?r) = kflags (keys s ?r)"
        using reg_inv_D(1,7)[OF inv 3(1)] at(4)[of ?r] 3(1) k by (auto simp: set_insert_at)
      show ?thesis
        unfolding key_ok_def e using reg_inv_D(1,4-6,8-10)[OF inv 3(1)] ch par asc by simp
    qed
  qed
qed

section \<open>Creating a key\<close>

lemma key_unlink_name_run:
  assumes "kparent (keys s k) = p" "p \<noteq> 0" "k \<in> set (subkeys (keys s p))" "p \<noteq> k"
  shows "key_unlink_name E s k =
    Some (set_key (put_subkeys s p (remove1 k (subkeys (keys s p)))
            (shrink_array E MIN_SUBKEYS (length (remove1 k (subkeys (keys s p)))) (nb_subkeys (keys s p)))
            (if wow6432node (keys s p) = k then 0 else wow6432node (keys s p)))
          k ((keys s k)\<lparr>kname := [], kparent := 0\<rparr>))"
proof -
  have e: "x\<lparr>subkeys := a, wow6432node := c, nb_subkeys := b\<rparr> = x\<lparr>subkeys := a, nb_subkeys := b, wow6432node := c\<rparr>" for x :: key and a b c
    by (cases x) simp
  show ?thesis unfolding key_unlink_name_def get_parent_def Let_def put_subkeys_def assms(1) e using assms(2-) by simp
qed

lemma remove1_insert_at: "k \<notin> set ks \<Longrightarrow> remove1 k (insert_at i k ks) = ks"
  by (auto simp: insert_at_def remove1_append dest: in_set_takeD)

lemma put_subkeys_again: "p \<noteq> k \<Longrightarrow> put_subkeys (set_key (put_subkeys s p ks nb w) k g) p ks' nb' w' = set_key (put_subkeys s p ks' nb' w') k g"
  by (cases "keys s p") (simp add: put_subkeys_def set_key_def fun_upd_twist)

lemma set_key_again: "set_key (set_key s k g) k h = set_key s k h"
  by (simp add: set_key_def)

lemma array_grow: "array_ok least n nb \<Longrightarrow> n = nb \<Longrightarrow> 2 \<le> least \<Longrightarrow> array_ok least (Suc n) (if nb \<noteq> 0 then nb + nb div 2 else least)"
  by (auto simp: array_ok_def)

lemma array_shrink: "array_ok least n nb \<Longrightarrow> 2 \<le> least \<Longrightarrow> array_ok least n (shrink_array E least n nb)"
  by (auto simp: array_ok_def shrink_array_def Let_def max_def)

lemma array_less: "array_ok least (Suc n) nb \<Longrightarrow> array_ok least n nb"
  by (auto simp: array_ok_def)

lemma key_link_name_effect:
  assumes inv: "reg_inv cm s" and p: "alive s p" and k: "k = next_key s" and f: "find_subkey cm s p name = (None, i)"
  shows "(key_link_name cm E s k name p = (s, Some STATUS_NO_MEMORY)) \<or>
    (\<exists>nb w. array_ok MIN_SUBKEYS (Suc (length (subkeys (keys s p)))) nb \<and> (w = k \<or> w = wow6432node (keys s p)) \<and>
      key_link_name cm E s k name p =
        (set_key (put_subkeys s p (insert_at i k (subkeys (keys s p))) nb w) k ((keys s k)\<lparr>kname := name, kparent := p\<rparr>), None))"
proof -
  let ?ks = "subkeys (keys s p)" and ?nb = "nb_subkeys (keys s p)"
  let ?n = "if ?nb \<noteq> 0 then ?nb + ?nb div 2 else MIN_SUBKEYS"
  have ar: "array_ok MIN_SUBKEYS (length ?ks) ?nb" by (rule reg_inv_D(4)[OF inv p])
  have pk: "p \<noteq> k" using p k by simp
  have go: "\<exists>w. (w = k \<or> w = wow6432node (keys s p)) \<and> key_link_name cm E s k name p =
      (set_key (put_subkeys s p (insert_at i k ?ks) nb w) k ((keys s k)\<lparr>kname := name, kparent := p\<rparr>), None)"
    if g: "(if length ?ks = ?nb then grow_subkeys E s p else (s, None)) = (put_subkeys s p ?ks nb (wow6432node (keys s p)), None)" for nb
  proof -
    let ?s1 = "put_subkeys s p ?ks nb (wow6432node (keys s p))"
    have "find_subkey cm ?s1 p name = find_subkey cm s p name" by (simp add: find_subkey_def)
    then show ?thesis unfolding key_link_name_def g prod.case option.case Let_def
      using f pk by (cases "keys s p") (auto simp: put_subkeys_def set_key_def)
  qed
  show ?thesis
  proof (cases "length ?ks = ?nb")
    case full: True
    show ?thesis
    proof (cases "can_grow E ?n")
      case True
      then have "(if length ?ks = ?nb then grow_subkeys E s p else (s, None)) = (put_subkeys s p ?ks ?n (wow6432node (keys s p)), None)"
        using full by (cases "keys s p") (auto simp: grow_subkeys_def put_subkeys_def Let_def)
      from go[OF this] array_grow[OF ar full] show ?thesis by (auto simp: MIN_SUBKEYS_def)
    next
      case False
      then show ?thesis using full by (simp add: key_link_name_def grow_subkeys_def Let_def)
    qed
  next
    case False
    then have "(if length ?ks = ?nb then grow_subkeys E s p else (s, None)) = (put_subkeys s p ?ks ?nb (wow6432node (keys s p)), None)"
      by (simp add: put_subkeys_id)
    moreover have "array_ok MIN_SUBKEYS (Suc (length ?ks)) ?nb" using ar False by (auto simp: array_ok_def)
    ultimately show ?thesis using go by blast
  qed
qed

text \<open>What \<^verbatim>\<open>key_init\<close> makes of a key with its name and parent.\<close>

definition new_key :: "key \<Rightarrow> u32 \<Rightarrow> wchar list \<Rightarrow> int \<Rightarrow> key" where
  "new_key k fl class t =
     k\<lparr>kclass := class, kflags := fl, subkeys := [], nb_subkeys := 0, wow6432node := 0, kvalues := [], nb_values := 0, modif := t, notify_list := []\<rparr>"

definition new_flags :: "u32 \<Rightarrow> u32" where
  "new_flags options =
     (if options AND REG_OPTION_CREATE_LINK \<noteq> 0 then KEY_SYMLINK else 0) OR (if options AND REG_OPTION_VOLATILE \<noteq> 0 then KEY_VOLATILE else KEY_DIRTY)"

lemma new_flags_bits [simp]:
  "new_flags options AND KEY_DELETED = 0"
  "new_flags options AND KEY_VOLATILE = 0 \<longleftrightarrow> options AND REG_OPTION_VOLATILE = 0"
  "new_flags options AND KEY_DIRTY = 0 \<longleftrightarrow> options AND REG_OPTION_VOLATILE \<noteq> 0"
  by (simp_all add: new_flags_def KEY_SYMLINK_def KEY_VOLATILE_def KEY_DIRTY_def KEY_DELETED_def)

lemma key_init_effect:
  "key_init E s k options class t =
    (if class \<noteq> [] \<and> \<not> can_copy E (2 * length class) then (set_key s k (new_key (keys s k) 0 [] t), Some STATUS_NO_MEMORY)
     else if options AND REG_OPTION_VOLATILE = 0 \<and> kparent (keys s k) \<noteq> 0 \<and> has s KEY_VOLATILE (kparent (keys s k))
     then (set_key s k (new_key (keys s k) (if options AND REG_OPTION_CREATE_LINK \<noteq> 0 then KEY_SYMLINK else 0) class t), Some STATUS_CHILD_MUST_BE_VOLATILE)
     else (set_key s k (new_key (keys s k) (new_flags options) class t), None))"
  by (cases "keys s k") (auto simp: key_init_def new_key_def new_flags_def get_parent_def Let_def set_key_def)

lemma reg_inv_garbage:
  assumes "reg_inv cm s" "next_key s \<le> k"
  shows "reg_inv cm (set_key s k g)"
  unfolding reg_inv_def
proof (intro allI impI)
  fix q assume "alive (set_key s k g) q"
  then have q: "alive s q" by simp
  have o: "keys (set_key s k g) c = keys s c" if "c < next_key s" for c using assms(2) that by auto
  have ch: "\<And>c. c \<in> set (subkeys (keys s q)) \<Longrightarrow> c < next_key s" using reg_inv_D(2)[OF assms(1) q] by blast
  have pa: "kparent (keys s q) < next_key s" using reg_inv_D(1)[OF assms(1) q] q by simp
  have asc: "ascending (\<lambda>c. name_key cm (kname (keys (set_key s k g) c))) (subkeys (keys s q))"
    using reg_inv_D(3)[OF assms(1) q] ascending_cong[of "subkeys (keys s q)"] ch o by (metis (no_types, lifting))
  show "key_ok cm (set_key s k g) q"
    unfolding key_ok_def o[OF conjunct2[OF q]] o[OF pa]
    using reg_inv_D(1,4-)[OF assms(1) q] reg_inv_D(2)[OF assms(1) q, of 0] ch reg_inv_D(2)[OF assms(1) q] o asc by auto
qed

lemma children_of_garbage: "reg_inv cm s \<Longrightarrow> alive s q \<Longrightarrow> next_key s \<le> k \<Longrightarrow> children_of cm (set_key s k g) q = children_of cm s q"
proof -
  assume a: "reg_inv cm s" "alive s q" "next_key s \<le> k"
  have "keys (set_key s k g) c = keys s c" if "c \<in> set (subkeys (keys s q))" for c
    using reg_inv_D(2)[OF a(1,2) that] a(3) by auto
  moreover have "q \<noteq> k" using a by auto
  ultimately show ?thesis unfolding children_of_def by (auto intro: table_cong)
qed

text \<open>The key is there with its name, or nothing happened to those that were.\<close>

definition nothing_created :: "registry \<Rightarrow> registry \<Rightarrow> bool" where
  "nothing_created s s' =
     (next_key s' = next_key s \<and>
      (\<forall>q. alive s q \<longrightarrow> kname (keys s' q) = kname (keys s q) \<and> kparent (keys s' q) = kparent (keys s q) \<and>
        kvalues (keys s' q) = kvalues (keys s q) \<and> kflags (keys s' q) = kflags (keys s q) \<and> subkeys (keys s' q) = subkeys (keys s q)))"

definition created :: "(nat \<Rightarrow> nat) \<Rightarrow> registry \<Rightarrow> registry \<Rightarrow> ptr \<Rightarrow> ptr \<Rightarrow> wchar list \<Rightarrow> u32 \<Rightarrow> bool" where
  "created cm s s' p k name options =
     (k = next_key s \<and> next_key s' = Suc k \<and> kname (keys s' k) = name \<and> kparent (keys s' k) = p \<and> kflags (keys s' k) = new_flags options \<and>
      subkeys (keys s' k) = [] \<and> kvalues (keys s' k) = [] \<and>
      children_of cm s' p = (children_of cm s p)(name_key cm name \<mapsto> k) \<and>
      (\<forall>q. alive s q \<longrightarrow> kname (keys s' q) = kname (keys s q) \<and> kparent (keys s' q) = kparent (keys s q) \<and>
        kvalues (keys s' q) = kvalues (keys s q) \<and> kflags (keys s' q) = kflags (keys s q)))"

lemma create_subkey_effect:
  assumes inv: "reg_inv cm s" and p: "alive s p" "\<not> has s KEY_DELETED p" and free: "children_of cm s p (name_key cm name) = None"
  shows "\<exists>s' r. create_subkey cm E s p name options class t = Some (s', r) \<and> reg_inv cm s' \<and>
    (case r of Inl e \<Rightarrow> nothing_created s s' | Inr k \<Rightarrow> created cm s s' p k name options)"
proof -
  let ?k = "next_key s" and ?ks = "subkeys (keys s p)"
  obtain i where f: "find_subkey cm s p name = (None, i)"
    using find_subkey_spec(1)[OF inv p(1)] free by (metis surj_pair)
  have gap: "i \<le> length ?ks" "sorted_wrt (<) (insert_at i (name_key cm name) (map (\<lambda>c. name_key cm (kname (keys s c))) ?ks))"
    using find_subkey_spec(3)[OF inv p(1) f] by simp_all
  have noth: "nothing_created s s" by (simp add: nothing_created_def)
  have kn: "?k \<notin> set ?ks" using reg_inv_D(2)[OF inv p(1), of ?k] by auto
  have pk: "p \<noteq> ?k" using p(1) by simp
  from key_link_name_effect[OF inv p(1) refl f, of E] consider (err) "key_link_name cm E s ?k name p = (s, Some STATUS_NO_MEMORY)"
    | (ok) nb w where "array_ok MIN_SUBKEYS (Suc (length ?ks)) nb" "w = ?k \<or> w = wow6432node (keys s p)"
      "key_link_name cm E s ?k name p = (set_key (put_subkeys s p (insert_at i ?k ?ks) nb w) ?k ((keys s ?k)\<lparr>kname := name, kparent := p\<rparr>), None)"
    by blast
  then show ?thesis
  proof cases
    case err
    then have "create_subkey cm E s p name options class t = Some (s, Inl STATUS_NO_MEMORY)" by (simp add: create_subkey_def Let_def)
    then show ?thesis using inv noth by (intro exI[of _ s] exI[of _ "Inl STATUS_NO_MEMORY"]) simp
  next
    case ok
    note nb = ok(1) and w = ok(2)
    let ?g = "(keys s ?k)\<lparr>kname := name, kparent := p\<rparr>" and ?s0 = "put_subkeys s p (insert_at i ?k ?ks) nb w"
    let ?s1 = "set_key ?s0 ?k ?g"
    note ln = ok(3)
    have k1: "keys ?s1 ?k = ?g" "keys ?s1 p = keys ?s0 p" "kflags (keys ?s1 p) = kflags (keys s p)" using pk by simp_all
    have undo: "\<exists>s' r. create_subkey cm E s p name options class t = Some (s', r) \<and> reg_inv cm s' \<and>
        (case r of Inl e \<Rightarrow> nothing_created s s' | Inr k \<Rightarrow> created cm s s' p k name options)"
      if ini: "key_init E ?s1 ?k options class t = (set_key ?s1 ?k (new_key ?g fl cl t), Some e)" and new: "can_new E" for fl cl e
    proof -
      let ?s2 = "set_key ?s1 ?k (new_key ?g fl cl t)"
      let ?w = "if w = ?k then 0 else w" and ?nb = "shrink_array E MIN_SUBKEYS (length ?ks) nb"
      let ?h = "(new_key ?g fl cl t)\<lparr>kname := [], kparent := 0\<rparr>"
      let ?s3 = "set_key (put_subkeys s p ?ks ?nb ?w) ?k ?h"
      have r: "remove1 ?k (insert_at i ?k ?ks) = ?ks"
        by (rule remove1_insert_at[OF kn])
      have k2: "kparent (keys ?s2 ?k) = p" "subkeys (keys ?s2 p) = insert_at i ?k ?ks" "nb_subkeys (keys ?s2 p) = nb" "wow6432node (keys ?s2 p) = w"
        "keys ?s2 ?k = new_key ?g fl cl t"
        using pk by (simp_all add: new_key_def)
      have "key_unlink_name E ?s2 ?k = Some (set_key (put_subkeys ?s2 p ?ks ?nb ?w) ?k ((keys ?s2 ?k)\<lparr>kname := [], kparent := 0\<rparr>))"
        using key_unlink_name_run[OF k2(1), of E] p(1) pk unfolding k2 r by (simp add: set_insert_at)
      also have "\<dots> = Some ?s3" unfolding set_key_again put_subkeys_again[OF pk] by simp
      finally have "key_unlink_name E ?s2 ?k = Some ?s3" .
      then have run: "create_subkey cm E s p name options class t = Some (?s3, Inl e)"
        using ln ini new by (simp add: create_subkey_def Let_def)
      have "array_ok MIN_SUBKEYS (length ?ks) ?nb" by (rule array_shrink[OF array_less[OF nb]]) (simp add: MIN_SUBKEYS_def)
      then have "reg_inv cm (put_subkeys s p ?ks ?nb ?w)" using reg_inv_room[OF inv] w by auto
      then have inv3: "reg_inv cm ?s3" by (rule reg_inv_garbage) simp
      have "nothing_created s ?s3" using pk by (auto simp: nothing_created_def)
      then show ?thesis using run inv3 by auto
    qed
    have ini: "key_init E ?s1 ?k options class t =
      (if class \<noteq> [] \<and> \<not> can_copy E (2 * length class) then (set_key ?s1 ?k (new_key ?g 0 [] t), Some STATUS_NO_MEMORY)
       else if options AND REG_OPTION_VOLATILE = 0 \<and> has s KEY_VOLATILE p
       then (set_key ?s1 ?k (new_key ?g (if options AND REG_OPTION_CREATE_LINK \<noteq> 0 then KEY_SYMLINK else 0) class t), Some STATUS_CHILD_MUST_BE_VOLATILE)
       else (set_key ?s1 ?k (new_key ?g (new_flags options) class t), None))"
      unfolding key_init_effect k1(1) using p(1) k1(3) by simp
    consider "\<not> can_new E" | "can_new E" "class \<noteq> [] \<and> \<not> can_copy E (2 * length class)"
      | "can_new E" "\<not> (class \<noteq> [] \<and> \<not> can_copy E (2 * length class))" "options AND REG_OPTION_VOLATILE = 0 \<and> has s KEY_VOLATILE p"
      | "can_new E" "\<not> (class \<noteq> [] \<and> \<not> can_copy E (2 * length class))" "\<not> (options AND REG_OPTION_VOLATILE = 0 \<and> has s KEY_VOLATILE p)" by blast
    then show ?thesis
    proof cases
      case 1
      then show ?thesis using inv noth by (auto simp: create_subkey_def)
    next
      case 2
      from ini[unfolded if_P[OF 2(2)]] 2(1) show ?thesis by (rule undo)
    next
      case 3
      from ini[unfolded if_not_P[OF 3(2)] if_P[OF 3(3)]] 3(1) show ?thesis by (rule undo)
    next
      case 4
      let ?new = "new_key ?g (new_flags options) class t"
      let ?s2 = "attached s p (insert_at i ?k ?ks) nb w ?k ?new"
      have "key_init E ?s1 ?k options class t = (set_key ?s1 ?k ?new, None)" using ini[unfolded if_not_P[OF 4(2)] if_not_P[OF 4(3)]] .
      moreover have "(set_key ?s1 ?k ?new)\<lparr>next_key := ?k + 1\<rparr> = ?s2" by (simp add: attached_def set_key_def)
      ultimately have run: "create_subkey cm E s p name options class t = Some (?s2, Inr ?k)"
        using ln 4(1) by (simp add: create_subkey_def Let_def)
      have n: "kname ?new = name" "kparent ?new = p" "subkeys ?new = []" "nb_subkeys ?new = 0" "wow6432node ?new = 0" "kvalues ?new = []"
        "nb_values ?new = 0" "kflags ?new AND KEY_DELETED = 0" "kflags ?new AND KEY_VOLATILE = 0 \<longrightarrow> \<not> has s KEY_VOLATILE p"
        "kflags ?new = new_flags options"
        using 4(3) by (simp_all add: new_key_def)
      note at = reg_inv_attached[OF inv p refl n(1-9) gap(2) nb w]
      have "created cm s ?s2 p ?k name options"
        unfolding created_def
        using at(2) n attached_keys(1,3)[where s = s and p = p and ks = "insert_at i ?k ?ks" and nb = nb and w = w and k = ?k and new = ?new]
          attached_keys(4)[where s = s and p = p and ks = "insert_at i ?k ?ks" and nb = nb and w = w and k = ?k and new = ?new]
        by simp
      then show ?thesis using run at(1) by auto
    qed
  qed
qed

end
