(* ===== verification/Registry_Rename.thy ===== *)
theory Registry_Rename
  imports Registry_Keys
begin

text \<open>The request that creates a key, with the marks of its parent, and renaming.\<close>

section \<open>Creating\<close>

lemma created_dirty_but:
  assumes "reg_inv cm s" "created cm s s' p k name options" "dirty_up s"
  shows "dirty_but p s'"
  unfolding dirty_but_def
proof (intro allI impI, elim conjE)
  fix q assume q: "0 < q" "q < next_key s'" "has s' KEY_DIRTY q" "\<not> has s' KEY_VOLATILE q" "kparent (keys s' q) \<noteq> 0" "kparent (keys s' q) \<noteq> p"
  have c: "k = next_key s" "next_key s' = Suc k" "kparent (keys s' k) = p"
    "\<forall>q. alive s q \<longrightarrow> kname (keys s' q) = kname (keys s q) \<and> kparent (keys s' q) = kparent (keys s q) \<and>
        kvalues (keys s' q) = kvalues (keys s q) \<and> kflags (keys s' q) = kflags (keys s q)"
    using assms(2) unfolding created_def by blast+
  have "q \<noteq> k" using c(3) q(6) by auto
  then have a: "alive s q" using q(1,2) c(1,2) by simp
  then have r: "kparent (keys s q) < q" "kparent (keys s' q) = kparent (keys s q)" "kflags (keys s' q) = kflags (keys s q)"
    using c(4) reg_inv_D(1)[OF assms(1)] by auto
  then have "alive s (kparent (keys s q))" using a q(5) by simp
  then have "kflags (keys s' (kparent (keys s q))) = kflags (keys s (kparent (keys s q)))" using c(4) by blast
  moreover have "has s KEY_DIRTY (kparent (keys s q))"
    using assms(3) a q(3-5) unfolding r(2,3) dirty_but_def by blast
  ultimately show "has s' KEY_DIRTY (kparent (keys s' q))" using r(2) by simp
qed

lemma create_key_effect:
  assumes inv: "reg_inv cm s" and p: "alive s p" "\<not> has s KEY_DELETED p" and free: "children_of cm s p (name_key cm name) = None"
  shows "\<exists>s' r. create_key cm E s relative p name options class = Some (s', r) \<and> reg_inv cm s' \<and>
    (case r of Inl e \<Rightarrow> nothing_created s s'
     | Inr k \<Rightarrow> (\<exists>s1. created cm s s1 p k name options \<and> same s1 s' \<and> (\<not> relative \<longrightarrow> s' = s1) \<and> (relative \<and> dirty_up s \<longrightarrow> dirty_up s')))"
proof -
  obtain s1 r where 1: "create_subkey cm E s p name options class (now s) = Some (s1, r)" "reg_inv cm s1"
    "case r of Inl e \<Rightarrow> nothing_created s s1 | Inr k \<Rightarrow> created cm s s1 p k name options"
    using create_subkey_effect[OF inv p free] by blast
  show ?thesis
  proof (cases r)
    case (Inl e)
    then show ?thesis using 1 by (simp add: create_key_def)
  next
    case (Inr k)
    have c: "created cm s s1 p k name options" using 1(3) Inr by simp
    then have pk: "get_parent s1 k = p" "next_key s1 = Suc (next_key s)" unfolding created_def get_parent_def by blast+
    have a: "alive s1 p" using p(1) pk(2) by simp
    obtain s2 where 2: "touch_key s1 p REG_NOTIFY_CHANGE_NAME = Some s2" "same s1 s2" "volatile_down s1 \<and> dirty_but p s1 \<longrightarrow> dirty_up s2"
      using touch_key_effect[OF reg_inv_chain[OF 1(2)] a] by blast
    show ?thesis
    proof (cases relative)
      case True
      have "create_key cm E s relative p name options class = Some (s2, Inr k)"
        using 1(1) 2(1) True Inr pk(1) by (simp add: create_key_def)
      moreover have "dirty_up s \<longrightarrow> dirty_up s2" using 2(3) reg_inv_volatile[OF 1(2)] created_dirty_but[OF inv c] by blast
      ultimately show ?thesis using 2(2) c True reg_inv_same[OF 2(2)] 1(2) by auto
    next
      case False
      have "create_key cm E s relative p name options class = Some (s1, Inr k)" using 1(1) False Inr by (simp add: create_key_def)
      then show ?thesis using c False 1(2) same_refl[of s1] by auto
    qed
  qed
qed

section \<open>Renaming\<close>

text \<open>Moving an element to where another key belongs.\<close>

definition move_key :: "ptr \<Rightarrow> nat \<Rightarrow> nat \<Rightarrow> ptr list \<Rightarrow> ptr list" where
  "move_key k cur index ks = (if cur < index then insert_at (index - 1) k (remove_at cur ks) else insert_at index k (remove_at cur ks))"

lemma insert_remove_at:
  assumes "cur < length xs" "i \<le> length xs"
  shows "(if cur < i then insert_at (i - 1) x (remove_at cur xs) else insert_at i x (remove_at cur xs)) =
    remove_at (if cur < i then cur else Suc cur) (insert_at i x xs)"
proof (cases "cur < i")
  case True
  then show ?thesis using assms by (auto intro!: nth_equalityI simp: insert_at_def remove_at_def nth_append nth_Cons' min_def split: if_splits)
next
  case False
  then show ?thesis using assms by (auto intro!: nth_equalityI simp: insert_at_def remove_at_def nth_append nth_Cons' min_def split: if_splits)
qed

lemma move_key_ascending:
  assumes "distinct ks" "cur < length ks" "ks ! cur = k" "index \<le> length ks"
    and "sorted_wrt (<) (insert_at index (f k) (map g ks))" "\<And>x. x \<in> set ks \<Longrightarrow> x \<noteq> k \<Longrightarrow> f x = g x"
  shows "ascending f (move_key k cur index ks)" "set (move_key k cur index ks) = set ks" "length (move_key k cur index ks) = length ks"
proof -
  have r: "set (remove_at cur ks) = set ks - {k}" using set_remove_at[OF assms(1,2)] assms(3) by simp
  have "map f (remove_at cur ks) = map g (remove_at cur ks)" using r assms(6) by auto
  then have "map f (move_key k cur index ks) =
      (if cur < index then insert_at (index - 1) (f k) (remove_at cur (map g ks)) else insert_at index (f k) (remove_at cur (map g ks)))"
    by (simp add: move_key_def map_at)
  also have "\<dots> = remove_at (if cur < index then cur else Suc cur) (insert_at index (f k) (map g ks))"
    using insert_remove_at[of cur "map g ks" index "f k"] assms(2,4) by simp
  finally have m: "map f (move_key k cur index ks) = remove_at (if cur < index then cur else Suc cur) (insert_at index (f k) (map g ks))" .
  have "sorted_wrt (<) (remove_at (if cur < index then cur else Suc cur) (insert_at index (f k) (map g ks)))"
    using ascending_remove[of id "insert_at index (f k) (map g ks)"] assms(5) by (simp add: list.map_id)
  then show "ascending f (move_key k cur index ks)" using m by simp
  have "k \<in> set ks" using assms(2,3) by auto
  then show "set (move_key k cur index ks) = set ks" using r by (auto simp: move_key_def set_insert_at)
  show "length (move_key k cur index ks) = length ks" using assms(2) by (simp add: move_key_def)
qed

text \<open>The same tree, with another name for a key.\<close>

definition renamed :: "registry \<Rightarrow> ptr \<Rightarrow> ptr list \<Rightarrow> ptr \<Rightarrow> wchar list \<Rightarrow> registry" where
  "renamed s p ks k name = set_key (put_subkeys s p ks (nb_subkeys (keys s p)) (wow6432node (keys s p))) k ((keys s k)\<lparr>kname := name\<rparr>)"

lemma renamed_fields:
  assumes "p \<noteq> k"
  shows "kparent (keys (renamed s p ks k name) q) = kparent (keys s q)" "next_key (renamed s p ks k name) = next_key s"
    "kvalues (keys (renamed s p ks k name) q) = kvalues (keys s q)" "nb_values (keys (renamed s p ks k name) q) = nb_values (keys s q)"
    "kflags (keys (renamed s p ks k name) q) = kflags (keys s q)" "nb_subkeys (keys (renamed s p ks k name) q) = nb_subkeys (keys s q)"
    "wow6432node (keys (renamed s p ks k name) q) = wow6432node (keys s q)"
    "subkeys (keys (renamed s p ks k name) q) = (if q = p then ks else subkeys (keys s q))"
    "kname (keys (renamed s p ks k name) q) = (if q = k then name else kname (keys s q))"
  using assms by (simp_all add: renamed_def)

lemma reg_inv_renamed:
  assumes inv: "reg_inv cm s" and k: "alive s k" and p: "p = kparent (keys s k)" "p \<noteq> 0" and ks: "set ks = set (subkeys (keys s p))"
    "length ks = length (subkeys (keys s p))" "ascending (\<lambda>c. name_key cm (if c = k then name else kname (keys s c))) ks"
  shows "reg_inv cm (renamed s p ks k name)"
  unfolding reg_inv_def
proof (intro allI impI)
  fix q assume "alive (renamed s p ks k name) q"
  have pk: "p \<noteq> k" using reg_inv_D(1)[OF inv k] p(1) by simp
  note f = renamed_fields[OF pk, of s ks name]
  have q: "alive s q" using \<open>alive (renamed s p ks k name) q\<close> f(2) by simp
  have ok: "key_ok cm s q" using inv q by (simp add: reg_inv_def)
  have asc: "ascending (\<lambda>c. name_key cm (kname (keys (renamed s p ks k name) c))) (subkeys (keys (renamed s p ks k name) q))"
  proof (cases "q = p")
    case True
    then show ?thesis using ks(3) by (simp add: f)
  next
    case False
    have "c \<noteq> k" if "c \<in> set (subkeys (keys s q))" for c using reg_inv_D(2)[OF inv q that] False p(1) by auto
    then have "ascending (\<lambda>c. name_key cm (if c = k then name else kname (keys s c))) (subkeys (keys s q))"
      using reg_inv_D(3)[OF inv q] ascending_cong[of "subkeys (keys s q)" "\<lambda>c. name_key cm (if c = k then name else kname (keys s c))"
          "\<lambda>c. name_key cm (kname (keys s c))"] by simp
    then show ?thesis using False by (simp add: f)
  qed
  have sets: "set (subkeys (keys (renamed s p ks k name) r)) = set (subkeys (keys s r))" for r using ks(1) by (simp add: f)
  have len: "length (subkeys (keys (renamed s p ks k name) r)) = length (subkeys (keys s r))" for r using ks(2) by (simp add: f)
  have nil: "subkeys (keys (renamed s p ks k name) r) = [] \<longleftrightarrow> subkeys (keys s r) = []" for r using len[of r] by (metis length_0_conv)
  show "key_ok cm (renamed s p ks k name) q"
    using ok asc unfolding key_ok_def sets len nil f(1-7) by blast
qed

lemma first_at: "k \<in> set ks \<Longrightarrow> length (takeWhile (\<lambda>c. c \<noteq> k) ks) < length ks \<and> ks ! length (takeWhile (\<lambda>c. c \<noteq> k) ks) = k"
  by (induction ks) auto

lemma rename_key_effect:
  assumes inv: "reg_inv cm s" and k: "alive s k"
  shows "\<exists>s' err. rename_key cm E s k new_name = Some (s', err) \<and> reg_inv cm s' \<and> (dirty_up s \<longrightarrow> dirty_up s') \<and>
    (if err = None
     then kname (keys s' k) = new_name \<and>
       children_of cm s' (kparent (keys s k)) =
         ((children_of cm s (kparent (keys s k)))(name_key cm (kname (keys s k)) := None))(name_key cm new_name \<mapsto> k) \<and>
       (\<forall>q. alive s q \<and> q \<noteq> k \<longrightarrow> kname (keys s' q) = kname (keys s q)) \<and>
       (\<forall>q. alive s q \<longrightarrow> kparent (keys s' q) = kparent (keys s q) \<and> kvalues (keys s' q) = kvalues (keys s q))
     else s' = s)"
proof -
  let ?p = "kparent (keys s k)"
  let ?ks = "subkeys (keys s ?p)"
  have keep: ?thesis if "rename_key cm E s k new_name = Some (s, Some e)" for e using that inv by (intro exI[of _ s] exI[of _ "Some e"]) simp
  let ?len = "get_path_element new_name"
  let ?bad = "?len = 0 \<or> ?len \<noteq> length new_name \<or> ?len > MAX_NAME_LEN"
  let ?exists = "?p = 0 \<or> fst (find_subkey cm s ?p new_name) \<noteq> None"
  let ?wow = "k = wow6432node (keys s ?p) \<or> is_wow6432node cm new_name"
  note d = rename_key_def[of cm E s k new_name, unfolded get_parent_def Let_def]
  consider "?bad" | "\<not> ?bad" "?exists" | "\<not> ?bad" "\<not> ?exists" "?wow" | "\<not> ?bad" "\<not> ?exists" "\<not> ?wow" "\<not> can_new E"
    | "\<not> ?bad" "\<not> ?exists" "\<not> ?wow" "\<not> \<not> can_new E" by blast
  then show ?thesis
  proof cases
    case 1
    show ?thesis by (rule keep) (simp only: d if_P[OF 1])
  next
    case 2
    show ?thesis by (rule keep) (simp only: d if_not_P[OF 2(1)] if_P[OF 2(2)])
  next
    case 3
    show ?thesis by (rule keep) (simp only: d if_not_P[OF 3(1)] if_not_P[OF 3(2)] if_P[OF 3(3)])
  next
    case 4
    show ?thesis by (rule keep) (simp only: d if_not_P[OF 4(1)] if_not_P[OF 4(2)] if_not_P[OF 4(3)] if_P[OF 4(4)])
  next
    case 5
    have p: "alive s ?p" "?p \<noteq> k" using 5(2) reg_inv_D(1)[OF inv k] k by auto
    obtain i where f: "find_subkey cm s ?p new_name = (None, i)" using 5(2) by (metis prod.collapse)
    have si: "snd (find_subkey cm s ?p new_name) = i" using f by simp
    let ?cur = "length (takeWhile (\<lambda>c. c \<noteq> k) ?ks)"
    have kin: "k \<in> set ?ks" using reg_inv_D(7)[OF inv k] 5(2) by simp
    have cur: "?cur < length ?ks" "?ks ! ?cur = k"
      using first_at[OF kin] by simp_all
    note gap = find_subkey_spec(3)[OF inv p(1) f refl]
    let ?g = "\<lambda>c. name_key cm (kname (keys s c))" and ?f = "\<lambda>c. name_key cm (if c = k then new_name else kname (keys s c))"
    have gap': "sorted_wrt (<) (insert_at i (?f k) (map ?g ?ks))" using gap by simp
    let ?m = "move_key k ?cur i ?ks"
    note mv = move_key_ascending[where f = ?f and g = ?g, OF subkeys_distinct[OF inv p(1)] cur conjunct1[OF gap] gap']
    have asc: "ascending ?f ?m" by (rule mv(1)) simp
    have m: "set ?m = set ?ks" "length ?m = length ?ks" by (rule mv(2), simp) (rule mv(3), simp)
    let ?s1 = "renamed s ?p ?m k new_name"
    have inv1: "reg_inv cm ?s1" using reg_inv_renamed[OF inv k refl _ m asc] p(1) by simp
    have fl: "kflags (keys ?s1 q) = kflags (keys s q)" "kparent (keys ?s1 q) = kparent (keys s q)" "next_key ?s1 = next_key s" for q
      using renamed_fields[OF p(2)] by simp_all
    obtain s2 where s2: "touch_key ?s1 k REG_NOTIFY_CHANGE_NAME = Some s2" "same ?s1 s2" "volatile_down ?s1 \<and> dirty_but k ?s1 \<longrightarrow> dirty_up s2"
      using touch_key_effect[OF reg_inv_chain[OF inv1], of k] k fl(3) by auto
    have "set_key (set_key s ?p ((keys s ?p)\<lparr>subkeys := ?m\<rparr>)) k ((keys (set_key s ?p ((keys s ?p)\<lparr>subkeys := ?m\<rparr>)) k)\<lparr>kname := new_name\<rparr>) = ?s1"
      using p(2) by (simp add: renamed_def put_subkeys_def)
    then have run: "rename_key cm E s k new_name = Some (s2, None)"
      unfolding d if_not_P[OF 5(1)] if_not_P[OF 5(2)] if_not_P[OF 5(3)] if_not_P[OF 5(4)] si
      using s2(1) by (simp add: move_key_def)
    have "dirty_up s \<Longrightarrow> dirty_but k ?s1" unfolding dirty_but_def fl by blast
    then have du: "dirty_up s \<longrightarrow> dirty_up s2" using s2(3) reg_inv_volatile[OF inv1] by blast
    have ch: "children_of cm s2 ?p = ((children_of cm s ?p)(name_key cm (kname (keys s k)) := None))(name_key cm new_name \<mapsto> k)"
    proof -
      have "children_of cm s2 ?p = table ?f ?m"
        unfolding children_of_same[OF s2(2)] by (simp add: children_of_def renamed_fields[OF p(2)])
      moreover have "table ?f ?m = ((table ?g ?ks)(?g k := None))(name_key cm new_name \<mapsto> k)"
      proof -
        let ?r = "remove_at ?cur ?ks"
        have rk: "set ?r = set ?ks - {k}" using set_remove_at[OF subkeys_distinct[OF inv p(1)] cur(1)] cur(2) by simp
        have fg: "?f x = ?g x" if "x \<in> set ?r" for x using rk that by simp
        have e: "table ?f ?r = table ?g ?r" by (rule table_cong) (rule fg)
        have e': "ascending ?f ?r = ascending ?g ?r" by (rule ascending_cong) (rule fg)
        have "ascending ?g ?r" by (rule ascending_remove[OF reg_inv_D(3)[OF inv p(1)]])
        then have a: "ascending ?f ?r" unfolding e' .
        have j: "?m = insert_at (if ?cur < i then i - 1 else i) k ?r" by (simp add: move_key_def)
        have "table ?f ?m = (table ?f ?r)(?f k \<mapsto> k)" unfolding j by (rule table_insert[OF asc[unfolded j] a])
        moreover have "table ?g ?r = (table ?g ?ks)(?g k := None)" using table_remove[OF reg_inv_D(3)[OF inv p(1)] cur(1)] cur(2) by simp
        ultimately show ?thesis using e by simp
      qed
      ultimately show ?thesis by (simp add: children_of_def)
    qed
    have "kname (keys s2 k) = new_name" "\<forall>q. alive s q \<and> q \<noteq> k \<longrightarrow> kname (keys s2 q) = kname (keys s q)"
      "\<forall>q. alive s q \<longrightarrow> kparent (keys s2 q) = kparent (keys s q) \<and> kvalues (keys s2 q) = kvalues (keys s q)"
      using same_D[OF s2(2)] renamed_fields[OF p(2)] by simp_all
    then show ?thesis using run inv1 reg_inv_same[OF s2(2)] du ch by (intro exI[of _ s2] exI[of _ None]) simp
  qed
qed

end
