(* ===== verification/Registry_Delete.thy ===== *)
theory Registry_Delete
  imports Registry_Rename
begin

text \<open>Deleting a key: the recursion ends, and it deletes the key with all keys below it and no others.\<close>

section \<open>The keys below a key\<close>

inductive below :: "registry \<Rightarrow> ptr \<Rightarrow> ptr \<Rightarrow> bool" for s k where
  here: "below s k k"
| down: "kparent (keys s q) \<noteq> 0 \<Longrightarrow> below s k (kparent (keys s q)) \<Longrightarrow> below s k q"

lemma below_iff: "below s k q \<longleftrightarrow> q = k \<or> (kparent (keys s q) \<noteq> 0 \<and> below s k (kparent (keys s q)))"
  by (metis below.simps)

lemma below_trans: "below s c q \<Longrightarrow> below s k c \<Longrightarrow> below s k q"
  by (induction rule: below.induct) (auto intro: below.intros)

lemma below_le: "below s k q \<Longrightarrow> reg_inv cm s \<Longrightarrow> alive s q \<Longrightarrow> k \<le> q"
proof (induction rule: below.induct)
  case (down q)
  then have "kparent (keys s q) < q" using reg_inv_D(1) by blast
  then show ?case using down by (metis (no_types, lifting) gr0I less_imp_le_nat le_trans less_trans)
qed simp

text \<open>A set of keys is deleted, and nothing else is changed but the marks.\<close>

definition only_deleted :: "registry \<Rightarrow> registry \<Rightarrow> (ptr \<Rightarrow> bool) \<Rightarrow> bool" where
  "only_deleted s s' X =
     (next_key s' = next_key s \<and>
      (\<forall>q. alive s q \<longrightarrow>
        (if X q then kparent (keys s' q) = 0 \<and> has s' KEY_DELETED q
         else kparent (keys s' q) = kparent (keys s q) \<and> kname (keys s' q) = kname (keys s q) \<and> kvalues (keys s' q) = kvalues (keys s q) \<and>
           kflags (keys s' q) AND KEY_DELETED = kflags (keys s q) AND KEY_DELETED \<and>
           kflags (keys s' q) AND KEY_VOLATILE = kflags (keys s q) AND KEY_VOLATILE \<and>
           kflags (keys s' q) AND KEY_PREDEF = kflags (keys s q) AND KEY_PREDEF)))"

lemma only_deleted_D:
  assumes "only_deleted s s' X" "alive s q"
  shows "next_key s' = next_key s" "X q \<Longrightarrow> kparent (keys s' q) = 0 \<and> has s' KEY_DELETED q"
    "\<not> X q \<Longrightarrow> kparent (keys s' q) = kparent (keys s q)" "\<not> X q \<Longrightarrow> kflags (keys s' q) AND KEY_PREDEF = kflags (keys s q) AND KEY_PREDEF"
  using assms by (auto simp: only_deleted_def)

lemma only_deleted_same: "same s s' \<Longrightarrow> only_deleted s s' (\<lambda>_. False)"
  by (simp add: only_deleted_def same_D)

lemma only_deleted_trans:
  assumes "only_deleted s s1 X" "only_deleted s1 s2 Y"
  shows "only_deleted s s2 (\<lambda>q. X q \<or> Y q)"
  using assms unfolding only_deleted_def by (smt (verit))

lemma only_deleted_cong: "only_deleted s s' X \<Longrightarrow> (\<And>q. alive s q \<Longrightarrow> X q = Y q) \<Longrightarrow> only_deleted s s' Y"
  unfolding only_deleted_def by simp

text \<open>What is below a key once all below another one is deleted.\<close>

lemma below_deleted:
  assumes inv: "reg_inv cm s" and d: "only_deleted s s1 X"
    and closed: "\<And>q. alive s q \<Longrightarrow> kparent (keys s q) \<noteq> 0 \<Longrightarrow> X (kparent (keys s q)) \<Longrightarrow> X q" and q: "alive s q"
  shows "below s1 k q \<longleftrightarrow> q = k \<or> (below s k q \<and> \<not> X q)"
  using q
proof (induction q rule: less_induct)
  case (less q)
  show ?case
  proof (cases "q = k \<or> X q")
    case True
    then show ?thesis using below_iff[of s1 k q] only_deleted_D(2)[OF d less.prems] by auto
  next
    case False
    then have e: "kparent (keys s1 q) = kparent (keys s q)" using only_deleted_D(3)[OF d less.prems] by blast
    let ?r = "kparent (keys s q)"
    show ?thesis
    proof (cases "?r = 0")
      case True
      then show ?thesis using below_iff[of s1 k q] below_iff[of s k q] e by auto
    next
      case r: False
      have "?r < q" "alive s ?r" using reg_inv_D(1)[OF inv less.prems] less.prems r by auto
      then have "below s1 k ?r \<longleftrightarrow> ?r = k \<or> (below s k ?r \<and> \<not> X ?r)" by (rule less.IH)
      then show ?thesis using below_iff[of s1 k q] below_iff[of s k q] e r False closed[OF less.prems r] below.here by auto
    qed
  qed
qed

section \<open>One key\<close>

lemma put_subkeys_set_key: "p \<noteq> k \<Longrightarrow> put_subkeys (set_key s k g) p ks nb w = set_key (put_subkeys s p ks nb w) k g"
  by (simp add: put_subkeys_def set_key_def fun_upd_twist)

definition detached :: "reg_env \<Rightarrow> registry \<Rightarrow> ptr \<Rightarrow> registry" where
  "detached E s k =
     (let p = kparent (keys s k); ks = remove1 k (subkeys (keys s p)) in
      set_key (put_subkeys s p ks (shrink_array E MIN_SUBKEYS (length ks) (nb_subkeys (keys s p)))
          (if wow6432node (keys s p) = k then 0 else wow6432node (keys s p)))
        k ((keys s k)\<lparr>kflags := kflags (keys s k) OR KEY_DELETED, kname := [], kparent := 0\<rparr>))"

lemma key_unlink_deleted:
  assumes "reg_inv cm s" "alive s k" "kparent (keys s k) \<noteq> 0"
  shows "key_unlink_name E (set_key s k ((keys s k)\<lparr>kflags := kflags (keys s k) OR KEY_DELETED\<rparr>)) k = Some (detached E s k)"
proof -
  let ?p = "kparent (keys s k)" and ?g = "(keys s k)\<lparr>kflags := kflags (keys s k) OR KEY_DELETED\<rparr>"
  have pk: "?p \<noteq> k" using reg_inv_D(1)[OF assms(1,2)] by simp
  have f: "kparent (keys (set_key s k ?g) k) = ?p" "k \<in> set (subkeys (keys (set_key s k ?g) ?p))" "keys (set_key s k ?g) ?p = keys s ?p"
    "keys (set_key s k ?g) k = ?g"
    using pk reg_inv_D(7)[OF assms(1,2)] assms(3) by simp_all
  show ?thesis
    unfolding key_unlink_name_run[OF f(1) assms(3) f(2) pk] f(3,4) put_subkeys_set_key[OF pk] set_key_again detached_def Let_def by simp
qed

lemma detached_keys:
  assumes "reg_inv cm s" "alive s k"
  shows "next_key (detached E s k) = next_key s" "kparent (keys (detached E s k) k) = 0" "kname (keys (detached E s k) k) = []"
    "kflags (keys (detached E s k) k) = kflags (keys s k) OR KEY_DELETED"
    "q \<noteq> k \<Longrightarrow> kparent (keys (detached E s k) q) = kparent (keys s q) \<and> kname (keys (detached E s k) q) = kname (keys s q) \<and>
      kflags (keys (detached E s k) q) = kflags (keys s q)"
    "kvalues (keys (detached E s k) q) = kvalues (keys s q)" "nb_values (keys (detached E s k) q) = nb_values (keys s q)"
    "subkeys (keys (detached E s k) q) = (if q = kparent (keys s k) then remove1 k (subkeys (keys s q)) else subkeys (keys s q))"
    "q \<noteq> kparent (keys s k) \<Longrightarrow> nb_subkeys (keys (detached E s k) q) = nb_subkeys (keys s q) \<and> wow6432node (keys (detached E s k) q) = wow6432node (keys s q)"
    "q = kparent (keys s k) \<Longrightarrow> nb_subkeys (keys (detached E s k) q) =
        shrink_array E MIN_SUBKEYS (length (remove1 k (subkeys (keys s q)))) (nb_subkeys (keys s q)) \<and>
      wow6432node (keys (detached E s k) q) = (if wow6432node (keys s q) = k then 0 else wow6432node (keys s q))"
proof -
  have "kparent (keys s k) \<noteq> k" using reg_inv_D(1)[OF assms] by simp
  then show "next_key (detached E s k) = next_key s" "kparent (keys (detached E s k) k) = 0" "kname (keys (detached E s k) k) = []"
    "kflags (keys (detached E s k) k) = kflags (keys s k) OR KEY_DELETED"
    "q \<noteq> k \<Longrightarrow> kparent (keys (detached E s k) q) = kparent (keys s q) \<and> kname (keys (detached E s k) q) = kname (keys s q) \<and>
      kflags (keys (detached E s k) q) = kflags (keys s q)"
    "kvalues (keys (detached E s k) q) = kvalues (keys s q)" "nb_values (keys (detached E s k) q) = nb_values (keys s q)"
    "subkeys (keys (detached E s k) q) = (if q = kparent (keys s k) then remove1 k (subkeys (keys s q)) else subkeys (keys s q))"
    "q \<noteq> kparent (keys s k) \<Longrightarrow> nb_subkeys (keys (detached E s k) q) = nb_subkeys (keys s q) \<and> wow6432node (keys (detached E s k) q) = wow6432node (keys s q)"
    "q = kparent (keys s k) \<Longrightarrow> nb_subkeys (keys (detached E s k) q) =
        shrink_array E MIN_SUBKEYS (length (remove1 k (subkeys (keys s q)))) (nb_subkeys (keys s q)) \<and>
      wow6432node (keys (detached E s k) q) = (if wow6432node (keys s q) = k then 0 else wow6432node (keys s q))"
    by (simp_all add: detached_def Let_def)
qed

lemma remove1_is_remove_at: "k \<in> set ks \<Longrightarrow> remove1 k ks = remove_at (length (takeWhile (\<lambda>c. c \<noteq> k) ks)) ks"
  by (induction ks) (auto simp: remove_at_def)

lemma deleted_flag: "(fl OR KEY_DELETED) AND KEY_PREDEF = fl AND KEY_PREDEF"
  by (simp add: bit.conj_disj_distrib2 KEY_DELETED_def KEY_PREDEF_def)

lemma reg_inv_detached:
  assumes inv: "reg_inv cm s" and k: "alive s k" and p: "kparent (keys s k) \<noteq> 0" and nil: "subkeys (keys s k) = []"
  shows "reg_inv cm (detached E s k)" "only_deleted s (detached E s k) (\<lambda>q. q = k)" "dirty_up s \<Longrightarrow> dirty_up (detached E s k)"
proof -
  let ?p = "kparent (keys s k)" and ?s = "detached E s k"
  note dk = detached_keys[OF inv k, where E = E]
  have pk: "?p < k" "alive s ?p" using reg_inv_D(1)[OF inv k] p k by auto
  have kin: "k \<in> set (subkeys (keys s ?p))" using reg_inv_D(7)[OF inv k p] .
  have subs: "set (subkeys (keys ?s q)) = set (subkeys (keys s q)) - {k}" if "alive s q" for q
  proof (cases "q = ?p")
    case True
    then show ?thesis using dk(8) set_remove1_eq[OF subkeys_distinct[OF inv that]] by simp
  next
    case False
    then have "k \<notin> set (subkeys (keys s q))" using reg_inv_D(2)[OF inv that] by blast
    then show ?thesis using False dk(8) by simp
  qed
  have ch: "c \<noteq> k \<and> kparent (keys ?s c) = q \<and> c < next_key ?s \<and> 0 < c" if "alive s q" "c \<in> set (subkeys (keys ?s q))" for q c
    using that subs[OF that(1)] reg_inv_D(2)[OF inv that(1), of c] dk(1,5) by auto
  have nm: "kname (keys ?s c) = kname (keys s c)" if "alive s q" "c \<in> set (subkeys (keys ?s q))" for q c using ch[OF that] dk(5) by blast
  have asc: "ascending (\<lambda>c. name_key cm (kname (keys ?s c))) (subkeys (keys ?s q))" if q: "alive s q" for q
  proof -
    let ?g = "\<lambda>c. name_key cm (kname (keys s c))"
    have "ascending ?g (subkeys (keys ?s q))"
      using reg_inv_D(3)[OF inv q] dk(8)[of q] kin remove1_is_remove_at[OF kin] ascending_remove[OF reg_inv_D(3)[OF inv q]] by auto
    moreover have "ascending (\<lambda>c. name_key cm (kname (keys ?s c))) (subkeys (keys ?s q)) = ascending ?g (subkeys (keys ?s q))"
      by (rule ascending_cong) (simp add: nm[OF q])
    ultimately show ?thesis by blast
  qed
  show "reg_inv cm ?s"
    unfolding reg_inv_def
  proof (intro allI impI)
    fix q assume "alive ?s q"
    then have q: "alive s q" using dk(1) by simp
    have z: "0 \<notin> set (subkeys (keys ?s q))" "\<forall>c \<in> set (subkeys (keys ?s q)). c < next_key ?s \<and> kparent (keys ?s c) = q" using ch[OF q] by blast+
    have vals: "ascending (\<lambda>v. name_key cm (vname v)) (kvalues (keys ?s q))" "array_ok MIN_VALUES (length (kvalues (keys ?s q))) (nb_values (keys ?s q))"
      using reg_inv_D(5,6)[OF inv q] by (simp_all add: dk(6,7))
    show "key_ok cm ?s q"
    proof (cases "q = k")
      case True
      have sk: "subkeys (keys ?s k) = []" "nb_subkeys (keys ?s k) = nb_subkeys (keys s k)" "wow6432node (keys ?s k) = wow6432node (keys s k)"
        using dk(8)[of k] dk(9)[of k] nil pk(1) by auto
      show ?thesis unfolding True key_ok_def sk dk(2) using vals k reg_inv_D(4,9)[OF inv k] nil unfolding True by auto
    next
      case False
      note f = conjunct1[OF dk(5)[OF False]] conjunct2[OF conjunct2[OF dk(5)[OF False]]]
      have ar: "array_ok MIN_SUBKEYS (length (subkeys (keys ?s q))) (nb_subkeys (keys ?s q))"
      proof (cases "q = ?p")
        case True
        have "array_ok MIN_SUBKEYS (length (remove1 k (subkeys (keys s q)))) (nb_subkeys (keys s q))"
          using reg_inv_D(4)[OF inv q] by (auto simp: array_ok_def length_remove1)
        then show ?thesis using dk(8)[of q] dk(10)[OF True] True array_shrink by (simp add: MIN_SUBKEYS_def)
      next
        case False
        then show ?thesis using dk(8)[of q] dk(9)[OF False] reg_inv_D(4)[OF inv q] by simp
      qed
      have wow: "wow6432node (keys ?s q) \<noteq> 0 \<longrightarrow> wow6432node (keys ?s q) \<in> set (subkeys (keys ?s q))"
        using reg_inv_D(9)[OF inv q] dk(9)[of q] dk(10)[of q] subs[OF q] reg_inv_D(2)[OF inv q, of k] by (cases "q = ?p") auto
      have par: "kparent (keys s q) \<noteq> 0 \<longrightarrow> q \<in> set (subkeys (keys ?s (kparent (keys s q)))) \<and> kflags (keys ?s (kparent (keys s q))) = kflags (keys s (kparent (keys s q)))"
      proof
        assume r: "kparent (keys s q) \<noteq> 0"
        have a: "alive s (kparent (keys s q))" using reg_inv_D(1)[OF inv q] r q by auto
        have "kparent (keys s q) \<noteq> k" using reg_inv_D(7)[OF inv q r] nil by auto
        then show "q \<in> set (subkeys (keys ?s (kparent (keys s q)))) \<and> kflags (keys ?s (kparent (keys s q))) = kflags (keys s (kparent (keys s q)))"
          using reg_inv_D(7)[OF inv q r] subs[OF a] False dk(5) by auto
      qed
      have del: "has s KEY_DELETED q \<longrightarrow> subkeys (keys ?s q) = [] \<and> kparent (keys s q) = 0"
        using reg_inv_D(8)[OF inv q] dk(8)[of q] by auto
      show ?thesis
        unfolding key_ok_def f using reg_inv_D(1,10)[OF inv q] z vals asc[OF q] ar wow par del by auto
    qed
  qed
  show "only_deleted s ?s (\<lambda>q. q = k)"
    unfolding only_deleted_def using dk(1-4) dk(5) dk(6) by (auto simp: deleted_flag)
  show "dirty_up ?s" if d: "dirty_up s"
    unfolding dirty_but_def
  proof (intro allI impI, elim conjE)
    fix q assume q: "0 < q" "q < next_key ?s" "has ?s KEY_DIRTY q" "\<not> has ?s KEY_VOLATILE q" "kparent (keys ?s q) \<noteq> 0" "kparent (keys ?s q) \<noteq> 0"
    have qk: "q \<noteq> k" using q(5) dk(2) by auto
    have a: "alive s q" using q(1,2) dk(1) by simp
    have "has s KEY_DIRTY (kparent (keys s q))"
      using d a q(3-5) dk(5)[OF qk] unfolding dirty_but_def by auto
    moreover have "kparent (keys s q) \<noteq> k" using reg_inv_D(7)[OF inv a] q(5) dk(5)[OF qk] nil by auto
    ultimately show "has ?s KEY_DIRTY (kparent (keys ?s q))" using dk(5)[OF qk] dk(5)[of "kparent (keys s q)"] by simp
  qed
qed

text \<open>The end of \<^verbatim>\<open>delete_key\<close>, once the key has no subkeys.\<close>

lemma delete_last:
  assumes inv: "reg_inv cm s" and k: "alive s k" and p: "kparent (keys s k) \<noteq> 0" and nil: "subkeys (keys s k) = []"
  shows "\<exists>s'. key_unlink_name E (set_key s k ((keys s k)\<lparr>kflags := kflags (keys s k) OR KEY_DELETED\<rparr>)) k \<bind>
      (\<lambda>s2. touch_key s2 (kparent (keys s k)) REG_NOTIFY_CHANGE_NAME) = Some s' \<and>
    reg_inv cm s' \<and> only_deleted s s' (\<lambda>q. q = k) \<and> (dirty_up s \<longrightarrow> dirty_up s')"
proof -
  note d = reg_inv_detached[OF assms, of E]
  have "alive (detached E s k) (kparent (keys s k))" using detached_keys(1)[OF inv k] reg_inv_D(1)[OF inv k] p k by auto
  from touch_key_effect[OF reg_inv_chain[OF d(1)] this] obtain s' where s': "touch_key (detached E s k) (kparent (keys s k)) REG_NOTIFY_CHANGE_NAME = Some s'"
    "same (detached E s k) s'" "volatile_down (detached E s k) \<and> dirty_but (kparent (keys s k)) (detached E s k) \<longrightarrow> dirty_up s'" by blast
  have "only_deleted s s' (\<lambda>q. q = k)"
    using only_deleted_cong[OF only_deleted_trans[OF d(2) only_deleted_same[OF s'(2)]], of "\<lambda>q. q = k"] by simp
  moreover have "dirty_up s \<longrightarrow> dirty_up s'" using s'(3) d(3) reg_inv_volatile[OF d(1)] by (auto simp: dirty_but_def)
  ultimately show ?thesis using key_unlink_deleted[OF inv k p] s'(1) reg_inv_same[OF s'(2)] d(1) by auto
qed

section \<open>The recursion\<close>

definition linked_above :: "registry \<Rightarrow> ptr \<Rightarrow> ptr set" where
  "linked_above s k = {q. alive s q \<and> k < q \<and> kparent (keys s q) \<noteq> 0}"

lemma linked_above_finite: "finite (linked_above s k)"
  by (rule finite_subset[of _ "{..<next_key s}"]) (auto simp: linked_above_def)

lemma linked_above_less:
  assumes "reg_inv cm s" "alive s k" "c \<in> set (subkeys (keys s k))"
  shows "card (linked_above s c) < card (linked_above s k)"
proof (rule psubset_card_mono[OF linked_above_finite])
  have c: "alive s c" "kparent (keys s c) = k" "k < c" using reg_inv_D(2)[OF assms] reg_inv_D(1)[OF assms(1), of c] by auto
  then have "c \<in> linked_above s k" "c \<notin> linked_above s c" using assms(2) by (auto simp: linked_above_def)
  moreover have "linked_above s c \<subseteq> linked_above s k" using c(3) by (auto simp: linked_above_def)
  ultimately show "linked_above s c \<subset> linked_above s k" by blast
qed

lemma linked_above_deleted:
  assumes "reg_inv cm s" "alive s k" "c \<in> set (subkeys (keys s k))" "only_deleted s s1 X" "X c"
  shows "card (linked_above s1 k) < card (linked_above s k)"
proof (rule psubset_card_mono[OF linked_above_finite])
  have c: "alive s c" "kparent (keys s c) = k" "k < c" using reg_inv_D(2)[OF assms(1-3)] reg_inv_D(1)[OF assms(1), of c] by auto
  have "c \<in> linked_above s k" using c assms(2) by (auto simp: linked_above_def)
  moreover have "c \<notin> linked_above s1 k" using only_deleted_D(2)[OF assms(4) c(1) assms(5)] by (simp add: linked_above_def)
  moreover have "linked_above s1 k \<subseteq> linked_above s k"
    using assms(4) by (auto simp: linked_above_def only_deleted_def split: if_splits)
  ultimately show "linked_above s1 k \<subset> linked_above s k" by blast
qed

text \<open>The outcome of deleting a set of keys: all of them, or with an error only some.\<close>

definition deleted_all :: "(nat \<Rightarrow> nat) \<Rightarrow> registry \<Rightarrow> registry \<Rightarrow> status option \<Rightarrow> (ptr \<Rightarrow> bool) \<Rightarrow> bool" where
  "deleted_all cm s s' err X =
     (reg_inv cm s' \<and> (dirty_up s \<longrightarrow> dirty_up s') \<and>
      (\<exists>Y. only_deleted s s' Y \<and> (\<forall>q. alive s q \<and> Y q \<longrightarrow> X q) \<and> (err = None \<longrightarrow> Y = X)) \<and>
      (err \<noteq> None \<longrightarrow> (\<exists>q. alive s q \<and> X q \<and> has s KEY_PREDEF q)))"

lemma below_parent: "kparent (keys s c) = k \<Longrightarrow> k \<noteq> 0 \<Longrightarrow> below s c q \<Longrightarrow> below s k q"
  by (rule below_trans[of s c q k]) (auto intro: below.intros)

lemma deleted_all_step:
  assumes inv: "reg_inv cm s" and k: "alive s k" and c: "c \<in> set (subkeys (keys s k))"
    and 1: "deleted_all cm s s1 None (below s c)" and 2: "deleted_all cm s1 s2 err (\<lambda>q. below s1 k q \<and> q \<noteq> k)"
  shows "deleted_all cm s s2 err (\<lambda>q. below s k q \<and> q \<noteq> k)"
proof -
  have cc: "alive s c" "kparent (keys s c) = k" "k < c" using reg_inv_D(2)[OF inv k c] reg_inv_D(1)[OF inv, of c] by auto
  have d1: "only_deleted s s1 (below s c)" using 1 by (auto simp: deleted_all_def)
  have n: "next_key s1 = next_key s" using only_deleted_D(1)[OF d1 k] .
  have bk: "below s1 k q \<longleftrightarrow> q = k \<or> (below s k q \<and> \<not> below s c q)" if "alive s q" for q
    by (rule below_deleted[OF inv d1 _ that]) (rule below.down)
  have sub: "below s k q \<and> q \<noteq> k" if "below s c q" "alive s q" for q
    using below_parent[OF cc(2) _ that(1)] below_le[OF that(1) inv that(2)] k cc(3) by auto
  obtain Y where Y: "only_deleted s1 s2 Y" "\<forall>q. alive s1 q \<and> Y q \<longrightarrow> below s1 k q \<and> q \<noteq> k"
    "err = None \<longrightarrow> Y = (\<lambda>q. below s1 k q \<and> q \<noteq> k)" using 2 by (auto simp: deleted_all_def)
  have d: "only_deleted s s2 (\<lambda>q. below s c q \<or> Y q)" by (rule only_deleted_trans[OF d1 Y(1)])
  have some: "\<forall>q. alive s q \<and> (below s c q \<or> Y q) \<longrightarrow> below s k q \<and> q \<noteq> k" using sub Y(2) bk n by auto
  have "only_deleted s s2 (\<lambda>q. below s k q \<and> q \<noteq> k)" if "err = None"
    by (rule only_deleted_cong[OF d]) (use that Y(3) bk sub in auto)
  then have "\<exists>Z. only_deleted s s2 Z \<and> (\<forall>q. alive s q \<and> Z q \<longrightarrow> below s k q \<and> q \<noteq> k) \<and> (err = None \<longrightarrow> Z = (\<lambda>q. below s k q \<and> q \<noteq> k))"
    using d some by (cases "err = None") auto
  moreover have "err \<noteq> None \<longrightarrow> (\<exists>q. alive s q \<and> (below s k q \<and> q \<noteq> k) \<and> has s KEY_PREDEF q)"
  proof
    assume "err \<noteq> None"
    then obtain q where q: "alive s1 q" "below s1 k q" "q \<noteq> k" "has s1 KEY_PREDEF q" using 2 by (auto simp: deleted_all_def)
    then have a: "alive s q" using n by simp
    then have b: "below s k q" "\<not> below s c q" using bk q by auto
    show "\<exists>q. alive s q \<and> (below s k q \<and> q \<noteq> k) \<and> has s KEY_PREDEF q"
      using a b q only_deleted_D(4)[OF d1 a b(2)] by (intro exI[of _ q]) simp
  qed
  ultimately show ?thesis using 1 2 by (auto simp: deleted_all_def)
qed

lemma deleted_all_weaken:
  "deleted_all cm s s' err X \<Longrightarrow> err \<noteq> None \<Longrightarrow> (\<And>q. alive s q \<Longrightarrow> X q \<Longrightarrow> Y q) \<Longrightarrow> deleted_all cm s s' err Y"
  unfolding deleted_all_def by blast

lemma only_deleted_refl: "only_deleted s s (\<lambda>_. False)"
  by (rule only_deleted_same) simp

lemma deleted_all_none: "reg_inv cm s \<Longrightarrow> \<exists>q. alive s q \<and> below s k q \<and> has s KEY_PREDEF q \<Longrightarrow> deleted_all cm s s (Some e) (below s k)"
  unfolding deleted_all_def using only_deleted_refl[of s] by blast

text \<open>A key without subkeys has no key below it.\<close>

lemma below_leaf: "reg_inv cm s \<Longrightarrow> alive s k \<Longrightarrow> subkeys (keys s k) = [] \<Longrightarrow> alive s q \<Longrightarrow> below s k q \<longleftrightarrow> q = k"
proof
  assume a: "reg_inv cm s" "alive s k" "subkeys (keys s k) = []"
  show "below s k q \<Longrightarrow> alive s q \<Longrightarrow> q = k"
  proof (induction rule: below.induct)
    case (down q)
    have "alive s (kparent (keys s q))" using reg_inv_D(1)[OF a(1) down.prems] down.prems down.hyps(1) by auto
    then have "kparent (keys s q) = k" using down.IH by blast
    then show ?case using reg_inv_D(7)[OF a(1) down.prems down.hyps(1)] a(3) by simp
  qed simp
qed (auto intro: below.here)

lemma deleted_all_leaf:
  assumes "reg_inv cm s" "alive s k" "subkeys (keys s k) = []"
  shows "deleted_all cm s s None (\<lambda>q. below s k q \<and> q \<noteq> k)"
proof -
  have "only_deleted s s (\<lambda>q. below s k q \<and> q \<noteq> k)"
    by (rule only_deleted_cong[OF only_deleted_refl]) (use below_leaf[OF assms] in auto)
  then show ?thesis using assms(1) by (auto simp: deleted_all_def)
qed

lemma deleted_all_gone:
  assumes "reg_inv cm s" "alive s k" "has s KEY_DELETED k"
  shows "deleted_all cm s s None (below s k)"
proof -
  have g: "subkeys (keys s k) = []" "kparent (keys s k) = 0" using reg_inv_D(8)[OF assms(1-3)] by simp_all
  have "only_deleted s s (\<lambda>q. q = k)" using only_deleted_refl[of s] g(2) assms(3) by (auto simp: only_deleted_def)
  then have "only_deleted s s (below s k)" by (rule only_deleted_cong) (use below_leaf[OF assms(1,2) g(1)] in auto)
  then show ?thesis using assms(1) by (auto simp: deleted_all_def)
qed

lemma delete_recursion:
  "reg_inv cm s \<Longrightarrow> alive s k \<Longrightarrow> 2 * card (linked_above s k) < n \<Longrightarrow> has s KEY_DELETED k \<or> kparent (keys s k) \<noteq> 0 \<Longrightarrow> recurse \<Longrightarrow>
    \<exists>s' err. delete_key_fuel n E s k recurse = Some (s', err) \<and> deleted_all cm s s' err (below s k)"
  "reg_inv cm s \<Longrightarrow> alive s k \<Longrightarrow> 2 * card (linked_above s k) \<le> n \<Longrightarrow>
    \<exists>s' err. delete_subkeys n E s k = Some (s', err) \<and> deleted_all cm s s' err (\<lambda>q. below s k q \<and> q \<noteq> k) \<and>
      (err = None \<longrightarrow> subkeys (keys s' k) = [])"
proof (induction n E s k recurse and n E s k rule: delete_key_fuel_delete_subkeys.induct)
  case (1 E s k recurse)
  then show ?case by simp
next
  case (2 n E s k recurse)
  note inv = "2.prems"(1) and k = "2.prems"(2)
  consider "has s KEY_DELETED k" | "\<not> has s KEY_DELETED k" "has s KEY_PREDEF k" | "\<not> has s KEY_DELETED k" "\<not> has s KEY_PREDEF k" by blast
  then show ?case
  proof cases
    case 1
    have "deleted_all cm s s None (below s k)" using deleted_all_gone[OF inv k 1] .
    then show ?thesis using 1 by (simp add: Let_def)
  next
    case 2
    have "deleted_all cm s s (Some STATUS_INVALID_HANDLE) (below s k)" using deleted_all_none[OF inv, of k] 2(2) k below.here by blast
    then show ?thesis using 2 "2.prems"(4) by (simp add: Let_def get_parent_def)
  next
    case 3
    have p: "kparent (keys s k) \<noteq> 0" using "2.prems"(4) 3 by blast
    have "2 * card (linked_above s k) \<le> n" using "2.prems"(3) by simp
    from "2.IH"[OF refl 3(1) _ _ "2.prems"(5) inv k this] p 3(2) obtain s1 err where 1: "delete_subkeys n E s k = Some (s1, err)"
      "deleted_all cm s s1 err (\<lambda>q. below s k q \<and> q \<noteq> k)" "err = None \<longrightarrow> subkeys (keys s1 k) = []"
      by (auto simp: get_parent_def)
    show ?thesis
    proof (cases err)
      case (Some e)
      have "deleted_all cm s s1 err (below s k)" by (rule deleted_all_weaken[OF 1(2)]) (use Some in auto)
      then show ?thesis using 1(1) 3 p "2.prems"(5) Some by (simp add: Let_def get_parent_def)
    next
      case None
      have d1: "only_deleted s s1 (\<lambda>q. below s k q \<and> q \<noteq> k)" and inv1: "reg_inv cm s1" and du1: "dirty_up s \<longrightarrow> dirty_up s1"
        using 1(2) None by (auto simp: deleted_all_def)
      have k1: "alive s1 k" "kparent (keys s1 k) = kparent (keys s k)" using only_deleted_D(1,3)[OF d1 k] k by auto
      obtain s3 where s3: "key_unlink_name E (set_key s1 k ((keys s1 k)\<lparr>kflags := kflags (keys s1 k) OR KEY_DELETED\<rparr>)) k \<bind>
          (\<lambda>s2. touch_key s2 (kparent (keys s1 k)) REG_NOTIFY_CHANGE_NAME) = Some s3"
        "reg_inv cm s3" "only_deleted s1 s3 (\<lambda>q. q = k)" "dirty_up s1 \<longrightarrow> dirty_up s3"
        using delete_last[OF inv1 k1(1), of E] k1(2) p 1(3) None by auto
      have "delete_key_fuel (Suc n) E s k recurse = Some (s3, None)"
        using 1(1) 3 p "2.prems"(5) None s3(1) k1(2) by (auto simp: Let_def get_parent_def bind_eq_Some_conv)
      moreover have "only_deleted s s3 (below s k)"
        by (rule only_deleted_cong[OF only_deleted_trans[OF d1 s3(3)]]) (auto intro: below.here)
      ultimately show ?thesis using s3(2,4) du1 by (auto simp: deleted_all_def)
    qed
  qed
next
  case (3 E s k)
  have "subkeys (keys s k) = []"
  proof (rule ccontr)
    assume "subkeys (keys s k) \<noteq> []"
    then have "last (subkeys (keys s k)) \<in> set (subkeys (keys s k))" by simp
    from linked_above_less[OF 3(1,2) this] show False using 3(3) by simp
  qed
  then show ?case using deleted_all_leaf[OF 3(1,2)] by simp
next
  case (4 n E s k)
  note inv = "4.prems"(1) and k = "4.prems"(2)
  show ?case
  proof (cases "subkeys (keys s k) = []")
    case True
    then show ?thesis using deleted_all_leaf[OF inv k True] by simp
  next
    case False
    let ?c = "last (subkeys (keys s k))"
    have c: "?c \<in> set (subkeys (keys s k))" using False by simp
    have cc: "alive s ?c" "kparent (keys s ?c) \<noteq> 0" "kparent (keys s ?c) = k" using reg_inv_D(2)[OF inv k c] k by auto
    have "2 * card (linked_above s ?c) < n" using linked_above_less[OF inv k c] "4.prems"(3) by simp
    from "4.IH"(1)[OF False inv cc(1) this _ TrueI] cc(2) obtain s1 err where
      1: "delete_key_fuel n E s ?c True = Some (s1, err)" "deleted_all cm s s1 err (below s ?c)" by blast
    show ?thesis
    proof (cases err)
      case (Some e)
      have sub: "below s k q \<and> q \<noteq> k" if "below s ?c q" "alive s q" for q
        using below_parent[OF cc(3) _ that(1)] below_le[OF that(1) inv that(2)] k reg_inv_D(1)[OF inv cc(1)] cc(3) by auto
      have "deleted_all cm s s1 err (\<lambda>q. below s k q \<and> q \<noteq> k)" by (rule deleted_all_weaken[OF 1(2)]) (use Some sub in auto)
      then show ?thesis using 1(1) False Some by simp
    next
      case None
      have d1: "only_deleted s s1 (below s ?c)" and inv1: "reg_inv cm s1" using 1(2) None by (auto simp: deleted_all_def)
      have k1: "alive s1 k" using only_deleted_D(1)[OF d1 k] k by auto
      have "2 * card (linked_above s1 k) \<le> n" using linked_above_deleted[OF inv k c d1 below.here] "4.prems"(3) by simp
      from "4.IH"(2)[OF False 1(1)[unfolded None] refl refl inv1 k1 this] obtain s2 err2 where
        2: "delete_subkeys n E s1 k = Some (s2, err2)" "deleted_all cm s1 s2 err2 (\<lambda>q. below s1 k q \<and> q \<noteq> k)"
          "err2 = None \<longrightarrow> subkeys (keys s2 k) = []" by blast
      have "deleted_all cm s s2 err2 (\<lambda>q. below s k q \<and> q \<noteq> k)" by (rule deleted_all_step[OF inv k c 1(2)[unfolded None] 2(2)])
      then show ?thesis using 1(1) 2(1,3) False None by simp
    qed
  qed
qed

section \<open>The request\<close>

lemma linked_above_card: "card (linked_above s k) < next_key s" if "alive s k"
proof -
  have "linked_above s k \<subseteq> {1..<next_key s}" by (auto simp: linked_above_def)
  then have "card (linked_above s k) \<le> card {1..<next_key s}" by (rule card_mono[rotated]) simp
  then show ?thesis using that by auto
qed

text \<open>With all keys below it, unless it is the root.\<close>

lemma delete_key_effect:
  assumes inv: "reg_inv cm s" and k: "alive s k"
  shows "has s KEY_DELETED k \<or> kparent (keys s k) \<noteq> 0 \<Longrightarrow>
      \<exists>s' err. delete_key E s k True = Some (s', err) \<and> deleted_all cm s s' err (below s k)"
    and "\<not> has s KEY_DELETED k \<Longrightarrow> kparent (keys s k) = 0 \<Longrightarrow> delete_key E s k recurse = Some (s, Some STATUS_ACCESS_DENIED)"
    and "\<exists>s' err. delete_key E s k False = Some (s', err) \<and> reg_inv cm s' \<and> (dirty_up s \<longrightarrow> dirty_up s') \<and>
      (if err = None \<and> \<not> has s KEY_DELETED k then only_deleted s s' (\<lambda>q. q = k) \<and> subkeys (keys s k) = [] else s' = s)"
proof -
  have fuel: "2 * card (linked_above s k) < 2 * next_key s" using linked_above_card[OF k] by simp
  obtain n where n: "2 * next_key s = Suc n" using k by (cases "2 * next_key s") auto
  show "has s KEY_DELETED k \<or> kparent (keys s k) \<noteq> 0 \<Longrightarrow>
      \<exists>s' err. delete_key E s k True = Some (s', err) \<and> deleted_all cm s s' err (below s k)"
    using delete_recursion(1)[OF inv k fuel _ TrueI] by (simp add: delete_key_def)
  show "\<not> has s KEY_DELETED k \<Longrightarrow> kparent (keys s k) = 0 \<Longrightarrow> delete_key E s k recurse = Some (s, Some STATUS_ACCESS_DENIED)"
    unfolding delete_key_def n by (simp add: Let_def get_parent_def)
  show "\<exists>s' err. delete_key E s k False = Some (s', err) \<and> reg_inv cm s' \<and> (dirty_up s \<longrightarrow> dirty_up s') \<and>
      (if err = None \<and> \<not> has s KEY_DELETED k then only_deleted s s' (\<lambda>q. q = k) \<and> subkeys (keys s k) = [] else s' = s)"
  proof (cases "has s KEY_DELETED k")
    case True
    then have "delete_key E s k False = Some (s, None)" unfolding delete_key_def n by simp
    then show ?thesis using inv True by (intro exI[of _ s] exI[of _ None]) simp
  next
    case alive: False
    have err: ?thesis if "delete_key E s k False = Some (s, Some e)" for e using that inv by (intro exI[of _ s] exI[of _ "Some e"]) simp
    consider "kparent (keys s k) = 0" | "kparent (keys s k) \<noteq> 0" "has s KEY_PREDEF k" | "kparent (keys s k) \<noteq> 0" "\<not> has s KEY_PREDEF k" "subkeys (keys s k) \<noteq> []"
      | "kparent (keys s k) \<noteq> 0" "\<not> has s KEY_PREDEF k" "subkeys (keys s k) = []" by blast
    then show ?thesis
    proof cases
      case 4
      obtain s' where s': "key_unlink_name E (set_key s k ((keys s k)\<lparr>kflags := kflags (keys s k) OR KEY_DELETED\<rparr>)) k \<bind>
          (\<lambda>s2. touch_key s2 (kparent (keys s k)) REG_NOTIFY_CHANGE_NAME) = Some s'"
        "reg_inv cm s'" "only_deleted s s' (\<lambda>q. q = k)" "dirty_up s \<longrightarrow> dirty_up s'"
        using delete_last[OF inv k 4(1,3), of E] by blast
      have "delete_key E s k False = Some (s', None)"
        unfolding delete_key_def n using 4 alive s'(1) by (auto simp: Let_def get_parent_def bind_eq_Some_conv)
      then show ?thesis using s' 4(3) alive by (intro exI[of _ s'] exI[of _ None]) simp
    next
      case 1
      then show ?thesis using alive by (intro err) (simp add: delete_key_def n get_parent_def)
    next
      case 2
      then show ?thesis using alive by (intro err) (simp add: delete_key_def n get_parent_def)
    next
      case 3
      then show ?thesis using alive by (intro err) (simp add: delete_key_def n get_parent_def)
    qed
  qed
qed

end
