(* ===== verification/Registry_Save.thy ===== *)
theory Registry_Save
  imports Registry_Delete
begin

text \<open>Cleaning the marks of a saved branch.\<close>

section \<open>What is cleaned\<close>

text \<open>The keys that are reached from a key through modified keys that are not volatile.\<close>

abbreviation unsaved :: "registry \<Rightarrow> ptr \<Rightarrow> bool" where
  "unsaved s q \<equiv> has s KEY_DIRTY q \<and> \<not> has s KEY_VOLATILE q"

inductive dirty_below :: "registry \<Rightarrow> ptr \<Rightarrow> ptr \<Rightarrow> bool" for s k where
  here: "unsaved s k \<Longrightarrow> dirty_below s k k"
| down: "kparent (keys s q) \<noteq> 0 \<Longrightarrow> alive s q \<Longrightarrow> dirty_below s k (kparent (keys s q)) \<Longrightarrow> unsaved s q \<Longrightarrow> dirty_below s k q"

lemma dirty_below_below: "dirty_below s k q \<Longrightarrow> below s k q"
  by (induction rule: dirty_below.induct) (auto intro: below.intros)

lemma dirty_below_start: "dirty_below s k q \<Longrightarrow> unsaved s k"
  by (induction rule: dirty_below.induct)

text \<open>A modified key has modified keys all the way up.\<close>

lemma dirty_up_below:
  "below s k q \<Longrightarrow> reg_inv cm s \<Longrightarrow> dirty_up s \<Longrightarrow> alive s k \<Longrightarrow> alive s q \<Longrightarrow> unsaved s q \<Longrightarrow> dirty_below s k q"
proof (induction rule: below.induct)
  case here
  then show ?case by (simp add: dirty_below.here)
next
  case (down q)
  let ?r = "kparent (keys s q)"
  have "alive s ?r" using reg_inv_D(1)[OF down.prems(1,4)] down.hyps(1) down.prems(4) by auto
  moreover have "unsaved s ?r"
    using down.prems(2,4,5) down.hyps(1) reg_inv_D(10)[OF down.prems(1,4) down.hyps(1)] by (auto simp: dirty_but_def)
  ultimately show ?case using down by (auto intro: dirty_below.down)
qed

text \<open>The branches of two subkeys have no key in common.\<close>

lemma below_linear: "below s a q \<Longrightarrow> below s b q \<Longrightarrow> below s a b \<or> below s b a"
proof (induction rule: below.induct)
  case (down q)
  from down.prems show ?case using down by (subst (asm) below_iff) (auto intro: below.down)
qed simp

lemma siblings_disjoint:
  assumes inv: "reg_inv cm s" and a: "alive s a" and b: "alive s b" and p: "kparent (keys s a) = k" "kparent (keys s b) = k" "k \<noteq> 0" and ne: "a \<noteq> b"
  shows "\<not> (below s a q \<and> below s b q)"
proof
  assume "below s a q \<and> below s b q"
  then consider "below s a b" | "below s b a" using below_linear by blast
  then show False
  proof cases
    case 1
    then have "below s a k" using below_iff[of s a b] p(2) ne by auto
    moreover have "alive s k" "k < a" using reg_inv_D(1)[OF inv a] p(1,3) a by auto
    ultimately show False using below_le[OF _ inv] by fastforce
  next
    case 2
    then have "below s b k" using below_iff[of s b a] p(1) ne by auto
    moreover have "alive s k" "k < b" using reg_inv_D(1)[OF inv b] p(2,3) b by auto
    ultimately show False using below_le[OF _ inv] by fastforce
  qed
qed

section \<open>Cleaning\<close>

definition cleaned :: "registry \<Rightarrow> (ptr \<Rightarrow> bool) \<Rightarrow> registry" where
  "cleaned s X = s\<lparr>keys := (\<lambda>q. if X q then (keys s q)\<lparr>kflags := kflags (keys s q) AND NOT KEY_DIRTY\<rparr> else keys s q)\<rparr>"

lemma clean_flag [simp]:
  "(f AND NOT KEY_DIRTY) AND KEY_VOLATILE = f AND KEY_VOLATILE" "(f AND NOT KEY_DIRTY) AND KEY_DELETED = f AND KEY_DELETED"
  "(f AND NOT KEY_DIRTY) AND KEY_DIRTY = 0"
proof -
  have d: "NOT KEY_DIRTY AND KEY_VOLATILE = KEY_VOLATILE" "NOT KEY_DIRTY AND KEY_DELETED = KEY_DELETED"
    by (simp_all add: KEY_DIRTY_def KEY_VOLATILE_def KEY_DELETED_def)
  show "(f AND NOT KEY_DIRTY) AND KEY_VOLATILE = f AND KEY_VOLATILE" "(f AND NOT KEY_DIRTY) AND KEY_DELETED = f AND KEY_DELETED"
    unfolding and.assoc d by (rule refl)+
  show "(f AND NOT KEY_DIRTY) AND KEY_DIRTY = 0" by (simp add: and.assoc)
qed

lemma cleaned_fields [simp]:
  "next_key (cleaned s X) = next_key s" "kname (keys (cleaned s X) q) = kname (keys s q)" "kparent (keys (cleaned s X) q) = kparent (keys s q)"
  "subkeys (keys (cleaned s X) q) = subkeys (keys s q)" "nb_subkeys (keys (cleaned s X) q) = nb_subkeys (keys s q)"
  "kvalues (keys (cleaned s X) q) = kvalues (keys s q)" "nb_values (keys (cleaned s X) q) = nb_values (keys s q)"
  "wow6432node (keys (cleaned s X) q) = wow6432node (keys s q)"
  "kflags (keys (cleaned s X) q) AND KEY_VOLATILE = kflags (keys s q) AND KEY_VOLATILE"
  "kflags (keys (cleaned s X) q) AND KEY_DELETED = kflags (keys s q) AND KEY_DELETED"
  "kflags (keys (cleaned s X) q) = (if X q then kflags (keys s q) AND NOT KEY_DIRTY else kflags (keys s q))"
  by (simp_all add: cleaned_def)

lemma reg_inv_cleaned: "reg_inv cm (cleaned s X) = reg_inv cm s"
  unfolding reg_inv_def key_ok_def cleaned_fields(1-10) by (rule refl)

lemma below_cleaned: "below (cleaned s X) k q = below s k q"
proof
  show "below (cleaned s X) k q \<Longrightarrow> below s k q" by (induction rule: below.induct) (auto intro: below.intros)
  show "below s k q \<Longrightarrow> below (cleaned s X) k q"
  proof (induction rule: below.induct)
    case (down q)
    then show ?case using below.down[of "cleaned s X" q k] by simp
  qed (rule below.here)
qed

lemma cleaned_twice: "cleaned (cleaned s X) Y = cleaned s (\<lambda>q. X q \<or> Y q)"
proof -
  have "(f AND NOT KEY_DIRTY) AND NOT KEY_DIRTY = f AND NOT KEY_DIRTY" for f :: u32 by (simp add: and.assoc)
  then show ?thesis by (auto simp: cleaned_def fun_eq_iff)
qed

lemma cleaned_cong: "(\<And>q. X q = Y q) \<Longrightarrow> cleaned s X = cleaned s Y"
  by (simp add: cleaned_def)

text \<open>Cleaning elsewhere does not change what is reached.\<close>

lemma dirty_below_cleaned:
  assumes "\<And>q. X q \<Longrightarrow> \<not> below s k q"
  shows "dirty_below (cleaned s X) k q = dirty_below s k q"
proof
  show "dirty_below (cleaned s X) k q \<Longrightarrow> dirty_below s k q"
  proof (induction rule: dirty_below.induct)
    case here
    then show ?case by (auto intro!: dirty_below.here split: if_splits)
  next
    case (down q)
    then show ?case by (auto intro!: dirty_below.down split: if_splits)
  qed
  show "dirty_below s k q \<Longrightarrow> dirty_below (cleaned s X) k q"
  proof (induction rule: dirty_below.induct)
    case here
    then have "unsaved (cleaned s X) k" using assms[of k] below.here[of s k] by auto
    then show ?case by (rule dirty_below.here)
  next
    case (down q)
    have "below s k q" using dirty_below_below[OF down.hyps(3)] down.hyps(1) by (rule below.down[rotated])
    then have "\<not> X q" using assms by blast
    then show ?case using down dirty_below.down[of "cleaned s X" q k] by simp
  qed
qed

lemma dirty_below_children:
  assumes inv: "reg_inv cm s" and k: "alive s k" and u: "unsaved s k"
  shows "dirty_below s k q \<longleftrightarrow> q = k \<or> (\<exists>c \<in> set (subkeys (keys s k)). dirty_below s c q)"
proof
  show "dirty_below s k q \<Longrightarrow> q = k \<or> (\<exists>c \<in> set (subkeys (keys s k)). dirty_below s c q)"
  proof (induction rule: dirty_below.induct)
    case (down q)
    from down.IH show ?case
    proof
      assume "kparent (keys s q) = k"
      then have "q \<in> set (subkeys (keys s k))" using reg_inv_D(7)[OF inv down.hyps(2,1)] by simp
      then show ?thesis using dirty_below.here[of s q] down.hyps(4) by blast
    next
      assume "\<exists>c \<in> set (subkeys (keys s k)). dirty_below s c (kparent (keys s q))"
      then show ?thesis using dirty_below.down[OF down.hyps(1,2) _ down.hyps(4)] by blast
    qed
  qed simp
  show "q = k \<or> (\<exists>c \<in> set (subkeys (keys s k)). dirty_below s c q) \<Longrightarrow> dirty_below s k q"
  proof (elim disjE bexE)
    fix c assume c: "c \<in> set (subkeys (keys s k))" "dirty_below s c q"
    have p: "alive s c" "kparent (keys s c) = k" using reg_inv_D(2)[OF inv k c(1)] by simp_all
    from c(2) show "dirty_below s k q"
    proof (induction rule: dirty_below.induct)
      case here
      then show ?case using dirty_below.down[of s c k] p k dirty_below.here[OF u] by simp
    next
      case (down q)
      then show ?case by (auto intro: dirty_below.down)
    qed
  qed (simp add: dirty_below.here u)
qed

lemma make_clean_effect:
  "reg_inv cm s \<Longrightarrow> alive s p \<Longrightarrow> next_key s - p \<le> n \<Longrightarrow> make_clean_fuel n s p = Some (cleaned s (dirty_below s p))"
  "reg_inv cm s \<Longrightarrow> alive s k \<Longrightarrow> distinct ps \<Longrightarrow> \<forall>c \<in> set ps. alive s c \<and> kparent (keys s c) = k \<Longrightarrow> next_key s - k \<le> Suc n \<Longrightarrow>
    make_clean_all n s ps = Some (cleaned s (\<lambda>q. \<exists>c \<in> set ps. dirty_below s c q))"
proof (induction n s p and n s ps arbitrary: and k rule: make_clean_fuel_make_clean_all.induct)
  case (1 s p)
  then show ?case by simp
next
  case (2 n s p)
  note inv = "2.prems"(1) and p = "2.prems"(2)
  show ?case
  proof (cases "unsaved s p")
    case False
    then have "cleaned s (dirty_below s p) = cleaned s (\<lambda>_. False)" using dirty_below_start[of s p] by (intro cleaned_cong) auto
    moreover have "cleaned s (\<lambda>_. False) = s" by (simp add: cleaned_def)
    moreover have "make_clean_fuel (Suc n) s p = Some s" using False by (cases "has s KEY_VOLATILE p") simp_all
    ultimately show ?thesis by simp
  next
    case True
    let ?s = "set_key s p ((keys s p)\<lparr>kflags := kflags (keys s p) AND NOT KEY_DIRTY\<rparr>)"
    have s: "?s = cleaned s (\<lambda>q. q = p)" by (auto simp: set_key_def cleaned_def fun_eq_iff)
    have subs: "distinct (subkeys (keys s p))" "\<forall>c \<in> set (subkeys (keys s p)). alive ?s c \<and> kparent (keys ?s c) = p"
      using subkeys_distinct[OF inv p] reg_inv_D(2)[OF inv p] unfolding s by simp_all
    have inv1: "reg_inv cm ?s" using inv unfolding s reg_inv_cleaned .
    have len: "next_key ?s - p \<le> Suc n" using "2.prems"(3) by simp
    have run: "make_clean_all n ?s (subkeys (keys s p)) = Some (cleaned ?s (\<lambda>q. \<exists>c \<in> set (subkeys (keys s p)). dirty_below ?s c q))"
      using "2.IH"[where k = p, OF _ _ inv1 _ subs len] True p by simp
    have "dirty_below ?s c q = dirty_below s c q" if "c \<in> set (subkeys (keys s p))" for c q
      unfolding s
    proof (rule dirty_below_cleaned)
      fix q assume "q = p"
      have c: "alive s c" "kparent (keys s c) = p" "p < c" using reg_inv_D(2)[OF inv p that] reg_inv_D(1)[OF inv, of c] by auto
      then show "\<not> below s c q" using below_le[OF _ inv p, of c] \<open>q = p\<close> by auto
    qed
    then have "cleaned ?s (\<lambda>q. \<exists>c \<in> set (subkeys (keys s p)). dirty_below ?s c q) = cleaned s (dirty_below s p)"
      unfolding s cleaned_twice using dirty_below_children[OF inv p True] by (intro cleaned_cong) auto
    then show ?thesis using run True by simp
  qed
next
  case (3 n s)
  then show ?case by (simp add: cleaned_def)
next
  case (4 n s c cs)
  note inv = "4.prems"(1) and k = "4.prems"(2)
  have c: "alive s c" "kparent (keys s c) = k" "k < c" using "4.prems"(4) reg_inv_D(1)[OF inv, of c] by auto
  have 1: "make_clean_fuel n s c = Some (cleaned s (dirty_below s c))" using "4.IH"(1)[OF inv c(1)] "4.prems"(5) c(3) by simp
  let ?s = "cleaned s (dirty_below s c)"
  have same: "dirty_below ?s d q = dirty_below s d q" if "d \<in> set cs" for d q
  proof (rule dirty_below_cleaned)
    fix q assume "dirty_below s c q"
    moreover have "alive s d" "kparent (keys s d) = k" "c \<noteq> d" using "4.prems"(3,4) that by auto
    ultimately show "\<not> below s d q" using siblings_disjoint[OF inv c(1) _ c(2)] dirty_below_below k by blast
  qed
  have "make_clean_all n ?s cs = Some (cleaned ?s (\<lambda>q. \<exists>d \<in> set cs. dirty_below ?s d q))"
    by (rule "4.IH"(2)[OF 1, where k = k]) (use "4.prems" reg_inv_cleaned in auto)
  moreover have "cleaned ?s (\<lambda>q. \<exists>d \<in> set cs. dirty_below ?s d q) = cleaned s (\<lambda>q. \<exists>d \<in> set (c # cs). dirty_below s d q)"
    unfolding cleaned_twice using same by (intro cleaned_cong) auto
  ultimately show ?case using 1 by simp
qed

end
