(* ===== verification/Registry_Text.thy ===== *)
theory Registry_Text
  imports Registry
begin

text \<open>
  Registry files, \<^verbatim>\<open>server/registry.c\<close>: how a branch is written, and how the lines of a value are read back.

  A file is the list of its bytes, none of them 0; what \<^verbatim>\<open>fprintf\<close> writes is appended to it.  A line is read
  whole, since its buffer is enlarged as far as needed; memory for that is always found.
\<close>

section \<open>Numbers\<close>

function format_hex :: "nat \<Rightarrow> byte list" where
  "format_hex n = (if n < 16 then [hex_digit n] else format_hex (n div 16) @ [hex_digit (n mod 16)])"
  by pat_completeness auto
termination by (relation "measure id") auto

declare format_hex.simps [simp del]

definition format_0x :: "nat \<Rightarrow> nat \<Rightarrow> byte list" where
  "format_0x width n = replicate (width - length (format_hex n)) 48 @ format_hex n"

function format_u :: "nat \<Rightarrow> byte list" where
  "format_u n = (if n < 10 then [48 + n] else format_u (n div 10) @ [48 + n mod 10])"
  by pat_completeness auto
termination by (relation "measure id") auto

declare format_u.simps [simp del]

definition isspace :: "byte \<Rightarrow> bool" where
  "isspace c = (c = 32 \<or> (9 \<le> c \<and> c \<le> 13))"

text \<open>\<^verbatim>\<open>strtoul\<close> with base 16: the number, and what follows it.\<close>

definition hex_value :: "byte list \<Rightarrow> nat" where
  "hex_value ds = foldl (\<lambda>v c. v * 16 + to_hex c) 0 ds"

definition strtoul16 :: "byte list \<Rightarrow> nat \<times> byte list" where
  "strtoul16 p =
     (let q = dropWhile isspace p;
          neg = (q \<noteq> [] \<and> hd q = 45);
          q1 = (if q \<noteq> [] \<and> (hd q = 45 \<or> hd q = 43) then tl q else q);
          q2 = (if take 2 q1 \<in> {[48, 120], [48, 88]} \<and> drop 2 q1 \<noteq> [] \<and> isxdigit (hd (drop 2 q1)) then drop 2 q1 else q1);
          ds = takeWhile isxdigit q2; v = hex_value ds
      in if ds = [] then (0, p)
         else (if v \<ge> 2 ^ 64 then 2 ^ 64 - 1 else if neg then (2 ^ 64 - v) mod 2 ^ 64 else v, dropWhile isxdigit q2))"

section \<open>Writing\<close>

text \<open>The bytes of data as 16-bit characters, in the byte order of the machine.\<close>

fun bytes_wchars :: "byte list \<Rightarrow> wchar list" where
  "bytes_wchars (a # b # bs) = (a + 256 * b) # bytes_wchars bs"
| "bytes_wchars _ = []"

definition bytes_dword :: "byte list \<Rightarrow> nat" where
  "bytes_dword bs = bs ! 0 + 256 * bs ! 1 + 65536 * bs ! 2 + 16777216 * bs ! 3"

text \<open>The bytes in hex, with \<open>count\<close> characters already in the line.\<close>

fun dump_hex :: "nat \<Rightarrow> byte list \<Rightarrow> byte list" where
  "dump_hex count [] = []"
| "dump_hex count [b] = format_0x 2 b"
| "dump_hex count (b # c # bs) =
     (let n = count + length (format_0x 2 b) + 1 in
      format_0x 2 b @ [44] @ (if n > 76 then [92, 10, 32, 32] @ dump_hex 2 (c # bs) else dump_hex n (c # bs)))"

text \<open>Whether the data are a terminated string.\<close>

definition string_data :: "key_value \<Rightarrow> bool" where
  "string_data v = (vtype v \<in> {REG_SZ, REG_EXPAND_SZ, REG_MULTI_SZ} \<and> length (vdata v) \<ge> 2 \<and> even (length (vdata v)) \<and>
     last (bytes_wchars (vdata v)) = 0)"

definition dump_value_name :: "key_value \<Rightarrow> byte list" where
  "dump_value_name v = (if vname v \<noteq> [] then [34] @ dump_strW 34 34 (vname v) @ [34, 61] else [64, 61])"

definition dump_value_data :: "nat \<Rightarrow> key_value \<Rightarrow> byte list" where
  "dump_value_data count v =
     (if string_data v
      then (if vtype v \<noteq> REG_SZ then ascii ''str('' @ format_hex (unat (vtype v)) @ ascii ''):'' else []) @
        [34] @ dump_strW 34 34 (butlast (bytes_wchars (vdata v))) @ [34, 10]
      else if vtype v = REG_DWORD \<and> length (vdata v) = 4
      then ascii ''dword:'' @ format_0x 8 (bytes_dword (vdata v)) @ [10]
      else let hx = (if vtype v = REG_BINARY then ascii ''hex:'' else ascii ''hex('' @ format_hex (unat (vtype v)) @ ascii ''):'')
           in hx @ dump_hex (count + length hx) (vdata v) @ [10])"

definition dump_value :: "key_value \<Rightarrow> byte list" where
  "dump_value v = dump_value_name v @ dump_value_data (length (dump_value_name v)) v"

text \<open>The path of a key below a base; the fuel is the depth of the key.\<close>

fun dump_path :: "nat \<Rightarrow> registry \<Rightarrow> ptr \<Rightarrow> ptr \<Rightarrow> byte list option" where
  "dump_path 0 s p base = None"
| "dump_path (Suc n) s p base =
     (let q = get_parent s p; nm = dump_strW 91 93 (kname (keys s p)) in
      if q \<noteq> 0 \<and> q \<noteq> base then map_option (\<lambda>t. t @ [92, 92] @ nm) (dump_path n s q base) else Some nm)"

definition ticks_1601_to_1970 :: int where "ticks_1601_to_1970 = 86400 * (369 * 365 + 89) * 10000000"

text \<open>The division rounds towards zero.\<close>

definition unix_time :: "int \<Rightarrow> nat" where
  "unix_time t = (let d = t - ticks_1601_to_1970 in nat ((if d < 0 then - ((- d) div 10000000) else d div 10000000) mod 2 ^ 32))"

definition dump_key :: "registry \<Rightarrow> ptr \<Rightarrow> ptr \<Rightarrow> byte list option" where
  "dump_key s p base =
     (let k = keys s p in
      do { path \<leftarrow> (if p \<noteq> base then dump_path (next_key s) s p base else Some []);
           Some (ascii ''\<newline>['' @ path @ ascii ''] '' @ format_u (unix_time (modif k)) @ [10] @
             ascii ''#time='' @ format_hex (nat (modif k div 2 ^ 32 mod 2 ^ 32)) @ format_0x 8 (nat (modif k mod 2 ^ 32)) @ [10] @
             (if kclass k \<noteq> [] then ascii ''#class='' @ [34] @ dump_strW 34 34 (kclass k) @ [34, 10] else []) @
             (if kflags k AND KEY_SYMLINK \<noteq> 0 then ascii ''#link'' @ [10] else []) @
             concat (map dump_value (kvalues k))) })"

fun save_subkeys :: "nat \<Rightarrow> registry \<Rightarrow> ptr \<Rightarrow> ptr \<Rightarrow> byte list option" and save_list :: "nat \<Rightarrow> registry \<Rightarrow> ptr list \<Rightarrow> ptr \<Rightarrow> byte list option" where
  "save_subkeys 0 s p base = None"
| "save_subkeys (Suc n) s p base =
     (let k = keys s p in
      if kflags k AND KEY_VOLATILE \<noteq> 0 then Some []
      else do { own \<leftarrow> (if kvalues k \<noteq> [] \<or> subkeys k = [] \<or> kclass k \<noteq> [] \<or> kflags k AND KEY_SYMLINK \<noteq> 0 then dump_key s p base else Some []);
                rest \<leftarrow> save_list n s (subkeys k) base;
                Some (own @ rest) })"
| "save_list n s [] base = Some []"
| "save_list n s (p # ps) base = do { a \<leftarrow> save_subkeys n s p base; b \<leftarrow> save_list n s ps base; Some (a @ b) }"

datatype prefix_type = PREFIX_UNKNOWN | PREFIX_32BIT | PREFIX_64BIT

definition save_all_subkeys :: "prefix_type \<Rightarrow> registry \<Rightarrow> ptr \<Rightarrow> byte list option" where
  "save_all_subkeys arch s p =
     do { path \<leftarrow> dump_path (next_key s) s p 0;
          body \<leftarrow> save_subkeys (next_key s) s p p;
          Some (ascii ''WINE REGISTRY Version 2\<newline>;; All keys relative to '' @ path @ [10] @
            (case arch of PREFIX_32BIT \<Rightarrow> ascii ''\<newline>#arch=win32\<newline>'' | PREFIX_64BIT \<Rightarrow> ascii ''\<newline>#arch=win64\<newline>'' | PREFIX_UNKNOWN \<Rightarrow> []) @ body) }"

text \<open>
  What \<^verbatim>\<open>save_branch\<close> does to the file, \<open>None\<close> when it is left alone, and whether it succeeds; \<open>written\<close> says
  whether the file could be created, written and renamed.
\<close>

definition save_branch :: "bool \<Rightarrow> prefix_type \<Rightarrow> registry \<Rightarrow> ptr \<Rightarrow> (registry \<times> byte list option \<times> bool) option" where
  "save_branch written arch s p =
     (if kflags (keys s p) AND KEY_DIRTY = 0 then Some (s, None, True)
      else do { text \<leftarrow> save_all_subkeys arch s p;
                if written then map_option (\<lambda>s'. (s', Some text, True)) (make_clean s p) else Some (s, None, False) })"

section \<open>Reading\<close>

text \<open>The rest of the file, and the bytes that the temporary buffer has room for.\<close>

record load_info =
  rest :: "byte list"
  tmplen :: nat

text \<open>A line without its end.\<close>

definition read_next_line :: "byte list \<Rightarrow> (byte list \<times> byte list) option" where
  "read_next_line file =
     (if file = [] then None
      else let l = takeWhile (\<lambda>c. c \<noteq> 10) file; r = drop (Suc (length l)) file in
           Some (if length l < length file \<and> l \<noteq> [] \<and> last l = 13 then butlast l else l, r))"

definition get_file_tmp_space :: "reg_env \<Rightarrow> load_info \<Rightarrow> nat \<Rightarrow> load_info option" where
  "get_file_tmp_space E info need =
     (if need \<le> tmplen info then Some info else if can_grow E need then Some (info\<lparr>tmplen := need\<rparr>) else None)"

text \<open>The type, how the data are to be parsed, and what follows the tag.\<close>

definition get_data_type :: "byte list \<Rightarrow> (u32 \<times> u32 \<times> byte list) option" where
  "get_data_type buf =
     (if take 1 buf = [34] then Some (REG_SZ, REG_SZ, drop 1 buf)
      else if take 5 buf = ascii ''str:'' @ [34] then Some (REG_SZ, REG_SZ, drop 5 buf)
      else if take 8 buf = ascii ''str(2):'' @ [34] then Some (REG_EXPAND_SZ, REG_SZ, drop 8 buf)
      else if take 8 buf = ascii ''str(7):'' @ [34] then Some (REG_MULTI_SZ, REG_SZ, drop 8 buf)
      else if take 4 buf = ascii ''hex:'' then Some (REG_BINARY, REG_BINARY, drop 4 buf)
      else if take 6 buf = ascii ''dword:'' then Some (REG_DWORD, REG_DWORD, drop 6 buf)
      else if take 4 buf = ascii ''hex(''
      then (let (v, e) = strtoul16 (drop 4 buf) in
            if take 2 e = ascii ''):'' then Some (word_of_nat v, REG_BINARY, drop 2 e) else None)
      else None)"

text \<open>The bytes, of which there is room for so many, and where the digits end.\<close>

fun parse_hex :: "nat \<Rightarrow> byte list \<Rightarrow> (byte list \<times> byte list) option" where
  "parse_hex room p =
     (if p \<noteq> [] \<and> isxdigit (hd p)
      then let (v, e) = strtoul16 p in
           if v > 255 then None
           else case room of 0 \<Rightarrow> None
                | Suc n \<Rightarrow>
                    let q = dropWhile isspace e; q1 = (if q \<noteq> [] \<and> hd q = 44 then tl q else q) in
                    map_option (\<lambda>(bs, r). (v # bs, r)) (parse_hex n (dropWhile isspace q1))
      else Some ([], p))"

declare parse_hex.simps [simp del]

text \<open>The lines of hex data: the bytes, and the loader after them; the error keeps the loader.\<close>

lemma read_next_line_less: "read_next_line file = Some (l, r) \<Longrightarrow> length r < length file"
  by (auto simp: read_next_line_def Let_def split: if_splits)

function load_hex :: "reg_env \<Rightarrow> byte list \<Rightarrow> byte list \<Rightarrow> load_info \<Rightarrow> load_info \<times> (byte list option) option" where
  "load_hex E acc buf info =
     (let maxlen = 1 + length buf div 2 in
      case get_file_tmp_space E info (length acc + maxlen) of None \<Rightarrow> (info, None)
      | Some info1 \<Rightarrow>
          case parse_hex maxlen buf of None \<Rightarrow> (info1, Some None)
          | Some (bs, r) \<Rightarrow>
              let b = dropWhile isspace r in
              if b = [] then (info1, Some (Some (acc @ bs)))
              else if hd b \<noteq> 92 then (info1, Some None)
              else case read_next_line (rest info1) of None \<Rightarrow> (info1, Some None)
                   | Some (l, r1) \<Rightarrow> load_hex E (acc @ bs) (dropWhile isspace l) (info1\<lparr>rest := r1\<rparr>))"
  by pat_completeness auto
termination
proof (relation "measure (\<lambda>(E, acc, buf, info). length (rest info))", goal_cases)
  case (2 E acc buf info maxlen info1 x bs r b y l r1)
  then have "rest info1 = rest info" by (auto simp: get_file_tmp_space_def split: if_splits)
  then show ?case using read_next_line_less[of "rest info1" l r1] 2 by simp
qed simp

declare load_hex.simps [simp del]

text \<open>The name, and what follows the equals sign.\<close>

definition parse_name :: "nat \<Rightarrow> byte list \<Rightarrow> (wchar list \<times> byte list) option" where
  "parse_name room buf =
     (case (if hd buf = 64 then Some ([], 1) else map_option (\<lambda>(out, r). (butlast out, r + 1)) (parse_strW room (tl buf) 34)) of
        None \<Rightarrow> None
      | Some (name, len) \<Rightarrow>
          let b = dropWhile isspace (drop len buf) in
          if b \<noteq> [] \<and> hd b = 61 then Some (name, dropWhile isspace (tl b)) else None)"

text \<open>The index of the value, and what follows its name.\<close>

definition parse_value_name :: "(nat \<Rightarrow> nat) \<Rightarrow> reg_env \<Rightarrow> registry \<Rightarrow> ptr \<Rightarrow> byte list \<Rightarrow> load_info \<Rightarrow> registry \<times> load_info \<times> (nat \<times> byte list) option" where
  "parse_value_name cm E s p buf info =
     (case get_file_tmp_space E info (length buf * 2) of None \<Rightarrow> (s, info, None)
      | Some info1 \<Rightarrow>
          case parse_name (tmplen info1 div 2) buf of None \<Rightarrow> (s, info1, None)
          | Some (name, b) \<Rightarrow>
              case find_value cm (kvalues (keys s p)) name of
                (Some _, i) \<Rightarrow> (s, info1, Some (i, b))
              | (None, i) \<Rightarrow>
                  (case insert_value E s p name i of
                     (s1, None) \<Rightarrow> (s1, info1, Some (i, b))
                   | (s1, Some e) \<Rightarrow> (s1, info1, None)))"

text \<open>The data after the tag; the inner \<open>None\<close> is malformed text, the outer one no memory.\<close>

definition parse_data :: "reg_env \<Rightarrow> u32 \<Rightarrow> byte list \<Rightarrow> load_info \<Rightarrow> load_info \<times> (byte list option) option" where
  "parse_data E parse_type b info =
     (if parse_type = REG_SZ
      then (case get_file_tmp_space E info (length b * 2) of None \<Rightarrow> (info, None)
            | Some info1 \<Rightarrow> (info1, Some (map_option (\<lambda>(out, r). utf16_bytes out) (parse_strW (tmplen info1 div 2) b 34))))
      else if parse_type = REG_DWORD
      then (let v = fst (strtoul16 b) in
            (info, Some (Some [v mod 256, v div 256 mod 256, v div 65536 mod 256, v div 16777216 mod 256])))
      else load_hex E [] b info)"

text \<open>The result says whether a value was loaded.  A malformed one loses its data and type.\<close>

definition load_value :: "(nat \<Rightarrow> nat) \<Rightarrow> reg_env \<Rightarrow> registry \<Rightarrow> ptr \<Rightarrow> byte list \<Rightarrow> load_info \<Rightarrow> registry \<times> load_info \<times> bool" where
  "load_value cm E s p buf info =
     (case parse_value_name cm E s p buf info of (s1, info1, None) \<Rightarrow> (s1, info1, False)
      | (s1, info1, Some (i, b)) \<Rightarrow>
          case get_data_type b of None \<Rightarrow> (write_value s1 p i REG_NONE [], info1, False)
          | Some (type, parse_type, c) \<Rightarrow>
              case parse_data E parse_type c info1 of
                (info2, None) \<Rightarrow> (s1, info2, False)
              | (info2, Some None) \<Rightarrow> (write_value s1 p i REG_NONE [], info2, False)
              | (info2, Some (Some data)) \<Rightarrow>
                  if data \<noteq> [] \<and> \<not> can_copy E (length data) then (s1, info2, False)
                  else (write_value s1 p i type data, info2, True))"

end
