(* ===== verification/Registry_Load.thy ===== *)
theory Registry_Load
  imports Registry_Text Registry_Values
begin

text \<open>A value that is written to a registry file is read back.\<close>

section \<open>Numbers\<close>

lemma hex_value_snoc: "hex_value (xs @ [c]) = hex_value xs * 16 + to_hex c"
  by (simp add: hex_value_def)

lemma format_hex_digits: "format_hex n \<noteq> [] \<and> (\<forall>c \<in> set (format_hex n). isxdigit c) \<and> hex_value (format_hex n) = n"
proof (induction n rule: format_hex.induct)
  case (1 n)
  then show ?case by (subst (1 2 3) format_hex.simps) (auto simp: hex_value_snoc hex_value_def)
qed

lemma hex_value_zeros: "hex_value (replicate k 48 @ ds) = hex_value ds"
proof -
  have "foldl (\<lambda>v c. v * 16 + to_hex c) 0 (replicate k 48) = 0" by (induction k) (simp_all add: to_hex_def isdigit_def)
  then show ?thesis by (simp add: hex_value_def)
qed

lemma isxdigit_48 [simp]: "isxdigit 48" by (simp add: isxdigit_def isdigit_def)

lemma format_0x_digits: "format_0x w n \<noteq> [] \<and> (\<forall>c \<in> set (format_0x w n). isxdigit c) \<and> hex_value (format_0x w n) = n"
  using format_hex_digits[of n] by (auto simp: format_0x_def hex_value_zeros)

lemma format_hex_byte: "b < 256 \<Longrightarrow> length (format_hex b) \<le> 2"
  by (subst format_hex.simps, subst format_hex.simps) (auto simp: div_less_iff_less_mult)

lemma format_02x_length: "b < 256 \<Longrightarrow> length (format_0x 2 b) = 2"
  using format_hex_byte[of b] by (simp add: format_0x_def)

lemma xdigit_plain: "isxdigit c \<Longrightarrow> \<not> isspace c \<and> c \<notin> {43, 44, 45, 92, 120, 88, 10, 13}"
  by (auto simp: isxdigit_def isdigit_def isspace_def)

lemma xdigit_not_space: "isxdigit c \<Longrightarrow> \<not> isspace c" using xdigit_plain by blast

lemma takeWhile_digits: "\<forall>c \<in> set ds. isxdigit c \<Longrightarrow> r = [] \<or> \<not> isxdigit (hd r) \<Longrightarrow> takeWhile isxdigit (ds @ r) = ds \<and> dropWhile isxdigit (ds @ r) = r"
  by (cases r) (auto simp: takeWhile_append dropWhile_append)

lemma strtoul16_digits:
  assumes ds: "ds \<noteq> []" "\<forall>c \<in> set ds. isxdigit c" "hex_value ds < 2 ^ 64" and r: "r = [] \<or> (\<not> isxdigit (hd r) \<and> hd r \<noteq> 120 \<and> hd r \<noteq> 88)"
  shows "strtoul16 (ds @ r) = (hex_value ds, r)"
proof -
  obtain d es where d: "ds = d # es" "isxdigit d" using ds(1,2) by (cases ds) auto
  have q: "dropWhile isspace (ds @ r) = ds @ r" using d xdigit_not_space by simp
  have neg: "\<not> (ds @ r \<noteq> [] \<and> hd (ds @ r) = 45)" "\<not> (ds @ r \<noteq> [] \<and> (hd (ds @ r) = 45 \<or> hd (ds @ r) = 43))" using xdigit_plain[OF d(2)] d(1) by auto
  have pre: "take 2 (ds @ r) \<notin> {[48, 120], [48, 88]}"
  proof (cases es)
    case Nil
    then show ?thesis using d(1) r by (cases r) auto
  next
    case (Cons e fs)
    then have "isxdigit e" using ds(2) d(1) by simp
    then show ?thesis using xdigit_plain[of e] Cons d(1) by auto
  qed
  have t: "takeWhile isxdigit (ds @ r) = ds" "dropWhile isxdigit (ds @ r) = r" using takeWhile_digits[OF ds(2), of r] r by auto
  show ?thesis
    unfolding strtoul16_def q Let_def using neg pre t ds(1,3) by simp
qed

section \<open>Hex data\<close>

definition hexes :: "byte list \<Rightarrow> byte list" where
  "hexes bs = concat (map (\<lambda>b. format_0x 2 b @ [44]) bs)"

lemma hexes_simps [simp]: "hexes [] = []" "hexes (b # bs) = format_0x 2 b @ 44 # hexes bs"
  by (simp_all add: hexes_def)

lemma hexes_length: "\<forall>b \<in> set bs. b < 256 \<Longrightarrow> length (hexes bs) = 3 * length bs"
  by (induction bs) (simp_all add: format_02x_length)

lemma not_space_drop: "r = [] \<or> \<not> isspace (hd r) \<Longrightarrow> dropWhile isspace r = r"
  by (cases r) auto

lemma format_0x_start: "format_0x w b @ r \<noteq> []" "isxdigit (hd (format_0x w b @ r))"
  using format_0x_digits[of w b] by (auto simp: hd_append)

lemma hexes_start: "t = [] \<or> \<not> isspace (hd t) \<Longrightarrow> dropWhile isspace (hexes bs @ t) = hexes bs @ t"
  by (rule not_space_drop) (cases bs; use format_0x_start xdigit_not_space in auto)

lemma strtoul16_byte: "b < 256 \<Longrightarrow> r = [] \<or> (\<not> isxdigit (hd r) \<and> hd r \<noteq> 120 \<and> hd r \<noteq> 88) \<Longrightarrow> strtoul16 (format_0x 2 b @ r) = (b, r)"
  using strtoul16_digits[of "format_0x 2 b" r] format_0x_digits[of 2 b] by simp

lemma parse_hex_comma:
  assumes "b < 256" "q = [] \<or> \<not> isspace (hd q)"
  shows "parse_hex (Suc n) (format_0x 2 b @ 44 # q) = map_option (\<lambda>(bs, r). (b # bs, r)) (parse_hex n q)"
proof -
  have s: "strtoul16 (format_0x 2 b @ 44 # q) = (b, 44 # q)" by (rule strtoul16_byte[OF assms(1)]) (simp add: isxdigit_def isdigit_def)
  have "\<not> isspace 44" "dropWhile isspace q = q" using not_space_drop[OF assms(2)] by (simp_all add: isspace_def)
  then show ?thesis using assms(1) s format_0x_start[of 2 b "44 # q"] by (subst parse_hex.simps) (simp add: Let_def)
qed

lemma parse_hex_line:
  "\<forall>b \<in> set bs. b < 256 \<Longrightarrow> length bs \<le> n \<Longrightarrow> parse_hex n (hexes bs @ [92]) = Some (bs, [92])"
proof (induction bs arbitrary: n)
  case Nil
  then show ?case by (subst parse_hex.simps) (simp add: isxdigit_def isdigit_def)
next
  case (Cons b bs)
  then obtain m where m: "n = Suc m" "length bs \<le> m" by (cases n) auto
  have "hexes bs @ [92] = [] \<or> \<not> isspace (hd (hexes bs @ [92]))"
    using format_0x_start xdigit_not_space by (cases bs) (auto simp: isspace_def)
  then show ?case using parse_hex_comma[of b "hexes bs @ [92]" m] Cons m by simp
qed

lemma parse_hex_last:
  "\<forall>b \<in> set bs. b < 256 \<Longrightarrow> b < 256 \<Longrightarrow> length bs < n \<Longrightarrow> parse_hex n (hexes bs @ format_0x 2 b) = Some (bs @ [b], [])"
proof (induction bs arbitrary: n)
  case Nil
  then obtain m where m: "n = Suc m" by (cases n) auto
  have "parse_hex m [] = Some ([], [])" by (subst parse_hex.simps) simp
  then show ?case using Nil m strtoul16_byte[of b "[]"] format_0x_start[of 2 b "[]"] by (subst parse_hex.simps) simp
next
  case (Cons c bs)
  then obtain m where m: "n = Suc m" "length bs < m" by (cases n) auto
  have "hexes bs @ format_0x 2 b = [] \<or> \<not> isspace (hd (hexes bs @ format_0x 2 b))"
    using format_0x_start[of 2 b "[]"] format_0x_start xdigit_not_space by (cases bs) auto
  then show ?case using parse_hex_comma[of c "hexes bs @ format_0x 2 b" m] Cons m by simp
qed

text \<open>The lines that are written: all of the bytes, or some of them and a backslash.\<close>

lemma dump_hex_lines:
  "bs \<noteq> [] \<Longrightarrow> (\<exists>xs b. bs = xs @ [b] \<and> dump_hex n bs = hexes xs @ format_0x 2 b) \<or>
    (\<exists>xs ys. bs = xs @ ys \<and> xs \<noteq> [] \<and> ys \<noteq> [] \<and> dump_hex n bs = hexes xs @ [92, 10, 32, 32] @ dump_hex 2 ys)"
proof (induction n bs rule: dump_hex.induct)
  case (2 n b)
  then show ?case by (intro disjI1 exI[of _ "[]"] exI[of _ b]) simp
next
  case (3 n b c bs)
  let ?n = "n + length (format_0x 2 b) + 1"
  show ?case
  proof (cases "?n > 76")
    case True
    then show ?thesis by (intro disjI2 exI[of _ "[b]"] exI[of _ "c # bs"]) (simp add: Let_def)
  next
    case False
    have d: "dump_hex n (b # c # bs) = format_0x 2 b @ 44 # dump_hex ?n (c # bs)" using False by (simp add: Let_def)
    from "3.IH"(2)[OF refl False list.distinct(2)] show ?thesis
    proof (elim disjE exE conjE)
      fix xs b' assume "c # bs = xs @ [b']" "dump_hex ?n (c # bs) = hexes xs @ format_0x 2 b'"
      then show ?thesis using d by (intro disjI1 exI[of _ "b # xs"] exI[of _ b']) simp
    next
      fix xs ys assume "c # bs = xs @ ys" "xs \<noteq> []" "ys \<noteq> []" "dump_hex ?n (c # bs) = hexes xs @ [92, 10, 32, 32] @ dump_hex 2 ys"
      then show ?thesis using d by (intro disjI2 exI[of _ "b # xs"] exI[of _ ys]) simp
    qed
  qed
qed simp

section \<open>Lines\<close>

lemma read_line: "10 \<notin> set l \<Longrightarrow> l = [] \<or> last l \<noteq> 13 \<Longrightarrow> read_next_line (l @ 10 # r) = Some (l, r)"
proof -
  assume a: "10 \<notin> set l" "l = [] \<or> last l \<noteq> 13"
  have "takeWhile (\<lambda>c. c \<noteq> 10) (l @ 10 # r) = l" using a(1) by (subst takeWhile_append2) auto
  then show ?thesis using a(2) by (auto simp: read_next_line_def)
qed

lemma format_clean [simp]: "10 \<notin> set (format_0x w b)" "13 \<notin> set (format_0x w b)" "10 \<notin> set (format_hex b)" "13 \<notin> set (format_hex b)"
  using format_0x_digits[of w b] format_hex_digits[of b] xdigit_plain[of 10] xdigit_plain[of 13] by blast+

lemma hexes_clean [simp]: "10 \<notin> set (hexes bs)" "13 \<notin> set (hexes bs)"
  by (induction bs) simp_all

definition enough_memory :: "reg_env \<Rightarrow> bool" where
  "enough_memory E = (\<forall>n. can_grow E n \<and> can_copy E n)"

lemma tmp_space: "enough_memory E \<Longrightarrow> \<exists>m \<ge> need. tmplen info \<le> m \<and> get_file_tmp_space E info need = Some (info\<lparr>tmplen := m\<rparr>)"
proof -
  assume "enough_memory E"
  then have "get_file_tmp_space E info need = Some (info\<lparr>tmplen := max need (tmplen info)\<rparr>)"
    by (cases info) (simp add: get_file_tmp_space_def enough_memory_def max_def)
  then show ?thesis by (intro exI[of _ "max need (tmplen info)"]) simp
qed

text \<open>The loop over the lines, from what was read before them.\<close>

lemma load_hex_dump:
  assumes "enough_memory E" "\<forall>b \<in> set bs. b < 256"
  shows "\<exists>line file. 10 \<notin> set line \<and> (line = [] \<or> last line \<noteq> 13) \<and> (line = [] \<or> \<not> isspace (hd line)) \<and>
    dump_hex n bs @ 10 # r = line @ 10 # file \<and>
    (\<forall>acc info. rest info = file \<longrightarrow> (\<exists>m. load_hex E acc line info = (info\<lparr>rest := r, tmplen := m\<rparr>, Some (Some (acc @ bs)))))"
  using assms(2)
proof (induction "length bs" arbitrary: bs n rule: less_induct)
  case less
  show ?case
  proof (cases "bs = []")
    case True
    have "\<exists>m. load_hex E acc [] info = (info\<lparr>rest := r, tmplen := m\<rparr>, Some (Some (acc @ [])))" if "rest info = r" for acc info
    proof -
      obtain m where "get_file_tmp_space E info (length acc + 1) = Some (info\<lparr>tmplen := m\<rparr>)" using tmp_space[OF assms(1)] by blast
      moreover have "parse_hex 1 [] = Some ([], [])" by (subst parse_hex.simps) simp
      ultimately show ?thesis using that by (intro exI[of _ m], subst load_hex.simps) (cases info, simp)
    qed
    then show ?thesis using True by (intro exI[of _ "[]"] exI[of _ r]) simp
  next
    case False
    from dump_hex_lines[OF False, of n] show ?thesis
    proof (elim disjE exE conjE)
      fix xs b assume bs: "bs = xs @ [b]" and d: "dump_hex n bs = hexes xs @ format_0x 2 b"
      let ?l = "hexes xs @ format_0x 2 b"
      have clean: "10 \<notin> set ?l" "13 \<notin> set ?l" by simp_all
      have ne: "?l \<noteq> []" "\<not> isspace (hd ?l)"
        using format_0x_start[of 2 b "[]"] format_0x_start xdigit_not_space by (cases xs; auto)+
      have len: "length xs < 1 + length ?l div 2" using hexes_length[of xs] format_02x_length[of b] less.prems bs by simp
      have p: "parse_hex (1 + length ?l div 2) ?l = Some (bs, [])" using parse_hex_last[OF _ _ len, of b] less.prems bs by simp
      have "\<exists>m. load_hex E acc ?l info = (info\<lparr>rest := r, tmplen := m\<rparr>, Some (Some (acc @ bs)))" if "rest info = r" for acc info
      proof -
        obtain m where "get_file_tmp_space E info (length acc + (1 + length ?l div 2)) = Some (info\<lparr>tmplen := m\<rparr>)" using tmp_space[OF assms(1)] by blast
        then show ?thesis using that p by (intro exI[of _ m], subst load_hex.simps) (cases info, simp add: Let_def)
      qed
      moreover have "10 \<notin> set ?l" "?l = [] \<or> last ?l \<noteq> 13" using clean last_in_set[OF ne(1)] by metis+
      ultimately show ?thesis using d ne(2) by (intro exI[of _ ?l] exI[of _ r]) simp
    next
      fix xs ys assume bs: "bs = xs @ ys" "xs \<noteq> []" "ys \<noteq> []" and d: "dump_hex n bs = hexes xs @ [92, 10, 32, 32] @ dump_hex 2 ys"
      let ?l = "hexes xs @ [92]"
      have "length ys < length bs" "\<forall>b \<in> set ys. b < 256" using bs less.prems by auto
      from less.hyps[OF this, of 2] obtain l2 f2 where 2: "10 \<notin> set l2" "l2 = [] \<or> last l2 \<noteq> 13" "l2 = [] \<or> \<not> isspace (hd l2)"
        "dump_hex 2 ys @ 10 # r = l2 @ 10 # f2"
        "\<And>acc info. rest info = f2 \<Longrightarrow> \<exists>m. load_hex E acc l2 info = (info\<lparr>rest := r, tmplen := m\<rparr>, Some (Some (acc @ ys)))" by blast
      have clean: "10 \<notin> set ?l" by simp
      have start: "\<not> isspace (hd ?l)" using bs(2) format_0x_start xdigit_not_space by (cases xs) auto
      have len: "length xs \<le> 1 + length ?l div 2" using hexes_length[of xs] less.prems bs by simp
      have p: "parse_hex (1 + length ?l div 2) ?l = Some (xs, [92])" using parse_hex_line[OF _ len] less.prems bs by simp
      let ?f = "[32, 32] @ l2 @ 10 # f2"
      have next_line: "read_next_line ?f = Some ([32, 32] @ l2, f2)" using read_line[of "[32, 32] @ l2" f2] 2(1,2) by (auto simp: last_append)
      have drop: "dropWhile isspace ([32, 32] @ l2) = l2" using 2(3) by (cases l2) (auto simp: isspace_def)
      have "\<exists>m. load_hex E acc ?l info = (info\<lparr>rest := r, tmplen := m\<rparr>, Some (Some (acc @ bs)))" if "rest info = ?f" for acc info
      proof -
        obtain m where m: "get_file_tmp_space E info (length acc + (1 + length ?l div 2)) = Some (info\<lparr>tmplen := m\<rparr>)" using tmp_space[OF assms(1)] by blast
        have "load_hex E acc ?l info = load_hex E (acc @ xs) l2 (info\<lparr>tmplen := m, rest := f2\<rparr>)"
          using m p that next_line drop by (subst load_hex.simps) (simp add: Let_def isspace_def)
        moreover obtain m2 where "load_hex E (acc @ xs) l2 (info\<lparr>tmplen := m, rest := f2\<rparr>) =
            (info\<lparr>tmplen := m, rest := f2, rest := r, tmplen := m2\<rparr>, Some (Some ((acc @ xs) @ ys)))"
          using 2(5)[of "info\<lparr>tmplen := m, rest := f2\<rparr>" "acc @ xs"] by auto
        ultimately show ?thesis using bs(1) by (intro exI[of _ m2]) (cases info, simp)
      qed
      moreover have "dump_hex n bs @ 10 # r = ?l @ 10 # ?f" using d 2(4) by simp
      ultimately show ?thesis using clean start by (intro exI[of _ ?l] exI[of _ ?f]) simp
    qed
  qed
qed

section \<open>Data\<close>

lemma utf16_bytes_wchars: "even (length bs) \<Longrightarrow> \<forall>b \<in> set bs. b < 256 \<Longrightarrow> utf16_bytes (bytes_wchars bs) = bs"
  by (induction bs rule: bytes_wchars.induct) (simp_all add: utf16_bytes_def)

lemma bytes_wchars_less: "\<forall>b \<in> set bs. b < 256 \<Longrightarrow> c \<in> set (bytes_wchars bs) \<Longrightarrow> c < 65536"
  by (induction bs rule: bytes_wchars.induct) auto

lemma bytes_wchars_ne: "2 \<le> length bs \<Longrightarrow> bytes_wchars bs \<noteq> []"
  by (cases bs rule: bytes_wchars.cases) auto

lemma dump_char_bytes: "e0 \<ge> 32 \<Longrightarrow> e1 \<ge> 32 \<Longrightarrow> b \<in> set (dump_char e0 e1 c cs) \<Longrightarrow> 32 \<le> b"
proof -
  have h: "32 \<le> hex_digit d" for d by (simp add: hex_digit_def)
  have e: "c < 32 \<Longrightarrow> 32 \<le> escapes c" by (simp add: escapes_def)
  show "e0 \<ge> 32 \<Longrightarrow> e1 \<ge> 32 \<Longrightarrow> b \<in> set (dump_char e0 e1 c cs) \<Longrightarrow> 32 \<le> b"
    by (auto simp: dump_char_def format_04x_def format_x_def format_03o_def format_o_def h e split: if_splits)
qed

lemma dump_strW_bytes: "b \<in> set (dump_strW 34 34 cs) \<Longrightarrow> 32 \<le> b"
  by (induction cs) (auto dest: dump_char_bytes[rotated 2])

lemma dump_strW_clean [simp]: "10 \<notin> set (dump_strW 34 34 cs)" "13 \<notin> set (dump_strW 34 34 cs)"
  using dump_strW_bytes by fastforce+

lemma dump_strW_length: "length cs \<le> length (dump_strW e0 e1 cs)"
proof (induction cs)
  case (Cons c cs)
  have "1 \<le> length (dump_char e0 e1 c cs)" by (simp add: dump_char_def)
  then show ?case using Cons by simp
qed simp

lemma good_quote: "good_escape 34" by (simp add: good_escape_def isxdigit_def isdigit_def)

lemma parse_dump:
  "\<forall>c \<in> set cs. c < 65536 \<Longrightarrow> length cs < room \<Longrightarrow>
    parse_strW room (dump_strW 34 34 cs @ 34 # r) 34 = Some (cs @ [0], Suc (length (dump_strW 34 34 cs)))"
  using parse_loop_dump[OF good_quote good_quote, of 34 cs room "[]" r] by (simp add: parse_strW_def)

definition value_ok :: "key_value \<Rightarrow> bool" where
  "value_ok v = (length (vname v) \<le> MAX_VALUE_LEN \<and> (\<forall>c \<in> set (vname v). c < 65536) \<and> (\<forall>b \<in> set (vdata v). b < 256))"

text \<open>The first line of the data, what follows, and that they give the data.\<close>

definition data_read :: "reg_env \<Rightarrow> key_value \<Rightarrow> byte list \<Rightarrow> byte list \<Rightarrow> byte list \<Rightarrow> bool" where
  "data_read E v r line file =
     (10 \<notin> set line \<and> line \<noteq> [] \<and> last line \<noteq> 13 \<and> \<not> isspace (hd line) \<and>
      (\<exists>pt c. get_data_type line = Some (vtype v, pt, c) \<and>
        (\<forall>info. rest info = file \<longrightarrow> (\<exists>m. parse_data E pt c info = (info\<lparr>rest := r, tmplen := m\<rparr>, Some (Some (vdata v)))))))"

lemma string_type: "string_data v \<Longrightarrow> vtype v = REG_SZ \<or> vtype v = REG_EXPAND_SZ \<or> vtype v = REG_MULTI_SZ"
  by (auto simp: string_data_def)

lemma format_small: "n < 16 \<Longrightarrow> format_hex n = [hex_digit n]"
  by (subst format_hex.simps) simp

lemma read_string:
  assumes mem: "enough_memory E" and v: "value_ok v" "string_data v"
  shows "\<exists>line file. dump_value_data n v @ r = line @ 10 # file \<and> data_read E v r line file"
proof -
  let ?cs = "butlast (bytes_wchars (vdata v))"
  let ?tag = "if vtype v \<noteq> REG_SZ then ascii ''str('' @ format_hex (unat (vtype v)) @ ascii ''):'' else []"
  let ?c = "dump_strW 34 34 ?cs @ [34]"
  let ?line = "?tag @ [34] @ ?c"
  have s: "2 \<le> length (vdata v)" "even (length (vdata v))" "last (bytes_wchars (vdata v)) = 0" "\<forall>b \<in> set (vdata v). b < 256"
    using v by (auto simp: string_data_def value_ok_def)
  have ws: "?cs @ [0] = bytes_wchars (vdata v)" using s(3) append_butlast_last_id[OF bytes_wchars_ne[OF s(1)]] by simp
  have data: "utf16_bytes (?cs @ [0]) = vdata v" unfolding ws by (rule utf16_bytes_wchars[OF s(2,4)])
  have less: "\<forall>c \<in> set ?cs. c < 65536" using bytes_wchars_less[OF s(4)] in_set_butlastD by fastforce
  have type: "get_data_type ?line = Some (vtype v, REG_SZ, ?c)"
    using string_type[OF v(2)]
    by (elim disjE) (simp_all add: get_data_type_def ascii_def REG_SZ_def REG_EXPAND_SZ_def REG_MULTI_SZ_def format_small hex_digit_def)
  have parse: "\<exists>m. parse_data E REG_SZ ?c info = (info\<lparr>rest := r, tmplen := m\<rparr>, Some (Some (vdata v)))" if "rest info = r" for info
  proof -
    obtain m where m: "length ?c * 2 \<le> m" "get_file_tmp_space E info (length ?c * 2) = Some (info\<lparr>tmplen := m\<rparr>)" using tmp_space[OF mem] by blast
    have "length ?cs < m div 2" using m(1) dump_strW_length[of ?cs 34 34] by simp
    then show ?thesis
      using m(2) parse_dump[OF less, of "m div 2" "[]"] data that by (intro exI[of _ m]) (cases info, simp add: parse_data_def)
  qed
  have "dump_value_data n v @ r = ?line @ 10 # r" using v(2) by (simp add: dump_value_data_def)
  moreover have "10 \<notin> set ?line" by (simp add: ascii_def)
  moreover have "\<not> isspace (hd ?line)" by (simp add: isspace_def ascii_def)
  moreover have "last ?line \<noteq> 13" "?line \<noteq> []" by simp_all
  ultimately show ?thesis using type parse unfolding data_read_def by (rule_tac exI[of _ ?line], rule_tac exI[of _ r]) blast
qed

lemma byte_of: "a < 256 \<Longrightarrow> (a + 256 * y) mod 256 = a" "a < 256 \<Longrightarrow> (a + 256 * y) div 256 = (y :: nat)"
  by simp_all

lemma bytes_dword_bytes:
  assumes "length bs = 4" "\<forall>b \<in> set bs. b < 256"
  shows "bytes_dword bs < 2 ^ 32" "[bytes_dword bs mod 256, bytes_dword bs div 256 mod 256, bytes_dword bs div 65536 mod 256, bytes_dword bs div 16777216 mod 256] = bs"
proof -
  obtain a b c d where bs: "bs = [a, b, c, d]" using assms(1) by (auto simp: length_Suc_conv numeral_eq_Suc)
  have l: "a < 256" "b < 256" "c < 256" "d < 256" using assms(2) bs by auto
  show "bytes_dword bs < 2 ^ 32" using l by (simp add: bytes_dword_def bs)
  have e: "bytes_dword bs = a + 256 * (b + 256 * (c + 256 * d))" by (simp add: bytes_dword_def bs)
  show "[bytes_dword bs mod 256, bytes_dword bs div 256 mod 256, bytes_dword bs div 65536 mod 256, bytes_dword bs div 16777216 mod 256] = bs"
    unfolding e byte_of[OF l(1)] div_mult2_eq[of _ 256 256, simplified] div_mult2_eq[of _ 65536 256, simplified] byte_of[OF l(2)] byte_of[OF l(3)]
    using l(4) bs by simp
qed

lemma read_dword:
  assumes v: "value_ok v" "\<not> string_data v" "vtype v = REG_DWORD" "length (vdata v) = 4"
  shows "\<exists>line file. dump_value_data n v @ r = line @ 10 # file \<and> data_read E v r line file"
proof -
  let ?d = "bytes_dword (vdata v)"
  let ?line = "ascii ''dword:'' @ format_0x 8 ?d"
  note d = bytes_dword_bytes[OF v(4)] 
  have b: "\<forall>b \<in> set (vdata v). b < 256" using v(1) by (simp add: value_ok_def)
  have s: "fst (strtoul16 (format_0x 8 ?d)) = ?d"
    using strtoul16_digits[of "format_0x 8 ?d" "[]"] format_0x_digits[of 8 ?d] d(1)[OF b] by simp
  have type: "get_data_type ?line = Some (vtype v, REG_DWORD, format_0x 8 ?d)" using v(3) by (simp add: get_data_type_def ascii_def)
  have parse: "\<exists>m. parse_data E REG_DWORD (format_0x 8 ?d) info = (info\<lparr>rest := r, tmplen := m\<rparr>, Some (Some (vdata v)))" if "rest info = r" for info
    using that s d(2)[OF b] by (intro exI[of _ "tmplen info"]) (cases info, simp add: parse_data_def REG_DWORD_def REG_SZ_def)
  have "last ?line \<noteq> 13" using format_0x_digits[of 8 ?d] format_clean(2)[of 8 ?d] last_in_set[of "format_0x 8 ?d"] by (metis last_appendR)
  moreover have "dump_value_data n v @ r = ?line @ 10 # r" using v by (simp add: dump_value_data_def)
  moreover have "10 \<notin> set ?line" "\<not> isspace (hd ?line)" "?line \<noteq> []" by (simp_all add: ascii_def isspace_def)
  ultimately show ?thesis using type parse unfolding data_read_def by (rule_tac exI[of _ ?line], rule_tac exI[of _ r]) blast
qed

lemma read_hex:
  assumes mem: "enough_memory E" and v: "value_ok v" "\<not> string_data v" "\<not> (vtype v = REG_DWORD \<and> length (vdata v) = 4)"
  shows "\<exists>line file. dump_value_data n v @ r = line @ 10 # file \<and> data_read E v r line file"
proof -
  let ?hx = "if vtype v = REG_BINARY then ascii ''hex:'' else ascii ''hex('' @ format_hex (unat (vtype v)) @ ascii ''):''"
  obtain l fl where l: "10 \<notin> set l" "l = [] \<or> last l \<noteq> 13" "dump_hex (n + length ?hx) (vdata v) @ 10 # r = l @ 10 # fl"
    "\<And>acc info. rest info = fl \<Longrightarrow> \<exists>m. load_hex E acc l info = (info\<lparr>rest := r, tmplen := m\<rparr>, Some (Some (acc @ vdata v)))"
    using load_hex_dump[OF mem, of "vdata v" "n + length ?hx" r] v(1) by (auto simp: value_ok_def)
  let ?line = "?hx @ l"
  have type: "get_data_type ?line = Some (vtype v, REG_BINARY, l)"
  proof (cases "vtype v = REG_BINARY")
    case True
    then show ?thesis by (simp add: get_data_type_def ascii_def)
  next
    case False
    have "unat (vtype v) < 2 ^ LENGTH(32)" by (rule unsigned_less)
    then have "hex_value (format_hex (unat (vtype v))) < 2 ^ 64" using format_hex_digits[of "unat (vtype v)"] by simp
    then have "strtoul16 (format_hex (unat (vtype v)) @ 41 # 58 # l) = (unat (vtype v), 41 # 58 # l)"
      using strtoul16_digits[of "format_hex (unat (vtype v))" "41 # 58 # l"] format_hex_digits[of "unat (vtype v)"]
      by (simp add: isxdigit_def isdigit_def)
    then show ?thesis using False by (simp add: get_data_type_def ascii_def)
  qed
  have parse: "\<exists>m. parse_data E REG_BINARY l info = (info\<lparr>rest := r, tmplen := m\<rparr>, Some (Some (vdata v)))" if "rest info = fl" for info
    using l(4)[OF that, of "[]"] by (simp add: parse_data_def REG_BINARY_def REG_SZ_def REG_DWORD_def)
  have "last ?line \<noteq> 13" using l(2) by (auto simp: ascii_def last_append)
  moreover have "dump_value_data n v @ r = ?line @ 10 # fl" using l(3) unfolding dump_value_data_def Let_def if_not_P[OF v(2)] if_not_P[OF v(3)] by simp
  moreover have "10 \<notin> set ?line" "\<not> isspace (hd ?line)" "?line \<noteq> []" using l(1) by (simp_all add: ascii_def isspace_def)
  ultimately show ?thesis using type parse unfolding data_read_def by (rule_tac exI[of _ ?line], rule_tac exI[of _ fl]) blast
qed

section \<open>Names and whole values\<close>

text \<open>The line starts with the name; what follows it is where its data start.\<close>

lemma parse_name_dump:
  assumes "\<forall>c \<in> set (vname v). c < 65536" "length (dump_value_name v @ b) \<le> room" "b \<noteq> []" "\<not> isspace (hd b)"
  shows "parse_name room (dump_value_name v @ b) = Some (vname v, b)"
proof (cases "vname v = []")
  case True
  then show ?thesis using not_space_drop[of b] assms(3,4) by (simp add: parse_name_def dump_value_name_def isspace_def)
next
  case False
  let ?d = "dump_strW 34 34 (vname v)"
  have "length (vname v) < room" using assms(2) False dump_strW_length[of "vname v" 34 34] by (simp add: dump_value_name_def)
  from parse_dump[OF assms(1) this, of "61 # b"]
  have "parse_strW room (?d @ 34 # 61 # b) 34 = Some (vname v @ [0], Suc (length ?d))" .
  then show ?thesis using False not_space_drop[of b] assms(3,4) by (simp add: parse_name_def dump_value_name_def isspace_def)
qed

lemma name_clean: "10 \<notin> set (dump_value_name v)" "dump_value_name v \<noteq> []"
  by (simp_all add: dump_value_name_def)

lemma load_value_dump:
  assumes inv: "reg_inv cm s" and p: "alive s p" and v: "value_ok v" and mem: "enough_memory E"
    and line: "data_read E v r line file" and info: "rest info = file"
  shows "\<exists>s' m. load_value cm E s p (dump_value_name v @ line) info = (s', info\<lparr>rest := r, tmplen := m\<rparr>, True) \<and>
    value_put cm s p (name_key cm (vname v)) (vtype v) (vdata v) s'"
proof -
  let ?buf = "dump_value_name v @ line"
  have l: "line \<noteq> []" "\<not> isspace (hd line)" and
    ex: "\<exists>pt c. get_data_type line = Some (vtype v, pt, c) \<and>
      (\<forall>info. rest info = file \<longrightarrow> (\<exists>m. parse_data E pt c info = (info\<lparr>rest := r, tmplen := m\<rparr>, Some (Some (vdata v)))))"
    using line by (simp_all add: data_read_def)
  obtain pt c where t: "get_data_type line = Some (vtype v, pt, c)"
    "\<And>info. rest info = file \<Longrightarrow> \<exists>m. parse_data E pt c info = (info\<lparr>rest := r, tmplen := m\<rparr>, Some (Some (vdata v)))"
    using ex by blast
  obtain m where m: "length ?buf * 2 \<le> m" "get_file_tmp_space E info (length ?buf * 2) = Some (info\<lparr>tmplen := m\<rparr>)" using tmp_space[OF mem] by blast
  have nm: "parse_name (m div 2) ?buf = Some (vname v, line)" by (rule parse_name_dump[OF _ _ l]) (use v m(1) in \<open>auto simp: value_ok_def\<close>)
  obtain m2 where d: "parse_data E pt c (info\<lparr>tmplen := m\<rparr>) = (info\<lparr>tmplen := m, rest := r, tmplen := m2\<rparr>, Some (Some (vdata v)))"
    using t(2)[of "info\<lparr>tmplen := m\<rparr>"] info by auto
  have i2: "info\<lparr>tmplen := m, rest := r, tmplen := m2\<rparr> = info\<lparr>rest := r, tmplen := m2\<rparr>" by (cases info) simp
  obtain w i where f: "find_value cm (kvalues (keys s p)) (vname v) = (w, i)" by (cases "find_value cm (kvalues (keys s p)) (vname v)")
  have finish: ?thesis
    if a: "parse_value_name cm E s p ?buf info = (s1, info\<lparr>tmplen := m\<rparr>, Some (i, line))"
      and b: "value_put cm s p (name_key cm (vname v)) (vtype v) (vdata v) (write_value s1 p i (vtype v) (vdata v))" for s1
    using a b t(1) d mem unfolding i2 by (intro exI[of _ "write_value s1 p i (vtype v) (vdata v)"] exI[of _ m2]) (simp add: load_value_def enough_memory_def)
  show ?thesis
  proof (cases w)
    case (Some x)
    have "parse_value_name cm E s p ?buf info = (s, info\<lparr>tmplen := m\<rparr>, Some (i, line))"
      using m(2) nm f Some by (simp add: parse_value_name_def)
    then show ?thesis using write_found_value[OF inv p f[unfolded Some]] by (rule finish)
  next
    case None
    obtain s1 where ins: "insert_value E s p (vname v) i = (s1, None)"
      using mem v by (cases "length (kvalues (keys s p)) = nb_values (keys s p)")
        (auto simp: insert_value_def enough_memory_def value_ok_def grow_values_def Let_def)
    have "parse_value_name cm E s p ?buf info = (s1, info\<lparr>tmplen := m\<rparr>, Some (i, line))"
      using m(2) nm f None ins by (simp add: parse_value_name_def)
    then show ?thesis using write_new_value[OF inv p f[unfolded None] ins] by (rule finish)
  qed
qed

lemma dump_load:
  assumes inv: "reg_inv cm s" and p: "alive s p" and v: "value_ok v" and mem: "enough_memory E"
  shows "\<exists>line fl. read_next_line (dump_value v @ r) = Some (line, fl) \<and>
    (\<exists>s' m. load_value cm E s p line (info\<lparr>rest := fl\<rparr>) = (s', info\<lparr>rest := r, tmplen := m\<rparr>, True) \<and>
      reg_inv cm s' \<and> only_values s p s' \<and> values_of cm s' p = (values_of cm s p)(name_key cm (vname v) \<mapsto> (vtype v, vdata v)))"
proof -
  let ?n = "length (dump_value_name v)"
  have "\<exists>l fl. dump_value_data ?n v @ r = l @ 10 # fl \<and> data_read E v r l fl"
    using read_string[OF mem v, of ?n r] read_dword[OF v, of ?n r E] read_hex[OF mem v, of ?n r] by blast
  then obtain l fl where l: "dump_value_data ?n v @ r = l @ 10 # fl" "data_read E v r l fl" by blast
  have c: "10 \<notin> set l" "l \<noteq> []" "last l \<noteq> 13" using l(2) by (simp_all add: data_read_def)
  have "read_next_line (dump_value v @ r) = Some (dump_value_name v @ l, fl)"
    using read_line[of "dump_value_name v @ l" fl] c l(1) name_clean[of v] by (simp add: dump_value_def)
  moreover obtain s' m where s': "load_value cm E s p (dump_value_name v @ l) (info\<lparr>rest := fl\<rparr>) = (s', info\<lparr>rest := fl, rest := r, tmplen := m\<rparr>, True)"
    "value_put cm s p (name_key cm (vname v)) (vtype v) (vdata v) s'"
    using load_value_dump[OF inv p v mem l(2), of "info\<lparr>rest := fl\<rparr>"] by auto
  moreover have "info\<lparr>rest := fl, rest := r, tmplen := m\<rparr> = info\<lparr>rest := r, tmplen := m\<rparr>" by (cases info) simp
  ultimately show ?thesis using value_put_D[OF s'(2) inv] by auto
qed

end
