(* ===== verification/Registry_Requests.thy ===== *)
theory Registry_Requests
  imports Registry_Save Registry_Load
begin

text \<open>Saving, the requests, and the invariant of every sequence of them.\<close>

section \<open>Saving\<close>

lemma dump_path_returns: "reg_inv cm s \<Longrightarrow> alive s p \<Longrightarrow> p \<le> n \<Longrightarrow> \<exists>t. dump_path n s p base = Some t"
proof (induction n arbitrary: p)
  case (Suc n)
  have "kparent (keys s p) < p" by (rule reg_inv_D(1)[OF Suc.prems(1,2)])
  then show ?case using Suc.IH[of "kparent (keys s p)"] Suc.prems by (auto simp: Let_def get_parent_def)
qed simp

lemma dump_key_returns: "reg_inv cm s \<Longrightarrow> alive s p \<Longrightarrow> \<exists>t. dump_key s p base = Some t"
  using dump_path_returns[of cm s p "next_key s" base] by (auto simp: dump_key_def Let_def)

lemma save_returns:
  "reg_inv cm s \<Longrightarrow> alive s p \<Longrightarrow> next_key s - p \<le> n \<Longrightarrow> \<exists>t. save_subkeys n s p base = Some t"
  "reg_inv cm s \<Longrightarrow> \<forall>c \<in> set ps. alive s c \<and> next_key s - c \<le> n \<Longrightarrow> \<exists>t. save_list n s ps base = Some t"
proof (induction n s p base and n s ps base rule: save_subkeys_save_list.induct)
  case (2 n s p base)
  have "\<forall>c \<in> set (subkeys (keys s p)). alive s c \<and> next_key s - c \<le> n"
  proof
    fix c assume "c \<in> set (subkeys (keys s p))"
    from reg_inv_D(2)[OF "2.prems"(1,2) this] reg_inv_D(1)[OF "2.prems"(1), of c] "2.prems"(3)
    show "alive s c \<and> next_key s - c \<le> n" by auto
  qed
  then obtain b where b: "\<not> has s KEY_VOLATILE p \<longrightarrow> save_list n s (subkeys (keys s p)) base = Some b"
    using "2.IH" "2.prems"(1) dump_key_returns[OF "2.prems"(1,2), of base] by (metis (no_types, lifting))
  obtain a where "dump_key s p base = Some a" using dump_key_returns[OF "2.prems"(1,2)] by blast
  then show ?case using b by (simp add: Let_def)
next
  case (4 n s p ps base)
  obtain a where a: "save_subkeys n s p base = Some a" using "4.IH"(1) "4.prems" by auto
  obtain b where "save_list n s ps base = Some b" using "4.IH"(2)[OF a] "4.prems" by auto
  then show ?case using a by simp
qed simp_all

lemma save_all_returns: "reg_inv cm s \<Longrightarrow> alive s p \<Longrightarrow> \<exists>t. save_all_subkeys arch s p = Some t"
  using dump_path_returns[of cm s p "next_key s" 0] save_returns(1)[of cm s p "next_key s" p] by (auto simp: save_all_subkeys_def)

lemma dirty_up_cleaned:
  assumes inv: "reg_inv cm s" and d: "dirty_up s"
  shows "dirty_up (cleaned s (dirty_below s p))"
  unfolding dirty_but_def
proof (intro allI impI, elim conjE)
  let ?s = "cleaned s (dirty_below s p)"
  fix q assume q: "0 < q" "q < next_key ?s" "has ?s KEY_DIRTY q" "\<not> has ?s KEY_VOLATILE q" "kparent (keys ?s q) \<noteq> 0"
  have x: "\<not> dirty_below s p q" using q(3) by (auto split: if_splits)
  have a: "alive s q" "unsaved s q" "kparent (keys s q) \<noteq> 0" using q x by simp_all
  have "\<not> dirty_below s p (kparent (keys s q))" using x dirty_below.down[OF a(3,1) _ a(2)] by blast
  moreover have "has s KEY_DIRTY (kparent (keys s q))" using d a by (auto simp: dirty_but_def)
  ultimately show "has ?s KEY_DIRTY (kparent (keys ?s q))" by simp
qed

lemma save_branch_effect:
  assumes inv: "reg_inv cm s" and p: "alive s p"
  shows "\<exists>text ok. save_branch written arch s p =
      Some (if has s KEY_DIRTY p \<and> written then cleaned s (dirty_below s p) else s, text, ok) \<and>
    (text = None \<longleftrightarrow> \<not> has s KEY_DIRTY p \<or> \<not> written) \<and> (ok \<longleftrightarrow> \<not> has s KEY_DIRTY p \<or> written)"
proof -
  obtain t where "save_all_subkeys arch s p = Some t" using save_all_returns[OF inv p] by blast
  moreover have "make_clean s p = Some (cleaned s (dirty_below s p))" unfolding make_clean_def by (rule make_clean_effect(1)[OF inv p]) simp
  ultimately show ?thesis by (simp add: save_branch_def)
qed

section \<open>Requests\<close>

text \<open>
  The request \<^verbatim>\<open>set_registry_notification\<close>, without the event, which it resets; the new array of events
  is another number of pointers.
\<close>

definition set_registry_notification :: "reg_env \<Rightarrow> registry \<Rightarrow> ptr \<Rightarrow> nat \<Rightarrow> u32 \<Rightarrow> ptr \<Rightarrow> bool \<Rightarrow> u32 \<Rightarrow> registry \<times> status option" where
  "set_registry_notification E s p process hkey event sub filt =
     (let ns = notify_list (keys s p);
          found = find_notify ns process hkey;
          new = \<lparr>notify_events = [], subtree = sub, notify_filter = filt, notify_hkey = hkey, notify_process = process\<rparr> in
      if found = None \<and> \<not> can_new E then (s, Some STATUS_NO_MEMORY)
      else let ns1 = (if found = None then new # ns else ns); n = (case found of None \<Rightarrow> new | Some x \<Rightarrow> x);
               i = length (takeWhile (\<lambda>x. x \<noteq> n) ns1)
           in if can_grow E (length (notify_events n) + 1)
              then (set_key s p ((keys s p)\<lparr>notify_list := ns1[i := n\<lparr>notify_events := notify_events n @ [event]\<rparr>]\<rparr>), Some STATUS_PENDING)
              else (set_key s p ((keys s p)\<lparr>notify_list := ns1\<rparr>), Some STATUS_NO_MEMORY))"

text \<open>The root key, as \<^verbatim>\<open>init_registry\<close> creates it.\<close>

definition root_only :: "int \<Rightarrow> registry" where
  "root_only t =
     \<lparr>keys = (\<lambda>_. \<lparr>kname = ascii ''REGISTRY'', kparent = 0, kclass = [], subkeys = [], nb_subkeys = 0, wow6432node = 0, kvalues = [],
        nb_values = 0, kflags = KEY_DIRTY, modif = t, notify_list = []\<rparr>), next_key = 2, root_key = 1, now = t, signals = []\<rparr>"

text \<open>
  A request that names a key gets it from a handle, and not when it is deleted.  \<open>absolute\<close>: keys are also created by paths
  that are not relative to an open key.  Loading files and \<^verbatim>\<open>init_registry\<close> set the values of keys and mark them as links, shared or predefined.
\<close>

abbreviation usable :: "registry \<Rightarrow> ptr \<Rightarrow> bool" where
  "usable s p \<equiv> alive s p \<and> \<not> has s KEY_DELETED p"

inductive reg_reachable :: "(nat \<Rightarrow> nat) \<Rightarrow> bool \<Rightarrow> registry \<Rightarrow> bool" for cm absolute where
  start: "reg_reachable cm absolute (root_only t)"
| create: "reg_reachable cm absolute s \<Longrightarrow> usable s p \<Longrightarrow> fst (find_subkey cm s p name) = None \<Longrightarrow> relative \<or> absolute \<Longrightarrow>
    create_key cm E s relative p name options class = Some (s', r) \<Longrightarrow> reg_reachable cm absolute s'"
| rename: "reg_reachable cm absolute s \<Longrightarrow> usable s k \<Longrightarrow> rename_key cm E s k name = Some (s', err) \<Longrightarrow> reg_reachable cm absolute s'"
| delete: "reg_reachable cm absolute s \<Longrightarrow> alive s k \<Longrightarrow> delete_key E s k recurse = Some (s', err) \<Longrightarrow> reg_reachable cm absolute s'"
| set: "reg_reachable cm absolute s \<Longrightarrow> usable s p \<Longrightarrow> set_value cm E s p name type data = Some (s', err) \<Longrightarrow> reg_reachable cm absolute s'"
| delete_val: "reg_reachable cm absolute s \<Longrightarrow> usable s p \<Longrightarrow> delete_value cm E s p name = Some (s', err) \<Longrightarrow> reg_reachable cm absolute s'"
| notification: "reg_reachable cm absolute s \<Longrightarrow> usable s p \<Longrightarrow>
    set_registry_notification E s p process hkey event sub filt = (s', err) \<Longrightarrow> reg_reachable cm absolute s'"
| close: "reg_reachable cm absolute s \<Longrightarrow> alive s p \<Longrightarrow> reg_reachable cm absolute (key_close_handle s p process hkey)"
| save: "reg_reachable cm absolute s \<Longrightarrow> alive s p \<Longrightarrow> save_branch written arch s p = Some (s', text, ok) \<Longrightarrow> reg_reachable cm absolute s'"
| load: "reg_reachable cm absolute s \<Longrightarrow> usable s p \<Longrightarrow> load_value cm E s p line info = (s', info', ok) \<Longrightarrow> reg_reachable cm absolute s'"
| mark: "reg_reachable cm absolute s \<Longrightarrow> usable s p \<Longrightarrow> f \<in> {KEY_SYMLINK, KEY_WOWSHARE, KEY_PREDEF} \<Longrightarrow>
    reg_reachable cm absolute (set_key s p ((keys s p)\<lparr>kflags := kflags (keys s p) OR f\<rparr>))"
| time: "reg_reachable cm absolute s \<Longrightarrow> reg_reachable cm absolute (s\<lparr>now := t\<rparr>)"

lemma same_notify: "same s (set_key s p ((keys s p)\<lparr>notify_list := ns\<rparr>))"
  by (simp add: same_def)

lemma same_time: "reg_inv cm (s\<lparr>now := t\<rparr>) = reg_inv cm s" "dirty_up (s\<lparr>now := t\<rparr>) = dirty_up s"
  by (simp_all add: reg_inv_def key_ok_def dirty_but_def)

lemma dirty_up_notify: "dirty_up (set_key s p ((keys s p)\<lparr>notify_list := ns\<rparr>)) = dirty_up s"
proof -
  let ?s = "set_key s p ((keys s p)\<lparr>notify_list := ns\<rparr>)"
  have "kflags (keys ?s q) = kflags (keys s q)" "kparent (keys ?s q) = kparent (keys s q)" "next_key ?s = next_key s" for q by simp_all
  then show ?thesis unfolding dirty_but_def by (simp only:)
qed

lemma signals_inv: "reg_inv cm (s\<lparr>signals := l\<rparr>) = reg_inv cm s" "dirty_up (s\<lparr>signals := l\<rparr>) = dirty_up s"
  by (simp_all add: reg_inv_def key_ok_def dirty_but_def)

lemma nothing_dirty_up: "nothing_created s s' \<Longrightarrow> reg_inv cm s \<Longrightarrow> dirty_up s \<Longrightarrow> dirty_up s'"
  unfolding dirty_but_def
proof (intro allI impI, elim conjE)
  fix q assume n: "nothing_created s s'" "reg_inv cm s" "\<forall>q. alive s q \<and> has s KEY_DIRTY q \<and> \<not> has s KEY_VOLATILE q \<and>
      kparent (keys s q) \<noteq> 0 \<and> kparent (keys s q) \<noteq> 0 \<longrightarrow> has s KEY_DIRTY (kparent (keys s q))"
    and q: "0 < q" "q < next_key s'" "has s' KEY_DIRTY q" "\<not> has s' KEY_VOLATILE q" "kparent (keys s' q) \<noteq> 0"
  have a: "alive s q" and e: "kparent (keys s' q) = kparent (keys s q)" "kflags (keys s' q) = kflags (keys s q)"
    using n(1) q(1,2) by (auto simp: nothing_created_def)
  have "alive s (kparent (keys s q))" using reg_inv_D(1)[OF n(2) a] a q(5) e(1) by simp
  then have "kflags (keys s' (kparent (keys s q))) = kflags (keys s (kparent (keys s q)))" using n(1) by (auto simp: nothing_created_def)
  then show "has s' KEY_DIRTY (kparent (keys s' q))" using n(3) a q e by simp
qed

lemma reg_inv_start: "reg_inv cm (root_only t)" "dirty_up (root_only t)"
proof -
  have "p = 1" if "alive (root_only t) p" for p using that by (auto simp: root_only_def)
  then show "reg_inv cm (root_only t)" by (auto simp: reg_inv_def key_ok_def root_only_def array_ok_def KEY_DIRTY_def KEY_DELETED_def)
  show "dirty_up (root_only t)" by (simp add: dirty_but_def root_only_def)
qed

text \<open>What loading a line leaves, whether it succeeds or not.\<close>

lemma value_put_put:
  "value_put cm s p n type data s' \<Longrightarrow> \<exists>vs nb. s' = put_values s p vs nb \<and> ascending (\<lambda>v. name_key cm (vname v)) vs \<and> array_ok MIN_VALUES (length vs) nb"
  unfolding value_put_def by blast

lemma load_value_put:
  assumes inv: "reg_inv cm s" and p: "alive s p" and run: "load_value cm E s p line info = (s', info', ok)"
  shows "\<exists>vs nb. s' = put_values s p vs nb \<and> ascending (\<lambda>v. name_key cm (vname v)) vs \<and> array_ok MIN_VALUES (length vs) nb"
proof -
  let ?P = "\<lambda>s'. \<exists>vs nb. s' = put_values s p vs nb \<and> ascending (\<lambda>v. name_key cm (vname v)) vs \<and> array_ok MIN_VALUES (length vs) nb"
  have same: "?P s" using reg_inv_D(5,6)[OF inv p] by (intro exI[of _ "kvalues (keys s p)"] exI[of _ "nb_values (keys s p)"]) (simp add: put_values_def set_key_def)
  obtain s1 info1 r where n: "parse_value_name cm E s p line info = (s1, info1, r)" by (cases "parse_value_name cm E s p line info") auto
  have P: "?P s1 \<and> (\<forall>i b. r = Some (i, b) \<longrightarrow> (\<forall>type data. ?P (write_value s1 p i type data)))"
  proof (cases "s1 = s \<and> r = None")
    case True
    then show ?thesis using same by simp
  next
    case False
    then obtain name b v i where f: "find_value cm (kvalues (keys s p)) name = (v, i)" and
      c: "(v \<noteq> None \<and> s1 = s \<and> r = Some (i, b)) \<or> (v = None \<and> (\<exists>e. insert_value E s p name i = (s1, e) \<and> r = (if e = None then Some (i, b) else None)))"
      using n by (auto simp: parse_value_name_def split: option.splits prod.splits)
    from c show ?thesis
    proof (elim disjE exE conjE)
      assume a: "v \<noteq> None" "s1 = s" "r = Some (i, b)"
      then obtain x where "v = Some x" by blast
      then have "?P (write_value s p i type data)" for type data using value_put_put[OF write_found_value[OF inv p]] f by blast
      then show ?thesis using a same by simp
    next
      fix e assume a: "v = None" "insert_value E s p name i = (s1, e)" "r = (if e = None then Some (i, b) else None)"
      have w: "?P (write_value s1 p i type data)" if "e = None" for type data
        using value_put_put[OF write_new_value[OF inv p, of name i E s1 type data]] f a that by simp
      obtain vs nb where vs: "s1 = put_values s p vs nb" "array_ok MIN_VALUES (length vs) nb"
        "vs = (if e = None then insert_at i \<lparr>vname = name, vtype = REG_NONE, vdata = []\<rparr> (kvalues (keys s p)) else kvalues (keys s p))"
        using insert_value_effect[OF inv p, of name i E] f a by auto
      have "ascending (\<lambda>v. name_key cm (vname v)) vs"
        using find_value_spec(3)[OF inv p f[unfolded a(1)] refl, of "\<lparr>vname = name, vtype = REG_NONE, vdata = []\<rparr>"] reg_inv_D(5)[OF inv p] vs(3) by simp
      then show ?thesis using vs(1,2) w a(3) by (auto split: if_splits)
    qed
  qed
  have "s' = s1 \<or> (\<exists>i b type data. r = Some (i, b) \<and> s' = write_value s1 p i type data)"
    using run unfolding load_value_def n by (auto split: option.splits prod.splits if_splits)
  then show ?thesis using P by blast
qed

text \<open>Each request keeps the tree, and returns.\<close>

lemma reg_reachable_inv: "reg_reachable cm absolute s \<Longrightarrow> reg_inv cm s \<and> (\<not> absolute \<longrightarrow> dirty_up s)"
proof (induction rule: reg_reachable.induct)
  case (start t)
  then show ?case using reg_inv_start by blast
next
  case (create s p name relative E options cl s' r)
  have free: "children_of cm s p (name_key cm name) = None"
    using find_subkey_spec(1)[of cm s p name] create.IH create.hyps(2,3) by (metis prod.collapse)
  have "nothing_created s s1 \<Longrightarrow> dirty_up s \<Longrightarrow> reg_inv cm s \<Longrightarrow> dirty_up s1" for s1
    using nothing_dirty_up by blast
  then show ?case
    using create_key_effect[OF _ _ _ free, of E relative options cl] create.IH create.hyps(2,4,5) by (auto split: sum.splits)
next
  case (rename s k E name s' err)
  then show ?case using rename_key_effect[of cm s k E name] by auto
next
  case (delete s k E recurse s' err)
  then have inv: "reg_inv cm s" by blast
  show ?case
  proof (cases "has s KEY_DELETED k \<or> kparent (keys s k) \<noteq> 0")
    case True
    show ?thesis
    proof (cases recurse)
      case r: True
      then show ?thesis using delete_key_effect(1)[OF inv delete.hyps(2) True, of E] delete.hyps(3) delete.IH by (auto simp: deleted_all_def)
    next
      case False
      then show ?thesis using delete_key_effect(3)[OF inv delete.hyps(2), of E] delete.hyps(3) delete.IH by auto
    qed
  next
    case False
    then show ?thesis using delete_key_effect(2)[OF inv delete.hyps(2), of E recurse] delete.hyps(3) delete.IH by simp
  qed
next
  case (set s p E name type data s' err)
  then show ?case using set_value_effect[of cm s p E name type data] by auto
next
  case (delete_val s p E name s' err)
  then show ?case using delete_value_effect[of cm s p E name] by auto
next
  case (notification s p E process hkey event sub filt s' err)
  then obtain ns where "s' = s \<or> s' = set_key s p ((keys s p)\<lparr>notify_list := ns\<rparr>)"
    by (auto simp: set_registry_notification_def Let_def split: if_splits)
  then show ?case using notification.IH reg_inv_same[OF same_notify] dirty_up_notify by auto
next
  case (close s p process hkey)
  show ?case
  proof (cases "find_notify (notify_list (keys s p)) process hkey")
    case None
    then show ?thesis using close.IH by (simp add: key_close_handle_def)
  next
    case (Some n)
    show ?thesis unfolding key_close_handle_def Some option.case signals_inv reg_inv_same[OF same_notify] dirty_up_notify using close.IH .
  qed
next
  case (save s p wr arch s' tx ok)
  then show ?case using save_branch_effect[of cm s p wr arch] reg_inv_cleaned dirty_up_cleaned by (auto split: if_splits)
next
  case (load s p E line info s' info' ok)
  have inv: "reg_inv cm s" using load.IH by simp
  from load_value_put[OF inv conjunct1[OF load.hyps(2)] load.hyps(3)] show ?case
    using reg_inv_put[OF inv] load.IH by (elim exE conjE) auto
next
  case (mark s p f)
  have m: "(fl OR f) AND KEY_VOLATILE = fl AND KEY_VOLATILE" "(fl OR f) AND KEY_DELETED = fl AND KEY_DELETED" "(fl OR f) AND KEY_DIRTY = fl AND KEY_DIRTY" for fl
    using mark.hyps(3) by (auto simp: bit.conj_disj_distrib2 KEY_VOLATILE_def KEY_DELETED_def KEY_DIRTY_def KEY_SYMLINK_def KEY_WOWSHARE_def KEY_PREDEF_def)
  let ?s = "set_key s p ((keys s p)\<lparr>kflags := kflags (keys s p) OR f\<rparr>)"
  have e: "core (keys ?s q) = core (keys s q)" "kflags (keys ?s q) AND KEY_VOLATILE = kflags (keys s q) AND KEY_VOLATILE"
    "kflags (keys ?s q) AND KEY_DELETED = kflags (keys s q) AND KEY_DELETED" "kflags (keys ?s q) AND KEY_DIRTY = kflags (keys s q) AND KEY_DIRTY"
    "next_key ?s = next_key s" for q using m by simp_all
  show ?case using mark.IH unfolding reg_inv_def key_ok_def dirty_but_def core_D[OF e(1)] e(2-5) .
next
  case (time s t)
  then show ?case by (simp add: same_time)
qed

end
