(* ===== verification/Registry_Notify.thy ===== *)
theory Registry_Notify
  imports Registry_Requests
begin

text \<open>What a change signals, and what it leaves unmarked when its key was modified already.\<close>

section \<open>Notifications\<close>

definition sent :: "registry \<Rightarrow> u32 \<Rightarrow> bool \<Rightarrow> ptr \<Rightarrow> ptr list" where
  "sent s change not_subtree p =
     concat (map notify_events (filter (\<lambda>n. (not_subtree \<or> subtree n) \<and> change AND notify_filter n \<noteq> 0) (notify_list (keys s p))))"

fun path_up :: "nat \<Rightarrow> registry \<Rightarrow> ptr \<Rightarrow> ptr list" where
  "path_up 0 s p = []"
| "path_up (Suc n) s p = (if p = 0 then [] else p # path_up n s (kparent (keys s p)))"

lemma send_notifications_events: "snd (send_notifications change b ns) = concat (map notify_events (filter (\<lambda>n. (b \<or> subtree n) \<and> change AND notify_filter n \<noteq> 0) ns))"
  by (induction ns) (auto simp: do_notification_def split: prod.splits)

lemma send_notifications_list: "fst (send_notifications change b ns) =
    map (\<lambda>n. if (b \<or> subtree n) \<and> change AND notify_filter n \<noteq> 0 then n\<lparr>notify_events := []\<rparr> else n) ns"
  by (induction ns) (auto simp: do_notification_def split: prod.splits)

lemma check_notify_fields:
  "signals (check_notify s p change b) = signals s @ sent s change b p"
  "q \<noteq> p \<Longrightarrow> keys (check_notify s p change b) q = keys s q"
  "kparent (keys (check_notify s p change b) q) = kparent (keys s q)"
  "notify_list (keys (check_notify s p change b) p) =
     map (\<lambda>n. if (b \<or> subtree n) \<and> change AND notify_filter n \<noteq> 0 then n\<lparr>notify_events := []\<rparr> else n) (notify_list (keys s p))"
  by (simp_all add: check_notify_def sent_def Let_def split_beta send_notifications_events send_notifications_list)

lemma make_dirty_notify:
  "make_dirty_fuel n s p = Some s' \<Longrightarrow> notify_list (keys s' q) = notify_list (keys s q) \<and> signals s' = signals s"
  by (induction n s p rule: make_dirty_fuel.induct) (auto split: if_splits)

lemma path_up_cong: "(\<And>q. kparent (keys s' q) = kparent (keys s q)) \<Longrightarrow> path_up n s' p = path_up n s p"
  by (induction n arbitrary: p) simp_all

lemma path_up_less: "chain_ok s \<Longrightarrow> p < next_key s \<Longrightarrow> q \<in> set (path_up n s p) \<Longrightarrow> q \<le> p \<and> 0 < q"
proof (induction n arbitrary: p)
  case (Suc n)
  show ?case
  proof (cases "p = 0 \<or> q = p")
    case True
    then show ?thesis using Suc.prems(3) by (auto split: if_splits)
  next
    case False
    have "kparent (keys s p) < p" using Suc.prems False by (simp add: chain_ok_def)
    then show ?thesis using Suc.IH[of "kparent (keys s p)"] Suc.prems False by (auto split: if_splits)
  qed
qed simp

text \<open>The notifications after their events have been sent.\<close>

definition sent_list :: "u32 \<Rightarrow> bool \<Rightarrow> notify list \<Rightarrow> notify list" where
  "sent_list change not_subtree =
     map (\<lambda>n. if (not_subtree \<or> subtree n) \<and> change AND notify_filter n \<noteq> 0 then n\<lparr>notify_events := []\<rparr> else n)"

lemma notify_parents_sent:
  "chain_ok s \<Longrightarrow> p < next_key s \<Longrightarrow> notify_parents n s p change = Some s' \<Longrightarrow>
    signals s' = signals s @ concat (map (sent s change False) (path_up n s p)) \<and>
    (\<forall>q. notify_list (keys s' q) = (if q \<in> set (path_up n s p) then sent_list change False (notify_list (keys s q)) else notify_list (keys s q)))"
proof (induction n arbitrary: s p)
  case 0
  then show ?case by (auto split: if_splits)
next
  case (Suc n)
  let ?s = "check_notify s p change False" and ?r = "kparent (keys s p)"
  show ?case
  proof (cases "p = 0")
    case True
    then show ?thesis using Suc.prems(3) by simp
  next
    case False
    have r: "?r < p" using Suc.prems(1,2) False by (simp add: chain_ok_def)
    have same: "same s ?s" by (rule check_notify_same)
    have pre: "chain_ok ?s" "?r < next_key ?s" using Suc.prems(1,2) r chain_ok_same[OF same] same_D(1)[OF same] by simp_all
    have run: "notify_parents n ?s ?r change = Some s'" using Suc.prems(3) False by (simp add: get_parent_def)
    have path: "path_up n ?s ?r = path_up n s ?r" by (rule path_up_cong) (rule check_notify_fields)
    have above: "q \<noteq> p" if "q \<in> set (path_up n s ?r)" for q using path_up_less[OF Suc.prems(1) _ that] Suc.prems(2) r by auto
    have ev: "sent ?s change False q = sent s change False q" if "q \<in> set (path_up n s ?r)" for q
      using above[OF that] by (simp add: sent_def check_notify_fields)
    have m: "map (sent ?s change False) (path_up n s ?r) = map (sent s change False) (path_up n s ?r)" by (rule map_cong[OF refl ev])
    note IH = Suc.IH[OF pre run, unfolded path m]
    have "signals s' = signals s @ concat (map (sent s change False) (path_up (Suc n) s p))"
      using False IH by (simp add: check_notify_fields)
    moreover have "notify_list (keys s' q) = (if q \<in> set (path_up (Suc n) s p) then sent_list change False (notify_list (keys s q)) else notify_list (keys s q))" for q
      using IH above False by (cases "q = p") (auto simp: check_notify_fields sent_list_def)
    ultimately show ?thesis by blast
  qed
qed

lemma touch_key_sent:
  assumes inv: "reg_inv cm s" and p: "alive s p" and run: "touch_key s p change = Some s'"
  shows "signals s' = signals s @ sent s change True p @ concat (map (sent s change False) (path_up (next_key s) s (kparent (keys s p))))"
    and "notify_list (keys s' q) =
      (if q = p then sent_list change True (notify_list (keys s q))
       else if q \<in> set (path_up (next_key s) s (kparent (keys s p))) then sent_list change False (notify_list (keys s q))
       else notify_list (keys s q))"
proof -
  let ?s0 = "set_key s p ((keys s p)\<lparr>modif := now s\<rparr>)" and ?r = "kparent (keys s p)"
  obtain s1 where s1: "make_dirty_fuel (next_key s) ?s0 p = Some s1" "notify_parents (next_key s) (check_notify s1 p change True) ?r change = Some s'"
    using run by (auto simp: touch_key_def make_dirty_def bind_eq_Some_conv get_parent_def)
  have n1: "notify_list (keys s1 q) = notify_list (keys s q)" "signals s1 = signals s" for q using make_dirty_notify[OF s1(1)] by (simp_all split: if_splits)
  have "chain_ok ?s0" using reg_inv_chain[OF inv] chain_ok_same[of s ?s0] by (simp add: same_def)
  from make_dirty_fuel_effect[OF this, of p "next_key s"] p s1(1) have same1: "same ?s0 s1" by auto
  have same0: "same s ?s0" by (simp add: same_def)
  let ?s2 = "check_notify s1 p change True"
  have same2: "same s ?s2" using same_trans[OF same_trans[OF same0 same1] check_notify_same] .
  have rp: "?r < p" using reg_inv_D(1)[OF inv p] .
  have pre: "chain_ok ?s2" "?r < next_key ?s2" using reg_inv_chain[OF inv] chain_ok_same[OF same2] same_D(1)[OF same2] rp p by simp_all
  have path: "path_up (next_key s) ?s2 ?r = path_up (next_key s) s ?r" by (rule path_up_cong) (rule same_D(5)[OF same2])
  have above: "q \<noteq> p" if "q \<in> set (path_up (next_key s) s ?r)" for q using path_up_less[OF reg_inv_chain[OF inv] _ that] rp p by auto
  have ev: "map (sent ?s2 change False) (path_up (next_key s) s ?r) = map (sent s change False) (path_up (next_key s) s ?r)"
    using above by (simp add: sent_def check_notify_fields n1)
  note N = notify_parents_sent[OF pre s1(2), unfolded path ev]
  have s1p: "sent s1 change True p = sent s change True p" by (simp add: sent_def n1)
  show "signals s' = signals s @ sent s change True p @ concat (map (sent s change False) (path_up (next_key s) s ?r))"
    using N by (simp add: check_notify_fields n1 s1p)
  show "notify_list (keys s' q) =
      (if q = p then sent_list change True (notify_list (keys s q))
       else if q \<in> set (path_up (next_key s) s ?r) then sent_list change False (notify_list (keys s q)) else notify_list (keys s q))"
    using N above by (cases "q = p") (auto simp: check_notify_fields n1 sent_list_def)
qed

section \<open>A new key under a clean parent\<close>

lemma make_dirty_stops: "has s KEY_DIRTY p \<Longrightarrow> make_dirty_fuel n s p = Some s"
  by (cases n) (auto simp: flag_both)

lemma touch_dirty_flags:
  assumes "reg_inv cm s" "alive s p" "has s KEY_DIRTY p" "touch_key s p change = Some s'"
  shows "kflags (keys s' q) = kflags (keys s q)"
proof -
  let ?s0 = "set_key s p ((keys s p)\<lparr>modif := now s\<rparr>)" and ?r = "kparent (keys s p)"
  have "make_dirty_fuel (next_key s) ?s0 p = Some ?s0" by (rule make_dirty_stops) (simp add: assms(3))
  then have run: "notify_parents (next_key s) (check_notify ?s0 p change True) ?r change = Some s'"
    using assms(4) by (auto simp: touch_key_def make_dirty_def bind_eq_Some_conv get_parent_def)
  let ?s2 = "check_notify ?s0 p change True"
  have same0: "same s ?s0" by (simp add: same_def)
  have same2: "same s ?s2" using same_trans[OF same0 check_notify_same] .
  have r: "?r < p" using reg_inv_D(1)[OF assms(1,2)] .
  have "chain_ok ?s2" "?r < next_key ?s2" "?r \<le> next_key s"
    using reg_inv_chain[OF assms(1)] chain_ok_same[OF same2] same_D(1)[OF same2] r assms(2) by simp_all
  from notify_parents_returns[OF this, of change] run have "kflags (keys s' q) = kflags (keys ?s2 q)" by auto
  then show ?thesis by (simp add: check_notify_def split_beta)
qed

lemma set_value_dirty_flags:
  assumes inv: "reg_inv cm s" and p: "alive s p" and d: "has s KEY_DIRTY p" and run: "set_value cm E s p name type data = Some (s', err)"
  shows "kflags (keys s' q) = kflags (keys s q)"
proof -
  obtain v i where f: "find_value cm (kvalues (keys s p)) name = (v, i)" by (cases "find_value cm (kvalues (keys s p)) name")
  have w: "kflags (keys (write_value s1 p i type data) q) = kflags (keys s1 q)" for s1 q by (simp add: write_value_def)
  obtain s1 e where r: "(case v of None \<Rightarrow> insert_value E s p name i | Some _ \<Rightarrow> (s, None)) = (s1, e)" "\<And>q. kflags (keys s1 q) = kflags (keys s q)"
  proof (cases v)
    case None
    then obtain vs nb e where "insert_value E s p name i = (put_values s p vs nb, e)" using insert_value_effect[OF inv p, of name i E] f by auto
    then show ?thesis using that[of "put_values s p vs nb" e] None by simp
  qed (use that[of s None] in simp)
  have put: "value_put cm s p (name_key cm name) type data (write_value s1 p i type data)" if "e = None"
    using write_new_value[OF inv p] write_found_value[OF inv p] f r(1) that by (cases v) auto
  have "s' = s \<or> (e \<noteq> None \<and> s' = s1) \<or> (e = None \<and> touch_key (write_value s1 p i type data) p REG_NOTIFY_CHANGE_LAST_SET = Some s')"
    using run unfolding set_value_def f Let_def prod.case r(1) by (auto split: if_splits option.splits)
  then show ?thesis
  proof (elim disjE conjE)
    assume e: "e = None" and t: "touch_key (write_value s1 p i type data) p REG_NOTIFY_CHANGE_LAST_SET = Some s'"
    let ?w = "write_value s1 p i type data"
    note D = value_put_D[OF put[OF e] inv]
    have "alive ?w p" using D(3) p by (auto simp: only_values_def dest: same_D(1))
    from touch_dirty_flags[OF D(1) this _ t] show ?thesis using d w r(2) by simp
  qed (use r(2) in simp_all)
qed

lemma created_clean_parent:
  assumes inv: "reg_inv cm s" and p: "alive s p" "\<not> has s KEY_DELETED p" and free: "children_of cm s p (name_key cm name) = None"
    and run: "create_key cm E s False p name options class = Some (s1, Inr k)"
    and set: "set_value cm E s1 k vn type data = Some (s2, err)" and opt: "options AND REG_OPTION_VOLATILE = 0"
  shows "kparent (keys s2 k) = p \<and> alive s2 k \<and> unsaved s2 k \<and> kflags (keys s2 p) = kflags (keys s p) \<and> reg_inv cm s2"
proof -
  have 1: "reg_inv cm s1" "created cm s s1 p k name options" using create_key_effect[OF inv p free, of E False options "class"] run by auto
  then have k: "alive s1 k" "kparent (keys s1 k) = p" "kflags (keys s1 k) = new_flags options" "kflags (keys s1 p) = kflags (keys s p)"
    using p(1) unfolding created_def by auto
  have u: "unsaved s1 k" using k(3) opt by simp
  then have fl: "kflags (keys s2 q) = kflags (keys s1 q)" for q using set_value_dirty_flags[OF 1(1) k(1) _ set] by blast
  obtain "reg_inv cm s2" "only_values s1 k s2" using set_value_effect[OF 1(1) k(1), of E vn type data] set by auto
  then have "kparent (keys s2 k) = p" "alive s2 k" using k by (auto simp: only_values_def dest: same_D(1,5))
  then show ?thesis using fl u k(4) \<open>reg_inv cm s2\<close> by simp
qed

section \<open>Errors of setting a value\<close>

lemma set_value_succeeds:
  assumes inv: "reg_inv cm s" and p: "alive s p" and k: "\<not> has s KEY_PREDEF p" "\<not> has s KEY_SYMLINK p"
    and mem: "enough_memory E" "length name \<le> MAX_VALUE_LEN" and run: "set_value cm E s p name type data = Some (s', err)"
  shows "err = None"
proof -
  obtain v i where f: "find_value cm (kvalues (keys s p)) name = (v, i)" by (cases "find_value cm (kvalues (keys s p)) name")
  obtain s1 where r: "(case v of None \<Rightarrow> insert_value E s p name i | Some _ \<Rightarrow> (s, None)) = (s1, None)"
  proof (cases v)
    case None
    show ?thesis using that mem None by (cases "length (kvalues (keys s p)) = nb_values (keys s p)")
      (auto simp: insert_value_def enough_memory_def grow_values_def Let_def)
  qed (use that in simp)
  show ?thesis using run k mem(1) unfolding set_value_def f Let_def prod.case r by (auto simp: enough_memory_def split: if_splits)
qed

end
