(* ===== verification/Registry_Properties.thy ===== *)
theory Registry_Properties
  imports Registry_Notify
begin

text \<open>The properties of the registry, \<^verbatim>\<open>server/registry.c\<close>, in every state that requests reach.\<close>

section \<open>An example\<close>

text \<open>A registry with the key \<open>A\<close> below the root, with all memory granted and a table that changes no case.\<close>

definition plenty :: reg_env where "plenty = \<lparr>can_grow = (\<lambda>_. True), can_copy = (\<lambda>_. True), can_new = True\<rparr>"

definition no_case :: "nat \<Rightarrow> nat" where "no_case _ = 0"

lemma plenty_enough: "enough_memory plenty" "can_new plenty" "can_grow plenty n" "can_copy plenty n" by (simp_all add: plenty_def enough_memory_def)

lemma example_root: "reg_reachable no_case absolute (root_only 0)" "alive (root_only 0) 1" "\<not> has (root_only 0) KEY_DELETED 1" "next_key (root_only 0) = 2"
    "fst (find_subkey no_case (root_only 0) 1 name) = None" "\<not> has (root_only 0) KEY_VOLATILE 1" "subkeys (keys (root_only 0) 1) = []"
    "\<not> has (root_only 0) KEY_PREDEF 1" "\<not> has (root_only 0) KEY_SYMLINK 1"
  by (rule reg_reachable.start)
    (simp_all add: root_only_def KEY_DELETED_def KEY_DIRTY_def KEY_VOLATILE_def KEY_PREDEF_def KEY_SYMLINK_def find_subkey_def search_loop.simps)

definition example_key :: "bool \<Rightarrow> registry \<Rightarrow> registry" where
  "example_key relative s = fst (the (create_key no_case plenty s relative 1 (ascii ''A'') 0 []))"

lemma example_create:
  "create_key no_case plenty (root_only 0) relative 1 (ascii ''A'') 0 [] = Some (example_key relative (root_only 0), Inr 2)"
proof -
  have new: "new_flags 0 = KEY_DIRTY" by (simp add: new_flags_def)
  have "\<exists>s. create_subkey no_case plenty (root_only 0) 1 (ascii ''A'') 0 [] 0 = Some (s, Inr 2) \<and> kparent (keys s 2) = 1"
    by (simp add: create_subkey_def key_link_name_def grow_subkeys_def key_init_effect new plenty_enough root_only_def find_subkey_def search_loop.simps
        is_wow6432node_def get_path_element_def wow6432node_name_def ascii_def KEY_DIRTY_def KEY_VOLATILE_def new_key_def insert_at_def Let_def)
  then obtain s where s: "create_subkey no_case plenty (root_only 0) 1 (ascii ''A'') 0 [] 0 = Some (s, Inr 2)" "kparent (keys s 2) = 1" by blast
  have n: "now (root_only 0) = 0" by (simp add: root_only_def)
  have free: "children_of no_case (root_only 0) 1 (name_key no_case (ascii ''A'')) = None"
    unfolding children_of_def example_root(7) by (simp add: table_def)
  obtain s' r where r: "create_key no_case plenty (root_only 0) relative 1 (ascii ''A'') 0 [] = Some (s', r)"
    using create_key_effect[OF conjunct1[OF reg_reachable_inv[OF example_root(1)]] example_root(2,3) free, of plenty relative 0 "[]"] by blast
  then have "r = Inr 2" using s(1) n by (auto simp: create_key_def split: if_splits)
  then show ?thesis using r by (simp add: example_key_def)
qed

definition example :: registry where "example = example_key True (root_only 0)"

lemma example_facts: "reg_reachable no_case absolute example" "alive example 2" "alive example 1" "kparent (keys example 2) = 1"
    "\<not> has example KEY_DELETED 2" "\<not> has example KEY_DELETED 1" "next_key example = 3" "children_of no_case example 1 = [name_key no_case (ascii ''A'') \<mapsto> 2]"
    "\<not> has example KEY_PREDEF 1" "kvalues (keys example 2) = []" "unsaved example 2" "kname (keys example 2) = ascii ''A''"
    "children_of no_case example 2 = Map.empty" "kflags (keys example 2) AND KEY_SYMLINK = 0" "kflags (keys example 2) AND KEY_PREDEF = 0"
proof -
  have run: "create_key no_case plenty (root_only 0) True 1 (ascii ''A'') 0 [] = Some (example, Inr 2)"
    unfolding example_def by (rule example_create)
  show r: "reg_reachable no_case absolute example"
    by (rule reg_reachable.create[OF example_root(1) conjI[OF example_root(2,3)] example_root(5) disjI1[OF TrueI] run])
  have free: "children_of no_case (root_only 0) 1 (name_key no_case (ascii ''A'')) = None"
    unfolding children_of_def example_root(7) by (simp add: table_def)
  obtain s1 where c: "created no_case (root_only 0) s1 1 2 (ascii ''A'') 0" "same s1 example"
    using create_key_effect[OF conjunct1[OF reg_reachable_inv[OF example_root(1)]] example_root(2,3) free, of plenty True 0 "[]"] run by auto
  have old: "children_of no_case (root_only 0) 1 = Map.empty" unfolding children_of_def example_root(7) by (simp add: table_def)
  have new: "new_flags 0 = KEY_DIRTY" by (simp add: new_flags_def)
  have f: "next_key s1 = 3" "kparent (keys s1 2) = 1" "kflags (keys s1 2) = KEY_DIRTY" "kvalues (keys s1 2) = []" "kname (keys s1 2) = ascii ''A''"
    "subkeys (keys s1 2) = []" "children_of no_case s1 1 = [name_key no_case (ascii ''A'') \<mapsto> 2]" "kflags (keys s1 1) = kflags (keys (root_only 0) 1)"
    using c(1) example_root(2,4) unfolding created_def old new by auto
  note s = same_D[OF c(2)]
  show "next_key example = 3" "alive example 2" "alive example 1" "kparent (keys example 2) = 1" "kvalues (keys example 2) = []" "kname (keys example 2) = ascii ''A''"
    "\<not> has example KEY_DELETED 2" "\<not> has example KEY_DELETED 1" "children_of no_case example 1 = [name_key no_case (ascii ''A'') \<mapsto> 2]"
    "\<not> has example KEY_PREDEF 1" "unsaved example 2" "children_of no_case example 2 = Map.empty"
    "kflags (keys example 2) AND KEY_SYMLINK = 0" "kflags (keys example 2) AND KEY_PREDEF = 0"
    using s(1,4,5,9,12-15) s(16)[of 2] f example_root(3,8) children_of_same[OF c(2)]
    by (simp_all add: children_of_def[of no_case s1 2] table_def KEY_DIRTY_def KEY_VOLATILE_def KEY_DELETED_def KEY_SYMLINK_def KEY_PREDEF_def)
qed

section \<open>The tree\<close>

text \<open>
  C33: In every state that requests reach the keys are a tree in sorted arrays: the subkeys of a key are exactly the keys that have it as
  parent, in the strict order of their names without case, in an array with room for them; so are its values; a deleted key
  has no parent and no subkeys; and no key under a volatile one is kept.  As long as every key is created by a path relative
  to an open key, a modified key has a modified parent.
\<close>

theorem registry_tree:
  assumes "reg_reachable cm absolute s" "alive s p"
  shows "(\<forall>c. c \<in> set (subkeys (keys s p)) \<longleftrightarrow> alive s c \<and> kparent (keys s c) = p) \<and>
    ascending (\<lambda>c. name_key cm (kname (keys s c))) (subkeys (keys s p)) \<and> ascending (\<lambda>v. name_key cm (vname v)) (kvalues (keys s p)) \<and>
    length (subkeys (keys s p)) \<le> nb_subkeys (keys s p) \<and> length (kvalues (keys s p)) \<le> nb_values (keys s p) \<and>
    kparent (keys s p) < p \<and> (has s KEY_DELETED p \<longrightarrow> subkeys (keys s p) = [] \<and> kparent (keys s p) = 0) \<and>
    (kparent (keys s p) \<noteq> 0 \<and> has s KEY_VOLATILE (kparent (keys s p)) \<longrightarrow> has s KEY_VOLATILE p) \<and>
    (\<not> absolute \<and> has s KEY_DIRTY p \<and> \<not> has s KEY_VOLATILE p \<and> kparent (keys s p) \<noteq> 0 \<longrightarrow> has s KEY_DIRTY (kparent (keys s p)))"
proof -
  have inv: "reg_inv cm s" and d: "\<not> absolute \<longrightarrow> dirty_up s" using reg_reachable_inv[OF assms(1)] by simp_all
  note D = reg_inv_D[OF inv assms(2)]
  have len: "length (subkeys (keys s p)) \<le> nb_subkeys (keys s p)" "length (kvalues (keys s p)) \<le> nb_values (keys s p)"
    using D(4,6) by (simp_all add: array_ok_def)
  have dirty: "\<not> absolute \<and> has s KEY_DIRTY p \<and> \<not> has s KEY_VOLATILE p \<and> kparent (keys s p) \<noteq> 0 \<longrightarrow> has s KEY_DIRTY (kparent (keys s p))"
    using d assms(2) unfolding dirty_but_def by blast
  have subs: "\<forall>c. c \<in> set (subkeys (keys s p)) \<longleftrightarrow> alive s c \<and> kparent (keys s c) = p" by (rule allI) (rule subkeys_iff[OF inv assms(2)])
  have del: "has s KEY_DELETED p \<longrightarrow> subkeys (keys s p) = [] \<and> kparent (keys s p) = 0" by (rule impI) (rule D(8))
  have vol: "kparent (keys s p) \<noteq> 0 \<and> has s KEY_VOLATILE (kparent (keys s p)) \<longrightarrow> has s KEY_VOLATILE p" using D(10) by blast
  show ?thesis by (intro conjI) (rule subs D(3) D(5) len D(1) del vol dirty)+
qed

theorem registry_tree_witness: "kparent (keys example 2) < 2 \<and> subkeys (keys example 1) \<noteq> []"
proof -
  have "2 \<in> set (subkeys (keys example 1))" using registry_tree[OF example_facts(1,3)] example_facts(2,4) by blast
  then have "subkeys (keys example 1) \<noteq> []" by (metis list.distinct(1) list.set_cases)
  moreover have "kparent (keys example 2) < 2" using registry_tree[OF example_facts(1,2)] by blast
  ultimately show ?thesis by blast
qed

section \<open>Subkeys and values\<close>

text \<open>
  C34: The subkeys of a key are a map from names without case: the search finds what the map has, creating a key under a new
  name adds exactly that name or, when it fails, changes nothing, and renaming moves exactly one name to another, or fails and changes nothing.
\<close>

theorem registry_subkeys:
  assumes "reg_reachable cm absolute s" "usable s p"
  shows "fst (find_subkey cm s p name) = children_of cm s p (name_key cm name) \<and>
    (children_of cm s p (name_key cm name) = None \<longrightarrow>
      (\<exists>s' r. create_key cm E s relative p name options class = Some (s', r) \<and>
        (case r of Inl e \<Rightarrow> next_key s' = next_key s \<and> children_of cm s' p = children_of cm s p
         | Inr k \<Rightarrow> k = next_key s \<and> alive s' k \<and> kparent (keys s' k) = p \<and> kname (keys s' k) = name \<and>
             children_of cm s' p = (children_of cm s p)(name_key cm name \<mapsto> k)))) \<and>
    (\<forall>k. usable s k \<and> kparent (keys s k) = p \<longrightarrow>
      (\<exists>s' err. rename_key cm E s k name = Some (s', err) \<and>
        (if err = None then kname (keys s' k) = name \<and>
           children_of cm s' p = ((children_of cm s p)(name_key cm (kname (keys s k)) := None))(name_key cm name \<mapsto> k)
         else s' = s)))"
proof -
  have inv: "reg_inv cm s" using reg_reachable_inv[OF assms(1)] by simp
  have find: "fst (find_subkey cm s p name) = children_of cm s p (name_key cm name)"
    using find_subkey_spec(1)[OF inv conjunct1[OF assms(2)]] by (metis prod.collapse)
  have same_children: "children_of cm s' p = children_of cm s p" if n: "nothing_created s s'" for s'
  proof -
    have o: "subkeys (keys s' p) = subkeys (keys s p)" using n assms(2) by (simp add: nothing_created_def)
    have "kname (keys s' c) = kname (keys s c)" if "c \<in> set (subkeys (keys s p))" for c
      using n reg_inv_D(2)[OF inv conjunct1[OF assms(2)] that] by (simp add: nothing_created_def)
    then show ?thesis unfolding children_of_def o by (intro table_cong) simp
  qed
  have create: "\<exists>s' r. create_key cm E s relative p name options class = Some (s', r) \<and>
        (case r of Inl e \<Rightarrow> next_key s' = next_key s \<and> children_of cm s' p = children_of cm s p
         | Inr k \<Rightarrow> k = next_key s \<and> alive s' k \<and> kparent (keys s' k) = p \<and> kname (keys s' k) = name \<and>
             children_of cm s' p = (children_of cm s p)(name_key cm name \<mapsto> k))"
    if free: "children_of cm s p (name_key cm name) = None"
  proof -
    obtain s' r where r: "create_key cm E s relative p name options class = Some (s', r)"
      "case r of Inl e \<Rightarrow> nothing_created s s' | Inr k \<Rightarrow> (\<exists>s1. created cm s s1 p k name options \<and> same s1 s' \<and> (\<not> relative \<longrightarrow> s' = s1) \<and> (relative \<and> dirty_up s \<longrightarrow> dirty_up s'))"
      using create_key_effect[OF inv conjunct1[OF assms(2)] conjunct2[OF assms(2)] free, of E relative options "class"] by blast
    show ?thesis
    proof (cases r)
      case (Inl e)
      have n: "nothing_created s s'" using r(2) Inl by simp
      then have "next_key s' = next_key s" unfolding nothing_created_def by blast
      then show ?thesis using r(1) Inl same_children[OF n] by simp
    next
      case (Inr k)
      then obtain s1 where s1: "created cm s s1 p k name options" "same s1 s'" using r(2) by auto
      have c: "k = next_key s" "next_key s1 = Suc k" "kparent (keys s1 k) = p" "kname (keys s1 k) = name"
        "children_of cm s1 p = (children_of cm s p)(name_key cm name \<mapsto> k)" using s1(1) unfolding created_def by blast+
      have "k = next_key s \<and> alive s' k \<and> kparent (keys s' k) = p \<and> kname (keys s' k) = name \<and>
          children_of cm s' p = (children_of cm s p)(name_key cm name \<mapsto> k)"
        unfolding same_D(1,4,5)[OF s1(2)] children_of_same[OF s1(2)] using c assms(2) by simp
      then show ?thesis using r(1) Inr by (elim conjE) auto
    qed
  qed
  have "\<exists>s' err. rename_key cm E s k name = Some (s', err) \<and>
        (if err = None then kname (keys s' k) = name \<and>
           children_of cm s' p = ((children_of cm s p)(name_key cm (kname (keys s k)) := None))(name_key cm name \<mapsto> k)
         else s' = s)" if "usable s k" "kparent (keys s k) = p" for k
    using rename_key_effect[OF inv conjunct1[OF that(1)], of E name] that(2) by (metis (no_types, lifting))
  then show ?thesis using find create by blast
qed

theorem registry_subkeys_witness: "fst (find_subkey no_case example 1 (ascii ''A'')) = Some 2"
proof -
  have "usable example 1" using example_facts(3,6) by simp
  from registry_subkeys[OF example_facts(1) this, of "ascii ''A''" plenty True 0 "[]"] example_facts(8) show ?thesis by simp
qed

text \<open>
  C35: The values of a key refine a map from names without case to types and data: reading gives what the map has, cut to the room of the
  client, setting a value updates exactly its name, deleting it removes exactly its name, and a request that fails leaves the values of
  every key; with memory, a key that is neither predefined nor a link and a name that is not too long, setting succeeds.  A value that changes marks
  its key as modified, unless the key is volatile.
\<close>

theorem registry_values:
  assumes "reg_reachable cm absolute s" "usable s p"
  shows "get_value cm s p name room =
      (if has s KEY_PREDEF p then Inl STATUS_INVALID_HANDLE
       else case values_of cm s p (name_key cm name) of
              None \<Rightarrow> Inl STATUS_OBJECT_NAME_NOT_FOUND
            | Some (type, data) \<Rightarrow> Inr (type, length data, take room data)) \<and>
    (\<exists>s' err. set_value cm E s p name type data = Some (s', err) \<and>
      values_of cm s' p = (if err = None then (values_of cm s p)(name_key cm name \<mapsto> (type, data)) else values_of cm s p) \<and>
      (\<forall>q. q \<noteq> p \<longrightarrow> values_of cm s' q = values_of cm s q) \<and>
      (values_of cm s' p \<noteq> values_of cm s p \<longrightarrow> has s KEY_VOLATILE p \<or> has s' KEY_DIRTY p) \<and>
      (enough_memory E \<and> \<not> has s KEY_PREDEF p \<and> \<not> has s KEY_SYMLINK p \<and> length name \<le> MAX_VALUE_LEN \<longrightarrow> err = None)) \<and>
    (\<exists>s' err. delete_value cm E s p name = Some (s', err) \<and>
      values_of cm s' p = (if err = None then (values_of cm s p)(name_key cm name := None) else values_of cm s p) \<and>
      (\<forall>q. q \<noteq> p \<longrightarrow> values_of cm s' q = values_of cm s q) \<and>
      (values_of cm s' p \<noteq> values_of cm s p \<longrightarrow> has s KEY_VOLATILE p \<or> has s' KEY_DIRTY p) \<and>
      err = (if has s KEY_PREDEF p then Some STATUS_INVALID_HANDLE
             else if values_of cm s p (name_key cm name) = None then Some STATUS_OBJECT_NAME_NOT_FOUND else None))"
proof (intro conjI)
  have inv: "reg_inv cm s" and p: "alive s p" using reg_reachable_inv[OF assms(1)] assms(2) by simp_all
  show "get_value cm s p name room =
      (if has s KEY_PREDEF p then Inl STATUS_INVALID_HANDLE
       else case values_of cm s p (name_key cm name) of
              None \<Rightarrow> Inl STATUS_OBJECT_NAME_NOT_FOUND
            | Some (type, data) \<Rightarrow> Inr (type, length data, take room data))"
    by (rule get_value_effect[OF inv p])
  obtain s' err where s': "set_value cm E s p name type data = Some (s', err)" "only_values s p s'"
    "values_of cm s' p = (if err = None then (values_of cm s p)(name_key cm name \<mapsto> (type, data)) else values_of cm s p)"
    "values_of cm s' p \<noteq> values_of cm s p \<longrightarrow> has s KEY_VOLATILE p \<or> has s' KEY_DIRTY p"
    using set_value_effect[OF inv p, of E name type data] by blast
  have "enough_memory E \<and> \<not> has s KEY_PREDEF p \<and> \<not> has s KEY_SYMLINK p \<and> length name \<le> MAX_VALUE_LEN \<longrightarrow> err = None"
    using set_value_succeeds[OF inv p _ _ _ _ s'(1)] by blast
  then show "\<exists>s' err. set_value cm E s p name type data = Some (s', err) \<and>
      values_of cm s' p = (if err = None then (values_of cm s p)(name_key cm name \<mapsto> (type, data)) else values_of cm s p) \<and>
      (\<forall>q. q \<noteq> p \<longrightarrow> values_of cm s' q = values_of cm s q) \<and>
      (values_of cm s' p \<noteq> values_of cm s p \<longrightarrow> has s KEY_VOLATILE p \<or> has s' KEY_DIRTY p) \<and>
      (enough_memory E \<and> \<not> has s KEY_PREDEF p \<and> \<not> has s KEY_SYMLINK p \<and> length name \<le> MAX_VALUE_LEN \<longrightarrow> err = None)"
    using s' only_values_others[OF s'(2)] by blast
  show "\<exists>s' err. delete_value cm E s p name = Some (s', err) \<and>
      values_of cm s' p = (if err = None then (values_of cm s p)(name_key cm name := None) else values_of cm s p) \<and>
      (\<forall>q. q \<noteq> p \<longrightarrow> values_of cm s' q = values_of cm s q) \<and>
      (values_of cm s' p \<noteq> values_of cm s p \<longrightarrow> has s KEY_VOLATILE p \<or> has s' KEY_DIRTY p) \<and>
      err = (if has s KEY_PREDEF p then Some STATUS_INVALID_HANDLE
             else if values_of cm s p (name_key cm name) = None then Some STATUS_OBJECT_NAME_NOT_FOUND else None)"
    using delete_value_effect[OF inv p, of E name] only_values_others by blast
qed

theorem registry_values_witness:
  "\<exists>s'. set_value no_case plenty example 2 (ascii ''x'') REG_DWORD [1, 0, 0, 0] = Some (s', None) \<and>
    values_of no_case s' 2 (name_key no_case (ascii ''x'')) = Some (REG_DWORD, [1, 0, 0, 0])"
proof -
  have u: "usable example 2" using example_facts(2,5) by simp
  have "length (ascii ''x'') \<le> MAX_VALUE_LEN" by (simp add: ascii_def MAX_VALUE_LEN_def)
  moreover obtain s' err where s': "set_value no_case plenty example 2 (ascii ''x'') REG_DWORD [1, 0, 0, 0] = Some (s', err)"
    "values_of no_case s' 2 = (if err = None then (values_of no_case example 2)(name_key no_case (ascii ''x'') \<mapsto> (REG_DWORD, [1, 0, 0, 0])) else values_of no_case example 2)"
    "enough_memory plenty \<and> \<not> has example KEY_PREDEF 2 \<and> \<not> has example KEY_SYMLINK 2 \<and> length (ascii ''x'') \<le> MAX_VALUE_LEN \<longrightarrow> err = None"
    using registry_values[OF example_facts(1) u, of "ascii ''x''" 0 plenty REG_DWORD "[1, 0, 0, 0]"] by blast
  ultimately have "err = None" using plenty_enough(1) example_facts(14,15) by blast
  then show ?thesis using s'(1,2) by simp
qed

section \<open>Deleting\<close>

text \<open>
  C36: Deleting a key that has a parent with everything below it always ends.  Without an error, which only a predefined key below it causes,
  exactly the keys below it are deleted and unlinked; in any case all other keys keep their parent, name and values, and what it did not
  reach is left as it was.  The root is never deleted.
\<close>

theorem delete_branch:
  assumes "reg_reachable cm absolute s" "usable s k"
  shows "if kparent (keys s k) = 0 then delete_key E s k True = Some (s, Some STATUS_ACCESS_DENIED)
    else \<exists>s' err. delete_key E s k True = Some (s', err) \<and>
      (\<exists>X. (\<forall>q. alive s q \<and> X q \<longrightarrow> below s k q \<and> kparent (keys s' q) = 0 \<and> has s' KEY_DELETED q) \<and>
        (\<forall>q. alive s q \<and> \<not> X q \<longrightarrow> kparent (keys s' q) = kparent (keys s q) \<and> kname (keys s' q) = kname (keys s q) \<and> kvalues (keys s' q) = kvalues (keys s q)) \<and>
        (err = None \<longrightarrow> X = below s k)) \<and>
      (err \<noteq> None \<longrightarrow> (\<exists>q. alive s q \<and> below s k q \<and> has s KEY_PREDEF q))"
proof (cases "kparent (keys s k) = 0")
  case True
  have inv: "reg_inv cm s" using reg_reachable_inv[OF assms(1)] by simp
  show ?thesis using delete_key_effect(2)[OF inv _ _ True, of E True] assms(2) True by simp
next
  case False
  have inv: "reg_inv cm s" using reg_reachable_inv[OF assms(1)] by simp
  obtain s' err where d: "delete_key E s k True = Some (s', err)" "deleted_all cm s s' err (below s k)"
    using delete_key_effect(1)[OF inv, of k E] assms(2) False by blast
  obtain X where X: "only_deleted s s' X" "\<forall>q. alive s q \<and> X q \<longrightarrow> below s k q" "err = None \<longrightarrow> X = below s k"
    using d(2) unfolding deleted_all_def by blast
  have "\<forall>q. alive s q \<and> X q \<longrightarrow> below s k q \<and> kparent (keys s' q) = 0 \<and> has s' KEY_DELETED q"
    using X(2) only_deleted_D(2)[OF X(1)] by blast
  moreover have "\<forall>q. alive s q \<and> \<not> X q \<longrightarrow> kparent (keys s' q) = kparent (keys s q) \<and> kname (keys s' q) = kname (keys s q) \<and> kvalues (keys s' q) = kvalues (keys s q)"
    using X(1) unfolding only_deleted_def by metis
  moreover have "err \<noteq> None \<longrightarrow> (\<exists>q. alive s q \<and> below s k q \<and> has s KEY_PREDEF q)" using d(2) unfolding deleted_all_def by blast
  ultimately show ?thesis using d(1) X(3) False by auto
qed

lemma below_example: "below example 2 q \<Longrightarrow> alive example q \<Longrightarrow> q = 2"
  using below_le[of example 2 q no_case] reg_reachable_inv[OF example_facts(1)] example_facts(7) by fastforce

theorem delete_branch_witness: "\<exists>s'. delete_key plenty example 2 True = Some (s', None) \<and> has s' KEY_DELETED 2"
proof -
  have u: "usable example 2" using example_facts(2,5) by simp
  obtain s' err X where s': "delete_key plenty example 2 True = Some (s', err)"
    "\<forall>q. alive example q \<and> X q \<longrightarrow> below example 2 q \<and> kparent (keys s' q) = 0 \<and> has s' KEY_DELETED q" "err = None \<longrightarrow> X = below example 2"
    "err \<noteq> None \<longrightarrow> (\<exists>q. alive example q \<and> below example 2 q \<and> has example KEY_PREDEF q)"
    using delete_branch[OF example_facts(1) u, of plenty] example_facts(4) by auto
  have e: "err = None" using s'(4) below_example example_facts(15) by metis
  have "has s' KEY_DELETED 2" using s'(2) s'(3)[rule_format, OF e] example_facts(2) below.here[of example 2] by blast
  then show ?thesis using s'(1) e by simp
qed

section \<open>Notifications\<close>

text \<open>
  C37: A change of a key sets the events of the notifications for such changes on the key, and on every key above it of those that watch
  their subtrees, from the key upwards, and no other event; these notifications have no events any more, and all others keep theirs.
\<close>

theorem change_notifies:
  assumes "reg_reachable cm absolute s" "alive s p"
  shows "\<exists>s'. touch_key s p change = Some s' \<and>
    signals s' = signals s @ sent s change True p @ concat (map (sent s change False) (path_up (next_key s) s (kparent (keys s p)))) \<and>
    (\<forall>q. notify_list (keys s' q) =
      (if q = p then sent_list change True (notify_list (keys s q))
       else if q \<in> set (path_up (next_key s) s (kparent (keys s p))) then sent_list change False (notify_list (keys s q))
       else notify_list (keys s q)))"
proof -
  have inv: "reg_inv cm s" using reg_reachable_inv[OF assms(1)] by simp
  obtain s' where s': "touch_key s p change = Some s'" using touch_key_effect[OF reg_inv_chain[OF inv] assms(2), of change] by blast
  then show ?thesis using touch_key_sent[OF inv assms(2) s'] by blast
qed

theorem change_notifies_witness:
  "signals (the (touch_key (fst (set_registry_notification plenty example 1 7 8 99 True REG_NOTIFY_CHANGE_LAST_SET)) 2 REG_NOTIFY_CHANGE_LAST_SET)) =
    signals example @ sent example REG_NOTIFY_CHANGE_LAST_SET True 2 @
    sent (fst (set_registry_notification plenty example 1 7 8 99 True REG_NOTIFY_CHANGE_LAST_SET)) REG_NOTIFY_CHANGE_LAST_SET False 1"
proof -
  obtain s e where se: "set_registry_notification plenty example 1 7 8 99 True REG_NOTIFY_CHANGE_LAST_SET = (s, e)" by fastforce
  have "usable example 1" using example_facts(3,6) by simp
  from reg_reachable.notification[OF example_facts(1) this se] have r: "reg_reachable no_case False s" .
  obtain ns where s: "s = set_key example 1 ((keys example 1)\<lparr>notify_list := ns\<rparr>)"
    using se by (auto simp: set_registry_notification_def Let_def plenty_enough split: if_splits)
  have "kparent (keys example 1) < 1" by (rule reg_inv_D(1)[OF conjunct1[OF reg_reachable_inv[OF example_facts(1)]] example_facts(3)])
  then have f: "next_key s = 3" "alive s 2" "kparent (keys s 2) = 1" "kparent (keys s 1) = 0" "signals s = signals example" "notify_list (keys s 2) = notify_list (keys example 2)"
    using s example_facts(4,7) by (simp_all del: One_nat_def)
  have "path_up (next_key s) s 1 = [1]" unfolding f(1) by (simp add: numeral_3_eq_3 f(4)[simplified])
  then show ?thesis using change_notifies[OF r f(2), of REG_NOTIFY_CHANGE_LAST_SET] f se by (auto simp: sent_def)
qed

section \<open>Files\<close>

text \<open>
  C38: A value that is written to a registry file is read back: the lines that \<^verbatim>\<open>dump_value\<close> writes, whatever follows them, are
  read by \<^verbatim>\<open>load_value\<close> to the last byte, and give the key that value under its name, with its type and data, and no other change of values.
  This covers strings, numbers and hex data of any length and type, continued over several lines.
\<close>

theorem value_text_roundtrip:
  assumes "reg_reachable cm absolute s" "usable s p" "value_ok v" "enough_memory E"
  shows "\<exists>line rest1 s' m. read_next_line (dump_value v @ r) = Some (line, rest1) \<and>
    load_value cm E s p line (info\<lparr>rest := rest1\<rparr>) = (s', info\<lparr>rest := r, tmplen := m\<rparr>, True) \<and>
    values_of cm s' p = (values_of cm s p)(name_key cm (vname v) \<mapsto> (vtype v, vdata v)) \<and>
    (\<forall>q. q \<noteq> p \<longrightarrow> values_of cm s' q = values_of cm s q)"
proof -
  have inv: "reg_inv cm s" using reg_reachable_inv[OF assms(1)] by simp
  obtain line fl s' m where "read_next_line (dump_value v @ r) = Some (line, fl)"
    "load_value cm E s p line (info\<lparr>rest := fl\<rparr>) = (s', info\<lparr>rest := r, tmplen := m\<rparr>, True)" "only_values s p s'"
    "values_of cm s' p = (values_of cm s p)(name_key cm (vname v) \<mapsto> (vtype v, vdata v))"
    using dump_load[OF inv conjunct1[OF assms(2)] assms(3,4), of r info] by blast
  then show ?thesis using only_values_others by blast
qed

theorem value_text_roundtrip_witness:
  "\<exists>line rest1 s' m. read_next_line (dump_value \<lparr>vname = [97, 34], vtype = REG_BINARY, vdata = replicate 100 171\<rparr> @ [64]) = Some (line, rest1) \<and>
    load_value no_case plenty example 2 line \<lparr>rest = rest1, tmplen = 4\<rparr> = (s', \<lparr>rest = [64], tmplen = m\<rparr>, True) \<and>
    values_of no_case s' 2 (name_key no_case [97, 34]) = Some (REG_BINARY, replicate 100 171)"
proof -
  have v: "value_ok \<lparr>vname = [97, 34], vtype = REG_BINARY, vdata = replicate 100 171\<rparr>" by (simp add: value_ok_def MAX_VALUE_LEN_def)
  have u: "usable example 2" using example_facts(2,5) by simp
  from value_text_roundtrip[OF example_facts(1) u v plenty_enough(1), of "[64]" "\<lparr>rest = [], tmplen = 4\<rparr>"] show ?thesis by fastforce
qed



text \<open>
  C40: A key that is created by a path that is not relative to an open key is lost when the server ends: its parent is not marked, and
  whatever values it is given later, the mark of the new key keeps the parent from being marked, so that saving the parent's branch takes it
  for unmodified and leaves the file alone.
\<close>

theorem absolute_creation_unsaved:
  assumes "reg_reachable cm True s" "usable s p" "\<not> has s KEY_DIRTY p" "fst (find_subkey cm s p name) = None" "options AND REG_OPTION_VOLATILE = 0"
    and "create_key cm E s False p name options class = Some (s1, Inr k)" "set_value cm E s1 k vn type data = Some (s2, err)"
  shows "kparent (keys s2 k) = p \<and> unsaved s2 k \<and> save_branch written arch s2 p = Some (s2, None, True)"
proof -
  have inv: "reg_inv cm s" using reg_reachable_inv[OF assms(1)] by simp
  have free: "children_of cm s p (name_key cm name) = None" using find_subkey_spec(1)[OF inv conjunct1[OF assms(2)]] assms(4) by (metis prod.collapse)
  from created_clean_parent[OF inv conjunct1[OF assms(2)] conjunct2[OF assms(2)] free assms(6,7,5)]
  have k: "kparent (keys s2 k) = p" "unsaved s2 k" "kflags (keys s2 p) = kflags (keys s p)" by blast+
  then show ?thesis using assms(3) by (simp add: save_branch_def)
qed

definition clean_root :: registry where
  "clean_root = cleaned (root_only 0) (dirty_below (root_only 0) 1)"

lemma clean_root_facts: "reg_reachable no_case True clean_root" "usable clean_root 1" "\<not> has clean_root KEY_DIRTY 1"
    "fst (find_subkey no_case clean_root 1 name) = None" "\<exists>s. create_key no_case plenty clean_root False 1 (ascii ''A'') 0 [] = Some (s, Inr 2)"
proof -
  have inv: "reg_inv no_case (root_only 0)" using reg_reachable_inv[OF example_root(1)] by simp
  have d: "has (root_only 0) KEY_DIRTY 1" by (simp add: root_only_def KEY_DIRTY_def)
  obtain out ok where "save_branch True PREFIX_64BIT (root_only 0) 1 = Some (clean_root, out, ok)"
    using save_branch_effect[OF inv example_root(2), of True PREFIX_64BIT] d unfolding clean_root_def by auto
  then show "reg_reachable no_case True clean_root" by (rule reg_reachable.save[OF example_root(1,2)])
  have "dirty_below (root_only 0) 1 q \<longleftrightarrow> q = 1" for q
    using dirty_below_children[OF inv example_root(2) conjI[OF d example_root(6)], of q] unfolding example_root(7) by simp
  then have c: "clean_root = cleaned (root_only 0) (\<lambda>q. q = 1)" unfolding clean_root_def by (rule cleaned_cong)
  show "usable clean_root 1" "\<not> has clean_root KEY_DIRTY 1" using example_root(2,3) unfolding c by simp_all
  have k: "subkeys (keys clean_root 1) = []" using example_root(7) unfolding c by simp
  show "fst (find_subkey no_case clean_root 1 name) = None" unfolding find_subkey_def k by (simp add: search_loop.simps)
  show "\<exists>s. create_key no_case plenty clean_root False 1 (ascii ''A'') 0 [] = Some (s, Inr 2)"
    by (simp add: c cleaned_def create_key_def create_subkey_def key_link_name_def grow_subkeys_def key_init_effect plenty_enough root_only_def find_subkey_def
        search_loop.simps is_wow6432node_def get_path_element_def wow6432node_name_def ascii_def KEY_DIRTY_def KEY_VOLATILE_def new_key_def new_flags_def insert_at_def Let_def)
qed

lemma registry_alive_created:
  assumes "reg_reachable cm absolute s" "usable s p" "fst (find_subkey cm s p name) = None" "create_key cm E s relative p name options class = Some (s1, Inr k)"
  shows "alive s1 k"
proof -
  have inv: "reg_inv cm s" using reg_reachable_inv[OF assms(1)] by simp
  have free: "children_of cm s p (name_key cm name) = None" using find_subkey_spec(1)[OF inv conjunct1[OF assms(2)]] assms(3) by (metis prod.collapse)
  obtain s0 where s0: "created cm s s0 p k name options" "same s0 s1"
    using create_key_effect[OF inv conjunct1[OF assms(2)] conjunct2[OF assms(2)] free, of E relative options "class"] assms(4) by auto
  then have "k = next_key s" "next_key s0 = Suc k" unfolding created_def by blast+
  then show ?thesis using same_D(1)[OF s0(2)] assms(2) by simp
qed

theorem absolute_creation_unsaved_witness:
  "\<exists>s1 s2 err. create_key no_case plenty clean_root False 1 (ascii ''A'') 0 [] = Some (s1, Inr 2) \<and>
    set_value no_case plenty s1 2 (ascii ''x'') REG_DWORD [1, 0, 0, 0] = Some (s2, err) \<and> unsaved s2 2 \<and>
    save_branch True PREFIX_64BIT s2 1 = Some (s2, None, True)"
proof -
  obtain s1 where s1: "create_key no_case plenty clean_root False 1 (ascii ''A'') 0 [] = Some (s1, Inr 2)" using clean_root_facts(5) by blast
  have r: "reg_reachable no_case True s1"
    by (rule reg_reachable.create[OF clean_root_facts(1,2,4) disjI2[OF TrueI] s1])
  have "next_key clean_root = 2" by (simp add: clean_root_def example_root)
  then have "alive s1 2"
    using registry_alive_created[OF clean_root_facts(1,2,4) s1] by simp
  then obtain s2 err where s2: "set_value no_case plenty s1 2 (ascii ''x'') REG_DWORD [1, 0, 0, 0] = Some (s2, err)"
    using set_value_effect[OF conjunct1[OF reg_reachable_inv[OF r]], of 2 plenty "ascii ''x''" REG_DWORD "[1, 0, 0, 0]"] by blast
  have "0 AND REG_OPTION_VOLATILE = 0" by simp
  from absolute_creation_unsaved[OF clean_root_facts(1,2,3,4) this s1 s2] s1 s2 show ?thesis by blast
qed

end
